(* ===== verification/Cpptb_Prelude.thy ===== *)
theory Cpptb_Prelude
  imports Main "HOL-Library.Word"
begin

text \<open>
  Shared vocabulary of the development: the machine integer types the headers use, the failure
  values that stand for an abort or a thrown exception, the sum-typed result of a fallible
  operation, and the generic facts on words, lists and sums that the component theories share.

  Numbers that the code only counts or indexes with (\<open>std::size_t\<close> sizes and indices) are
  \<open>nat\<close>; values whose width matters are words.
\<close>

unbundle bit_operations_syntax

section \<open>Types\<close>

type_synonym u8 = "8 word"
type_synonym u16 = "16 word"
type_synonym u32 = "32 word"
type_synonym u64 = "64 word"
type_synonym u128 = "128 word"

text \<open>
  A failure is either \<open>std::abort\<close> after a message on stderr or a standard exception. The
  message is kept, so that two failing branches stay distinguishable.
\<close>

datatype failure =
    Abort string
  | InvalidArgument string
  | LogicError string
  | OutOfRange string
  | OverflowError string
  | RuntimeError string

type_synonym 'a result = "failure + 'a"

abbreviation Ok :: "'a \<Rightarrow> 'a result" where
  "Ok \<equiv> Inr"

abbreviation Fail :: "failure \<Rightarrow> 'a result" where
  "Fail \<equiv> Inl"

fun result_bind :: "'a result \<Rightarrow> ('a \<Rightarrow> 'b result) \<Rightarrow> 'b result" where
  "result_bind (Inl e) f = Inl e"
| "result_bind (Inr x) f = f x"

fun is_ok :: "'a result \<Rightarrow> bool" where
  "is_ok (Inl e) = False"
| "is_ok (Inr x) = True"

text \<open>The largest value of \<open>uint64_t\<close>, for the numbers kept as \<open>nat\<close>.\<close>

definition max_u64 :: nat where
  "max_u64 = 18446744073709551615"

lemma max_u64_eq: "max_u64 = 2 ^ 64 - 1"
  by (simp add: max_u64_def)

section \<open>Collections of facts\<close>

named_theorems bits_at \<open>what each operation does to a single bit\<close>
named_theorems keeps_ok \<open>operations preserve the well-formedness invariant\<close>

section \<open>Sums\<close>

lemma result_bind_Ok_iff: "result_bind r f = Inr y \<longleftrightarrow> (\<exists>x. r = Inr x \<and> f x = Inr y)"
  by (cases r) auto

lemma result_bind_assoc: "result_bind (result_bind r f) g = result_bind r (\<lambda>x. result_bind (f x) g)"
  by (cases r) auto

lemma is_ok_iff: "is_ok r \<longleftrightarrow> (\<exists>x. r = Inr x)"
  by (cases r) auto

section \<open>Vectors that grow on demand\<close>

text \<open>
  \<open>if (i >= v.size()) v.resize(i + 1, d)\<close> and a guarded read of such a vector.
\<close>

definition grow :: "nat \<Rightarrow> 'a \<Rightarrow> 'a list \<Rightarrow> 'a list" where
  "grow n d xs = xs @ replicate (n - length xs) d"

definition lookup_or :: "'a \<Rightarrow> 'a list \<Rightarrow> nat \<Rightarrow> 'a" where
  "lookup_or d xs i = (if i < length xs then xs ! i else d)"

lemma length_grow [simp]: "length (grow n d xs) = max n (length xs)"
  by (auto simp: grow_def)

lemma lookup_or_grow [simp]: "lookup_or d (grow n d xs) i = lookup_or d xs i"
  by (auto simp: lookup_or_def grow_def nth_append)

lemma lookup_or_update [simp]:
  "i < length xs \<Longrightarrow> lookup_or d (xs[i := x]) j = (if j = i then x else lookup_or d xs j)"
  by (auto simp: lookup_or_def)

section \<open>Numbers\<close>

lemma less_mult_add: "a < n \<Longrightarrow> m < k \<Longrightarrow> m * n + a < k * (n::nat)"
proof -
  assume "a < n" "m < k"
  then have "m * n + a < Suc m * n" by simp
  also have "\<dots> \<le> k * n"
    using \<open>m < k\<close> by (intro mult_le_mono1) simp
  finally show ?thesis .
qed

lemma nat_bit_concat:
  fixes a b :: nat
  assumes "a < 2 ^ n"
  shows "bit (a + 2 ^ n * b) i \<longleftrightarrow> (if i < n then bit a i else bit b (i - n))"
proof -
  have hi: "\<not> bit a j" if "n \<le> j" for j
  proof -
    have "a < 2 ^ j"
      using assms that by (meson less_le_trans one_le_numeral power_increasing)
    then show ?thesis by (simp add: bit_iff_odd)
  qed
  have disj: "bit a j \<longrightarrow> \<not> bit (push_bit n b) j" for j
    using hi by (auto simp: bit_push_bit_iff not_le)
  have "a + 2 ^ n * b = a + push_bit n b"
    by (simp add: push_bit_eq_mult mult.commute)
  also have "\<dots> = a OR push_bit n b"
    by (rule disjunctive_add_eq_or) (use disj in \<open>auto intro!: bit_eqI simp: bit_and_iff\<close>)
  finally show ?thesis
    using hi by (auto simp: bit_or_iff bit_push_bit_iff not_less)
qed

lemma nat_bit_eqI:
  fixes a b :: nat
  assumes "\<And>i. bit a i = bit b i"
  shows "a = b"
  using assms by (intro bit_eqI) simp

section \<open>Words\<close>

lemma u32_all_ones: "(0xffffffff :: u32) = mask 32"
  by (simp add: mask_eq_exp_minus_1)

lemma push_one_minus_one: "push_bit n 1 - (1 :: 'a::len word) = mask n"
  by (simp add: mask_eq_exp_minus_1)

lemma bit_mask_word: "bit (mask n :: 'a::len word) i \<longleftrightarrow> i < LENGTH('a) \<and> i < n"
  by (auto simp: bit_mask_iff)

lemma bit_unat: "bit (unat w) i = bit w i"
  by (simp add: bit_unsigned_iff)

lemma bit_word_high: "LENGTH('a) \<le> i \<Longrightarrow> \<not> bit (w :: 'a::len word) i"
  using bit_imp_le_length leD by blast

lemma unat_ucast_up:
  fixes a :: "'a::len word"
  assumes "LENGTH('a) \<le> LENGTH('b::len)"
  shows "unat (ucast a :: 'b word) = unat a"
proof -
  have "unat a < 2 ^ LENGTH('b)"
    using power_increasing [OF assms, of "2 :: nat"] by (intro less_le_trans [OF unsigned_less]) simp
  then show ?thesis by (simp add: unsigned_ucast_eq take_bit_eq_mod)
qed

end
