(* ===== verification/PackedBits.thy ===== *)
theory PackedBits
  imports Cpptb_Prelude
begin

text \<open>
  \<open>cpptb::Bits<W>\<close> of \<open>include/cpptb/packed_bits.hpp\<close>: a value of \<open>W\<close> bits in an array of
  32-bit words, least significant word first. The template parameter is the field \<open>pwidth\<close>
  (and the first argument of the static functions). Reading out of bounds aborts in the code and
  is a \<open>Fail\<close> here.
\<close>

section \<open>Data and helpers\<close>

record packed =
  pwidth :: nat
  pwords :: "u32 list"

definition word_count :: "nat \<Rightarrow> nat" where
  "word_count W = (W + 31) div 32"

definition top_mask :: "nat \<Rightarrow> u32" where
  "top_mask W = (if W mod 32 = 0 then 0xffffffff else push_bit (W mod 32) 1 - 1)"

definition low_mask :: "nat \<Rightarrow> u32" where
  "low_mask n = (if n = 32 then 0xffffffff else push_bit n 1 - 1)"

definition mask_padding :: "nat \<Rightarrow> u32 list \<Rightarrow> u32 list" where
  "mask_padding W ws = ws[length ws - 1 := last ws AND top_mask W]"

definition hex_digit :: "char \<Rightarrow> nat result" where
  "hex_digit c =
     (let v = (of_char c :: nat) in
      if of_char (CHR ''0'') \<le> v \<and> v \<le> of_char (CHR ''9'') then Ok (v - of_char (CHR ''0''))
      else if of_char (CHR ''a'') \<le> v \<and> v \<le> of_char (CHR ''f'')
        then Ok (v - of_char (CHR ''a'') + 10)
      else if of_char (CHR ''A'') \<le> v \<and> v \<le> of_char (CHR ''F'')
        then Ok (v - of_char (CHR ''A'') + 10)
      else Fail (Abort ''invalid hexadecimal digit''))"


section \<open>Construction\<close>

definition bits_zero :: "nat \<Rightarrow> packed" where
  "bits_zero W = \<lparr>pwidth = W, pwords = replicate (word_count W) 0\<rparr>"

definition from_uint :: "nat \<Rightarrow> u64 \<Rightarrow> packed" where
  "from_uint W value =
     (let ws = (replicate (word_count W) 0)[0 := ucast value];
          ws = (if 1 < word_count W then ws[1 := ucast (drop_bit 32 value)] else ws)
      in \<lparr>pwidth = W, pwords = mask_padding W ws\<rparr>)"

definition store_low_word :: "nat \<Rightarrow> u32 list \<times> u128 \<Rightarrow> u32 list \<times> u128" where
  "store_low_word index = (\<lambda>(ws, value). (ws[index := ucast value], drop_bit 32 value))"

definition from_uint128 :: "nat \<Rightarrow> u128 \<Rightarrow> packed" where
  "from_uint128 W value =
     (let copied_words = (if word_count W < 4 then word_count W else 4);
          ws = fst (fold store_low_word [0..<copied_words] (replicate (word_count W) 0, value))
      in \<lparr>pwidth = W, pwords = mask_padding W ws\<rparr>)"

definition from_words :: "nat \<Rightarrow> u32 list \<Rightarrow> packed" where
  "from_words W ws = \<lparr>pwidth = W, pwords = mask_padding W ws\<rparr>"

text \<open>
  \<open>from_hex\<close> walks the text backwards; the inner loop writes the four bits of a digit and fails
  at the first set bit at or above the width.
\<close>

fun hex_bits :: "nat \<Rightarrow> nat \<Rightarrow> nat \<Rightarrow> nat list \<Rightarrow> u32 list \<Rightarrow> u32 list result" where
  "hex_bits W digit nibble [] ws = Ok ws"
| "hex_bits W digit nibble (b # bs) ws =
     (if digit AND push_bit b 1 = 0 then hex_bits W digit nibble bs ws
      else let position = nibble * 4 + b in
        if position \<ge> W then Fail (Abort ''hexadecimal value does not fit Bits width'')
        else hex_bits W digit nibble bs
               (ws[position div 32 := ws ! (position div 32) OR push_bit (position mod 32) 1]))"

fun hex_loop :: "nat \<Rightarrow> string \<Rightarrow> nat \<Rightarrow> bool \<Rightarrow> u32 list \<Rightarrow> (bool \<times> u32 list) result" where
  "hex_loop W [] nibble saw ws = Ok (saw, ws)"
| "hex_loop W (c # cs) nibble saw ws =
     (if c = CHR ''_'' then hex_loop W cs nibble saw ws
      else case hex_digit c of
        Inl e \<Rightarrow> Inl e
      | Inr digit \<Rightarrow>
          (case hex_bits W digit nibble [0..<4] ws of
             Inl e \<Rightarrow> Inl e
           | Inr ws' \<Rightarrow> hex_loop W cs (Suc nibble) True ws'))"

definition hex_begin :: "string \<Rightarrow> nat" where
  "hex_begin hex =
     (if 2 \<le> length hex \<and> hex ! 0 = CHR ''0'' \<and> (hex ! 1 = CHR ''x'' \<or> hex ! 1 = CHR ''X'')
      then 2 else 0)"

definition from_hex :: "nat \<Rightarrow> string \<Rightarrow> packed result" where
  "from_hex W hex =
     (case hex_loop W (rev (drop (hex_begin hex) hex)) 0 False (replicate (word_count W) 0) of
        Inl e \<Rightarrow> Inl e
      | Inr (saw_digit, ws) \<Rightarrow>
          if \<not> saw_digit then Fail (Abort ''hexadecimal value has no digits'')
          else Ok \<lparr>pwidth = W, pwords = mask_padding W ws\<rparr>)"

section \<open>Access\<close>

definition get_word :: "packed \<Rightarrow> nat \<Rightarrow> u32 result" where
  "get_word b index =
     (if index \<ge> word_count (pwidth b) then Fail (Abort ''word index is out of bounds'')
      else Ok (pwords b ! index))"

definition set_word :: "nat \<Rightarrow> u32 \<Rightarrow> packed \<Rightarrow> packed result" where
  "set_word index value b =
     (if index \<ge> word_count (pwidth b) then Fail (Abort ''set_word index is out of bounds'')
      else Ok (b\<lparr>pwords := mask_padding (pwidth b) ((pwords b)[index := value])\<rparr>))"

definition get_bit :: "packed \<Rightarrow> nat \<Rightarrow> bool result" where
  "get_bit b index =
     (if index \<ge> pwidth b then Fail (Abort ''bit index is out of bounds'')
      else Ok (drop_bit (index mod 32) (pwords b ! (index div 32)) AND 1 \<noteq> 0))"

definition set_bit_at :: "nat \<Rightarrow> bool \<Rightarrow> packed \<Rightarrow> packed result" where
  "set_bit_at index value b =
     (if index \<ge> pwidth b then Fail (Abort ''set_bit index is out of bounds'')
      else let m = push_bit (index mod 32) 1; w = pwords b ! (index div 32) in
        Ok (b\<lparr>pwords := (pwords b)[index div 32 := (if value then w OR m else w AND NOT m)]\<rparr>))"

text \<open>
  The 32-bit window that starts \<open>off\<close> bits into a word array: both \<open>slice\<close> and
  \<open>set_slice\<close> build it from one word, or from two neighbours when the offset is not aligned.
\<close>

definition read_window :: "u32 list \<Rightarrow> nat \<Rightarrow> nat \<Rightarrow> u32" where
  "read_window ws count off =
     (let source_word = off div 32; source_shift = off mod 32;
          value = drop_bit source_shift (ws ! source_word)
      in if source_shift \<noteq> 0 \<and> source_word + 1 < count
         then value OR push_bit (32 - source_shift) (ws ! (source_word + 1)) else value)"

definition slice_bits :: "nat \<Rightarrow> nat \<Rightarrow> packed \<Rightarrow> packed result" where
  "slice_bits K lsb b =
     (if lsb > pwidth b \<or> K > pwidth b - lsb then Fail (Abort ''Bits slice is out of bounds'')
      else Ok (from_words K
             (map (\<lambda>index. read_window (pwords b) (word_count (pwidth b)) (lsb + 32 * index))
                [0..<word_count K])))"

definition set_slice_word :: "nat \<Rightarrow> nat \<Rightarrow> u32 list \<Rightarrow> nat \<Rightarrow> u32 list \<Rightarrow> u32 list" where
  "set_slice_word lsb K source_words destination_word ws =
     (let slice_end = lsb + K;
          destination_begin = destination_word * 32;
          overlap_begin = (if lsb > destination_begin then lsb else destination_begin);
          destination_end = destination_begin + 32;
          overlap_end = (if slice_end < destination_end then slice_end else destination_end);
          destination_shift = overlap_begin - destination_begin;
          copied_bits = overlap_end - overlap_begin;
          fragment = read_window source_words (word_count K) (overlap_begin - lsb);
          copied_mask = low_mask copied_bits;
          destination_mask = push_bit destination_shift copied_mask
      in ws[destination_word :=
              (ws ! destination_word AND NOT destination_mask) OR
              push_bit destination_shift (fragment AND copied_mask)])"

definition set_slice :: "nat \<Rightarrow> packed \<Rightarrow> packed \<Rightarrow> packed result" where
  "set_slice lsb value b =
     (let K = pwidth value in
      if lsb > pwidth b \<or> K > pwidth b - lsb then Fail (Abort ''Bits set_slice is out of bounds'')
      else Ok (b\<lparr>pwords := fold (set_slice_word lsb K (pwords value))
                            [lsb div 32..<Suc ((lsb + K - 1) div 32)] (pwords b)\<rparr>))"

section \<open>Conversion\<close>

text \<open>
  The \<open>requires\<close> clauses (\<open>W \<le> 32\<close>, \<open>W \<le> 64\<close>, \<open>W \<le> 128\<close>) are checked by the compiler; the
  functions are applied to such widths only.
\<close>

definition to_uint :: "packed \<Rightarrow> u32" where
  "to_uint b = pwords b ! 0"

definition to_uint64 :: "packed \<Rightarrow> u64" where
  "to_uint64 b =
     (let result = ucast (pwords b ! 0) in
      if 1 < word_count (pwidth b) then result OR push_bit 32 (ucast (pwords b ! 1)) else result)"

definition to_uint128 :: "packed \<Rightarrow> u128" where
  "to_uint128 b = fold (\<lambda>w result. push_bit 32 result OR ucast w) (rev (pwords b)) 0"

section \<open>Bits of a word array\<close>

definition wbit :: "u32 list \<Rightarrow> nat \<Rightarrow> bool" where
  "wbit ws i \<longleftrightarrow> i div 32 < length ws \<and> bit (ws ! (i div 32)) (i mod 32)"

definition words_value :: "u32 list \<Rightarrow> nat" where
  "words_value ws = horner_sum unat (2 ^ 32) ws"

definition packed_ok :: "packed \<Rightarrow> bool" where
  "packed_ok b \<longleftrightarrow>
     0 < pwidth b \<and> length (pwords b) = word_count (pwidth b) \<and>
     last (pwords b) AND top_mask (pwidth b) = last (pwords b)"

definition packed_value :: "packed \<Rightarrow> nat" where
  "packed_value b = words_value (pwords b)"

lemma word_count_pos [simp]: "0 < W \<Longrightarrow> 0 < word_count W"
  by (simp add: word_count_def)

lemma word_count_eq_0 [simp]: "word_count W = 0 \<longleftrightarrow> W = 0"
  by (simp add: word_count_def div_eq_0_iff)

lemma word_count_bound: "i < W \<Longrightarrow> i div 32 < word_count W"
  by (simp add: word_count_def less_eq_div_iff_mult_less_eq Suc_le_eq [symmetric] div_le_mono)

lemma word_count_cover: "W \<le> 32 * word_count W" "32 * word_count W < W + 32"
  by (simp_all add: word_count_def)

lemma wbit_high [simp]: "32 * length ws \<le> i \<Longrightarrow> \<not> wbit ws i"
  by (auto simp: wbit_def less_eq_div_iff_mult_less_eq not_less mult.commute)

lemma wbit_index: "k < 32 \<Longrightarrow> wbit ws (32 * q + k) \<longleftrightarrow> q < length ws \<and> bit (ws ! q) k"
  by (simp add: wbit_def)

lemma words_eqI:
  assumes "length ws = length vs" and "\<And>i. wbit ws i = wbit vs i"
  shows "ws = vs"
proof (rule nth_equalityI)
  show "length ws = length vs" by fact
  fix q assume q: "q < length ws"
  show "ws ! q = vs ! q"
  proof (rule bit_word_eqI)
    fix k :: nat assume "k < LENGTH(32)"
    then have k: "k < 32" by simp
    then show "bit (ws ! q) k = bit (vs ! q) k"
      using assms(2) [of "32 * q + k"] q assms(1) by (simp add: wbit_index)
  qed
qed

lemma wbit_update [bits_at]:
  "q < length ws \<Longrightarrow> wbit (ws[q := w]) i \<longleftrightarrow> (if i div 32 = q then bit w (i mod 32) else wbit ws i)"
  by (auto simp: wbit_def)

lemma wbit_replicate [simp]: "\<not> wbit (replicate n 0) i"
  by (simp add: wbit_def)

lemma wbit_Cons: "wbit (w # ws) i \<longleftrightarrow> (if i < 32 then bit w i else wbit ws (i - 32))"
proof (cases "i < 32")
  case False
  then have "i div 32 = Suc ((i - 32) div 32)" "i mod 32 = (i - 32) mod 32"
    by (simp_all add: le_div_geq le_mod_geq)
  with False show ?thesis by (simp add: wbit_def)
qed (simp add: wbit_def)

lemma bit_words_value: "bit (words_value ws) i = wbit ws i"
proof (induction ws arbitrary: i)
  case Nil
  then show ?case by (simp add: words_value_def wbit_def)
next
  case (Cons w ws)
  have "unat w < 2 ^ 32" using unsigned_less [of w] by simp
  from nat_bit_concat [OF this, of "words_value ws" i] show ?case
    using Cons.IH by (simp add: words_value_def bit_unat wbit_Cons)
qed

lemma words_value_eq_iff:
  "length ws = length vs \<Longrightarrow> words_value ws = words_value vs \<longleftrightarrow> ws = vs"
  using words_eqI [of ws vs] by (metis bit_words_value)

lemma top_mask_eq: "top_mask W = mask (if W mod 32 = 0 then 32 else W mod 32)"
  unfolding top_mask_def u32_all_ones push_one_minus_one by simp

lemma low_mask_eq: "low_mask n = mask n"
  unfolding low_mask_def u32_all_ones push_one_minus_one by simp

lemma bit_top_mask:
  assumes "0 < W" "i div 32 = word_count W - 1"
  shows "bit (top_mask W) (i mod 32) \<longleftrightarrow> i < W"
proof -
  obtain q r where W: "W = 32 * q + r" "r < 32"
    by (metis mod_less_divisor mult_div_mod_eq zero_less_numeral)
  have i: "i = 32 * (word_count W - 1) + i mod 32"
    using assms(2) by (metis mult_div_mod_eq)
  show ?thesis
  proof (cases "r = 0")
    case True
    then have "word_count W = q" "0 < q" using W assms(1) by (simp_all add: word_count_def)
    moreover have "32 * (q - 1) + i mod 32 < 32 * q"
      using \<open>0 < q\<close> mod_less_divisor [of 32 i] by (cases q) simp_all
    ultimately show ?thesis using True W i by (simp add: top_mask_eq bit_mask_word)
  next
    case False
    then have "word_count W = Suc q" using W by (simp add: word_count_def)
    then show ?thesis using False W i by (simp add: top_mask_eq bit_mask_word) linarith
  qed
qed

lemma last_index_bound: "i < W \<Longrightarrow> i div 32 \<le> word_count W - 1"
  using word_count_bound [of i W] by simp

lemma div_beyond_width: "0 < W \<Longrightarrow> W \<le> i \<Longrightarrow> word_count W - 1 \<le> i div 32"
  using div_le_mono [of "W + 31" "i + 32" 32] by (simp add: word_count_def)

lemma length_mask_padding [simp]: "length (mask_padding W ws) = length ws"
  by (simp add: mask_padding_def)

lemma wbit_mask_padding [bits_at]:
  assumes "0 < W" "length ws = word_count W"
  shows "wbit (mask_padding W ws) i \<longleftrightarrow> i < W \<and> wbit ws i"
proof -
  have ne: "ws \<noteq> []" using assms by auto
  have "wbit (mask_padding W ws) i \<longleftrightarrow>
      (if i div 32 = word_count W - 1 then bit (last ws) (i mod 32) \<and> i < W else wbit ws i)"
    using assms ne by (simp add: mask_padding_def wbit_update bit_and_iff bit_top_mask)
  also have "\<dots> \<longleftrightarrow> i < W \<and> wbit ws i"
  proof (cases "i div 32 = word_count W - 1")
    case True
    then show ?thesis using assms ne by (auto simp: wbit_def last_conv_nth)
  next
    case False
    then have "i < W" if "wbit ws i"
      using that div_beyond_width [of W i] assms by (force simp: wbit_def)
    with False show ?thesis by auto
  qed
  finally show ?thesis .
qed

lemma packed_ok_bit: "packed_ok b \<Longrightarrow> wbit (pwords b) i \<Longrightarrow> i < pwidth b"
proof -
  assume ok: "packed_ok b" and bit: "wbit (pwords b) i"
  from ok have "pwords b \<noteq> []" by (auto simp: packed_ok_def)
  then have "mask_padding (pwidth b) (pwords b) = pwords b"
    using ok by (simp add: packed_ok_def mask_padding_def) (simp add: last_conv_nth)
  then show ?thesis
    using ok bit wbit_mask_padding [of "pwidth b" "pwords b" i] by (simp add: packed_ok_def)
qed

lemma packed_okI:
  assumes "0 < pwidth b" "length (pwords b) = word_count (pwidth b)"
    and "\<And>i. wbit (pwords b) i \<Longrightarrow> i < pwidth b"
  shows "packed_ok b"
proof -
  have "mask_padding (pwidth b) (pwords b) = pwords b"
    using assms by (intro words_eqI) (auto simp: wbit_mask_padding)
  then have "last (mask_padding (pwidth b) (pwords b)) = last (pwords b)" by simp
  moreover have "pwords b \<noteq> []" using assms by auto
  ultimately show ?thesis
    using assms(1,2) by (simp add: packed_ok_def mask_padding_def last_list_update)
qed

lemma packed_ok_mask_padding [keeps_ok]:
  "0 < W \<Longrightarrow> length ws = word_count W \<Longrightarrow> packed_ok \<lparr>pwidth = W, pwords = mask_padding W ws\<rparr>"
  by (rule packed_okI) (auto simp: wbit_mask_padding)

lemma packed_eqI:
  assumes "packed_ok a" "packed_ok b" "pwidth a = pwidth b"
    and "\<And>i. i < pwidth a \<Longrightarrow> wbit (pwords a) i = wbit (pwords b) i"
  shows "a = b"
proof -
  have "wbit (pwords a) i = wbit (pwords b) i" for i
    using assms packed_ok_bit [of a i] packed_ok_bit [of b i] by auto
  moreover have "length (pwords a) = length (pwords b)"
    using assms(1-3) by (simp add: packed_ok_def)
  ultimately have "pwords a = pwords b" by (intro words_eqI)
  with assms(3) show ?thesis by simp
qed

lemma packed_value_bit: "bit (packed_value b) i = wbit (pwords b) i"
  by (simp add: packed_value_def bit_words_value)

lemma packed_value_bound: "packed_ok b \<Longrightarrow> packed_value b < 2 ^ pwidth b"
proof -
  assume "packed_ok b"
  then have "take_bit (pwidth b) (packed_value b) = packed_value b"
    by (intro bit_eqI) (auto simp: bit_take_bit_iff packed_value_bit dest: packed_ok_bit)
  then show ?thesis by (simp add: take_bit_nat_eq_self_iff)
qed

section \<open>Construction\<close>

lemma from_words_ok [keeps_ok]: "0 < W \<Longrightarrow> length ws = word_count W \<Longrightarrow> packed_ok (from_words W ws)"
  by (simp add: from_words_def packed_ok_mask_padding)

lemma wbit_from_words [bits_at]:
  "0 < W \<Longrightarrow> length ws = word_count W \<Longrightarrow> wbit (pwords (from_words W ws)) i \<longleftrightarrow> i < W \<and> wbit ws i"
  by (simp add: from_words_def wbit_mask_padding)

lemma from_uint_ok [keeps_ok]: "0 < W \<Longrightarrow> packed_ok (from_uint W v)"
  by (simp add: from_uint_def Let_def packed_ok_mask_padding)

lemma wbit_from_uint [bits_at]: "0 < W \<Longrightarrow> wbit (pwords (from_uint W v)) i \<longleftrightarrow> i < W \<and> bit v i"
proof -
  assume W: "0 < W"
  have "i div 32 < word_count W" if "i < W" using that by (rule word_count_bound)
  then have *: "i < W \<Longrightarrow> 32 \<le> i \<Longrightarrow> 1 < word_count W"
    by (metis One_nat_def Suc_le_eq div_le_mono div_self le_less_trans zero_neq_numeral)
  show ?thesis
    using W * bit_word_high [of i v]
    by (auto simp: from_uint_def Let_def wbit_mask_padding wbit_update bit_ucast_iff bit_drop_bit_eq
      div_eq_0_iff le_mod_geq split: if_splits)
qed

lemma fold_store_low_word:
  "n \<le> length ws \<Longrightarrow>
   fold store_low_word [0..<n] (ws, v) =
     (map (\<lambda>i. if i < n then ucast (drop_bit (32 * i) v) else ws ! i) [0..<length ws],
      drop_bit (32 * n) v)"
proof (induction n)
  case 0
  then show ?case by (simp add: map_nth)
next
  case (Suc n)
  then show ?case
    by (auto simp: store_low_word_def drop_bit_drop_bit ac_simps nth_list_update less_Suc_eq
        intro!: nth_equalityI)
qed

lemma from_uint128_ok [keeps_ok]: "0 < W \<Longrightarrow> packed_ok (from_uint128 W v)"
  by (simp add: from_uint128_def Let_def fold_store_low_word packed_ok_mask_padding)

lemma wbit_from_uint128 [bits_at]:
  "0 < W \<Longrightarrow> wbit (pwords (from_uint128 W v)) i \<longleftrightarrow> i < W \<and> bit v i"
proof -
  assume W: "0 < W"
  define n where "n = (if word_count W < 4 then word_count W else 4)"
  define ws where "ws = map (\<lambda>i. if i < n then ucast (drop_bit (32 * i) v) else (0 :: u32)) [0..<word_count W]"
  have n: "n \<le> word_count W" by (simp add: n_def)
  then have eq: "from_uint128 W v = \<lparr>pwidth = W, pwords = mask_padding W ws\<rparr>"
    by (auto simp: from_uint128_def Let_def n_def [symmetric] fold_store_low_word ws_def
        intro!: arg_cong [where f = "mask_padding W"])
  have "wbit ws i = bit v i" if "i < W"
  proof -
    have q: "i div 32 < word_count W" using that by (rule word_count_bound)
    have "bit (drop_bit (32 * (i div 32)) v) (i mod 32) = bit v (32 * (i div 32) + i mod 32)"
      by (simp only: bit_drop_bit_eq o_def)
    also have "32 * (i div 32) + i mod 32 = i" by (rule mult_div_mod_eq)
    finally have *: "bit (drop_bit (32 * (i div 32)) v) (i mod 32) = bit v i" .
    have "\<not> bit v i" if "\<not> i div 32 < n"
      using that q by (intro bit_word_high) (simp add: n_def split: if_splits)
    with q * show ?thesis by (simp add: wbit_def ws_def bit_ucast_iff)
  qed
  moreover have "length ws = word_count W" by (simp add: ws_def)
  ultimately show ?thesis using W by (auto simp: eq wbit_mask_padding)
qed

section \<open>Access\<close>

lemma bit_one_shifted: "bit (push_bit m (1 :: 'a::len word)) n \<longleftrightarrow> m = n \<and> n < LENGTH('a)"
  by (auto simp: bit_push_bit_iff bit_1_iff simp del: push_bit_of_1)

lemma get_word_cases:
  "get_word b k = (if k < word_count (pwidth b) then Ok (pwords b ! k)
                   else Fail (Abort ''word index is out of bounds''))"
  by (simp add: get_word_def)

lemma set_word_ok [keeps_ok]: "packed_ok b \<Longrightarrow> set_word k v b = Inr b' \<Longrightarrow> packed_ok b'"
  using packed_ok_mask_padding [of "pwidth b" "(pwords b)[k := v]"]
  by (auto simp: set_word_def packed_ok_def split: if_splits)

lemma wbit_set_word [bits_at]:
  "packed_ok b \<Longrightarrow> set_word k v b = Inr b' \<Longrightarrow>
   wbit (pwords b') i \<longleftrightarrow> i < pwidth b \<and> (if i div 32 = k then bit v (i mod 32) else wbit (pwords b) i)"
  by (auto simp: set_word_def packed_ok_def wbit_mask_padding wbit_update split: if_splits)

lemma get_bit_eq: "packed_ok b \<Longrightarrow> i < pwidth b \<Longrightarrow> get_bit b i = Ok (wbit (pwords b) i)"
  using word_count_bound [of i "pwidth b"]
  by (auto simp: get_bit_def wbit_def packed_ok_def bit_iff_and_drop_bit_eq_1 and_one_eq odd_iff_mod_2_eq_one)

lemma set_bit_at_eq:
  "i < pwidth b \<Longrightarrow>
   set_bit_at i v b =
     Ok (b\<lparr>pwords := (pwords b)[i div 32 :=
           (if v then pwords b ! (i div 32) OR push_bit (i mod 32) 1
            else pwords b ! (i div 32) AND NOT (push_bit (i mod 32) 1))]\<rparr>)"
  by (simp add: set_bit_at_def Let_def)

lemma set_bit_at_range: "set_bit_at k v b = Inr b' \<Longrightarrow> k < pwidth b"
  by (simp add: set_bit_at_def split: if_split_asm)

lemma set_bit_at_result:
  assumes "set_bit_at k v b = Inr b'"
  shows "pwidth b' = pwidth b" "length (pwords b') = length (pwords b)"
    "pwords b' = (pwords b)[k div 32 :=
       (if v then pwords b ! (k div 32) OR push_bit (k mod 32) 1
        else pwords b ! (k div 32) AND NOT (push_bit (k mod 32) 1))]"
  using set_bit_at_eq [OF set_bit_at_range [OF assms], of v] assms
  by (simp_all only: sum.inject) (simp_all add: eq_commute [of _ b'] del: push_bit_of_1)

lemma wbit_set_bit_at [bits_at]:
  assumes "packed_ok b" "set_bit_at k v b = Inr b'"
  shows "wbit (pwords b') i \<longleftrightarrow> (if i = k then v else wbit (pwords b) i)"
proof -
  have k: "k div 32 < length (pwords b)"
    using assms(1) word_count_bound [OF set_bit_at_range [OF assms(2)]] by (simp add: packed_ok_def)
  have "i mod 32 < 32" by simp
  moreover have "i = k \<longleftrightarrow> i div 32 = k div 32 \<and> i mod 32 = k mod 32"
    by (metis mult_div_mod_eq)
  ultimately show ?thesis
    unfolding set_bit_at_result(3) [OF assms(2)] wbit_update [OF k]
    using k by (cases v) (auto simp: wbit_def bit_or_iff bit_and_iff bit_not_iff bit_one_shifted
        simp del: push_bit_of_1)
qed

lemma set_bit_at_ok [keeps_ok]:
  assumes ok: "packed_ok b" and b': "set_bit_at k v b = Inr b'"
  shows "packed_ok b'"
proof (rule packed_okI)
  show "0 < pwidth b'" "length (pwords b') = word_count (pwidth b')"
    using ok by (simp_all add: packed_ok_def set_bit_at_result(1,2) [OF b'])
  show "i < pwidth b'" if "wbit (pwords b') i" for i
    using that wbit_set_bit_at [OF ok b', of i] packed_ok_bit [OF ok, of i]
      set_bit_at_range [OF b'] set_bit_at_result(1) [OF b'] by (auto split: if_splits)
qed

section \<open>Slices\<close>

lemma bit_read_window:
  assumes "off div 32 < length ws" "r < 32"
  shows "bit (read_window ws (length ws) off) r \<longleftrightarrow> wbit ws (off + r)"
proof -
  obtain q s where off: "off = 32 * q + s" "s < 32"
    by (metis mod_less_divisor mult_div_mod_eq zero_less_numeral)
  have qs: "off div 32 = q" "off mod 32 = s" using off by simp_all
  have q: "q < length ws" using assms(1) qs by simp
  show ?thesis
  proof (cases "s + r < 32")
    case True
    then have "off + r = 32 * q + (s + r)" using off by simp
    then have "wbit ws (off + r) = bit (ws ! q) (s + r)"
      using q True by (simp only: wbit_index) simp
    with True assms(2) show ?thesis
      by (auto simp: read_window_def Let_def qs bit_or_iff bit_drop_bit_eq bit_push_bit_iff)
  next
    case False
    then have eq: "off + r = 32 * Suc q + (s + r - 32)" using off by simp
    have "s + r - 32 < 32" using assms(2) off by linarith
    then have w: "wbit ws (off + r) \<longleftrightarrow> Suc q < length ws \<and> bit (ws ! Suc q) (s + r - 32)"
      unfolding eq by (rule wbit_index)
    have "\<not> bit (ws ! q) (s + r)" using False by (intro bit_word_high) simp
    moreover have "r - (32 - s) = s + r - 32" using False off by simp
    ultimately show ?thesis
      using False assms(2) off w
      by (auto simp: read_window_def Let_def qs bit_or_iff bit_drop_bit_eq bit_push_bit_iff)
  qed
qed

lemma slice_source_in_range:
  assumes "0 < K" "lsb + K \<le> W" "k < word_count K"
  shows "lsb div 32 + k < word_count W"
proof -
  have "32 * k < K" using assms(3) by (simp add: word_count_def)
  then have "lsb + 32 * k < W" using assms(2) by simp
  then have "(lsb + 32 * k) div 32 < word_count W" by (rule word_count_bound)
  then show ?thesis by simp
qed

lemma slice_bits_defined_iff: "is_ok (slice_bits K lsb b) \<longleftrightarrow> lsb + K \<le> pwidth b"
  by (auto simp: slice_bits_def)

lemma slice_bits_ok [keeps_ok]: "0 < K \<Longrightarrow> slice_bits K lsb b = Inr v \<Longrightarrow> packed_ok v \<and> pwidth v = K"
  by (auto simp: slice_bits_def from_words_ok from_words_def packed_ok_mask_padding split: if_splits)

lemma wbit_slice_bits [bits_at]:
  assumes "packed_ok b" "0 < K" "slice_bits K lsb b = Inr v"
  shows "wbit (pwords v) i \<longleftrightarrow> i < K \<and> wbit (pwords b) (lsb + i)"
proof -
  let ?ws = "map (\<lambda>k. read_window (pwords b) (word_count (pwidth b)) (lsb + 32 * k)) [0..<word_count K]"
  have le: "lsb + K \<le> pwidth b" and v: "v = from_words K ?ws"
    using assms(3) by (auto simp: slice_bits_def split: if_splits)
  have len: "length (pwords b) = word_count (pwidth b)" using assms(1) by (simp add: packed_ok_def)
  have "wbit ?ws i = wbit (pwords b) (lsb + i)" if "i < K"
  proof -
    have k: "i div 32 < word_count K" using that by (rule word_count_bound)
    then have "(lsb + 32 * (i div 32)) div 32 < length (pwords b)"
      using slice_source_in_range [OF assms(2) le k] len by simp
    then have "bit (read_window (pwords b) (length (pwords b)) (lsb + 32 * (i div 32))) (i mod 32)
        \<longleftrightarrow> wbit (pwords b) (lsb + 32 * (i div 32) + i mod 32)"
      by (rule bit_read_window) simp
    also have "lsb + 32 * (i div 32) + i mod 32 = lsb + i" by simp
    finally show ?thesis using k len by (simp add: wbit_def)
  qed
  then show ?thesis using assms(2) by (auto simp: v wbit_from_words)
qed

lemma set_slice_word_length [simp]: "length (set_slice_word lsb K src d ws) = length ws"
  by (simp add: set_slice_word_def Let_def)

lemma length_fold_set_slice_word [simp]:
  "length (fold (set_slice_word lsb K src) ds ws) = length ws"
  by (induction ds arbitrary: ws) simp_all

lemma bit_set_slice_word:
  assumes "0 < K" "length src = word_count K" "d < length ws" "r < 32"
    and "lsb < 32 * d + 32" "32 * d < lsb + K"
  shows "bit (set_slice_word lsb K src d ws ! d) r \<longleftrightarrow>
     (let i = 32 * d + r in
      if lsb \<le> i \<and> i < lsb + K then wbit src (i - lsb) else bit (ws ! d) r)"
proof -
  define ob where "ob = (if lsb > d * 32 then lsb else d * 32)"
  define oe where "oe = (if lsb + K < d * 32 + 32 then lsb + K else d * 32 + 32)"
  let ?frag = "read_window src (word_count K) (ob - lsb)"
  have ob: "d * 32 \<le> ob" "lsb \<le> ob" "ob < oe" and oe: "oe \<le> d * 32 + 32" "oe \<le> lsb + K"
    using assms(1,5,6) by (auto simp: ob_def oe_def)
  have inside: "lsb \<le> 32 * d + r \<and> 32 * d + r < lsb + K \<longleftrightarrow> ob \<le> 32 * d + r \<and> 32 * d + r < oe"
    using assms(4) by (auto simp: ob_def oe_def)
  have src: "(ob - lsb) div 32 < length src"
    using word_count_bound [of "ob - lsb" K] assms(2) ob oe by simp
  have frag: "bit ?frag k \<longleftrightarrow> wbit src (ob - lsb + k)" if "k < 32" for k
    using bit_read_window [OF src that] assms(2) by simp
  have res: "set_slice_word lsb K src d ws ! d =
      (ws ! d AND NOT (push_bit (ob - d * 32) (mask (oe - ob)))) OR
      push_bit (ob - d * 32) (?frag AND mask (oe - ob))"
    using assms(3)
    by (simp add: set_slice_word_def Let_def ob_def [symmetric] oe_def [symmetric] low_mask_eq
        del: push_bit_of_1)
  show ?thesis
  proof (cases "lsb \<le> 32 * d + r \<and> 32 * d + r < lsb + K")
    case True
    then have io: "ob \<le> 32 * d + r" "32 * d + r < oe" using inside by simp_all
    have k: "r - (ob - d * 32) < 32" "r - (ob - d * 32) < oe - ob" "ob - d * 32 \<le> r"
      "ob - lsb + (r - (ob - d * 32)) = 32 * d + r - lsb"
      using io ob oe assms(4) by linarith+
    show ?thesis
      using True frag [OF k(1)] k assms(4) unfolding res
      by (simp add: bit_or_iff bit_and_iff bit_not_iff bit_push_bit_iff bit_mask_word Let_def)
  next
    case False
    then have "32 * d + r < ob \<or> oe \<le> 32 * d + r" using inside by auto
    then have k: "\<not> (ob - d * 32 \<le> r \<and> r - (ob - d * 32) < oe - ob)"
      using ob by linarith
    show ?thesis
      using False k assms(4) unfolding res
      by (auto simp: bit_or_iff bit_and_iff bit_not_iff bit_push_bit_iff bit_mask_word Let_def)
  qed
qed

lemma set_slice_word_other: "e \<noteq> d \<Longrightarrow> set_slice_word lsb K src d ws ! e = ws ! e"
  by (simp add: set_slice_word_def Let_def)

lemma fold_set_slice_word_other:
  "e \<notin> set ds \<Longrightarrow> fold (set_slice_word lsb K src) ds ws ! e = ws ! e"
  by (induction ds arbitrary: ws) (auto simp: set_slice_word_other)

lemma set_slice_word_local:
  "length ws = length vs \<Longrightarrow> d < length ws \<Longrightarrow> ws ! d = vs ! d \<Longrightarrow>
   set_slice_word lsb K src d ws ! d = set_slice_word lsb K src d vs ! d"
  by (simp add: set_slice_word_def Let_def)

lemma fold_set_slice_word_at:
  assumes "distinct ds" "d \<in> set ds" "d < length ws"
  shows "fold (set_slice_word lsb K src) ds ws ! d = set_slice_word lsb K src d ws ! d"
  using assms
proof (induction ds arbitrary: ws)
  case (Cons e ds)
  show ?case
  proof (cases "e = d")
    case True
    with Cons.prems show ?thesis by (simp add: fold_set_slice_word_other)
  next
    case False
    with Cons have "fold (set_slice_word lsb K src) (e # ds) ws ! d =
        set_slice_word lsb K src d (set_slice_word lsb K src e ws) ! d" by simp
    also have "\<dots> = set_slice_word lsb K src d ws ! d"
      using False Cons.prems by (intro set_slice_word_local) (simp_all add: set_slice_word_other)
    finally show ?thesis .
  qed
qed simp

lemma set_slice_defined_iff: "is_ok (set_slice lsb v b) \<longleftrightarrow> lsb + pwidth v \<le> pwidth b"
  by (auto simp: set_slice_def Let_def)

lemma wbit_set_slice [bits_at]:
  assumes ok: "packed_ok b" "packed_ok v" and res: "set_slice lsb v b = Inr b'"
  shows "wbit (pwords b') i \<longleftrightarrow>
    (if lsb \<le> i \<and> i < lsb + pwidth v then wbit (pwords v) (i - lsb) else wbit (pwords b) i)"
proof -
  let ?K = "pwidth v" and ?ds = "[lsb div 32..<Suc ((lsb + pwidth v - 1) div 32)]"
  have le: "lsb + ?K \<le> pwidth b" and b': "pwords b' = fold (set_slice_word lsb ?K (pwords v)) ?ds (pwords b)"
    using res by (auto simp: set_slice_def Let_def split: if_split_asm)
  have K: "0 < ?K" and src: "length (pwords v) = word_count ?K" using ok(2) by (simp_all add: packed_ok_def)
  show ?thesis
  proof (cases "i div 32 < length (pwords b)")
    case False
    have "\<not> (i < lsb + ?K)"
      using False ok(1) le word_count_bound [of i "pwidth b"] by (auto simp: packed_ok_def)
    then show ?thesis using False by (simp add: wbit_def b')
  next
    case True
    show ?thesis
    proof (cases "i div 32 \<in> set ?ds")
      case in_range: True
      have e: "lsb div 32 \<le> i div 32" "i div 32 \<le> (lsb + ?K - 1) div 32"
        using in_range by auto
      have "lsb < 32 * (i div 32) + 32" "32 * (i div 32) < lsb + ?K"
        using e K mult_div_mod_eq [of 32 lsb] mult_div_mod_eq [of 32 "lsb + ?K - 1"]
          mod_less_divisor [of 32 lsb] by linarith+
      then have "bit (set_slice_word lsb ?K (pwords v) (i div 32) (pwords b) ! (i div 32)) (i mod 32)
          \<longleftrightarrow> (let j = 32 * (i div 32) + i mod 32 in
               if lsb \<le> j \<and> j < lsb + ?K then wbit (pwords v) (j - lsb)
               else bit (pwords b ! (i div 32)) (i mod 32))"
        using K src True by (intro bit_set_slice_word) simp_all
      then show ?thesis
        using True in_range by (simp add: wbit_def b' fold_set_slice_word_at del: upt_Suc)
    next
      case out: False
      then have "\<not> (lsb \<le> i \<and> i < lsb + ?K)"
        by (auto simp: not_le not_less dest: div_le_mono [of _ _ 32])
      moreover have "pwords b' ! (i div 32) = pwords b ! (i div 32)" "length (pwords b') = length (pwords b)"
        unfolding b' using out by (simp_all add: fold_set_slice_word_other del: upt_Suc)
      ultimately show ?thesis by (auto simp: wbit_def)
    qed
  qed
qed

lemma set_slice_result:
  "set_slice lsb v b = Inr b' \<Longrightarrow> pwidth b' = pwidth b \<and> length (pwords b') = length (pwords b)"
  by (auto simp: set_slice_def Let_def simp del: upt_Suc split: if_split_asm)

lemma set_slice_ok [keeps_ok]:
  assumes ok: "packed_ok b" "packed_ok v" and res: "set_slice lsb v b = Inr b'"
  shows "packed_ok b'"
proof (rule packed_okI)
  show "0 < pwidth b'" "length (pwords b') = word_count (pwidth b')"
    using ok(1) set_slice_result [OF res] by (simp_all add: packed_ok_def)
  have "lsb + pwidth v \<le> pwidth b" using set_slice_defined_iff [of lsb v b] res by (simp add: is_ok_iff)
  then show "i < pwidth b'" if "wbit (pwords b') i" for i
    using that packed_ok_bit [OF ok(1), of i] set_slice_result [OF res]
    by (auto simp: wbit_set_slice [OF ok res] split: if_splits)
qed

section \<open>Conversion\<close>

lemma wbit_append_zero: "wbit ws i \<Longrightarrow> i < 32 * length ws"
  by (metis not_le wbit_high)

lemma bit_fold_words:
  "length ws \<le> 4 \<Longrightarrow>
   bit (fold (\<lambda>w result. push_bit 32 result OR ucast w) (rev ws) (0 :: u128)) i \<longleftrightarrow> i < 128 \<and> wbit ws i"
proof (induction ws arbitrary: i)
  case (Cons w ws)
  have "bit (fold (\<lambda>w result. push_bit 32 result OR ucast w) (rev ws) (0 :: u128)) (i - 32)
      \<longleftrightarrow> i - 32 < 128 \<and> wbit ws (i - 32)" using Cons by simp
  then show ?case
    using bit_word_high [of i w]
    by (auto simp: bit_or_iff bit_push_bit_iff bit_ucast_iff wbit_Cons)
qed (simp add: wbit_def)

lemma unat_to_uint128:
  assumes "packed_ok b" "pwidth b \<le> 128"
  shows "unat (to_uint128 b) = packed_value b"
proof (rule nat_bit_eqI)
  fix i
  have "length (pwords b) \<le> 4" using assms by (auto simp: packed_ok_def word_count_def)
  moreover have "i < 128" if "wbit (pwords b) i" using packed_ok_bit [OF assms(1) that] assms(2) by simp
  ultimately show "bit (unat (to_uint128 b)) i = bit (packed_value b) i"
    by (auto simp: bit_unat to_uint128_def bit_fold_words packed_value_bit)
qed

lemma unat_to_uint64:
  assumes "packed_ok b" "pwidth b \<le> 64"
  shows "unat (to_uint64 b) = packed_value b"
proof (rule nat_bit_eqI)
  fix i
  have "length (pwords b) = 1 \<or> length (pwords b) = 2"
    using assms by (auto simp: packed_ok_def word_count_def)
  then obtain v vs where ws: "pwords b = v # vs" "vs = [] \<or> (\<exists>u. vs = [u])"
    by (auto simp: length_Suc_conv numeral_2_eq_2)
  have cnt: "word_count (pwidth b) = length (pwords b)" using assms(1) by (simp add: packed_ok_def)
  show "bit (unat (to_uint64 b)) i = bit (packed_value b) i"
    using ws(2)
  proof
    assume "vs = []"
    then show ?thesis
      using bit_word_high [of i v]
      by (auto simp: bit_unat to_uint64_def cnt ws(1) packed_value_bit wbit_Cons bit_ucast_iff
          wbit_def [of "[]"])
  next
    assume "\<exists>u. vs = [u]"
    then obtain u where u: "vs = [u]" ..
    then show ?thesis
      using bit_word_high [of i v] bit_word_high [of "i - 32" u]
      by (auto simp: bit_unat to_uint64_def cnt ws(1) packed_value_bit wbit_Cons bit_ucast_iff
          bit_or_iff bit_push_bit_iff wbit_def [of "[]"])
  qed
qed

lemma packed_value_from_uint128:
  "0 < W \<Longrightarrow> packed_value (from_uint128 W v) = unat v mod 2 ^ W"
  by (rule nat_bit_eqI)
    (simp add: packed_value_bit wbit_from_uint128 bit_unat bit_take_bit_iff flip: take_bit_eq_mod)

lemma packed_value_from_uint:
  "0 < W \<Longrightarrow> packed_value (from_uint W v) = unat v mod 2 ^ W"
  by (rule nat_bit_eqI)
    (simp add: packed_value_bit wbit_from_uint bit_unat bit_take_bit_iff flip: take_bit_eq_mod)

lemma packed_value_inject:
  "packed_ok a \<Longrightarrow> packed_ok b \<Longrightarrow> pwidth a = pwidth b \<Longrightarrow> packed_value a = packed_value b \<longleftrightarrow> a = b"
  using packed_eqI [of a b] by (metis packed_value_bit)

section \<open>Hexadecimal text\<close>

text \<open>
  The number a hexadecimal text denotes, most significant digit first, underscores ignored. The
  value of a digit is its place in the usual sequence of digits, in either case.
\<close>

definition hex_places :: "(char \<times> nat) list" where
  "hex_places = zip ''0123456789abcdefABCDEF'' ([0..<16] @ [10..<16])"

definition digit_value :: "char \<Rightarrow> nat" where
  "digit_value c = (case map_of hex_places c of None \<Rightarrow> 0 | Some d \<Rightarrow> d)"

definition hex_value :: "string \<Rightarrow> nat" where
  "hex_value hex = foldl (\<lambda>v c. if c = CHR ''_'' then v else 16 * v + digit_value c) 0 hex"

definition hex_char :: "char \<Rightarrow> bool" where
  "hex_char c \<longleftrightarrow> c \<in> set ''0123456789abcdefABCDEF_''"

definition hex_text :: "string \<Rightarrow> bool" where
  "hex_text hex \<longleftrightarrow> list_all hex_char hex \<and> list_ex (\<lambda>c. c \<noteq> CHR ''_'') hex"

lemma hex_places_digits: "list_all (\<lambda>p. hex_digit (fst p) = Ok (snd p)) hex_places"
  by code_simp

lemma hex_places_keys: "(\<lambda>c. of_char c :: nat) ` set (map fst hex_places) = {48..<58} \<union> {97..<103} \<union> {65..<71}"
proof -
  have "map (\<lambda>c. of_char c :: nat) (map fst hex_places) = [48..<58] @ [97..<103] @ [65..<71]" by code_simp
  from arg_cong [OF this, of set] show ?thesis by (simp add: image_image Un_assoc del: upt_rec_numeral)
qed

lemma hex_digit_table:
  "hex_digit c = (case map_of hex_places c of None \<Rightarrow> Fail (Abort ''invalid hexadecimal digit'') | Some d \<Rightarrow> Ok d)"
proof (cases "map_of hex_places c")
  case (Some d)
  then have "(c, d) \<in> set hex_places" by (rule map_of_SomeD)
  then show ?thesis using hex_places_digits Some by (auto simp: list_all_iff)
next
  case None
  then have "c \<notin> set (map fst hex_places)" by (simp add: map_of_eq_None_iff)
  then have "(of_char c :: nat) \<notin> (\<lambda>c. of_char c) ` set (map fst hex_places)"
    by (metis (no_types, lifting) imageE of_char_eq_iff)
  then have n: "(of_char c :: nat) \<notin> {48..<58}" "(of_char c :: nat) \<notin> {97..<103}" "(of_char c :: nat) \<notin> {65..<71}"
    unfolding hex_places_keys by blast+
  have "of_char CHR ''0'' = (48 :: nat)" "of_char CHR ''9'' = (57 :: nat)" "of_char CHR ''a'' = (97 :: nat)"
    "of_char CHR ''f'' = (102 :: nat)" "of_char CHR ''A'' = (65 :: nat)" "of_char CHR ''F'' = (70 :: nat)" by simp_all
  then show ?thesis using n None unfolding hex_digit_def Let_def by auto
qed

lemma hex_char_digit: "hex_char c \<longleftrightarrow> c = CHR ''_'' \<or> is_ok (hex_digit c)"
proof -
  have "set (map fst hex_places) = set ''0123456789abcdefABCDEF''" by (simp add: hex_places_def upt_rec)
  moreover have "is_ok (hex_digit c) \<longleftrightarrow> c \<in> set (map fst hex_places)"
    using map_of_eq_None_iff [of hex_places c] by (cases "map_of hex_places c") (simp_all add: hex_digit_table)
  ultimately show ?thesis unfolding hex_char_def by auto
qed

lemma hex_digit_value: "hex_digit c = Ok d \<Longrightarrow> digit_value c = d"
  by (auto simp: hex_digit_table digit_value_def split: option.splits)

fun lsd_value :: "string \<Rightarrow> nat" where
  "lsd_value [] = 0"
| "lsd_value (c # cs) = (if c = CHR ''_'' then lsd_value cs else digit_value c + 16 * lsd_value cs)"

fun count_digits :: "string \<Rightarrow> nat" where
  "count_digits [] = 0"
| "count_digits (c # cs) = (if c = CHR ''_'' then count_digits cs else Suc (count_digits cs))"

lemma lsd_value_snoc:
  "lsd_value (cs @ [c]) =
     lsd_value cs + (if c = CHR ''_'' then 0 else 16 ^ count_digits cs * digit_value c)"
  by (induction cs) (auto simp: algebra_simps)

lemma count_digits_snoc:
  "count_digits (cs @ [c]) = (if c = CHR ''_'' then count_digits cs else Suc (count_digits cs))"
  by (induction cs) auto

lemma hex_value_rev: "hex_value hex = lsd_value (rev hex)"
proof -
  have "foldl (\<lambda>v c. if c = CHR ''_'' then v else 16 * v + digit_value c) v hex =
      v * 16 ^ count_digits (rev hex) + lsd_value (rev hex)" for v
  proof (induction hex arbitrary: v)
    case (Cons c cs)
    then show ?case by (auto simp: lsd_value_snoc count_digits_snoc algebra_simps)
  qed simp
  from this [of 0] show ?thesis by (simp add: hex_value_def)
qed

lemma hex_digit_bound: "hex_digit c = Inr d \<Longrightarrow> d < 16"
  by (auto simp: hex_digit_def Let_def split: if_splits)

lemma nat_bit_and_exp: "(n :: nat) AND push_bit b 1 = 0 \<longleftrightarrow> \<not> bit n b"
  by (simp add: and_exp_eq_0_iff_not_bit)

lemma nat_less_exp_iff: "(v :: nat) < 2 ^ W \<longleftrightarrow> (\<forall>i. bit v i \<longrightarrow> i < W)"
proof
  assume "v < 2 ^ W"
  then have "take_bit W v = v" by (simp add: take_bit_nat_eq_self_iff)
  then show "\<forall>i. bit v i \<longrightarrow> i < W" by (metis bit_take_bit_iff)
next
  assume "\<forall>i. bit v i \<longrightarrow> i < W"
  then have "take_bit W v = v" by (intro nat_bit_eqI) (auto simp: bit_take_bit_iff)
  then show "v < 2 ^ W" by (simp add: take_bit_nat_eq_self_iff)
qed


lemma hex_bits_fails:
  "\<exists>b\<in>set bs. bit digit b \<and> W \<le> nibble * 4 + b \<Longrightarrow>
   hex_bits W digit nibble bs ws = Fail (Abort ''hexadecimal value does not fit Bits width'')"
  by (induction bs arbitrary: ws) (auto simp: and_exp_eq_0_iff_not_bit Let_def)

lemma hex_bits_succeeds:
  assumes "length ws = word_count W" "\<forall>b\<in>set bs. bit digit b \<longrightarrow> nibble * 4 + b < W"
  shows "\<exists>ws'. hex_bits W digit nibble bs ws = Ok ws' \<and> length ws' = word_count W \<and>
    (\<forall>i. wbit ws' i \<longleftrightarrow> wbit ws i \<or> (\<exists>b\<in>set bs. bit digit b \<and> i = nibble * 4 + b))"
  using assms
proof (induction bs arbitrary: ws)
  case Nil
  then show ?case by simp
next
  case (Cons b bs)
  show ?case
  proof (cases "bit digit b")
    case False
    with Cons show ?thesis by (simp add: and_exp_eq_0_iff_not_bit)
  next
    case True
    let ?p = "nibble * 4 + b"
    let ?ws = "ws[?p div 32 := ws ! (?p div 32) OR push_bit (?p mod 32) 1]"
    have p: "?p < W" using Cons.prems True by simp
    then have q: "?p div 32 < length ws" using word_count_bound Cons.prems(1) by simp
    have "length ?ws = word_count W" using Cons.prems(1) by simp
    from Cons.IH [OF this] obtain ws' where ws':
      "hex_bits W digit nibble bs ?ws = Ok ws'" "length ws' = word_count W"
      "\<And>i. wbit ws' i \<longleftrightarrow> wbit ?ws i \<or> (\<exists>b\<in>set bs. bit digit b \<and> i = nibble * 4 + b)"
      using Cons.prems(2) by auto
    have "wbit ?ws i \<longleftrightarrow> wbit ws i \<or> i = ?p" for i
    proof -
      have "i mod 32 < 32" by simp
      moreover have "i = ?p \<longleftrightarrow> i div 32 = ?p div 32 \<and> i mod 32 = ?p mod 32"
        by (metis mult_div_mod_eq)
      ultimately show ?thesis
        unfolding wbit_update [OF q] using q
        by (auto simp: wbit_def bit_or_iff bit_one_shifted simp del: push_bit_of_1)
    qed
    moreover have "hex_bits W digit nibble (b # bs) ws = hex_bits W digit nibble bs ?ws"
      using True p by (simp only: hex_bits.simps nat_bit_and_exp Let_def) simp
    ultimately show ?thesis using ws' True by auto
  qed
qed

lemma hex_digit_step:
  assumes "length ws = word_count W" "words_value ws < 16 ^ nibble" "words_value ws < 2 ^ W" "d < 16"
  shows "if words_value ws + 16 ^ nibble * d < 2 ^ W
    then \<exists>ws'. hex_bits W d nibble [0..<4] ws = Ok ws' \<and> length ws' = word_count W \<and>
      words_value ws' = words_value ws + 16 ^ nibble * d
    else hex_bits W d nibble [0..<4] ws = Fail (Abort ''hexadecimal value does not fit Bits width'')"
proof -
  let ?v = "words_value ws + 16 ^ nibble * d"
  have pow: "16 ^ nibble = (2 :: nat) ^ (4 * nibble)" by (simp add: power_mult)
  have vbit: "bit ?v i \<longleftrightarrow> (if i < 4 * nibble then wbit ws i else bit d (i - 4 * nibble))" for i
    using nat_bit_concat [of "words_value ws" "4 * nibble" d i] assms(2)
    by (simp add: pow bit_words_value)
  have low: "wbit ws i \<Longrightarrow> i < 4 * nibble" "wbit ws i \<Longrightarrow> i < W" for i
    using assms(2,3) by (auto simp: pow nat_less_exp_iff bit_words_value)
  have d4: "bit d b \<Longrightarrow> b < 4" for b
    using assms(4) nat_less_exp_iff [of d 4] by simp
  have fits: "?v < 2 ^ W \<longleftrightarrow> (\<forall>b\<in>set [0..<4]. bit d b \<longrightarrow> nibble * 4 + b < W)"
  proof
    assume "?v < 2 ^ W"
    then have "bit ?v (4 * nibble + b) \<longrightarrow> 4 * nibble + b < W" for b by (simp add: nat_less_exp_iff)
    then show "\<forall>b\<in>set [0..<4]. bit d b \<longrightarrow> nibble * 4 + b < W"
      unfolding vbit by (simp add: mult.commute)
  next
    assume *: "\<forall>b\<in>set [0..<4]. bit d b \<longrightarrow> nibble * 4 + b < W"
    have "i < W" if "bit ?v i" for i
    proof (cases "i < 4 * nibble")
      case False
      then have "bit d (i - 4 * nibble)" using that vbit by simp
      then show ?thesis using * d4 False by (metis add.commute atLeastLessThan_iff atLeast_upt le_add_diff_inverse2 lessThan_iff mult.commute not_less)
    qed (use that vbit low in auto)
    then show "?v < 2 ^ W" by (simp add: nat_less_exp_iff)
  qed
  show ?thesis
  proof (cases "?v < 2 ^ W")
    case True
    then obtain ws' where ws': "hex_bits W d nibble [0..<4] ws = Ok ws'" "length ws' = word_count W"
      "\<And>i. wbit ws' i \<longleftrightarrow> wbit ws i \<or> (\<exists>b\<in>set [0..<4]. bit d b \<and> i = nibble * 4 + b)"
      using hex_bits_succeeds [OF assms(1), of "[0..<4]" d nibble] fits by blast
    have "words_value ws' = ?v"
    proof (rule nat_bit_eqI)
      fix i
      have "(\<exists>b\<in>set [0..<4]. bit d b \<and> i = nibble * 4 + b) \<longleftrightarrow> 4 * nibble \<le> i \<and> bit d (i - 4 * nibble)"
        using d4 by (auto intro: bexI [of _ "i - 4 * nibble"])
      then show "bit (words_value ws') i = bit ?v i"
        using low by (auto simp: bit_words_value ws'(3) vbit)
    qed
    with True ws' show ?thesis by auto
  next
    case False
    then have "\<exists>b\<in>set [0..<4]. bit d b \<and> W \<le> nibble * 4 + b" using fits by auto
    with False show ?thesis by (simp only: hex_bits_fails if_False)
  qed
qed
lemma hex_loop_result:
  assumes "length ws = word_count W" "words_value ws < 16 ^ nibble" "words_value ws < 2 ^ W"
    and "list_all hex_char cs"
  shows "if words_value ws + 16 ^ nibble * lsd_value cs < 2 ^ W
    then \<exists>ws'. hex_loop W cs nibble saw ws = Ok (saw \<or> list_ex (\<lambda>c. c \<noteq> CHR ''_'') cs, ws') \<and>
      length ws' = word_count W \<and> words_value ws' = words_value ws + 16 ^ nibble * lsd_value cs
    else hex_loop W cs nibble saw ws = Fail (Abort ''hexadecimal value does not fit Bits width'')"
  using assms
proof (induction cs arbitrary: nibble saw ws)
  case Nil
  then show ?case by simp
next
  case (Cons c cs)
  show ?case
  proof (cases "c = CHR ''_''")
    case True
    with Cons.IH [OF Cons.prems(1-3)] Cons.prems(4) show ?thesis by simp
  next
    case False
    then obtain d where d: "hex_digit c = Inr d"
      using Cons.prems(4) by (auto simp: hex_char_digit is_ok_iff)
    then have d16: "d < 16" and dv: "digit_value c = d"
      by (auto simp: hex_digit_bound hex_digit_value)
    let ?v = "words_value ws + 16 ^ nibble * d"
    have total: "words_value ws + 16 ^ nibble * lsd_value (c # cs) = ?v + 16 ^ Suc nibble * lsd_value cs"
      using False dv by (simp add: algebra_simps)
    have small: "?v < 16 ^ Suc nibble"
    proof -
      have "?v < 16 ^ nibble + 16 ^ nibble * d" using Cons.prems(2) by simp
      also have "\<dots> \<le> 16 ^ nibble * 16" using d16
        by (metis Suc_leI mult_Suc_right mult_le_mono2)
      finally show ?thesis by simp
    qed
    show ?thesis
    proof (cases "?v < 2 ^ W")
      case True
      with hex_digit_step [OF Cons.prems(1-3) d16] obtain ws' where ws':
        "hex_bits W d nibble [0..<4] ws = Ok ws'" "length ws' = word_count W" "words_value ws' = ?v"
        by auto
      have step: "hex_loop W (c # cs) nibble saw ws = hex_loop W cs (Suc nibble) True ws'"
        using False d ws'(1) by (simp del: upt_Suc add: numeral_eq_Suc)
      have ih: "if ?v + 16 ^ Suc nibble * lsd_value cs < 2 ^ W
        then \<exists>vs. hex_loop W cs (Suc nibble) True ws' = Ok (True, vs) \<and> length vs = word_count W \<and>
          words_value vs = ?v + 16 ^ Suc nibble * lsd_value cs
        else hex_loop W cs (Suc nibble) True ws' = Fail (Abort ''hexadecimal value does not fit Bits width'')"
        using Cons.IH [of ws' "Suc nibble" True] Cons.prems(4) ws'(2,3) small True by (simp split: if_splits)
      show ?thesis unfolding total step using ih False by (auto split: if_splits)
    next
      case over: False
      then have "hex_loop W (c # cs) nibble saw ws = Fail (Abort ''hexadecimal value does not fit Bits width'')"
        using hex_digit_step [OF Cons.prems(1-3) d16] False d by simp
      with over show ?thesis unfolding total by simp
    qed
  qed
qed

lemma hex_loop_invalid:
  "\<not> list_all hex_char cs \<Longrightarrow> \<not> is_ok (hex_loop W cs nibble saw ws)"
  by (induction cs arbitrary: nibble saw ws)
    (auto simp: hex_char_digit is_ok_iff split: sum.splits)

lemma words_value_zero [simp]: "words_value (replicate n 0) = 0"
  by (rule nat_bit_eqI) (simp add: bit_words_value)

text \<open>The digits of a text: what follows an optional \<open>0x\<close> or \<open>0X\<close>.\<close>

fun hex_digits :: "string \<Rightarrow> string" where
  "hex_digits (CHR ''0'' # CHR ''x'' # hex) = hex"
| "hex_digits (CHR ''0'' # CHR ''X'' # hex) = hex"
| "hex_digits hex = hex"

lemma hex_digits_def: "hex_digits hex = drop (hex_begin hex) hex"
  by (induction hex rule: hex_digits.induct) (simp_all add: hex_begin_def)

lemma from_hex_value:
  assumes "0 < W" "hex_text (hex_digits hex)" "hex_value (hex_digits hex) < 2 ^ W"
  shows "\<exists>b. from_hex W hex = Ok b \<and> pwidth b = W \<and> packed_ok b \<and>
    packed_value b = hex_value (hex_digits hex)"
proof -
  let ?cs = "rev (hex_digits hex)"
  have "list_all hex_char ?cs" "list_ex (\<lambda>c. c \<noteq> CHR ''_'') ?cs"
    using assms(2) by (simp_all add: hex_text_def)
  then obtain ws where ws:
    "hex_loop W ?cs 0 False (replicate (word_count W) 0) = Ok (True, ws)"
    "length ws = word_count W" "words_value ws = hex_value (hex_digits hex)"
    using hex_loop_result [of "replicate (word_count W) 0" W 0 ?cs False] assms(1,3)
    by (auto simp: hex_value_rev)
  let ?b = "\<lparr>pwidth = W, pwords = mask_padding W ws\<rparr>"
  have "words_value (mask_padding W ws) = words_value ws"
  proof (rule nat_bit_eqI)
    fix i
    have "words_value ws < 2 ^ W" using ws(3) assms(3) by simp
    then have "wbit ws i \<longrightarrow> i < W" by (simp only: nat_less_exp_iff bit_words_value) simp
    then show "bit (words_value (mask_padding W ws)) i = bit (words_value ws) i"
      using assms(1) ws(2) by (auto simp: bit_words_value wbit_mask_padding)
  qed
  then show ?thesis
    using ws assms(1)
    by (simp add: from_hex_def hex_digits_def packed_value_def packed_ok_mask_padding)
qed

lemma from_hex_defined_iff:
  assumes "0 < W"
  shows "is_ok (from_hex W hex) \<longleftrightarrow>
    hex_text (hex_digits hex) \<and> hex_value (hex_digits hex) < 2 ^ W"
proof
  assume "hex_text (hex_digits hex) \<and> hex_value (hex_digits hex) < 2 ^ W"
  then show "is_ok (from_hex W hex)" using from_hex_value [OF assms, of hex] by (auto simp: is_ok_iff)
next
  assume ok: "is_ok (from_hex W hex)"
  let ?cs = "rev (hex_digits hex)"
  have loop: "is_ok (hex_loop W ?cs 0 False (replicate (word_count W) 0))"
    using ok by (auto simp: from_hex_def hex_digits_def is_ok_iff split: sum.splits)
  then have valid: "list_all hex_char ?cs" using hex_loop_invalid by blast
  have fits: "hex_value (hex_digits hex) < 2 ^ W"
    using hex_loop_result [of "replicate (word_count W) 0" W 0 ?cs False] valid loop assms
    by (auto simp: hex_value_rev is_ok_iff split: if_splits)
  have "list_ex (\<lambda>c. c \<noteq> CHR ''_'') ?cs"
    using hex_loop_result [of "replicate (word_count W) 0" W 0 ?cs False] valid fits assms ok
    by (auto simp: hex_value_rev from_hex_def hex_digits_def is_ok_iff split: if_splits)
  with valid fits show "hex_text (hex_digits hex) \<and> hex_value (hex_digits hex) < 2 ^ W"
    by (simp add: hex_text_def)
qed

section \<open>Properties\<close>

lemma pwidth_from_uint [simp]: "pwidth (from_uint W v) = W" "pwidth (from_uint128 W v2) = W"
  by (simp_all add: from_uint_def from_uint128_def Let_def)

text \<open>
  Property C37: \<open>set_slice\<close> writes a value into a window and touches nothing else: reading the
  window back gives the value, every bit outside keeps its value, the padding above the width
  stays zero, and the write is refused exactly when the window does not fit.
\<close>

theorem set_slice_get_slice:
  assumes "packed_ok b" "packed_ok v"
  shows "(if lsb + pwidth v \<le> pwidth b
     then \<exists>b'. set_slice lsb v b = Inr b' \<and> packed_ok b' \<and> pwidth b' = pwidth b \<and>
       slice_bits (pwidth v) lsb b' = Inr v \<and>
       (\<forall>i<pwidth b. (i < lsb \<or> lsb + pwidth v \<le> i) \<longrightarrow> get_bit b' i = get_bit b i)
     else set_slice lsb v b = Fail (Abort ''Bits set_slice is out of bounds''))"
proof (cases "lsb + pwidth v \<le> pwidth b")
  case True
  then obtain b' where b': "set_slice lsb v b = Inr b'"
    using set_slice_defined_iff [of lsb v b] by (auto simp: is_ok_iff)
  note ok' = set_slice_ok [OF assms b'] and res = set_slice_result [OF b']
  obtain w where w: "slice_bits (pwidth v) lsb b' = Inr w"
    using True res slice_bits_defined_iff [of "pwidth v" lsb b'] by (auto simp: is_ok_iff)
  have pos: "0 < pwidth v" using assms(2) by (simp add: packed_ok_def)
  have "w = v"
  proof (rule packed_eqI)
    show "packed_ok w" "pwidth w = pwidth v" using slice_bits_ok [OF pos w] by simp_all
    show "wbit (pwords w) i = wbit (pwords v) i" if "i < pwidth w" for i
      using that slice_bits_ok [OF pos w] by (simp add: wbit_slice_bits [OF ok' pos w] wbit_set_slice [OF assms b'])
  qed fact
  moreover have "get_bit b' i = get_bit b i" if "i < pwidth b" "i < lsb \<or> lsb + pwidth v \<le> i" for i
    using that res by (auto simp: get_bit_eq ok' assms wbit_set_slice [OF assms b'])
  ultimately show ?thesis using True b' ok' res w by auto
next
  case False
  then show ?thesis by (auto simp: set_slice_def Let_def)
qed

lemma set_slice_get_slice_witness:
  "\<exists>b'. set_slice 28 (from_uint 9 0x155) (from_uint 40 0xffffffffff) = Inr b' \<and>
     slice_bits 9 28 b' = Inr (from_uint 9 0x155)"
  using set_slice_get_slice [OF from_uint_ok [of 40 "0xffffffffff"] from_uint_ok [of 9 "0x155"], of 28]
  by auto

text \<open>
  Property C38: parsing a hexadecimal text succeeds exactly when what follows the optional prefix
  is hexadecimal digits and underscores with at least one digit, and its value fits the width; the
  result then denotes that value, with the words' padding zero.
\<close>

theorem from_hex_correct:
  assumes "0 < W"
  shows "(if hex_text (hex_digits hex) \<and> hex_value (hex_digits hex) < 2 ^ W
     then \<exists>b. from_hex W hex = Inr b \<and> pwidth b = W \<and> packed_ok b \<and>
       packed_value b = hex_value (hex_digits hex)
     else \<not> is_ok (from_hex W hex))"
  using from_hex_value [OF assms, of hex] from_hex_defined_iff [OF assms, of hex] by auto

lemma from_hex_correct_witness:
  "\<exists>b. from_hex 9 ''0xA_b'' = Inr b \<and> packed_value b = 0xab"
proof -
  have "hex_text (hex_digits ''0xA_b'')" "hex_value (hex_digits ''0xA_b'') = 0xab"
    by code_simp+
  then show ?thesis using from_hex_correct [of 9 "''0xA_b''"] by auto
qed

text \<open>
  converting to and from integers is exact: a 128-bit value comes back reduced modulo
  the width, and a packed value of up to 128 (64) bits is recovered from its integer.
\<close>

theorem packed_integers_roundtrip:
  assumes "packed_ok b" "pwidth b \<le> 128"
  shows "unat (to_uint128 b) = packed_value b \<and> from_uint128 (pwidth b) (to_uint128 b) = b \<and>
    to_uint128 (from_uint128 (pwidth b) v) = take_bit (pwidth b) v \<and>
    (pwidth b \<le> 64 \<longrightarrow> unat (to_uint64 b) = packed_value b \<and> from_uint (pwidth b) (to_uint64 b) = b)"
proof (intro conjI impI)
  have pos: "0 < pwidth b" using assms(1) by (simp add: packed_ok_def)
  have small: "packed_value b mod 2 ^ pwidth b = packed_value b"
    using packed_value_bound [OF assms(1)] by simp
  show u: "unat (to_uint128 b) = packed_value b" by (rule unat_to_uint128 [OF assms])
  show "from_uint128 (pwidth b) (to_uint128 b) = b"
    using packed_value_inject [OF from_uint128_ok [OF pos, of "to_uint128 b"] assms(1)] u small
    by (simp add: packed_value_from_uint128 [OF pos])
  have w: "pwidth (from_uint128 (pwidth b) v) = pwidth b" by simp
  have "unat (to_uint128 (from_uint128 (pwidth b) v)) = unat (take_bit (pwidth b) v)"
    using unat_to_uint128 [OF from_uint128_ok [OF pos]] assms(2) w packed_value_from_uint128 [OF pos, of v]
    by (simp add: unsigned_take_bit_eq flip: take_bit_eq_mod)
  then show "to_uint128 (from_uint128 (pwidth b) v) = take_bit (pwidth b) v"
    by (rule unsigned_word_eqI)
  assume le: "pwidth b \<le> 64"
  show u64: "unat (to_uint64 b) = packed_value b" by (rule unat_to_uint64 [OF assms(1) le])
  show "from_uint (pwidth b) (to_uint64 b) = b"
    using packed_value_inject [OF from_uint_ok [OF pos, of "to_uint64 b"] assms(1)] u64 small
    by (simp add: packed_value_from_uint [OF pos])
qed

lemma packed_integers_roundtrip_witness:
  "from_uint128 100 (to_uint128 (from_uint 100 77)) = from_uint 100 77 \<and> to_uint128 (from_uint128 100 (- 1)) = mask 100"
proof -
  have "pwidth (from_uint 100 77) = 100" by simp
  then show ?thesis
    using packed_integers_roundtrip [OF from_uint_ok [of 100 77], of "- 1"]
    by (simp add: take_bit_minus_one_eq_mask)
qed

end
