(* ===== verification/SchedTypes.thy ===== *)
theory SchedTypes
  imports Cpptb_Prelude
begin

text \<open>
  The enumerations, times, triggers and wait requests at the head of
  \<open>include/cpptb/coro_runtime.hpp\<close>, and the wait reasons of \<open>include/cpptb/wait_graph.hpp\<close>.
\<close>

section \<open>Enumerations\<close>

datatype edge_kind = Rising | Falling | AnyEdge

datatype wait_kind = WaitEdge | WaitDelay | WaitReadWrite | WaitReadOnly | WaitNextTimeStep

datatype simulation_phase = Evaluation | PhaseReadWrite | PhaseReadOnly | PhaseNextTimeStep

datatype wait_reason =
    ReasonNone | ReasonTask | ReasonProcess | ReasonJoin | ReasonRisingEdge | ReasonFallingEdge
  | ReasonEdge | ReasonDelay | ReasonReadWrite | ReasonReadOnly | ReasonNextTimeStep | ReasonEvent
  | ReasonQueueGet | ReasonQueuePut | ReasonSemaphore | ReasonLock | ReasonTimeout | ReasonFirst

text \<open>\<open>static_cast<size_t>(edge)\<close>, the index of an edge kind in the arrays of three.\<close>

fun edge_code :: "edge_kind \<Rightarrow> nat" where
  "edge_code Rising = 0"
| "edge_code Falling = 1"
| "edge_code AnyEdge = 2"

definition edge_queue_index :: "nat \<Rightarrow> edge_kind \<Rightarrow> nat" where
  "edge_queue_index signal_id edge = signal_id * 3 + edge_code edge"

fun phase_wait_index :: "wait_kind \<Rightarrow> nat result" where
  "phase_wait_index WaitReadWrite = Ok 0"
| "phase_wait_index WaitReadOnly = Ok 1"
| "phase_wait_index WaitNextTimeStep = Ok 2"
| "phase_wait_index _ = Fail (Abort ''wait kind is not a simulator phase'')"

fun simulation_phase_of :: "wait_kind \<Rightarrow> simulation_phase result" where
  "simulation_phase_of WaitReadWrite = Ok PhaseReadWrite"
| "simulation_phase_of WaitReadOnly = Ok PhaseReadOnly"
| "simulation_phase_of WaitNextTimeStep = Ok PhaseNextTimeStep"
| "simulation_phase_of _ = Fail (Abort ''wait kind is not a simulator phase'')"

section \<open>Simulation time\<close>

text \<open>\<open>SimTime\<close> holds a \<open>uint64_t\<close> number of femtoseconds; its arithmetic wraps.\<close>

type_synonym sim_time = u64

definition in_picoseconds :: "sim_time \<Rightarrow> u64" where
  "in_picoseconds t = t div 1000"

definition in_nanoseconds :: "sim_time \<Rightarrow> u64" where
  "in_nanoseconds t = t div 1000000"

definition sim_time_add :: "sim_time \<Rightarrow> sim_time \<Rightarrow> sim_time" where
  "sim_time_add l r = l + r"

definition fs_literal :: "u64 \<Rightarrow> sim_time" where "fs_literal v = v"
definition ps_literal :: "u64 \<Rightarrow> sim_time" where "ps_literal v = v * 1000"
definition ns_literal :: "u64 \<Rightarrow> sim_time" where "ns_literal v = v * 1000000"
definition us_literal :: "u64 \<Rightarrow> sim_time" where "us_literal v = v * 1000000000"
definition ms_literal :: "u64 \<Rightarrow> sim_time" where "ms_literal v = v * 1000000000000"

section \<open>Triggers and wait requests\<close>

text \<open>A trigger names its signal by identifier; source locations are left out.\<close>

datatype trigger =
    TRisingEdge nat | TFallingEdge nat | TEdge nat | TDelay sim_time
  | TReadWrite | TReadOnly | TNextTimeStep

record wait_request =
  req_kind :: wait_kind
  req_signal :: nat
  req_edge :: edge_kind
  req_delay :: sim_time

definition edge_on :: "nat \<Rightarrow> edge_kind \<Rightarrow> wait_request" where
  "edge_on signal edge = \<lparr>req_kind = WaitEdge, req_signal = signal, req_edge = edge, req_delay = 0\<rparr>"

definition delay_for :: "sim_time \<Rightarrow> wait_request" where
  "delay_for duration =
     \<lparr>req_kind = WaitDelay, req_signal = 0, req_edge = Rising, req_delay = duration\<rparr>"

definition phase_request :: "wait_kind \<Rightarrow> wait_request" where
  "phase_request kind = \<lparr>req_kind = kind, req_signal = 0, req_edge = Rising, req_delay = 0\<rparr>"

fun wait_request_of :: "trigger \<Rightarrow> wait_request" where
  "wait_request_of (TRisingEdge s) = edge_on s Rising"
| "wait_request_of (TFallingEdge s) = edge_on s Falling"
| "wait_request_of (TEdge s) = edge_on s AnyEdge"
| "wait_request_of (TDelay d) = delay_for d"
| "wait_request_of TReadWrite = phase_request WaitReadWrite"
| "wait_request_of TReadOnly = phase_request WaitReadOnly"
| "wait_request_of TNextTimeStep = phase_request WaitNextTimeStep"

fun wait_reason_of :: "trigger \<Rightarrow> wait_reason" where
  "wait_reason_of (TRisingEdge s) = ReasonRisingEdge"
| "wait_reason_of (TFallingEdge s) = ReasonFallingEdge"
| "wait_reason_of (TEdge s) = ReasonEdge"
| "wait_reason_of (TDelay d) = ReasonDelay"
| "wait_reason_of TReadWrite = ReasonReadWrite"
| "wait_reason_of TReadOnly = ReasonReadOnly"
| "wait_reason_of TNextTimeStep = ReasonNextTimeStep"

lemma edge_code_less [simp]: "edge_code e < 3"
  by (cases e) simp_all

lemma edge_code_inject [simp]: "edge_code a = edge_code b \<longleftrightarrow> a = b"
  by (cases a; cases b) simp_all

lemma edge_queue_index_div [simp]: "edge_queue_index s e div 3 = s"
  using edge_code_less [of e] by (simp add: edge_queue_index_def)

lemma edge_queue_index_mod [simp]: "edge_queue_index s e mod 3 = edge_code e"
  using edge_code_less [of e] by (simp add: edge_queue_index_def)

lemma edge_queue_index_inject [simp]:
  "edge_queue_index s e = edge_queue_index s' e' \<longleftrightarrow> s = s' \<and> e = e'"
  by (metis edge_code_inject edge_queue_index_div edge_queue_index_mod)

lemma phase_wait_index_less: "phase_wait_index k = Inr p \<Longrightarrow> p < 3"
  by (cases k) auto

end
