(* ===== verification/EdgeInterest.thy ===== *)
theory EdgeInterest
  imports SchedTypes
begin

text \<open>
  The scheduler's edge-interest bookkeeping (\<open>coro_runtime.hpp\<close>): how many live waits there are
  per signal and edge kind, which queue indices each coroutine registered, and the queue of
  signals whose interest mask changed, which the simulator adapter consumes to arm and disarm its
  callbacks. Static sources are never counted; a sticky source only ever gains interest.
\<close>

section \<open>State\<close>

record edge_interest =
  ei_counts :: "(nat \<Rightarrow> nat) list"
  ei_pending :: "bool list"
  ei_static :: "bool list"
  ei_sticky :: "bool list"
  ei_sticky_mask :: "u8 list"
  ei_changes :: "nat list"
  ei_generation :: nat
  ei_indices :: "nat list list"

definition edge_interest_init :: edge_interest where
  "edge_interest_init =
     \<lparr>ei_counts = [], ei_pending = [], ei_static = [], ei_sticky = [], ei_sticky_mask = [],
      ei_changes = [], ei_generation = 0, ei_indices = []\<rparr>"

section \<open>Operations\<close>

definition interest_none :: u8 where "interest_none = 0"
definition interest_rising :: u8 where "interest_rising = 1"
definition interest_falling :: u8 where "interest_falling = 2"

definition interest_mask :: "(nat \<Rightarrow> nat) \<Rightarrow> u8" where
  "interest_mask counts =
     (let m = interest_none;
          m = (if counts (edge_code Rising) \<noteq> 0 \<or> counts (edge_code AnyEdge) \<noteq> 0
               then m OR interest_rising else m);
          m = (if counts (edge_code Falling) \<noteq> 0 \<or> counts (edge_code AnyEdge) \<noteq> 0
               then m OR interest_falling else m)
      in m)"

definition edge_interest_of :: "edge_interest \<Rightarrow> nat \<Rightarrow> u8" where
  "edge_interest_of ei signal_id =
     (if signal_id \<ge> length (ei_counts ei) then interest_none
      else interest_mask (ei_counts ei ! signal_id))"

definition has_edge_interest :: "edge_interest \<Rightarrow> nat \<Rightarrow> edge_kind \<Rightarrow> bool" where
  "has_edge_interest ei signal_id edge =
     (if signal_id \<ge> length (ei_counts ei) then False
      else let counts = ei_counts ei ! signal_id in
        if edge = AnyEdge then counts (edge_code AnyEdge) \<noteq> 0
        else counts (edge_code edge) \<noteq> 0 \<or> counts (edge_code AnyEdge) \<noteq> 0)"

definition is_static_source :: "edge_interest \<Rightarrow> nat \<Rightarrow> bool" where
  "is_static_source ei signal_id = (signal_id < length (ei_static ei) \<and> ei_static ei ! signal_id)"

definition is_sticky_source :: "edge_interest \<Rightarrow> nat \<Rightarrow> bool" where
  "is_sticky_source ei signal_id = (signal_id < length (ei_sticky ei) \<and> ei_sticky ei ! signal_id)"

definition configure_static_source :: "bool \<Rightarrow> nat \<Rightarrow> edge_interest \<Rightarrow> edge_interest result" where
  "configure_static_source wait_registered signal_id ei =
     (if wait_registered
      then Fail (Abort ''static edge source must be configured before registering any waits'')
      else Ok (ei\<lparr>ei_static := (grow (signal_id + 1) False (ei_static ei))[signal_id := True]\<rparr>))"

definition configure_sticky_source :: "bool \<Rightarrow> nat \<Rightarrow> edge_interest \<Rightarrow> edge_interest result" where
  "configure_sticky_source wait_registered signal_id ei =
     (if wait_registered
      then Fail (Abort ''sticky edge source must be configured before registering any waits'')
      else
        let ei = (if signal_id \<ge> length (ei_sticky ei)
                  then ei\<lparr>ei_sticky := grow (signal_id + 1) False (ei_sticky ei),
                          ei_sticky_mask := grow (signal_id + 1) interest_none (ei_sticky_mask ei)\<rparr>
                  else ei)
        in Ok (ei\<lparr>ei_sticky := (ei_sticky ei)[signal_id := True]\<rparr>))"

definition note_interest_change :: "nat \<Rightarrow> edge_interest \<Rightarrow> edge_interest" where
  "note_interest_change signal_id ei =
     (let ei = ei\<lparr>ei_generation := ei_generation ei + 1\<rparr> in
      if \<not> ei_pending ei ! signal_id
      then ei\<lparr>ei_pending := (ei_pending ei)[signal_id := True],
              ei_changes := ei_changes ei @ [signal_id]\<rparr>
      else ei)"

definition record_interest_change :: "nat \<Rightarrow> u8 \<Rightarrow> edge_interest \<Rightarrow> edge_interest" where
  "record_interest_change signal_id previous ei =
     (let current = edge_interest_of ei signal_id in
      if is_sticky_source ei signal_id then
        let new_interest = current AND NOT (ei_sticky_mask ei ! signal_id) in
        if new_interest = interest_none then ei
        else note_interest_change signal_id
               (ei\<lparr>ei_sticky_mask :=
                     (ei_sticky_mask ei)[signal_id := ei_sticky_mask ei ! signal_id OR new_interest]\<rparr>)
      else if current = previous then ei
      else note_interest_change signal_id ei)"

definition add_edge_interest :: "nat \<Rightarrow> nat \<Rightarrow> edge_interest \<Rightarrow> edge_interest" where
  "add_edge_interest state_index queue_index ei =
     (let signal_id = queue_index div 3 in
      if is_static_source ei signal_id then ei
      else
        let edge_index = queue_index mod 3;
            ei = (if signal_id \<ge> length (ei_counts ei)
                  then ei\<lparr>ei_counts := grow (signal_id + 1) (\<lambda>_. 0) (ei_counts ei),
                          ei_pending := grow (signal_id + 1) False (ei_pending ei)\<rparr>
                  else ei);
            ei = ei\<lparr>ei_indices := grow (state_index + 1) [] (ei_indices ei)\<rparr>;
            previous = edge_interest_of ei signal_id;
            counts = ei_counts ei ! signal_id;
            ei = ei\<lparr>ei_counts :=
                      (ei_counts ei)[signal_id := counts(edge_index := counts edge_index + 1)]\<rparr>;
            ei = ei\<lparr>ei_indices :=
                      (ei_indices ei)[state_index := ei_indices ei ! state_index @ [queue_index]]\<rparr>
        in record_interest_change signal_id previous ei)"

definition remove_edge_interest :: "nat \<Rightarrow> edge_interest \<Rightarrow> edge_interest result" where
  "remove_edge_interest queue_index ei =
     (let signal_id = queue_index div 3;
          edge_index = queue_index mod 3;
          previous = edge_interest_of ei signal_id;
          counts = ei_counts ei ! signal_id
      in if counts edge_index = 0 then Fail (Abort ''edge interest bookkeeping underflow'')
         else Ok (record_interest_change signal_id previous
                (ei\<lparr>ei_counts :=
                      (ei_counts ei)[signal_id := counts(edge_index := counts edge_index - 1)]\<rparr>)))"

fun remove_edge_interest_list :: "nat list \<Rightarrow> edge_interest \<Rightarrow> edge_interest result" where
  "remove_edge_interest_list [] ei = Ok ei"
| "remove_edge_interest_list (q # qs) ei =
     result_bind (remove_edge_interest q ei) (remove_edge_interest_list qs)"

definition remove_edge_interests :: "nat \<Rightarrow> edge_interest \<Rightarrow> edge_interest result" where
  "remove_edge_interests state_index ei =
     (if state_index \<ge> length (ei_indices ei) then Ok ei
      else result_bind (remove_edge_interest_list (ei_indices ei ! state_index) ei)
             (\<lambda>ei. Ok (ei\<lparr>ei_indices := (ei_indices ei)[state_index := []]\<rparr>)))"

definition consume_interest_change :: "edge_interest \<Rightarrow> (nat \<times> u8) option \<times> edge_interest" where
  "consume_interest_change ei =
     (case ei_changes ei of
        [] \<Rightarrow> (None, ei)
      | signal_id # rest \<Rightarrow>
          (Some (signal_id, edge_interest_of ei signal_id),
           ei\<lparr>ei_changes := rest, ei_pending := (ei_pending ei)[signal_id := False]\<rparr>))"

section \<open>Well-formedness\<close>

definition occurrences :: "edge_interest \<Rightarrow> nat \<Rightarrow> nat \<Rightarrow> nat" where
  "occurrences ei s e = count_list (concat (ei_indices ei)) (s * 3 + e)"

definition counts_ok :: "(nat \<Rightarrow> nat) list \<Rightarrow> nat list list \<Rightarrow> bool" where
  "counts_ok counts indices \<longleftrightarrow>
     (\<forall>q\<in>set (concat indices). q div 3 < length counts) \<and>
     (\<forall>s<length counts. \<forall>e<3. (counts ! s) e = count_list (concat indices) (s * 3 + e))"

definition notify_ok :: "bool list \<Rightarrow> nat list \<Rightarrow> bool" where
  "notify_ok pending changes \<longleftrightarrow>
     distinct changes \<and> (\<forall>s\<in>set changes. s < length pending) \<and>
     (\<forall>s<length pending. pending ! s \<longleftrightarrow> s \<in> set changes)"

definition ei_ok :: "edge_interest \<Rightarrow> bool" where
  "ei_ok ei \<longleftrightarrow>
     length (ei_pending ei) = length (ei_counts ei) \<and>
     length (ei_sticky_mask ei) = length (ei_sticky ei) \<and>
     counts_ok (ei_counts ei) (ei_indices ei) \<and>
     notify_ok (ei_pending ei) (ei_changes ei)"

lemma ei_ok_init: "ei_ok edge_interest_init"
  by (simp add: ei_ok_def counts_ok_def notify_ok_def edge_interest_init_def)

lemma count_concat_update:
  "i < length xs \<Longrightarrow>
   count_list (concat (xs[i := ys])) q + count_list (xs ! i) q =
   count_list (concat xs) q + count_list ys q"
  by (induction xs arbitrary: i) (auto simp: nth_Cons split: nat.splits)

lemma count_nth_le_concat: "i < length xs \<Longrightarrow> count_list (xs ! i) q \<le> count_list (concat xs) q"
  using count_concat_update [of i xs "[]" q] by simp

lemma concat_replicate_Nil [simp]: "concat (replicate n []) = []"
  by (induction n) auto

lemma concat_grow_Nil [simp]: "concat (grow n [] xs) = concat xs"
  by (simp add: grow_def)

lemma nth_grow: "i < length xs \<Longrightarrow> grow n d xs ! i = xs ! i"
  by (simp add: grow_def nth_append)

lemma nth_grow_new: "length xs \<le> i \<Longrightarrow> i < n \<Longrightarrow> grow n d xs ! i = d"
  by (simp add: grow_def nth_append)

text \<open>Recording a change touches only the notification fields.\<close>

lemma note_change_frame [simp]:
  "ei_counts (note_interest_change s ei) = ei_counts ei"
  "ei_indices (note_interest_change s ei) = ei_indices ei"
  "ei_static (note_interest_change s ei) = ei_static ei"
  "ei_sticky (note_interest_change s ei) = ei_sticky ei"
  "ei_sticky_mask (note_interest_change s ei) = ei_sticky_mask ei"
  by (simp_all add: note_interest_change_def Let_def)

lemma record_change_frame [simp]:
  "ei_counts (record_interest_change s p ei) = ei_counts ei"
  "ei_indices (record_interest_change s p ei) = ei_indices ei"
  "ei_static (record_interest_change s p ei) = ei_static ei"
  "ei_sticky (record_interest_change s p ei) = ei_sticky ei"
  by (simp_all add: record_interest_change_def Let_def)

lemma edge_interest_of_cong:
  "ei_counts a = ei_counts b \<Longrightarrow> edge_interest_of a s = edge_interest_of b s"
  by (simp add: edge_interest_of_def)

lemma edge_interest_of_record [simp]:
  "edge_interest_of (record_interest_change s p ei) t = edge_interest_of ei t"
  by (rule edge_interest_of_cong) simp

lemma notify_ok_add:
  "notify_ok pending changes \<Longrightarrow> s < length pending \<Longrightarrow> \<not> pending ! s \<Longrightarrow>
   notify_ok (pending[s := True]) (changes @ [s])"
  by (auto simp add: notify_ok_def nth_list_update)

lemma note_change_ok:
  "ei_ok ei \<Longrightarrow> s < length (ei_counts ei) \<Longrightarrow> ei_ok (note_interest_change s ei)"
  by (simp add: ei_ok_def note_interest_change_def Let_def notify_ok_add)

lemma record_change_ok [keeps_ok]:
  assumes "ei_ok ei" "s < length (ei_counts ei)"
  shows "ei_ok (record_interest_change s p ei)"
proof -
  have "ei_ok (ei\<lparr>ei_sticky_mask := (ei_sticky_mask ei)[s := m]\<rparr>)" for m
    using assms(1) by (simp add: ei_ok_def)
  then show ?thesis
    using assms by (simp add: record_interest_change_def Let_def note_change_ok)
qed

text \<open>The two list-shaped updates of \<open>add\<close> and \<open>remove\<close>, without the notification.\<close>

definition bump_count :: "nat \<Rightarrow> nat \<Rightarrow> edge_interest \<Rightarrow> edge_interest" where
  "bump_count i q ei =
     ei\<lparr>ei_counts := (ei_counts ei)[q div 3 :=
            (ei_counts ei ! (q div 3))(q mod 3 := (ei_counts ei ! (q div 3)) (q mod 3) + 1)],
        ei_indices := (ei_indices ei)[i := ei_indices ei ! i @ [q]]\<rparr>"

definition interest_room :: "nat \<Rightarrow> nat \<Rightarrow> edge_interest \<Rightarrow> edge_interest" where
  "interest_room i q ei =
     ei\<lparr>ei_counts := grow (q div 3 + 1) (\<lambda>_. 0) (ei_counts ei),
        ei_pending := grow (q div 3 + 1) False (ei_pending ei),
        ei_indices := grow (i + 1) [] (ei_indices ei)\<rparr>"

lemma grow_idle: "n \<le> length xs \<Longrightarrow> grow n d xs = xs"
  by (simp add: grow_def)

lemma index_split: "q = s * 3 + e \<and> e < 3 \<longleftrightarrow> s = q div 3 \<and> e = q mod (3 :: nat)"
  by auto

lemma counts_ok_grow:
  assumes "counts_ok counts indices"
  shows "counts_ok (grow n (\<lambda>_. 0) counts) (grow m [] indices)"
proof -
  have "count_list (concat indices) (s * 3 + e) = 0" if "length counts \<le> s" "e < 3" for s e
  proof -
    have "s * 3 + e \<notin> set (concat indices)"
    proof
      assume "s * 3 + e \<in> set (concat indices)"
      then have "(s * 3 + e) div 3 < length counts" using assms unfolding counts_ok_def by blast
      with that show False by simp
    qed
    then show ?thesis by (rule count_notin)
  qed
  then have "(grow n (\<lambda>_. 0) counts ! s) e = count_list (concat indices) (s * 3 + e)"
    if "s < max n (length counts)" "e < 3" for s e
    using assms that by (cases "s < length counts") (auto simp: counts_ok_def nth_grow nth_grow_new)
  then show ?thesis
    using assms by (auto simp: counts_ok_def less_max_iff_disj simp del: set_concat)
qed

lemma notify_ok_grow: "notify_ok pending changes \<Longrightarrow> notify_ok (grow n False pending) changes"
proof -
  assume ok: "notify_ok pending changes"
  have "grow n False pending ! s \<longleftrightarrow> s < length pending \<and> pending ! s" if "s < max n (length pending)" for s
    using that by (cases "s < length pending") (auto simp: nth_grow nth_grow_new)
  with ok show ?thesis by (auto simp: notify_ok_def)
qed

lemma interest_room_ok: "ei_ok ei \<Longrightarrow> ei_ok (interest_room i q ei)"
  by (simp add: ei_ok_def interest_room_def counts_ok_grow notify_ok_grow)

lemma set_concat_update: "i < length xs \<Longrightarrow> set (concat (xs[i := ys])) \<subseteq> set ys \<union> set (concat xs)"
  by (auto dest!: set_update_subset_insert [THEN subsetD])

lemma counts_okI:
  assumes "set (concat indices) \<subseteq> {q. q div 3 < length counts}"
    and "\<And>s e. s < length counts \<Longrightarrow> e < 3 \<Longrightarrow> (counts ! s) e = count_list (concat indices) (s * 3 + e)"
  shows "counts_ok counts indices"
  unfolding counts_ok_def using assms by blast

lemma counts_okD:
  assumes "counts_ok counts indices"
  shows "set (concat indices) \<subseteq> {q. q div 3 < length counts}"
    and "s < length counts \<Longrightarrow> e < 3 \<Longrightarrow> (counts ! s) e = count_list (concat indices) (s * 3 + e)"
  using assms unfolding counts_ok_def by blast+

lemma nth_upd_count:
  fixes q :: nat
  assumes "s < length counts" "e < 3"
  shows "(counts[q div 3 := (counts ! (q div 3))(q mod 3 := n)] ! s) e =
     (if s * 3 + e = q then n else (counts ! s) e)"
proof -
  have "s * 3 + e = q \<longleftrightarrow> q div 3 = s \<and> q mod 3 = e"
    using assms(2) by auto
  then show ?thesis using assms(1) by (cases "q div 3 = s") auto
qed

lemma counts_ok_bump:
  assumes ok: "counts_ok counts indices" and q: "q div 3 < length counts" and i: "i < length indices"
  shows "counts_ok (counts[q div 3 := (counts ! (q div 3))(q mod 3 := (counts ! (q div 3)) (q mod 3) + 1)])
           (indices[i := indices ! i @ [q]])"
proof (rule counts_okI)
  have "set (concat (indices[i := indices ! i @ [q]])) \<subseteq> insert q (set (concat indices))"
    using set_concat_update [OF i, of "indices ! i @ [q]"] nth_mem [OF i] by auto
  also have "\<dots> \<subseteq> {q. q div 3 < length counts}" using q counts_okD(1) [OF ok] by simp
  finally show "set (concat (indices[i := indices ! i @ [q]])) \<subseteq> {p. p div 3 <
      length (counts[q div 3 := (counts ! (q div 3))(q mod 3 := (counts ! (q div 3)) (q mod 3) + 1)])}"
    by simp
next
  fix s e assume s: "s < length (counts[q div 3 := (counts ! (q div 3))(q mod 3 := (counts ! (q div 3)) (q mod 3) + 1)])"
    and e: "e < (3 :: nat)"
  have cnt: "count_list (concat (indices[i := indices ! i @ [q]])) p =
      count_list (concat indices) p + (if p = q then 1 else 0)" for p
    using count_concat_update [OF i, of "indices ! i @ [q]" p] by auto
  show "(counts[q div 3 := (counts ! (q div 3))(q mod 3 := (counts ! (q div 3)) (q mod 3) + 1)] ! s) e =
      count_list (concat (indices[i := indices ! i @ [q]])) (s * 3 + e)"
  proof (cases "s * 3 + e = q")
    case True
    with e have "q div 3 = s" "q mod 3 = e" by auto
    then show ?thesis
      unfolding cnt using s e True counts_okD(2) [OF ok, of s e] by simp
  next
    case False
    then show ?thesis
      unfolding cnt using s e counts_okD(2) [OF ok, of s e] by (simp only: nth_upd_count length_list_update) simp
  qed
qed

lemma counts_ok_drop:
  assumes ok: "counts_ok counts indices" and i: "i < length indices" and eq: "indices ! i = q # qs"
  shows "0 < (counts ! (q div 3)) (q mod 3)" "q div 3 < length counts"
    and "counts_ok (counts[q div 3 := (counts ! (q div 3))(q mod 3 := (counts ! (q div 3)) (q mod 3) - 1)])
           (indices[i := qs])"
proof -
  have mem: "q \<in> set (concat indices)" using i eq nth_mem [OF i] by force
  then show q: "q div 3 < length counts" using ok by (simp add: counts_ok_def del: set_concat)
  have cq: "(counts ! (q div 3)) (q mod 3) = count_list (concat indices) q"
    using ok q by (simp add: counts_ok_def)
  have pos: "0 < count_list (concat indices) q" using mem by (metis count_list_0_iff gr0I)
  with cq show "0 < (counts ! (q div 3)) (q mod 3)" by simp
  have cnt: "count_list (concat (indices[i := qs])) p =
      count_list (concat indices) p - (if p = q then 1 else 0)" for p
    using count_concat_update [OF i, of qs p] eq by auto
  have sub: "set (concat (indices[i := qs])) \<subseteq> set (concat indices)"
  proof -
    have "q # qs \<in> set indices" using nth_mem [OF i] eq by simp
    then have "set qs \<subseteq> set (concat indices)" by auto
    with set_concat_update [OF i, of qs] show ?thesis by blast
  qed
  show "counts_ok (counts[q div 3 := (counts ! (q div 3))(q mod 3 := (counts ! (q div 3)) (q mod 3) - 1)])
           (indices[i := qs])"
  proof (rule counts_okI)
    show "set (concat (indices[i := qs])) \<subseteq> {p. p div 3 <
        length (counts[q div 3 := (counts ! (q div 3))(q mod 3 := (counts ! (q div 3)) (q mod 3) - 1)])}"
      using sub counts_okD(1) [OF ok] by simp
  next
    fix s e assume s: "s < length (counts[q div 3 := (counts ! (q div 3))(q mod 3 := (counts ! (q div 3)) (q mod 3) - 1)])"
      and e: "e < (3 :: nat)"
    show "(counts[q div 3 := (counts ! (q div 3))(q mod 3 := (counts ! (q div 3)) (q mod 3) - 1)] ! s) e =
        count_list (concat (indices[i := qs])) (s * 3 + e)"
    proof (cases "s * 3 + e = q")
      case True
      with e have "q div 3 = s" "q mod 3 = e" by auto
      then show ?thesis
        unfolding cnt using s e True counts_okD(2) [OF ok, of s e] by simp
    next
      case False
      then show ?thesis
        unfolding cnt using s e counts_okD(2) [OF ok, of s e] by (simp only: nth_upd_count length_list_update) simp
    qed
  qed
qed

lemma bump_count_ok:
  assumes "ei_ok ei" "q div 3 < length (ei_counts ei)" "i < length (ei_indices ei)"
  shows "ei_ok (bump_count i q ei)"
  using assms counts_ok_bump [of "ei_counts ei" "ei_indices ei" q i] by (simp add: ei_ok_def bump_count_def)

lemma edge_interest_of_room [simp]:
  "edge_interest_of (interest_room i q ei) s = edge_interest_of ei s"
  by (cases "s < length (ei_counts ei)")
    (auto simp: edge_interest_of_def interest_room_def nth_grow nth_grow_new interest_mask_def Let_def)

lemma add_edge_interest_eq:
  assumes "ei_ok ei"
  shows "add_edge_interest i q ei =
     (if is_static_source ei (q div 3) then ei
      else record_interest_change (q div 3) (edge_interest_of ei (q div 3))
             (bump_count i q (interest_room i q ei)))"
proof -
  let ?g = "if q div 3 \<ge> length (ei_counts ei)
            then ei\<lparr>ei_counts := grow (q div 3 + 1) (\<lambda>_. 0) (ei_counts ei),
                    ei_pending := grow (q div 3 + 1) False (ei_pending ei)\<rparr> else ei"
  have "?g\<lparr>ei_indices := grow (i + 1) [] (ei_indices ?g)\<rparr> = interest_room i q ei"
    using assms by (auto simp: interest_room_def grow_idle ei_ok_def)
  moreover have "bump_count i q e = e\<lparr>ei_counts := (ei_counts e)[q div 3 :=
      (ei_counts e ! (q div 3))(q mod 3 := (ei_counts e ! (q div 3)) (q mod 3) + 1)]\<rparr>
      \<lparr>ei_indices := (ei_indices e)[i := ei_indices e ! i @ [q]]\<rparr>" for e
    by (simp add: bump_count_def)
  ultimately show ?thesis
    unfolding add_edge_interest_def Let_def by (simp only: edge_interest_of_room) simp
qed

lemma interest_room_bounds [simp]:
  "q div 3 < length (ei_counts (interest_room i q ei))" "i < length (ei_indices (interest_room i q ei))"
  by (simp_all add: interest_room_def less_max_iff_disj)

lemma bump_count_frame [simp]:
  "length (ei_counts (bump_count i q ei)) = length (ei_counts ei)"
  "length (ei_indices (bump_count i q ei)) = length (ei_indices ei)"
  "ei_changes (bump_count i q ei) = ei_changes ei"
  "ei_static (bump_count i q ei) = ei_static ei"
  "ei_sticky (bump_count i q ei) = ei_sticky ei"
  "ei_sticky_mask (bump_count i q ei) = ei_sticky_mask ei"
  by (simp_all add: bump_count_def)

lemma interest_room_frame [simp]:
  "ei_changes (interest_room i q ei) = ei_changes ei"
  "ei_static (interest_room i q ei) = ei_static ei"
  "ei_sticky (interest_room i q ei) = ei_sticky ei"
  "ei_sticky_mask (interest_room i q ei) = ei_sticky_mask ei"
  by (simp_all add: interest_room_def)

lemma add_edge_interest_ok [keeps_ok]: "ei_ok ei \<Longrightarrow> ei_ok (add_edge_interest i q ei)"
  by (simp add: add_edge_interest_eq record_change_ok bump_count_ok interest_room_ok)

lemma ei_indices_add:
  "ei_ok ei \<Longrightarrow> ei_indices (add_edge_interest i q ei) =
    (if is_static_source ei (q div 3) then ei_indices ei
     else (grow (i + 1) [] (ei_indices ei))[i := lookup_or [] (ei_indices ei) i @ [q]])"
  by (auto simp: add_edge_interest_eq bump_count_def interest_room_def lookup_or_def nth_grow nth_grow_new)

text \<open>
  Removing the registered indices of one coroutine never underflows. The loop runs over the
  coroutine's own list, so the induction keeps the list in step with what is still counted.
\<close>

lemma note_change_indices:
  "(note_interest_change s ei)\<lparr>ei_indices := x\<rparr> = note_interest_change s (ei\<lparr>ei_indices := x\<rparr>)"
  by (cases "ei_pending ei ! s") (simp_all add: note_interest_change_def)

lemma record_change_indices:
  "(record_interest_change s p ei)\<lparr>ei_indices := x\<rparr> = record_interest_change s p (ei\<lparr>ei_indices := x\<rparr>)"
proof -
  have "edge_interest_of (ei\<lparr>ei_indices := x\<rparr>) s = edge_interest_of ei s"
    by (rule edge_interest_of_cong) simp
  moreover have "is_sticky_source (ei\<lparr>ei_indices := x\<rparr>) s = is_sticky_source ei s"
    by (simp add: is_sticky_source_def)
  ultimately show ?thesis
    unfolding record_interest_change_def Let_def
    by (cases "ei_pending ei ! s") (auto simp: note_interest_change_def)
qed

lemma remove_list_ok:
  assumes "ei_ok (ei\<lparr>ei_indices := (ei_indices ei)[i := qs]\<rparr>)" "i < length (ei_indices ei)"
  shows "\<exists>ei'. remove_edge_interest_list qs ei = Ok ei' \<and>
    ei_ok (ei'\<lparr>ei_indices := (ei_indices ei')[i := []]\<rparr>) \<and> ei_indices ei' = ei_indices ei \<and>
    ei_static ei' = ei_static ei \<and> ei_sticky ei' = ei_sticky ei"
  using assms
proof (induction qs arbitrary: ei)
  case Nil
  then show ?case by simp
next
  case (Cons q qs)
  let ?s = "q div 3" and ?e = "q mod 3"
  have ok: "counts_ok (ei_counts ei) ((ei_indices ei)[i := q # qs])"
    using Cons.prems(1) by (simp add: ei_ok_def)
  note drop = counts_ok_drop [OF ok, of i q qs]
  have pos: "0 < (ei_counts ei ! ?s) ?e" and s: "?s < length (ei_counts ei)"
    using drop Cons.prems(2) by simp_all
  define ei1 where "ei1 = ei\<lparr>ei_counts := (ei_counts ei)[?s := (ei_counts ei ! ?s)(?e := (ei_counts ei ! ?s) ?e - 1)]\<rparr>"
  define ei2 where "ei2 = record_interest_change ?s (edge_interest_of ei ?s) ei1"
  have rem: "remove_edge_interest q ei = Ok ei2"
    using pos by (simp add: remove_edge_interest_def Let_def ei2_def ei1_def)
  have idx: "ei_indices ei2 = ei_indices ei" by (simp add: ei2_def ei1_def)
  have ok1: "ei_ok (ei1\<lparr>ei_indices := (ei_indices ei)[i := qs]\<rparr>)"
    using Cons.prems drop(3) by (simp add: ei_ok_def ei1_def)
  have "ei2\<lparr>ei_indices := (ei_indices ei)[i := qs]\<rparr> =
      record_interest_change ?s (edge_interest_of ei ?s) (ei1\<lparr>ei_indices := (ei_indices ei)[i := qs]\<rparr>)"
    by (simp only: ei2_def record_change_indices)
  then have "ei_ok (ei2\<lparr>ei_indices := (ei_indices ei2)[i := qs]\<rparr>)"
    using record_change_ok [OF ok1] s by (simp add: idx ei1_def)
  from Cons.IH [OF this] obtain ei' where
    "remove_edge_interest_list qs ei2 = Ok ei'" "ei_ok (ei'\<lparr>ei_indices := (ei_indices ei')[i := []]\<rparr>)"
    "ei_indices ei' = ei_indices ei2" "ei_static ei' = ei_static ei2" "ei_sticky ei' = ei_sticky ei2"
    using Cons.prems(2) idx by auto
  then show ?case using rem idx by (simp add: ei2_def ei1_def)
qed

lemma remove_edge_interests_ok [keeps_ok]:
  assumes "ei_ok ei"
  shows "\<exists>ei'. remove_edge_interests i ei = Ok ei' \<and> ei_ok ei' \<and>
    ei_indices ei' = (ei_indices ei)[i := []] \<and> ei_static ei' = ei_static ei \<and> ei_sticky ei' = ei_sticky ei"
proof (cases "i < length (ei_indices ei)")
  case True
  have "ei_ok (ei\<lparr>ei_indices := (ei_indices ei)[i := ei_indices ei ! i]\<rparr>)" using assms by simp
  from remove_list_ok [OF this True] show ?thesis
    using True by (auto simp: remove_edge_interests_def)
next
  case False
  then have "(ei_indices ei)[i := []] = ei_indices ei" by (simp add: list_update_beyond)
  with False show ?thesis using assms by (simp add: remove_edge_interests_def)
qed

section \<open>Consumers see every change\<close>

text \<open>
  A consumer that mirrors the masks: every signal that is not sticky and not queued has the mask
  the consumer last saw. Adding and removing interest keep the mirror, and consuming one change
  updates it, so a consumer that empties the queue holds the current masks.
\<close>

definition mirrors :: "(nat \<Rightarrow> u8) \<Rightarrow> edge_interest \<Rightarrow> bool" where
  "mirrors m ei \<longleftrightarrow>
     (\<forall>s<length (ei_counts ei). \<not> is_sticky_source ei s \<longrightarrow> s \<notin> set (ei_changes ei) \<longrightarrow>
        m s = edge_interest_of ei s) \<and>
     (\<forall>s. length (ei_counts ei) \<le> s \<longrightarrow> \<not> is_sticky_source ei s \<longrightarrow> m s = interest_none)"

definition notify_inv :: "edge_interest \<Rightarrow> bool" where
  "notify_inv ei \<longleftrightarrow>
     length (ei_pending ei) = length (ei_counts ei) \<and> notify_ok (ei_pending ei) (ei_changes ei)"

lemma ei_ok_notify: "ei_ok ei \<Longrightarrow> notify_inv ei"
  by (simp add: ei_ok_def notify_inv_def)

lemma record_change_notify:
  "notify_inv ei \<Longrightarrow> s < length (ei_counts ei) \<Longrightarrow> notify_inv (record_interest_change s p ei)"
  by (simp add: notify_inv_def record_interest_change_def note_interest_change_def Let_def notify_ok_add)

lemma changes_bound: "notify_inv ei \<Longrightarrow> s \<in> set (ei_changes ei) \<Longrightarrow> s < length (ei_counts ei)"
  by (auto simp add: notify_inv_def notify_ok_def)

lemma mirrors_iff:
  assumes "notify_inv ei"
  shows "mirrors m ei \<longleftrightarrow>
     (\<forall>s. \<not> is_sticky_source ei s \<longrightarrow> s \<notin> set (ei_changes ei) \<longrightarrow> m s = edge_interest_of ei s)"
proof -
  have "edge_interest_of ei s = interest_none" if "length (ei_counts ei) \<le> s" for s
    using that by (simp add: edge_interest_of_def)
  moreover have "s \<notin> set (ei_changes ei)" if "length (ei_counts ei) \<le> s" for s
    using changes_bound [OF assms, of s] that by auto
  ultimately show ?thesis unfolding mirrors_def by (metis not_le)
qed

lemma changes_record:
  "s \<in> set (ei_changes (record_interest_change t p ei)) \<longleftrightarrow>
     s \<in> set (ei_changes ei) \<or>
     s = t \<and> \<not> ei_pending ei ! t \<and>
       (if is_sticky_source ei t
        then edge_interest_of ei t AND NOT (ei_sticky_mask ei ! t) \<noteq> interest_none
        else edge_interest_of ei t \<noteq> p)"
  by (auto simp: record_interest_change_def note_interest_change_def Let_def)

lemma mirrors_record:
  assumes m: "mirrors m ei" and ok: "notify_inv ei" "notify_inv ei1"
    and same: "ei_changes ei1 = ei_changes ei" "ei_sticky ei1 = ei_sticky ei" "t < length (ei_counts ei1)"
    and others: "\<And>s. s \<noteq> t \<Longrightarrow> edge_interest_of ei1 s = edge_interest_of ei s"
  shows "mirrors m (record_interest_change t (edge_interest_of ei t) ei1)"
proof -
  have sticky: "is_sticky_source (record_interest_change t p ei1) s = is_sticky_source ei s" for s p
    using same by (simp add: is_sticky_source_def)
  have pend: "ei_pending ei1 ! t \<longleftrightarrow> t \<in> set (ei_changes ei)"
    using ok(2) same by (simp add: notify_inv_def notify_ok_def)
  have st: "is_sticky_source ei1 s = is_sticky_source ei s" for s
    using same by (simp add: is_sticky_source_def)
  show ?thesis
    unfolding mirrors_iff [OF record_change_notify [OF ok(2) same(3)]]
  proof (intro allI impI)
    fix s
    let ?r = "record_interest_change t (edge_interest_of ei t) ei1"
    assume ns: "\<not> is_sticky_source ?r s" and nc: "s \<notin> set (ei_changes ?r)"
    have "s \<notin> set (ei_changes ei)" "\<not> is_sticky_source ei s"
      using nc ns by (simp_all add: changes_record same sticky)
    then have ms: "m s = edge_interest_of ei s" using m mirrors_iff [OF ok(1)] by blast
    have "edge_interest_of ei1 s = edge_interest_of ei s"
    proof (cases "s = t")
      case True
      then show ?thesis using nc ns by (auto simp add: changes_record same sticky st pend)
    next
      case False
      then show ?thesis by (rule others)
    qed
    with ms show "m s = edge_interest_of ?r s" by simp
  qed
qed

lemma mirrors_add:
  assumes "mirrors m ei" "ei_ok ei"
  shows "mirrors m (add_edge_interest i q ei)"
proof (cases "is_static_source ei (q div 3)")
  case True
  then show ?thesis using assms by (simp add: add_edge_interest_eq)
next
  case False
  let ?b = "bump_count i q (interest_room i q ei)"
  have other: "edge_interest_of ?b s = edge_interest_of ei s" if "s \<noteq> q div 3" for s
  proof -
    have "edge_interest_of ?b s = edge_interest_of (interest_room i q ei) s"
      using that by (simp add: edge_interest_of_def bump_count_def)
    then show ?thesis by simp
  qed
  have "ei_ok ?b" using assms(2) by (simp add: bump_count_ok interest_room_ok)
  then have "mirrors m (record_interest_change (q div 3) (edge_interest_of ei (q div 3)) ?b)"
    using assms other by (intro mirrors_record ei_ok_notify) simp_all
  then show ?thesis using False assms(2) by (simp add: add_edge_interest_eq)
qed

lemma mirrors_remove_list:
  assumes "mirrors m ei" "notify_inv ei" "\<forall>q\<in>set qs. q div 3 < length (ei_counts ei)"
    and "remove_edge_interest_list qs ei = Inr ei'"
  shows "mirrors m ei'"
  using assms
proof (induction qs arbitrary: ei)
  case Nil
  then show ?case by simp
next
  case (Cons q qs)
  let ?t = "q div 3"
  define ei1 where "ei1 = ei\<lparr>ei_counts := (ei_counts ei)[?t := (ei_counts ei ! ?t)
      (q mod 3 := (ei_counts ei ! ?t) (q mod 3) - 1)]\<rparr>"
  define ei2 where "ei2 = record_interest_change ?t (edge_interest_of ei ?t) ei1"
  have rest: "remove_edge_interest_list qs ei2 = Inr ei'"
    using Cons.prems(4)
    by (auto simp: remove_edge_interest_def Let_def ei2_def ei1_def split: if_splits)
  have t: "?t < length (ei_counts ei1)" using Cons.prems(3) by (simp add: ei1_def)
  have n1: "notify_inv ei1" using Cons.prems(2) by (simp add: notify_inv_def ei1_def)
  have "mirrors m ei2" unfolding ei2_def
  proof (rule mirrors_record [OF Cons.prems(1,2) n1 _ _ t])
    show "edge_interest_of ei1 s = edge_interest_of ei s" if "s \<noteq> ?t" for s
      using that by (simp add: edge_interest_of_def ei1_def)
  qed (simp_all add: ei1_def)
  moreover have "notify_inv ei2" unfolding ei2_def by (rule record_change_notify [OF n1 t])
  moreover have "\<forall>q\<in>set qs. q div 3 < length (ei_counts ei2)"
    using Cons.prems(3) by (simp add: ei2_def ei1_def)
  ultimately show ?case using Cons.IH rest by blast
qed

lemma ei_ok_index_bound:
  "ei_ok ei \<Longrightarrow> i < length (ei_indices ei) \<Longrightarrow> q \<in> set (ei_indices ei ! i) \<Longrightarrow> q div 3 < length (ei_counts ei)"
  unfolding ei_ok_def counts_ok_def by (metis UN_I nth_mem set_concat)

lemma mirrors_indices_irrelevant: "mirrors m (ei\<lparr>ei_indices := x\<rparr>) = mirrors m ei"
proof -
  have "edge_interest_of (ei\<lparr>ei_indices := x\<rparr>) s = edge_interest_of ei s" for s
    by (rule edge_interest_of_cong) simp
  then show ?thesis by (simp add: mirrors_def is_sticky_source_def)
qed

lemma mirrors_remove:
  assumes "mirrors m ei" "ei_ok ei" "remove_edge_interests i ei = Inr ei'"
  shows "mirrors m ei'"
proof (cases "i < length (ei_indices ei)")
  case True
  with assms(3) obtain e where "remove_edge_interest_list (ei_indices ei ! i) ei = Inr e"
    and "ei' = e\<lparr>ei_indices := (ei_indices e)[i := []]\<rparr>"
    by (auto simp: remove_edge_interests_def result_bind_Ok_iff)
  moreover have "mirrors m e"
    using mirrors_remove_list [OF assms(1) ei_ok_notify [OF assms(2)] _ calculation(1)]
      ei_ok_index_bound [OF assms(2) True] by blast
  ultimately show ?thesis by (simp add: mirrors_indices_irrelevant)
next
  case False
  then show ?thesis using assms by (simp add: remove_edge_interests_def)
qed

lemma consume_change_ok [keeps_ok]:
  "ei_ok ei \<Longrightarrow> ei_ok (snd (consume_interest_change ei))"
  by (cases "ei_changes ei") (auto simp: ei_ok_def notify_ok_def consume_interest_change_def nth_list_update)

lemma mirrors_consume:
  assumes "mirrors m ei" "ei_ok ei" "consume_interest_change ei = (Some (s, v), ei')"
  shows "mirrors (m(s := v)) ei'"
proof -
  obtain rest where c: "ei_changes ei = s # rest" and ei': "ei' = ei\<lparr>ei_changes := rest, ei_pending := (ei_pending ei)[s := False]\<rparr>"
    and v: "v = edge_interest_of ei s"
    using assms(3) by (auto simp: consume_interest_change_def split: list.splits)
  have ok': "ei_ok ei'" using consume_change_ok [OF assms(2)] assms(3) by simp
  have same: "edge_interest_of ei' t = edge_interest_of ei t" "is_sticky_source ei' t = is_sticky_source ei t" for t
    by (auto simp: ei' is_sticky_source_def intro: edge_interest_of_cong)
  show ?thesis
    unfolding mirrors_iff [OF ei_ok_notify [OF ok']] same
    using assms(1) unfolding mirrors_iff [OF ei_ok_notify [OF assms(2)]]
    by (auto simp: v c ei')
qed

lemma mirrors_drained:
  "mirrors m ei \<Longrightarrow> consume_interest_change ei = (None, ei') \<Longrightarrow> \<not> is_sticky_source ei s \<Longrightarrow>
   m s = edge_interest_of ei s"
  by (cases "s < length (ei_counts ei)")
    (auto simp: mirrors_def consume_interest_change_def edge_interest_of_def split: list.splits)

text \<open>What a mask says, in terms of the registered waits.\<close>

lemma interest_mask_bits:
  "bit (interest_mask c) 0 \<longleftrightarrow> c 0 \<noteq> 0 \<or> c 2 \<noteq> 0"
  "bit (interest_mask c) 1 \<longleftrightarrow> c 1 \<noteq> 0 \<or> c 2 \<noteq> 0"
  by (auto simp: interest_mask_def interest_none_def interest_rising_def interest_falling_def Let_def
      bit_or_iff)

lemma has_interest_iff:
  assumes "ei_ok ei"
  shows "has_edge_interest ei s edge \<longleftrightarrow>
     (\<exists>qs\<in>set (ei_indices ei). edge_queue_index s AnyEdge \<in> set qs \<or> edge_queue_index s edge \<in> set qs)"
proof (cases "s < length (ei_counts ei)")
  case True
  have cnt: "(ei_counts ei ! s) e \<noteq> 0 \<longleftrightarrow> s * 3 + e \<in> set (concat (ei_indices ei))" if "e < 3" for e
    using assms True that by (simp add: ei_ok_def counts_ok_def count_list_0_iff del: set_concat)
  show ?thesis
    using True cnt [of "edge_code edge"] cnt [of 2]
    by (cases edge) (auto simp: has_edge_interest_def Let_def edge_queue_index_def)
next
  case False
  have "q div 3 \<noteq> s" if "qs \<in> set (ei_indices ei)" "q \<in> set qs" for q qs
    using assms False that unfolding ei_ok_def counts_ok_def by auto
  then show ?thesis using False by (auto simp: has_edge_interest_def) (metis edge_queue_index_div)+
qed

end
