(* ===== verification/TimerQueue.thy ===== *)
theory TimerQueue
  imports SchedTypes
begin

text \<open>
  The scheduler's timers (\<open>coro_runtime.hpp\<close>): the earliest registration is cached in
  \<open>next_timer_\<close>, the others are in a \<open>std::priority_queue\<close> ordered by deadline and then by
  registration sequence. The priority queue is a list in the order its \<open>top\<close> and \<open>pop\<close> produce.
  Whether a registration is stale is decided by the scheduler, so \<open>valid\<close> is an argument here.
\<close>

section \<open>State\<close>

record 'w timer =
  t_deadline :: u64
  t_sequence :: nat
  t_wait :: 'w

record 'w timer_queue =
  tq_waiters :: "'w timer list"
  tq_next :: "'w timer option"
  tq_changed :: bool
  tq_sequence :: nat

definition timer_queue_init :: "'w timer_queue" where
  "timer_queue_init = \<lparr>tq_waiters = [], tq_next = None, tq_changed = False, tq_sequence = 0\<rparr>"

section \<open>Operations\<close>

text \<open>\<open>TimerRegistrationLater\<close>.\<close>

definition timer_later :: "'w timer \<Rightarrow> 'w timer \<Rightarrow> bool" where
  "timer_later l r =
     (if t_deadline l \<noteq> t_deadline r then t_deadline l > t_deadline r
      else t_sequence l > t_sequence r)"

fun pq_push :: "'w timer \<Rightarrow> 'w timer list \<Rightarrow> 'w timer list" where
  "pq_push t [] = [t]"
| "pq_push t (u # us) = (if timer_later t u then u # pq_push t us else t # u # us)"

definition push_timer :: "'w timer \<Rightarrow> 'w timer_queue \<Rightarrow> 'w timer_queue" where
  "push_timer t tq =
     (case tq_next tq of
        None \<Rightarrow> tq\<lparr>tq_next := Some t\<rparr>
      | Some n \<Rightarrow>
          if timer_later n t
          then tq\<lparr>tq_waiters := pq_push n (tq_waiters tq), tq_next := Some t\<rparr>
          else tq\<lparr>tq_waiters := pq_push t (tq_waiters tq)\<rparr>)"

function discard_stale_timers :: "('w \<Rightarrow> bool) \<Rightarrow> 'w timer_queue \<Rightarrow> 'w timer_queue" where
  "discard_stale_timers valid tq =
     (if (case tq_next tq of None \<Rightarrow> False | Some t \<Rightarrow> valid (t_wait t)) then tq
      else
        let tq' = (case tq_next tq of
                     None \<Rightarrow> tq
                   | Some _ \<Rightarrow> tq\<lparr>tq_next := None, tq_changed := True\<rparr>)
        in case tq_waiters tq' of
             [] \<Rightarrow> tq'
           | t # ts \<Rightarrow> discard_stale_timers valid (tq'\<lparr>tq_next := Some t, tq_waiters := ts\<rparr>))"
  by pat_completeness auto
termination
  by (relation "measure (\<lambda>(valid, tq). length (tq_waiters tq))") (auto split: option.splits)

declare discard_stale_timers.simps [simp del]

definition next_timer_deadline :: "('w \<Rightarrow> bool) \<Rightarrow> 'w timer_queue \<Rightarrow> u64 \<times> 'w timer_queue" where
  "next_timer_deadline valid tq =
     (let tq = discard_stale_timers valid tq in
      (case tq_next tq of None \<Rightarrow> - 1 | Some t \<Rightarrow> t_deadline t, tq))"

definition consume_timer_schedule_changed :: "'w timer_queue \<Rightarrow> bool \<times> 'w timer_queue" where
  "consume_timer_schedule_changed tq = (tq_changed tq, tq\<lparr>tq_changed := False\<rparr>)"

end
