(* ===== verification/SchedCore.thy ===== *)
theory SchedCore
  imports EdgeInterest TimerQueue
begin

text \<open>
  The part of \<open>cpptb::coro::Scheduler\<close> (\<open>coro_runtime.hpp\<close>) that parks coroutines and makes them
  ready again: the table of coroutine states, wait registrations with generations, edge queues,
  phase queues, timers and the ready queue. Vectors are lists with the back at the end. A
  coroutine handle is its address, a \<open>nat\<close>; the promise is the handle's promise, so the pointer
  to it is not stored a second time. Generations, sequence numbers and identifiers are counters,
  kept as \<open>nat\<close>; simulation times are \<open>u64\<close>.
\<close>

section \<open>State\<close>

text \<open>\<open>winner\<close> is the address of the \<open>FirstAwaiter\<close> slot that receives the winning index.\<close>

record registration =
  reg_state :: nat
  reg_generation :: nat
  reg_winner :: "nat option"
  reg_index :: nat

record coroutine_state =
  cs_handle :: "nat option"
  cs_generation :: nat
  cs_edge_waits :: nat
  cs_falling_waits :: nat
  cs_waiting :: bool
  cs_ready :: bool
  cs_done :: bool

definition coroutine_state_init :: coroutine_state where
  "coroutine_state_init =
     \<lparr>cs_handle = None, cs_generation = 0, cs_edge_waits = 0, cs_falling_waits = 0,
      cs_waiting = False, cs_ready = False, cs_done = False\<rparr>"

record wait_diag =
  wd_reason :: wait_reason
  wd_id :: nat
  wd_started :: u64
  wd_deadline :: u64
  wd_progress :: u8
  wd_has_wait :: bool

definition wait_diag_init :: wait_diag where
  "wait_diag_init =
     \<lparr>wd_reason = ReasonNone, wd_id = 0, wd_started = 0, wd_deadline = - 1, wd_progress = 0,
      wd_has_wait = False\<rparr>"

record sched_core =
  states :: "coroutine_state list"
  diags :: "wait_diag list"
  interest :: edge_interest
  edge_waiters :: "registration list list"
  edge_entries :: nat
  stale_regs :: nat
  falling_regs :: nat
  phase_waiters :: "nat \<Rightarrow> registration list"
  phase_counts :: "nat \<Rightarrow> nat"
  phase_by_state :: "(nat \<Rightarrow> nat) list"
  timers :: "registration timer_queue"
  ready_queue :: "nat list"
  ready_cursor :: nat
  live_ready :: nat
  now :: u64
  fs_per_tick :: u64
  next_generation :: nat
  next_coroutine_id :: nat
  current_phase :: simulation_phase
  wait_registered :: bool
  winners :: "nat \<Rightarrow> nat"
  free_states :: "nat list"
  active_coroutines :: nat

definition scheduler_init :: "sim_time \<Rightarrow> sched_core result" where
  "scheduler_init precision =
     (if precision = 0 then Fail (Abort ''simulation precision cannot be zero'')
      else Ok \<lparr>states = [], diags = [], interest = edge_interest_init, edge_waiters = [],
               edge_entries = 0, stale_regs = 0, falling_regs = 0, phase_waiters = (\<lambda>_. []),
               phase_counts = (\<lambda>_. 0), phase_by_state = [], timers = timer_queue_init,
               ready_queue = [], ready_cursor = 0, live_ready = 0, now = 0,
               fs_per_tick = precision, next_generation = 0, next_coroutine_id = 0,
               current_phase = Evaluation, wait_registered = False, winners = (\<lambda>_. 0),
               free_states = [], active_coroutines = 0\<rparr>)"

definition upd_state ::
  "nat \<Rightarrow> (coroutine_state \<Rightarrow> coroutine_state) \<Rightarrow> ('a) sched_core_scheme \<Rightarrow> 'a sched_core_scheme" where
  "upd_state i f sc = sc\<lparr>states := (states sc)[i := f (states sc ! i)]\<rparr>"

definition upd_diag ::
  "nat \<Rightarrow> (wait_diag \<Rightarrow> wait_diag) \<Rightarrow> ('a) sched_core_scheme \<Rightarrow> 'a sched_core_scheme" where
  "upd_diag i f sc = sc\<lparr>diags := (diags sc)[i := f (diags sc ! i)]\<rparr>"

section \<open>Coroutine slots and the ready queue\<close>

definition adopt_state :: "nat \<Rightarrow> 'a sched_core_scheme \<Rightarrow> nat \<times> 'a sched_core_scheme" where
  "adopt_state handle sc =
     (let (i, sc) =
            (if free_states sc = [] then
               (length (states sc), sc\<lparr>states := states sc @ [coroutine_state_init]\<rparr>)
             else
               (last (free_states sc), sc\<lparr>free_states := butlast (free_states sc)\<rparr>));
          sc = upd_state i (\<lambda>_. coroutine_state_init\<lparr>cs_handle := Some handle\<rparr>) sc;
          sc = sc\<lparr>diags := grow (i + 1) wait_diag_init (diags sc)\<rparr>;
          sc = sc\<lparr>next_coroutine_id := next_coroutine_id sc + 1\<rparr>;
          sc = upd_diag i (\<lambda>_. wait_diag_init\<lparr>wd_id := next_coroutine_id sc\<rparr>) sc;
          sc = sc\<lparr>interest := (interest sc)\<lparr>ei_indices := grow (i + 1) [] (ei_indices (interest sc))\<rparr>\<rparr>;
          sc = sc\<lparr>phase_by_state := grow (i + 1) (\<lambda>_. 0) (phase_by_state sc)\<rparr>
      in (i, sc\<lparr>active_coroutines := active_coroutines sc + 1\<rparr>))"

definition make_ready :: "nat \<Rightarrow> 'a sched_core_scheme \<Rightarrow> 'a sched_core_scheme" where
  "make_ready i sc =
     (if i \<ge> length (states sc) then sc
      else if cs_done (states sc ! i) \<or> cs_ready (states sc ! i) then sc
      else (upd_state i (\<lambda>s. s\<lparr>cs_ready := True\<rparr>) sc)
             \<lparr>live_ready := live_ready sc + 1, ready_queue := ready_queue sc @ [i]\<rparr>)"

definition clear_ready :: "nat \<Rightarrow> 'a sched_core_scheme \<Rightarrow> 'a sched_core_scheme" where
  "clear_ready i sc =
     (if \<not> cs_ready (states sc ! i) then sc
      else (upd_state i (\<lambda>s. s\<lparr>cs_ready := False\<rparr>) sc)\<lparr>live_ready := live_ready sc - 1\<rparr>)"

section \<open>Beginning and ending a wait\<close>

definition progress_internal :: u8 where "progress_internal = 1"
definition progress_time :: u8 where "progress_time = 2"
definition progress_simulator :: u8 where "progress_simulator = 4"

definition progress_of_reason :: "wait_reason \<Rightarrow> u8" where
  "progress_of_reason reason =
     (if reason \<in> {ReasonDelay, ReasonTimeout} then progress_time
      else if reason \<in> {ReasonRisingEdge, ReasonFallingEdge, ReasonEdge, ReasonReadWrite,
                         ReasonReadOnly, ReasonNextTimeStep} then progress_simulator
      else progress_internal)"

definition end_phase_wait :: "nat \<Rightarrow> nat \<Rightarrow> 'a sched_core_scheme \<Rightarrow> 'a sched_core_scheme result" where
  "end_phase_wait i phase sc =
     (let mine = (phase_by_state sc ! i) phase in
      if mine > phase_counts sc phase then Fail (Abort ''phase interest bookkeeping underflow'')
      else Ok (sc\<lparr>phase_counts := (phase_counts sc)(phase := phase_counts sc phase - mine),
                  phase_by_state := (phase_by_state sc)[i := (phase_by_state sc ! i)(phase := 0)]\<rparr>))"

definition end_wait :: "nat \<Rightarrow> 'a sched_core_scheme \<Rightarrow> 'a sched_core_scheme result" where
  "end_wait i sc =
     (if \<not> cs_waiting (states sc ! i) then Ok sc
      else
        let sc = upd_state i (\<lambda>s. s\<lparr>cs_waiting := False\<rparr>) sc;
            sc = upd_diag i (\<lambda>d. d\<lparr>wd_has_wait := False, wd_deadline := - 1, wd_progress := 0\<rparr>) sc
        in if cs_edge_waits (states sc ! i) = 0 \<and> (phase_by_state sc ! i) 0 = 0 \<and>
              (phase_by_state sc ! i) 1 = 0 \<and> (phase_by_state sc ! i) 2 = 0
           then Ok sc
           else
             result_bind (remove_edge_interests i (interest sc)) (\<lambda>ei.
               let sc = sc\<lparr>interest := ei\<rparr>;
                   sc = (if cs_edge_waits (states sc ! i) \<noteq> 0
                         then (upd_state i (\<lambda>s. s\<lparr>cs_edge_waits := 0\<rparr>) sc)
                                \<lparr>stale_regs := stale_regs sc + cs_edge_waits (states sc ! i)\<rparr>
                         else sc);
                   sc = (if cs_falling_waits (states sc ! i) \<noteq> 0
                         then (upd_state i (\<lambda>s. s\<lparr>cs_falling_waits := 0\<rparr>) sc)
                                \<lparr>falling_regs := falling_regs sc - cs_falling_waits (states sc ! i)\<rparr>
                         else sc)
               in result_bind (end_phase_wait i 0 sc) (\<lambda>sc.
                  result_bind (end_phase_wait i 1 sc) (\<lambda>sc.
                  end_phase_wait i 2 sc))))"

definition begin_wait ::
  "nat \<Rightarrow> wait_reason \<Rightarrow> 'a sched_core_scheme \<Rightarrow> (nat \<times> 'a sched_core_scheme) result" where
  "begin_wait i reason sc =
     result_bind (if cs_waiting (states sc ! i) then end_wait i sc else Ok sc) (\<lambda>sc.
       let sc = upd_state i (\<lambda>s. s\<lparr>cs_waiting := True\<rparr>) sc;
           sc = upd_diag i (\<lambda>d. d\<lparr>wd_reason := reason, wd_has_wait := True, wd_started := now sc,
                                  wd_deadline := - 1, wd_progress := progress_of_reason reason\<rparr>) sc;
           sc = clear_ready i sc;
           sc = sc\<lparr>next_generation := next_generation sc + 1\<rparr>;
           sc = upd_state i (\<lambda>s. s\<lparr>cs_generation := next_generation sc\<rparr>) sc
       in Ok (next_generation sc, sc))"

section \<open>Registrations\<close>

definition registration_valid :: "'a sched_core_scheme \<Rightarrow> registration \<Rightarrow> bool" where
  "registration_valid sc reg =
     (if reg_state reg \<ge> length (states sc) then False
      else let s = states sc ! reg_state reg in
        cs_handle s \<noteq> None \<and> \<not> cs_done s \<and> cs_waiting s \<and> cs_generation s = reg_generation reg)"

definition resume_registration ::
  "registration \<Rightarrow> 'a sched_core_scheme \<Rightarrow> (bool \<times> 'a sched_core_scheme) result" where
  "resume_registration reg sc =
     (if \<not> registration_valid sc reg then Ok (False, sc)
      else result_bind (end_wait (reg_state reg) sc) (\<lambda>sc.
        let sc = (case reg_winner reg of
                    None \<Rightarrow> sc
                  | Some slot \<Rightarrow> sc\<lparr>winners := (winners sc)(slot := reg_index reg)\<rparr>)
        in Ok (True, make_ready (reg_state reg) sc)))"

definition register_edge_wait ::
  "nat \<Rightarrow> edge_kind \<Rightarrow> registration \<Rightarrow> 'a sched_core_scheme \<Rightarrow> 'a sched_core_scheme" where
  "register_edge_wait signal_id edge reg sc =
     (let sc = sc\<lparr>wait_registered := True\<rparr>;
          q = edge_queue_index signal_id edge;
          sc = sc\<lparr>edge_waiters := grow (q + 1) [] (edge_waiters sc)\<rparr>;
          sc = sc\<lparr>edge_waiters := (edge_waiters sc)[q := edge_waiters sc ! q @ [reg]],
                  edge_entries := edge_entries sc + 1,
                  interest := add_edge_interest (reg_state reg) q (interest sc)\<rparr>;
          sc = upd_state (reg_state reg) (\<lambda>s. s\<lparr>cs_edge_waits := cs_edge_waits s + 1\<rparr>) sc
      in if edge = Falling \<or> edge = AnyEdge
         then (upd_state (reg_state reg) (\<lambda>s. s\<lparr>cs_falling_waits := cs_falling_waits s + 1\<rparr>) sc)
                \<lparr>falling_regs := falling_regs sc + 1\<rparr>
         else sc)"

definition validate_delay :: "sim_time \<Rightarrow> 'a sched_core_scheme \<Rightarrow> unit result" where
  "validate_delay delay sc =
     (if delay = 0 then Fail (Abort ''delay duration must be greater than zero'')
      else if delay mod fs_per_tick sc \<noteq> 0
        then Fail (Abort ''delay is not representable at the simulation precision'')
      else Ok ())"

definition timer_deadline :: "sim_time \<Rightarrow> 'a sched_core_scheme \<Rightarrow> u64" where
  "timer_deadline delay sc =
     (let delay_ticks = delay div fs_per_tick sc; max_time = - 1 in
      if delay_ticks > max_time - now sc then max_time else now sc + delay_ticks)"

definition register_delay ::
  "sim_time \<Rightarrow> registration \<Rightarrow> 'a sched_core_scheme \<Rightarrow> 'a sched_core_scheme result" where
  "register_delay delay reg sc =
     (let sc = upd_diag (reg_state reg) (\<lambda>d. d\<lparr>wd_progress := wd_progress d OR progress_time\<rparr>) sc in
      result_bind (validate_delay delay sc) (\<lambda>_.
        let deadline = timer_deadline delay sc;
            sc = upd_diag (reg_state reg) (\<lambda>d. d\<lparr>wd_deadline := min (wd_deadline d) deadline\<rparr>) sc;
            (previous_deadline, tq) = next_timer_deadline (registration_valid sc) (timers sc);
            tq = push_timer \<lparr>t_deadline = deadline, t_sequence = tq_sequence tq, t_wait = reg\<rparr>
                   (tq\<lparr>tq_sequence := tq_sequence tq + 1\<rparr>);
            tq = (if deadline < previous_deadline then tq\<lparr>tq_changed := True\<rparr> else tq)
        in Ok (sc\<lparr>timers := tq\<rparr>)))"

definition register_phase ::
  "wait_kind \<Rightarrow> registration \<Rightarrow> 'a sched_core_scheme \<Rightarrow> 'a sched_core_scheme result" where
  "register_phase kind reg sc =
     (let i = reg_state reg;
          sc = upd_diag i (\<lambda>d. d\<lparr>wd_progress := wd_progress d OR progress_simulator\<rparr>) sc
      in if current_phase sc = PhaseReadOnly \<and> kind \<noteq> WaitNextTimeStep
         then Fail (Abort ''cannot await a phase after ReadOnly in the same timestep'')
         else result_bind (phase_wait_index kind) (\<lambda>phase.
           Ok (sc\<lparr>phase_waiters := (phase_waiters sc)(phase := phase_waiters sc phase @ [reg]),
                  phase_counts := (phase_counts sc)(phase := phase_counts sc phase + 1),
                  phase_by_state := (phase_by_state sc)[i :=
                    (phase_by_state sc ! i)(phase := (phase_by_state sc ! i) phase + 1)]\<rparr>)))"

definition register_wait ::
  "wait_request \<Rightarrow> registration \<Rightarrow> 'a sched_core_scheme \<Rightarrow> 'a sched_core_scheme result" where
  "register_wait req reg sc =
     (let sc = sc\<lparr>wait_registered := True\<rparr> in
      case req_kind req of
        WaitEdge \<Rightarrow>
          Ok (register_edge_wait (req_signal req) (req_edge req) reg
                (upd_diag (reg_state reg)
                   (\<lambda>d. d\<lparr>wd_progress := wd_progress d OR progress_simulator\<rparr>) sc))
      | WaitDelay \<Rightarrow> register_delay (req_delay req) reg sc
      | kind \<Rightarrow> register_phase kind reg sc)"

section \<open>Waking\<close>

fun resume_edge_list ::
  "registration list \<Rightarrow> bool \<Rightarrow> 'a sched_core_scheme \<Rightarrow> (bool \<times> 'a sched_core_scheme) result" where
  "resume_edge_list [] resumed sc = Ok (resumed, sc)"
| "resume_edge_list (reg # regs) resumed sc =
     result_bind (resume_registration reg sc) (\<lambda>(woken, sc).
       resume_edge_list regs (resumed \<or> woken)
         (sc\<lparr>edge_entries := edge_entries sc - 1,
             stale_regs := (if stale_regs sc \<noteq> 0 then stale_regs sc - 1 else stale_regs sc)\<rparr>))"

definition resume_edge_queue ::
  "nat \<Rightarrow> 'a sched_core_scheme \<Rightarrow> (bool \<times> 'a sched_core_scheme) result" where
  "resume_edge_queue q sc =
     (if q \<ge> length (edge_waiters sc) then Ok (False, sc)
      else result_bind (resume_edge_list (edge_waiters sc ! q) False sc) (\<lambda>(resumed, sc).
        Ok (resumed, sc\<lparr>edge_waiters := (edge_waiters sc)[q := []]\<rparr>)))"

definition compact_stale_edge_queues :: "'a sched_core_scheme \<Rightarrow> 'a sched_core_scheme" where
  "compact_stale_edge_queues sc =
     (if stale_regs sc < 64 \<or> stale_regs sc * 2 < edge_entries sc then sc
      else
        let compacted = map (filter (registration_valid sc)) (edge_waiters sc);
            removed = sum_list (map2 (\<lambda>old new. length old - length new) (edge_waiters sc) compacted)
        in sc\<lparr>edge_waiters := compacted, edge_entries := edge_entries sc - removed,
              stale_regs := stale_regs sc - removed\<rparr>)"

fun resume_phase_list ::
  "registration list \<Rightarrow> bool \<Rightarrow> 'a sched_core_scheme \<Rightarrow> (bool \<times> 'a sched_core_scheme) result" where
  "resume_phase_list [] resumed sc = Ok (resumed, sc)"
| "resume_phase_list (reg # regs) resumed sc =
     result_bind (resume_registration reg sc) (\<lambda>(woken, sc).
       resume_phase_list regs (resumed \<or> woken) sc)"

text \<open>\<open>resume_phase\<close> up to the final drain: the queue is read up to its size on entry.\<close>

definition wake_phase ::
  "wait_kind \<Rightarrow> 'a sched_core_scheme \<Rightarrow> (bool \<times> 'a sched_core_scheme) result" where
  "wake_phase kind sc =
     result_bind (phase_wait_index kind) (\<lambda>index.
     result_bind (simulation_phase_of kind) (\<lambda>phase.
       let sc = sc\<lparr>current_phase := phase\<rparr>;
           ready_count = length (phase_waiters sc index)
       in result_bind (resume_phase_list (take ready_count (phase_waiters sc index)) False sc)
            (\<lambda>(resumed, sc).
               Ok (resumed, sc\<lparr>phase_waiters :=
                     (phase_waiters sc)(index := drop ready_count (phase_waiters sc index))\<rparr>))))"

text \<open>\<open>resume_edge\<close> up to the final drain.\<close>

definition wake_edge ::
  "nat \<Rightarrow> edge_kind \<Rightarrow> 'a sched_core_scheme \<Rightarrow> (bool \<times> 'a sched_core_scheme) result" where
  "wake_edge signal_id edge sc =
     (let sc = sc\<lparr>current_phase := Evaluation\<rparr> in
      result_bind (resume_edge_queue (edge_queue_index signal_id edge) sc)
        (\<lambda>(resumed_specific, sc).
           if edge = AnyEdge then Ok (resumed_specific, sc)
           else result_bind (resume_edge_queue (edge_queue_index signal_id AnyEdge) sc)
                  (\<lambda>(resumed_any, sc). Ok (resumed_specific \<or> resumed_any, sc))))"

lemma result_bind_cong [fundef_cong]:
  "r = r' \<Longrightarrow> (\<And>x. r' = Inr x \<Longrightarrow> f x = g x) \<Longrightarrow> result_bind r f = result_bind r' g"
  by (cases r') auto

lemma upd_state_timers [simp]: "timers (upd_state i f sc) = timers sc"
  by (simp add: upd_state_def)

lemma upd_diag_timers [simp]: "timers (upd_diag i f sc) = timers sc"
  by (simp add: upd_diag_def)

lemma end_phase_wait_timers: "end_phase_wait i p sc = Inr sc' \<Longrightarrow> timers sc' = timers sc"
  by (auto simp: end_phase_wait_def Let_def split: if_splits)

lemma end_wait_timers: "end_wait i sc = Inr sc' \<Longrightarrow> timers sc' = timers sc"
  unfolding end_wait_def Let_def
  by (auto simp: result_bind_Ok_iff dest!: end_phase_wait_timers split: if_splits)

lemma make_ready_timers [simp]: "timers (make_ready i sc) = timers sc"
  by (simp add: make_ready_def)

lemma resume_registration_timers:
  "resume_registration reg sc = Inr (w, sc') \<Longrightarrow> timers sc' = timers sc"
  by (auto simp: resume_registration_def result_bind_Ok_iff Let_def dest!: end_wait_timers
      split: if_splits option.splits)

definition tq_size :: "'w timer_queue \<Rightarrow> nat" where
  "tq_size tq = length (tq_waiters tq) + (if tq_next tq = None then 0 else 1)"

lemma tq_size_discard: "tq_size (discard_stale_timers valid tq) \<le> tq_size tq"
proof (induction valid tq rule: discard_stale_timers.induct)
  case (1 valid tq)
  show ?case
  proof (cases "case tq_next tq of None \<Rightarrow> False | Some t \<Rightarrow> valid (t_wait t)")
    case True
    then show ?thesis by (subst discard_stale_timers.simps) simp
  next
    case False
    define tq' where "tq' = (case tq_next tq of None \<Rightarrow> tq | Some _ \<Rightarrow> tq\<lparr>tq_next := None, tq_changed := True\<rparr>)"
    have w: "tq_waiters tq' = tq_waiters tq" "tq_next tq' = None"
      by (auto simp: tq'_def split: option.splits)
    have eq: "discard_stale_timers valid tq =
        (case tq_waiters tq' of [] \<Rightarrow> tq'
         | t # ts \<Rightarrow> discard_stale_timers valid (tq'\<lparr>tq_next := Some t, tq_waiters := ts\<rparr>))"
      by (subst discard_stale_timers.simps) (simp add: False tq'_def [symmetric] Let_def)
    show ?thesis
    proof (cases "tq_waiters tq'")
      case Nil
      then show ?thesis using w by (simp add: eq tq_size_def)
    next
      case (Cons t ts)
      have "tq_size (discard_stale_timers valid (tq'\<lparr>tq_next := Some t, tq_waiters := ts\<rparr>)) \<le>
          tq_size (tq'\<lparr>tq_next := Some t, tq_waiters := ts\<rparr>)"
        using 1 [OF False tq'_def Cons] by simp
      also have "\<dots> \<le> tq_size tq" using Cons w by (simp add: tq_size_def)
      finally show ?thesis by (simp add: eq Cons)
    qed
  qed
qed

text \<open>
  The loop of \<open>advance_time\<close>: stale timers go first, then the earliest one fires if it is due.
\<close>

function wake_timers ::
  "bool \<Rightarrow> bool \<Rightarrow> 'a sched_core_scheme \<Rightarrow> (bool \<times> bool \<times> 'a sched_core_scheme) result" where
  "wake_timers popped resumed sc =
     (let tq = discard_stale_timers (registration_valid sc) (timers sc) in
      case tq_next tq of
        None \<Rightarrow> Ok (popped, resumed, sc\<lparr>timers := tq\<rparr>)
      | Some t \<Rightarrow>
          if t_deadline t > now sc then Ok (popped, resumed, sc\<lparr>timers := tq\<rparr>)
          else result_bind (resume_registration (t_wait t) (sc\<lparr>timers := tq\<lparr>tq_next := None\<rparr>\<rparr>))
                 (\<lambda>(woken, sc). wake_timers True (resumed \<or> woken) sc))"
  by pat_completeness auto
termination
proof (relation "measure (\<lambda>(popped, resumed, sc). tq_size (timers sc))", goal_cases)
  case 1
  then show ?case by simp
next
  case (2 popped resumed sc tq t x woken sc')
  then have "timers sc' = tq\<lparr>tq_next := None\<rparr>" by (auto dest: resume_registration_timers)
  moreover have "tq_size (tq\<lparr>tq_next := None\<rparr>) < tq_size tq" using 2 by (simp add: tq_size_def)
  moreover have "tq_size tq \<le> tq_size (timers sc)" using 2 tq_size_discard by simp
  ultimately show ?case by simp
qed

declare wake_timers.simps [simp del]

text \<open>\<open>advance_time\<close> up to the final drain; no wake-up happens when no timer is due.\<close>

definition wake_time :: "u64 \<Rightarrow> 'a sched_core_scheme \<Rightarrow> (bool \<times> 'a sched_core_scheme) result" where
  "wake_time time sc =
     (let sc = sc\<lparr>current_phase := Evaluation, now := time\<rparr> in
      case tq_next (timers sc) of
        None \<Rightarrow> Ok (False, sc)
      | Some t \<Rightarrow>
          if t_deadline t > now sc then Ok (False, sc)
          else result_bind (wake_timers False False sc) (\<lambda>(popped, resumed, sc).
            Ok (resumed, if popped then sc\<lparr>timers := (timers sc)\<lparr>tq_changed := True\<rparr>\<rparr> else sc)))"

section \<open>Parking\<close>

definition state_matches :: "nat \<Rightarrow> nat \<Rightarrow> 'a sched_core_scheme \<Rightarrow> bool" where
  "state_matches i handle sc = (i < length (states sc) \<and> cs_handle (states sc ! i) = Some handle)"

definition state_for :: "nat \<Rightarrow> nat \<Rightarrow> 'a sched_core_scheme \<Rightarrow> nat result" where
  "state_for handle i sc =
     (if state_matches i handle sc then Ok i
      else Fail (Abort ''coroutine was not registered with scheduler''))"

definition park ::
  "nat \<Rightarrow> nat \<Rightarrow> wait_request \<Rightarrow> wait_reason \<Rightarrow> nat option \<Rightarrow> nat \<Rightarrow> 'a sched_core_scheme \<Rightarrow>
   'a sched_core_scheme result" where
  "park handle state_index req reason winner winner_index sc =
     result_bind (state_for handle state_index sc) (\<lambda>i.
     result_bind (begin_wait i reason sc) (\<lambda>(generation, sc).
       register_wait req \<lparr>reg_state = i, reg_generation = generation, reg_winner = winner,
                          reg_index = winner_index\<rparr> sc))"

definition park_edge ::
  "nat \<Rightarrow> nat \<Rightarrow> nat \<Rightarrow> edge_kind \<Rightarrow> wait_reason \<Rightarrow> 'a sched_core_scheme \<Rightarrow>
   'a sched_core_scheme result" where
  "park_edge handle state_index signal_id edge reason sc =
     result_bind (state_for handle state_index sc) (\<lambda>i.
     result_bind (begin_wait i reason sc) (\<lambda>(generation, sc).
       Ok (register_edge_wait signal_id edge
             \<lparr>reg_state = i, reg_generation = generation, reg_winner = None, reg_index = 0\<rparr> sc)))"

fun register_all ::
  "wait_request list \<Rightarrow> registration \<Rightarrow> 'a sched_core_scheme \<Rightarrow> 'a sched_core_scheme result" where
  "register_all [] reg sc = Ok sc"
| "register_all (req # reqs) reg sc =
     result_bind (register_wait req reg sc)
       (register_all reqs (reg\<lparr>reg_index := reg_index reg + 1\<rparr>))"

definition park_first ::
  "nat \<Rightarrow> nat \<Rightarrow> wait_request list \<Rightarrow> nat \<Rightarrow> wait_reason \<Rightarrow> 'a sched_core_scheme \<Rightarrow>
   'a sched_core_scheme result" where
  "park_first handle state_index requests winner reason sc =
     result_bind (state_for handle state_index sc) (\<lambda>i.
     result_bind (begin_wait i reason sc) (\<lambda>(generation, sc).
       register_all requests
         \<lparr>reg_state = i, reg_generation = generation, reg_winner = Some winner, reg_index = 0\<rparr> sc))"

definition park_external ::
  "nat \<Rightarrow> nat \<Rightarrow> wait_reason \<Rightarrow> 'a sched_core_scheme \<Rightarrow> (registration \<times> 'a sched_core_scheme) result" where
  "park_external handle state_index reason sc =
     result_bind (state_for handle state_index sc) (\<lambda>i.
     result_bind (begin_wait i reason sc) (\<lambda>(generation, sc).
       Ok (\<lparr>reg_state = i, reg_generation = generation, reg_winner = None, reg_index = 0\<rparr>, sc)))"

text \<open>
  \<open>external_wait_alive\<close>: the coroutine has not been cancelled or parked again, whether or not it
  has been woken. The scheduler's own lifetime is not part of the model.
\<close>

definition external_wait_alive :: "registration \<Rightarrow> 'a sched_core_scheme \<Rightarrow> bool" where
  "external_wait_alive reg sc =
     (if reg_state reg \<ge> length (states sc) then False
      else let s = states sc ! reg_state reg in
        cs_handle s \<noteq> None \<and> \<not> cs_done s \<and> cs_generation s = reg_generation reg)"

definition wake_external :: "registration \<Rightarrow> 'a sched_core_scheme \<Rightarrow> (bool \<times> 'a sched_core_scheme) result" where
  "wake_external reg sc =
     (if registration_valid sc reg then resume_registration reg sc else Ok (False, sc))"

section \<open>Queries\<close>

definition has_phase_waiters :: "wait_kind \<Rightarrow> 'a sched_core_scheme \<Rightarrow> bool result" where
  "has_phase_waiters kind sc =
     result_bind (phase_wait_index kind) (\<lambda>p. Ok (phase_counts sc p \<noteq> 0))"

definition has_falling_edge_waiters :: "'a sched_core_scheme \<Rightarrow> bool" where
  "has_falling_edge_waiters sc = (falling_regs sc \<noteq> 0)"

definition now_time :: "'a sched_core_scheme \<Rightarrow> sim_time" where
  "now_time sc =
     (let max_time = - 1 in
      if now sc > max_time div fs_per_tick sc then max_time else now sc * fs_per_tick sc)"

definition all_done :: "'a sched_core_scheme \<Rightarrow> bool" where
  "all_done sc = (active_coroutines sc = 0)"

end
