(* ===== verification/SchedInvariants.thy ===== *)
theory SchedInvariants
  imports SchedCore
begin

text \<open>
  What keeps the scheduler consistent: the counters agree with the queues, every ready slot is
  queued, a slot that does not wait owns no registration, and generations are never reused. The
  lemmas show that waking keeps the invariant, never reaches an abort, and wakes exactly the
  coroutines whose registrations are valid, in the order of the queues.
\<close>

section \<open>The invariant\<close>

definition shape_ok :: "'a sched_core_scheme \<Rightarrow> bool" where
  "shape_ok sc \<longleftrightarrow>
     length (diags sc) = length (states sc) \<and> length (phase_by_state sc) = length (states sc) \<and>
     length (ei_indices (interest sc)) = length (states sc)"

definition slot_ok :: "nat \<Rightarrow> coroutine_state \<Rightarrow> bool" where
  "slot_ok gen s \<longleftrightarrow>
     (cs_waiting s \<longrightarrow> cs_handle s \<noteq> None \<and> \<not> cs_done s \<and> \<not> cs_ready s) \<and>
     (cs_ready s \<longrightarrow> cs_handle s \<noteq> None \<and> \<not> cs_done s) \<and>
     cs_generation s \<le> gen \<and> cs_falling_waits s \<le> cs_edge_waits s"

definition slots_ok :: "'a sched_core_scheme \<Rightarrow> bool" where
  "slots_ok sc \<longleftrightarrow> (\<forall>s\<in>set (states sc). slot_ok (next_generation sc) s)"

definition regs_known :: "'a sched_core_scheme \<Rightarrow> registration list \<Rightarrow> bool" where
  "regs_known sc regs \<longleftrightarrow>
     (\<forall>r\<in>set regs. reg_state r < length (states sc) \<and> reg_generation r \<le> next_generation sc)"

definition valid_of :: "'a sched_core_scheme \<Rightarrow> nat \<Rightarrow> registration list \<Rightarrow> nat" where
  "valid_of sc i regs = length (filter (\<lambda>r. registration_valid sc r \<and> reg_state r = i) regs)"

definition stale_of :: "'a sched_core_scheme \<Rightarrow> registration list \<Rightarrow> nat" where
  "stale_of sc regs = length (filter (\<lambda>r. \<not> registration_valid sc r) regs)"

definition edges_ok :: "'a sched_core_scheme \<Rightarrow> bool" where
  "edges_ok sc \<longleftrightarrow>
     regs_known sc (concat (edge_waiters sc)) \<and>
     edge_entries sc = length (concat (edge_waiters sc)) \<and>
     stale_regs sc = stale_of sc (concat (edge_waiters sc)) \<and>
     (\<forall>i<length (states sc). cs_edge_waits (states sc ! i) = valid_of sc i (concat (edge_waiters sc)))"

definition interest_ok :: "'a sched_core_scheme \<Rightarrow> bool" where
  "interest_ok sc \<longleftrightarrow>
     ei_ok (interest sc) \<and>
     (\<forall>i<length (states sc). length (ei_indices (interest sc) ! i) \<le> cs_edge_waits (states sc ! i)) \<and>
     falling_regs sc = sum_list (map cs_falling_waits (states sc))"

definition phases_ok :: "'a sched_core_scheme \<Rightarrow> bool" where
  "phases_ok sc \<longleftrightarrow>
     (\<forall>p<3. phase_counts sc p = sum_list (map (\<lambda>f. f p) (phase_by_state sc))) \<and>
     (\<forall>i<length (states sc). \<not> cs_waiting (states sc ! i) \<longrightarrow> (\<forall>p<3. (phase_by_state sc ! i) p = 0)) \<and>
     (\<forall>p<3. regs_known sc (phase_waiters sc p))"

definition ready_ok :: "'a sched_core_scheme \<Rightarrow> bool" where
  "ready_ok sc \<longleftrightarrow>
     live_ready sc = length (filter cs_ready (states sc)) \<and>
     ready_cursor sc \<le> length (ready_queue sc) \<and>
     (\<forall>i<length (states sc). cs_ready (states sc ! i) \<longrightarrow>
        i \<in> set (drop (ready_cursor sc) (ready_queue sc)))"

definition timer_regs :: "'w timer_queue \<Rightarrow> 'w list" where
  "timer_regs tq = map t_wait ((case tq_next tq of None \<Rightarrow> [] | Some t \<Rightarrow> [t]) @ tq_waiters tq)"

definition free_ok :: "'a sched_core_scheme \<Rightarrow> bool" where
  "free_ok sc \<longleftrightarrow> distinct (free_states sc) \<and>
     (\<forall>i\<in>set (free_states sc). i < length (states sc) \<and> states sc ! i = coroutine_state_init)"

definition core_ok :: "'a sched_core_scheme \<Rightarrow> bool" where
  "core_ok sc \<longleftrightarrow> shape_ok sc \<and> slots_ok sc \<and> edges_ok sc \<and> interest_ok sc \<and> phases_ok sc \<and>
     ready_ok sc \<and> regs_known sc (timer_regs (timers sc)) \<and> free_ok sc"

lemmas core_defs = shape_ok_def slots_ok_def edges_ok_def interest_ok_def phases_ok_def ready_ok_def
  free_ok_def

lemma core_okI:
  assumes "shape_ok sc" "slots_ok sc" "edges_ok sc" "interest_ok sc" "phases_ok sc" "ready_ok sc"
    "regs_known sc (timer_regs (timers sc))" "free_ok sc"
  shows "core_ok sc"
  using assms by (simp add: core_ok_def)

lemma core_okD:
  assumes "core_ok sc"
  shows "shape_ok sc" "slots_ok sc" "edges_ok sc" "interest_ok sc" "phases_ok sc" "ready_ok sc"
    "regs_known sc (timer_regs (timers sc))" "free_ok sc"
  using assms by (simp_all add: core_ok_def)

lemma slot_okI: "core_ok sc \<Longrightarrow> i < length (states sc) \<Longrightarrow> slot_ok (next_generation sc) (states sc ! i)"
  by (simp add: core_ok_def slots_ok_def)

lemma scheduler_init_ok: "scheduler_init p = Inr sc \<Longrightarrow> core_ok sc"
  using ei_ok_init
  by (auto simp: scheduler_init_def core_ok_def core_defs regs_known_def stale_of_def valid_of_def
      timer_regs_def timer_queue_init_def edge_interest_init_def split: if_splits)

section \<open>Counting\<close>

lemma stale_plus_valid: "i < length (states sc) \<Longrightarrow> stale_of sc regs + length (filter (registration_valid sc) regs) = length regs"
  by (simp add: stale_of_def add.commute sum_length_filter_compl)

lemma valid_state_bound: "registration_valid sc r \<Longrightarrow> reg_state r < length (states sc)"
  by (simp add: registration_valid_def split: if_splits)

lemma registration_valid_cong:
  "states a = states b \<Longrightarrow> registration_valid a = registration_valid b"
  by (simp add: registration_valid_def fun_eq_iff)

lemma stale_of_cong: "states a = states b \<Longrightarrow> stale_of a regs = stale_of b regs"
  by (simp add: stale_of_def registration_valid_cong [of a b])

lemma valid_of_cong: "states a = states b \<Longrightarrow> valid_of a i regs = valid_of b i regs"
  by (simp add: valid_of_def registration_valid_cong [of a b])

lemma registration_valid_other:
  "states sc' = (states sc)[i := s] \<Longrightarrow> reg_state r \<noteq> i \<Longrightarrow>
   registration_valid sc' r = registration_valid sc r"
  by (auto simp: registration_valid_def)

text \<open>A slot stops waiting: its registrations move from the valid to the stale ones.\<close>

lemma valid_after_end:
  assumes "states sc' = (states sc)[i := s]" "\<not> cs_waiting s"
  shows "registration_valid sc' r \<longleftrightarrow> registration_valid sc r \<and> reg_state r \<noteq> i"
proof (cases "reg_state r = i")
  case True
  with assms show ?thesis by (auto simp: registration_valid_def)
next
  case False
  then show ?thesis using registration_valid_other [OF assms(1)] by simp
qed

lemma stale_after_end:
  assumes "states sc' = (states sc)[i := s]" "\<not> cs_waiting s"
  shows "stale_of sc' regs = stale_of sc regs + valid_of sc i regs"
proof (induction regs)
  case Nil
  then show ?case by (simp add: stale_of_def valid_of_def)
next
  case (Cons r regs)
  then show ?case
    using valid_after_end [OF assms, of r] by (auto simp: stale_of_def valid_of_def)
qed

lemma valid_of_after_end:
  assumes "states sc' = (states sc)[i := s]" "\<not> cs_waiting s"
  shows "valid_of sc' j regs = (if j = i then 0 else valid_of sc j regs)"
proof -
  have "filter (\<lambda>r. registration_valid sc' r \<and> reg_state r = j) regs =
      filter (\<lambda>r. (registration_valid sc r \<and> reg_state r \<noteq> i) \<and> reg_state r = j) regs"
    using valid_after_end [OF assms] by simp
  then show ?thesis by (auto simp: valid_of_def intro!: arg_cong [of _ _ length] filter_cong)
qed

lemma not_waiting_invalid: "i < length (states sc) \<Longrightarrow> \<not> cs_waiting (states sc ! i) \<Longrightarrow> valid_of sc i regs = 0"
  by (auto simp: valid_of_def registration_valid_def filter_empty_conv Let_def)

lemma filter_update_length:
  "i < length xs \<Longrightarrow> length (filter P (xs[i := x])) + (if P (xs ! i) then 1 else 0) =
   length (filter P xs) + (if P x then 1 else 0)"
proof (induction xs arbitrary: i)
  case Nil
  then show ?case by simp
next
  case (Cons y xs)
  show ?case
  proof (cases i)
    case 0
    then show ?thesis by simp
  next
    case (Suc j)
    then show ?thesis using Cons.IH [of j] Cons.prems by (cases "P y") simp_all
  qed
qed

lemma sum_list_update_nat:
  fixes f :: "'a \<Rightarrow> nat"
  assumes "i < length xs"
  shows "sum_list (map f (xs[i := x])) + f (xs ! i) = sum_list (map f xs) + f x"
  using assms by (induction xs arbitrary: i) (auto simp: nth_Cons split: nat.splits)

lemma nth_le_sum_list: "i < length xs \<Longrightarrow> (f (xs ! i) :: nat) \<le> sum_list (map f xs)"
  using sum_list_update_nat [of i xs f "xs ! i"] member_le_sum_list [of "f (xs ! i)" "map f xs"] by simp

section \<open>Ending a wait\<close>

definition ended :: "coroutine_state \<Rightarrow> coroutine_state" where
  "ended s = s\<lparr>cs_waiting := False, cs_edge_waits := 0, cs_falling_waits := 0\<rparr>"

definition ended_core :: "nat \<Rightarrow> edge_interest \<Rightarrow> 'a sched_core_scheme \<Rightarrow> 'a sched_core_scheme" where
  "ended_core i ei sc =
     sc\<lparr>states := (states sc)[i := ended (states sc ! i)],
        diags := (diags sc)[i := (diags sc ! i)\<lparr>wd_has_wait := False, wd_deadline := - 1, wd_progress := 0\<rparr>],
        interest := ei,
        stale_regs := stale_regs sc + cs_edge_waits (states sc ! i),
        falling_regs := falling_regs sc - cs_falling_waits (states sc ! i),
        phase_counts := (\<lambda>p. if p < 3 then phase_counts sc p - (phase_by_state sc ! i) p else phase_counts sc p),
        phase_by_state := (phase_by_state sc)[i := (\<lambda>p. if p < 3 then 0 else (phase_by_state sc ! i) p)]\<rparr>"

lemma ended_plain: "cs_edge_waits s = 0 \<Longrightarrow> cs_falling_waits s = 0 \<Longrightarrow> ended s = s\<lparr>cs_waiting := False\<rparr>"
  by (cases s) (simp add: ended_def)

lemma ended_simps [simp]:
  "cs_waiting (ended s) = False" "cs_edge_waits (ended s) = 0" "cs_falling_waits (ended s) = 0"
  "cs_ready (ended s) = cs_ready s" "cs_done (ended s) = cs_done s" "cs_handle (ended s) = cs_handle s"
  "cs_generation (ended s) = cs_generation s"
  by (simp_all add: ended_def)

lemma ended_not_waiting: "\<not> cs_waiting (ended s)"
  by simp

lemma end_phase_wait_Ok:
  "(phase_by_state sc ! i) p \<le> phase_counts sc p \<Longrightarrow>
   end_phase_wait i p sc = Inr (sc\<lparr>phase_counts := (phase_counts sc)(p := phase_counts sc p - (phase_by_state sc ! i) p),
     phase_by_state := (phase_by_state sc)[i := (phase_by_state sc ! i)(p := 0)]\<rparr>)"
  by (simp add: end_phase_wait_def Let_def)

lemma less3: "p < 3 \<longleftrightarrow> p = 0 \<or> p = 1 \<or> p = (2 :: nat)"
  by auto

lemma end_phases_Ok:
  assumes "i < length (phase_by_state sc)" "\<forall>p<3. (phase_by_state sc ! i) p \<le> phase_counts sc p"
  shows "result_bind (end_phase_wait i 0 sc) (\<lambda>sc. result_bind (end_phase_wait i 1 sc) (end_phase_wait i 2)) =
    Inr (sc\<lparr>phase_counts := (\<lambda>p. if p < 3 then phase_counts sc p - (phase_by_state sc ! i) p else phase_counts sc p),
        phase_by_state := (phase_by_state sc)[i := (\<lambda>p. if p < 3 then 0 else (phase_by_state sc ! i) p)]\<rparr>)"
proof -
  have "(phase_counts sc)(0 := phase_counts sc 0 - (phase_by_state sc ! i) 0,
          Suc 0 := phase_counts sc (Suc 0) - (phase_by_state sc ! i) (Suc 0),
          2 := phase_counts sc 2 - (phase_by_state sc ! i) 2) =
        (\<lambda>p. if p < 3 then phase_counts sc p - (phase_by_state sc ! i) p else phase_counts sc p)"
    by (auto simp: fun_eq_iff less3)
  moreover have "(phase_by_state sc ! i)(0 := 0, Suc 0 := 0, 2 := 0) =
        (\<lambda>p. if p < 3 then 0 else (phase_by_state sc ! i) p)"
    by (auto simp: fun_eq_iff less3)
  ultimately show ?thesis
    using assms by (simp add: end_phase_wait_Ok)
qed

lemma phase_le_count:
  "phases_ok sc \<Longrightarrow> shape_ok sc \<Longrightarrow> i < length (states sc) \<Longrightarrow> p < 3 \<Longrightarrow> (phase_by_state sc ! i) p \<le> phase_counts sc p"
  using nth_le_sum_list [of i "phase_by_state sc" "\<lambda>f. f p"] by (simp add: phases_ok_def shape_ok_def)

lemma edge_part_of_end:
  "(if cs_edge_waits (states sc ! i) \<noteq> 0
    then (upd_state i (\<lambda>s. s\<lparr>cs_edge_waits := 0\<rparr>) sc)\<lparr>stale_regs := stale_regs sc + cs_edge_waits (states sc ! i)\<rparr>
    else sc) =
   sc\<lparr>states := (states sc)[i := (states sc ! i)\<lparr>cs_edge_waits := 0\<rparr>],
      stale_regs := stale_regs sc + cs_edge_waits (states sc ! i)\<rparr>"
proof (cases "cs_edge_waits (states sc ! i) = 0")
  case True
  then have "(states sc ! i)\<lparr>cs_edge_waits := 0\<rparr> = states sc ! i" by (metis coroutine_state.surjective coroutine_state.update_convs(3))
  then have "(states sc)[i := (states sc ! i)\<lparr>cs_edge_waits := 0\<rparr>] = states sc" by (metis list_update_id)
  with True show ?thesis by simp
qed (simp add: upd_state_def)

lemma falling_part_of_end:
  "(if cs_falling_waits (states sc ! i) \<noteq> 0
    then (upd_state i (\<lambda>s. s\<lparr>cs_falling_waits := 0\<rparr>) sc)\<lparr>falling_regs := falling_regs sc - cs_falling_waits (states sc ! i)\<rparr>
    else sc) =
   sc\<lparr>states := (states sc)[i := (states sc ! i)\<lparr>cs_falling_waits := 0\<rparr>],
      falling_regs := falling_regs sc - cs_falling_waits (states sc ! i)\<rparr>"
proof (cases "cs_falling_waits (states sc ! i) = 0")
  case True
  then have "(states sc ! i)\<lparr>cs_falling_waits := 0\<rparr> = states sc ! i" by (metis coroutine_state.surjective coroutine_state.update_convs(4))
  then have "(states sc)[i := (states sc ! i)\<lparr>cs_falling_waits := 0\<rparr>] = states sc" by (metis list_update_id)
  with True show ?thesis by simp
qed (simp add: upd_state_def)

lemma end_wait_core:
  assumes ok: "core_ok sc" and i: "i < length (states sc)" and w: "cs_waiting (states sc ! i)"
  shows "\<exists>ei. end_wait i sc = Inr (ended_core i ei sc) \<and> ei_ok ei \<and>
    ei_indices ei = (ei_indices (interest sc))[i := []] \<and> ei_static ei = ei_static (interest sc)"
proof (cases "cs_edge_waits (states sc ! i) = 0 \<and> (phase_by_state sc ! i) 0 = 0 \<and>
              (phase_by_state sc ! i) 1 = 0 \<and> (phase_by_state sc ! i) 2 = 0")
  case True
  have i': "i < length (phase_by_state sc)" "i < length (ei_indices (interest sc))"
    using ok i by (simp_all add: core_ok_def shape_ok_def)
  have falling: "cs_falling_waits (states sc ! i) = 0"
    using slot_okI [OF ok i] True by (simp add: slot_ok_def)
  have idx: "ei_indices (interest sc) ! i = []"
    using core_okD(4) [OF ok] i True by (auto simp add: interest_ok_def)
  have p0: "(\<lambda>p. if p < 3 then 0 else (phase_by_state sc ! i) p) = phase_by_state sc ! i"
    using True by (auto simp: fun_eq_iff less3)
  have c0: "(\<lambda>p. if p < 3 then phase_counts sc p - (phase_by_state sc ! i) p else phase_counts sc p) = phase_counts sc"
    using True by (auto simp: fun_eq_iff less3)
  have "end_wait i sc = Inr (ended_core i (interest sc) sc)"
    unfolding end_wait_def ended_core_def p0 c0 Let_def
    using w True falling i by (simp add: upd_state_def upd_diag_def ended_plain)
  moreover have "ei_ok (interest sc)" using core_okD(4) [OF ok] by (simp add: interest_ok_def)
  moreover have "(ei_indices (interest sc))[i := []] = ei_indices (interest sc)"
    using idx by (metis list_update_id)
  ultimately show ?thesis by (intro exI [of _ "interest sc"]) simp
next
  case False
  have i': "i < length (phase_by_state sc)" "\<forall>p<3. (phase_by_state sc ! i) p \<le> phase_counts sc p"
    using core_okD(1,5) [OF ok] i phase_le_count by (auto simp add: shape_ok_def)
  obtain ei where ei: "remove_edge_interests i (interest sc) = Inr ei" "ei_ok ei"
    "ei_indices ei = (ei_indices (interest sc))[i := []]" "ei_static ei = ei_static (interest sc)"
    using remove_edge_interests_ok core_okD(4) [OF ok] unfolding interest_ok_def by blast
  have busy: "(cs_edge_waits (states sc ! i) = 0 \<and> (phase_by_state sc ! i) 0 = 0 \<and>
              (phase_by_state sc ! i) (Suc 0) = 0 \<and> (phase_by_state sc ! i) 2 = 0) = False"
    using False by simp
  have "end_wait i sc = Inr (ended_core i ei sc)"
    unfolding end_wait_def ended_core_def Let_def edge_part_of_end falling_part_of_end
    using w ei(1) i i'
    by (simp add: busy end_phases_Ok [unfolded One_nat_def] upd_state_def upd_diag_def ended_def cong: if_cong)
  then show ?thesis using ei by blast
qed

lemma regs_known_mono:
  "regs_known sc regs \<Longrightarrow> set regs' \<subseteq> set regs \<Longrightarrow> length (states sc) \<le> length (states sc') \<Longrightarrow>
   next_generation sc \<le> next_generation sc' \<Longrightarrow> regs_known sc' regs'"
  unfolding regs_known_def by (meson le_trans less_le_trans subsetD)

lemma regs_known_cong:
  "length (states a) = length (states b) \<Longrightarrow> next_generation a = next_generation b \<Longrightarrow>
   regs_known a regs = regs_known b regs"
  by (simp add: regs_known_def)

lemma ended_core_ok:
  assumes ok: "core_ok sc" and i: "i < length (states sc)" and w: "cs_waiting (states sc ! i)"
    and ei: "ei_ok ei" "ei_indices ei = (ei_indices (interest sc))[i := []]"
  shows "core_ok (ended_core i ei sc)"
proof -
  let ?sc = "ended_core i ei sc"
  let ?s = "states sc ! i"
  have st: "states ?sc = (states sc)[i := ended ?s]" by (simp add: ended_core_def)
  have gen: "next_generation ?sc = next_generation sc" by (simp add: ended_core_def)
  have slot: "slot_ok (next_generation sc) ?s" by (rule slot_okI [OF ok i])
  note known = regs_known_cong [of ?sc sc, OF _ gen, unfolded st length_list_update, OF refl]
  note regs = stale_after_end [OF st ended_not_waiting] valid_of_after_end [OF st ended_not_waiting]
  show ?thesis
  proof (rule core_okI)
    show "shape_ok ?sc" using core_okD(1) [OF ok] by (simp add: shape_ok_def ended_core_def ei)
    have "slot_ok (next_generation sc) (ended ?s)" using slot by (simp add: slot_ok_def)
    then show "slots_ok ?sc"
      using core_okD(2) [OF ok] unfolding slots_ok_def st gen by (metis insertE set_update_subset_insert subsetD)
    have "edge_waiters ?sc = edge_waiters sc" "edge_entries ?sc = edge_entries sc"
      "stale_regs ?sc = stale_regs sc + cs_edge_waits ?s" by (simp_all add: ended_core_def)
    then show "edges_ok ?sc"
      using core_okD(3) [OF ok] i unfolding edges_ok_def known regs st by (auto simp add: nth_list_update)
    have "length (ei_indices ei ! j) \<le> cs_edge_waits ((states sc)[i := ended ?s] ! j)" if "j < length (states sc)" for j
      using core_okD(1,4) [OF ok] that by (cases "j = i") (simp_all add: interest_ok_def ei shape_ok_def)
    moreover have "falling_regs sc - cs_falling_waits ?s = sum_list (map cs_falling_waits ((states sc)[i := ended ?s]))"
      using core_okD(4) [OF ok] sum_list_update_nat [OF i, of cs_falling_waits "ended ?s"] by (simp add: interest_ok_def)
    ultimately show "interest_ok ?sc" using ei by (simp add: interest_ok_def ended_core_def)
    show "phases_ok ?sc"
      unfolding phases_ok_def known
    proof (intro conjI allI impI)
      fix p :: nat assume p: "p < 3"
      have len: "i < length (phase_by_state sc)" using core_okD(1) [OF ok] i by (simp add: shape_ok_def)
      show "phase_counts ?sc p = sum_list (map (\<lambda>f. f p) (phase_by_state ?sc))"
        using core_okD(5) [OF ok] p sum_list_update_nat [OF len, of "\<lambda>f. f p" "\<lambda>p. if p < 3 then 0 else (phase_by_state sc ! i) p"]
        by (simp add: phases_ok_def ended_core_def)
      show "regs_known sc (phase_waiters ?sc p)"
        using core_okD(5) [OF ok] p by (simp add: phases_ok_def ended_core_def)
      fix j assume "j < length (states ?sc)" "\<not> cs_waiting (states ?sc ! j)"
      then show "(phase_by_state ?sc ! j) p = 0"
        using core_okD(1,5) [OF ok] p by (cases "j = i") (simp_all add: phases_ok_def ended_core_def shape_ok_def)
    qed
    have "length (filter cs_ready ((states sc)[i := ended ?s])) = length (filter cs_ready (states sc))"
      using filter_update_length [OF i, of cs_ready "ended ?s"] by simp
    then show "ready_ok ?sc"
      using core_okD(6) [OF ok] i by (auto simp add: ready_ok_def ended_core_def nth_list_update split: if_splits)
    show "regs_known ?sc (timer_regs (timers ?sc))"
      using core_okD(7) [OF ok] by (simp add: known) (simp add: ended_core_def)
    have "i \<notin> set (free_states sc)"
      using core_okD(8) [OF ok] w by (auto simp: free_ok_def coroutine_state_init_def)
    then show "free_ok ?sc"
      using core_okD(8) [OF ok] by (auto simp add: free_ok_def ended_core_def) (metis nth_list_update_neq)
  qed
qed

lemma end_wait_ok:
  assumes "core_ok sc" "i < length (states sc)"
  obtains sc' where "end_wait i sc = Inr sc'" "core_ok sc'"
    "\<not> cs_waiting (states sc ! i) \<and> sc' = sc \<or>
     cs_waiting (states sc ! i) \<and> (\<exists>ei. sc' = ended_core i ei sc)"
proof (cases "cs_waiting (states sc ! i)")
  case True
  with end_wait_core [OF assms] ended_core_ok [OF assms] that show ?thesis by blast
next
  case False
  with assms that show ?thesis by (simp add: end_wait_def)
qed

section \<open>Ready slots\<close>

lemma make_ready_ok:
  assumes ok: "core_ok sc" and i: "i < length (states sc)"
    and s: "\<not> cs_waiting (states sc ! i)" "cs_handle (states sc ! i) \<noteq> None"
  shows "core_ok (make_ready i sc)"
proof (cases "cs_done (states sc ! i) \<or> cs_ready (states sc ! i)")
  case True
  then show ?thesis using ok by (simp add: make_ready_def)
next
  case False
  let ?s = "(states sc ! i)\<lparr>cs_ready := True\<rparr>"
  define sc' where "sc' = sc\<lparr>states := (states sc)[i := ?s], live_ready := live_ready sc + 1,
    ready_queue := ready_queue sc @ [i]\<rparr>"
  have mk: "make_ready i sc = sc'" using False i by (simp add: make_ready_def sc'_def upd_state_def)
  have valid: "registration_valid sc' r = registration_valid sc r" for r
    using i by (auto simp: registration_valid_def sc'_def nth_list_update Let_def)
  have counts: "stale_of sc' regs = stale_of sc regs" "valid_of sc' j regs = valid_of sc j regs" for j regs
    by (simp_all add: stale_of_def valid_of_def valid)
  have known: "regs_known sc' = regs_known sc" by (simp add: fun_eq_iff regs_known_def sc'_def)
  have wait: "cs_waiting ((states sc)[i := ?s] ! j) = cs_waiting (states sc ! j)"
    "cs_edge_waits ((states sc)[i := ?s] ! j) = cs_edge_waits (states sc ! j)"
    "cs_falling_waits ((states sc)[i := ?s] ! j) = cs_falling_waits (states sc ! j)" for j
    using i by (cases "j = i"; simp)+
  show ?thesis unfolding mk
  proof (rule core_okI)
    show "shape_ok sc'" using core_okD(1) [OF ok] by (simp add: shape_ok_def sc'_def)
    have "slot_ok (next_generation sc) ?s"
      using slot_okI [OF ok i] s False by (simp add: slot_ok_def)
    then show "slots_ok sc'"
      using core_okD(2) [OF ok] unfolding slots_ok_def sc'_def by (auto dest!: set_update_subset_insert [THEN subsetD])
    show "edges_ok sc'"
      using core_okD(3) [OF ok] unfolding edges_ok_def known counts by (simp add: sc'_def wait)
    have "map cs_falling_waits ((states sc)[i := ?s]) = map cs_falling_waits (states sc)"
      by (simp add: list_eq_iff_nth_eq wait)
    then show "interest_ok sc'" using core_okD(4) [OF ok] by (simp add: interest_ok_def sc'_def wait)
    show "phases_ok sc'"
      using core_okD(5) [OF ok] unfolding phases_ok_def known by (simp add: sc'_def wait)
    have "length (filter cs_ready ((states sc)[i := ?s])) = length (filter cs_ready (states sc)) + 1"
      using filter_update_length [OF i, of cs_ready ?s] False by simp
    then show "ready_ok sc'"
      using core_okD(6) [OF ok] i by (auto simp add: ready_ok_def sc'_def nth_list_update split: if_splits)
    show "regs_known sc' (timer_regs (timers sc'))"
      using core_okD(7) [OF ok] by (simp add: known) (simp add: sc'_def)
    have "i \<notin> set (free_states sc)"
      using core_okD(8) [OF ok] s by (auto simp: free_ok_def coroutine_state_init_def)
    then show "free_ok sc'"
      using core_okD(8) [OF ok] by (auto simp add: free_ok_def sc'_def) (metis nth_list_update_neq)
  qed
qed

lemma make_ready_frame [simp]:
  "edge_waiters (make_ready i sc) = edge_waiters sc" "edge_entries (make_ready i sc) = edge_entries sc"
  "stale_regs (make_ready i sc) = stale_regs sc" "phase_waiters (make_ready i sc) = phase_waiters sc"
  "next_generation (make_ready i sc) = next_generation sc" "interest (make_ready i sc) = interest sc"
  "length (states (make_ready i sc)) = length (states sc)" "now (make_ready i sc) = now sc"
  "ready_cursor (make_ready i sc) = ready_cursor sc" "winners (make_ready i sc) = winners sc"
  by (simp_all add: make_ready_def upd_state_def)

lemma make_ready_valid [simp]: "registration_valid (make_ready i sc) = registration_valid sc"
  by (auto simp: fun_eq_iff registration_valid_def make_ready_def upd_state_def nth_list_update Let_def)

section \<open>Resuming a registration\<close>

lemma core_ok_winners: "core_ok (sc\<lparr>winners := w\<rparr>) = core_ok sc"
  unfolding core_ok_def core_defs regs_known_def stale_of_def valid_of_def registration_valid_def by simp

definition resumed_core :: "registration \<Rightarrow> 'a sched_core_scheme \<Rightarrow> 'a sched_core_scheme \<Rightarrow> bool" where
  "resumed_core reg sc sc' \<longleftrightarrow>
     core_ok sc' \<and>
     (\<forall>r. registration_valid sc' r \<longleftrightarrow>
        registration_valid sc r \<and> \<not> (registration_valid sc reg \<and> reg_state r = reg_state reg)) \<and>
     edge_waiters sc' = edge_waiters sc \<and> edge_entries sc' = edge_entries sc \<and>
     phase_waiters sc' = phase_waiters sc \<and> timers sc' = timers sc \<and> now sc' = now sc \<and>
     next_generation sc' = next_generation sc \<and> length (states sc') = length (states sc) \<and>
     ready_cursor sc' = ready_cursor sc \<and>
     ready_queue sc' = ready_queue sc @ (if registration_valid sc reg then [reg_state reg] else []) \<and>
     (registration_valid sc reg \<longrightarrow> cs_ready (states sc' ! reg_state reg)) \<and>
     winners sc' = (case reg_winner reg of
        Some slot \<Rightarrow> if registration_valid sc reg then (winners sc)(slot := reg_index reg) else winners sc
      | None \<Rightarrow> winners sc)"

lemma ended_core_frame [simp]:
  "states (ended_core i ei sc) = (states sc)[i := ended (states sc ! i)]"
  "edge_waiters (ended_core i ei sc) = edge_waiters sc" "edge_entries (ended_core i ei sc) = edge_entries sc"
  "phase_waiters (ended_core i ei sc) = phase_waiters sc" "timers (ended_core i ei sc) = timers sc"
  "now (ended_core i ei sc) = now sc" "next_generation (ended_core i ei sc) = next_generation sc"
  "ready_queue (ended_core i ei sc) = ready_queue sc" "ready_cursor (ended_core i ei sc) = ready_cursor sc"
  "winners (ended_core i ei sc) = winners sc" "interest (ended_core i ei sc) = ei"
  "free_states (ended_core i ei sc) = free_states sc" "live_ready (ended_core i ei sc) = live_ready sc"
  by (simp_all add: ended_core_def)

lemma valid_slot:
  assumes "core_ok sc" "registration_valid sc reg"
  shows "reg_state reg < length (states sc)" "cs_waiting (states sc ! reg_state reg)"
    "cs_handle (states sc ! reg_state reg) \<noteq> None" "\<not> cs_done (states sc ! reg_state reg)"
    "\<not> cs_ready (states sc ! reg_state reg)"
proof -
  show i: "reg_state reg < length (states sc)" and w: "cs_waiting (states sc ! reg_state reg)"
    using assms(2) by (auto simp: registration_valid_def Let_def split: if_splits)
  show "cs_handle (states sc ! reg_state reg) \<noteq> None" "\<not> cs_done (states sc ! reg_state reg)"
    "\<not> cs_ready (states sc ! reg_state reg)"
    using slot_okI [OF assms(1) i] w by (simp_all add: slot_ok_def)
qed

lemma resume_registration_ok:
  assumes ok: "core_ok sc"
  obtains sc' where "resume_registration reg sc = Inr (registration_valid sc reg, sc')"
    "resumed_core reg sc sc'"
proof (cases "registration_valid sc reg")
  case False
  then have "resume_registration reg sc = Inr (registration_valid sc reg, sc)"
    by (simp add: resume_registration_def)
  moreover have "resumed_core reg sc sc"
    using ok False by (simp add: resumed_core_def split: option.splits)
  ultimately show ?thesis by (rule that)
next
  case True
  let ?i = "reg_state reg"
  note slot = valid_slot [OF ok True]
  obtain ei where ew: "end_wait ?i sc = Inr (ended_core ?i ei sc)" and ok1: "core_ok (ended_core ?i ei sc)"
    using end_wait_core [OF ok slot(1,2)] ended_core_ok [OF ok slot(1,2)] by blast
  define sc1 where "sc1 = (case reg_winner reg of None \<Rightarrow> ended_core ?i ei sc
    | Some slot \<Rightarrow> (ended_core ?i ei sc)\<lparr>winners := (winners (ended_core ?i ei sc))(slot := reg_index reg)\<rparr>)"
  have r: "resume_registration reg sc = Inr (registration_valid sc reg, make_ready ?i sc1)"
    using True ew by (simp add: resume_registration_def sc1_def Let_def)
  have sc1: "core_ok sc1" "states sc1 = (states sc)[?i := ended (states sc ! ?i)]"
    "ready_queue sc1 = ready_queue sc" "edge_waiters sc1 = edge_waiters sc" "edge_entries sc1 = edge_entries sc"
    "phase_waiters sc1 = phase_waiters sc" "timers sc1 = timers sc" "now sc1 = now sc"
    "next_generation sc1 = next_generation sc" "ready_cursor sc1 = ready_cursor sc"
    using ok1 by (auto simp: sc1_def core_ok_winners split: option.splits)
  have win: "winners sc1 = (case reg_winner reg of Some slot \<Rightarrow> (winners sc)(slot := reg_index reg) | None \<Rightarrow> winners sc)"
    by (auto simp: sc1_def split: option.splits)
  have si: "states sc1 ! ?i = ended (states sc ! ?i)" using slot(1) by (simp add: sc1)
  have mk: "ready_queue (make_ready ?i sc1) = ready_queue sc1 @ [?i]" "cs_ready (states (make_ready ?i sc1) ! ?i)"
    using slot(1,4,5) by (simp_all add: make_ready_def si upd_state_def) (simp_all add: sc1)
  have "core_ok (make_ready ?i sc1)"
    using sc1(1) slot by (intro make_ready_ok) (simp_all add: sc1)
  moreover have "registration_valid sc1 r \<longleftrightarrow> registration_valid sc r \<and> reg_state r \<noteq> ?i" for r
    by (rule valid_after_end [OF sc1(2) ended_not_waiting])
  ultimately have "resumed_core reg sc (make_ready ?i sc1)"
    unfolding resumed_core_def using True mk by (simp add: sc1 win cong: option.case_cong)
  with r show ?thesis by (rule that)
qed

section \<open>Waking an edge queue\<close>

text \<open>The loop reads the queue in place, so the invariant holds for the part still to be read.\<close>

definition with_queues :: "registration list list \<Rightarrow> 'a sched_core_scheme \<Rightarrow> 'a sched_core_scheme" where
  "with_queues x sc = sc\<lparr>edge_waiters := x\<rparr>"

lemma with_queues_simps [simp]:
  "edge_waiters (with_queues x sc) = x" "states (with_queues x sc) = states sc"
  "with_queues x (with_queues y sc) = with_queues x sc" "with_queues (edge_waiters sc) sc = sc"
  "edge_entries (with_queues x sc) = edge_entries sc" "stale_regs (with_queues x sc) = stale_regs sc"
  "ready_queue (with_queues x sc) = ready_queue sc" "now (with_queues x sc) = now sc"
  "timers (with_queues x sc) = timers sc" "phase_waiters (with_queues x sc) = phase_waiters sc"
  "next_generation (with_queues x sc) = next_generation sc" "ready_cursor (with_queues x sc) = ready_cursor sc"
  "winners (with_queues x sc) = winners sc"
  by (simp_all add: with_queues_def)

lemma registration_valid_queues [simp]: "registration_valid (with_queues x sc) = registration_valid sc"
  by (rule registration_valid_cong) simp

lemma bind_map_sum: "result_bind (map_sum id g r) f = result_bind r (\<lambda>x. f (g x))"
  by (cases r) auto

lemma map_sum_bind: "map_sum id g (result_bind r f) = result_bind r (\<lambda>x. map_sum id g (f x))"
  by (cases r) auto

lemma end_phase_wait_queues:
  "end_phase_wait i p (with_queues x sc) = map_sum id (with_queues x) (end_phase_wait i p sc)"
  by (simp add: end_phase_wait_def Let_def with_queues_def)

definition unregistered :: "nat \<Rightarrow> edge_interest \<Rightarrow> 'a sched_core_scheme \<Rightarrow> 'a sched_core_scheme" where
  "unregistered i ei sc =
     sc\<lparr>states := (states sc)[i := ended (states sc ! i)],
        diags := (diags sc)[i := (diags sc ! i)\<lparr>wd_has_wait := False, wd_deadline := - 1, wd_progress := 0\<rparr>],
        interest := ei, stale_regs := stale_regs sc + cs_edge_waits (states sc ! i),
        falling_regs := falling_regs sc - cs_falling_waits (states sc ! i)\<rparr>"

lemma end_wait_alt:
  assumes "i < length (states sc)" "cs_waiting (states sc ! i)"
  shows "end_wait i sc =
    (if cs_edge_waits (states sc ! i) = 0 \<and> (phase_by_state sc ! i) 0 = 0 \<and>
        (phase_by_state sc ! i) 1 = 0 \<and> (phase_by_state sc ! i) 2 = 0
     then Ok (sc\<lparr>states := (states sc)[i := (states sc ! i)\<lparr>cs_waiting := False\<rparr>],
        diags := (diags sc)[i := (diags sc ! i)\<lparr>wd_has_wait := False, wd_deadline := - 1, wd_progress := 0\<rparr>]\<rparr>)
     else result_bind (remove_edge_interests i (interest sc)) (\<lambda>ei.
       result_bind (end_phase_wait i 0 (unregistered i ei sc)) (\<lambda>sc.
       result_bind (end_phase_wait i 1 sc) (end_phase_wait i 2))))"
proof (cases "cs_edge_waits (states sc ! i) = 0 \<and> (phase_by_state sc ! i) 0 = 0 \<and>
        (phase_by_state sc ! i) (Suc 0) = 0 \<and> (phase_by_state sc ! i) 2 = 0")
  case True
  then show ?thesis using assms by (simp add: end_wait_def upd_state_def upd_diag_def)
next
  case False
  then have busy: "(cs_edge_waits (states sc ! i) = 0 \<and> (phase_by_state sc ! i) 0 = 0 \<and>
        (phase_by_state sc ! i) (Suc 0) = 0 \<and> (phase_by_state sc ! i) 2 = 0) = False" by simp
  show ?thesis
    unfolding end_wait_def Let_def edge_part_of_end falling_part_of_end
    using assms
    apply (simp add: upd_state_def upd_diag_def busy)
    apply (intro arg_cong2 [where f = result_bind] ext arg_cong [where f = "end_phase_wait i 0"] refl)
    apply (simp add: unregistered_def ended_def)
    done
qed

lemma end_wait_queues:
  assumes "i < length (states sc)"
  shows "end_wait i (with_queues x sc) = map_sum id (with_queues x) (end_wait i sc)"
proof (cases "cs_waiting (states sc ! i)")
  case True
  have un: "unregistered i ei (with_queues x sc) = with_queues x (unregistered i ei sc)" for ei
    by (simp add: unregistered_def with_queues_def)
  have eqs: "interest (with_queues x sc) = interest sc" "phase_by_state (with_queues x sc) = phase_by_state sc"
    by (simp_all add: with_queues_def)
  note alt = end_wait_alt [of i "with_queues x sc", unfolded with_queues_simps, OF assms True]
  show ?thesis
    unfolding alt end_wait_alt [OF assms True] un eqs
    by (simp add: end_phase_wait_queues bind_map_sum map_sum_bind) (simp add: with_queues_def)
next
  case False
  then show ?thesis by (simp add: end_wait_def)
qed

lemma resume_registration_queues:
  "resume_registration reg (with_queues x sc) =
   map_sum id (map_prod id (with_queues x)) (resume_registration reg sc)"
proof (cases "registration_valid sc reg")
  case True
  have mk: "make_ready i (with_queues x s) = with_queues x (make_ready i s)" for i and s :: "'a sched_core_scheme"
    by (simp add: make_ready_def upd_state_def with_queues_def)
  have win: "(with_queues x s)\<lparr>winners := w\<rparr> = with_queues x (s\<lparr>winners := w\<rparr>)" for w and s :: "'a sched_core_scheme"
    by (simp add: with_queues_def)
  show ?thesis
    using True valid_state_bound [OF True]
    by (cases "reg_winner reg")
      (simp_all add: resume_registration_def end_wait_queues bind_map_sum map_sum_bind mk win Let_def)
qed (simp add: resume_registration_def)

text \<open>Which coroutines a list of registrations wakes, and in which order.\<close>

fun first_occurrences :: "nat list \<Rightarrow> nat list" where
  "first_occurrences [] = []"
| "first_occurrences (i # is) = i # filter (\<lambda>j. j \<noteq> i) (first_occurrences is)"

definition woken_states :: "'a sched_core_scheme \<Rightarrow> registration list \<Rightarrow> nat list" where
  "woken_states sc regs = first_occurrences (map reg_state (filter (registration_valid sc) regs))"

lemma first_occurrences_filter:
  "first_occurrences (filter P is) = filter P (first_occurrences is)"
  by (induction "is") (auto simp: filter_empty_conv intro: filter_cong)

lemma woken_states_step:
  assumes "\<forall>r. registration_valid sc' r \<longleftrightarrow>
    registration_valid sc r \<and> \<not> (registration_valid sc reg \<and> reg_state r = reg_state reg)"
  shows "woken_states sc (reg # regs) =
    (if registration_valid sc reg then [reg_state reg] else []) @ woken_states sc' regs"
proof (cases "registration_valid sc reg")
  case True
  have "map reg_state (filter (registration_valid sc') regs) =
      filter (\<lambda>j. j \<noteq> reg_state reg) (map reg_state (filter (registration_valid sc) regs))"
    using assms True by (induction regs) auto
  then show ?thesis using True by (simp add: woken_states_def first_occurrences_filter)
next
  case False
  then have "registration_valid sc' = registration_valid sc" using assms by (auto simp: fun_eq_iff)
  with False show ?thesis by (simp add: woken_states_def)
qed

lemma stale_of_Cons: "stale_of sc (r # regs) = (if registration_valid sc r then 0 else 1) + stale_of sc regs"
  by (simp add: stale_of_def)

lemma core_ok_new_edges:
  assumes "core_ok sc" "edges_ok (sc\<lparr>edge_waiters := x, edge_entries := n, stale_regs := m\<rparr>)"
  shows "core_ok (sc\<lparr>edge_waiters := x, edge_entries := n, stale_regs := m\<rparr>)"
  using assms unfolding core_ok_def shape_ok_def slots_ok_def interest_ok_def phases_ok_def ready_ok_def
    free_ok_def regs_known_def by simp

lemma core_ok_drop_head:
  assumes ok: "core_ok sc" and q: "q < length (edge_waiters sc)" "edge_waiters sc ! q = reg # regs"
    and stale: "\<not> registration_valid sc reg"
  shows "core_ok ((with_queues ((edge_waiters sc)[q := regs]) sc)
    \<lparr>edge_entries := edge_entries sc - 1, stale_regs := stale_regs sc - 1\<rparr>)" "stale_regs sc \<noteq> 0"
proof -
  let ?sc = "(with_queues ((edge_waiters sc)[q := regs]) sc)
    \<lparr>edge_entries := edge_entries sc - 1, stale_regs := stale_regs sc - 1\<rparr>"
  obtain a b where ab: "edge_waiters sc = a @ (reg # regs) # b" "length a = q"
    using id_take_nth_drop [OF q(1)] q by (metis length_take min.absorb4)
  then have new: "(a @ (reg # regs) # b)[q := regs] = a @ regs # b" by (auto simp: list_update_append)
  have valid: "registration_valid ?sc = registration_valid sc" by (rule registration_valid_cong) simp
  have counts: "stale_of ?sc l = stale_of sc l" "valid_of ?sc j l = valid_of sc j l" for j l
    unfolding stale_of_def valid_of_def valid by simp_all
  have known: "regs_known ?sc = regs_known sc" by (simp add: fun_eq_iff regs_known_def)
  have stale_sc: "stale_regs sc = stale_of sc (concat (edge_waiters sc))"
    using core_okD(3) [OF ok] by (simp add: edges_ok_def)
  then show "stale_regs sc \<noteq> 0" using stale by (simp add: ab stale_of_def)
  have "edges_ok ?sc"
    using core_okD(3) [OF ok] stale unfolding edges_ok_def known counts
    by (auto simp add: ab(1) new stale_of_def valid_of_def regs_known_def)
  then show "core_ok ?sc" unfolding with_queues_def by (rule core_ok_new_edges [OF ok])
qed

lemma resume_edge_list_ok:
  assumes "core_ok (with_queues (X[q := regs]) sc)" "q < length X" "edge_waiters sc = X"
  shows "\<exists>sc'. resume_edge_list regs resumed sc = Inr (resumed \<or> woken_states sc regs \<noteq> [], sc') \<and>
    core_ok (with_queues (X[q := []]) sc') \<and> edge_waiters sc' = X \<and>
    ready_queue sc' = ready_queue sc @ woken_states sc regs \<and>
    (\<forall>r. registration_valid sc' r \<longleftrightarrow> registration_valid sc r \<and> reg_state r \<notin> set (woken_states sc regs)) \<and>
    phase_waiters sc' = phase_waiters sc \<and> timers sc' = timers sc \<and> now sc' = now sc \<and>
    next_generation sc' = next_generation sc"
  using assms
proof (induction regs arbitrary: sc resumed)
  case Nil
  then show ?case by (simp add: woken_states_def)
next
  case (Cons reg regs)
  let ?w = "with_queues (X[q := reg # regs]) sc"
  obtain sc1 where r1: "resume_registration reg ?w = Inr (registration_valid sc reg, sc1)"
    and rc: "resumed_core reg ?w sc1"
    using resume_registration_ok [OF Cons.prems(1), of reg] by auto
  from r1 obtain sc2 where r2: "resume_registration reg sc = Inr (registration_valid sc reg, sc2)"
    and sc1: "sc1 = with_queues (X[q := reg # regs]) sc2"
    unfolding resume_registration_queues by (cases "resume_registration reg sc") auto
  have X2: "edge_waiters sc2 = X"
  proof -
    have "with_queues X sc = sc" using Cons.prems(3) by (metis with_queues_simps(4))
    then have "Inr (registration_valid sc reg, sc2) =
        map_sum id (map_prod id (with_queues X)) (Inr (registration_valid sc reg, sc2))"
      using r2 resume_registration_queues [of reg X sc] by simp
    then have "sc2 = with_queues X sc2" by simp
    then show ?thesis by (metis with_queues_simps(1))
  qed
  have q2: "q < length (edge_waiters sc1)" "edge_waiters sc1 ! q = reg # regs"
    using Cons.prems(2) by (simp_all add: sc1)
  have rv: "\<forall>r. registration_valid sc2 r \<longleftrightarrow>
      registration_valid sc r \<and> \<not> (registration_valid sc reg \<and> reg_state r = reg_state reg)"
    using rc by (simp add: resumed_core_def sc1)
  then have stale: "\<not> registration_valid sc1 reg" by (simp add: sc1)
  have ok1: "core_ok sc1" using rc by (simp add: resumed_core_def)
  define sc3 where "sc3 = sc2\<lparr>edge_entries := edge_entries sc2 - 1,
    stale_regs := (if stale_regs sc2 \<noteq> 0 then stale_regs sc2 - 1 else stale_regs sc2)\<rparr>"
  have "stale_regs sc2 \<noteq> 0" using core_ok_drop_head(2) [OF ok1 q2 stale] by (simp add: sc1)
  then have "with_queues (X[q := regs]) sc3 =
      (with_queues ((edge_waiters sc1)[q := regs]) sc1)\<lparr>edge_entries := edge_entries sc1 - 1, stale_regs := stale_regs sc1 - 1\<rparr>"
    by (simp add: sc1 sc3_def) (simp add: with_queues_def)
  then have ok3: "core_ok (with_queues (X[q := regs]) sc3)" using core_ok_drop_head(1) [OF ok1 q2 stale] by simp
  have X3: "edge_waiters sc3 = X" by (simp add: sc3_def X2)
  have rv3: "registration_valid sc3 = registration_valid sc2" by (rule registration_valid_cong) (simp add: sc3_def)
  have wk3: "woken_states sc3 regs = woken_states sc2 regs" by (simp add: woken_states_def rv3)
  have wk: "woken_states sc (reg # regs) =
      (if registration_valid sc reg then [reg_state reg] else []) @ woken_states sc2 regs"
    by (rule woken_states_step [OF rv])
  have frame: "ready_queue sc3 = ready_queue sc @ (if registration_valid sc reg then [reg_state reg] else [])"
    "phase_waiters sc3 = phase_waiters sc" "timers sc3 = timers sc" "now sc3 = now sc"
    "next_generation sc3 = next_generation sc"
    using rc by (simp_all add: resumed_core_def sc1 sc3_def)
  obtain sc' where IH: "resume_edge_list regs (resumed \<or> registration_valid sc reg) sc3 =
      Inr ((resumed \<or> registration_valid sc reg) \<or> woken_states sc3 regs \<noteq> [], sc')"
    "core_ok (with_queues (X[q := []]) sc')" "edge_waiters sc' = X"
    "ready_queue sc' = ready_queue sc3 @ woken_states sc3 regs"
    "\<forall>r. registration_valid sc' r \<longleftrightarrow> registration_valid sc3 r \<and> reg_state r \<notin> set (woken_states sc3 regs)"
    "phase_waiters sc' = phase_waiters sc3" "timers sc' = timers sc3" "now sc' = now sc3"
    "next_generation sc' = next_generation sc3"
    using Cons.IH [OF ok3 Cons.prems(2) X3, of "resumed \<or> registration_valid sc reg"] by blast
  have step: "resume_edge_list (reg # regs) resumed sc = resume_edge_list regs (resumed \<or> registration_valid sc reg) sc3"
    by (simp add: r2 sc3_def)
  show ?case
  proof (intro exI [of _ sc'] conjI allI)
    show "resume_edge_list (reg # regs) resumed sc = Inr (resumed \<or> woken_states sc (reg # regs) \<noteq> [], sc')"
      unfolding step IH(1) wk wk3 by auto
    show "registration_valid sc' r \<longleftrightarrow> registration_valid sc r \<and> reg_state r \<notin> set (woken_states sc (reg # regs))" for r
      using IH(5) rv unfolding wk wk3 rv3 by auto
    show "ready_queue sc' = ready_queue sc @ woken_states sc (reg # regs)"
      unfolding IH(4) frame wk wk3 by simp
  qed (use IH frame in simp_all)
qed

lemma resume_edge_queue_ok:
  fixes sc :: "'a sched_core_scheme" and q :: nat
  assumes ok: "core_ok sc"
  defines "regs \<equiv> lookup_or [] (edge_waiters sc) q"
  obtains sc' where "resume_edge_queue q sc = Inr (woken_states sc regs \<noteq> [], sc')" "core_ok sc'"
    "edge_waiters sc' = (edge_waiters sc)[q := []]"
    "ready_queue sc' = ready_queue sc @ woken_states sc regs"
    "\<And>r. registration_valid sc' r \<longleftrightarrow> registration_valid sc r \<and> reg_state r \<notin> set (woken_states sc regs)"
    "phase_waiters sc' = phase_waiters sc" "timers sc' = timers sc" "now sc' = now sc"
    "next_generation sc' = next_generation sc"
proof (cases "q < length (edge_waiters sc)")
  case True
  then have regs: "regs = edge_waiters sc ! q" by (simp add: regs_def lookup_or_def)
  have "core_ok (with_queues ((edge_waiters sc)[q := regs]) sc)" using ok by (simp add: regs)
  from resume_edge_list_ok [OF this True refl, of False] obtain sc1 where
    "resume_edge_list regs False sc = Inr (woken_states sc regs \<noteq> [], sc1)"
    "core_ok (with_queues ((edge_waiters sc)[q := []]) sc1)" "edge_waiters sc1 = edge_waiters sc"
    "ready_queue sc1 = ready_queue sc @ woken_states sc regs"
    "\<forall>r. registration_valid sc1 r \<longleftrightarrow> registration_valid sc r \<and> reg_state r \<notin> set (woken_states sc regs)"
    "phase_waiters sc1 = phase_waiters sc" "timers sc1 = timers sc" "now sc1 = now sc"
    "next_generation sc1 = next_generation sc"
    by auto
  with True show ?thesis
    by (intro that [of "with_queues ((edge_waiters sc)[q := []]) sc1"])
      (simp_all add: resume_edge_queue_def regs with_queues_def [symmetric])
next
  case False
  then have "regs = []" by (simp add: regs_def lookup_or_def)
  with False ok show ?thesis
    by (intro that [of sc]) (simp_all add: resume_edge_queue_def woken_states_def list_update_beyond)
qed

lemma core_ok_phase [simp]: "core_ok (sc\<lparr>current_phase := p\<rparr>) = core_ok sc"
  unfolding core_ok_def core_defs regs_known_def stale_of_def valid_of_def registration_valid_def by simp

lemma core_ok_now [simp]: "core_ok (sc\<lparr>now := t\<rparr>) = core_ok sc"
  unfolding core_ok_def core_defs regs_known_def stale_of_def valid_of_def registration_valid_def by simp

lemma core_ok_wait_registered [simp]: "core_ok (sc\<lparr>wait_registered := b\<rparr>) = core_ok sc"
  unfolding core_ok_def core_defs regs_known_def stale_of_def valid_of_def registration_valid_def by simp

lemma first_occurrences_append:
  "first_occurrences (xs @ ys) = first_occurrences xs @ filter (\<lambda>y. y \<notin> set xs) (first_occurrences ys)"
  by (induction xs) (auto simp: filter_empty_conv intro: filter_cong)

lemma set_first_occurrences [simp]: "set (first_occurrences xs) = set xs"
  by (induction xs) auto

lemma distinct_first_occurrences [simp]: "distinct (first_occurrences xs)"
  by (induction xs) auto

lemma woken_states_append:
  assumes "\<And>r. registration_valid sc' r \<longleftrightarrow> registration_valid sc r \<and> reg_state r \<notin> set (woken_states sc as)"
  shows "woken_states sc (as @ bs) = woken_states sc as @ woken_states sc' bs"
proof -
  have "map reg_state (filter (registration_valid sc') bs) =
      filter (\<lambda>j. j \<notin> set (woken_states sc as)) (map reg_state (filter (registration_valid sc) bs))"
    using assms by (induction bs) auto
  then show ?thesis by (simp add: woken_states_def first_occurrences_append first_occurrences_filter)
qed

lemma registration_valid_phase [simp]: "registration_valid (sc\<lparr>current_phase := p\<rparr>) = registration_valid sc"
  by (rule registration_valid_cong) simp

lemma woken_states_phase [simp]: "woken_states (sc\<lparr>current_phase := p\<rparr>) = woken_states sc"
  by (simp add: fun_eq_iff woken_states_def)

definition edge_listeners :: "'a sched_core_scheme \<Rightarrow> nat \<Rightarrow> edge_kind \<Rightarrow> registration list" where
  "edge_listeners sc s e = lookup_or [] (edge_waiters sc) (edge_queue_index s e)"

lemma wake_edge_ok:
  fixes sc :: "'a sched_core_scheme" and s :: nat and e :: edge_kind
  assumes ok: "core_ok sc"
  defines "regs \<equiv> edge_listeners sc s e @ (if e = AnyEdge then [] else edge_listeners sc s AnyEdge)"
  obtains sc' where "wake_edge s e sc = Inr (woken_states sc regs \<noteq> [], sc')" "core_ok sc'"
    "ready_queue sc' = ready_queue sc @ woken_states sc regs"
    "\<And>r. registration_valid sc' r \<longleftrightarrow> registration_valid sc r \<and> reg_state r \<notin> set (woken_states sc regs)"
    "edge_waiters sc' = (edge_waiters sc)[edge_queue_index s e := [], edge_queue_index s AnyEdge := []]"
proof -
  let ?sc = "sc\<lparr>current_phase := Evaluation\<rparr>"
  have ok0: "core_ok ?sc" using ok by simp
  obtain sc1 where 1: "resume_edge_queue (edge_queue_index s e) ?sc = Inr (woken_states sc (edge_listeners sc s e) \<noteq> [], sc1)"
    "core_ok sc1" "edge_waiters sc1 = (edge_waiters sc)[edge_queue_index s e := []]"
    "ready_queue sc1 = ready_queue sc @ woken_states sc (edge_listeners sc s e)"
    "\<And>r. registration_valid sc1 r \<longleftrightarrow> registration_valid sc r \<and> reg_state r \<notin> set (woken_states sc (edge_listeners sc s e))"
    using resume_edge_queue_ok [OF ok0, of "edge_queue_index s e"] by (auto simp: edge_listeners_def)
  show ?thesis
  proof (cases "e = AnyEdge")
    case True
    then show ?thesis using 1 by (intro that [of sc1]) (simp_all add: wake_edge_def regs_def Let_def)
  next
    case False
    have l: "lookup_or [] (edge_waiters sc1) (edge_queue_index s AnyEdge) = edge_listeners sc s AnyEdge"
      using False by (simp add: 1 edge_listeners_def lookup_or_def)
    obtain sc2 where 2: "resume_edge_queue (edge_queue_index s AnyEdge) sc1 =
        Inr (woken_states sc1 (edge_listeners sc s AnyEdge) \<noteq> [], sc2)"
      "core_ok sc2" "edge_waiters sc2 = (edge_waiters sc1)[edge_queue_index s AnyEdge := []]"
      "ready_queue sc2 = ready_queue sc1 @ woken_states sc1 (edge_listeners sc s AnyEdge)"
      "\<And>r. registration_valid sc2 r \<longleftrightarrow> registration_valid sc1 r \<and> reg_state r \<notin> set (woken_states sc1 (edge_listeners sc s AnyEdge))"
      using resume_edge_queue_ok [OF 1(2), of "edge_queue_index s AnyEdge"] unfolding l by blast
    have w: "woken_states sc regs = woken_states sc (edge_listeners sc s e) @ woken_states sc1 (edge_listeners sc s AnyEdge)"
      using woken_states_append [OF 1(5)] False by (simp add: regs_def)
    show ?thesis
    proof (rule that [of sc2])
      show "wake_edge s e sc = Inr (woken_states sc regs \<noteq> [], sc2)"
        using False by (simp add: wake_edge_def 1 2 w Let_def)
    qed (use 2 in \<open>auto simp: 1 w\<close>)
  qed
qed

end
