(* ===== verification/SchedWaking.thy ===== *)
theory SchedWaking
  imports SchedInvariants
begin

text \<open>
  Waking by phase and by time, parking, registering and compaction: each keeps the scheduler's
  invariant. Timers fire by deadline and, at equal deadlines, in registration order.
\<close>

section \<open>Waking a phase\<close>

lemma wake_list_ok:
  assumes "core_ok sc"
  shows "\<exists>sc'. resume_phase_list regs resumed sc = Inr (resumed \<or> woken_states sc regs \<noteq> [], sc') \<and>
    core_ok sc' \<and> phase_waiters sc' = phase_waiters sc \<and>
    ready_queue sc' = ready_queue sc @ woken_states sc regs \<and>
    (\<forall>r. registration_valid sc' r \<longleftrightarrow> registration_valid sc r \<and> reg_state r \<notin> set (woken_states sc regs))"
  using assms
proof (induction regs arbitrary: sc resumed)
  case Nil
  then show ?case by (simp add: woken_states_def)
next
  case (Cons reg regs)
  obtain sc1 where r1: "resume_registration reg sc = Inr (registration_valid sc reg, sc1)"
    and rc: "resumed_core reg sc sc1"
    using resume_registration_ok [OF Cons.prems] by blast
  have rv: "\<forall>r. registration_valid sc1 r \<longleftrightarrow>
      registration_valid sc r \<and> \<not> (registration_valid sc reg \<and> reg_state r = reg_state reg)"
    and ok1: "core_ok sc1" using rc by (simp_all add: resumed_core_def)
  note wk = woken_states_step [OF rv, of regs]
  obtain sc' where IH: "resume_phase_list regs (resumed \<or> registration_valid sc reg) sc1 =
      Inr ((resumed \<or> registration_valid sc reg) \<or> woken_states sc1 regs \<noteq> [], sc')"
    "core_ok sc'" "phase_waiters sc' = phase_waiters sc1"
    "ready_queue sc' = ready_queue sc1 @ woken_states sc1 regs"
    "\<forall>r. registration_valid sc' r \<longleftrightarrow> registration_valid sc1 r \<and> reg_state r \<notin> set (woken_states sc1 regs)"
    using Cons.IH [OF ok1, of "resumed \<or> registration_valid sc reg"] by blast
  show ?case
  proof (intro exI [of _ sc'] conjI allI)
    show "resume_phase_list (reg # regs) resumed sc = Inr (resumed \<or> woken_states sc (reg # regs) \<noteq> [], sc')"
      using r1 IH(1) wk by auto
    show "registration_valid sc' r \<longleftrightarrow> registration_valid sc r \<and> reg_state r \<notin> set (woken_states sc (reg # regs))" for r
      using IH(5) rv wk by auto
    show "ready_queue sc' = ready_queue sc @ woken_states sc (reg # regs)"
      using IH(4) rc wk by (simp add: resumed_core_def)
  qed (use IH rc in \<open>simp_all add: resumed_core_def\<close>)
qed

lemma core_ok_frame:
  assumes ok: "core_ok a"
    and same: "states b = states a" "length (diags b) = length (diags a)" "interest b = interest a"
      "edge_waiters b = edge_waiters a" "edge_entries b = edge_entries a" "stale_regs b = stale_regs a"
      "falling_regs b = falling_regs a" "phase_counts b = phase_counts a"
      "phase_by_state b = phase_by_state a" "ready_queue b = ready_queue a" "ready_cursor b = ready_cursor a"
      "live_ready b = live_ready a" "next_generation b = next_generation a" "free_states b = free_states a"
    and ph: "\<forall>p<3. regs_known a (phase_waiters b p)" and ti: "regs_known a (timer_regs (timers b))"
  shows "core_ok b"
proof -
  have known: "regs_known b = regs_known a" using same by (simp add: fun_eq_iff regs_known_def)
  have valid: "registration_valid b = registration_valid a" by (rule registration_valid_cong) (rule same)
  have counts: "stale_of b = stale_of a" "valid_of b = valid_of a"
    by (simp_all add: fun_eq_iff stale_of_def valid_of_def valid)
  show ?thesis
    using ok ph ti unfolding core_ok_def core_defs same known counts by blast
qed

lemma core_ok_new_phases:
  assumes "core_ok sc" "\<forall>p<3. regs_known sc (x p)"
  shows "core_ok (sc\<lparr>phase_waiters := x\<rparr>)"
  using core_okD(7) [OF assms(1)] by (intro core_ok_frame [OF assms(1)]) (simp_all add: assms)

lemma core_ok_new_timers:
  assumes "core_ok sc" "regs_known sc (timer_regs tq)"
  shows "core_ok (sc\<lparr>timers := tq\<rparr>)"
  using core_okD(5) [OF assms(1)] by (intro core_ok_frame [OF assms(1)]) (simp_all add: assms phases_ok_def)

lemma wake_phase_ok:
  fixes sc :: "'a sched_core_scheme"
  assumes ok: "core_ok sc" and p: "phase_wait_index kind = Inr p" "simulation_phase_of kind = Inr ph"
  obtains sc' where
    "wake_phase kind sc = Inr (woken_states sc (phase_waiters sc p) \<noteq> [], sc')" "core_ok sc'"
    "ready_queue sc' = ready_queue sc @ woken_states sc (phase_waiters sc p)"
    "phase_waiters sc' p = []"
    "\<And>r. registration_valid sc' r \<longleftrightarrow>
       registration_valid sc r \<and> reg_state r \<notin> set (woken_states sc (phase_waiters sc p))"
proof -
  let ?sc = "sc\<lparr>current_phase := ph\<rparr>"
  obtain sc1 where 1: "resume_phase_list (phase_waiters sc p) False ?sc =
      Inr (woken_states sc (phase_waiters sc p) \<noteq> [], sc1)" "core_ok sc1" "phase_waiters sc1 = phase_waiters sc"
    "ready_queue sc1 = ready_queue sc @ woken_states sc (phase_waiters sc p)"
    "\<And>r. registration_valid sc1 r \<longleftrightarrow> registration_valid sc r \<and> reg_state r \<notin> set (woken_states sc (phase_waiters sc p))"
    using wake_list_ok [of ?sc "phase_waiters sc p" False] ok by auto
  let ?x = "(phase_waiters sc1)(p := [])"
  have "\<forall>q<3. regs_known sc1 (?x q)"
    using core_okD(5) [OF 1(2)] by (simp add: phases_ok_def regs_known_def)
  from core_ok_new_phases [OF 1(2) this] have "core_ok (sc1\<lparr>phase_waiters := ?x\<rparr>)" .
  moreover have "registration_valid (sc1\<lparr>phase_waiters := ?x\<rparr>) = registration_valid sc1"
    by (rule registration_valid_cong) simp
  ultimately show ?thesis
    by (intro that [of "sc1\<lparr>phase_waiters := ?x\<rparr>"]) (simp_all add: wake_phase_def p 1 Let_def)
qed

section \<open>Timers\<close>

definition timer_list :: "'w timer_queue \<Rightarrow> 'w timer list" where
  "timer_list tq = (case tq_next tq of None \<Rightarrow> [] | Some t \<Rightarrow> [t]) @ tq_waiters tq"

lemma timer_regs_list: "timer_regs tq = map t_wait (timer_list tq)"
  by (simp add: timer_regs_def timer_list_def)

lemma timer_list_discard: "timer_list (discard_stale_timers valid tq) = dropWhile (\<lambda>t. \<not> valid (t_wait t)) (timer_list tq)"
proof (induction valid tq rule: discard_stale_timers.induct)
  case (1 valid tq)
  show ?case
  proof (cases "case tq_next tq of None \<Rightarrow> False | Some t \<Rightarrow> valid (t_wait t)")
    case True
    then show ?thesis by (subst discard_stale_timers.simps) (auto simp: timer_list_def split: option.splits)
  next
    case False
    define tq' where "tq' = (case tq_next tq of None \<Rightarrow> tq | Some _ \<Rightarrow> tq\<lparr>tq_next := None, tq_changed := True\<rparr>)"
    have w: "tq_waiters tq' = tq_waiters tq" "tq_next tq' = None"
      by (auto simp: tq'_def split: option.splits)
    have eq: "discard_stale_timers valid tq =
        (case tq_waiters tq' of [] \<Rightarrow> tq'
         | t # ts \<Rightarrow> discard_stale_timers valid (tq'\<lparr>tq_next := Some t, tq_waiters := ts\<rparr>))"
      by (subst discard_stale_timers.simps) (simp add: False tq'_def [symmetric] Let_def)
    have drop: "dropWhile (\<lambda>t. \<not> valid (t_wait t)) (timer_list tq) = dropWhile (\<lambda>t. \<not> valid (t_wait t)) (tq_waiters tq)"
      using False by (auto simp: timer_list_def split: option.splits)
    show ?thesis
    proof (cases "tq_waiters tq'")
      case Nil
      then show ?thesis using w drop by (simp add: eq timer_list_def split: option.splits)
    next
      case (Cons t ts)
      have "timer_list (tq'\<lparr>tq_next := Some t, tq_waiters := ts\<rparr>) = tq_waiters tq"
        using Cons w by (simp add: timer_list_def)
      then show ?thesis using 1 [OF False tq'_def Cons] drop by (simp add: eq Cons)
    qed
  qed
qed

lemma discard_none: "tq_next (discard_stale_timers valid tq) = None \<Longrightarrow> tq_waiters (discard_stale_timers valid tq) = []"
proof (induction valid tq rule: discard_stale_timers.induct)
  case (1 valid tq)
  show ?case
  proof (cases "case tq_next tq of None \<Rightarrow> False | Some t \<Rightarrow> valid (t_wait t)")
    case True
    then show ?thesis using "1.prems" by (subst (asm) discard_stale_timers.simps) (auto split: option.splits)
  next
    case False
    define tq' where "tq' = (case tq_next tq of None \<Rightarrow> tq | Some _ \<Rightarrow> tq\<lparr>tq_next := None, tq_changed := True\<rparr>)"
    have eq: "discard_stale_timers valid tq =
        (case tq_waiters tq' of [] \<Rightarrow> tq'
         | t # ts \<Rightarrow> discard_stale_timers valid (tq'\<lparr>tq_next := Some t, tq_waiters := ts\<rparr>))"
      by (subst discard_stale_timers.simps) (simp add: False tq'_def [symmetric] Let_def)
    show ?thesis
      using "1.IH" [OF False tq'_def] "1.prems" unfolding eq by (cases "tq_waiters tq'") simp_all
  qed
qed

lemma discard_next: "tq_next (discard_stale_timers valid tq) =
   (case dropWhile (\<lambda>t. \<not> valid (t_wait t)) (timer_list tq) of [] \<Rightarrow> None | t # ts \<Rightarrow> Some t)"
  unfolding timer_list_discard [symmetric] using discard_none [of valid tq]
  by (auto simp: timer_list_def split: option.splits list.splits)

text \<open>The timers in the order they fire; \<open>push\<close> inserts into it.\<close>

definition timer_order :: "'w timer \<Rightarrow> 'w timer \<Rightarrow> bool" where
  "timer_order a b \<longleftrightarrow> \<not> timer_later a b"

lemma timer_order_iff:
  "timer_order a b \<longleftrightarrow> t_deadline a < t_deadline b \<or> t_deadline a = t_deadline b \<and> t_sequence a \<le> t_sequence b"
  by (auto simp: timer_order_def timer_later_def)

lemma timer_order_trans: "timer_order a b \<Longrightarrow> timer_order b c \<Longrightarrow> timer_order a c"
  by (auto simp: timer_order_iff)

lemma timer_order_total: "timer_order a b \<or> timer_order b a"
  by (auto simp: timer_order_iff)

lemma set_pq_push [simp]: "set (pq_push t ts) = insert t (set ts)"
  by (induction ts) auto

lemma pq_push_sorted: "sorted_wrt timer_order ts \<Longrightarrow> sorted_wrt timer_order (pq_push t ts)"
proof (induction ts)
  case Nil
  then show ?case by simp
next
  case (Cons u us)
  show ?case
  proof (cases "timer_later t u")
    case True
    then have "timer_order u t" by (auto simp: timer_order_iff timer_later_def split: if_splits)
    then show ?thesis using Cons True by auto
  next
    case False
    then have "timer_order t u" by (simp add: timer_order_def)
    then show ?thesis using Cons.prems False by (auto intro: timer_order_trans)
  qed
qed

definition timers_ok :: "'w timer_queue \<Rightarrow> bool" where
  "timers_ok tq \<longleftrightarrow> sorted_wrt timer_order (timer_list tq) \<and>
     (tq_next tq = None \<longrightarrow> tq_waiters tq = []) \<and>
     (\<forall>t\<in>set (timer_list tq). t_sequence t < tq_sequence tq)"

lemma push_timer_list:
  assumes ok: "timers_ok tq" and fresh: "tq_sequence tq \<le> t_sequence t"
  shows "timer_list (push_timer t tq) = pq_push t (timer_list tq)"
proof (cases "tq_next tq")
  case None
  then show ?thesis using ok by (simp add: timers_ok_def push_timer_def timer_list_def)
next
  case (Some n)
  have push_first: "pq_push n ws = n # ws" if "\<forall>w\<in>set ws. timer_order n w" for ws
    using that by (cases ws) (auto simp: timer_order_def)
  have first: "\<forall>w\<in>set (tq_waiters tq). timer_order n w"
    using ok Some by (simp add: timers_ok_def timer_list_def)
  have "t_sequence n < t_sequence t"
    using ok fresh Some by (auto simp: timers_ok_def timer_list_def)
  then have "timer_later n t \<longleftrightarrow> \<not> timer_later t n" by (auto simp: timer_later_def)
  then show ?thesis
    using Some push_first [OF first] by (simp add: push_timer_def timer_list_def)
qed

lemma push_timer_ok:
  assumes "timers_ok tq" "t_sequence t = tq_sequence tq"
  shows "timers_ok ((push_timer t tq)\<lparr>tq_sequence := tq_sequence tq + 1\<rparr>)"
proof -
  have l: "timer_list ((push_timer t tq)\<lparr>tq_sequence := tq_sequence tq + 1\<rparr>) = pq_push t (timer_list tq)"
    using push_timer_list [OF assms(1)] assms(2) by (simp add: timer_list_def)
  have "tq_next (push_timer t tq) \<noteq> None"
    by (simp add: push_timer_def split: option.splits)
  then show ?thesis
    unfolding timers_ok_def l using assms by (auto simp: timers_ok_def pq_push_sorted less_Suc_eq)
qed

lemma sorted_wrt_dropWhile: "sorted_wrt R xs \<Longrightarrow> sorted_wrt R (dropWhile P xs)"
  by (induction xs) auto

lemma tq_sequence_discard [simp]: "tq_sequence (discard_stale_timers valid tq) = tq_sequence tq"
proof (induction valid tq rule: discard_stale_timers.induct)
  case (1 valid tq)
  then show ?case
    by (subst discard_stale_timers.simps) (auto simp: Let_def split: option.splits list.splits)
qed

lemma discard_ok:
  assumes "timers_ok tq" shows "timers_ok (discard_stale_timers valid tq)"
  unfolding timers_ok_def timer_list_discard
  using assms discard_none [of valid tq]
  by (auto simp: timers_ok_def sorted_wrt_dropWhile dest: set_dropWhileD)

lemma woken_states_stale: "(\<forall>r\<in>set rs. \<not> registration_valid sc r) \<Longrightarrow> woken_states sc (rs @ rs') = woken_states sc rs'"
  by (simp add: woken_states_def filter_empty_conv [THEN iffD2])

lemma woken_states_none: "(\<forall>r\<in>set rs. \<not> registration_valid sc r) \<Longrightarrow> woken_states sc rs = []"
  using woken_states_stale [of rs sc "[]"] by (simp add: woken_states_def)

definition wait_list :: "u64 \<Rightarrow> registration timer list \<Rightarrow> registration list" where
  "wait_list time ts = map t_wait (filter (\<lambda>t. t_deadline t \<le> time) ts)"

lemma regs_known_timers: "regs_known (sc\<lparr>timers := tq\<rparr>) = regs_known sc"
  by (simp add: fun_eq_iff regs_known_def)

lemma registration_valid_timers [simp]: "registration_valid (sc\<lparr>timers := tq\<rparr>) = registration_valid sc"
  by (rule registration_valid_cong) simp

lemma wake_timers_ok:
  assumes "core_ok sc" "sorted_wrt timer_order (timer_list (timers sc))"
  shows "\<exists>popped' sc'. wake_timers popped resumed sc =
      Inr (popped', resumed \<or> woken_states sc (wait_list (now sc) (timer_list (timers sc))) \<noteq> [], sc') \<and>
    core_ok sc' \<and>
    ready_queue sc' = ready_queue sc @ woken_states sc (wait_list (now sc) (timer_list (timers sc))) \<and>
    (\<forall>r. registration_valid sc' r \<longleftrightarrow> registration_valid sc r \<and>
       reg_state r \<notin> set (woken_states sc (wait_list (now sc) (timer_list (timers sc))))) \<and>
    now sc' = now sc \<and> tq_sequence (timers sc') = tq_sequence (timers sc) \<and>
    sorted_wrt timer_order (timer_list (timers sc')) \<and>
    set (timer_list (timers sc')) \<subseteq> set (timer_list (timers sc)) \<and>
    (\<forall>t. tq_next (timers sc') = Some t \<longrightarrow> now sc < t_deadline t \<and> registration_valid sc' (t_wait t)) \<and>
    (tq_next (timers sc') = None \<longrightarrow> tq_waiters (timers sc') = [])"
  using assms
proof (induction popped resumed sc rule: wake_timers.induct)
  case (1 popped resumed sc)
  let ?stale = "\<lambda>t. \<not> registration_valid sc (t_wait t)"
  let ?L = "timer_list (timers sc)"
  define tq where "tq = discard_stale_timers (registration_valid sc) (timers sc)"
  have D: "timer_list tq = dropWhile ?stale ?L" by (simp add: tq_def timer_list_discard)
  have subD: "set (timer_list tq) \<subseteq> set ?L" by (auto simp: D dest: set_dropWhileD)
  have split: "?L = takeWhile ?stale ?L @ timer_list tq" by (simp add: D)
  have pre: "woken_states sc (wait_list (now sc) ?L) = woken_states sc (wait_list (now sc) (timer_list tq))"
  proof -
    have "wait_list (now sc) ?L = wait_list (now sc) (takeWhile ?stale ?L) @ wait_list (now sc) (timer_list tq)"
      by (subst split) (simp add: wait_list_def)
    moreover have "\<forall>r\<in>set (wait_list (now sc) (takeWhile ?stale ?L)). \<not> registration_valid sc r"
      by (auto simp: wait_list_def dest: set_takeWhileD)
    ultimately show ?thesis by (simp add: woken_states_stale)
  qed
  have sorted: "sorted_wrt timer_order (timer_list tq)" using "1.prems"(2) by (simp add: D sorted_wrt_dropWhile)
  have seq: "tq_sequence tq = tq_sequence (timers sc)" by (simp add: tq_def)
  have known: "regs_known sc (timer_regs tq)"
    using core_okD(7) [OF "1.prems"(1)] subD by (auto simp: regs_known_def timer_regs_list)
  have okt: "core_ok (sc\<lparr>timers := tq\<rparr>)" by (rule core_ok_new_timers [OF "1.prems"(1) known])
  have none: "tq_next tq = None \<Longrightarrow> tq_waiters tq = []" unfolding tq_def by (rule discard_none)
  show ?case
  proof (cases "tq_next tq")
    case None
    then have "timer_list tq = []" using none by (simp add: timer_list_def)
    moreover have "wake_timers popped resumed sc = Inr (popped, resumed, sc\<lparr>timers := tq\<rparr>)"
      by (subst wake_timers.simps) (simp add: tq_def [symmetric] None)
    ultimately show ?thesis
      using okt none None seq unfolding pre
      by (intro exI [of _ popped] exI [of _ "sc\<lparr>timers := tq\<rparr>"]) (simp add: wait_list_def woken_states_def)
  next
    case (Some t)
    have tl: "timer_list tq = t # tq_waiters tq" using Some by (simp add: timer_list_def)
    have vt: "registration_valid sc (t_wait t)"
      using tl D by (metis (mono_tags, lifting) hd_dropWhile list.sel(1) list.distinct(1))
    show ?thesis
    proof (cases "now sc < t_deadline t")
      case True
      have "wait_list (now sc) (timer_list tq) = []"
        using sorted True unfolding tl wait_list_def by (auto simp: filter_empty_conv timer_order_iff)
      moreover have "wake_timers popped resumed sc = Inr (popped, resumed, sc\<lparr>timers := tq\<rparr>)"
        using True by (subst wake_timers.simps) (simp add: tq_def [symmetric] Some)
      ultimately show ?thesis
        using okt Some seq True vt sorted subD unfolding pre
        by (intro exI [of _ popped] exI [of _ "sc\<lparr>timers := tq\<rparr>"]) (simp add: woken_states_def)
    next
      case False
      define tq1 where "tq1 = tq\<lparr>tq_next := None\<rparr>"
      define sc0 where "sc0 = sc\<lparr>timers := tq1\<rparr>"
      have "regs_known sc (timer_regs tq1)" using known by (simp add: regs_known_def timer_regs_def tq1_def Some)
      then have ok0: "core_ok sc0" unfolding sc0_def by (rule core_ok_new_timers [OF "1.prems"(1)])
      obtain sc1 where r1: "resume_registration (t_wait t) sc0 = Inr (True, sc1)" and rc: "resumed_core (t_wait t) sc0 sc1"
        using resume_registration_ok [OF ok0, of "t_wait t"] vt by (auto simp: sc0_def)
      have sc1: "core_ok sc1" "timers sc1 = tq1" "now sc1 = now sc" "ready_queue sc1 = ready_queue sc @ [reg_state (t_wait t)]"
        and rv: "\<forall>r. registration_valid sc1 r \<longleftrightarrow> registration_valid sc r \<and>
          \<not> (registration_valid sc (t_wait t) \<and> reg_state r = reg_state (t_wait t))"
        using rc vt by (simp_all add: resumed_core_def sc0_def)
      have tl1: "timer_list tq1 = tq_waiters tq" by (simp add: tq1_def timer_list_def)
      have sorted1: "sorted_wrt timer_order (timer_list (timers sc1))" using sorted by (simp add: sc1 tl1 tl)
      have step: "wake_timers popped resumed sc = wake_timers True True sc1"
        using False r1 by (subst wake_timers.simps) (simp add: tq_def [symmetric] Some sc0_def [symmetric] tq1_def [symmetric])
      have wk: "woken_states sc (wait_list (now sc) (timer_list tq)) =
          reg_state (t_wait t) # woken_states sc1 (wait_list (now sc1) (timer_list (timers sc1)))"
        using woken_states_step [OF rv, of "wait_list (now sc) (tq_waiters tq)"] False vt
        by (simp add: tl wait_list_def sc1 tl1 not_less)
      have subs: "set (timer_list (timers sc1)) \<subseteq> set ?L" using subD by (auto simp: sc1 tl1 tl)
      have "\<exists>popped' sc'. wake_timers True (resumed \<or> True) sc1 =
            Inr (popped', (resumed \<or> True) \<or> woken_states sc1 (wait_list (now sc1) (timer_list (timers sc1))) \<noteq> [], sc') \<and>
          core_ok sc' \<and>
          ready_queue sc' = ready_queue sc1 @ woken_states sc1 (wait_list (now sc1) (timer_list (timers sc1))) \<and>
          (\<forall>r. registration_valid sc' r \<longleftrightarrow> registration_valid sc1 r \<and>
             reg_state r \<notin> set (woken_states sc1 (wait_list (now sc1) (timer_list (timers sc1))))) \<and>
          now sc' = now sc1 \<and> tq_sequence (timers sc') = tq_sequence (timers sc1) \<and>
          sorted_wrt timer_order (timer_list (timers sc')) \<and>
          set (timer_list (timers sc')) \<subseteq> set (timer_list (timers sc1)) \<and>
          (\<forall>t. tq_next (timers sc') = Some t \<longrightarrow> now sc1 < t_deadline t \<and> registration_valid sc' (t_wait t)) \<and>
          (tq_next (timers sc') = None \<longrightarrow> tq_waiters (timers sc') = [])"
        using "1.IH" [OF tq_def Some, of "(True, sc1)" True sc1] False r1 sc1(1) sorted1
        by (simp add: sc0_def tq1_def not_less)
      then obtain popped' sc' where IH: "wake_timers True True sc1 = Inr (popped', True, sc')" "core_ok sc'"
        "ready_queue sc' = ready_queue sc1 @ woken_states sc1 (wait_list (now sc1) (timer_list (timers sc1)))"
        "\<forall>r. registration_valid sc' r \<longleftrightarrow> registration_valid sc1 r \<and>
           reg_state r \<notin> set (woken_states sc1 (wait_list (now sc1) (timer_list (timers sc1))))"
        "now sc' = now sc1" "tq_sequence (timers sc') = tq_sequence (timers sc1)"
        "sorted_wrt timer_order (timer_list (timers sc'))"
        "set (timer_list (timers sc')) \<subseteq> set (timer_list (timers sc1))"
        "\<forall>t. tq_next (timers sc') = Some t \<longrightarrow> now sc1 < t_deadline t \<and> registration_valid sc' (t_wait t)"
        "tq_next (timers sc') = None \<longrightarrow> tq_waiters (timers sc') = []" by auto
      show ?thesis
      proof (intro exI [of _ popped'] exI [of _ sc'] conjI allI)
        show "wake_timers popped resumed sc =
            Inr (popped', resumed \<or> woken_states sc (wait_list (now sc) ?L) \<noteq> [], sc')"
          using IH(1) by (simp add: step pre wk)
        show "ready_queue sc' = ready_queue sc @ woken_states sc (wait_list (now sc) ?L)"
          using IH(3) sc1(4) by (simp add: pre wk)
        show "registration_valid sc' r \<longleftrightarrow> registration_valid sc r \<and>
            reg_state r \<notin> set (woken_states sc (wait_list (now sc) ?L))" for r
          using IH(4) rv vt by (auto simp: pre wk)
        show "tq_sequence (timers sc') = tq_sequence (timers sc)" using IH(6) sc1 seq by (simp add: tq1_def)
        show "set (timer_list (timers sc')) \<subseteq> set ?L" using IH(8) subs by blast
      qed (use IH sc1 in simp_all)
    qed
  qed
qed

lemma wake_time_ok:
  fixes sc :: "'a sched_core_scheme" and t :: u64
  assumes ok: "core_ok sc" "timers_ok (timers sc)"
  defines "regs \<equiv> wait_list t (timer_list (timers sc))"
  obtains sc' where "wake_time t sc = Inr (woken_states sc regs \<noteq> [], sc')" "core_ok sc'"
    "timers_ok (timers sc')" "now sc' = t"
    "ready_queue sc' = ready_queue sc @ woken_states sc regs"
    "\<And>r. registration_valid sc' r \<longleftrightarrow> registration_valid sc r \<and> reg_state r \<notin> set (woken_states sc regs)"
    "\<And>u. u \<in> set (timer_list (timers sc')) \<Longrightarrow> t < t_deadline u"
proof -
  let ?sc = "sc\<lparr>current_phase := Evaluation, now := t\<rparr>"
  have ok0: "core_ok ?sc" using ok(1) by simp
  have valid0: "registration_valid ?sc = registration_valid sc" by (rule registration_valid_cong) simp
  have woken0: "woken_states ?sc = woken_states sc" by (simp add: fun_eq_iff woken_states_def valid0)
  show ?thesis
  proof (cases "\<exists>n. tq_next (timers sc) = Some n \<and> t_deadline n \<le> t")
    case False
    have late: "t < t_deadline u" if "u \<in> set (timer_list (timers sc))" for u
      using False ok(2) that by (cases "tq_next (timers sc)") (auto simp: timers_ok_def timer_list_def timer_order_iff not_le)
    then have "regs = []" by (auto simp: regs_def wait_list_def filter_empty_conv not_le)
    moreover have "wake_time t sc = Inr (False, ?sc)"
      using False by (auto simp: wake_time_def not_le Let_def split: option.splits)
    ultimately show ?thesis
      using late ok0 ok(2) by (intro that [of ?sc]) (simp_all add: woken_states_def valid0)
  next
    case True
    then obtain n where n: "tq_next (timers sc) = Some n" "\<not> t < t_deadline n" by (auto simp: not_less)
    have same0: "now ?sc = t" "timers ?sc = timers sc" "ready_queue ?sc = ready_queue sc" by simp_all
    have "sorted_wrt timer_order (timer_list (timers ?sc))" using ok(2) by (simp add: timers_ok_def)
    note w = wake_timers_ok [OF ok0 this, of False False, unfolded same0 valid0 woken0 simp_thms, folded regs_def]
    obtain popped sc1 where 1: "wake_timers False False ?sc = Inr (popped, woken_states sc regs \<noteq> [], sc1)"
      "core_ok sc1" "ready_queue sc1 = ready_queue sc @ woken_states sc regs"
      "\<And>r. registration_valid sc1 r \<longleftrightarrow> registration_valid sc r \<and> reg_state r \<notin> set (woken_states sc regs)"
      "now sc1 = t" "tq_sequence (timers sc1) = tq_sequence (timers sc)"
      "sorted_wrt timer_order (timer_list (timers sc1))"
      "set (timer_list (timers sc1)) \<subseteq> set (timer_list (timers sc))"
      "\<And>u. tq_next (timers sc1) = Some u \<Longrightarrow> t < t_deadline u"
      "tq_next (timers sc1) = None \<longrightarrow> tq_waiters (timers sc1) = []"
      using w by (elim exE conjE) (rule that; simp)
    have tok: "timers_ok (timers sc1)" using 1 ok(2) by (auto simp: timers_ok_def)
    have late: "t < t_deadline u" if "u \<in> set (timer_list (timers sc1))" for u
      using that 1(7,9,10) by (cases "tq_next (timers sc1)") (auto simp: timer_list_def timer_order_iff)
    let ?tq = "(timers sc1)\<lparr>tq_changed := True\<rparr>"
    have lst: "timer_list ?tq = timer_list (timers sc1)" by (simp add: timer_list_def)
    have "core_ok (sc1\<lparr>timers := ?tq\<rparr>)"
      using core_okD(7) [OF 1(2)] by (intro core_ok_new_timers [OF 1(2)]) (simp add: timer_regs_list lst)
    moreover have "timers_ok ?tq" using tok by (simp add: timers_ok_def lst)
    moreover have "wake_time t sc = Inr (woken_states sc regs \<noteq> [], if popped then sc1\<lparr>timers := ?tq\<rparr> else sc1)"
      using n 1(1) by (simp add: wake_time_def Let_def)
    ultimately show ?thesis
      using 1 tok late lst by (intro that [of "if popped then sc1\<lparr>timers := ?tq\<rparr> else sc1"]) (simp_all split: if_splits)
  qed
qed

section \<open>Parking\<close>

lemma clear_ready_states:
  "i < length (states sc) \<Longrightarrow> clear_ready i sc = sc\<lparr>states := (states sc)[i := (states sc ! i)\<lparr>cs_ready := False\<rparr>],
     live_ready := live_ready sc - (if cs_ready (states sc ! i) then 1 else 0)\<rparr>"
proof -
  assume i: "i < length (states sc)"
  show ?thesis
  proof (cases "cs_ready (states sc ! i)")
    case True
    then show ?thesis by (simp add: clear_ready_def upd_state_def)
  next
    case False
    then have "(states sc ! i)\<lparr>cs_ready := False\<rparr> = states sc ! i" by (cases "states sc ! i") simp
    then have "(states sc)[i := (states sc ! i)\<lparr>cs_ready := False\<rparr>] = states sc" by (metis list_update_id)
    then show ?thesis using False by (simp add: clear_ready_def)
  qed
qed

definition begun_core :: "nat \<Rightarrow> wait_reason \<Rightarrow> 'a sched_core_scheme \<Rightarrow> 'a sched_core_scheme" where
  "begun_core i reason sc =
     sc\<lparr>diags := (diags sc)[i := (diags sc ! i)\<lparr>wd_reason := reason, wd_has_wait := True,
           wd_started := now sc, wd_deadline := - 1, wd_progress := progress_of_reason reason\<rparr>],
        live_ready := live_ready sc - (if cs_ready (states sc ! i) then 1 else 0),
        next_generation := Suc (next_generation sc),
        states := (states sc)[i := (states sc ! i)\<lparr>cs_waiting := True, cs_ready := False,
           cs_generation := Suc (next_generation sc)\<rparr>]\<rparr>"

lemma fresh_generation_valid:
  assumes known: "regs_known sc regs" and st: "states sc' = (states sc)[i := s]"
    and s: "cs_generation s > next_generation sc" and nw: "\<not> cs_waiting (states sc ! i)" "i < length (states sc)"
    and r: "r \<in> set regs"
  shows "registration_valid sc' r = registration_valid sc r"
proof (cases "reg_state r = i")
  case True
  then show ?thesis
    using known r s nw st by (auto simp: registration_valid_def regs_known_def Let_def)
next
  case False
  then show ?thesis using registration_valid_other [OF st] by simp
qed

lemma begun_core_ok:
  assumes ok: "core_ok sc" and i: "i < length (states sc)"
    and s: "\<not> cs_waiting (states sc ! i)" "cs_handle (states sc ! i) \<noteq> None" "\<not> cs_done (states sc ! i)"
  shows "core_ok (begun_core i reason sc)"
proof -
  let ?sc = "begun_core i reason sc"
  let ?s = "(states sc ! i)\<lparr>cs_waiting := True, cs_ready := False, cs_generation := Suc (next_generation sc)\<rparr>"
  have st: "states ?sc = (states sc)[i := ?s]" by (simp add: begun_core_def)
  have gen: "next_generation ?sc = Suc (next_generation sc)" by (simp add: begun_core_def)
  have known: "regs_known ?sc regs" if "regs_known sc regs" for regs
    using that by (rule regs_known_mono) (simp_all add: st gen)
  have valid: "registration_valid ?sc r = registration_valid sc r" if "regs_known sc regs" "r \<in> set regs" for r regs
    by (rule fresh_generation_valid [OF that(1) st _ s(1) i that(2)]) simp
  have counts: "stale_of ?sc regs = stale_of sc regs" "valid_of ?sc j regs = valid_of sc j regs" if "regs_known sc regs" for j regs
    using valid [OF that] unfolding stale_of_def valid_of_def by (auto intro!: arg_cong [of _ _ length] filter_cong)
  have fields: "cs_edge_waits ((states sc)[i := ?s] ! j) = cs_edge_waits (states sc ! j)"
    "cs_falling_waits ((states sc)[i := ?s] ! j) = cs_falling_waits (states sc ! j)" for j
    using i by (cases "j = i"; simp)+
  show ?thesis
  proof (rule core_okI)
    show "shape_ok ?sc" using core_okD(1) [OF ok] by (simp add: shape_ok_def begun_core_def)
    have "slot_ok (Suc (next_generation sc)) x" if "slot_ok (next_generation sc) x" for x
      using that by (auto simp: slot_ok_def)
    moreover have "slot_ok (Suc (next_generation sc)) ?s" using slot_okI [OF ok i] s by (simp add: slot_ok_def)
    ultimately show "slots_ok ?sc"
      using core_okD(2) [OF ok] unfolding slots_ok_def st gen by (auto dest!: set_update_subset_insert [THEN subsetD])
    have ke: "regs_known sc (concat (edge_waiters sc))" using core_okD(3) [OF ok] by (simp add: edges_ok_def)
    have "edge_waiters ?sc = edge_waiters sc" "edge_entries ?sc = edge_entries sc" "stale_regs ?sc = stale_regs sc"
      by (simp_all add: begun_core_def)
    then show "edges_ok ?sc"
      using core_okD(3) [OF ok] known [OF ke] unfolding edges_ok_def by (simp add: counts [OF ke] st fields)
    have "map cs_falling_waits ((states sc)[i := ?s]) = map cs_falling_waits (states sc)"
      by (simp add: list_eq_iff_nth_eq fields)
    then show "interest_ok ?sc" using core_okD(4) [OF ok] by (simp add: interest_ok_def begun_core_def fields)
    have "\<not> cs_waiting ((states sc)[i := ?s] ! j) \<Longrightarrow> \<not> cs_waiting (states sc ! j)" for j
      using i by (cases "j = i") simp_all
    then show "phases_ok ?sc"
      using core_okD(5) [OF ok] known by (simp add: phases_ok_def st) (simp add: begun_core_def)
    have "length (filter cs_ready ((states sc)[i := ?s])) + (if cs_ready (states sc ! i) then 1 else 0)
        = length (filter cs_ready (states sc))"
      using filter_update_length [OF i, of cs_ready ?s] by simp
    then show "ready_ok ?sc"
      using core_okD(6) [OF ok] i by (auto simp add: ready_ok_def begun_core_def nth_list_update split: if_splits)
    show "regs_known ?sc (timer_regs (timers ?sc))"
      using known core_okD(7) [OF ok] by (simp add: begun_core_def)
    have "i \<notin> set (free_states sc)"
      using core_okD(8) [OF ok] s by (auto simp: free_ok_def coroutine_state_init_def)
    then show "free_ok ?sc"
      using core_okD(8) [OF ok] by (auto simp add: free_ok_def begun_core_def) (metis nth_list_update_neq)
  qed
qed

lemma begin_wait_eq:
  assumes "i < length (states sc)" "length (diags sc) = length (states sc)" "\<not> cs_waiting (states sc ! i)"
  shows "begin_wait i reason sc = Inr (Suc (next_generation sc), begun_core i reason sc)"
  using assms by (simp add: begin_wait_def begun_core_def upd_state_def upd_diag_def clear_ready_states Let_def)

section \<open>Registering\<close>

lemma filter_concat_push:
  "i < length xs \<Longrightarrow> length (filter P (concat (xs[i := xs ! i @ [r]]))) =
     length (filter P (concat xs)) + (if P r then 1 else 0)"
  by (induction xs arbitrary: i) (auto simp: nth_Cons split: nat.splits)

lemma length_concat_push:
  "i < length xs \<Longrightarrow> length (concat (xs[i := xs ! i @ [r]])) = length (concat xs) + 1"
  using filter_concat_push [of i xs "\<lambda>_. True" r] by simp

lemma set_concat_push:
  "i < length xs \<Longrightarrow> set (concat (xs[i := xs ! i @ [r]])) = insert r (set (concat xs))"
  by (induction xs arbitrary: i) (auto simp: nth_Cons split: nat.splits)

definition count_edge :: "bool \<Rightarrow> coroutine_state \<Rightarrow> coroutine_state" where
  "count_edge falling s =
     s\<lparr>cs_edge_waits := cs_edge_waits s + 1, cs_falling_waits := cs_falling_waits s + (if falling then 1 else 0)\<rparr>"

lemma count_edge_simps [simp]:
  "cs_waiting (count_edge f s) = cs_waiting s" "cs_handle (count_edge f s) = cs_handle s"
  "cs_done (count_edge f s) = cs_done s" "cs_ready (count_edge f s) = cs_ready s"
  "cs_generation (count_edge f s) = cs_generation s" "cs_edge_waits (count_edge f s) = cs_edge_waits s + 1"
  "cs_falling_waits (count_edge f s) = cs_falling_waits s + (if f then 1 else 0)"
  by (simp_all add: count_edge_def)

lemma count_edge_rising: "count_edge False x = x\<lparr>cs_edge_waits := Suc (cs_edge_waits x)\<rparr>"
  by (cases x) (simp add: count_edge_def)

lemma register_edge_wait_eq:
  assumes "reg_state reg < length (states sc)"
  shows "register_edge_wait s e reg sc =
    (let q = edge_queue_index s e; X = grow (q + 1) [] (edge_waiters sc); f = (e \<noteq> Rising) in
     sc\<lparr>wait_registered := True, edge_waiters := X[q := X ! q @ [reg]], edge_entries := edge_entries sc + 1,
        interest := add_edge_interest (reg_state reg) q (interest sc),
        falling_regs := falling_regs sc + (if f then 1 else 0),
        states := (states sc)[reg_state reg := count_edge f (states sc ! reg_state reg)]\<rparr>)"
proof (cases e)
  case Rising
  then show ?thesis using assms by (simp add: register_edge_wait_def Let_def upd_state_def count_edge_rising)
next
  case Falling
  then show ?thesis using assms by (simp add: register_edge_wait_def Let_def upd_state_def count_edge_def)
next
  case AnyEdge
  then show ?thesis using assms by (simp add: register_edge_wait_def Let_def upd_state_def count_edge_def)
qed

lemma register_edge_wait_ok:
  assumes ok: "core_ok sc" and v: "registration_valid sc reg"
  shows "core_ok (register_edge_wait s e reg sc)"
    and "registration_valid (register_edge_wait s e reg sc) = registration_valid sc"
    and "edge_listeners (register_edge_wait s e reg sc) s' e' =
      edge_listeners sc s' e' @ (if s' = s \<and> e' = e then [reg] else [])"
proof -
  let ?i = "reg_state reg"
  define q where "q = edge_queue_index s e"
  define f where "f = (e \<noteq> Rising)"
  define X where "X = grow (q + 1) [] (edge_waiters sc)"
  define sc' where "sc' = sc\<lparr>wait_registered := True, edge_waiters := X[q := X ! q @ [reg]],
        edge_entries := edge_entries sc + 1, interest := add_edge_interest ?i q (interest sc),
        falling_regs := falling_regs sc + (if f then 1 else 0),
        states := (states sc)[?i := count_edge f (states sc ! ?i)]\<rparr>"
  have i: "?i < length (states sc)" using valid_slot [OF ok v] by simp
  have eq: "register_edge_wait s e reg sc = sc'"
    using register_edge_wait_eq [OF i] by (simp add: sc'_def X_def q_def f_def Let_def)
  have q: "q < length X" by (simp add: X_def)
  have cX: "concat X = concat (edge_waiters sc)" by (simp add: X_def)
  have st: "states sc' = (states sc)[?i := count_edge f (states sc ! ?i)]" by (simp add: sc'_def)
  have valid: "registration_valid sc' = registration_valid sc"
    using i by (auto simp: fun_eq_iff registration_valid_def st nth_list_update Let_def)
  then show "registration_valid (register_edge_wait s e reg sc) = registration_valid sc" by (simp add: eq)
  have "q = edge_queue_index s' e' \<longleftrightarrow> s' = s \<and> e' = e" by (auto simp: q_def)
  then show "edge_listeners (register_edge_wait s e reg sc) s' e' =
      edge_listeners sc s' e' @ (if s' = s \<and> e' = e then [reg] else [])"
    unfolding eq edge_listeners_def using q
    by (auto simp: sc'_def X_def lookup_or_def nth_list_update nth_grow nth_grow_new split: if_splits)
  have counts: "stale_of sc' l = stale_of sc l" "valid_of sc' j l = valid_of sc j l" for j l
    unfolding stale_of_def valid_of_def valid by simp_all
  have known: "regs_known sc' = regs_known sc" by (simp add: fun_eq_iff regs_known_def sc'_def)
  have gen: "reg_generation reg \<le> next_generation sc"
    using slot_okI [OF ok i] v i by (simp add: slot_ok_def registration_valid_def Let_def)
  have fields: "cs_edge_waits ((states sc)[?i := count_edge f (states sc ! ?i)] ! j) =
      cs_edge_waits (states sc ! j) + (if j = ?i then 1 else 0)"
    "cs_waiting ((states sc)[?i := count_edge f (states sc ! ?i)] ! j) = cs_waiting (states sc ! j)"
    "cs_ready ((states sc)[?i := count_edge f (states sc ! ?i)] ! j) = cs_ready (states sc ! j)" for j
    using i by (cases "j = ?i"; simp)+
  have iok: "ei_ok (interest sc)" using core_okD(4) [OF ok] by (simp add: interest_ok_def)
  have lenI: "length (ei_indices (interest sc)) = length (states sc)"
    using core_okD(1) [OF ok] by (simp add: shape_ok_def)
  have idx: "ei_indices (add_edge_interest ?i q (interest sc)) =
      (if is_static_source (interest sc) (q div 3) then ei_indices (interest sc)
       else (ei_indices (interest sc))[?i := ei_indices (interest sc) ! ?i @ [q]])"
    using i by (simp add: ei_indices_add [OF iok] lenI grow_idle lookup_or_def)
  have "core_ok sc'"
  proof (rule core_okI)
    show "shape_ok sc'" using core_okD(1) [OF ok] by (simp add: shape_ok_def sc'_def idx)
    have "slot_ok (next_generation sc) (count_edge f (states sc ! ?i))"
      using slot_okI [OF ok i] by (simp add: slot_ok_def)
    then show "slots_ok sc'"
      using core_okD(2) [OF ok] unfolding slots_ok_def st
      by (auto simp: sc'_def dest!: set_update_subset_insert [THEN subsetD])
    have "stale_of sc (concat (X[q := X ! q @ [reg]])) = stale_of sc (concat (edge_waiters sc))"
      using filter_concat_push [OF q, of "\<lambda>r. \<not> registration_valid sc r" reg] v by (simp add: stale_of_def cX)
    moreover have "valid_of sc j (concat (X[q := X ! q @ [reg]])) =
        valid_of sc j (concat (edge_waiters sc)) + (if j = ?i then 1 else 0)" for j
      using filter_concat_push [OF q, of "\<lambda>r. registration_valid sc r \<and> reg_state r = j" reg] v
      by (simp add: valid_of_def cX)
    moreover have "regs_known sc (concat (X[q := X ! q @ [reg]]))"
      using core_okD(3) [OF ok] set_concat_push [OF q, of reg] i gen
      unfolding edges_ok_def regs_known_def by (simp add: cX del: set_concat)
    moreover have "edge_waiters sc' = X[q := X ! q @ [reg]]" "edge_entries sc' = edge_entries sc + 1"
      "stale_regs sc' = stale_regs sc" by (simp_all add: sc'_def)
    ultimately show "edges_ok sc'"
      using core_okD(3) [OF ok] length_concat_push [OF q, of reg]
      unfolding edges_ok_def known counts by (simp add: st fields cX)
    have "length (ei_indices (add_edge_interest ?i q (interest sc)) ! j) \<le>
        cs_edge_waits ((states sc)[?i := count_edge f (states sc ! ?i)] ! j)" if "j < length (states sc)" for j
      using core_okD(4) [OF ok] that i lenI unfolding interest_ok_def idx fields
      by (cases "j = ?i") (auto simp: le_SucI)
    moreover have "falling_regs sc + (if f then 1 else 0) =
        sum_list (map cs_falling_waits ((states sc)[?i := count_edge f (states sc ! ?i)]))"
      using core_okD(4) [OF ok] sum_list_update_nat [OF i, of cs_falling_waits "count_edge f (states sc ! ?i)"]
      by (auto simp add: interest_ok_def)
    ultimately show "interest_ok sc'"
      using iok by (simp add: interest_ok_def sc'_def add_edge_interest_ok)
    show "phases_ok sc'"
      using core_okD(5) [OF ok] unfolding phases_ok_def known by (simp add: sc'_def fields)
    have "length (filter cs_ready ((states sc)[?i := count_edge f (states sc ! ?i)])) = length (filter cs_ready (states sc))"
      using filter_update_length [OF i, of cs_ready "count_edge f (states sc ! ?i)"] by simp
    then show "ready_ok sc'"
      using core_okD(6) [OF ok] by (simp add: ready_ok_def sc'_def fields)
    show "regs_known sc' (timer_regs (timers sc'))"
      using core_okD(7) [OF ok] by (simp add: known) (simp add: sc'_def)
    have "?i \<notin> set (free_states sc)"
      using core_okD(8) [OF ok] valid_slot [OF ok v] by (auto simp: free_ok_def coroutine_state_init_def)
    then show "free_ok sc'"
      using core_okD(8) [OF ok] by (auto simp add: free_ok_def sc'_def) (metis nth_list_update_neq)
  qed
  then show "core_ok (register_edge_wait s e reg sc)" by (simp add: eq)
qed

lemma core_ok_diag: "core_ok (upd_diag i f sc) = core_ok sc"
  unfolding core_ok_def core_defs regs_known_def stale_of_def valid_of_def registration_valid_def upd_diag_def
  by simp

lemma registration_valid_diag [simp]: "registration_valid (upd_diag i f sc) = registration_valid sc"
  by (rule registration_valid_cong) (simp add: upd_diag_def)

lemma valid_reg_known: "core_ok sc \<Longrightarrow> registration_valid sc reg \<Longrightarrow> regs_known sc [reg]"
proof -
  assume ok: "core_ok sc" and v: "registration_valid sc reg"
  have i: "reg_state reg < length (states sc)" using valid_slot [OF ok v] by simp
  then show ?thesis
    using slot_okI [OF ok i] v by (simp add: slot_ok_def registration_valid_def regs_known_def Let_def)
qed

lemma timer_list_sequence [simp]: "timer_list (tq\<lparr>tq_sequence := n\<rparr>) = timer_list tq"
  by (simp add: timer_list_def)

lemma timer_list_changed [simp]: "timer_list (tq\<lparr>tq_changed := b\<rparr>) = timer_list tq"
  by (simp add: timer_list_def)

lemma timers_ok_changed [simp]: "timers_ok (tq\<lparr>tq_changed := b\<rparr>) = timers_ok tq"
  by (simp add: timers_ok_def)

lemma push_timer_sequence: "push_timer t (tq\<lparr>tq_sequence := n\<rparr>) = (push_timer t tq)\<lparr>tq_sequence := n\<rparr>"
  by (simp add: push_timer_def split: option.splits)

lemma register_delay_ok:
  fixes sc :: "'a sched_core_scheme"
  assumes ok: "core_ok sc" "timers_ok (timers sc)" and v: "registration_valid sc reg"
    and d: "validate_delay d sc = Inr ()"
  obtains sc' where "register_delay d reg sc = Inr sc'" "core_ok sc'" "timers_ok (timers sc')"
    "registration_valid sc' = registration_valid sc"
    "timer_list (timers sc') = pq_push \<lparr>t_deadline = timer_deadline d sc, t_sequence = tq_sequence (timers sc), t_wait = reg\<rparr>
       (dropWhile (\<lambda>t. \<not> registration_valid sc (t_wait t)) (timer_list (timers sc)))"
    "states sc' = states sc" "next_generation sc' = next_generation sc"
    "current_phase sc' = current_phase sc" "fs_per_tick sc' = fs_per_tick sc"
proof -
  define sc1 where "sc1 = upd_diag (reg_state reg) (\<lambda>d'. d'\<lparr>wd_deadline := min (wd_deadline d') (timer_deadline d sc)\<rparr>)
    (upd_diag (reg_state reg) (\<lambda>d. d\<lparr>wd_progress := wd_progress d OR progress_time\<rparr>) sc)"
  define tq where "tq = discard_stale_timers (registration_valid sc) (timers sc)"
  define t where "t = \<lparr>t_deadline = timer_deadline d sc, t_sequence = tq_sequence tq, t_wait = reg\<rparr>"
  define tq1 where "tq1 = (push_timer t tq)\<lparr>tq_sequence := tq_sequence tq + 1\<rparr>"
  define early where "early = (timer_deadline d sc < (case tq_next tq of None \<Rightarrow> - 1 | Some t \<Rightarrow> t_deadline t))"
  define tq2 where "tq2 = (if early then tq1\<lparr>tq_changed := True\<rparr> else tq1)"
  have frame: "timers sc1 = timers sc" "states sc1 = states sc" "next_generation sc1 = next_generation sc"
    "current_phase sc1 = current_phase sc" "fs_per_tick sc1 = fs_per_tick sc"
    by (simp_all add: sc1_def upd_diag_def)
  have val: "validate_delay d (upd_diag (reg_state reg) g sc) = Inr ()" for g
    using d by (auto simp add: validate_delay_def upd_diag_def split: if_splits)
  have dl: "timer_deadline d (upd_diag (reg_state reg) g sc) = timer_deadline d sc" for g
    by (simp add: timer_deadline_def upd_diag_def Let_def)
  have eq: "register_delay d reg sc = Inr (sc1\<lparr>timers := tq2\<rparr>)"
    unfolding register_delay_def Let_def val dl
    by (simp add: sc1_def [symmetric] next_timer_deadline_def Let_def frame push_timer_sequence
        tq2_def tq1_def t_def early_def tq_def) (simp add: sc1_def)
  have tok: "timers_ok tq" using discard_ok [OF ok(2)] by (simp add: tq_def)
  have tok2: "timers_ok tq2"
    using push_timer_ok [OF tok, of t] by (simp add: tq2_def tq1_def t_def)
  have tl: "timer_list tq2 = pq_push t (timer_list tq)"
    using push_timer_list [OF tok, of t] by (simp add: tq2_def tq1_def t_def)
  have "regs_known sc1 (timer_regs tq2)"
    using core_okD(7) [OF ok(1)] valid_reg_known [OF ok(1) v] unfolding timer_regs_list tl regs_known_def
    by (auto simp: frame t_def tq_def timer_list_discard dest: set_dropWhileD)
  then have "core_ok (sc1\<lparr>timers := tq2\<rparr>)"
    by (rule core_ok_new_timers [rotated]) (simp add: sc1_def core_ok_diag ok)
  moreover have "registration_valid (sc1\<lparr>timers := tq2\<rparr>) = registration_valid sc" by (simp add: sc1_def)
  ultimately show ?thesis
    using eq tok2 tl by (intro that [of "sc1\<lparr>timers := tq2\<rparr>"]) (simp_all add: frame t_def tq_def timer_list_discard)
qed

lemma register_phase_ok:
  fixes sc :: "'a sched_core_scheme"
  assumes ok: "core_ok sc" and v: "registration_valid sc reg"
    and k: "phase_wait_index kind = Inr p" "current_phase sc = PhaseReadOnly \<longrightarrow> kind = WaitNextTimeStep"
  obtains sc' where "register_phase kind reg sc = Inr sc'" "core_ok sc'"
    "registration_valid sc' = registration_valid sc" "timers sc' = timers sc"
    "phase_waiters sc' = (phase_waiters sc)(p := phase_waiters sc p @ [reg])"
    "states sc' = states sc" "next_generation sc' = next_generation sc"
    "current_phase sc' = current_phase sc" "fs_per_tick sc' = fs_per_tick sc"
proof -
  let ?i = "reg_state reg"
  define sc1 where "sc1 = upd_diag ?i (\<lambda>d. d\<lparr>wd_progress := wd_progress d OR progress_simulator\<rparr>) sc"
  define sc' where "sc' = sc1\<lparr>phase_waiters := (phase_waiters sc)(p := phase_waiters sc p @ [reg]),
    phase_counts := (phase_counts sc)(p := phase_counts sc p + 1),
    phase_by_state := (phase_by_state sc)[?i := (phase_by_state sc ! ?i)(p := (phase_by_state sc ! ?i) p + 1)]\<rparr>"
  have eq: "register_phase kind reg sc = Inr sc'"
    using k by (auto simp add: register_phase_def Let_def sc'_def sc1_def upd_diag_def)
  have p3: "p < 3" using k(1) by (rule phase_wait_index_less)
  note slot = valid_slot [OF ok v]
  have ok1: "core_ok sc1" using ok by (simp add: sc1_def core_ok_diag)
  have st: "states sc' = states sc" by (simp add: sc'_def sc1_def upd_diag_def)
  have valid: "registration_valid sc' = registration_valid sc" by (rule registration_valid_cong) (rule st)
  have len: "?i < length (phase_by_state sc)" using core_okD(1) [OF ok] slot(1) by (simp add: shape_ok_def)
  have "core_ok sc'"
  proof (rule core_okI)
    have "phases_ok sc'"
      unfolding phases_ok_def
    proof (intro conjI allI impI)
      fix r :: nat assume r: "r < 3"
      show "phase_counts sc' r = sum_list (map (\<lambda>f. f r) (phase_by_state sc'))"
        using core_okD(5) [OF ok] r
          sum_list_update_nat [OF len, of "\<lambda>f. f r" "(phase_by_state sc ! ?i)(p := (phase_by_state sc ! ?i) p + 1)"]
        by (auto simp add: phases_ok_def sc'_def sc1_def)
      show "regs_known sc' (phase_waiters sc' r)"
        using core_okD(5) [OF ok] r valid_reg_known [OF ok v]
        by (auto simp add: phases_ok_def sc'_def sc1_def upd_diag_def regs_known_def)
      fix j assume "j < length (states sc')" "\<not> cs_waiting (states sc' ! j)"
      then show "(phase_by_state sc' ! j) r = 0"
        using core_okD(5) [OF ok] r slot(2) st by (cases "j = ?i") (simp_all add: phases_ok_def sc'_def sc1_def)
    qed
    then show "phases_ok sc'" .
    have same: "edge_waiters sc' = edge_waiters sc" "next_generation sc' = next_generation sc"
      "edge_entries sc' = edge_entries sc" "stale_regs sc' = stale_regs sc" "timers sc' = timers sc"
      by (simp_all add: sc'_def sc1_def upd_diag_def)
    show "edges_ok sc'"
      using core_okD(3) [OF ok] unfolding edges_ok_def same st stale_of_def valid_of_def valid regs_known_def by simp
    show "regs_known sc' (timer_regs (timers sc'))"
      using core_okD(7) [OF ok] by (simp add: regs_known_def same st)
  qed (use core_okD [OF ok] in \<open>simp_all add: core_defs sc'_def sc1_def upd_diag_def\<close>)
  then show ?thesis
    using eq valid st by (intro that [of sc']) (simp_all add: sc'_def sc1_def upd_diag_def)
qed

section \<open>Compaction\<close>

lemma filter_filter_length: "length xs = length (filter P xs) + length (filter (\<lambda>x. \<not> P x) xs)"
  by (simp add: sum_length_filter_compl)

lemma removed_total:
  "sum_list (map2 (\<lambda>old new. length old - length new) qs (map (filter P) qs)) =
   length (filter (\<lambda>x. \<not> P x) (concat qs))"
proof (induction qs)
  case (Cons q qs)
  then show ?case using filter_filter_length [of q P] by simp
qed simp

lemma concat_map_filter: "concat (map (filter P) qs) = filter P (concat qs)"
  by (induction qs) auto

lemma compact_ok:
  assumes ok: "core_ok sc"
  shows "core_ok (compact_stale_edge_queues sc)"
    and "registration_valid (compact_stale_edge_queues sc) = registration_valid sc"
    and "compact_stale_edge_queues sc = sc \<or>
      (edge_waiters (compact_stale_edge_queues sc) = map (filter (registration_valid sc)) (edge_waiters sc) \<and>
       stale_regs (compact_stale_edge_queues sc) = 0)"
proof -
  let ?c = "map (filter (registration_valid sc)) (edge_waiters sc)"
  have "core_ok (compact_stale_edge_queues sc) \<and>
    registration_valid (compact_stale_edge_queues sc) = registration_valid sc \<and>
    (compact_stale_edge_queues sc = sc \<or>
      (edge_waiters (compact_stale_edge_queues sc) = ?c \<and> stale_regs (compact_stale_edge_queues sc) = 0))"
  proof (cases "stale_regs sc < 64 \<or> stale_regs sc * 2 < edge_entries sc")
    case True
    then show ?thesis using ok by (simp add: compact_stale_edge_queues_def)
  next
    case False
    have stale: "stale_regs sc = length (filter (\<lambda>r. \<not> registration_valid sc r) (concat (edge_waiters sc)))"
      "edge_entries sc = length (concat (edge_waiters sc))"
      using core_okD(3) [OF ok] by (simp_all add: edges_ok_def stale_of_def)
    define sc' where "sc' = sc\<lparr>edge_waiters := ?c, edge_entries := length (concat ?c), stale_regs := 0\<rparr>"
    have eq: "compact_stale_edge_queues sc = sc'"
      using False filter_filter_length [of "concat (edge_waiters sc)" "registration_valid sc"]
      unfolding compact_stale_edge_queues_def Let_def removed_total stale sc'_def concat_map_filter
      by (simp add: concat_map_filter)
    have valid: "registration_valid sc' = registration_valid sc" by (rule registration_valid_cong) (simp add: sc'_def)
    have "edges_ok sc'"
      using core_okD(3) [OF ok] unfolding edges_ok_def stale_of_def valid_of_def valid regs_known_def
      by (simp add: sc'_def concat_map_filter) (auto simp: conj_commute intro: filter_cong)
    then have "core_ok sc'" unfolding sc'_def by (rule core_ok_new_edges [OF ok])
    then show ?thesis using valid by (simp add: eq) (simp add: sc'_def)
  qed
  then show "core_ok (compact_stale_edge_queues sc)"
    and "registration_valid (compact_stale_edge_queues sc) = registration_valid sc"
    and "compact_stale_edge_queues sc = sc \<or>
      (edge_waiters (compact_stale_edge_queues sc) = ?c \<and> stale_regs (compact_stale_edge_queues sc) = 0)"
    by blast+
qed

end
