(* ===== verification/SchedSlots.thy ===== *)
theory SchedSlots
  imports SchedWaking
begin

text \<open>
  Parking a registered coroutine and adopting a new one: neither can abort on a well-formed
  scheduler whose requests the current phase accepts, and both keep the invariant.
\<close>

section \<open>Parking\<close>

text \<open>A request the scheduler accepts in its current phase.\<close>

definition request_ok :: "'a sched_core_scheme \<Rightarrow> wait_request \<Rightarrow> bool" where
  "request_ok sc req =
     (case req_kind req of
        WaitEdge \<Rightarrow> True
      | WaitDelay \<Rightarrow> is_ok (validate_delay (req_delay req) sc)
      | kind \<Rightarrow> current_phase sc = PhaseReadOnly \<longrightarrow> kind = WaitNextTimeStep)"

lemma request_ok_cong:
  "current_phase a = current_phase b \<Longrightarrow> fs_per_tick a = fs_per_tick b \<Longrightarrow> request_ok a r = request_ok b r"
  by (simp add: request_ok_def validate_delay_def split: wait_kind.splits)

lemma registration_valid_index [simp]: "registration_valid sc (reg\<lparr>reg_index := n\<rparr>) = registration_valid sc reg"
  by (simp add: registration_valid_def)

lemma register_edge_wait_frame [simp]:
  "timers (register_edge_wait s e reg sc) = timers sc"
  "current_phase (register_edge_wait s e reg sc) = current_phase sc"
  "fs_per_tick (register_edge_wait s e reg sc) = fs_per_tick sc"
  by (simp_all add: register_edge_wait_def Let_def upd_state_def)

lemma registration_valid_registered [simp]: "registration_valid (sc\<lparr>wait_registered := b\<rparr>) = registration_valid sc"
  by (rule registration_valid_cong) simp

lemma register_wait_ok:
  fixes sc :: "'a sched_core_scheme"
  assumes ok: "core_ok sc" "timers_ok (timers sc)" and v: "registration_valid sc reg"
    and req: "request_ok sc req"
  obtains sc' where "register_wait req reg sc = Inr sc'" "core_ok sc'" "timers_ok (timers sc')"
    "registration_valid sc' = registration_valid sc" "\<And>r. request_ok sc' r = request_ok sc r"
proof -
  let ?sc = "sc\<lparr>wait_registered := True\<rparr>"
  have okw: "core_ok ?sc" "timers_ok (timers ?sc)" using ok by simp_all
  have vw: "registration_valid ?sc reg" using v by simp
  note same = request_ok_cong [of _ sc]
  note got = that
  have phase: thesis if k: "req_kind req \<noteq> WaitEdge" "req_kind req \<noteq> WaitDelay"
  proof -
    obtain p where p: "phase_wait_index (req_kind req) = Inr p" using k by (cases "req_kind req") auto
    have c: "current_phase ?sc = PhaseReadOnly \<longrightarrow> req_kind req = WaitNextTimeStep"
      using req k by (auto simp: request_ok_def split: wait_kind.splits)
    obtain sc' where s: "register_phase (req_kind req) reg ?sc = Inr sc'" "core_ok sc'"
      "registration_valid sc' = registration_valid sc" "timers sc' = timers sc"
      "current_phase sc' = current_phase sc" "fs_per_tick sc' = fs_per_tick sc"
      using register_phase_ok [OF okw(1) vw p c] by auto
    have "register_wait req reg sc = Inr sc'"
      using k s(1) by (cases "req_kind req") (simp_all add: register_wait_def)
    then show thesis using s ok(2) same [of sc'] by (intro got [of sc']) simp_all
  qed
  show thesis
  proof (cases "req_kind req")
    case WaitEdge
    let ?d = "upd_diag (reg_state reg) (\<lambda>d. d\<lparr>wd_progress := wd_progress d OR progress_simulator\<rparr>) ?sc"
    have okd: "core_ok ?d" "registration_valid ?d reg" using okw vw by (simp_all add: core_ok_diag)
    let ?sc' = "register_edge_wait (req_signal req) (req_edge req) reg ?d"
    have t: "timers ?d = timers sc" "current_phase ?d = current_phase sc" "fs_per_tick ?d = fs_per_tick sc"
      by (simp_all add: upd_diag_def)
    have "request_ok ?sc' r = request_ok sc r" for r by (rule same) (simp_all add: t)
    moreover have "registration_valid ?sc' = registration_valid sc" using register_edge_wait_ok(2) [OF okd] by simp
    ultimately show thesis
      using register_edge_wait_ok(1) [OF okd] WaitEdge ok(2) t
      by (intro that [of ?sc']) (simp_all add: register_wait_def)
  next
    case WaitDelay
    then have "validate_delay (req_delay req) ?sc = Inr ()"
      using req by (auto simp: request_ok_def validate_delay_def is_ok_iff split: if_splits)
    from register_delay_ok [OF okw vw this] obtain sc' where
      s: "register_delay (req_delay req) reg ?sc = Inr sc'" "core_ok sc'" "timers_ok (timers sc')"
        "registration_valid sc' = registration_valid sc"
        "current_phase sc' = current_phase sc" "fs_per_tick sc' = fs_per_tick sc"
      by auto
    then show thesis using WaitDelay same [of sc'] by (intro that [of sc']) (simp_all add: register_wait_def)
  qed (auto intro: phase)
qed

lemma register_all_ok:
  assumes "core_ok sc" "timers_ok (timers sc)" "registration_valid sc reg" "\<forall>r\<in>set reqs. request_ok sc r"
  shows "\<exists>sc'. register_all reqs reg sc = Inr sc' \<and> core_ok sc' \<and> timers_ok (timers sc') \<and>
    registration_valid sc' = registration_valid sc"
  using assms
proof (induction reqs arbitrary: reg sc)
  case Nil
  then show ?case by simp
next
  case (Cons req reqs)
  obtain sc1 where 1: "register_wait req reg sc = Inr sc1" "core_ok sc1" "timers_ok (timers sc1)"
    "registration_valid sc1 = registration_valid sc" "\<And>r. request_ok sc1 r = request_ok sc r"
    using register_wait_ok [OF Cons.prems(1-3), of req] Cons.prems(4) by auto
  have "registration_valid sc1 (reg\<lparr>reg_index := reg_index reg + 1\<rparr>)"
    using Cons.prems(3) 1(4) by simp
  from Cons.IH [OF 1(2,3) this] Cons.prems(4) show ?case by (auto simp add: 1)
qed

lemma state_for_iff: "state_for h i sc = Inr j \<longleftrightarrow> j = i \<and> i < length (states sc) \<and> cs_handle (states sc ! i) = Some h"
  by (auto simp: state_for_def state_matches_def)

lemma begin_wait_ok:
  assumes ok: "core_ok sc" and i: "i < length (states sc)"
    and s: "cs_handle (states sc ! i) \<noteq> None" "\<not> cs_done (states sc ! i)"
  obtains sc' where "begin_wait i reason sc = Inr (next_generation sc + 1, sc')" "core_ok sc'"
    "timers sc' = timers sc" "current_phase sc' = current_phase sc" "fs_per_tick sc' = fs_per_tick sc"
    "next_generation sc' = next_generation sc + 1" "length (states sc') = length (states sc)"
    "cs_waiting (states sc' ! i)" "cs_generation (states sc' ! i) = next_generation sc + 1"
    "cs_handle (states sc' ! i) = cs_handle (states sc ! i)" "\<not> cs_done (states sc' ! i)"
proof -
  note got = that
  have base: thesis if ok1: "core_ok sc1" and l: "length (states sc1) = length (states sc)"
    and n: "\<not> cs_waiting (states sc1 ! i)" "cs_handle (states sc1 ! i) = cs_handle (states sc ! i)"
      "cs_done (states sc1 ! i) = cs_done (states sc ! i)"
    and f: "timers sc1 = timers sc" "current_phase sc1 = current_phase sc" "fs_per_tick sc1 = fs_per_tick sc"
      "next_generation sc1 = next_generation sc"
    and b: "begin_wait i reason sc = begin_wait i reason sc1" for sc1
  proof -
    have i1: "i < length (states sc1)" using i l by simp
    have "begin_wait i reason sc1 = Inr (next_generation sc1 + 1, begun_core i reason sc1)"
      using ok1 i1 n(1) by (simp add: begin_wait_eq core_ok_def shape_ok_def)
    moreover have "core_ok (begun_core i reason sc1)" using begun_core_ok [OF ok1 i1 n(1)] n s by simp
    ultimately show thesis
      using b f i1 l n s by (intro got [of "begun_core i reason sc1"]) (simp_all add: begun_core_def)
  qed
  show thesis
  proof (cases "cs_waiting (states sc ! i)")
    case True
    obtain ei where ei: "end_wait i sc = Inr (ended_core i ei sc)" "core_ok (ended_core i ei sc)"
      using end_wait_core [OF ok i True] ended_core_ok [OF ok i True] by blast
    have "begin_wait i reason sc = begin_wait i reason (ended_core i ei sc)"
      using True ei(1) i by (simp add: begin_wait_def)
    then show thesis using ei(2) i by (intro base [of "ended_core i ei sc"]) (simp_all add: ended_core_def)
  next
    case False
    then show thesis using ok by (intro base [of sc]) simp_all
  qed
qed

lemma park_first_ok:
  assumes ok: "core_ok sc" "timers_ok (timers sc)"
    and s: "i < length (states sc)" "cs_handle (states sc ! i) = Some h" "\<not> cs_done (states sc ! i)"
    and req: "\<forall>r\<in>set reqs. request_ok sc r"
  shows "\<exists>sc'. park_first h i reqs w reason sc = Inr sc' \<and> core_ok sc' \<and> timers_ok (timers sc') \<and>
    registration_valid sc' \<lparr>reg_state = i, reg_generation = next_generation sc + 1, reg_winner = Some w, reg_index = n\<rparr>"
proof -
  obtain sc1 where 1: "begin_wait i reason sc = Inr (next_generation sc + 1, sc1)" "core_ok sc1"
    "timers sc1 = timers sc" "current_phase sc1 = current_phase sc" "fs_per_tick sc1 = fs_per_tick sc"
    "length (states sc1) = length (states sc)"
    "cs_waiting (states sc1 ! i)" "cs_generation (states sc1 ! i) = next_generation sc + 1"
    "cs_handle (states sc1 ! i) = Some h" "\<not> cs_done (states sc1 ! i)"
    using begin_wait_ok [OF ok(1) s(1) _ s(3), of reason] s(2) by auto
  have v: "registration_valid sc1 \<lparr>reg_state = i, reg_generation = next_generation sc + 1, reg_winner = Some w, reg_index = k\<rparr>" for k
    using 1 s(1) by (simp add: registration_valid_def Let_def)
  have "\<forall>r\<in>set reqs. request_ok sc1 r"
    using req request_ok_cong [OF 1(4,5)] by simp
  from register_all_ok [OF 1(2) _ v [of 0] this] 1(3) ok(2) obtain sc' where
    "register_all reqs \<lparr>reg_state = i, reg_generation = next_generation sc + 1, reg_winner = Some w, reg_index = 0\<rparr> sc1 = Inr sc'"
    "core_ok sc'" "timers_ok (timers sc')" "registration_valid sc' = registration_valid sc1" by auto
  moreover have "state_for h i sc = Inr i" using s by (simp add: state_for_iff)
  ultimately show ?thesis using 1(1) v by (simp add: park_first_def)
qed

lemma park_ok:
  assumes ok: "core_ok sc" "timers_ok (timers sc)"
    and s: "i < length (states sc)" "cs_handle (states sc ! i) = Some h" "\<not> cs_done (states sc ! i)"
    and req: "request_ok sc req"
  shows "\<exists>sc'. park h i req reason w n sc = Inr sc' \<and> core_ok sc' \<and> timers_ok (timers sc') \<and>
    registration_valid sc' \<lparr>reg_state = i, reg_generation = next_generation sc + 1, reg_winner = w, reg_index = n\<rparr>"
proof -
  obtain sc1 where 1: "begin_wait i reason sc = Inr (next_generation sc + 1, sc1)" "core_ok sc1"
    "timers sc1 = timers sc" "current_phase sc1 = current_phase sc" "fs_per_tick sc1 = fs_per_tick sc"
    "length (states sc1) = length (states sc)"
    "cs_waiting (states sc1 ! i)" "cs_generation (states sc1 ! i) = next_generation sc + 1"
    "cs_handle (states sc1 ! i) = Some h" "\<not> cs_done (states sc1 ! i)"
    using begin_wait_ok [OF ok(1) s(1) _ s(3), of reason] s(2) by auto
  let ?r = "\<lparr>reg_state = i, reg_generation = next_generation sc + 1, reg_winner = w, reg_index = n\<rparr>"
  have v: "registration_valid sc1 ?r" using 1 s(1) by (simp add: registration_valid_def Let_def)
  have req1: "request_ok sc1 req"
    using req request_ok_cong [OF 1(4,5)] by simp
  have t1: "timers_ok (timers sc1)" using 1(3) ok(2) by simp
  obtain sc' where "register_wait req ?r sc1 = Inr sc'" "core_ok sc'" "timers_ok (timers sc')"
    "registration_valid sc' = registration_valid sc1"
    using register_wait_ok [OF 1(2) t1 v req1] by blast
  moreover have "state_for h i sc = Inr i" using s by (simp add: state_for_iff)
  ultimately show ?thesis using 1(1) v by (simp add: park_def)
qed

section \<open>Slots\<close>

lemma ei_ok_grow_indices: "ei_ok (ei\<lparr>ei_indices := grow n [] (ei_indices ei)\<rparr>) = ei_ok ei"
  by (simp add: ei_ok_def counts_ok_def del: set_concat)

definition append_slot :: "'a sched_core_scheme \<Rightarrow> 'a sched_core_scheme" where
  "append_slot sc = sc\<lparr>states := states sc @ [coroutine_state_init],
     diags := grow (length (states sc) + 1) wait_diag_init (diags sc),
     interest := (interest sc)\<lparr>ei_indices := grow (length (states sc) + 1) [] (ei_indices (interest sc))\<rparr>,
     phase_by_state := grow (length (states sc) + 1) (\<lambda>_. 0) (phase_by_state sc)\<rparr>"

lemma append_slot_ok:
  assumes ok: "core_ok sc"
  shows "core_ok (append_slot sc)"
proof -
  let ?n = "length (states sc)" and ?sc = "append_slot sc"
  have st: "states ?sc = states sc @ [coroutine_state_init]" by (simp add: append_slot_def)
  have same: "edge_waiters ?sc = edge_waiters sc" "next_generation ?sc = next_generation sc"
    "edge_entries ?sc = edge_entries sc" "stale_regs ?sc = stale_regs sc" "timers ?sc = timers sc"
    "phase_waiters ?sc = phase_waiters sc"
    by (simp_all add: append_slot_def)
  have known: "regs_known ?sc regs" if "regs_known sc regs" for regs
    using that by (rule regs_known_mono) (simp_all add: st same)
  have valid: "registration_valid ?sc = registration_valid sc"
    by (auto simp: fun_eq_iff registration_valid_def st nth_append Let_def coroutine_state_init_def)
  have fresh: "valid_of sc ?n regs = 0" for regs
    by (auto simp: valid_of_def filter_empty_conv registration_valid_def)
  show ?thesis
  proof (rule core_okI)
    show "shape_ok ?sc" using core_okD(1) [OF ok] by (simp add: shape_ok_def append_slot_def)
    show "slots_ok ?sc"
      using core_okD(2) [OF ok] by (simp add: slots_ok_def st same slot_ok_def coroutine_state_init_def)
    show "edges_ok ?sc"
      using core_okD(3) [OF ok] known fresh unfolding edges_ok_def same stale_of_def valid_of_def valid
      by (auto simp: st nth_append coroutine_state_init_def less_Suc_eq)
    show "interest_ok ?sc"
      using core_okD(1,4) [OF ok] unfolding interest_ok_def
      by (auto simp: append_slot_def ei_ok_grow_indices nth_grow nth_grow_new shape_ok_def nth_append less_Suc_eq coroutine_state_init_def)
    have ph: "phase_by_state ?sc = phase_by_state sc @ [\<lambda>_. 0]" "phase_counts ?sc = phase_counts sc"
      using core_okD(1) [OF ok] by (simp_all add: append_slot_def grow_def shape_ok_def)
    have "length (phase_by_state sc) = ?n" using core_okD(1) [OF ok] by (simp add: shape_ok_def)
    then show "phases_ok ?sc"
      using core_okD(5) [OF ok] known unfolding phases_ok_def same ph st
      by (auto simp: nth_append less_Suc_eq)
    show "ready_ok ?sc"
      using core_okD(6) [OF ok] unfolding ready_ok_def
      by (auto simp: append_slot_def nth_append less_Suc_eq coroutine_state_init_def)
    show "regs_known ?sc (timer_regs (timers ?sc))" using core_okD(7) [OF ok] known by (simp add: same)
    show "free_ok ?sc"
      using core_okD(8) [OF ok] by (auto simp: free_ok_def append_slot_def nth_append)
  qed
qed

definition fill_slot :: "nat \<Rightarrow> nat \<Rightarrow> 'a sched_core_scheme \<Rightarrow> 'a sched_core_scheme" where
  "fill_slot i h sc = sc\<lparr>states := (states sc)[i := coroutine_state_init\<lparr>cs_handle := Some h\<rparr>]\<rparr>"

lemma fill_slot_ok:
  assumes ok: "core_ok sc" and i: "i < length (states sc)" "states sc ! i = coroutine_state_init"
    and free: "i \<notin> set (free_states sc)"
  shows "core_ok (fill_slot i h sc)" "registration_valid (fill_slot i h sc) = registration_valid sc"
proof -
  let ?s = "coroutine_state_init\<lparr>cs_handle := Some h\<rparr>" and ?sc = "fill_slot i h sc"
  have st: "states ?sc = (states sc)[i := ?s]" by (simp add: fill_slot_def)
  show valid: "registration_valid ?sc = registration_valid sc"
    using i by (auto simp: fun_eq_iff registration_valid_def st nth_list_update Let_def coroutine_state_init_def)
  have known: "regs_known ?sc = regs_known sc" by (simp add: fun_eq_iff regs_known_def fill_slot_def)
  have fields: "cs_edge_waits ((states sc)[i := ?s] ! j) = cs_edge_waits (states sc ! j)"
    "cs_falling_waits ((states sc)[i := ?s] ! j) = cs_falling_waits (states sc ! j)"
    "cs_waiting ((states sc)[i := ?s] ! j) = cs_waiting (states sc ! j)"
    "cs_ready ((states sc)[i := ?s] ! j) = cs_ready (states sc ! j)" for j
    using i by (cases "j = i"; simp add: coroutine_state_init_def)+
  show "core_ok ?sc"
  proof (rule core_okI)
    have "slot_ok (next_generation sc) ?s" by (simp add: slot_ok_def coroutine_state_init_def)
    then show "slots_ok ?sc"
      using core_okD(2) [OF ok] unfolding slots_ok_def st
      by (auto simp: fill_slot_def dest!: set_update_subset_insert [THEN subsetD])
    show "edges_ok ?sc"
      using core_okD(3) [OF ok] unfolding edges_ok_def known stale_of_def valid_of_def valid
      by (simp add: fill_slot_def fields)
    have "map cs_falling_waits ((states sc)[i := ?s]) = map cs_falling_waits (states sc)"
      by (simp add: list_eq_iff_nth_eq fields)
    then show "interest_ok ?sc" using core_okD(4) [OF ok] by (simp add: interest_ok_def fill_slot_def fields)
    show "phases_ok ?sc" using core_okD(5) [OF ok] unfolding phases_ok_def known by (simp add: fill_slot_def fields)
    have "length (filter cs_ready ((states sc)[i := ?s])) = length (filter cs_ready (states sc))"
      using filter_update_length [OF i(1), of cs_ready ?s] i(2) by (simp add: coroutine_state_init_def)
    then show "ready_ok ?sc" using core_okD(6) [OF ok] by (simp add: ready_ok_def fill_slot_def fields)
    show "regs_known ?sc (timer_regs (timers ?sc))"
      using core_okD(7) [OF ok] by (simp add: known) (simp add: fill_slot_def)
    show "free_ok ?sc"
      using core_okD(8) [OF ok] free by (auto simp: free_ok_def fill_slot_def) (metis nth_list_update_neq)
  qed (use core_okD(1) [OF ok] in \<open>simp add: shape_ok_def fill_slot_def\<close>)
qed

lemma core_ok_take_free:
  assumes "core_ok sc" shows "core_ok (sc\<lparr>free_states := butlast (free_states sc)\<rparr>)"
proof -
  have "free_ok (sc\<lparr>free_states := butlast (free_states sc)\<rparr>)"
    using core_okD(8) [OF assms] by (auto simp: free_ok_def distinct_butlast dest: in_set_butlastD)
  moreover have v: "registration_valid (sc\<lparr>free_states := f\<rparr>) = registration_valid sc" for f
    by (rule registration_valid_cong) simp
  moreover have k: "regs_known (sc\<lparr>free_states := f\<rparr>) = regs_known sc" for f by (simp add: fun_eq_iff regs_known_def)
  have "edges_ok (sc\<lparr>free_states := f\<rparr>) = edges_ok sc" for f
    by (simp add: edges_ok_def k stale_of_def valid_of_def v)
  moreover have "phases_ok (sc\<lparr>free_states := f\<rparr>) = phases_ok sc" for f
    by (simp add: phases_ok_def k)
  ultimately show ?thesis
    using core_okD [OF assms]
    by (intro core_okI) (simp_all add: k shape_ok_def slots_ok_def interest_ok_def ready_ok_def)
qed

lemma core_ok_ids: "core_ok (sc\<lparr>next_coroutine_id := n, active_coroutines := m\<rparr>) = core_ok sc"
  unfolding core_ok_def core_defs regs_known_def stale_of_def valid_of_def registration_valid_def by simp

lemma adopt_state_new:
  assumes "core_ok sc" "free_states sc = []"
  shows "\<exists>d. adopt_state h sc = (length (states sc),
     upd_diag (length (states sc)) d ((fill_slot (length (states sc)) h (append_slot sc))
       \<lparr>next_coroutine_id := next_coroutine_id sc + 1, active_coroutines := active_coroutines sc + 1\<rparr>))"
  using assms
  by (intro exI [of _ "\<lambda>_. wait_diag_init\<lparr>wd_id := next_coroutine_id sc + 1\<rparr>"])
    (simp add: adopt_state_def Let_def append_slot_def fill_slot_def upd_state_def upd_diag_def)

lemma adopt_state_reuse:
  assumes "core_ok sc" "free_states sc \<noteq> []"
  shows "\<exists>d. adopt_state h sc = (last (free_states sc),
     upd_diag (last (free_states sc)) d ((fill_slot (last (free_states sc)) h
         (sc\<lparr>free_states := butlast (free_states sc)\<rparr>))
       \<lparr>next_coroutine_id := next_coroutine_id sc + 1, active_coroutines := active_coroutines sc + 1\<rparr>))"
proof -
  have "last (free_states sc) < length (states sc)"
    using core_okD(8) [OF assms(1)] assms(2) by (simp add: free_ok_def)
  then show ?thesis
    using core_okD(1) [OF assms(1)] assms(2)
    by (intro exI [of _ "\<lambda>_. wait_diag_init\<lparr>wd_id := next_coroutine_id sc + 1\<rparr>"])
      (simp add: adopt_state_def Let_def fill_slot_def upd_state_def upd_diag_def shape_ok_def grow_idle)
qed

lemma adopt_ok:
  assumes ok: "core_ok sc" and res: "adopt_state h sc = (i, sc')"
  shows "core_ok sc'" "i < length (states sc')" "states sc' ! i = coroutine_state_init\<lparr>cs_handle := Some h\<rparr>"
    "timers sc' = timers sc" "registration_valid sc' = registration_valid sc"
    "\<And>j. j < length (states sc) \<Longrightarrow> j \<noteq> i \<Longrightarrow> states sc' ! j = states sc ! j"
    "i < length (states sc) \<Longrightarrow> cs_handle (states sc ! i) = None"
proof -
  have "core_ok sc' \<and> i < length (states sc') \<and> states sc' ! i = coroutine_state_init\<lparr>cs_handle := Some h\<rparr> \<and>
    timers sc' = timers sc \<and> registration_valid sc' = registration_valid sc \<and>
    (\<forall>j. j < length (states sc) \<longrightarrow> j \<noteq> i \<longrightarrow> states sc' ! j = states sc ! j) \<and>
    (i < length (states sc) \<longrightarrow> cs_handle (states sc ! i) = None)"
  proof (cases "free_states sc = []")
    case True
    let ?n = "length (states sc)" and ?a = "append_slot sc"
    have a: "core_ok ?a" by (rule append_slot_ok [OF ok])
    have n: "?n < length (states ?a)" "states ?a ! ?n = coroutine_state_init" "?n \<notin> set (free_states ?a)"
      using True by (simp_all add: append_slot_def)
    have va: "registration_valid ?a = registration_valid sc"
      by (auto simp: fun_eq_iff registration_valid_def append_slot_def nth_append Let_def coroutine_state_init_def)
    have vi: "registration_valid (x\<lparr>next_coroutine_id := p, active_coroutines := q\<rparr>) = registration_valid x"
      for x :: "'a sched_core_scheme" and p q by (rule registration_valid_cong) simp
    obtain d where d: "adopt_state h sc = (?n, upd_diag ?n d ((fill_slot ?n h ?a)
       \<lparr>next_coroutine_id := next_coroutine_id sc + 1, active_coroutines := active_coroutines sc + 1\<rparr>))"
      using adopt_state_new [OF ok True] by blast
    then have eqs: "i = ?n" "sc' = upd_diag ?n d ((fill_slot ?n h ?a)
       \<lparr>next_coroutine_id := next_coroutine_id sc + 1, active_coroutines := active_coroutines sc + 1\<rparr>)"
      using res by simp_all
    have "core_ok sc'" "registration_valid sc' = registration_valid sc"
      using fill_slot_ok [OF a n] unfolding eqs by (simp_all only: core_ok_diag core_ok_ids registration_valid_diag vi va)
    then show ?thesis
      by (simp add: eqs(1)) (simp add: eqs(2) upd_diag_def fill_slot_def append_slot_def nth_append)
  next
    case False
    let ?n = "last (free_states sc)" and ?a = "sc\<lparr>free_states := butlast (free_states sc)\<rparr>"
    have a: "core_ok ?a" by (rule core_ok_take_free [OF ok])
    have fo: "free_ok sc" by (rule core_okD(8) [OF ok])
    have n: "?n < length (states ?a)" "states ?a ! ?n = coroutine_state_init"
      using fo False by (simp_all add: free_ok_def)
    have nf: "?n \<notin> set (free_states ?a)"
      using fo False by (cases "free_states sc" rule: rev_cases) (simp_all add: free_ok_def)
    have va: "registration_valid ?a = registration_valid sc" by (rule registration_valid_cong) simp
    have vi: "registration_valid (x\<lparr>next_coroutine_id := p, active_coroutines := q\<rparr>) = registration_valid x"
      for x :: "'a sched_core_scheme" and p q by (rule registration_valid_cong) simp
    obtain d where d: "adopt_state h sc = (?n, upd_diag ?n d ((fill_slot ?n h ?a)
       \<lparr>next_coroutine_id := next_coroutine_id sc + 1, active_coroutines := active_coroutines sc + 1\<rparr>))"
      using adopt_state_reuse [OF ok False] by blast
    then have eqs: "i = ?n" "sc' = upd_diag ?n d ((fill_slot ?n h ?a)
       \<lparr>next_coroutine_id := next_coroutine_id sc + 1, active_coroutines := active_coroutines sc + 1\<rparr>)"
      using res by simp_all
    have "core_ok sc'" "registration_valid sc' = registration_valid sc"
      using fill_slot_ok [OF a n nf] unfolding eqs by (simp_all only: core_ok_diag core_ok_ids registration_valid_diag vi va)
    moreover have "cs_handle (states sc ! ?n) = None" using n by (simp add: coroutine_state_init_def)
    ultimately show ?thesis
      using n by (simp add: eqs(1)) (simp add: eqs(2) upd_diag_def fill_slot_def)
  qed
  then show "core_ok sc'" "i < length (states sc')" "states sc' ! i = coroutine_state_init\<lparr>cs_handle := Some h\<rparr>"
    "timers sc' = timers sc" "registration_valid sc' = registration_valid sc"
    "\<And>j. j < length (states sc) \<Longrightarrow> j \<noteq> i \<Longrightarrow> states sc' ! j = states sc ! j"
    "i < length (states sc) \<Longrightarrow> cs_handle (states sc ! i) = None" by blast+
qed

end
