(* ===== verification/SchedProps.thy ===== *)
theory SchedProps
  imports SchedSlots
begin

text \<open>
  The properties of the scheduler's wait and wake bookkeeping, with a concrete scheduler on which
  each is applied.
\<close>

section \<open>A concrete scheduler\<close>

text \<open>
  One coroutine awaits the first of a rising edge of signal 0 and a delay of five femtoseconds,
  at one femtosecond per tick. The witnesses below are about this state.
\<close>

definition parked_demo :: sched_core where
  "parked_demo =
     (case result_bind (scheduler_init 1) (\<lambda>sc.
        let (i, sc) = adopt_state 7 sc in
        park_first 7 i [edge_on 0 Rising, delay_for 5] 3 ReasonFirst sc) of
        Inr sc \<Rightarrow> sc)"

definition demo_reg :: "nat \<Rightarrow> registration" where
  "demo_reg n = \<lparr>reg_state = 0, reg_generation = 1, reg_winner = Some 3, reg_index = n\<rparr>"

lemma parked_demo_listeners: "edge_listeners parked_demo 0 Rising = [demo_reg 0]"
  by code_simp

lemma parked_demo_woken: "woken_states parked_demo [demo_reg 0] = [0]"
  by code_simp

lemma parked_demo_timers:
  "map t_wait (timer_list (timers parked_demo)) = [demo_reg 1]"
  "map t_deadline (timer_list (timers parked_demo)) = [5]"
  by code_simp+

lemma parked_demo_ok: "core_ok parked_demo" "timers_ok (timers parked_demo)"
proof -
  obtain sc0 :: sched_core where 0: "scheduler_init 1 = Inr sc0" "timers sc0 = timer_queue_init"
    "states sc0 = []" "current_phase sc0 = Evaluation" "fs_per_tick sc0 = 1" "next_generation sc0 = 0"
    "free_states sc0 = []"
    by (auto simp: scheduler_init_def)
  obtain i sc1 where 1: "adopt_state 7 sc0 = (i, sc1)" by (cases "adopt_state 7 sc0")
  have ok0: "core_ok sc0" using 0(1) by (rule scheduler_init_ok)
  note a = adopt_ok [OF ok0 1]
  have fs: "fs_per_tick sc1 = 1" "current_phase sc1 = Evaluation"
    using 1 0 by (auto simp: adopt_state_def Let_def upd_state_def upd_diag_def split: if_splits)
  have t: "timers_ok (timers sc1)" using a(4) by (simp add: 0 timers_ok_def timer_list_def timer_queue_init_def)
  have s: "i < length (states sc1)" "cs_handle (states sc1 ! i) = Some 7" "\<not> cs_done (states sc1 ! i)"
    using a by (simp_all add: coroutine_state_init_def)
  have "\<forall>r\<in>set [edge_on 0 Rising, delay_for 5]. request_ok sc1 r"
    by (simp add: request_ok_def edge_on_def delay_for_def validate_delay_def fs)
  from park_first_ok [OF a(1) t s this, of 3 ReasonFirst] obtain sc2 where
    "park_first 7 i [edge_on 0 Rising, delay_for 5] 3 ReasonFirst sc1 = Inr sc2" "core_ok sc2" "timers_ok (timers sc2)"
    by auto
  then show "core_ok parked_demo" "timers_ok (timers parked_demo)"
    by (simp_all add: parked_demo_def 0(1) 1 del: One_nat_def)
qed

section \<open>Properties\<close>

text \<open>
  Property C1: notifying an edge never aborts on a well-formed scheduler and keeps it well formed.
  It makes ready exactly the coroutines with a valid registration on that edge or on any edge of
  the signal, once each, in the order of the queues, and empties both queues; every other
  registration stays as valid as it was.
\<close>

theorem wake_edge_exact:
  assumes "core_ok sc"
  shows "\<exists>sc'. let regs = edge_listeners sc s e @ (if e = AnyEdge then [] else edge_listeners sc s AnyEdge) in
    wake_edge s e sc = Inr (woken_states sc regs \<noteq> [], sc') \<and> core_ok sc' \<and>
    ready_queue sc' = ready_queue sc @ woken_states sc regs \<and>
    edge_listeners sc' s e = [] \<and> edge_listeners sc' s AnyEdge = [] \<and>
    (\<forall>r. registration_valid sc' r \<longleftrightarrow> registration_valid sc r \<and> reg_state r \<notin> set (woken_states sc regs))"
proof -
  have empty: "lookup_or [] (x[a := [], b := []]) a = []" "lookup_or [] (x[a := [], b := []]) b = []"
    for x :: "registration list list" and a b
    by (cases "a = b"; simp add: lookup_or_def)+
  obtain sc' where "wake_edge s e sc = Inr (woken_states sc (edge_listeners sc s e @
        (if e = AnyEdge then [] else edge_listeners sc s AnyEdge)) \<noteq> [], sc')" "core_ok sc'"
    "ready_queue sc' = ready_queue sc @ woken_states sc (edge_listeners sc s e @
        (if e = AnyEdge then [] else edge_listeners sc s AnyEdge))"
    "\<And>r. registration_valid sc' r \<longleftrightarrow> registration_valid sc r \<and> reg_state r \<notin> set (woken_states sc
        (edge_listeners sc s e @ (if e = AnyEdge then [] else edge_listeners sc s AnyEdge)))"
    "edge_waiters sc' = (edge_waiters sc)[edge_queue_index s e := [], edge_queue_index s AnyEdge := []]"
    by (rule wake_edge_ok [OF assms, of s e]) (rule that)
  then show ?thesis
    by (intro exI [of _ sc']) (simp add: Let_def edge_listeners_def [of sc'] empty)
qed

lemma wake_edge_exact_witness:
  "\<exists>sc'. wake_edge 0 Rising parked_demo = Inr (True, sc') \<and> core_ok sc' \<and> ready_queue sc' = [0]"
proof -
  have "edge_listeners parked_demo 0 AnyEdge = []" "ready_queue parked_demo = []" by code_simp+
  then show ?thesis
    using wake_edge_exact [OF parked_demo_ok(1), of 0 Rising] parked_demo_listeners parked_demo_woken
    by (auto simp: Let_def)
qed

text \<open>
  Property C6: advancing the time never aborts on a well-formed scheduler. It fires exactly the
  timers due by the new time whose registration is valid, by deadline and at equal deadlines in
  the order they were started; a coroutine is made ready once, stale timers wake nobody, and the
  timers that are left all lie after the new time.
\<close>

theorem wake_time_exact:
  assumes "core_ok sc" "timers_ok (timers sc)"
  shows "\<exists>sc'. let regs = map t_wait (filter (\<lambda>t. t_deadline t \<le> time) (timer_list (timers sc))) in
    wake_time time sc = Inr (woken_states sc regs \<noteq> [], sc') \<and> core_ok sc' \<and> timers_ok (timers sc') \<and>
    now sc' = time \<and> ready_queue sc' = ready_queue sc @ woken_states sc regs \<and>
    (\<forall>r. registration_valid sc' r \<longleftrightarrow> registration_valid sc r \<and> reg_state r \<notin> set (woken_states sc regs)) \<and>
    (\<forall>t\<in>set (timer_list (timers sc')). time < t_deadline t)"
proof -
  obtain sc' where "wake_time time sc = Inr (woken_states sc (wait_list time (timer_list (timers sc))) \<noteq> [], sc')"
    "core_ok sc'" "timers_ok (timers sc')" "now sc' = time"
    "ready_queue sc' = ready_queue sc @ woken_states sc (wait_list time (timer_list (timers sc)))"
    "\<And>r. registration_valid sc' r \<longleftrightarrow> registration_valid sc r \<and>
       reg_state r \<notin> set (woken_states sc (wait_list time (timer_list (timers sc))))"
    "\<And>u. u \<in> set (timer_list (timers sc')) \<Longrightarrow> time < t_deadline u"
    by (rule wake_time_ok [OF assms, of time]) (rule that)
  then show ?thesis by (intro exI [of _ sc']) (simp add: Let_def wait_list_def)
qed

lemma wake_time_exact_witness:
  "\<exists>sc'. wake_time 5 parked_demo = Inr (True, sc') \<and> core_ok sc' \<and> ready_queue sc' = [0] \<and> now sc' = 5"
proof -
  have "map t_wait (filter (\<lambda>t. t_deadline t \<le> 5) (timer_list (timers parked_demo))) = [demo_reg 1]"
    "woken_states parked_demo [demo_reg 1] = [0]" "ready_queue parked_demo = []" by code_simp+
  then show ?thesis
    using wake_time_exact [OF parked_demo_ok, of 5] by (auto simp: Let_def)
qed

text \<open>
  a simulator phase wakes exactly the coroutines parked on it, in parking order, and
  empties its queue.
\<close>

theorem wake_phase_exact:
  assumes "core_ok sc" "phase_wait_index kind = Inr p"
  shows "\<exists>sc'. wake_phase kind sc = Inr (woken_states sc (phase_waiters sc p) \<noteq> [], sc') \<and> core_ok sc' \<and>
    ready_queue sc' = ready_queue sc @ woken_states sc (phase_waiters sc p) \<and> phase_waiters sc' p = [] \<and>
    (\<forall>r. registration_valid sc' r \<longleftrightarrow>
       registration_valid sc r \<and> reg_state r \<notin> set (woken_states sc (phase_waiters sc p)))"
proof -
  obtain ph where "simulation_phase_of kind = Inr ph" using assms(2) by (cases kind) auto
  from wake_phase_ok [OF assms this] show ?thesis by metis
qed

lemma wake_phase_exact_witness:
  "\<exists>sc'. wake_phase WaitReadOnly parked_demo = Inr (False, sc') \<and> core_ok sc'"
proof -
  have "phase_waiters parked_demo 1 = []" by code_simp
  then show ?thesis
    using wake_phase_exact [OF parked_demo_ok(1), of WaitReadOnly 1] by (auto simp: woken_states_def)
qed

text \<open>
  of the registrations of one wait only the first to be resumed counts. It stores its
  index as the winner, and every other registration of that coroutine is refused afterwards and
  changes nothing.
\<close>

theorem first_has_one_winner:
  assumes "core_ok sc" "registration_valid sc a" "reg_winner a = Some slot" "reg_state b = reg_state a"
  shows "\<exists>sc'. resume_registration a sc = Inr (True, sc') \<and> winners sc' slot = reg_index a \<and>
    cs_ready (states sc' ! reg_state a) \<and> resume_registration b sc' = Inr (False, sc')"
proof -
  obtain sc' where r: "resume_registration a sc = Inr (registration_valid sc a, sc')" and rc: "resumed_core a sc sc'"
    by (rule resume_registration_ok [OF assms(1)])
  have "\<not> registration_valid sc' b" using rc assms(2,4) by (simp add: resumed_core_def)
  then have "resume_registration b sc' = Inr (False, sc')" by (simp add: resume_registration_def)
  then show ?thesis using r rc assms(2,3) by (intro exI [of _ sc']) (simp add: resumed_core_def)
qed

lemma first_has_one_winner_witness:
  "\<exists>sc'. resume_registration (demo_reg 1) parked_demo = Inr (True, sc') \<and> winners sc' 3 = 1 \<and>
    resume_registration (demo_reg 0) sc' = Inr (False, sc')"
proof -
  have "registration_valid parked_demo (demo_reg 1)" by code_simp
  then show ?thesis
    using first_has_one_winner [OF parked_demo_ok(1), of "demo_reg 1" 3 "demo_reg 0"] by (auto simp: demo_reg_def)
qed

text \<open>
  Property C21: parking on the first of several triggers that the current phase accepts succeeds,
  keeps the scheduler well formed and yields a registration with a generation never used before,
  so no older registration of the slot is valid.
\<close>

theorem park_first_accepted:
  assumes "core_ok sc" "timers_ok (timers sc)"
    and "i < length (states sc)" "cs_handle (states sc ! i) = Some h" "\<not> cs_done (states sc ! i)"
    and "\<forall>r\<in>set reqs. request_ok sc r"
  shows "\<exists>sc'. park_first h i reqs w reason sc = Inr sc' \<and> core_ok sc' \<and> timers_ok (timers sc') \<and>
    (\<forall>r. reg_state r = i \<longrightarrow> (registration_valid sc' r \<longleftrightarrow> reg_generation r = next_generation sc + 1))"
proof -
  obtain sc' where p: "park_first h i reqs w reason sc = Inr sc'" "core_ok sc'" "timers_ok (timers sc')"
    "registration_valid sc' \<lparr>reg_state = i, reg_generation = next_generation sc + 1, reg_winner = Some w, reg_index = 0\<rparr>"
    using park_first_ok [OF assms, of w reason 0] by auto
  have "registration_valid sc' r \<longleftrightarrow> reg_generation r = next_generation sc + 1" if "reg_state r = i" for r
    using p(4) that by (auto simp: registration_valid_def Let_def split: if_splits)
  with p show ?thesis by auto
qed

lemma park_first_accepted_witness:
  "\<exists>sc'. park_first 7 0 [edge_on 2 Falling, phase_request WaitReadWrite] 4 ReasonFirst parked_demo = Inr sc' \<and> core_ok sc'"
proof -
  have "0 < length (states parked_demo)" "cs_handle (states parked_demo ! 0) = Some 7"
    "\<not> cs_done (states parked_demo ! 0)" "\<forall>r\<in>set [edge_on 2 Falling, phase_request WaitReadWrite]. request_ok parked_demo r"
    by code_simp+
  from park_first_accepted [OF parked_demo_ok this, of 4 ReasonFirst] show ?thesis by auto
qed

text \<open>
  Property C23: compacting the edge queues is invisible. It keeps the scheduler well formed, and a
  later edge of any signal wakes the same coroutines in the same order.
\<close>

theorem compaction_transparent:
  assumes "core_ok sc"
  shows "core_ok (compact_stale_edge_queues sc) \<and>
    woken_states (compact_stale_edge_queues sc) (edge_listeners (compact_stale_edge_queues sc) s e) =
    woken_states sc (edge_listeners sc s e)"
proof -
  have v: "registration_valid (compact_stale_edge_queues sc) = registration_valid sc" by (rule compact_ok(2) [OF assms])
  have "woken_states sc (lookup_or [] (map (filter (registration_valid sc)) X) q) = woken_states sc (lookup_or [] X q)" for X q
    by (simp add: lookup_or_def woken_states_def)
  then show ?thesis
    using compact_ok(1,3) [OF assms] by (auto simp: edge_listeners_def woken_states_def v)
qed

lemma compaction_transparent_witness:
  "core_ok (compact_stale_edge_queues parked_demo) \<and>
   woken_states (compact_stale_edge_queues parked_demo)
     (edge_listeners (compact_stale_edge_queues parked_demo) 0 Rising) = [0]"
  using compaction_transparent [OF parked_demo_ok(1), of 0 Rising]
  by (simp add: parked_demo_listeners parked_demo_woken)

text \<open>
  Property C22: whoever consumes every queued interest change holds the current mask of every
  signal that is not sticky: registering, ending a wait and consuming keep the consumer's copy
  right for all signals that are not queued, and an empty queue means it is right everywhere.
\<close>

theorem interest_consumer_in_sync:
  assumes "ei_ok ei" "mirrors m ei"
  shows "ei_ok (add_edge_interest i q ei) \<and> mirrors m (add_edge_interest i q ei) \<and>
    (\<exists>ei'. remove_edge_interests i ei = Inr ei' \<and> ei_ok ei' \<and> mirrors m ei') \<and>
    (case consume_interest_change ei of
      (Some (s, v), ei') \<Rightarrow> ei_ok ei' \<and> mirrors (m(s := v)) ei'
    | (None, ei') \<Rightarrow> \<forall>s. \<not> is_sticky_source ei s \<longrightarrow> m s = edge_interest_of ei s)"
proof (intro conjI)
  show "ei_ok (add_edge_interest i q ei)" by (rule add_edge_interest_ok [OF assms(1)])
  show "mirrors m (add_edge_interest i q ei)" by (rule mirrors_add [OF assms(2,1)])
  obtain ei' where "remove_edge_interests i ei = Inr ei'" "ei_ok ei'"
    using remove_edge_interests_ok [OF assms(1)] by blast
  with mirrors_remove [OF assms(2,1)]
  show "\<exists>ei'. remove_edge_interests i ei = Inr ei' \<and> ei_ok ei' \<and> mirrors m ei'" by blast
  show "case consume_interest_change ei of
      (Some (s, v), ei') \<Rightarrow> ei_ok ei' \<and> mirrors (m(s := v)) ei'
    | (None, ei') \<Rightarrow> \<forall>s. \<not> is_sticky_source ei s \<longrightarrow> m s = edge_interest_of ei s"
    using mirrors_consume [OF assms(2,1)] mirrors_drained [OF assms(2)] consume_change_ok [OF assms(1)]
    by (auto split: prod.splits option.splits)
qed

lemma interest_consumer_in_sync_witness:
  "mirrors (\<lambda>_. 0) (add_edge_interest 0 1 edge_interest_init) \<and>
   ei_changes (add_edge_interest 0 1 edge_interest_init) = [0]"
proof -
  have "mirrors (\<lambda>_. 0) edge_interest_init"
    by (simp add: mirrors_def edge_interest_init_def interest_none_def)
  moreover have "ei_changes (add_edge_interest 0 1 edge_interest_init) = [0]" by code_simp
  ultimately show ?thesis using interest_consumer_in_sync [OF ei_ok_init, of "\<lambda>_. 0" 0 1] by blast
qed

section \<open>Sticky interest\<close>

definition edge_bits :: "edge_kind \<Rightarrow> u8" where
  "edge_bits edge = (case edge of Rising \<Rightarrow> interest_rising | Falling \<Rightarrow> interest_falling
     | AnyEdge \<Rightarrow> interest_rising OR interest_falling)"

text \<open>
  What happens to the bookkeeping: coroutines register waits, as far as \<open>allowed\<close>, and leave, and
  the adapter consumes changes. The list is what it was told.
\<close>

inductive interest_run :: "(nat \<Rightarrow> bool) \<Rightarrow> edge_interest \<Rightarrow> (nat \<times> u8) list \<Rightarrow> edge_interest \<Rightarrow> bool"
  for allowed where
  stop: "interest_run allowed ei [] ei"
| wait: "allowed q \<Longrightarrow> interest_run allowed (add_edge_interest i q ei) told ei' \<Longrightarrow> interest_run allowed ei told ei'"
| leave: "remove_edge_interests i ei = Inr ei1 \<Longrightarrow> interest_run allowed ei1 told ei' \<Longrightarrow> interest_run allowed ei told ei'"
| consume: "consume_interest_change ei = (Some c, ei1) \<Longrightarrow> interest_run allowed ei1 told ei' \<Longrightarrow>
    interest_run allowed ei (c # told) ei'"

lemma bit_interest_mask:
  "bit (interest_mask c) n \<longleftrightarrow> n = 0 \<and> (c 0 \<noteq> 0 \<or> c 2 \<noteq> 0) \<or> n = 1 \<and> (c 1 \<noteq> 0 \<or> c 2 \<noteq> 0)"
  by (auto simp: interest_mask_def interest_none_def interest_rising_def interest_falling_def Let_def bit_simps)

lemma bit_edge_interest:
  "bit (edge_interest_of ei s) n \<longleftrightarrow> s < length (ei_counts ei) \<and>
     (n = 0 \<and> ((ei_counts ei ! s) 0 \<noteq> 0 \<or> (ei_counts ei ! s) 2 \<noteq> 0) \<or>
      n = 1 \<and> ((ei_counts ei ! s) 1 \<noteq> 0 \<or> (ei_counts ei ! s) 2 \<noteq> 0))"
  by (auto simp: edge_interest_of_def bit_interest_mask interest_none_def)

lemma bit_edge_bits: "bit (edge_bits e) n \<longleftrightarrow> n = 0 \<and> e \<noteq> Falling \<or> n = 1 \<and> e \<noteq> Rising"
proof -
  have "bit interest_rising n \<longleftrightarrow> n = 0" "bit interest_falling n \<longleftrightarrow> n = 1"
    by (auto simp: interest_rising_def interest_falling_def bit_simps)
  then show ?thesis by (cases e) (auto simp: edge_bits_def bit_or_iff)
qed

lemma none_iff: "(a AND NOT b = interest_none) \<longleftrightarrow> (\<forall>n. bit a n \<longrightarrow> bit b n)" for a b :: u8
proof -
  have "n < 8" if "bit a n" for n using bit_imp_le_length [OF that] by simp
  then show ?thesis by (auto simp: interest_none_def bit_eq_iff bit_simps)
qed

text \<open>Nothing of signal \<open>s\<close> is queued, and the directions it is waited for, and those of \<open>e\<close>, are recorded.\<close>

definition quiet :: "nat \<Rightarrow> edge_kind \<Rightarrow> edge_interest \<Rightarrow> bool" where
  "quiet s e ei \<longleftrightarrow> is_sticky_source ei s \<and> s \<notin> set (ei_changes ei) \<and>
     (\<forall>n. bit (edge_bits e) n \<or> bit (edge_interest_of ei s) n \<longrightarrow> bit (ei_sticky_mask ei ! s) n)"

lemma quiet_record:
  assumes "quiet s e ei0" "ei_changes ei = ei_changes ei0" "ei_sticky ei = ei_sticky ei0" "ei_sticky_mask ei = ei_sticky_mask ei0"
    and "\<forall>n. bit (edge_interest_of ei s) n \<longrightarrow> bit (edge_bits e) n \<or> bit (edge_interest_of ei0 s) n"
  shows "quiet s e (record_interest_change t p ei)"
proof -
  have q: "quiet s e ei" using assms by (auto simp: quiet_def is_sticky_source_def)
  show ?thesis
  proof (cases "t = s")
    case True
    then have "record_interest_change t p ei = ei"
      using q by (simp add: quiet_def record_interest_change_def none_iff)
    then show ?thesis using q by simp
  next
    case False
    then have "ei_sticky_mask (record_interest_change t p ei) ! s = ei_sticky_mask ei ! s"
      "s \<in> set (ei_changes (record_interest_change t p ei)) \<longleftrightarrow> s \<in> set (ei_changes ei)"
      by (auto simp: record_interest_change_def note_interest_change_def Let_def)
    then show ?thesis using q by (simp add: quiet_def is_sticky_source_def)
  qed
qed

lemma quiet_add:
  assumes "ei_ok ei" "quiet s e ei" "q div 3 = s \<longrightarrow> q = edge_queue_index s e"
  shows "quiet s e (add_edge_interest i q ei)"
proof (cases "is_static_source ei (q div 3)")
  case True
  then show ?thesis using assms by (simp add: add_edge_interest_eq)
next
  case False
  let ?r = "interest_room i q ei" and ?b = "bump_count i q (interest_room i q ei)"
  have "bit (edge_bits e) n \<or> bit (edge_interest_of ?r s) n" if "bit (edge_interest_of ?b s) n" for n
  proof (cases "q div 3 = s")
    case True
    then have "q mod 3 = edge_code e" using assms(3) by simp
    then show ?thesis
      using that True
      by (cases e) (auto simp: bit_edge_interest bit_edge_bits bump_count_def simp del: edge_interest_of_room split: if_splits)
  next
    case False
    then show ?thesis using that by (auto simp: bit_edge_interest bump_count_def simp del: edge_interest_of_room)
  qed
  then have b: "\<forall>n. bit (edge_interest_of ?b s) n \<longrightarrow> bit (edge_bits e) n \<or> bit (edge_interest_of ei s) n" by simp
  have "quiet s e (record_interest_change (q div 3) (edge_interest_of ei (q div 3)) ?b)"
    by (rule quiet_record [OF assms(2) _ _ _ b]) (simp_all add: bump_count_def interest_room_def)
  then show ?thesis using False assms(1) by (simp add: add_edge_interest_eq)
qed

lemma quiet_remove_list:
  "quiet s e ei \<Longrightarrow> remove_edge_interest_list qs ei = Inr ei' \<Longrightarrow> quiet s e ei'"
proof (induction qs arbitrary: ei)
  case (Cons q qs)
  let ?t = "q div 3"
  define ei1 where "ei1 = ei\<lparr>ei_counts := (ei_counts ei)[?t := (ei_counts ei ! ?t)
      (q mod 3 := (ei_counts ei ! ?t) (q mod 3) - 1)]\<rparr>"
  have rest: "remove_edge_interest_list qs (record_interest_change ?t (edge_interest_of ei ?t) ei1) = Inr ei'"
    using Cons.prems(2) by (auto simp: remove_edge_interest_def Let_def ei1_def split: if_splits)
  have "quiet s e (record_interest_change ?t (edge_interest_of ei ?t) ei1)"
  proof (rule quiet_record [OF Cons.prems(1)])
    show "\<forall>n. bit (edge_interest_of ei1 s) n \<longrightarrow> bit (edge_bits e) n \<or> bit (edge_interest_of ei s) n"
      by (cases "?t = s") (auto simp: bit_edge_interest ei1_def split: if_splits)
  qed (simp_all add: ei1_def)
  then show ?case using Cons.IH rest by blast
qed simp

lemma quiet_indices [simp]: "quiet s e (ei\<lparr>ei_indices := x\<rparr>) = quiet s e ei"
proof -
  have "edge_interest_of (ei\<lparr>ei_indices := x\<rparr>) s = edge_interest_of ei s" by (rule edge_interest_of_cong) simp
  then show ?thesis by (simp add: quiet_def is_sticky_source_def)
qed

lemma quiet_remove:
  assumes "quiet s e ei" "remove_edge_interests i ei = Inr ei'"
  shows "quiet s e ei'"
  using assms quiet_remove_list by (auto simp: remove_edge_interests_def result_bind_Ok_iff split: if_splits)

lemma quiet_consume:
  assumes "quiet s e ei" "consume_interest_change ei = (Some c, ei')"
  shows "quiet s e ei' \<and> fst c \<noteq> s"
proof -
  obtain rest where c: "ei_changes ei = fst c # rest" "ei' = ei\<lparr>ei_changes := rest, ei_pending := (ei_pending ei)[fst c := False]\<rparr>"
    using assms(2) by (auto simp: consume_interest_change_def split: list.splits)
  have "edge_interest_of ei' s = edge_interest_of ei s" by (rule edge_interest_of_cong) (simp add: c(2))
  then show ?thesis using assms(1) c by (auto simp: quiet_def is_sticky_source_def)
qed

lemma quiet_run:
  "interest_run (\<lambda>q. q div 3 = s \<longrightarrow> q = edge_queue_index s e) ei told ei' \<Longrightarrow> ei_ok ei \<Longrightarrow> quiet s e ei \<Longrightarrow>
   s \<notin> fst ` set told"
proof (induction rule: interest_run.induct)
  case (wait q i ei told ei')
  then show ?case using add_edge_interest_ok quiet_add by blast
next
  case (leave i ei ei1 told ei')
  have "ei_ok ei1" using remove_edge_interests_ok [OF leave.prems(1), of i] leave.hyps(1) by auto
  then show ?case using leave quiet_remove by blast
next
  case (consume ei c ei1 told ei')
  have "ei_ok ei1" using consume_change_ok [OF consume.prems(1)] consume.hyps(1) by simp
  then show ?case using consume quiet_consume [OF consume.prems(2) consume.hyps(1)] by auto
qed simp

lemma sticky_come_and_go:
  assumes ok: "ei_ok ei" and s: "is_sticky_source ei s" "\<not> is_static_source ei s"
    and idle: "ei_changes ei = []" "edge_interest_of ei s = interest_none"
    and i: "i < length (ei_indices ei) \<Longrightarrow> ei_indices ei ! i = []"
    and fresh: "edge_bits e AND NOT (ei_sticky_mask ei ! s) \<noteq> interest_none"
    and leave: "remove_edge_interests i (add_edge_interest i (edge_queue_index s e) ei) = Inr ei1"
  shows "\<exists>ei2. consume_interest_change ei1 = (Some (s, interest_none), ei2) \<and> quiet s e ei2"
proof -
  let ?q = "edge_queue_index s e"
  define b where "b = bump_count i ?q (interest_room i ?q ei)"
  define r where "r = record_interest_change s interest_none b"
  let ?c = "grow (s + 1) (\<lambda>_. 0) (ei_counts ei)"
  have zero: "(?c ! s) k = 0" if "k < 3" for k
  proof -
    have n: "\<not> bit (edge_interest_of (interest_room i ?q ei) s) n" for n by (simp add: idle(2) interest_none_def)
    have "(?c ! s) 0 = 0 \<and> (?c ! s) 1 = 0 \<and> (?c ! s) 2 = 0"
      using n [of 0] n [of 1] by (auto simp: bit_edge_interest interest_room_def simp del: edge_interest_of_room)
    moreover have "k = 0 \<or> k = 1 \<or> k = 2" using that by linarith
    ultimately show ?thesis by blast
  qed
  have cb: "ei_counts b = ?c[s := (?c ! s)(edge_code e := 1)]" "s < length (ei_counts b)"
    using zero [of "edge_code e"] by (simp_all add: b_def bump_count_def interest_room_def)
  have eb: "ei_changes b = []" "ei_sticky b = ei_sticky ei" "ei_sticky_mask b = ei_sticky_mask ei"
    "ei_pending b = grow (s + 1) False (ei_pending ei)" "ei_indices b = (grow (i + 1) [] (ei_indices ei))[i := [?q]]"
    using idle(1) i by (auto simp: b_def bump_count_def interest_room_def grow_def nth_append)
  have cur: "edge_interest_of b s = edge_bits e"
  proof (rule bit_eqI)
    show "bit (edge_interest_of b s) n = bit (edge_bits e) n" for n
      using zero [of 0] zero [of 1] zero [of 2] cb
      by (cases e) (auto simp: bit_edge_interest bit_edge_bits)
  qed
  have add: "add_edge_interest i ?q ei = r"
    using s(2) idle(2) by (simp add: add_edge_interest_eq [OF ok] r_def b_def)
  have len: "s < length (ei_sticky_mask ei)" using ok s(1) by (auto simp: ei_ok_def is_sticky_source_def)
  have "\<not> ei_pending b ! s"
  proof -
    have "\<not> ei_pending ei ! s" if "s < length (ei_pending ei)"
      using ok idle(1) that by (auto simp: ei_ok_def notify_ok_def)
    then show ?thesis by (cases "s < length (ei_pending ei)") (simp_all add: eb(4) nth_grow nth_grow_new)
  qed
  then have r: "ei_changes r = [s]" "ei_sticky r = ei_sticky ei" "ei_counts r = ei_counts b" "ei_indices r = ei_indices b"
    "ei_sticky_mask r ! s = ei_sticky_mask ei ! s OR (edge_bits e AND NOT (ei_sticky_mask ei ! s))"
    using s(1) fresh cur eb len
    by (simp_all add: r_def record_interest_change_def note_interest_change_def is_sticky_source_def Let_def)
  define d where "d = r\<lparr>ei_counts := ?c[s := (?c ! s)(edge_code e := 0)]\<rparr>"
  have none: "edge_interest_of d s = interest_none"
  proof (rule bit_eqI)
    show "bit (edge_interest_of d s) n = bit interest_none n" for n
      using zero [of 0] zero [of 1] zero [of 2]
      by (cases e) (auto simp: bit_edge_interest d_def interest_none_def)
  qed
  have same: "record_interest_change s (edge_interest_of r s) d = d"
    using s(1) none r(2) by (simp add: record_interest_change_def d_def is_sticky_source_def interest_none_def)
  have "(ei_counts r)[s := (ei_counts r ! s)(edge_code e := (ei_counts r ! s) (edge_code e) - 1)] = ei_counts d"
    using cb by (simp add: r(3) d_def)
  then have "remove_edge_interest ?q r = Ok d"
    using same cb by (simp add: remove_edge_interest_def Let_def r(3) d_def)
  then have ei1: "ei1 = d\<lparr>ei_indices := (ei_indices d)[i := []]\<rparr>"
    using leave by (simp add: add remove_edge_interests_def r(4) eb(5) d_def split: if_splits)
  have sum: "edge_interest_of ei1 s = interest_none"
    using none edge_interest_of_cong [of ei1 d s] by (simp add: ei1)
  then have "consume_interest_change ei1 = (Some (s, interest_none), ei1\<lparr>ei_changes := [], ei_pending := (ei_pending ei1)[s := False]\<rparr>)"
    by (simp add: consume_interest_change_def ei1 d_def r(1))
  moreover have "quiet s e (ei1\<lparr>ei_changes := [], ei_pending := x\<rparr>)" for x
  proof -
    have "edge_interest_of (ei1\<lparr>ei_changes := [], ei_pending := x\<rparr>) s = interest_none"
      using sum edge_interest_of_cong [of "ei1\<lparr>ei_changes := [], ei_pending := x\<rparr>" ei1 s] by simp
    moreover have "ei_sticky_mask ei1 ! s = ei_sticky_mask ei ! s OR (edge_bits e AND NOT (ei_sticky_mask ei ! s))"
      "ei_sticky ei1 = ei_sticky ei" using r by (simp_all add: ei1 d_def)
    moreover have "n < 8" if "bit (edge_bits e) n" for n using bit_imp_le_length [OF that] by simp
    ultimately show ?thesis
      using s(1) by (auto simp: quiet_def is_sticky_source_def interest_none_def bit_simps)
  qed
  ultimately show ?thesis by blast
qed

text \<open>
  Property C39: a sticky source publishes an edge direction once, whatever the adapter was told. A coroutine waits for an
  edge of an idle sticky signal in a direction not yet recorded, and is gone again before the adapter
  consumes the change: the adapter is told that nobody is interested. From then on, however
  coroutines wait for that edge of the signal, leave, and use other signals, the adapter is
  never told anything about the signal again.
\<close>

theorem sticky_interest_published_once:
  assumes "ei_ok ei" "is_sticky_source ei s" "\<not> is_static_source ei s"
    and "ei_changes ei = []" "edge_interest_of ei s = interest_none"
    and "i < length (ei_indices ei) \<Longrightarrow> ei_indices ei ! i = []"
    and "edge_bits e AND NOT (ei_sticky_mask ei ! s) \<noteq> interest_none"
    and "remove_edge_interests i (add_edge_interest i (edge_queue_index s e) ei) = Inr ei1"
  shows "\<exists>ei2. consume_interest_change ei1 = (Some (s, interest_none), ei2) \<and>
    (\<forall>told ei3. interest_run (\<lambda>q. q div 3 = s \<longrightarrow> q = edge_queue_index s e) ei2 told ei3 \<longrightarrow> s \<notin> fst ` set told)"
proof -
  obtain ei2 where c: "consume_interest_change ei1 = (Some (s, interest_none), ei2)" "quiet s e ei2"
    using sticky_come_and_go [OF assms] by blast
  have "ei_ok ei1"
    using remove_edge_interests_ok [OF add_edge_interest_ok [OF assms(1)], of i i "edge_queue_index s e"] assms(8) by auto
  then have "ei_ok ei2" using consume_change_ok [of ei1] c(1) by simp
  then show ?thesis using quiet_run c by blast
qed

definition sticky_demo :: edge_interest where
  "sticky_demo = (case configure_sticky_source False 0 edge_interest_init of Inr ei \<Rightarrow> ei)"

lemma sticky_interest_published_once_witness:
  "\<exists>ei1 ei2. remove_edge_interests 0 (add_edge_interest 0 0 sticky_demo) = Inr ei1 \<and>
     consume_interest_change ei1 = (Some (0, interest_none), ei2) \<and>
     edge_interest_of (add_edge_interest 1 0 ei2) 0 = interest_rising \<and>
     fst (consume_interest_change (add_edge_interest 1 0 ei2)) = None"
proof -
  have eq: "sticky_demo = edge_interest_init\<lparr>ei_sticky := [True], ei_sticky_mask := [interest_none]\<rparr>"
    by (simp add: sticky_demo_def configure_sticky_source_def edge_interest_init_def grow_def)
  have h: "ei_ok sticky_demo" "is_sticky_source sticky_demo 0" "\<not> is_static_source sticky_demo 0"
    "ei_changes sticky_demo = []" "edge_interest_of sticky_demo 0 = interest_none" "\<not> 0 < length (ei_indices sticky_demo)"
    "edge_bits Rising AND NOT (ei_sticky_mask sticky_demo ! 0) \<noteq> interest_none" "edge_queue_index 0 Rising = 0"
    by (simp_all add: eq ei_ok_def counts_ok_def notify_ok_def edge_interest_init_def is_sticky_source_def
        is_static_source_def edge_interest_of_def edge_bits_def interest_none_def interest_rising_def edge_queue_index_def)
  obtain ei1 where r: "remove_edge_interests 0 (add_edge_interest 0 (edge_queue_index 0 Rising) sticky_demo) = Inr ei1"
    using remove_edge_interests_ok [OF add_edge_interest_ok [OF h(1)]] by blast
  obtain ei2 where c: "consume_interest_change ei1 = (Some (0, interest_none), ei2)"
    using sticky_interest_published_once [OF h(1-5) _ h(7) r] h(6) by blast
  have "case remove_edge_interests 0 (add_edge_interest 0 0 sticky_demo) of Inl x \<Rightarrow> False | Inr ei1 \<Rightarrow>
      edge_interest_of (add_edge_interest 1 0 (snd (consume_interest_change ei1))) 0 = interest_rising \<and>
      fst (consume_interest_change (add_edge_interest 1 0 (snd (consume_interest_change ei1)))) = None"
    by code_simp
  then show ?thesis using r c h(8) by simp
qed

section \<open>What a mask says\<close>

text \<open>
  the mask published for a signal says exactly which edges some coroutine waits for;
  an edge of either kind asks for both directions.
\<close>

theorem interest_mask_meaning:
  assumes "ei_ok ei"
  shows "(bit (edge_interest_of ei s) 0 \<longleftrightarrow> has_edge_interest ei s Rising) \<and>
    (bit (edge_interest_of ei s) 1 \<longleftrightarrow> has_edge_interest ei s Falling) \<and>
    (has_edge_interest ei s edge \<longleftrightarrow> (\<exists>qs\<in>set (ei_indices ei).
       edge_queue_index s AnyEdge \<in> set qs \<or> edge_queue_index s edge \<in> set qs))"
proof (intro conjI)
  show "bit (edge_interest_of ei s) 0 \<longleftrightarrow> has_edge_interest ei s Rising"
    "bit (edge_interest_of ei s) 1 \<longleftrightarrow> has_edge_interest ei s Falling"
    by (simp_all add: edge_interest_of_def has_edge_interest_def interest_mask_bits interest_mask_bits [unfolded One_nat_def] Let_def interest_none_def)
qed (rule has_interest_iff [OF assms])

lemma interest_mask_meaning_witness:
  "has_edge_interest (add_edge_interest 0 5 edge_interest_init) 1 Falling \<and>
   edge_interest_of (add_edge_interest 0 5 edge_interest_init) 1 = 3"
proof -
  have "ei_indices (add_edge_interest 0 5 edge_interest_init) = [[5]]"
    "edge_interest_of (add_edge_interest 0 5 edge_interest_init) 1 = 3" by code_simp+
  moreover have "edge_queue_index 1 AnyEdge = 5" by code_simp
  ultimately show ?thesis
    using interest_mask_meaning [OF add_edge_interest_ok [OF ei_ok_init], of 0 5 1 Falling] by simp
qed

end
