(* ===== verification/Processes.thy ===== *)
theory Processes
  imports SchedSlots
begin

text \<open>
  Processes, joins and cancellation in \<open>cpptb::coro::Scheduler\<close> (\<open>coro_runtime.hpp\<close>): spawning,
  finishing, joining, cancelling, reclaiming and the deferred owner cleanups. Promises, join
  states and process controls live in stores indexed by address. The callbacks the code receives
  from its users (completion handlers, resource releases, owner cleanups) and the destruction of a
  coroutine frame are recorded in the list \<open>calls\<close>, in the order the code makes them.
\<close>

section \<open>State\<close>

record promise =
  pr_state :: "nat option"
  pr_scheduled :: bool
  pr_continuation :: "nat option"
  pr_join :: "nat option"
  pr_exception :: "nat option"
  pr_context :: "nat option"

record join_state =
  jn_remaining :: nat
  jn_parent :: nat
  jn_exception :: "nat option"

record process_control =
  ct_scheduled :: bool
  ct_state :: "nat option"
  ct_slot :: "nat option"
  ct_references :: nat
  ct_waiter :: "registration option"
  ct_extra :: "registration list"
  ct_exception :: "nat option"
  ct_owner :: "nat option"
  ct_finish :: bool
  ct_done :: bool
  ct_cancelled :: bool
  ct_requested :: bool
  ct_owns_context :: bool
  ct_cleanup :: bool

record owner_cleanup =
  oc_owner :: nat
  oc_matcher :: "(nat option \<Rightarrow> nat \<Rightarrow> bool) option"
  oc_cleanup :: nat

datatype call =
    CallFinish nat "nat option" bool
  | CallRelease nat
  | CallCleanup nat nat
  | CallDestroy nat

record sched = sched_core +
  promises :: "nat \<Rightarrow> promise"
  joins :: "nat \<Rightarrow> join_state"
  next_join :: nat
  controls :: "nat \<Rightarrow> process_control"
  next_control :: nat
  process_controls :: "nat option list"
  process_by_state :: "nat option list"
  pending_cancellations :: "nat list"
  deferred_cleanups :: "owner_cleanup list"
  free_process_slots :: "nat list"
  finished_states :: "nat option list"
  finished_roots :: "nat option list"
  draining :: bool
  reclaiming :: bool
  shutting_down :: bool
  inline_depth :: nat
  current_state :: "nat option"
  current_context :: "nat option"
  calls :: "call list"

definition upd_promise :: "nat \<Rightarrow> (promise \<Rightarrow> promise) \<Rightarrow> sched \<Rightarrow> sched" where
  "upd_promise h f sc = sc\<lparr>promises := (promises sc)(h := f (promises sc h))\<rparr>"

definition upd_control :: "nat \<Rightarrow> (process_control \<Rightarrow> process_control) \<Rightarrow> sched \<Rightarrow> sched" where
  "upd_control c f sc = sc\<lparr>controls := (controls sc)(c := f (controls sc c))\<rparr>"

definition upd_join :: "nat \<Rightarrow> (join_state \<Rightarrow> join_state) \<Rightarrow> sched \<Rightarrow> sched" where
  "upd_join j f sc = sc\<lparr>joins := (joins sc)(j := f (joins sc j))\<rparr>"

definition log_call :: "call \<Rightarrow> sched \<Rightarrow> sched" where
  "log_call c sc = sc\<lparr>calls := calls sc @ [c]\<rparr>"

definition control_init :: process_control where
  "control_init =
     \<lparr>ct_scheduled = False, ct_state = None, ct_slot = None, ct_references = 1, ct_waiter = None,
      ct_extra = [], ct_exception = None, ct_owner = None, ct_finish = False, ct_done = False,
      ct_cancelled = False, ct_requested = False, ct_owns_context = False, ct_cleanup = False\<rparr>"

definition promise_init :: promise where
  "promise_init =
     \<lparr>pr_state = None, pr_scheduled = False, pr_continuation = None, pr_join = None,
      pr_exception = None, pr_context = None\<rparr>"

text \<open>The scheduler with no process, over a given core.\<close>

definition sched_init :: "sched_core \<Rightarrow> sched" where
  "sched_init sc =
     sched_core.extend sc (sched.fields
       (\<lambda>_. promise_init) (\<lambda>_. \<lparr>jn_remaining = 0, jn_parent = 0, jn_exception = None\<rparr>) 0
       (\<lambda>_. control_init) 0 [] [] [] [] [] [] [] False False False 0 None None [])"

section \<open>Process handles\<close>

text \<open>A control with no reference left goes back to its pool; here it stays with count 0.\<close>

definition retain_control :: "nat option \<Rightarrow> sched \<Rightarrow> sched" where
  "retain_control c sc =
     (case c of None \<Rightarrow> sc | Some c \<Rightarrow> upd_control c (\<lambda>k. k\<lparr>ct_references := ct_references k + 1\<rparr>) sc)"

definition release_control :: "nat option \<Rightarrow> sched \<Rightarrow> sched" where
  "release_control c sc =
     (case c of None \<Rightarrow> sc | Some c \<Rightarrow> upd_control c (\<lambda>k. k\<lparr>ct_references := ct_references k - 1\<rparr>) sc)"

definition process_valid :: "nat option \<Rightarrow> bool" where
  "process_valid c = (c \<noteq> None)"

definition process_done :: "nat option \<Rightarrow> sched \<Rightarrow> bool" where
  "process_done c sc = (case c of None \<Rightarrow> False | Some c \<Rightarrow> ct_done (controls sc c))"

definition process_cancelled :: "nat option \<Rightarrow> sched \<Rightarrow> bool" where
  "process_cancelled c sc =
     (case c of None \<Rightarrow> False | Some c \<Rightarrow> ct_done (controls sc c) \<and> ct_cancelled (controls sc c))"

section \<open>Adopting and spawning, up to the final drain\<close>

definition adopt :: "nat \<Rightarrow> sched \<Rightarrow> nat \<times> sched" where
  "adopt handle sc =
     (let (i, sc) = adopt_state handle sc
      in (i, upd_promise handle (\<lambda>p. p\<lparr>pr_state := Some i\<rparr>) sc))"

definition install_control :: "nat \<Rightarrow> nat \<Rightarrow> sched \<Rightarrow> sched" where
  "install_control c i sc =
     (let sc =
        (if free_process_slots sc = [] then
           (upd_control c (\<lambda>k. k\<lparr>ct_slot := Some (length (process_controls sc))\<rparr>) sc)
             \<lparr>process_controls := process_controls sc @ [Some c]\<rparr>
         else
           (upd_control c (\<lambda>k. k\<lparr>ct_slot := Some (last (free_process_slots sc))\<rparr>) sc)
             \<lparr>free_process_slots := butlast (free_process_slots sc),
              process_controls := (process_controls sc)[last (free_process_slots sc) := Some c]\<rparr>);
          sc = sc\<lparr>process_by_state := grow (i + 1) None (process_by_state sc)\<rparr>
      in sc\<lparr>process_by_state := (process_by_state sc)[i := Some c]\<rparr>)"

definition enlist ::
  "nat option \<Rightarrow> nat option \<Rightarrow> (nat \<times> bool) option \<Rightarrow> sched \<Rightarrow> nat option \<times> sched" where
  "enlist task context handler sc =
     (if shutting_down sc then (None, sc)
      else case task of None \<Rightarrow> (None, sc)
      | Some handle \<Rightarrow>
        let sc = upd_promise handle (\<lambda>p. p\<lparr>pr_scheduled := True, pr_continuation := None,
                                              pr_context := context\<rparr>) sc;
            (i, sc) = adopt handle sc;
            c = next_control sc;
            sc = sc\<lparr>next_control := c + 1\<rparr>;
            sc = upd_control c (\<lambda>_. control_init
                   \<lparr>ct_scheduled := True, ct_state := Some i,
                    ct_owner := map_option fst handler,
                    ct_finish := (case handler of None \<Rightarrow> False | Some (_, f) \<Rightarrow> f)\<rparr>) sc;
            sc = install_control c i sc;
            sc = retain_control (Some c) sc
        in (Some c, make_ready i sc))"

definition enlist_detached :: "nat option \<Rightarrow> nat option \<Rightarrow> sched \<Rightarrow> sched" where
  "enlist_detached task context sc =
     (if shutting_down sc then sc
      else case task of None \<Rightarrow> sc
      | Some handle \<Rightarrow>
        let sc = upd_promise handle (\<lambda>p. p\<lparr>pr_scheduled := True, pr_continuation := None,
                                              pr_context := context\<rparr>) sc;
            (i, sc) = adopt handle sc
        in make_ready i sc)"

text \<open>
  \<open>spawn_owned\<close>: the control owns its execution context, identified here by the control's
  address; \<open>has_cleanup\<close> says whether the context has a cleanup function. A rejected task reports
  a cancelled completion and releases the context at once.
\<close>

definition enlist_owned :: "nat option \<Rightarrow> nat \<Rightarrow> bool \<Rightarrow> bool \<Rightarrow> sched \<Rightarrow> nat option \<times> sched" where
  "enlist_owned task context finish has_cleanup sc =
     (let abandon = (\<lambda>sc.
            let sc = (if finish then log_call (CallFinish context None True) sc else sc)
            in if has_cleanup then log_call (CallRelease context) sc else sc)
      in if shutting_down sc then (None, abandon sc)
      else case task of None \<Rightarrow> (None, abandon sc)
      | Some handle \<Rightarrow>
        let sc = upd_promise handle (\<lambda>p. p\<lparr>pr_scheduled := True, pr_continuation := None\<rparr>) sc;
            (i, sc) = adopt handle sc;
            c = next_control sc;
            sc = sc\<lparr>next_control := c + 1\<rparr>;
            sc = upd_promise handle (\<lambda>p. p\<lparr>pr_context := Some c\<rparr>) sc;
            sc = upd_control c (\<lambda>_. control_init
                   \<lparr>ct_scheduled := True, ct_state := Some i, ct_owner := Some c, ct_finish := finish,
                    ct_owns_context := True, ct_cleanup := has_cleanup\<rparr>) sc;
            sc = install_control c i sc;
            sc = retain_control (Some c) sc
        in (Some c, make_ready i sc))"

section \<open>Joins and timeouts\<close>

fun adopt_children :: "nat list \<Rightarrow> nat \<Rightarrow> nat option \<Rightarrow> sched \<Rightarrow> sched" where
  "adopt_children [] j context sc = sc"
| "adopt_children (child # children) j context sc =
     (let sc = upd_promise child (\<lambda>p. p\<lparr>pr_scheduled := True, pr_continuation := None,
                                          pr_join := Some j, pr_context := context\<rparr>) sc;
          (i, sc) = adopt child sc
      in adopt_children children j context (make_ready i sc))"

definition start_join :: "nat \<Rightarrow> nat list \<Rightarrow> sched \<Rightarrow> (nat \<times> sched) result" where
  "start_join parent children sc =
     (case pr_state (promises sc parent) of
        None \<Rightarrow> Fail (Abort ''coroutine was not registered with scheduler'')
      | Some i \<Rightarrow>
        result_bind (state_for parent i sc) (\<lambda>i.
        result_bind (begin_wait i ReasonJoin sc) (\<lambda>(generation, sc).
          let j = next_join sc;
              sc = sc\<lparr>next_join := j + 1,
                      joins := (joins sc)(j := \<lparr>jn_remaining = length children, jn_parent = i,
                                                 jn_exception = None\<rparr>)\<rparr>
          in Ok (j, adopt_children children j (pr_context (promises sc parent)) sc))))"

text \<open>\<open>start_timeout\<close> up to the resumption of the child, and from there on.\<close>

definition start_timeout_child :: "nat \<Rightarrow> nat \<Rightarrow> sim_time \<Rightarrow> sched \<Rightarrow> (registration \<times> sched) result" where
  "start_timeout_child parent child timeout sc =
     result_bind (validate_delay timeout sc) (\<lambda>_.
     case pr_state (promises sc parent) of
       None \<Rightarrow> Fail (Abort ''coroutine was not registered with scheduler'')
     | Some i \<Rightarrow>
       result_bind (state_for parent i sc) (\<lambda>i.
       result_bind (begin_wait i ReasonTimeout sc) (\<lambda>(generation, sc).
         let j = next_join sc;
             sc = sc\<lparr>next_join := j + 1,
                     joins := (joins sc)(j := \<lparr>jn_remaining = 1, jn_parent = i, jn_exception = None\<rparr>)\<rparr>;
             sc = upd_promise child (\<lambda>p. p\<lparr>pr_scheduled := True, pr_continuation := None,
                    pr_join := Some j, pr_context := pr_context (promises sc parent)\<rparr>) sc
         in Ok (\<lparr>reg_state = i, reg_generation = generation, reg_winner = None, reg_index = 0\<rparr>,
                snd (adopt child sc)))))"

definition arm_timeout :: "sim_time \<Rightarrow> registration \<Rightarrow> sched \<Rightarrow> sched result" where
  "arm_timeout timeout reg sc =
     (if registration_valid sc reg then register_wait (delay_for timeout) reg sc else Ok sc)"

definition finish_join_child :: "nat option \<Rightarrow> nat option \<Rightarrow> sched \<Rightarrow> sched result" where
  "finish_join_child join exception sc =
     (case join of None \<Rightarrow> Ok sc
      | Some j \<Rightarrow>
        if jn_remaining (joins sc j) = 0 then Ok sc
        else
          let sc = (if exception \<noteq> None \<and> jn_exception (joins sc j) = None
                    then upd_join j (\<lambda>s. s\<lparr>jn_exception := exception\<rparr>) sc else sc);
              sc = upd_join j (\<lambda>s. s\<lparr>jn_remaining := jn_remaining s - 1\<rparr>) sc;
              parent = jn_parent (joins sc j)
          in if jn_remaining (joins sc j) \<noteq> 0 then Ok sc
             else if parent \<ge> length (states sc) then Ok sc
             else if cs_done (states sc ! parent) \<or> \<not> cs_waiting (states sc ! parent) then Ok sc
             else result_bind (end_wait parent sc) (\<lambda>sc. Ok (make_ready parent sc)))"

section \<open>Completion\<close>

fun resume_registrations :: "registration list \<Rightarrow> sched \<Rightarrow> sched result" where
  "resume_registrations [] sc = Ok sc"
| "resume_registrations (reg # regs) sc =
     result_bind (resume_registration reg sc) (\<lambda>(_, sc). resume_registrations regs sc)"

definition resume_completion_waiters :: "nat \<Rightarrow> sched \<Rightarrow> sched result" where
  "resume_completion_waiters c sc =
     (let k = controls sc c in
      result_bind
        (case ct_waiter k of
           None \<Rightarrow> Ok sc
         | Some reg \<Rightarrow>
             result_bind (resume_registration reg sc) (\<lambda>(_, sc).
               Ok (upd_control c (\<lambda>k. k\<lparr>ct_waiter := None\<rparr>) sc)))
        (\<lambda>sc. result_bind (resume_registrations (ct_extra k) sc) (\<lambda>sc.
           Ok (upd_control c (\<lambda>k. k\<lparr>ct_extra := []\<rparr>) sc))))"

text \<open>\<open>ProcessCompletionHandler::notify\<close> gives the handler away before calling it.\<close>

definition notify_completion :: "nat \<Rightarrow> bool \<Rightarrow> sched \<Rightarrow> sched" where
  "notify_completion c cancelled sc =
     (let k = controls sc c;
          sc = upd_control c (\<lambda>k. k\<lparr>ct_owner := None, ct_finish := False\<rparr>) sc
      in case ct_owner k of
           None \<Rightarrow> sc
         | Some owner \<Rightarrow>
             if ct_finish k then log_call (CallFinish owner (ct_exception k) cancelled) sc else sc)"

definition notify_owned_completion :: "nat \<Rightarrow> bool \<Rightarrow> sched \<Rightarrow> sched" where
  "notify_owned_completion c cancelled sc =
     (let k = controls sc c in
      if cancelled \<or> ct_exception k = None then sc
      else case ct_owner k of
        None \<Rightarrow> sc
      | Some owner \<Rightarrow>
          if ct_finish k then log_call (CallFinish owner (ct_exception k) cancelled) sc else sc)"

definition complete_process :: "nat \<Rightarrow> bool \<Rightarrow> sched \<Rightarrow> sched result" where
  "complete_process c cancelled sc =
     (if ct_done (controls sc c) then Ok sc
      else
        let sc = upd_control c (\<lambda>k. k\<lparr>ct_done := True, ct_cancelled := cancelled, ct_requested := False\<rparr>) sc;
            sc = (if \<not> ct_owns_context (controls sc c) then notify_completion c cancelled sc
                  else notify_owned_completion c cancelled sc)
        in if ct_waiter (controls sc c) \<noteq> None \<or> ct_extra (controls sc c) \<noteq> []
           then resume_completion_waiters c sc else Ok sc)"

definition release_owned_context :: "nat \<Rightarrow> sched \<Rightarrow> sched" where
  "release_owned_context c sc =
     (let k = controls sc c in
      if \<not> ct_owns_context k then sc
      else
        let sc = upd_control c (\<lambda>k. k\<lparr>ct_owner := None, ct_finish := False\<rparr>) sc
        in case ct_owner k of
             None \<Rightarrow> sc
           | Some context \<Rightarrow>
               if ct_cleanup k
               then log_call (CallRelease context) (upd_control c (\<lambda>k. k\<lparr>ct_cleanup := False\<rparr>) sc)
               else sc)"

definition park_process :: "nat \<Rightarrow> nat option \<Rightarrow> sched \<Rightarrow> (bool \<times> sched) result" where
  "park_process handle control sc =
     (case control of
        None \<Rightarrow> Fail (Abort ''cannot await an invalid process'')
      | Some c \<Rightarrow>
        if \<not> ct_scheduled (controls sc c) then Fail (Abort ''cannot await an invalid process'')
        else if ct_done (controls sc c) then Ok (False, sc)
        else case pr_state (promises sc handle) of
          None \<Rightarrow> Fail (Abort ''coroutine was not registered with scheduler'')
        | Some i \<Rightarrow>
          result_bind (state_for handle i sc) (\<lambda>i.
          result_bind (begin_wait i ReasonProcess sc) (\<lambda>(generation, sc).
            let reg = \<lparr>reg_state = i, reg_generation = generation, reg_winner = None, reg_index = 0\<rparr>;
                used_inline_waiter = (ct_waiter (controls sc c) = None);
                sc = (if used_inline_waiter
                      then upd_control c (\<lambda>k. k\<lparr>ct_waiter := Some reg\<rparr>) sc
                      else upd_control c (\<lambda>k. k\<lparr>ct_extra := ct_extra k @ [reg]\<rparr>) sc)
            in if ct_done (controls sc c) then
                 let sc = (if used_inline_waiter
                           then upd_control c (\<lambda>k. k\<lparr>ct_waiter := None\<rparr>) sc
                           else upd_control c (\<lambda>k. k\<lparr>ct_extra := butlast (ct_extra k)\<rparr>) sc)
                 in result_bind (end_wait i sc) (\<lambda>sc. Ok (False, sc))
               else Ok (True, sc))))"

section \<open>Owners\<close>

definition owner_matches :: "(nat option \<Rightarrow> nat \<Rightarrow> bool) option \<Rightarrow> nat option \<Rightarrow> nat \<Rightarrow> bool" where
  "owner_matches matcher process_owner owner =
     (case matcher of
        None \<Rightarrow> process_owner = Some owner
      | Some m \<Rightarrow> m process_owner owner)"

definition has_process_owned_by :: "nat \<Rightarrow> (nat option \<Rightarrow> nat \<Rightarrow> bool) option \<Rightarrow> sched \<Rightarrow> bool" where
  "has_process_owned_by owner matcher sc =
     list_ex (\<lambda>c. case c of None \<Rightarrow> False
                  | Some c \<Rightarrow> owner_matches matcher (ct_owner (controls sc c)) owner)
       (process_controls sc)"

definition defer_owner_cleanup ::
  "nat option \<Rightarrow> (nat option \<Rightarrow> nat \<Rightarrow> bool) option \<Rightarrow> nat option \<Rightarrow> sched \<Rightarrow> bool \<times> sched" where
  "defer_owner_cleanup owner matcher cleanup sc =
     (case (owner, cleanup) of
        (Some owner, Some cleanup) \<Rightarrow>
          if \<not> has_process_owned_by owner matcher sc then (False, sc)
          else (True, sc\<lparr>deferred_cleanups := deferred_cleanups sc @
                  [\<lparr>oc_owner = owner, oc_matcher = matcher, oc_cleanup = cleanup\<rparr>]\<rparr>)
      | _ \<Rightarrow> (False, sc))"

text \<open>
  The loop swaps a due cleanup with the last one, shrinks the vector and looks at the same index
  again.
\<close>

function run_cleanups_from :: "nat \<Rightarrow> sched \<Rightarrow> sched" where
  "run_cleanups_from index sc =
     (if index \<ge> length (deferred_cleanups sc) then sc
      else
        let pending = deferred_cleanups sc ! index in
        if has_process_owned_by (oc_owner pending) (oc_matcher pending) sc
        then run_cleanups_from (index + 1) sc
        else
          let cs = deferred_cleanups sc;
              cs = butlast (cs[index := last cs])
          in run_cleanups_from index
               (log_call (CallCleanup (oc_cleanup pending) (oc_owner pending))
                 (sc\<lparr>deferred_cleanups := cs\<rparr>)))"
  by pat_completeness auto
termination
  by (relation "measure (\<lambda>(index, sc). length (deferred_cleanups sc) - index)")
    (auto simp: log_call_def)

declare run_cleanups_from.simps [simp del]

definition run_owner_cleanups :: "sched \<Rightarrow> sched" where
  "run_owner_cleanups sc = run_cleanups_from 0 sc"

section \<open>Cancelling\<close>

text \<open>
  The children of a coroutine: the tasks that return to it and the tasks of a join it waits for.
\<close>

definition children_of :: "nat \<Rightarrow> sched \<Rightarrow> nat list" where
  "children_of i sc =
     filter (\<lambda>k. k \<noteq> i \<and>
         (case cs_handle (states sc ! k) of
            None \<Rightarrow> False
          | Some h \<Rightarrow>
              \<not> cs_done (states sc ! k) \<and>
              (pr_continuation (promises sc h) = cs_handle (states sc ! i) \<or>
               (case pr_join (promises sc h) of None \<Rightarrow> False
                | Some j \<Rightarrow> jn_parent (joins sc j) = i))))
       [0..<length (states sc)]"

text \<open>\<open>cancel_state\<close> after its children: the coroutine itself is ended and marked done.\<close>

definition mark_cancelled :: "nat \<Rightarrow> 'a sched_core_scheme \<Rightarrow> 'a sched_core_scheme" where
  "mark_cancelled i sc =
     (let sc = sc\<lparr>next_generation := next_generation sc + 1\<rparr>;
          sc = upd_state i (\<lambda>s. s\<lparr>cs_generation := next_generation sc\<rparr>) sc;
          sc = clear_ready i sc;
          sc = upd_state i (\<lambda>s. s\<lparr>cs_done := True\<rparr>) sc
      in sc\<lparr>active_coroutines := active_coroutines sc - 1\<rparr>)"

definition cancel_self :: "nat \<Rightarrow> sched \<Rightarrow> sched result" where
  "cancel_self i sc =
     result_bind (end_wait i sc) (\<lambda>sc.
       let sc = mark_cancelled i sc
       in case cs_handle (states sc ! i) of
            None \<Rightarrow> Fail (Abort ''promise of a coroutine without handle'')
          | Some h \<Rightarrow>
            let child = (pr_continuation (promises sc h) \<noteq> None \<or> pr_join (promises sc h) \<noteq> None);
                sc = upd_promise h (\<lambda>p. p\<lparr>pr_continuation := None, pr_join := None\<rparr>) sc
            in result_bind
                 (case lookup_or None (process_by_state sc) i of
                    None \<Rightarrow> Ok sc
                  | Some c \<Rightarrow> complete_process c True sc)
                 (\<lambda>sc. Ok (if child
                    then sc\<lparr>finished_states := finished_states sc @ [Some i]\<rparr>
                    else sc\<lparr>finished_roots := finished_roots sc @ [Some i]\<rparr>)))"

text \<open>
  The recursion follows the call tree of coroutines; the fuel bounds its depth, and running out of
  it is \<open>None\<close>.
\<close>

fun cancel_state :: "nat \<Rightarrow> nat \<Rightarrow> sched \<Rightarrow> sched result option"
  and cancel_states :: "nat \<Rightarrow> nat list \<Rightarrow> sched \<Rightarrow> sched result option" where
  "cancel_state 0 i sc = None"
| "cancel_state (Suc n) i sc =
     (if i \<ge> length (states sc) then Some (Ok sc)
      else if cs_done (states sc ! i) then Some (Ok sc)
      else case cancel_states n (children_of i sc) sc of
        None \<Rightarrow> None
      | Some r \<Rightarrow> Some (result_bind r (cancel_self i)))"
| "cancel_states n [] sc = Some (Ok sc)"
| "cancel_states n (k # ks) sc =
     (case cancel_state n k sc of
        None \<Rightarrow> None
      | Some (Inl e) \<Rightarrow> Some (Inl e)
      | Some (Inr sc) \<Rightarrow> cancel_states n ks sc)"

section \<open>Finishing and reclaiming\<close>

definition mark_finished :: "nat \<Rightarrow> 'a sched_core_scheme \<Rightarrow> 'a sched_core_scheme" where
  "mark_finished i sc =
     (let sc = clear_ready i sc;
          sc = upd_state i (\<lambda>s. s\<lparr>cs_done := True\<rparr>) sc
      in sc\<lparr>active_coroutines := active_coroutines sc - 1\<rparr>)"

definition finish :: "nat \<Rightarrow> sched \<Rightarrow> sched result" where
  "finish handle sc =
     (case pr_state (promises sc handle) of
        None \<Rightarrow> Ok sc
      | Some i \<Rightarrow>
        if \<not> state_matches i handle sc then Ok sc
        else
          result_bind (if cs_waiting (states sc ! i) then end_wait i sc else Ok sc) (\<lambda>sc.
            let sc = mark_finished i sc;
                p = promises sc handle
            in if pr_continuation p \<noteq> None \<or> pr_join p \<noteq> None
               then Ok (sc\<lparr>finished_states := finished_states sc @ [Some i]\<rparr>)
               else
                 result_bind
                   (case lookup_or None (process_by_state sc) i of
                      Some c \<Rightarrow>
                        let sc = upd_control c (\<lambda>k. k\<lparr>ct_exception := pr_exception p\<rparr>) sc;
                            sc = upd_promise handle (\<lambda>p. p\<lparr>pr_exception := None\<rparr>) sc
                        in complete_process c False sc
                    | None \<Rightarrow>
                        if pr_exception p \<noteq> None
                        then Fail (Abort ''unhandled exception in coroutine'') else Ok sc)
                   (\<lambda>sc. Ok (sc\<lparr>finished_roots := finished_roots sc @ [Some i]\<rparr>))))"

text \<open>
  \<open>final_suspend\<close>: the finished coroutine tells its join or returns the coroutine to resume next.
\<close>

definition final_suspend :: "nat \<Rightarrow> sched \<Rightarrow> (nat option \<times> sched) result" where
  "final_suspend handle sc =
     result_bind (if pr_scheduled (promises sc handle) then finish handle sc else Ok sc) (\<lambda>sc'.
       let p = promises sc' handle in
       case pr_join p of
         Some j \<Rightarrow>
           result_bind (if pr_scheduled (promises sc handle)
                        then finish_join_child (Some j) (pr_exception p) sc' else Ok sc')
             (\<lambda>sc. Ok (None, sc))
       | None \<Rightarrow> Ok (pr_continuation p, sc'))"

definition release_slot :: "nat \<Rightarrow> 'a sched_core_scheme \<Rightarrow> 'a sched_core_scheme" where
  "release_slot i sc =
     (upd_state i (\<lambda>_. coroutine_state_init) sc)\<lparr>free_states := free_states sc @ [i]\<rparr>"

definition detach_control :: "nat \<Rightarrow> sched \<Rightarrow> bool \<times> sched" where
  "detach_control c sc =
     (let slot = ct_slot (controls sc c);
          sc = upd_control c (\<lambda>k. k\<lparr>ct_state := None, ct_scheduled := False, ct_slot := None\<rparr>) sc;
          sc = (case slot of None \<Rightarrow> sc
                | Some s \<Rightarrow>
                    if s < length (process_controls sc) \<and> process_controls sc ! s = Some c
                    then sc\<lparr>process_controls := (process_controls sc)[s := None],
                            free_process_slots := free_process_slots sc @ [s]\<rparr>
                    else sc);
          owns = ct_owns_context (controls sc c);
          sc = (if owns then release_owned_context c sc else sc)
      in (owns, release_control (Some c) sc))"

definition reclaim_finished_state :: "nat option \<Rightarrow> sched \<Rightarrow> sched" where
  "reclaim_finished_state index sc =
     (case index of None \<Rightarrow> sc
      | Some i \<Rightarrow>
        if i \<ge> length (states sc) then sc
        else case cs_handle (states sc ! i) of None \<Rightarrow> sc
        | Some handle \<Rightarrow>
          if \<not> cs_done (states sc ! i) then sc
          else
            let control = lookup_or None (process_by_state sc) i;
                sc = sc\<lparr>process_by_state := (process_by_state sc)[i := None]\<rparr>;
                sc = release_slot i sc;
                (released_owned_context, sc) =
                  (case control of None \<Rightarrow> (False, sc) | Some c \<Rightarrow> detach_control c sc);
                sc = upd_promise handle (\<lambda>p. p\<lparr>pr_scheduled := False\<rparr>) sc;
                sc = log_call (CallDestroy handle) sc
            in if released_owned_context \<and> deferred_cleanups sc \<noteq> []
               then run_owner_cleanups sc else sc)"

definition collect_finished_roots :: "sched \<Rightarrow> sched" where
  "collect_finished_roots sc =
     (if reclaiming sc then sc
      else (fold reclaim_finished_state (finished_roots sc) (sc\<lparr>reclaiming := True\<rparr>))
             \<lparr>finished_roots := [], reclaiming := False\<rparr>)"

definition collect_finished_states :: "sched \<Rightarrow> sched" where
  "collect_finished_states sc =
     (if reclaiming sc then sc
      else (fold reclaim_finished_state (finished_states sc) (sc\<lparr>reclaiming := True\<rparr>))
             \<lparr>finished_states := [], reclaiming := False\<rparr>)"

definition scheduler_boundary :: "sched \<Rightarrow> sched" where
  "scheduler_boundary sc =
     compact_stale_edge_queues (collect_finished_states (collect_finished_roots sc))"

text \<open>\<open>reclaim_awaited\<close>: an awaited task leaves the list of finished ones and frees its slot.\<close>

fun forget_finished :: "nat \<Rightarrow> nat option list \<Rightarrow> nat option list" where
  "forget_finished i [] = []"
| "forget_finished i (f # fs) = (if f = Some i then None # fs else f # forget_finished i fs)"

definition reclaim_awaited :: "nat \<Rightarrow> sched \<Rightarrow> sched result" where
  "reclaim_awaited handle sc =
     (case pr_state (promises sc handle) of
        None \<Rightarrow> Fail (Abort ''awaited task was not complete'')
      | Some i \<Rightarrow>
        if \<not> state_matches i handle sc \<or> \<not> cs_done (states sc ! i)
        then Fail (Abort ''awaited task was not complete'')
        else
          let fs = finished_states sc;
              fs = (if fs \<noteq> [] \<and> last fs = Some i then butlast fs else forget_finished i fs);
              sc = release_slot i (sc\<lparr>finished_states := fs\<rparr>);
              sc = upd_promise handle (\<lambda>p. p\<lparr>pr_scheduled := False\<rparr>) sc
          in Ok (log_call (CallDestroy handle) sc))"

definition awaited_done :: "nat \<Rightarrow> sched \<Rightarrow> bool" where
  "awaited_done handle sc =
     (case pr_state (promises sc handle) of
        None \<Rightarrow> False
      | Some i \<Rightarrow> state_matches i handle sc \<and> cs_done (states sc ! i))"

definition timers_changed :: "sched \<Rightarrow> sched" where
  "timers_changed sc = sc\<lparr>timers := (timers sc)\<lparr>tq_changed := True\<rparr>\<rparr>"

definition cancel_awaited :: "nat \<Rightarrow> nat \<Rightarrow> sched \<Rightarrow> sched result option" where
  "cancel_awaited fuel handle sc =
     (case pr_state (promises sc handle) of
        None \<Rightarrow> Some (Fail (Abort ''timed task is not scheduler-owned''))
      | Some i \<Rightarrow>
        if \<not> state_matches i handle sc
        then Some (Fail (Abort ''timed task is not scheduler-owned''))
        else if cs_done (states sc ! i) then Some (Ok sc)
        else map_option (\<lambda>r. result_bind r (\<lambda>sc. Ok (timers_changed sc))) (cancel_state fuel i sc))"

text \<open>\<open>apply_pending_cancellations\<close>: what was cancelled while coroutines were running.\<close>

fun cancel_pending :: "nat \<Rightarrow> nat list \<Rightarrow> sched \<Rightarrow> sched result option" where
  "cancel_pending fuel [] sc = Some (Ok sc)"
| "cancel_pending fuel (c # cs) sc =
     (if \<not> ct_scheduled (controls sc c) \<or> ct_done (controls sc c) then cancel_pending fuel cs sc
      else case ct_state (controls sc c) of
        None \<Rightarrow> cancel_pending fuel cs (timers_changed sc)
      | Some i \<Rightarrow>
        (case cancel_state fuel i sc of
           None \<Rightarrow> None
         | Some (Inl e) \<Rightarrow> Some (Inl e)
         | Some (Inr sc) \<Rightarrow> cancel_pending fuel cs (timers_changed sc)))"

definition apply_pending_cancellations :: "nat \<Rightarrow> sched \<Rightarrow> sched result option" where
  "apply_pending_cancellations fuel sc =
     map_option (\<lambda>r. result_bind r (\<lambda>sc. Ok (sc\<lparr>pending_cancellations := []\<rparr>)))
       (cancel_pending fuel (pending_cancellations sc) sc)"

end
