(* ===== verification/Drain.thy ===== *)
theory Drain
  imports Processes
begin

text \<open>
  Running ready coroutines (\<open>drain_ready\<close>, \<open>run_process_if_only_ready\<close>) and the entry points of the
  scheduler that end in a drain. Resuming a coroutine runs user code up to its next suspension;
  that code is the parameter \<open>resume\<close>, applied to the coroutine's handle and the scheduler. The
  fuel bounds the number of ready entries taken, and the depth of a cancellation; running out of
  it is \<open>None\<close>.
\<close>

type_synonym body = "nat \<Rightarrow> sched \<Rightarrow> sched result"

section \<open>The ready queue\<close>

text \<open>Moving the cursor past the entry it stands on; a long consumed prefix is dropped.\<close>

definition advance_cursor :: "'a sched_core_scheme \<Rightarrow> 'a sched_core_scheme" where
  "advance_cursor sc =
     (let sc = sc\<lparr>ready_cursor := ready_cursor sc + 1\<rparr>
      in if ready_cursor sc \<ge> 1024 \<and> ready_cursor sc * 2 \<ge> length (ready_queue sc)
         then sc\<lparr>ready_queue := drop (ready_cursor sc) (ready_queue sc), ready_cursor := 0\<rparr>
         else sc)"

text \<open>One turn of the loop, up to the resumption: the next live entry, if it is one.\<close>

definition take_ready :: "'a sched_core_scheme \<Rightarrow> (nat \<times> nat) option \<times> 'a sched_core_scheme" where
  "take_ready sc =
     (let i = ready_queue sc ! ready_cursor sc;
          sc = advance_cursor sc
      in if i \<ge> length (states sc) then (None, sc)
         else case cs_handle (states sc ! i) of None \<Rightarrow> (None, sc)
         | Some handle \<Rightarrow>
           if cs_done (states sc ! i) \<or> \<not> cs_ready (states sc ! i) then (None, sc)
           else (Some (i, handle), clear_ready i sc))"

definition run_ready :: "body \<Rightarrow> nat \<Rightarrow> nat \<Rightarrow> sched \<Rightarrow> sched result" where
  "run_ready resume i handle sc =
     (let previous_context = current_context sc;
          previous_state = current_state sc;
          sc = sc\<lparr>current_context := pr_context (promises sc handle), current_state := Some i\<rparr>
      in result_bind (resume handle sc) (\<lambda>sc.
           Ok (sc\<lparr>current_context := previous_context, current_state := previous_state\<rparr>)))"

fun drain_ready_queue :: "body \<Rightarrow> nat \<Rightarrow> nat \<Rightarrow> sched \<Rightarrow> sched result option" where
  "drain_ready_queue resume depth fuel sc =
     (if ready_cursor sc \<ge> length (ready_queue sc) then Some (Ok sc)
      else case fuel of 0 \<Rightarrow> None
      | Suc fuel \<Rightarrow>
        (case take_ready sc of
           (None, sc) \<Rightarrow> drain_ready_queue resume depth fuel sc
         | (Some (i, handle), sc) \<Rightarrow>
           (case run_ready resume i handle sc of
              Inl e \<Rightarrow> Some (Inl e)
            | Inr sc \<Rightarrow>
              (case apply_pending_cancellations depth sc of
                 None \<Rightarrow> None
               | Some (Inl e) \<Rightarrow> Some (Inl e)
               | Some (Inr sc) \<Rightarrow> drain_ready_queue resume depth fuel (collect_finished_roots sc)))))"

declare drain_ready_queue.simps [simp del]

definition drain_ready :: "body \<Rightarrow> nat \<Rightarrow> nat \<Rightarrow> sched \<Rightarrow> sched result option" where
  "drain_ready resume depth fuel sc =
     (if draining sc then Some (Ok sc)
      else map_option (\<lambda>r. result_bind r (\<lambda>sc.
             Ok (scheduler_boundary (sc\<lparr>ready_queue := [], ready_cursor := 0, draining := False\<rparr>))))
           (drain_ready_queue resume depth fuel (sc\<lparr>draining := True, ready_cursor := 0\<rparr>)))"

definition max_inline_depth :: nat where "max_inline_depth = 64"

text \<open>
  \<open>run_process_if_only_ready\<close>: the result is whether the process is done, whether its parent must
  be queued behind other work, and the scheduler.
\<close>

definition only_ready :: "nat \<Rightarrow> sched \<Rightarrow> bool" where
  "only_ready i sc =
     (cs_handle (states sc ! i) \<noteq> None \<and> cs_ready (states sc ! i) \<and> \<not> cs_done (states sc ! i) \<and>
      live_ready sc = 1)"

definition consume_only_ready :: "nat \<Rightarrow> 'a sched_core_scheme \<Rightarrow> 'a sched_core_scheme" where
  "consume_only_ready i sc =
     (let sc = (if length (ready_queue sc) = ready_cursor sc + 1
                then sc\<lparr>ready_queue := butlast (ready_queue sc)\<rparr>
                else sc\<lparr>ready_queue := take (ready_cursor sc) (ready_queue sc)\<rparr>)
      in (upd_state i (\<lambda>s. s\<lparr>cs_ready := False\<rparr>) sc)\<lparr>live_ready := live_ready sc - 1\<rparr>)"

definition after_inline_run :: "nat \<Rightarrow> sched \<Rightarrow> bool \<times> bool \<times> sched" where
  "after_inline_run c sc =
     (let sc =
        (if ct_done (controls sc c) \<and> length (finished_roots sc) = 1 \<and>
            last (finished_roots sc) = ct_state (controls sc c)
         then
           let finished = last (finished_roots sc);
               sc = sc\<lparr>finished_roots := butlast (finished_roots sc), reclaiming := True\<rparr>
           in (reclaim_finished_state finished sc)\<lparr>reclaiming := False\<rparr>
         else collect_finished_roots sc);
          finished = ct_done (controls sc c)
      in (finished,
          finished \<and> (ct_exception (controls sc c) \<noteq> None \<or> pending_cancellations sc \<noteq> [] \<or>
                       live_ready sc \<noteq> 0),
          sc))"

definition run_process_if_only_ready ::
  "body \<Rightarrow> nat option \<Rightarrow> sched \<Rightarrow> (bool \<times> bool \<times> sched) result" where
  "run_process_if_only_ready resume control sc =
     (case control of None \<Rightarrow> Ok (False, False, sc)
      | Some c \<Rightarrow>
        let k = controls sc c in
        if \<not> draining sc \<or> \<not> ct_scheduled k \<or> ct_done k then Ok (ct_done k, False, sc)
        else case ct_state k of None \<Rightarrow> Ok (ct_done k, False, sc)
        | Some i \<Rightarrow>
          if i \<ge> length (states sc) then Ok (ct_done k, False, sc)
          else if inline_depth sc \<ge> max_inline_depth then Ok (False, False, sc)
          else if \<not> only_ready i sc then Ok (False, False, sc)
          else case cs_handle (states sc ! i) of None \<Rightarrow> Ok (False, False, sc)
          | Some handle \<Rightarrow>
            let sc = consume_only_ready i sc;
                sc = sc\<lparr>inline_depth := inline_depth sc + 1\<rparr>
            in result_bind (run_ready resume i handle sc) (\<lambda>sc.
                 Ok (after_inline_run c (sc\<lparr>inline_depth := inline_depth sc - 1\<rparr>))))"

definition defer_process_parent :: "nat \<Rightarrow> sched \<Rightarrow> sched result" where
  "defer_process_parent handle sc =
     (case pr_state (promises sc handle) of
        None \<Rightarrow> Fail (Abort ''coroutine was not registered with scheduler'')
      | Some i \<Rightarrow> result_bind (state_for handle i sc) (\<lambda>i. Ok (make_ready i sc)))"

section \<open>Entry points\<close>

definition spawn ::
  "body \<Rightarrow> nat \<Rightarrow> nat \<Rightarrow> nat option \<Rightarrow> nat option \<Rightarrow> (nat \<times> bool) option \<Rightarrow> sched \<Rightarrow>
   (nat option \<times> sched) result option" where
  "spawn resume depth fuel task context handler sc =
     (case enlist task context handler sc of
        (None, sc) \<Rightarrow> Some (Ok (None, sc))
      | (Some c, sc) \<Rightarrow>
          map_option (\<lambda>r. result_bind r (\<lambda>sc. Ok (Some c, sc))) (drain_ready resume depth fuel sc))"

definition spawn_owned ::
  "body \<Rightarrow> nat \<Rightarrow> nat \<Rightarrow> nat option \<Rightarrow> nat \<Rightarrow> bool \<Rightarrow> bool \<Rightarrow> sched \<Rightarrow>
   (nat option \<times> sched) result option" where
  "spawn_owned resume depth fuel task context has_finish has_cleanup sc =
     (case enlist_owned task context has_finish has_cleanup sc of
        (None, sc) \<Rightarrow> Some (Ok (None, sc))
      | (Some c, sc) \<Rightarrow>
          map_option (\<lambda>r. result_bind r (\<lambda>sc. Ok (Some c, sc))) (drain_ready resume depth fuel sc))"

definition spawn_detached ::
  "body \<Rightarrow> nat \<Rightarrow> nat \<Rightarrow> nat option \<Rightarrow> nat option \<Rightarrow> sched \<Rightarrow> sched result option" where
  "spawn_detached resume depth fuel task context sc =
     (if shutting_down sc \<or> task = None then Some (Ok sc)
      else drain_ready resume depth fuel (enlist_detached task context sc))"

definition start_timeout ::
  "body \<Rightarrow> nat \<Rightarrow> nat \<Rightarrow> sim_time \<Rightarrow> sched \<Rightarrow> sched result" where
  "start_timeout resume parent child timeout sc =
     result_bind (start_timeout_child parent child timeout sc) (\<lambda>(reg, sc).
     result_bind (resume child sc) (\<lambda>sc. arm_timeout timeout reg sc))"

definition cancel_process ::
  "body \<Rightarrow> nat \<Rightarrow> nat \<Rightarrow> nat option \<Rightarrow> sched \<Rightarrow> sched result option" where
  "cancel_process resume depth fuel control sc =
     (case control of None \<Rightarrow> Some (Ok sc)
      | Some c \<Rightarrow>
        let k = controls sc c in
        if \<not> ct_scheduled k \<or> ct_done k then Some (Ok sc)
        else if draining sc then
          Some (Ok (if ct_requested k then sc
            else (upd_control c (\<lambda>k. k\<lparr>ct_requested := True\<rparr>) sc)
                   \<lparr>pending_cancellations := pending_cancellations sc @ [c]\<rparr>))
        else
          let sc = upd_control c (\<lambda>k. k\<lparr>ct_requested := True\<rparr>) sc in
          case (case ct_state k of None \<Rightarrow> Some (Ok sc) | Some i \<Rightarrow> cancel_state depth i sc) of
            None \<Rightarrow> None
          | Some (Inl e) \<Rightarrow> Some (Inl e)
          | Some (Inr sc) \<Rightarrow> drain_ready resume depth fuel (timers_changed sc))"

fun cancel_all ::
  "body \<Rightarrow> nat \<Rightarrow> nat \<Rightarrow> nat list \<Rightarrow> sched \<Rightarrow> sched result option" where
  "cancel_all resume depth fuel [] sc = Some (Ok sc)"
| "cancel_all resume depth fuel (c # cs) sc =
     (case cancel_process resume depth fuel (Some c) sc of
        None \<Rightarrow> None
      | Some (Inl e) \<Rightarrow> Some (Inl e)
      | Some (Inr sc) \<Rightarrow> cancel_all resume depth fuel cs sc)"

definition owned_processes :: "nat \<Rightarrow> (nat option \<Rightarrow> nat \<Rightarrow> bool) option \<Rightarrow> sched \<Rightarrow> nat list" where
  "owned_processes owner matcher sc =
     filter (\<lambda>c. \<not> ct_done (controls sc c) \<and> owner_matches matcher (ct_owner (controls sc c)) owner)
       (List.map_filter id (process_controls sc))"

definition cancel_processes_owned_by ::
  "body \<Rightarrow> nat \<Rightarrow> nat \<Rightarrow> nat option \<Rightarrow> (nat option \<Rightarrow> nat \<Rightarrow> bool) option \<Rightarrow> sched \<Rightarrow>
   sched result option" where
  "cancel_processes_owned_by resume depth fuel owner matcher sc =
     (case owner of None \<Rightarrow> Some (Ok sc)
      | Some owner \<Rightarrow>
        let owned = owned_processes owner matcher sc;
            sc = fold (\<lambda>c. retain_control (Some c)) owned sc
        in map_option (\<lambda>r. result_bind r (\<lambda>sc. Ok (fold (\<lambda>c. release_control (Some c)) owned sc)))
             (cancel_all resume depth fuel owned sc))"

text \<open>A notification drains when it woke somebody and only tidies up otherwise.\<close>

definition after_wake :: "body \<Rightarrow> nat \<Rightarrow> nat \<Rightarrow> (bool \<times> sched) result \<Rightarrow> sched result option" where
  "after_wake resume depth fuel r =
     (case r of
        Inl e \<Rightarrow> Some (Inl e)
      | Inr (resumed, sc) \<Rightarrow>
          if resumed then drain_ready resume depth fuel sc else Some (Ok (scheduler_boundary sc)))"

definition resume_edge :: "body \<Rightarrow> nat \<Rightarrow> nat \<Rightarrow> nat \<Rightarrow> edge_kind \<Rightarrow> sched \<Rightarrow> sched result option" where
  "resume_edge resume depth fuel signal_id edge sc =
     after_wake resume depth fuel (wake_edge signal_id edge sc)"

definition resume_phase :: "body \<Rightarrow> nat \<Rightarrow> nat \<Rightarrow> wait_kind \<Rightarrow> sched \<Rightarrow> sched result option" where
  "resume_phase resume depth fuel kind sc = after_wake resume depth fuel (wake_phase kind sc)"

text \<open>\<open>advance_time\<close> returns at once, without tidying up, when the earliest timer is not due.\<close>

definition advance_time :: "body \<Rightarrow> nat \<Rightarrow> nat \<Rightarrow> u64 \<Rightarrow> sched \<Rightarrow> sched result option" where
  "advance_time resume depth fuel time sc =
     (if (case tq_next (timers sc) of None \<Rightarrow> True | Some t \<Rightarrow> t_deadline t > time)
      then Some (result_bind (wake_time time sc) (\<lambda>(_, sc). Ok sc))
      else after_wake resume depth fuel (wake_time time sc))"

definition flush_external_wakes :: "body \<Rightarrow> nat \<Rightarrow> nat \<Rightarrow> sched \<Rightarrow> sched result option" where
  "flush_external_wakes resume depth fuel sc = drain_ready resume depth fuel sc"

end
