(* ===== verification/ProcessLemmas.thy ===== *)
theory ProcessLemmas
  imports Processes SchedWaking
begin

text \<open>
  What the process layer does to the invariant of the scheduler core: completing a process wakes
  exactly the parties waiting for it, in order, and leaves every slot's handle and done flag alone.
\<close>

section \<open>The invariant and the process layer\<close>

text \<open>The invariant reads the scheduler core only.\<close>

lemma registration_valid_truncate: "registration_valid (sched_core.truncate sc) = registration_valid sc"
  by (rule registration_valid_cong) (simp add: sched_core.defs)

lemma core_ok_truncate: "core_ok (sched_core.truncate sc) = core_ok sc"
proof -
  have v: "registration_valid (sched_core.truncate sc) = registration_valid sc" by (rule registration_valid_truncate)
  have k: "regs_known (sched_core.truncate sc) = regs_known sc"
    by (simp add: fun_eq_iff regs_known_def sched_core.defs)
  have c: "stale_of (sched_core.truncate sc) = stale_of sc" "valid_of (sched_core.truncate sc) = valid_of sc"
    by (simp_all add: fun_eq_iff stale_of_def valid_of_def v)
  show ?thesis
    unfolding core_ok_def core_defs k c by (simp add: sched_core.defs)
qed

lemma core_ok_ext: "sched_core.truncate a = sched_core.truncate b \<Longrightarrow> core_ok a = core_ok b"
  by (metis core_ok_truncate)

lemma registration_valid_ext: "sched_core.truncate a = sched_core.truncate b \<Longrightarrow> registration_valid a = registration_valid b"
  by (metis registration_valid_truncate)

lemma truncate_process_layer [simp]:
  "sched_core.truncate (upd_promise h f sc) = sched_core.truncate sc"
  "sched_core.truncate (upd_control c g sc) = sched_core.truncate sc"
  "sched_core.truncate (upd_join j k sc) = sched_core.truncate sc"
  "sched_core.truncate (log_call e sc) = sched_core.truncate sc"
  "sched_core.truncate (sc\<lparr>joins := x1\<rparr>) = sched_core.truncate sc"
  "sched_core.truncate (sc\<lparr>next_join := x2\<rparr>) = sched_core.truncate sc"
  "sched_core.truncate (sc\<lparr>next_control := x3\<rparr>) = sched_core.truncate sc"
  "sched_core.truncate (sc\<lparr>process_controls := x4\<rparr>) = sched_core.truncate sc"
  "sched_core.truncate (sc\<lparr>process_by_state := x5\<rparr>) = sched_core.truncate sc"
  "sched_core.truncate (sc\<lparr>pending_cancellations := x6\<rparr>) = sched_core.truncate sc"
  "sched_core.truncate (sc\<lparr>deferred_cleanups := x7\<rparr>) = sched_core.truncate sc"
  "sched_core.truncate (sc\<lparr>free_process_slots := x8\<rparr>) = sched_core.truncate sc"
  "sched_core.truncate (sc\<lparr>finished_states := x9\<rparr>) = sched_core.truncate sc"
  "sched_core.truncate (sc\<lparr>finished_roots := x10\<rparr>) = sched_core.truncate sc"
  "sched_core.truncate (sc\<lparr>draining := x11\<rparr>) = sched_core.truncate sc"
  "sched_core.truncate (sc\<lparr>reclaiming := x12\<rparr>) = sched_core.truncate sc"
  "sched_core.truncate (sc\<lparr>inline_depth := x13\<rparr>) = sched_core.truncate sc"
  "sched_core.truncate (sc\<lparr>current_state := x14\<rparr>) = sched_core.truncate sc"
  "sched_core.truncate (sc\<lparr>current_context := x15\<rparr>) = sched_core.truncate sc"
  by (simp_all add: sched_core.defs upd_promise_def upd_control_def upd_join_def log_call_def)

lemmas core_ok_layer [simp] = truncate_process_layer [THEN core_ok_ext]

lemmas registration_valid_layer [simp] = truncate_process_layer [THEN registration_valid_ext]

lemma states_layer [simp]:
  "states (upd_promise h f sc) = states sc" "states (upd_control c g sc) = states sc"
  "states (upd_join j k sc) = states sc" "states (log_call e sc) = states sc"
  by (simp_all add: upd_promise_def upd_control_def upd_join_def log_call_def)

section \<open>Changing an idle slot\<close>

lemma idle_slot_change:
  assumes ok: "core_ok sc" and i: "i < length (states sc)" and idle: "\<not> cs_waiting (states sc ! i)"
    and st: "states sc' = (states sc)[i := s]"
    and s: "\<not> cs_waiting s" "\<not> cs_ready s" "cs_edge_waits s = 0" "cs_falling_waits s = 0"
      "cs_generation s \<le> next_generation sc'"
    and gen: "next_generation sc \<le> next_generation sc'"
    and live: "live_ready sc' = live_ready sc - (if cs_ready (states sc ! i) then 1 else 0)"
    and same: "length (diags sc') = length (diags sc)" "interest sc' = interest sc"
      "edge_waiters sc' = edge_waiters sc" "edge_entries sc' = edge_entries sc"
      "stale_regs sc' = stale_regs sc" "falling_regs sc' = falling_regs sc"
      "phase_waiters sc' = phase_waiters sc" "phase_counts sc' = phase_counts sc"
      "phase_by_state sc' = phase_by_state sc" "timer_list (timers sc') = timer_list (timers sc)"
      "ready_queue sc' = ready_queue sc" "ready_cursor sc' = ready_cursor sc"
    and free: "free_ok sc'"
  shows "core_ok sc' \<and> registration_valid sc' = registration_valid sc"
proof (rule conjI)
  show valid: "registration_valid sc' = registration_valid sc"
  proof
    fix r show "registration_valid sc' r = registration_valid sc r"
    proof (cases "reg_state r = i")
      case True
      then show ?thesis using i idle s(1) by (simp add: registration_valid_def st Let_def)
    next
      case False
      then show ?thesis by (rule registration_valid_other [OF st])
    qed
  qed
  have known: "regs_known sc' regs" if "regs_known sc regs" for regs
    using that by (rule regs_known_mono) (simp_all add: st gen)
  have e0: "cs_edge_waits (states sc ! i) = 0"
    using core_okD(3) [OF ok] i not_waiting_invalid [OF i idle] by (simp add: edges_ok_def)
  have f0: "cs_falling_waits (states sc ! i) = 0"
    using slot_okI [OF ok i] e0 by (simp add: slot_ok_def)
  have fields: "cs_edge_waits ((states sc)[i := s] ! j) = cs_edge_waits (states sc ! j)"
    "cs_falling_waits ((states sc)[i := s] ! j) = cs_falling_waits (states sc ! j)"
    "cs_waiting ((states sc)[i := s] ! j) = cs_waiting (states sc ! j)" for j
    using i s e0 f0 idle by (cases "j = i"; simp)+
  show "core_ok sc'"
  proof (rule core_okI)
    show "shape_ok sc'" using core_okD(1) [OF ok] by (simp add: shape_ok_def st same)
    have "slot_ok (next_generation sc') x" if "slot_ok (next_generation sc) x" for x
      using that gen by (auto simp: slot_ok_def)
    moreover have "slot_ok (next_generation sc') s" using s by (simp add: slot_ok_def)
    ultimately show "slots_ok sc'"
      using core_okD(2) [OF ok] unfolding slots_ok_def st by (auto dest!: set_update_subset_insert [THEN subsetD])
    show "edges_ok sc'"
      using core_okD(3) [OF ok] known unfolding edges_ok_def same stale_of_def valid_of_def valid
      by (simp add: st fields)
    have "map cs_falling_waits ((states sc)[i := s]) = map cs_falling_waits (states sc)"
      by (simp add: list_eq_iff_nth_eq fields)
    then show "interest_ok sc'" using core_okD(4) [OF ok] by (simp add: interest_ok_def st same fields)
    show "phases_ok sc'"
      using core_okD(5) [OF ok] known unfolding phases_ok_def same by (simp add: st fields)
    have "length (filter cs_ready ((states sc)[i := s])) + (if cs_ready (states sc ! i) then 1 else 0)
        = length (filter cs_ready (states sc))"
      using filter_update_length [OF i, of cs_ready s] s(2) by simp
    then show "ready_ok sc'"
      using core_okD(6) [OF ok] i s(2) by (auto simp add: ready_ok_def st same live nth_list_update split: if_splits)
    show "regs_known sc' (timer_regs (timers sc'))"
      using core_okD(7) [OF ok] known by (simp add: timer_regs_list same)
  qed (rule free)
qed

lemma busy_not_free:
  assumes "core_ok sc" "cs_handle (states sc ! i) \<noteq> None" shows "i \<notin> set (free_states sc)"
  using core_okD(8) [OF assms(1)] assms(2) by (auto simp: free_ok_def coroutine_state_init_def)

lemma free_ok_update:
  "free_ok sc \<Longrightarrow> i \<notin> set (free_states sc) \<Longrightarrow> states sc' = (states sc)[i := s] \<Longrightarrow>
   free_states sc' = free_states sc \<Longrightarrow> free_ok sc'"
  by (auto simp: free_ok_def) (metis nth_list_update_neq)

text \<open>\<open>end_wait\<close> leaves the handle and the done flag of a slot alone.\<close>

lemma end_wait_cases:
  assumes "core_ok sc" "i < length (states sc)"
  obtains sc' where "end_wait i sc = Inr sc'" "core_ok sc'" "\<not> cs_waiting (states sc' ! i)"
    "length (states sc') = length (states sc)"
    "\<And>j. cs_handle (states sc' ! j) = cs_handle (states sc ! j)"
    "\<And>j. cs_done (states sc' ! j) = cs_done (states sc ! j)"
    "\<And>j. cs_ready (states sc' ! j) = cs_ready (states sc ! j)"
    "\<And>r. registration_valid sc' r \<longleftrightarrow> registration_valid sc r \<and> reg_state r \<noteq> i"
    "ready_queue sc' = ready_queue sc" "ready_cursor sc' = ready_cursor sc" "timers sc' = timers sc"
    "edge_waiters sc' = edge_waiters sc" "phase_waiters sc' = phase_waiters sc"
    "next_generation sc' = next_generation sc" "free_states sc' = free_states sc"
    "sched_core.more sc' = sched_core.more sc"
proof (cases "cs_waiting (states sc ! i)")
  case True
  obtain ei where ei: "end_wait i sc = Inr (ended_core i ei sc)" "core_ok (ended_core i ei sc)"
    using end_wait_core [OF assms True] ended_core_ok [OF assms True] by blast
  have "registration_valid (ended_core i ei sc) r \<longleftrightarrow> registration_valid sc r \<and> reg_state r \<noteq> i" for r
    by (rule valid_after_end [OF _ ended_not_waiting]) simp
  moreover have "cs_handle ((states sc)[i := ended (states sc ! i)] ! j) = cs_handle (states sc ! j)"
    "cs_done ((states sc)[i := ended (states sc ! i)] ! j) = cs_done (states sc ! j)"
    "cs_ready ((states sc)[i := ended (states sc ! i)] ! j) = cs_ready (states sc ! j)" for j
    using assms(2) by (cases "j = i"; simp)+
  ultimately show ?thesis using ei assms(2) by (intro that [of "ended_core i ei sc"]) (simp_all, simp add: ended_core_def)
next
  case False
  have "registration_valid sc r \<longleftrightarrow> registration_valid sc r \<and> reg_state r \<noteq> i" for r
    using False by (auto simp: registration_valid_def Let_def split: if_splits)
  with False assms show ?thesis by (intro that [of sc]) (simp_all add: end_wait_def)
qed

lemma clear_ready_ok:
  assumes ok: "core_ok sc" and i: "i < length (states sc)" "\<not> cs_waiting (states sc ! i)"
  shows "core_ok (clear_ready i sc) \<and> registration_valid (clear_ready i sc) = registration_valid sc"
proof (cases "cs_ready (states sc ! i)")
  case True
  have e0: "cs_edge_waits (states sc ! i) = 0"
    using core_okD(3) [OF ok] i not_waiting_invalid [OF i] by (simp add: edges_ok_def)
  have f0: "cs_falling_waits (states sc ! i) = 0" using slot_okI [OF ok i(1)] e0 by (simp add: slot_ok_def)
  have h: "cs_handle (states sc ! i) \<noteq> None" using slot_okI [OF ok i(1)] True by (simp add: slot_ok_def)
  have gen: "cs_generation (states sc ! i) \<le> next_generation sc" using slot_okI [OF ok i(1)] by (simp add: slot_ok_def)
  have eq: "clear_ready i sc = sc\<lparr>states := (states sc)[i := (states sc ! i)\<lparr>cs_ready := False\<rparr>],
      live_ready := live_ready sc - (if cs_ready (states sc ! i) then 1 else 0)\<rparr>"
    by (rule clear_ready_states [OF i(1)])
  show ?thesis unfolding eq
    by (rule idle_slot_change [OF ok i, where s = "(states sc ! i)\<lparr>cs_ready := False\<rparr>"])
      (use e0 f0 h gen i in \<open>auto intro: free_ok_update [OF core_okD(8) [OF ok] busy_not_free [OF ok h]]\<close>)
next
  case False
  then show ?thesis using ok by (simp add: clear_ready_def)
qed

lemma idle_counts:
  assumes ok: "core_ok sc" and i: "i < length (states sc)" "\<not> cs_waiting (states sc ! i)"
  shows "cs_edge_waits (states sc ! i) = 0" "cs_falling_waits (states sc ! i) = 0"
    "cs_generation (states sc ! i) \<le> next_generation sc"
proof -
  show e0: "cs_edge_waits (states sc ! i) = 0"
    using core_okD(3) [OF ok] i not_waiting_invalid [OF i] by (simp add: edges_ok_def)
  show "cs_falling_waits (states sc ! i) = 0" using slot_okI [OF ok i(1)] e0 by (simp add: slot_ok_def)
  show "cs_generation (states sc ! i) \<le> next_generation sc" using slot_okI [OF ok i(1)] by (simp add: slot_ok_def)
qed

lemma nth_list_update': "xs[i := x] ! j = (if i = j \<and> i < length xs then x else xs ! j)"
  by (cases "i < length xs") (auto simp: nth_list_update list_update_beyond)

lemma clear_ready_frame [simp]:
  "length (states (clear_ready i sc)) = length (states sc)"
  "cs_waiting (states (clear_ready i sc) ! j) = cs_waiting (states sc ! j)"
  "cs_handle (states (clear_ready i sc) ! j) = cs_handle (states sc ! j)"
  "cs_done (states (clear_ready i sc) ! j) = cs_done (states sc ! j)"
  "timers (clear_ready i sc) = timers sc" "ready_queue (clear_ready i sc) = ready_queue sc"
  "ready_cursor (clear_ready i sc) = ready_cursor sc" "free_states (clear_ready i sc) = free_states sc"
  "next_generation (clear_ready i sc) = next_generation sc"
  by (simp_all add: clear_ready_def upd_state_def nth_list_update')

lemma clear_ready_not [simp]: "i < length (states sc) \<Longrightarrow> \<not> cs_ready (states (clear_ready i sc) ! i)"
  by (simp add: clear_ready_def upd_state_def)

text \<open>A coroutine ends: its wait is over, it is not ready, and it is marked done.\<close>

definition done_core :: "nat \<Rightarrow> nat \<Rightarrow> sched \<Rightarrow> sched" where
  "done_core i gen sc =
     (let sc = clear_ready i sc in
      sc\<lparr>next_generation := next_generation sc + gen,
         states := (states sc)[i := (states sc ! i)\<lparr>cs_done := True,
           cs_generation := (if gen = 0 then cs_generation (states sc ! i) else next_generation sc + gen)\<rparr>],
         active_coroutines := active_coroutines sc - 1\<rparr>)"

lemma done_core_ok:
  assumes ok: "core_ok sc" and i: "i < length (states sc)" "\<not> cs_waiting (states sc ! i)"
    and h: "cs_handle (states sc ! i) \<noteq> None"
  shows "core_ok (done_core i gen sc) \<and> registration_valid (done_core i gen sc) = registration_valid sc"
proof -
  let ?c = "clear_ready i sc"
  have c: "core_ok ?c" "registration_valid ?c = registration_valid sc" using clear_ready_ok [OF ok i] by simp_all
  have ic: "i < length (states ?c)" "\<not> cs_waiting (states ?c ! i)" "cs_handle (states ?c ! i) \<noteq> None"
    "\<not> cs_ready (states ?c ! i)" using i h by simp_all
  note counts = idle_counts [OF c(1) ic(1,2)]
  let ?s = "(states ?c ! i)\<lparr>cs_done := True,
      cs_generation := (if gen = 0 then cs_generation (states ?c ! i) else next_generation ?c + gen)\<rparr>"
  have "core_ok (done_core i gen sc) \<and> registration_valid (done_core i gen sc) = registration_valid ?c"
    by (rule idle_slot_change [OF c(1) ic(1,2), where s = ?s])
      (use counts ic in \<open>auto simp: done_core_def Let_def intro: free_ok_update [OF core_okD(8) [OF c(1)] busy_not_free [OF c(1) ic(3)]]\<close>)
  then show ?thesis using c(2) by simp
qed

lemma resume_registrations_ok:
  "core_ok sc \<Longrightarrow> \<exists>sc'. resume_registrations regs sc = Inr sc' \<and> core_ok sc' \<and>
     timers sc' = timers sc \<and> ready_cursor sc' = ready_cursor sc \<and>
     ready_queue sc' = ready_queue sc @ woken_states sc regs \<and>
     (\<forall>r. registration_valid sc' r \<longleftrightarrow> registration_valid sc r \<and> reg_state r \<notin> set (woken_states sc regs))"
proof (induction regs arbitrary: sc)
  case Nil
  then show ?case by (simp add: woken_states_def)
next
  case (Cons reg regs)
  obtain sc1 where 1: "resume_registration reg sc = Inr (registration_valid sc reg, sc1)" "resumed_core reg sc sc1"
    using resume_registration_ok [OF Cons.prems] by blast
  have rv: "\<forall>r. registration_valid sc1 r \<longleftrightarrow>
      registration_valid sc r \<and> \<not> (registration_valid sc reg \<and> reg_state r = reg_state reg)"
    and ok1: "core_ok sc1" using 1(2) by (simp_all add: resumed_core_def)
  obtain sc' where 2: "resume_registrations regs sc1 = Inr sc'" "core_ok sc'" "timers sc' = timers sc1"
    "ready_cursor sc' = ready_cursor sc1" "ready_queue sc' = ready_queue sc1 @ woken_states sc1 regs"
    "\<forall>r. registration_valid sc' r \<longleftrightarrow> registration_valid sc1 r \<and> reg_state r \<notin> set (woken_states sc1 regs)"
    using Cons.IH [OF ok1] by blast
  have "registration_valid sc' r \<longleftrightarrow> registration_valid sc r \<and> reg_state r \<notin> set (woken_states sc (reg # regs))" for r
    using 2(6) rv woken_states_step [OF rv, of regs] by auto
  then show ?case
    using 1 2 woken_states_step [OF rv, of regs] by (intro exI [of _ sc']) (simp add: resumed_core_def)
qed

lemma woken_states_cong: "registration_valid a = registration_valid b \<Longrightarrow> woken_states a = woken_states b"
  by (rule ext) (simp only: woken_states_def)

lemma layer_frame [simp]:
  "ready_queue (upd_control c g sc) = ready_queue sc" "ready_cursor (upd_control c g sc) = ready_cursor sc"
  "timers (upd_control c g sc) = timers sc" "controls (upd_control c g sc) = (controls sc)(c := g (controls sc c))"
  "ready_queue (log_call e sc) = ready_queue sc" "ready_cursor (log_call e sc) = ready_cursor sc"
  "timers (log_call e sc) = timers sc" "controls (log_call e sc) = controls sc"
  "ready_queue (upd_promise h f sc) = ready_queue sc" "ready_cursor (upd_promise h f sc) = ready_cursor sc"
  "timers (upd_promise h f sc) = timers sc" "controls (upd_promise h f sc) = controls sc"
  "process_by_state (upd_promise h f sc) = process_by_state sc"
  by (simp_all add: upd_control_def log_call_def upd_promise_def)

definition completion_regs :: "process_control \<Rightarrow> registration list" where
  "completion_regs k = (case ct_waiter k of None \<Rightarrow> [] | Some r \<Rightarrow> [r]) @ ct_extra k"

lemma resume_completion_waiters_ok:
  assumes "core_ok sc"
  shows "\<exists>sc'. resume_completion_waiters c sc = Inr sc' \<and> core_ok sc' \<and> timers sc' = timers sc \<and>
    ready_cursor sc' = ready_cursor sc \<and>
    ready_queue sc' = ready_queue sc @ woken_states sc (completion_regs (controls sc c))"
proof (cases "ct_waiter (controls sc c)")
  case None
  obtain sc' where "resume_registrations (ct_extra (controls sc c)) sc = Inr sc'" "core_ok sc'"
    "timers sc' = timers sc" "ready_cursor sc' = ready_cursor sc"
    "ready_queue sc' = ready_queue sc @ woken_states sc (ct_extra (controls sc c))"
    using resume_registrations_ok [OF assms] by blast
  then show ?thesis using None by (simp add: resume_completion_waiters_def Let_def completion_regs_def)
next
  case (Some reg)
  obtain sc1 where 1: "resume_registration reg sc = Inr (registration_valid sc reg, sc1)" "resumed_core reg sc sc1"
    using resume_registration_ok [OF assms] by blast
  have rv: "\<forall>r. registration_valid sc1 r \<longleftrightarrow>
      registration_valid sc r \<and> \<not> (registration_valid sc reg \<and> reg_state r = reg_state reg)"
    using 1(2) by (simp add: resumed_core_def)
  let ?u = "upd_control c (\<lambda>k. k\<lparr>ct_waiter := None\<rparr>) sc1"
  have "core_ok ?u" using 1(2) by (simp add: resumed_core_def)
  then obtain sc' where "resume_registrations (ct_extra (controls sc c)) ?u = Inr sc'" "core_ok sc'"
    "timers sc' = timers ?u" "ready_cursor sc' = ready_cursor ?u"
    "ready_queue sc' = ready_queue ?u @ woken_states ?u (ct_extra (controls sc c))"
    using resume_registrations_ok by blast
  moreover have "woken_states ?u = woken_states sc1" by (rule woken_states_cong) simp
  ultimately show ?thesis
    using 1 woken_states_step [OF rv, of "ct_extra (controls sc c)"] Some
    by (simp add: resume_completion_waiters_def Let_def completion_regs_def resumed_core_def)
qed

lemma notify_frame:
  "sched_core.truncate (notify_completion c b sc) = sched_core.truncate sc"
  "sched_core.truncate (notify_owned_completion c b sc) = sched_core.truncate sc"
  "ct_waiter (controls (notify_completion c b sc) c) = ct_waiter (controls sc c)"
  "ct_extra (controls (notify_completion c b sc) c) = ct_extra (controls sc c)"
  "controls (notify_owned_completion c b sc) = controls sc"
  "ct_done (controls (notify_completion c b sc) c) = ct_done (controls sc c)"
  by (auto simp: notify_completion_def notify_owned_completion_def Let_def split: option.splits)

lemma truncate_fields:
  assumes "sched_core.truncate a = sched_core.truncate b"
  shows "ready_queue a = ready_queue b" "ready_cursor a = ready_cursor b" "timers a = timers b" "states a = states b"
  using assms by (simp_all add: sched_core.defs)

lemma complete_process_ok:
  assumes "core_ok sc"
  shows "\<exists>sc'. complete_process c cancelled sc = Inr sc' \<and> core_ok sc' \<and> timers sc' = timers sc \<and>
    ready_cursor sc' = ready_cursor sc \<and>
    ready_queue sc' = ready_queue sc @
      (if ct_done (controls sc c) then [] else woken_states sc (completion_regs (controls sc c)))"
proof (cases "ct_done (controls sc c)")
  case True
  then show ?thesis using assms by (simp add: complete_process_def)
next
  case False
  define sc1 where "sc1 = upd_control c (\<lambda>k. k\<lparr>ct_done := True, ct_cancelled := cancelled, ct_requested := False\<rparr>) sc"
  define sc2 where "sc2 = (if \<not> ct_owns_context (controls sc1 c) then notify_completion c cancelled sc1
    else notify_owned_completion c cancelled sc1)"
  have t: "sched_core.truncate sc2 = sched_core.truncate sc" by (simp add: sc2_def sc1_def notify_frame)
  have w: "ct_waiter (controls sc2 c) = ct_waiter (controls sc c)" "ct_extra (controls sc2 c) = ct_extra (controls sc c)"
    by (simp_all add: sc2_def notify_frame) (simp_all add: sc1_def)
  have ok2: "core_ok sc2" using assms core_ok_ext [OF t] by simp
  have wk: "woken_states sc2 = woken_states sc" by (rule woken_states_cong) (rule registration_valid_ext [OF t])
  note f = truncate_fields [OF t]
  have eq: "complete_process c cancelled sc =
    (if ct_waiter (controls sc2 c) \<noteq> None \<or> ct_extra (controls sc2 c) \<noteq> [] then resume_completion_waiters c sc2 else Ok sc2)"
    by (simp only: complete_process_def sc2_def sc1_def Let_def if_not_P [OF False])
  show ?thesis
  proof (cases "ct_waiter (controls sc2 c) \<noteq> None \<or> ct_extra (controls sc2 c) \<noteq> []")
    case True
    have "completion_regs (controls sc2 c) = completion_regs (controls sc c)" by (simp add: completion_regs_def w)
    then show ?thesis
      using resume_completion_waiters_ok [OF ok2, of c] True False by (simp add: eq f wk)
  next
    case idle: False
    then have "completion_regs (controls sc c) = []" by (simp add: completion_regs_def w)
    then show ?thesis using idle False ok2 by (simp add: eq f woken_states_def)
  qed
qed

section \<open>What waking leaves alone\<close>

definition slots_same :: "'a sched_core_scheme \<Rightarrow> 'a sched_core_scheme \<Rightarrow> bool" where
  "slots_same a b \<longleftrightarrow> length (states b) = length (states a) \<and>
     (\<forall>j. cs_handle (states b ! j) = cs_handle (states a ! j) \<and> cs_done (states b ! j) = cs_done (states a ! j)) \<and>
     free_states b = free_states a"

lemma slots_same_refl [simp]: "slots_same a a"
  by (simp add: slots_same_def)

lemma slots_same_trans: "slots_same a b \<Longrightarrow> slots_same b c \<Longrightarrow> slots_same a c"
  by (simp add: slots_same_def)

lemma slots_same_states: "states b = states c \<Longrightarrow> free_states b = free_states c \<Longrightarrow> slots_same a b = slots_same a c"
  by (simp add: slots_same_def)

lemma make_ready_slots: "slots_same sc (make_ready i sc) \<and> sched_core.more (make_ready i sc) = sched_core.more sc"
  by (simp add: make_ready_def slots_same_def upd_state_def nth_list_update')

lemma resume_registration_slots:
  assumes "core_ok sc" "resume_registration reg sc = Inr (w, sc')"
  shows "slots_same sc sc'" "sched_core.more sc' = sched_core.more sc"
proof -
  have "slots_same sc sc' \<and> sched_core.more sc' = sched_core.more sc"
  proof (cases "registration_valid sc reg")
    case True
    have i: "reg_state reg < length (states sc)" by (rule valid_state_bound [OF True])
    obtain sc1 where e: "end_wait (reg_state reg) sc = Inr sc1" "length (states sc1) = length (states sc)"
      "\<And>j. cs_handle (states sc1 ! j) = cs_handle (states sc ! j)"
      "\<And>j. cs_done (states sc1 ! j) = cs_done (states sc ! j)" "free_states sc1 = free_states sc"
      "sched_core.more sc1 = sched_core.more sc"
      using end_wait_cases [OF assms(1) i] by metis
    define sc2 where "sc2 = (case reg_winner reg of None \<Rightarrow> sc1
      | Some slot \<Rightarrow> sc1\<lparr>winners := (winners sc1)(slot := reg_index reg)\<rparr>)"
    have 2: "states sc2 = states sc1" "free_states sc2 = free_states sc1" "sched_core.more sc2 = sched_core.more sc1"
      by (auto simp: sc2_def split: option.splits)
    have "sc' = make_ready (reg_state reg) sc2"
      using assms(2) True e(1) by (simp add: resume_registration_def sc2_def Let_def)
    moreover have "slots_same sc sc2" using e 2 by (simp add: slots_same_def)
    ultimately show ?thesis
      using make_ready_slots [of sc2 "reg_state reg"] slots_same_trans e(6) 2(3) by metis
  next
    case False
    then show ?thesis using assms(2) by (simp add: resume_registration_def)
  qed
  then show "slots_same sc sc'" "sched_core.more sc' = sched_core.more sc" by simp_all
qed

lemma resume_registrations_slots:
  "core_ok sc \<Longrightarrow> resume_registrations regs sc = Inr sc' \<Longrightarrow>
   slots_same sc sc' \<and> sched_core.more sc' = sched_core.more sc"
proof (induction regs arbitrary: sc)
  case Nil
  then show ?case by simp
next
  case (Cons reg regs)
  obtain w sc1 where 1: "resume_registration reg sc = Inr (w, sc1)" "resume_registrations regs sc1 = Inr sc'"
    using Cons.prems(2) by (auto simp: result_bind_Ok_iff)
  have "core_ok sc1"
    using resume_registration_ok [OF Cons.prems(1), of reg] 1(1) by (auto simp: resumed_core_def)
  from Cons.IH [OF this 1(2)] resume_registration_slots [OF Cons.prems(1) 1(1)] show ?case
    using slots_same_trans by auto
qed

definition layer_same :: "sched \<Rightarrow> sched \<Rightarrow> bool" where
  "layer_same a b \<longleftrightarrow> slots_same a b \<and> promises b = promises a \<and> joins b = joins a \<and>
     process_by_state b = process_by_state a \<and> pending_cancellations b = pending_cancellations a"

lemma more_fields:
  fixes a b :: sched
  assumes "sched_core.more a = sched_core.more b"
  shows "promises a = promises b" "joins a = joins b" "process_by_state a = process_by_state b"
    "controls a = controls b" "finished_states a = finished_states b" "finished_roots a = finished_roots b"
    "calls a = calls b" "process_controls a = process_controls b" "pending_cancellations a = pending_cancellations b"
  using assms by (cases a; cases b; simp)+

lemma layer_same_control [simp]: "layer_same a (upd_control c f b) = layer_same a b"
  by (simp add: layer_same_def upd_control_def slots_same_def)

lemma layer_same_log [simp]: "layer_same a (log_call c b) = layer_same a b"
  by (simp add: layer_same_def log_call_def slots_same_def)

lemma layer_same_refl [simp]: "layer_same a a"
  by (simp add: layer_same_def)

lemma layer_same_trans: "layer_same a b \<Longrightarrow> layer_same b c \<Longrightarrow> layer_same a c"
  unfolding layer_same_def using slots_same_trans by metis

lemma layer_same_more: "slots_same a b \<Longrightarrow> sched_core.more b = sched_core.more a \<Longrightarrow> layer_same a b"
  using more_fields [of b a] by (simp add: layer_same_def)

lemma resume_completion_waiters_layer:
  assumes "core_ok sc" "resume_completion_waiters c sc = Inr sc'"
  shows "layer_same sc sc'"
proof (cases "ct_waiter (controls sc c)")
  case None
  then obtain sc1 where "resume_registrations (ct_extra (controls sc c)) sc = Inr sc1"
    "sc' = upd_control c (\<lambda>k. k\<lparr>ct_extra := []\<rparr>) sc1"
    using assms(2) by (auto simp: resume_completion_waiters_def Let_def result_bind_Ok_iff)
  with resume_registrations_slots [OF assms(1)] layer_same_more show ?thesis by fastforce
next
  case (Some reg)
  then obtain w sc1 sc2 where 1: "resume_registration reg sc = Inr (w, sc1)"
    "resume_registrations (ct_extra (controls sc c)) (upd_control c (\<lambda>k. k\<lparr>ct_waiter := None\<rparr>) sc1) = Inr sc2"
    "sc' = upd_control c (\<lambda>k. k\<lparr>ct_extra := []\<rparr>) sc2"
    using assms(2) by (auto simp: resume_completion_waiters_def Let_def result_bind_Ok_iff)
  let ?u = "upd_control c (\<lambda>k. k\<lparr>ct_waiter := None\<rparr>) sc1"
  have "core_ok sc1" using resume_registration_ok [OF assms(1), of reg] 1(1) by (auto simp: resumed_core_def)
  then have "core_ok ?u" by simp
  from resume_registrations_slots [OF this 1(2)] have "layer_same ?u sc2" using layer_same_more by blast
  moreover have "layer_same sc ?u"
    using resume_registration_slots [OF assms(1) 1(1)] layer_same_more by simp
  ultimately have "layer_same sc sc2" by (rule layer_same_trans [rotated])
  then show ?thesis by (simp add: 1(3))
qed

lemma notify_layer [simp]:
  "layer_same a (notify_completion c b sc) = layer_same a sc"
  "layer_same a (notify_owned_completion c b sc) = layer_same a sc"
  by (auto simp: notify_completion_def notify_owned_completion_def Let_def split: option.splits)

lemma complete_process_layer:
  assumes "core_ok sc" "complete_process c cancelled sc = Inr sc'"
  shows "layer_same sc sc'"
proof (cases "ct_done (controls sc c)")
  case True
  then show ?thesis using assms by (simp add: complete_process_def)
next
  case False
  define sc1 where "sc1 = upd_control c (\<lambda>k. k\<lparr>ct_done := True, ct_cancelled := cancelled, ct_requested := False\<rparr>) sc"
  define sc2 where "sc2 = (if \<not> ct_owns_context (controls sc1 c) then notify_completion c cancelled sc1
    else notify_owned_completion c cancelled sc1)"
  have t: "sched_core.truncate sc2 = sched_core.truncate sc" by (simp add: sc2_def sc1_def notify_frame)
  have ok2: "core_ok sc2" using assms core_ok_ext [OF t] by simp
  have l: "layer_same sc sc2" by (simp add: sc2_def sc1_def)
  have "(if ct_waiter (controls sc2 c) \<noteq> None \<or> ct_extra (controls sc2 c) \<noteq> []
      then resume_completion_waiters c sc2 else Ok sc2) = Inr sc'"
    using assms(2) by (simp only: complete_process_def sc2_def sc1_def Let_def if_not_P [OF False])
  then show ?thesis
    using l resume_completion_waiters_layer [OF ok2] layer_same_trans by (auto split: if_splits)
qed

end
