(* ===== verification/CancelLemmas.thy ===== *)
theory CancelLemmas
  imports ProcessLemmas
begin

text \<open>
  Cancelling a coroutine marks exactly the coroutines it transitively waits for, ends exactly when
  none of them waits for itself, and like finishing and reclaiming keeps the invariant of the
  scheduler core.
\<close>

section \<open>Cancelling a tree of coroutines\<close>

lemma mark_cancelled_eq:
  "i < length (states sc) \<Longrightarrow> mark_cancelled i sc = done_core i 1 sc"
  by (cases "states sc ! i"; cases "cs_ready (states sc ! i)")
    (simp_all add: mark_cancelled_def done_core_def clear_ready_def upd_state_def Let_def)

lemma mark_finished_eq:
  "i < length (states sc) \<Longrightarrow> mark_finished i sc = done_core i 0 sc"
  by (cases "cs_ready (states sc ! i)")
    (simp_all add: mark_finished_def done_core_def clear_ready_def upd_state_def Let_def)

lemma done_core_slots:
  assumes "i < length (states sc)"
  shows "length (states (done_core i g sc)) = length (states sc)"
    "cs_handle (states (done_core i g sc) ! j) = cs_handle (states sc ! j)"
    "cs_done (states (done_core i g sc) ! j) \<longleftrightarrow> cs_done (states sc ! j) \<or> j = i"
    "sched_core.more (done_core i g sc) = sched_core.more sc"
    "free_states (done_core i g sc) = free_states sc"
  using assms by (auto simp: done_core_def Let_def nth_list_update') (simp_all add: clear_ready_def upd_state_def)

lemma promises_frame:
  "promises (upd_promise h f sc) = (promises sc)(h := f (promises sc h))"
  "joins (upd_promise h f sc) = joins sc" "free_states (upd_promise h f sc) = free_states sc"
  by (simp_all add: upd_promise_def)

lemma cancel_self_spec:
  assumes ok: "core_ok sc" and i: "i < length (states sc)" and h: "cs_handle (states sc ! i) = Some h"
  obtains sc' where "cancel_self i sc = Inr sc'" "core_ok sc'" "length (states sc') = length (states sc)"
    "\<And>j. cs_handle (states sc' ! j) = cs_handle (states sc ! j)"
    "\<And>j. cs_done (states sc' ! j) \<longleftrightarrow> cs_done (states sc ! j) \<or> j = i"
    "promises sc' = (promises sc)(h := (promises sc h)\<lparr>pr_continuation := None, pr_join := None\<rparr>)"
    "joins sc' = joins sc"
proof -
  obtain sc1 where e: "end_wait i sc = Inr sc1" "core_ok sc1" "\<not> cs_waiting (states sc1 ! i)"
    "length (states sc1) = length (states sc)" "\<And>j. cs_handle (states sc1 ! j) = cs_handle (states sc ! j)"
    "\<And>j. cs_done (states sc1 ! j) = cs_done (states sc ! j)" "sched_core.more sc1 = sched_core.more sc"
    using end_wait_cases [OF ok i] by metis
  have i1: "i < length (states sc1)" and h1: "cs_handle (states sc1 ! i) = Some h" using i h e by simp_all
  define sc2 where "sc2 = done_core i 1 sc1"
  have ok2: "core_ok sc2" using done_core_ok [OF e(2) i1 e(3)] h1 by (simp add: sc2_def)
  note s2 = done_core_slots [OF i1, of 1, folded sc2_def]
  have h2: "cs_handle (states sc2 ! i) = Some h" using s2(2) h1 by simp
  define sc3 where "sc3 = upd_promise h (\<lambda>p. p\<lparr>pr_continuation := None, pr_join := None\<rparr>) sc2"
  define child where "child = (pr_continuation (promises sc2 h) \<noteq> None \<or> pr_join (promises sc2 h) \<noteq> None)"
  have ok3: "core_ok sc3" using ok2 by (simp add: sc3_def)
  obtain sc4 where c: "(case lookup_or None (process_by_state sc3) i of None \<Rightarrow> Ok sc3
      | Some c \<Rightarrow> complete_process c True sc3) = Inr sc4" "core_ok sc4" "layer_same sc3 sc4"
  proof (cases "lookup_or None (process_by_state sc3) i")
    case None
    then show ?thesis using ok3 by (intro that [of sc3]) simp_all
  next
    case (Some c)
    obtain sc4 where "complete_process c True sc3 = Inr sc4" "core_ok sc4"
      using complete_process_ok [OF ok3] by blast
    with Some complete_process_layer [OF ok3] show ?thesis by (intro that [of sc4]) simp_all
  qed
  define sc5 where "sc5 = (if child then sc4\<lparr>finished_states := finished_states sc4 @ [Some i]\<rparr>
    else sc4\<lparr>finished_roots := finished_roots sc4 @ [Some i]\<rparr>)"
  have "cancel_self i sc = result_bind (case lookup_or None (process_by_state sc3) i of None \<Rightarrow> Ok sc3
      | Some c \<Rightarrow> complete_process c True sc3) (\<lambda>sc. Ok (if child
                    then sc\<lparr>finished_states := finished_states sc @ [Some i]\<rparr>
                    else sc\<lparr>finished_roots := finished_roots sc @ [Some i]\<rparr>))"
    using mark_cancelled_eq [OF i1] e(1) h2
    by (simp add: cancel_self_def Let_def sc2_def [symmetric] sc3_def [symmetric] child_def del: One_nat_def)
  then have eq: "cancel_self i sc = Inr sc5" by (simp only: c(1) result_bind.simps sc5_def)
  have p2: "promises sc2 = promises sc" "joins sc2 = joins sc"
    using more_fields [of sc2 sc] s2(4) e(7) by simp_all
  have same5: "states sc5 = states sc4" "promises sc5 = promises sc4" "joins sc5 = joins sc4"
    by (simp_all add: sc5_def)
  show ?thesis
  proof (rule that [OF eq])
    show "core_ok sc5" using c(2) by (simp add: sc5_def)
    show "length (states sc5) = length (states sc)" "\<And>j. cs_handle (states sc5 ! j) = cs_handle (states sc ! j)"
      "\<And>j. cs_done (states sc5 ! j) \<longleftrightarrow> cs_done (states sc ! j) \<or> j = i"
      using c(3) s2 e by (simp_all add: same5 layer_same_def slots_same_def sc3_def)
    show "promises sc5 = (promises sc)(h := (promises sc h)\<lparr>pr_continuation := None, pr_join := None\<rparr>)"
      "joins sc5 = joins sc"
      using c(3) by (simp_all add: same5 layer_same_def sc3_def promises_frame p2)
  qed
qed

text \<open>The call tree: \<open>k\<close> is a live child of \<open>i\<close>.\<close>

definition live_child :: "sched \<Rightarrow> (nat \<times> nat) set" where
  "live_child sc = {(i, k). i < length (states sc) \<and> k \<in> set (children_of i sc)}"

definition distinct_handles :: "sched \<Rightarrow> bool" where
  "distinct_handles sc \<longleftrightarrow>
     (\<forall>i<length (states sc). \<forall>j<length (states sc).
        cs_handle (states sc ! i) \<noteq> None \<longrightarrow> cs_handle (states sc ! i) = cs_handle (states sc ! j) \<longrightarrow> i = j)"

lemma live_child_iff:
  "(i, k) \<in> live_child sc \<longleftrightarrow> i < length (states sc) \<and> k < length (states sc) \<and> k \<noteq> i \<and>
     \<not> cs_done (states sc ! k) \<and>
     (\<exists>h. cs_handle (states sc ! k) = Some h \<and>
        (pr_continuation (promises sc h) = cs_handle (states sc ! i) \<or>
         (\<exists>j. pr_join (promises sc h) = Some j \<and> jn_parent (joins sc j) = i)))"
  by (auto simp: live_child_def children_of_def split: option.splits)

text \<open>What a (partial) cancellation may do to the scheduler.\<close>

definition cancelled_from :: "sched \<Rightarrow> sched \<Rightarrow> bool" where
  "cancelled_from sc sc' \<longleftrightarrow>
     core_ok sc' \<and> length (states sc') = length (states sc) \<and> distinct_handles sc' \<and>
     (\<forall>j. cs_handle (states sc' ! j) = cs_handle (states sc ! j)) \<and>
     (\<forall>j. cs_done (states sc ! j) \<longrightarrow> cs_done (states sc' ! j)) \<and>
     (\<forall>i k. (i, k) \<in> live_child sc' \<longrightarrow> (i, k) \<in> live_child sc) \<and>
     (\<forall>i k. (i, k) \<in> live_child sc \<longrightarrow> cs_done (states sc' ! k) \<or> (i, k) \<in> live_child sc') \<and>
     (\<forall>i k. (i, k) \<in> live_child sc \<longrightarrow> cs_done (states sc' ! i) \<longrightarrow> \<not> cs_done (states sc ! i) \<longrightarrow>
        cs_done (states sc' ! k))"

lemma cancelled_from_refl: "core_ok sc \<Longrightarrow> distinct_handles sc \<Longrightarrow> cancelled_from sc sc"
  by (simp add: cancelled_from_def)

lemma cancelled_from_trans: "cancelled_from a b \<Longrightarrow> cancelled_from b c \<Longrightarrow> cancelled_from a c"
  unfolding cancelled_from_def by metis

lemma cancel_self_from:
  assumes ok: "core_ok sc" "distinct_handles sc" and i: "i < length (states sc)" "cs_handle (states sc ! i) = Some h"
    and leaf: "children_of i sc = []"
  obtains sc' where "cancel_self i sc = Inr sc'" "cancelled_from sc sc'"
    "\<And>j. cs_done (states sc' ! j) \<longleftrightarrow> cs_done (states sc ! j) \<or> j = i"
proof -
  obtain sc' where c: "cancel_self i sc = Inr sc'" "core_ok sc'" "length (states sc') = length (states sc)"
    "\<And>j. cs_handle (states sc' ! j) = cs_handle (states sc ! j)"
    "\<And>j. cs_done (states sc' ! j) \<longleftrightarrow> cs_done (states sc ! j) \<or> j = i"
    "promises sc' = (promises sc)(h := (promises sc h)\<lparr>pr_continuation := None, pr_join := None\<rparr>)"
    "joins sc' = joins sc"
    by (rule cancel_self_spec [OF ok(1) i]) (rule that)
  have other: "k = i" if "k < length (states sc)" "cs_handle (states sc ! k) = Some h" for k
    using ok(2) i that unfolding distinct_handles_def by (metis option.distinct(1))
  have child: "(a, k) \<in> live_child sc' \<longleftrightarrow> (a, k) \<in> live_child sc \<and> k \<noteq> i" for a k
  proof (cases "k < length (states sc) \<and> k \<noteq> i")
    case True
    then have "cs_handle (states sc ! k) \<noteq> Some h" using other by blast
    then show ?thesis using True by (auto simp: live_child_iff c)
  next
    case False
    then show ?thesis by (auto simp: live_child_iff c)
  qed
  have "(i, k) \<notin> live_child sc" for k using leaf by (simp add: live_child_def)
  then have "cancelled_from sc sc'"
    using c ok(2) unfolding cancelled_from_def distinct_handles_def by (auto simp: child)
  then show ?thesis using c that by blast
qed

lemma cancel_state_from:
  "core_ok sc \<Longrightarrow> distinct_handles sc \<Longrightarrow> (i < length (states sc) \<longrightarrow> cs_done (states sc ! i) \<or> cs_handle (states sc ! i) \<noteq> None) \<Longrightarrow>
   cancel_state n i sc = Some r \<Longrightarrow>
   \<exists>sc'. r = Inr sc' \<and> cancelled_from sc sc' \<and> (i < length (states sc) \<longrightarrow> cs_done (states sc' ! i)) \<and>
     (\<forall>x. cs_done (states sc' ! x) \<longrightarrow> cs_done (states sc ! x) \<or> (i, x) \<in> (live_child sc)\<^sup>*)"
  "core_ok sc \<Longrightarrow> distinct_handles sc \<Longrightarrow>
   (\<forall>k\<in>set ks. k < length (states sc) \<longrightarrow> cs_done (states sc ! k) \<or> cs_handle (states sc ! k) \<noteq> None) \<Longrightarrow>
   cancel_states n ks sc = Some r \<Longrightarrow>
   \<exists>sc'. r = Inr sc' \<and> cancelled_from sc sc' \<and> (\<forall>k\<in>set ks. k < length (states sc) \<longrightarrow> cs_done (states sc' ! k)) \<and>
     (\<forall>x. cs_done (states sc' ! x) \<longrightarrow> cs_done (states sc ! x) \<or> (\<exists>k\<in>set ks. (k, x) \<in> (live_child sc)\<^sup>*))"
proof (induction n i sc and n ks sc arbitrary: r and r rule: cancel_state_cancel_states.induct)
  case (1 i sc)
  then show ?case by simp
next
  case (2 n i sc)
  show ?case
  proof (cases "i \<ge> length (states sc) \<or> cs_done (states sc ! i)")
    case True
    then show ?thesis using 2(2-5) cancelled_from_refl by (auto split: if_splits)
  next
    case False
    then have i: "i < length (states sc)" "\<not> cs_done (states sc ! i)" by simp_all
    then obtain h where h: "cs_handle (states sc ! i) = Some h" using 2(4) by auto
    obtain r1 where r1: "cancel_states n (children_of i sc) sc = Some r1" "r = result_bind r1 (cancel_self i)"
      using 2(5) i by (auto split: option.splits)
    have kids: "\<forall>k\<in>set (children_of i sc). k < length (states sc) \<longrightarrow> cs_done (states sc ! k) \<or> cs_handle (states sc ! k) \<noteq> None"
      by (auto simp: children_of_def split: option.splits)
    obtain sc1 where s1: "r1 = Inr sc1" "cancelled_from sc sc1"
      "\<forall>k\<in>set (children_of i sc). k < length (states sc) \<longrightarrow> cs_done (states sc1 ! k)"
      "\<forall>x. cs_done (states sc1 ! x) \<longrightarrow> cs_done (states sc ! x) \<or> (\<exists>k\<in>set (children_of i sc). (k, x) \<in> (live_child sc)\<^sup>*)"
      using 2(1) [OF _ _ 2(2,3) kids r1(1)] i by auto
    have f: "core_ok sc1" "distinct_handles sc1" "length (states sc1) = length (states sc)"
      "cs_handle (states sc1 ! i) = Some h" using s1(2) h by (simp_all add: cancelled_from_def)
    have "(i, k) \<notin> live_child sc1" for k
    proof
      assume k: "(i, k) \<in> live_child sc1"
      then have "(i, k) \<in> live_child sc" using s1(2) by (simp add: cancelled_from_def)
      then have "cs_done (states sc1 ! k)" using s1(3) by (auto simp: live_child_def children_of_def)
      with k show False by (simp add: live_child_iff)
    qed
    then have leaf: "children_of i sc1 = []" using i f(3) by (auto simp: live_child_def) (metis list.set_intros(1) neq_Nil_conv)
    have i1: "i < length (states sc1)" using i f by simp
    obtain sc2 where s2: "cancel_self i sc1 = Inr sc2" "cancelled_from sc1 sc2"
      "\<And>j. cs_done (states sc2 ! j) \<longleftrightarrow> cs_done (states sc1 ! j) \<or> j = i"
      by (rule cancel_self_from [OF f(1,2) i1 f(4) leaf]) blast
    have "(i, x) \<in> (live_child sc)\<^sup>*" if "k \<in> set (children_of i sc)" "(k, x) \<in> (live_child sc)\<^sup>*" for k x
      using that i by (auto simp: live_child_def intro: converse_rtrancl_into_rtrancl)
    then have "\<forall>x. cs_done (states sc2 ! x) \<longrightarrow> cs_done (states sc ! x) \<or> (i, x) \<in> (live_child sc)\<^sup>*"
      using s1(4) s2(3) by blast
    then show ?thesis
      using s1 s2 r1(2) cancelled_from_trans by (intro exI [of _ sc2]) auto
  qed
next
  case (3 n sc)
  then show ?case using cancelled_from_refl by auto
next
  case (4 n k ks sc)
  obtain r1 where r1: "cancel_state n k sc = Some r1"
    using "4.prems"(4) by (auto split: option.splits)
  obtain sc1 where s1: "r1 = Inr sc1" "cancelled_from sc sc1" "k < length (states sc) \<longrightarrow> cs_done (states sc1 ! k)"
    "\<forall>x. cs_done (states sc1 ! x) \<longrightarrow> cs_done (states sc ! x) \<or> (k, x) \<in> (live_child sc)\<^sup>*"
    using "4.IH"(1) [OF "4.prems"(1,2) _ r1] "4.prems"(3) by auto
  have f: "core_ok sc1" "distinct_handles sc1"
    "\<forall>k\<in>set ks. k < length (states sc1) \<longrightarrow> cs_done (states sc1 ! k) \<or> cs_handle (states sc1 ! k) \<noteq> None"
    using s1(2) "4.prems"(3) by (auto simp: cancelled_from_def)
  have r2: "cancel_states n ks sc1 = Some r" using "4.prems"(4) r1 s1(1) by simp
  obtain sc2 where s2: "r = Inr sc2" "cancelled_from sc1 sc2" "\<forall>k\<in>set ks. k < length (states sc1) \<longrightarrow> cs_done (states sc2 ! k)"
    "\<forall>x. cs_done (states sc2 ! x) \<longrightarrow> cs_done (states sc1 ! x) \<or> (\<exists>k\<in>set ks. (k, x) \<in> (live_child sc1)\<^sup>*)"
    using "4.IH"(2) [OF r1 s1(1) f r2] by auto
  have "live_child sc1 \<subseteq> live_child sc" using s1(2) by (auto simp: cancelled_from_def)
  then have "(live_child sc1)\<^sup>* \<subseteq> (live_child sc)\<^sup>*" by (rule rtrancl_mono)
  then have "\<forall>x. cs_done (states sc2 ! x) \<longrightarrow> cs_done (states sc ! x) \<or> (\<exists>k\<in>set (k # ks). (k, x) \<in> (live_child sc)\<^sup>*)"
    using s1(4) s2(4) by (metis list.set_intros(1,2) subsetD)
  moreover have "\<forall>k\<in>set (k # ks). k < length (states sc) \<longrightarrow> cs_done (states sc2 ! k)"
    using s1(2,3) s2(2,3) by (auto simp: cancelled_from_def)
  ultimately show ?case using s2(1) cancelled_from_trans [OF s1(2) s2(2)] by blast
qed

section \<open>Waiting, and when a cancellation ends\<close>

text \<open>
  Coroutine \<open>a\<close> waits for coroutine \<open>k\<close>: \<open>k\<close> is not done, and its promise names either the handle of
  \<open>a\<close> as the continuation of an awaited task, or a join whose parent is \<open>a\<close>.
\<close>

definition waits_for :: "sched \<Rightarrow> (nat \<times> nat) set" where
  "waits_for sc = {(a, k). a < length (states sc) \<and> k < length (states sc) \<and> a \<noteq> k \<and> \<not> cs_done (states sc ! k) \<and>
     (\<exists>h. cs_handle (states sc ! k) = Some h \<and>
        ((\<exists>p. cs_handle (states sc ! a) = Some p \<and> pr_continuation (promises sc h) = Some p) \<or>
         (\<exists>j. pr_join (promises sc h) = Some j \<and> jn_parent (joins sc j) = a)))}"

definition waits_in_circle :: "sched \<Rightarrow> nat \<Rightarrow> bool" where
  "waits_in_circle sc i \<longleftrightarrow> (\<exists>c. (i, c) \<in> (waits_for sc)\<^sup>* \<and> (c, c) \<in> (waits_for sc)\<^sup>+)"

lemma waits_for_child:
  assumes "cs_handle (states sc ! a) \<noteq> None"
  shows "(a, k) \<in> waits_for sc \<longleftrightarrow> (a, k) \<in> live_child sc"
  using assms by (auto simp: waits_for_def live_child_iff)

lemma live_child_handle: "(a, k) \<in> live_child sc \<Longrightarrow> cs_handle (states sc ! k) \<noteq> None \<and> \<not> cs_done (states sc ! k)"
  by (auto simp: live_child_iff)

lemma waits_for_reach:
  assumes "cs_handle (states sc ! i) \<noteq> None"
  shows "(i, x) \<in> (waits_for sc)\<^sup>* \<longleftrightarrow> (i, x) \<in> (live_child sc)\<^sup>*"
    and "(i, x) \<in> (waits_for sc)\<^sup>* \<Longrightarrow> cs_handle (states sc ! x) \<noteq> None"
proof -
  have a: "(i, x) \<in> (live_child sc)\<^sup>* \<and> cs_handle (states sc ! x) \<noteq> None" if "(i, x) \<in> (waits_for sc)\<^sup>*" for x
    using that
  proof (induction rule: rtrancl_induct)
    case base
    then show ?case using assms by simp
  next
    case (step y z)
    then have "(y, z) \<in> live_child sc" using waits_for_child by blast
    then show ?case using step(3) live_child_handle by (meson rtrancl.rtrancl_into_rtrancl)
  qed
  have b: "(i, x) \<in> (waits_for sc)\<^sup>* \<and> cs_handle (states sc ! x) \<noteq> None" if "(i, x) \<in> (live_child sc)\<^sup>*" for x
    using that
  proof (induction rule: rtrancl_induct)
    case base
    then show ?case using assms by simp
  next
    case (step y z)
    then have "(y, z) \<in> waits_for sc" using waits_for_child by blast
    then show ?case using step live_child_handle by (meson rtrancl.rtrancl_into_rtrancl)
  qed
  show "(i, x) \<in> (waits_for sc)\<^sup>* \<longleftrightarrow> (i, x) \<in> (live_child sc)\<^sup>*" using a b by blast
  show "(i, x) \<in> (waits_for sc)\<^sup>* \<Longrightarrow> cs_handle (states sc ! x) \<noteq> None" using a by blast
qed

lemma waits_for_step_reach:
  assumes "cs_handle (states sc ! i) \<noteq> None"
  shows "(i, x) \<in> (waits_for sc)\<^sup>+ \<longleftrightarrow> (i, x) \<in> (live_child sc)\<^sup>+"
  using waits_for_reach [OF assms] waits_for_child by (metis assms tranclD2 rtrancl_into_trancl1)

text \<open>
  Inside a region closed under the call tree on which \<open>rank\<close> decreases, fuel beyond the rank is
  enough.
\<close>

lemma cancel_state_terminates:
  "core_ok sc \<Longrightarrow> distinct_handles sc \<Longrightarrow> (i < length (states sc) \<longrightarrow> cs_done (states sc ! i) \<or> cs_handle (states sc ! i) \<noteq> None) \<Longrightarrow>
   \<forall>(a, b)\<in>live_child sc. a \<in> S \<longrightarrow> b \<in> S \<and> rank b < (rank a :: nat) \<Longrightarrow> i \<in> S \<Longrightarrow> rank i < n \<Longrightarrow>
   cancel_state n i sc \<noteq> None"
  "core_ok sc \<Longrightarrow> distinct_handles sc \<Longrightarrow>
   (\<forall>k\<in>set ks. k < length (states sc) \<longrightarrow> cs_done (states sc ! k) \<or> cs_handle (states sc ! k) \<noteq> None) \<Longrightarrow>
   \<forall>(a, b)\<in>live_child sc. a \<in> S \<longrightarrow> b \<in> S \<and> rank b < (rank a :: nat) \<Longrightarrow> set ks \<subseteq> S \<Longrightarrow>
   \<forall>k\<in>set ks. rank k < n \<Longrightarrow> cancel_states n ks sc \<noteq> None"
proof (induction n i sc and n ks sc rule: cancel_state_cancel_states.induct)
  case (1 i sc)
  then show ?case by simp
next
  case (2 n i sc)
  show ?case
  proof (cases "i \<ge> length (states sc) \<or> cs_done (states sc ! i)")
    case False
    then have i: "i < length (states sc)" "\<not> cs_done (states sc ! i)" by simp_all
    have kids: "\<forall>k\<in>set (children_of i sc). k < length (states sc) \<longrightarrow> cs_done (states sc ! k) \<or> cs_handle (states sc ! k) \<noteq> None"
      by (auto simp: children_of_def split: option.splits)
    have r: "k \<in> S \<and> rank k < n" if "k \<in> set (children_of i sc)" for k
    proof -
      have "(i, k) \<in> live_child sc" using that i by (simp add: live_child_def)
      then have "k \<in> S \<and> rank k < rank i" using "2.prems"(4,5) by fast
      then show ?thesis using "2.prems"(6) by linarith
    qed
    then have "set (children_of i sc) \<subseteq> S" "\<forall>k\<in>set (children_of i sc). rank k < n" by blast+
    then have "cancel_states n (children_of i sc) sc \<noteq> None"
      using "2.IH" [OF _ _ "2.prems"(1,2) kids "2.prems"(4)] i by simp
    then show ?thesis using i by auto
  qed auto
next
  case (3 n sc)
  then show ?case by simp
next
  case (4 n k ks sc)
  have "cancel_state n k sc \<noteq> None" using "4.IH"(1) [OF "4.prems"(1,2) _ "4.prems"(4)] "4.prems"(3,5,6) by simp
  then obtain r1 where r1: "cancel_state n k sc = Some r1" by blast
  obtain sc1 where s1: "r1 = Inr sc1" "cancelled_from sc sc1"
    using cancel_state_from(1) [OF "4.prems"(1,2) _ r1] "4.prems"(3) by auto
  have f: "core_ok sc1" "distinct_handles sc1"
    "\<forall>k\<in>set ks. k < length (states sc1) \<longrightarrow> cs_done (states sc1 ! k) \<or> cs_handle (states sc1 ! k) \<noteq> None"
    "\<forall>(a, b)\<in>live_child sc1. a \<in> S \<longrightarrow> b \<in> S \<and> rank b < rank a"
    using s1(2) "4.prems"(3,4) by (auto simp: cancelled_from_def)
  then show ?case using "4.IH"(2) [OF r1 s1(1) f] "4.prems"(5,6) r1 s1(1) by simp
qed

text \<open>
  A set of coroutines each of which waits for another one of the set, and which holds every
  coroutine waiting for one of it: no fuel is enough to cancel one of them.
\<close>

definition waiting_circle :: "sched \<Rightarrow> nat set \<Rightarrow> bool" where
  "waiting_circle sc S \<longleftrightarrow>
     (\<forall>a\<in>S. a < length (states sc) \<and> \<not> cs_done (states sc ! a) \<and> cs_handle (states sc ! a) \<noteq> None \<and>
        (\<exists>b\<in>S. (a, b) \<in> live_child sc)) \<and>
     (\<forall>(a, b)\<in>live_child sc. b \<in> S \<longrightarrow> \<not> cs_done (states sc ! a) \<longrightarrow> cs_handle (states sc ! a) \<noteq> None \<longrightarrow> a \<in> S)"

lemma waiting_circle_reach:
  assumes "waiting_circle sc S" "\<not> cs_done (states sc ! k)" "cs_handle (states sc ! k) \<noteq> None"
  shows "(k, x) \<in> (live_child sc)\<^sup>* \<Longrightarrow> x \<in> S \<longrightarrow> k \<in> S"
proof (induction rule: rtrancl_induct)
  case (step y z)
  have "\<not> cs_done (states sc ! y) \<and> cs_handle (states sc ! y) \<noteq> None"
    using step(1) assms(2,3) live_child_handle by (metis rtranclE)
  then have "z \<in> S \<longrightarrow> y \<in> S" using step(2) assms(1) unfolding waiting_circle_def by blast
  then show ?case using step.IH by blast
qed simp

lemma waiting_circle_persists:
  assumes c: "waiting_circle sc S" and f: "cancelled_from sc sc'"
    and d: "\<forall>x. cs_done (states sc' ! x) \<longrightarrow> cs_done (states sc ! x) \<or> x \<notin> S"
  shows "waiting_circle sc' S"
proof -
  have live: "\<not> cs_done (states sc' ! a)" if "a \<in> S" for a using c d that unfolding waiting_circle_def by blast
  have "\<exists>b\<in>S. (a, b) \<in> live_child sc'" if a: "a \<in> S" for a
  proof -
    obtain b where b: "b \<in> S" "(a, b) \<in> live_child sc" using c a unfolding waiting_circle_def by blast
    then have "(a, b) \<in> live_child sc'" using f live [OF b(1)] unfolding cancelled_from_def by blast
    then show ?thesis using b(1) by blast
  qed
  moreover have "a \<in> S" if "(a, b) \<in> live_child sc'" "b \<in> S" "\<not> cs_done (states sc' ! a)" "cs_handle (states sc' ! a) \<noteq> None" for a b
  proof -
    have "(a, b) \<in> live_child sc" "\<not> cs_done (states sc ! a)" "cs_handle (states sc ! a) \<noteq> None"
      using f that(1,3,4) unfolding cancelled_from_def by (blast, blast, simp)
    then show ?thesis using c that(2) unfolding waiting_circle_def by blast
  qed
  ultimately show ?thesis using c f live unfolding waiting_circle_def cancelled_from_def by auto
qed

lemma cancel_state_diverges:
  "core_ok sc \<Longrightarrow> distinct_handles sc \<Longrightarrow> waiting_circle sc S \<Longrightarrow> i \<in> S \<Longrightarrow> cancel_state n i sc = None"
  "core_ok sc \<Longrightarrow> distinct_handles sc \<Longrightarrow> waiting_circle sc S \<Longrightarrow>
   (\<forall>k\<in>set ks. k < length (states sc) \<longrightarrow> cs_done (states sc ! k) \<or> cs_handle (states sc ! k) \<noteq> None) \<Longrightarrow>
   (\<exists>k\<in>set ks. k \<in> S) \<Longrightarrow> cancel_states n ks sc = None"
proof (induction n i sc and n ks sc rule: cancel_state_cancel_states.induct)
  case (1 i sc)
  then show ?case by simp
next
  case (2 n i sc)
  have i: "i < length (states sc)" "\<not> cs_done (states sc ! i)" and k: "\<exists>b\<in>S. (i, b) \<in> live_child sc"
    using "2.prems"(3,4) unfolding waiting_circle_def by blast+
  have "\<exists>k\<in>set (children_of i sc). k \<in> S" using k by (auto simp: live_child_def)
  moreover have "\<forall>k\<in>set (children_of i sc). k < length (states sc) \<longrightarrow> cs_done (states sc ! k) \<or> cs_handle (states sc ! k) \<noteq> None"
    by (auto simp: children_of_def split: option.splits)
  ultimately show ?case using "2.IH" [OF _ _ "2.prems"(1-3)] i by simp
next
  case (3 n sc)
  then show ?case by simp
next
  case (4 n k ks sc)
  show ?case
  proof (cases "k \<in> S \<or> cancel_state n k sc = None")
    case True
    then show ?thesis using "4.IH"(1) [OF "4.prems"(1-3)] by auto
  next
    case False
    then obtain r1 where r1: "cancel_state n k sc = Some r1" and k: "k \<notin> S" by blast
    obtain sc1 where s1: "r1 = Inr sc1" "cancelled_from sc sc1"
      "\<forall>x. cs_done (states sc1 ! x) \<longrightarrow> cs_done (states sc ! x) \<or> (k, x) \<in> (live_child sc)\<^sup>*"
      using cancel_state_from(1) [OF "4.prems"(1,2) _ r1] "4.prems"(4) by auto
    have "cs_done (states sc ! x) \<or> x \<notin> S" if "cs_done (states sc1 ! x)" for x
    proof (cases "k < length (states sc) \<and> \<not> cs_done (states sc ! k)")
      case True
      then have "\<not> cs_done (states sc ! k)" "cs_handle (states sc ! k) \<noteq> None" using "4.prems"(4) by auto
      then show ?thesis using waiting_circle_reach [OF "4.prems"(3)] k s1(3) that by blast
    next
      case False
      then have "r1 = Inr sc" using r1 by (cases n) (auto split: if_splits)
      then show ?thesis using s1(1) that by simp
    qed
    then have c: "waiting_circle sc1 S" using waiting_circle_persists [OF "4.prems"(3) s1(2)] by blast
    have f: "core_ok sc1" "distinct_handles sc1"
      "\<forall>k\<in>set ks. k < length (states sc1) \<longrightarrow> cs_done (states sc1 ! k) \<or> cs_handle (states sc1 ! k) \<noteq> None"
      using s1(2) "4.prems"(4) by (auto simp: cancelled_from_def)
    have "\<exists>k\<in>set ks. k \<in> S" using "4.prems"(5) k by auto
    then show ?thesis using "4.IH"(2) [OF r1 s1(1) f(1,2) c f(3)] r1 s1(1) by simp
  qed
qed

section \<open>Success keeps the invariant\<close>

lemma cancel_self_keeps:
  assumes ok: "core_ok sc" and i: "i < length (states sc)" and res: "cancel_self i sc = Inr sc'"
  shows "core_ok sc' \<and> length (states sc') = length (states sc)"
proof (cases "cs_handle (states sc ! i)")
  case None
  obtain sc1 where e: "end_wait i sc = Inr sc1" "length (states sc1) = length (states sc)"
    "\<And>j. cs_handle (states sc1 ! j) = cs_handle (states sc ! j)"
    using end_wait_cases [OF ok i] by metis
  have "cs_handle (states (mark_cancelled i sc1) ! i) = None"
    using done_core_slots(2) [of i sc1 1 i] i e None by (simp add: mark_cancelled_eq del: One_nat_def)
  then have "\<not> is_ok (cancel_self i sc)" by (simp add: cancel_self_def e(1) Let_def)
  then show ?thesis using res by simp
next
  case (Some h)
  obtain sc1 where "cancel_self i sc = Inr sc1" "core_ok sc1" "length (states sc1) = length (states sc)"
    by (rule cancel_self_spec [OF ok i Some]) (rule that)
  then show ?thesis using res by simp
qed

lemma cancel_state_keeps:
  "core_ok sc \<Longrightarrow> cancel_state n i sc = Some (Inr sc') \<Longrightarrow> core_ok sc' \<and> length (states sc') = length (states sc)"
  "core_ok sc \<Longrightarrow> cancel_states n ks sc = Some (Inr sc') \<Longrightarrow> core_ok sc' \<and> length (states sc') = length (states sc)"
proof (induction n i sc and n ks sc arbitrary: sc' and sc' rule: cancel_state_cancel_states.induct)
  case (2 n i sc)
  show ?case
  proof (cases "i \<ge> length (states sc) \<or> cs_done (states sc ! i)")
    case True
    then show ?thesis using 2 by (auto split: if_splits)
  next
    case False
    then obtain sc1 where s1: "cancel_states n (children_of i sc) sc = Some (Inr sc1)" "cancel_self i sc1 = Inr sc'"
      using 2(3) by (auto simp: result_bind_Ok_iff split: option.splits)
    have ok1: "core_ok sc1" "length (states sc1) = length (states sc)" using 2(1) [OF _ _ 2(2) s1(1)] False by simp_all
    then show ?thesis using cancel_self_keeps [OF ok1(1) _ s1(2)] False by simp
  qed
next
  case (4 n k ks sc)
  then show ?case by (auto split: option.splits sum.splits)
qed simp_all

lemma core_ok_timers_changed: "core_ok sc \<Longrightarrow> core_ok (timers_changed sc)"
  unfolding timers_changed_def
  using core_okD(7) by (auto intro!: core_ok_new_timers simp: timer_regs_list)

lemma cancel_pending_keeps:
  "core_ok sc \<Longrightarrow> cancel_pending n cs sc = Some (Inr sc') \<Longrightarrow> core_ok sc'"
proof (induction n cs sc rule: cancel_pending.induct)
  case (1 fuel sc)
  then show ?case by simp
next
  case (2 fuel c cs sc)
  consider (skip) "\<not> ct_scheduled (controls sc c) \<or> ct_done (controls sc c)"
    | (gone) "ct_scheduled (controls sc c)" "\<not> ct_done (controls sc c)" "ct_state (controls sc c) = None"
    | (run) i where "ct_scheduled (controls sc c)" "\<not> ct_done (controls sc c)" "ct_state (controls sc c) = Some i"
    by (cases "ct_state (controls sc c)") auto
  then show ?case
  proof cases
    case skip
    then show ?thesis using 2 by (auto split: if_splits)
  next
    case gone
    then show ?thesis using 2 core_ok_timers_changed by auto
  next
    case run
    obtain sc1 where s1: "cancel_state fuel i sc = Some (Inr sc1)" "cancel_pending fuel cs (timers_changed sc1) = Some (Inr sc')"
      using 2(5) run by (auto split: option.splits sum.splits)
    have "core_ok (timers_changed sc1)" using cancel_state_keeps(1) [OF 2(4) s1(1)] core_ok_timers_changed by blast
    then show ?thesis using 2(3) [OF _ run(3) s1(1) refl _ s1(2)] run by simp
  qed
qed

lemma release_slot_ok:
  assumes ok: "core_ok sc" and i: "i < length (states sc)" "cs_done (states sc ! i)" "cs_handle (states sc ! i) \<noteq> None"
  shows "core_ok (release_slot i sc) \<and> registration_valid (release_slot i sc) = registration_valid sc"
proof -
  have slot: "\<not> cs_waiting (states sc ! i)" "\<not> cs_ready (states sc ! i)"
    using slot_okI [OF ok i(1)] i(2) by (auto simp: slot_ok_def)
  have nf: "i \<notin> set (free_states sc)" by (rule busy_not_free [OF ok i(3)])
  have "free_ok (release_slot i sc)"
    using core_okD(8) [OF ok] nf i(1) by (auto simp: free_ok_def release_slot_def upd_state_def nth_list_update')
  then show ?thesis
    using slot i(1) by (intro idle_slot_change [OF ok i(1) slot(1), where s = coroutine_state_init])
      (simp_all add: release_slot_def upd_state_def coroutine_state_init_def)
qed

lemma truncate_cleanups: "sched_core.truncate (run_cleanups_from n sc) = sched_core.truncate sc"
proof (induction n sc rule: run_cleanups_from.induct)
  case (1 index sc)
  then show ?case by (subst run_cleanups_from.simps) (auto simp: Let_def)
qed

lemma truncate_release_owned [simp]: "sched_core.truncate (release_owned_context c sc) = sched_core.truncate sc"
  by (auto simp: release_owned_context_def Let_def split: option.splits)

lemma truncate_detach: "sched_core.truncate (snd (detach_control c sc)) = sched_core.truncate sc"
proof -
  have two: "sched_core.truncate (sc\<lparr>process_controls := x, free_process_slots := y\<rparr>) = sched_core.truncate sc" for x y and sc :: sched
    by (simp add: sched_core.defs)
  show ?thesis
    by (auto simp: detach_control_def Let_def release_control_def two split: option.splits)
qed

lemma reclaim_keeps:
  assumes "core_ok sc"
  shows "core_ok (reclaim_finished_state idx sc) \<and> ready_queue (reclaim_finished_state idx sc) = ready_queue sc \<and>
    ready_cursor (reclaim_finished_state idx sc) = ready_cursor sc \<and>
    registration_valid (reclaim_finished_state idx sc) = registration_valid sc \<and>
    timers (reclaim_finished_state idx sc) = timers sc"
proof (cases "\<exists>i h. idx = Some i \<and> i < length (states sc) \<and> cs_handle (states sc ! i) = Some h \<and> cs_done (states sc ! i)")
  case True
  then obtain i h where i: "idx = Some i" "i < length (states sc)" "cs_handle (states sc ! i) = Some h" "cs_done (states sc ! i)"
    by blast
  define sc1 where "sc1 = release_slot i (sc\<lparr>process_by_state := (process_by_state sc)[i := None]\<rparr>)"
  define r where "r = (case lookup_or None (process_by_state sc) i of None \<Rightarrow> (False, sc1) | Some c \<Rightarrow> detach_control c sc1)"
  define sc2 where "sc2 = log_call (CallDestroy h) (upd_promise h (\<lambda>p. p\<lparr>pr_scheduled := False\<rparr>) (snd r))"
  have eq: "reclaim_finished_state idx sc = (if fst r \<and> deferred_cleanups sc2 \<noteq> [] then run_owner_cleanups sc2 else sc2)"
    using i by (auto simp add: reclaim_finished_state_def sc2_def r_def sc1_def Let_def split: prod.splits option.splits)
  have t: "sched_core.truncate (reclaim_finished_state idx sc) = sched_core.truncate sc1"
    by (simp add: eq run_owner_cleanups_def truncate_cleanups sc2_def r_def truncate_detach split: option.splits)
  have pbs: "core_ok (sc\<lparr>process_by_state := x\<rparr>)" "registration_valid (sc\<lparr>process_by_state := x\<rparr>) = registration_valid sc" for x
    using assms by simp_all
  have "core_ok sc1 \<and> registration_valid sc1 = registration_valid sc"
    using release_slot_ok [OF pbs(1)] i pbs(2) by (simp add: sc1_def)
  moreover have "ready_queue sc1 = ready_queue sc" "ready_cursor sc1 = ready_cursor sc" "timers sc1 = timers sc"
    by (simp_all add: sc1_def release_slot_def upd_state_def)
  ultimately show ?thesis
    using core_ok_ext [OF t] registration_valid_ext [OF t] truncate_fields [OF t] by simp
next
  case False
  then have "reclaim_finished_state idx sc = sc"
    by (auto simp: reclaim_finished_state_def split: option.splits)
  then show ?thesis using assms by simp
qed

lemma fold_reclaim_keeps:
  "core_ok sc \<Longrightarrow> core_ok (fold reclaim_finished_state idxs sc) \<and>
     ready_queue (fold reclaim_finished_state idxs sc) = ready_queue sc \<and>
     ready_cursor (fold reclaim_finished_state idxs sc) = ready_cursor sc \<and>
     registration_valid (fold reclaim_finished_state idxs sc) = registration_valid sc \<and>
     timers (fold reclaim_finished_state idxs sc) = timers sc"
  by (induction idxs arbitrary: sc) (simp_all add: reclaim_keeps)

lemma collect_keeps:
  assumes "core_ok sc"
  shows "core_ok (collect_finished_roots sc) \<and> ready_queue (collect_finished_roots sc) = ready_queue sc \<and>
      ready_cursor (collect_finished_roots sc) = ready_cursor sc \<and>
      registration_valid (collect_finished_roots sc) = registration_valid sc"
    and "core_ok (collect_finished_states sc) \<and> ready_queue (collect_finished_states sc) = ready_queue sc \<and>
      ready_cursor (collect_finished_states sc) = ready_cursor sc \<and>
      registration_valid (collect_finished_states sc) = registration_valid sc"
proof -
  have t: "sched_core.truncate (x\<lparr>finished_roots := [], reclaiming := False\<rparr>) = sched_core.truncate x"
    "sched_core.truncate (x\<lparr>finished_states := [], reclaiming := False\<rparr>) = sched_core.truncate x" for x :: sched
    by (simp_all add: sched_core.defs)
  have ok: "core_ok (sc\<lparr>reclaiming := True\<rparr>)" using assms by simp
  show "core_ok (collect_finished_roots sc) \<and> ready_queue (collect_finished_roots sc) = ready_queue sc \<and>
      ready_cursor (collect_finished_roots sc) = ready_cursor sc \<and>
      registration_valid (collect_finished_roots sc) = registration_valid sc"
    using fold_reclaim_keeps [OF ok, of "finished_roots sc"] assms
    by (simp add: collect_finished_roots_def core_ok_ext [OF t(1)] registration_valid_ext [OF t(1)])
  show "core_ok (collect_finished_states sc) \<and> ready_queue (collect_finished_states sc) = ready_queue sc \<and>
      ready_cursor (collect_finished_states sc) = ready_cursor sc \<and>
      registration_valid (collect_finished_states sc) = registration_valid sc"
    using fold_reclaim_keeps [OF ok, of "finished_states sc"] assms
    by (simp add: collect_finished_states_def core_ok_ext [OF t(2)] registration_valid_ext [OF t(2)])
qed

lemma boundary_keeps:
  assumes "core_ok sc"
  shows "core_ok (scheduler_boundary sc) \<and> ready_queue (scheduler_boundary sc) = ready_queue sc \<and>
    ready_cursor (scheduler_boundary sc) = ready_cursor sc \<and>
    registration_valid (scheduler_boundary sc) = registration_valid sc"
proof -
  have q: "ready_queue (compact_stale_edge_queues x) = ready_queue x"
    "ready_cursor (compact_stale_edge_queues x) = ready_cursor x" for x :: sched
    by (simp_all add: compact_stale_edge_queues_def Let_def)
  let ?a = "collect_finished_roots sc" and ?b = "collect_finished_states (collect_finished_roots sc)"
  have a: "core_ok ?a" using collect_keeps(1) [OF assms] by blast
  have b: "core_ok ?b" using collect_keeps(2) [OF a] by blast
  show ?thesis
    unfolding scheduler_boundary_def q compact_ok(2) [OF b]
    using collect_keeps(1) [OF assms] collect_keeps(2) [OF a] compact_ok(1) [OF b] by simp
qed

text \<open>Adopting a coroutine.\<close>

lemma adopt_process_ok:
  assumes ok: "core_ok sc" and res: "adopt h sc = (i, sc')"
  shows "core_ok sc'" "i < length (states sc')" "\<not> cs_waiting (states sc' ! i)" "\<not> cs_ready (states sc' ! i)"
    "\<not> cs_done (states sc' ! i)" "cs_handle (states sc' ! i) = Some h" "timers sc' = timers sc"
    "registration_valid sc' = registration_valid sc"
    "\<And>j. j < length (states sc) \<Longrightarrow> j \<noteq> i \<Longrightarrow> states sc' ! j = states sc ! j"
    "i < length (states sc) \<Longrightarrow> cs_handle (states sc ! i) = None"
    "ready_queue sc' = ready_queue sc" "ready_cursor sc' = ready_cursor sc"
    "sched_core.more sc' = sched_core.more (upd_promise h (\<lambda>p. p\<lparr>pr_state := Some i\<rparr>) sc)"
proof -
  obtain sc1 where 1: "adopt_state h sc = (i, sc1)" "sc' = upd_promise h (\<lambda>p. p\<lparr>pr_state := Some i\<rparr>) sc1"
    using res by (cases "adopt_state h sc") (auto simp: adopt_def)
  note a = adopt_ok [OF ok 1(1)]
  have s: "states sc' = states sc1" by (simp add: 1(2))
  show "core_ok sc'" "i < length (states sc')" "\<not> cs_waiting (states sc' ! i)" "\<not> cs_ready (states sc' ! i)"
    "\<not> cs_done (states sc' ! i)" "cs_handle (states sc' ! i) = Some h" "timers sc' = timers sc"
    "registration_valid sc' = registration_valid sc"
    "\<And>j. j < length (states sc) \<Longrightarrow> j \<noteq> i \<Longrightarrow> states sc' ! j = states sc ! j"
    "i < length (states sc) \<Longrightarrow> cs_handle (states sc ! i) = None"
    using a by (simp_all add: 1(2) coroutine_state_init_def)
  have f: "ready_queue sc1 = ready_queue sc" "ready_cursor sc1 = ready_cursor sc" "sched_core.more sc1 = sched_core.more sc"
    using 1(1) by (auto simp: adopt_state_def Let_def upd_state_def upd_diag_def split: if_splits)
  show "ready_queue sc' = ready_queue sc" "ready_cursor sc' = ready_cursor sc"
    by (simp_all add: 1(2) f)
  show "sched_core.more sc' = sched_core.more (upd_promise h (\<lambda>p. p\<lparr>pr_state := Some i\<rparr>) sc)"
    using f(3) by (cases sc1; cases sc) (simp add: 1(2) upd_promise_def)
qed

end
