(* ===== verification/DrainLemmas.thy ===== *)
theory DrainLemmas
  imports Drain CancelLemmas
begin

text \<open>
  The drain loop against user code. The locale \<open>coroutine_body\<close> knows of it only that it leaves the
  scheduler well formed: a run of the loop that returns keeps the invariant and leaves nobody ready. The
  locale \<open>finite_work\<close> adds a measure of the work left, and then the loop does return. Scripted
  coroutines interpret both.
\<close>

section \<open>Draining\<close>

lemma pending_after_advance:
  "drop (ready_cursor (advance_cursor sc)) (ready_queue (advance_cursor sc)) =
   drop (ready_cursor sc + 1) (ready_queue sc)"
  by (simp add: advance_cursor_def Let_def)

lemma core_ok_queue:
  assumes ok: "core_ok sc" and c: "c \<le> length q"
    and live: "\<And>i. i < length (states sc) \<Longrightarrow> cs_ready (states sc ! i) \<Longrightarrow> i \<in> set (drop c q)"
  shows "core_ok (sc\<lparr>ready_queue := q, ready_cursor := c\<rparr>)"
proof -
  let ?sc = "sc\<lparr>ready_queue := q, ready_cursor := c\<rparr>"
  have v: "registration_valid ?sc = registration_valid sc" by (rule registration_valid_cong) simp
  have k: "regs_known ?sc = regs_known sc" by (simp add: fun_eq_iff regs_known_def)
  have "edges_ok ?sc = edges_ok sc" by (simp add: edges_ok_def k stale_of_def valid_of_def v)
  moreover have "phases_ok ?sc = phases_ok sc" by (simp add: phases_ok_def k)
  moreover have "ready_ok ?sc" using core_okD(6) [OF ok] c live by (simp add: ready_ok_def)
  ultimately show ?thesis
    using core_okD [OF ok] by (intro core_okI) (simp_all add: k shape_ok_def slots_ok_def interest_ok_def free_ok_def)
qed

lemma advance_cursor_ok:
  assumes ok: "core_ok sc" and c: "ready_cursor sc < length (ready_queue sc)"
    and head: "ready_queue sc ! ready_cursor sc < length (states sc) \<Longrightarrow>
      \<not> cs_ready (states sc ! (ready_queue sc ! ready_cursor sc))"
  shows "core_ok (advance_cursor sc) \<and> registration_valid (advance_cursor sc) = registration_valid sc"
proof -
  let ?q = "ready_queue (advance_cursor sc)" and ?c = "ready_cursor (advance_cursor sc)"
  have eq: "advance_cursor sc = sc\<lparr>ready_queue := ?q, ready_cursor := ?c\<rparr>"
    by (cases sc) (simp add: advance_cursor_def Let_def)
  have bound: "?c \<le> length ?q" using c by (simp add: advance_cursor_def Let_def)
  have "i \<in> set (drop ?c ?q)" if "i < length (states sc)" "cs_ready (states sc ! i)" for i
  proof -
    have "i \<in> set (drop (ready_cursor sc) (ready_queue sc))"
      using core_okD(6) [OF ok] that by (simp add: ready_ok_def)
    moreover have "i \<noteq> ready_queue sc ! ready_cursor sc" using head that by blast
    ultimately show ?thesis
      unfolding pending_after_advance using Cons_nth_drop_Suc [OF c] by (metis Suc_eq_plus1 set_ConsD)
  qed
  from core_ok_queue [OF ok bound this] have "core_ok (advance_cursor sc)" using eq by simp
  moreover have "registration_valid (advance_cursor sc) = registration_valid sc"
    by (rule registration_valid_cong) (simp add: advance_cursor_def Let_def)
  ultimately show ?thesis by blast
qed

lemma take_ready_ok:
  assumes ok: "core_ok sc" and c: "ready_cursor sc < length (ready_queue sc)"
    and res: "take_ready sc = (r, sc')"
  shows "core_ok sc' \<and> registration_valid sc' = registration_valid sc \<and>
    drop (ready_cursor sc') (ready_queue sc') = drop (ready_cursor sc + 1) (ready_queue sc) \<and>
    (let i = ready_queue sc ! ready_cursor sc in
     if i < length (states sc) \<and> cs_ready (states sc ! i)
     then \<exists>h. r = Some (i, h) \<and> cs_handle (states sc ! i) = Some h \<and> \<not> cs_ready (states sc' ! i)
     else r = None)"
proof -
  let ?i = "ready_queue sc ! ready_cursor sc"
  have adv: "states (advance_cursor s) = states s" for s :: "'a sched_core_scheme"
    by (simp add: advance_cursor_def Let_def)
  have take: "take_ready sc =
      (if ?i \<ge> length (states sc) then (None, advance_cursor sc)
       else case cs_handle (states sc ! ?i) of None \<Rightarrow> (None, advance_cursor sc)
       | Some handle \<Rightarrow>
         if cs_done (states sc ! ?i) \<or> \<not> cs_ready (states sc ! ?i) then (None, advance_cursor sc)
         else (Some (?i, handle), clear_ready ?i (advance_cursor sc)))"
    unfolding take_ready_def Let_def adv by (rule refl)
  show ?thesis
  proof (cases "?i < length (states sc) \<and> cs_ready (states sc ! ?i)")
    case True
    then obtain h where h: "cs_handle (states sc ! ?i) = Some h" "\<not> cs_done (states sc ! ?i)" "\<not> cs_waiting (states sc ! ?i)"
      using slot_okI [OF ok, of ?i] by (auto simp: slot_ok_def)
    have r: "r = Some (?i, h)" "sc' = clear_ready ?i (advance_cursor sc)"
      using res h True by (simp_all add: take)
    have "clear_ready ?i (advance_cursor sc) = advance_cursor (clear_ready ?i sc)"
      using True by (simp add: clear_ready_states adv) (simp add: advance_cursor_def Let_def)
    moreover have "core_ok (clear_ready ?i sc) \<and> registration_valid (clear_ready ?i sc) = registration_valid sc"
      using clear_ready_ok [OF ok] True h by blast
    moreover have "core_ok (advance_cursor (clear_ready ?i sc)) \<and>
        registration_valid (advance_cursor (clear_ready ?i sc)) = registration_valid (clear_ready ?i sc)"
      using calculation(2) c True by (intro advance_cursor_ok) simp_all
    moreover have "drop (ready_cursor sc') (ready_queue sc') = drop (ready_cursor sc + 1) (ready_queue sc)"
      using pending_after_advance [of sc] by (simp add: r)
    ultimately show ?thesis using True h r by (simp add: Let_def adv)
  next
    case False
    then have "take_ready sc = (None, advance_cursor sc)" by (auto simp: take split: option.splits)
    then have r: "r = None" "sc' = advance_cursor sc" using res by simp_all
    then show ?thesis
      using False advance_cursor_ok [OF ok c] pending_after_advance [of sc] by (auto simp: Let_def)
  qed
qed

text \<open>
  The interface of the drain: user code resumed by the scheduler may do anything, as long as the
  scheduler is well formed when it suspends again.
\<close>

locale coroutine_body =
  fixes resume :: body
  assumes resume_keeps: "core_ok sc \<Longrightarrow> resume h sc = Inr sc' \<Longrightarrow> core_ok sc'"
begin

lemma run_ready_keeps: "core_ok sc \<Longrightarrow> run_ready resume i h sc = Inr sc' \<Longrightarrow> core_ok sc'"
proof -
  assume ok: "core_ok sc" and r: "run_ready resume i h sc = Inr sc'"
  have t: "sched_core.truncate (x\<lparr>current_context := a, current_state := b\<rparr>) = sched_core.truncate x" for a b and x :: sched
    by (simp add: sched_core.defs)
  show ?thesis
    using r resume_keeps [of "sc\<lparr>current_context := pr_context (promises sc h), current_state := Some i\<rparr>" h]
    by (auto simp: run_ready_def Let_def result_bind_Ok_iff core_ok_ext [OF t] ok)
qed

lemma drain_queue_keeps:
  "core_ok sc \<Longrightarrow> drain_ready_queue resume depth fuel sc = Some (Inr sc') \<Longrightarrow>
   core_ok sc' \<and> ready_cursor sc' \<ge> length (ready_queue sc')"
proof (induction fuel arbitrary: sc)
  case 0
  then show ?case by (subst (asm) drain_ready_queue.simps) (auto split: if_splits)
next
  case (Suc fuel)
  show ?case
  proof (cases "ready_cursor sc \<ge> length (ready_queue sc)")
    case True
    then show ?thesis using Suc.prems(1) Suc.prems(2) [unfolded drain_ready_queue.simps [of resume depth "Suc fuel" sc]] by simp
  next
    case False
    then have c: "ready_cursor sc < length (ready_queue sc)" by simp
    obtain r sc1 where t: "take_ready sc = (r, sc1)" by (cases "take_ready sc")
    have ok1: "core_ok sc1" using take_ready_ok [OF Suc.prems(1) c t] by blast
    note step = Suc.prems(2) [unfolded drain_ready_queue.simps [of resume depth "Suc fuel" sc]]
    show ?thesis
    proof (cases r)
      case None
      then have "drain_ready_queue resume depth fuel sc1 = Some (Inr sc')" using step False t by simp
      then show ?thesis by (rule Suc.IH [OF ok1])
    next
      case (Some p)
      obtain i h where p: "p = (i, h)" by (cases p)
      obtain sc2 where s2: "run_ready resume i h sc1 = Inr sc2"
        using step False t Some p by (cases "run_ready resume i h sc1") auto
      have ok2: "core_ok sc2" by (rule run_ready_keeps [OF ok1 s2])
      obtain sc3 where s3: "apply_pending_cancellations depth sc2 = Some (Inr sc3)"
        and rest: "drain_ready_queue resume depth fuel (collect_finished_roots sc3) = Some (Inr sc')"
        using step False t Some p s2 by (auto split: option.splits sum.splits)
      obtain sc3' where "cancel_pending depth (pending_cancellations sc2) sc2 = Some (Inr sc3')"
        "sc3 = sc3'\<lparr>pending_cancellations := []\<rparr>"
        using s3 by (auto simp: apply_pending_cancellations_def result_bind_Ok_iff)
      then have "core_ok sc3" using cancel_pending_keeps [OF ok2] by simp
      then have "core_ok (collect_finished_roots sc3)" using collect_keeps(1) by blast
      then show ?thesis using Suc.IH rest by blast
    qed
  qed
qed

text \<open>A drain that returns leaves nobody ready.\<close>

lemma drain_keeps:
  assumes ok: "core_ok sc" and d: "\<not> draining sc" and res: "drain_ready resume depth fuel sc = Some (Inr sc')"
    and c: "ready_cursor sc = 0"
  shows "core_ok sc' \<and> ready_queue sc' = [] \<and> ready_cursor sc' = 0 \<and> live_ready sc' = 0 \<and>
    (\<forall>s\<in>set (states sc'). \<not> cs_ready s)"
proof -
  have start: "sc\<lparr>draining := True, ready_cursor := 0\<rparr> = sc\<lparr>draining := True\<rparr>" using c by (cases sc) simp
  obtain sc1 where s1: "drain_ready_queue resume depth fuel (sc\<lparr>draining := True\<rparr>) = Some (Inr sc1)"
    and sc': "sc' = scheduler_boundary (sc1\<lparr>ready_queue := [], ready_cursor := 0, draining := False\<rparr>)"
    using res d by (auto simp: drain_ready_def start result_bind_Ok_iff)
  have k: "core_ok sc1" "ready_cursor sc1 \<ge> length (ready_queue sc1)"
    using drain_queue_keeps [OF _ s1] ok by simp_all
  have "core_ok (sc1\<lparr>ready_queue := [], ready_cursor := 0\<rparr>)"
    using core_okD(6) [OF k(1)] k(2) by (intro core_ok_queue [OF k(1)]) (auto simp: ready_ok_def)
  then have b: "core_ok (sc1\<lparr>ready_queue := [], ready_cursor := 0, draining := False\<rparr>)"
    using core_ok_ext [of "sc1\<lparr>ready_queue := [], ready_cursor := 0, draining := False\<rparr>" "sc1\<lparr>ready_queue := [], ready_cursor := 0\<rparr>"]
    by (simp add: sched_core.defs)
  from boundary_keeps [OF b] have k': "core_ok sc'" "ready_queue sc' = []" "ready_cursor sc' = 0"
    by (simp_all add: sc')
  then have "\<not> cs_ready (states sc' ! i)" if "i < length (states sc')" for i
    using core_okD(6) [OF k'(1)] that by (auto simp: ready_ok_def)
  then have none: "\<forall>s\<in>set (states sc'). \<not> cs_ready s" by (auto simp: in_set_conv_nth)
  then have "live_ready sc' = 0" using core_okD(6) [OF k'(1)] by (simp add: ready_ok_def filter_empty_conv)
  with k' none show ?thesis by blast
qed

end

lemma take_ready_slot:
  assumes ok: "core_ok sc" and take: "take_ready sc = (Some (i, h), sc1)"
  shows "i < length (states sc1) \<and> cs_handle (states sc1 ! i) = Some h \<and> \<not> cs_done (states sc1 ! i) \<and>
    \<not> cs_waiting (states sc1 ! i)"
proof -
  have adv: "states (advance_cursor s) = states s" for s :: "'a sched_core_scheme"
    by (simp add: advance_cursor_def Let_def)
  have c: "i < length (states sc)" "cs_handle (states sc ! i) = Some h" "\<not> cs_done (states sc ! i)" "cs_ready (states sc ! i)"
    "sc1 = clear_ready i (advance_cursor sc)"
    using take by (auto simp: take_ready_def Let_def adv split: if_splits option.splits)
  then show ?thesis using slot_okI [OF ok c(1)] by (simp add: clear_ready_states adv slot_ok_def)
qed

text \<open>
  What a drain needs of user code to return: a measure of the work left that every resumption of a
  coroutine diminishes and the bookkeeping of the scheduler does not raise, and cancellations that end. The
  predicate \<open>P\<close> says when this holds.
\<close>

locale finite_work = coroutine_body resume for resume :: body +
  fixes P :: "sched \<Rightarrow> bool" and work :: "sched \<Rightarrow> nat" and depth :: nat
  assumes P_ok: "P sc \<Longrightarrow> core_ok sc"
    and P_start: "P sc \<Longrightarrow> P (sc\<lparr>draining := True\<rparr>)"
    and P_take: "P sc \<Longrightarrow> ready_cursor sc < length (ready_queue sc) \<Longrightarrow>
      P (snd (take_ready sc)) \<and> work (snd (take_ready sc)) \<le> work sc"
    and P_context: "P sc \<Longrightarrow> P (sc\<lparr>current_context := c, current_state := s\<rparr>) \<and>
      work (sc\<lparr>current_context := c, current_state := s\<rparr>) \<le> work sc"
    and P_resume: "P sc \<Longrightarrow> i < length (states sc) \<Longrightarrow> cs_handle (states sc ! i) = Some h \<Longrightarrow>
      \<not> cs_done (states sc ! i) \<Longrightarrow> \<not> cs_waiting (states sc ! i) \<Longrightarrow>
      \<exists>sc'. resume h sc = Inr sc' \<and> P sc' \<and> work sc' < work sc"
    and P_cancel: "P sc \<Longrightarrow>
      \<exists>sc'. apply_pending_cancellations depth sc = Some (Inr sc') \<and> P sc' \<and> work sc' \<le> work sc"
    and P_collect: "P sc \<Longrightarrow> P (collect_finished_roots sc) \<and> work (collect_finished_roots sc) \<le> work sc"
begin

lemma run_ready_works:
  assumes "P sc" "i < length (states sc)" "cs_handle (states sc ! i) = Some h"
    "\<not> cs_done (states sc ! i)" "\<not> cs_waiting (states sc ! i)"
  shows "\<exists>sc'. run_ready resume i h sc = Inr sc' \<and> P sc' \<and> work sc' < work sc"
proof -
  let ?sc = "sc\<lparr>current_context := pr_context (promises sc h), current_state := Some i\<rparr>"
  have c: "P ?sc" "work ?sc \<le> work sc" using P_context [OF assms(1)] by blast+
  obtain sc1 where s1: "resume h ?sc = Inr sc1" "P sc1" "work sc1 < work ?sc"
    using P_resume [OF c(1), of i h] assms by auto
  let ?sc1 = "sc1\<lparr>current_context := current_context sc, current_state := current_state sc\<rparr>"
  have "run_ready resume i h sc = Inr ?sc1" by (simp add: run_ready_def s1(1))
  moreover have "P ?sc1 \<and> work ?sc1 \<le> work sc1" using P_context [OF s1(2)] by blast
  ultimately show ?thesis using s1(3) c(2) by (meson le_less_trans less_le_trans)
qed

lemma drain_queue_returns:
  "P sc \<Longrightarrow> \<exists>n. \<forall>fuel\<ge>n. \<exists>sc'. drain_ready_queue resume depth fuel sc = Some (Inr sc')"
proof (induction "(work sc, length (ready_queue sc) - ready_cursor sc)" arbitrary: sc
    rule: wf_induct_rule [OF wf_lex_prod [OF wf_less wf_less]])
  case 1
  note IH = 1(1) and P = 1(2)
  show ?case
  proof (cases "ready_cursor sc \<ge> length (ready_queue sc)")
    case True
    then have "drain_ready_queue resume depth fuel sc = Some (Inr sc)" for fuel
      by (subst drain_ready_queue.simps) simp
    then show ?thesis by blast
  next
    case False
    then have c: "ready_cursor sc < length (ready_queue sc)" by simp
    obtain r sc1 where t: "take_ready sc = (r, sc1)" by (cases "take_ready sc")
    have s1: "P sc1" "work sc1 \<le> work sc" using P_take [OF P c] t by simp_all
    have "drop (ready_cursor sc1) (ready_queue sc1) = drop (ready_cursor sc + 1) (ready_queue sc)"
      using take_ready_ok [OF P_ok [OF P] c t] by blast
    from arg_cong [OF this, of length]
    have rest: "length (ready_queue sc1) - ready_cursor sc1 < length (ready_queue sc) - ready_cursor sc" using c by simp
    have step: "\<exists>n. \<forall>fuel\<ge>n. \<exists>sc'. drain_ready_queue resume depth fuel sc = Some (Inr sc')"
      if n: "\<forall>fuel\<ge>n. \<exists>sc'. drain_ready_queue resume depth fuel sc2 = Some (Inr sc')"
        and eq: "\<And>fuel. drain_ready_queue resume depth (Suc fuel) sc = drain_ready_queue resume depth fuel sc2" for n sc2
    proof (intro exI [of _ "Suc n"] allI impI)
      fix fuel
      assume "Suc n \<le> fuel"
      then obtain m where "fuel = Suc m" "n \<le> m" by (metis Suc_le_D Suc_le_mono)
      then show "\<exists>sc'. drain_ready_queue resume depth fuel sc = Some (Inr sc')" using n eq by simp
    qed
    show ?thesis
    proof (cases r)
      case None
      have eq: "drain_ready_queue resume depth (Suc fuel) sc = drain_ready_queue resume depth fuel sc1" for fuel
        using False t None by (subst drain_ready_queue.simps) simp
      have "\<exists>n. \<forall>fuel\<ge>n. \<exists>sc'. drain_ready_queue resume depth fuel sc1 = Some (Inr sc')"
        using s1 rest by (intro IH) auto
      then show ?thesis using step eq by blast
    next
      case (Some p)
      obtain i h where p: "p = (i, h)" by (cases p)
      have slot: "i < length (states sc1)" "cs_handle (states sc1 ! i) = Some h" "\<not> cs_done (states sc1 ! i)"
        "\<not> cs_waiting (states sc1 ! i)" using take_ready_slot [OF P_ok [OF P]] t Some p by blast+
      obtain sc2 where s2: "run_ready resume i h sc1 = Inr sc2" "P sc2" "work sc2 < work sc1"
        using run_ready_works [OF s1(1) slot] by blast
      obtain sc3 where s3: "apply_pending_cancellations depth sc2 = Some (Inr sc3)" "P sc3" "work sc3 \<le> work sc2"
        using P_cancel [OF s2(2)] by blast
      let ?sc4 = "collect_finished_roots sc3"
      have s4: "P ?sc4" "work ?sc4 \<le> work sc3" using P_collect [OF s3(2)] by blast+
      have eq: "drain_ready_queue resume depth (Suc fuel) sc = drain_ready_queue resume depth fuel ?sc4" for fuel
        using False t Some p s2(1) s3(1) by (subst drain_ready_queue.simps) simp
      have "\<exists>n. \<forall>fuel\<ge>n. \<exists>sc'. drain_ready_queue resume depth fuel ?sc4 = Some (Inr sc')"
        using s1(2) s2(3) s3(3) s4 by (intro IH) auto
      then show ?thesis using step eq by blast
    qed
  qed
qed

lemma drain_returns:
  assumes P: "P sc" and d: "\<not> draining sc" "ready_cursor sc = 0"
  shows "\<exists>n. \<forall>fuel\<ge>n. \<exists>sc'. drain_ready resume depth fuel sc = Some (Inr sc') \<and> core_ok sc' \<and>
    ready_queue sc' = [] \<and> live_ready sc' = 0 \<and> (\<forall>s\<in>set (states sc'). \<not> cs_ready s)"
proof -
  have start: "sc\<lparr>draining := True, ready_cursor := 0\<rparr> = sc\<lparr>draining := True\<rparr>" using d(2) by (cases sc) simp
  obtain n where n: "\<forall>fuel\<ge>n. \<exists>sc'. drain_ready_queue resume depth fuel (sc\<lparr>draining := True\<rparr>) = Some (Inr sc')"
    using drain_queue_returns [OF P_start [OF P]] by blast
  have "\<exists>sc'. drain_ready resume depth fuel sc = Some (Inr sc') \<and> core_ok sc' \<and>
    ready_queue sc' = [] \<and> live_ready sc' = 0 \<and> (\<forall>s\<in>set (states sc'). \<not> cs_ready s)" if enough: "n \<le> fuel" for fuel
  proof -
    obtain sc1 where "drain_ready_queue resume depth fuel (sc\<lparr>draining := True\<rparr>) = Some (Inr sc1)" using n enough by blast
    then obtain sc' where r: "drain_ready resume depth fuel sc = Some (Inr sc')" using d by (simp add: drain_ready_def start)
    from drain_keeps [OF P_ok [OF P] d(1) r d(2)] r show ?thesis by blast
  qed
  then show ?thesis by blast
qed

end

section \<open>Finishing\<close>

lemma complete_process_keeps:
  "core_ok sc \<Longrightarrow> complete_process c b sc = Inr sc' \<Longrightarrow> core_ok sc'"
  using complete_process_ok [of sc c b] by auto

lemma finish_ok:
  assumes ok: "core_ok sc" and res: "finish h sc = Inr sc'"
  shows "core_ok sc'"
proof -
  consider (skip) "sc' = sc"
    | (run) i where "pr_state (promises sc h) = Some i" "state_matches i h sc"
    using res by (auto simp: finish_def split: option.splits if_splits)
  then show ?thesis
  proof cases
    case skip
    then show ?thesis using ok by simp
  next
    case run
    have i: "i < length (states sc)" "cs_handle (states sc ! i) = Some h" using run(2) by (simp_all add: state_matches_def)
    obtain sc1 where e: "end_wait i sc = Inr sc1" "core_ok sc1" "\<not> cs_waiting (states sc1 ! i)"
      "length (states sc1) = length (states sc)" "\<And>j. cs_handle (states sc1 ! j) = cs_handle (states sc ! j)"
      using end_wait_cases [OF ok i(1)] by metis
    define sc2 where "sc2 = (if cs_waiting (states sc ! i) then sc1 else sc)"
    have 2: "core_ok sc2" "i < length (states sc2)" "\<not> cs_waiting (states sc2 ! i)" "cs_handle (states sc2 ! i) \<noteq> None"
      using ok e i by (simp_all add: sc2_def)
    have w: "(if cs_waiting (states sc ! i) then end_wait i sc else Ok sc) = Ok sc2" by (simp add: sc2_def e)
    define sc3 where "sc3 = mark_finished i sc2"
    have ok3: "core_ok sc3" using done_core_ok [OF 2] by (simp add: sc3_def mark_finished_eq [OF 2(2)])
    show ?thesis
      using res ok3 run w
      by (auto simp: finish_def Let_def sc3_def [symmetric] result_bind_Ok_iff split: if_splits option.splits
          dest!: complete_process_keeps [rotated])
  qed
qed

definition child_done :: "nat \<Rightarrow> nat option \<Rightarrow> sched \<Rightarrow> sched" where
  "child_done j ex = upd_join j (\<lambda>s. \<lparr>jn_remaining = jn_remaining s - 1, jn_parent = jn_parent s,
     jn_exception = (if jn_exception s = None then ex else jn_exception s)\<rparr>)"

lemma child_done_simps [simp]:
  "core_ok (child_done j ex sc) = core_ok sc" "states (child_done j ex sc) = states sc"
  "ready_queue (child_done j ex sc) = ready_queue sc" "ready_cursor (child_done j ex sc) = ready_cursor sc"
  "joins (child_done j ex sc) j = \<lparr>jn_remaining = jn_remaining (joins sc j) - 1, jn_parent = jn_parent (joins sc j),
     jn_exception = (if jn_exception (joins sc j) = None then ex else jn_exception (joins sc j))\<rparr>"
  by (rule core_ok_ext) (simp_all add: child_done_def upd_join_def)

lemma finish_join_child_eq:
  "finish_join_child (Some j) ex sc =
     (if jn_remaining (joins sc j) = 0 then Ok sc
      else let i = jn_parent (joins sc j); sc' = child_done j ex sc
           in if jn_remaining (joins sc j) = 1 \<and> i < length (states sc) \<and> \<not> cs_done (states sc ! i) \<and> cs_waiting (states sc ! i)
              then result_bind (end_wait i sc') (\<lambda>sc. Ok (make_ready i sc)) else Ok sc')"
proof -
  have d: "upd_join j (\<lambda>s. s\<lparr>jn_remaining := jn_remaining s - 1\<rparr>)
      (if ex \<noteq> None \<and> jn_exception (joins sc j) = None then upd_join j (\<lambda>s. s\<lparr>jn_exception := ex\<rparr>) sc else sc) =
      child_done j ex sc"
    by (cases sc; cases "joins sc j") (auto simp: child_done_def upd_join_def fun_eq_iff)
  show ?thesis
    unfolding finish_join_child_def option.case Let_def d child_done_simps join_state.simps
    by (cases "jn_remaining (joins sc j)"; simp add: not_le)
qed

lemma finish_join_child_ok:
  assumes ok: "core_ok sc" and res: "finish_join_child j ex sc = Inr sc'"
  shows "core_ok sc'"
proof -
  have wake: "core_ok t" if "core_ok s" "i < length (states s)" "\<not> cs_done (states s ! i)" "cs_waiting (states s ! i)"
    "end_wait i s = Inr s1" "t = make_ready i s1" for i s s1 t
  proof -
    note given = that
    have h: "cs_handle (states s ! i) \<noteq> None" "\<not> cs_ready (states s ! i)"
      using slot_okI [OF given(1,2)] given(4) by (auto simp: slot_ok_def)
    obtain s1' where e: "end_wait i s = Inr s1'" "core_ok s1'" "\<not> cs_waiting (states s1' ! i)"
      "length (states s1') = length (states s)" "\<And>j. cs_handle (states s1' ! j) = cs_handle (states s ! j)"
      "\<And>j. cs_done (states s1' ! j) = cs_done (states s ! j)"
      using end_wait_cases [OF given(1,2)] by metis
    then show ?thesis using make_ready_ok [of s1' i] given h by auto
  qed
  show ?thesis
  proof (cases j)
    case None
    then show ?thesis using res ok by (simp add: finish_join_child_def)
  next
    case (Some k)
    have "core_ok (child_done k ex sc)" using ok by simp
    with Some show ?thesis
      using res ok wake [of "child_done k ex sc" "jn_parent (joins sc k)"]
      by (auto simp: finish_join_child_eq Let_def result_bind_Ok_iff split: if_splits)
  qed
qed

lemma final_suspend_ok:
  "core_ok sc \<Longrightarrow> final_suspend h sc = Inr (next, sc') \<Longrightarrow> core_ok sc'"
  by (auto simp: final_suspend_def Let_def result_bind_Ok_iff split: if_splits option.splits
      dest: finish_ok [rotated] finish_join_child_ok [rotated])

section \<open>Scripted coroutines\<close>

text \<open>
  Scripted coroutines have finite work: each wait parks one, each finish ends one. They are
  registered, carry no exception and cancel nothing.
\<close>

definition live_slots :: "sched \<Rightarrow> nat set" where
  "live_slots sc = {i. i < length (states sc) \<and> cs_handle (states sc ! i) \<noteq> None \<and> \<not> cs_done (states sc ! i)}"

definition unparked_slots :: "sched \<Rightarrow> nat set" where
  "unparked_slots sc = {i \<in> live_slots sc. \<not> cs_waiting (states sc ! i)}"

definition work_left :: "sched \<Rightarrow> nat" where
  "work_left sc = card (live_slots sc) * Suc (length (states sc)) + card (unparked_slots sc)"

definition promises_bound :: "sched \<Rightarrow> bool" where
  "promises_bound sc \<longleftrightarrow> pending_cancellations sc = [] \<and>
     (\<forall>i<length (states sc). \<forall>h. cs_handle (states sc ! i) = Some h \<longrightarrow> pr_state (promises sc h) = Some i \<and>
        (\<not> cs_done (states sc ! i) \<longrightarrow> pr_scheduled (promises sc h) \<and> pr_exception (promises sc h) = None))"

definition scripted :: "sched \<Rightarrow> bool" where
  "scripted sc \<longleftrightarrow> core_ok sc \<and> promises_bound sc"

lemma live_slots_bound: "live_slots sc \<subseteq> {..<length (states sc)}" "unparked_slots sc \<subseteq> live_slots sc"
    "finite (live_slots sc)" "card (unparked_slots sc) \<le> length (states sc)"
proof -
  show l: "live_slots sc \<subseteq> {..<length (states sc)}" "unparked_slots sc \<subseteq> live_slots sc"
    by (auto simp: live_slots_def unparked_slots_def)
  show "finite (live_slots sc)" by (rule finite_subset [OF l(1)]) simp
  show "card (unparked_slots sc) \<le> length (states sc)"
    using card_mono [of "{..<length (states sc)}" "unparked_slots sc"] l by auto
qed

lemma same_slots:
  assumes "length (states b) = length (states a)"
    and "\<And>i. i < length (states a) \<Longrightarrow> cs_handle (states b ! i) = cs_handle (states a ! i) \<and>
      cs_done (states b ! i) = cs_done (states a ! i)"
  shows "live_slots b = live_slots a"
  using assms by (auto simp: live_slots_def)

lemma same_work:
  assumes "length (states b) = length (states a)"
    and "\<And>i. i < length (states a) \<Longrightarrow> cs_handle (states b ! i) = cs_handle (states a ! i) \<and>
      cs_done (states b ! i) = cs_done (states a ! i) \<and> cs_waiting (states b ! i) = cs_waiting (states a ! i)"
  shows "work_left b = work_left a"
proof -
  have l: "live_slots b = live_slots a" by (rule same_slots [OF assms(1)]) (use assms(2) in blast)
  have "unparked_slots b = unparked_slots a"
    unfolding unparked_slots_def l using assms(2) by (auto simp: live_slots_def)
  then show ?thesis by (simp add: work_left_def l assms(1))
qed

lemma less_live_less_work:
  assumes "length (states b) = length (states a)" "live_slots b \<subset> live_slots a"
  shows "work_left b < work_left a"
proof -
  have "card (live_slots b) < card (live_slots a)"
    using assms(2) psubset_card_mono [OF live_slots_bound(3)] by blast
  then have "Suc (card (live_slots b)) * Suc (length (states a)) \<le> card (live_slots a) * Suc (length (states a))"
    by (intro mult_le_mono1) simp
  then show ?thesis using live_slots_bound(4) [of b] by (simp add: work_left_def assms(1))
qed

lemma parked_less_work:
  assumes "length (states b) = length (states a)" "live_slots b = live_slots a" "unparked_slots b \<subset> unparked_slots a"
  shows "work_left b < work_left a"
proof -
  have "finite (unparked_slots a)" using live_slots_bound(2,3) finite_subset by blast
  then show ?thesis using psubset_card_mono assms by (auto simp: work_left_def)
qed

text \<open>Reclaiming.\<close>

lemma kept_cleanups:
  "promises (run_cleanups_from n sc) = promises sc \<and> pending_cancellations (run_cleanups_from n sc) = pending_cancellations sc"
proof (induction n sc rule: run_cleanups_from.induct)
  case (1 index sc)
  then show ?case by (subst (1 2) run_cleanups_from.simps) (auto simp: Let_def log_call_def)
qed

lemma kept_detach:
  "promises (snd (detach_control c sc)) = promises sc \<and>
   pending_cancellations (snd (detach_control c sc)) = pending_cancellations sc"
proof -
  have "promises (release_owned_context c x) = promises x \<and>
      pending_cancellations (release_owned_context c x) = pending_cancellations x" for c x
    by (auto simp: release_owned_context_def Let_def upd_control_def log_call_def split: option.splits)
  then show ?thesis
    by (auto simp: detach_control_def Let_def release_control_def upd_control_def split: option.splits)
qed

lemma reclaim_frame:
  assumes "i < length (states sc)" "cs_handle (states sc ! i) = Some h" "cs_done (states sc ! i)"
  shows "states (reclaim_finished_state (Some i) sc) = (states sc)[i := coroutine_state_init] \<and>
    promises (reclaim_finished_state (Some i) sc) = (promises sc)(h := (promises sc h)\<lparr>pr_scheduled := False\<rparr>) \<and>
    pending_cancellations (reclaim_finished_state (Some i) sc) = pending_cancellations sc"
proof -
  define sc1 where "sc1 = release_slot i (sc\<lparr>process_by_state := (process_by_state sc)[i := None]\<rparr>)"
  define r where "r = (case lookup_or None (process_by_state sc) i of None \<Rightarrow> (False, sc1) | Some c \<Rightarrow> detach_control c sc1)"
  define sc2 where "sc2 = log_call (CallDestroy h) (upd_promise h (\<lambda>p. p\<lparr>pr_scheduled := False\<rparr>) (snd r))"
  have eq: "reclaim_finished_state (Some i) sc = (if fst r \<and> deferred_cleanups sc2 \<noteq> [] then run_owner_cleanups sc2 else sc2)"
    using assms by (auto simp add: reclaim_finished_state_def sc2_def r_def sc1_def Let_def split: prod.splits option.splits)
  have s1: "states sc1 = (states sc)[i := coroutine_state_init]" "promises sc1 = promises sc"
    "pending_cancellations sc1 = pending_cancellations sc"
    by (simp_all add: sc1_def release_slot_def upd_state_def)
  have t: "sched_core.truncate (snd r) = sched_core.truncate sc1"
    by (simp add: r_def truncate_detach split: option.splits)
  have r: "states (snd r) = states sc1" "promises (snd r) = promises sc1" "pending_cancellations (snd r) = pending_cancellations sc1"
    using truncate_fields(4) [OF t] kept_detach by (simp_all add: r_def split: option.splits)
  have s2: "states sc2 = states sc1" "promises sc2 = (promises sc)(h := (promises sc h)\<lparr>pr_scheduled := False\<rparr>)"
    "pending_cancellations sc2 = pending_cancellations sc"
    using r s1 by (simp_all add: sc2_def log_call_def upd_promise_def)
  have "states (run_owner_cleanups sc2) = states sc2"
    by (rule truncate_fields(4)) (simp add: run_owner_cleanups_def truncate_cleanups)
  then show ?thesis using kept_cleanups s2 s1 by (simp add: eq run_owner_cleanups_def)
qed

lemma reclaim_scripted:
  assumes "scripted sc"
  shows "scripted (reclaim_finished_state idx sc) \<and> work_left (reclaim_finished_state idx sc) = work_left sc"
proof (cases "\<exists>i h. idx = Some i \<and> i < length (states sc) \<and> cs_handle (states sc ! i) = Some h \<and> cs_done (states sc ! i)")
  case True
  then obtain i h where idx: "idx = Some i" and i: "i < length (states sc)" "cs_handle (states sc ! i) = Some h" "cs_done (states sc ! i)"
    by blast
  let ?r = "reclaim_finished_state (Some i) sc"
  note f = reclaim_frame [OF i]
  have b: "promises_bound sc" "core_ok ?r" using assms reclaim_keeps by (auto simp: scripted_def)
  have other: "cs_handle (states sc ! j) \<noteq> Some h" if "j < length (states sc)" "j \<noteq> i" for j
    using b(1) i that unfolding promises_bound_def by (metis option.inject)
  have "promises_bound ?r"
    using b(1) f i other by (auto simp: promises_bound_def nth_list_update coroutine_state_init_def split: if_splits)
  moreover have "live_slots ?r = live_slots sc"
    using f i by (auto simp: live_slots_def nth_list_update coroutine_state_init_def)
  moreover have "unparked_slots ?r = unparked_slots sc"
    unfolding unparked_slots_def calculation(2) using f i by (auto simp: live_slots_def nth_list_update)
  ultimately show ?thesis using b(2) f by (simp add: idx scripted_def work_left_def)
next
  case False
  then have "reclaim_finished_state idx sc = sc"
    by (auto simp: reclaim_finished_state_def split: option.splits)
  then show ?thesis using assms by simp
qed

lemma collect_scripted:
  assumes "scripted sc"
  shows "scripted (collect_finished_roots sc) \<and> work_left (collect_finished_roots sc) = work_left sc"
proof -
  have same: "scripted (x\<lparr>reclaiming := c\<rparr>) = scripted x" "work_left (x\<lparr>reclaiming := c\<rparr>) = work_left x"
    "scripted (x\<lparr>finished_roots := r\<rparr>) = scripted x"
    "work_left (x\<lparr>finished_roots := r\<rparr>) = work_left x" for x r c
    using core_ok_ext [of "x\<lparr>finished_roots := r\<rparr>" x]
    by (simp_all add: scripted_def promises_bound_def work_left_def live_slots_def unparked_slots_def sched_core.defs)
  have "scripted (fold reclaim_finished_state is x) \<and> work_left (fold reclaim_finished_state is x) = work_left x"
    if "scripted x" for "is" x
    using that by (induction "is" arbitrary: x) (simp_all add: reclaim_scripted)
  then show ?thesis using assms by (simp add: collect_finished_roots_def same)
qed

text \<open>
  Coroutines that wait for one edge or finish, as a body for the drain: \<open>script\<close> says which
  edge a coroutine waits for when it is resumed, if it has not finished waiting.
\<close>

definition script_body :: "(nat \<Rightarrow> (nat \<times> edge_kind) option) \<Rightarrow> body" where
  "script_body script h sc =
     (case script h of
        None \<Rightarrow> result_bind (final_suspend h sc) (\<lambda>(_, sc). Ok sc)
      | Some (signal, edge) \<Rightarrow>
        (case pr_state (promises sc h) of
           None \<Rightarrow> Fail (Abort ''coroutine was not registered with scheduler'')
         | Some i \<Rightarrow> if cs_done (states sc ! i) then Ok sc
                     else park_edge h i signal edge ReasonEdge sc))"

lemma park_edge_keeps:
  assumes ok: "core_ok sc" and d: "\<not> cs_done (states sc ! i)" and res: "park_edge h i s e reason sc = Inr sc'"
  shows "core_ok sc'"
proof -
  have i: "i < length (states sc)" "cs_handle (states sc ! i) = Some h"
    using res by (auto simp: park_edge_def state_for_def state_matches_def split: if_splits)
  obtain sc1 where b: "begin_wait i reason sc = Inr (next_generation sc + 1, sc1)" "core_ok sc1"
    "length (states sc1) = length (states sc)" "cs_waiting (states sc1 ! i)"
    "cs_generation (states sc1 ! i) = next_generation sc + 1"
    "cs_handle (states sc1 ! i) = cs_handle (states sc ! i)" "\<not> cs_done (states sc1 ! i)"
    using begin_wait_ok [OF ok i(1) _ d, of reason] i(2) by (metis option.distinct(1))
  have v: "registration_valid sc1 \<lparr>reg_state = i, reg_generation = next_generation sc + 1, reg_winner = None, reg_index = 0\<rparr>"
    using b i by (simp add: registration_valid_def)
  show ?thesis
    using register_edge_wait_ok(1) [OF b(2) v, of s e] res b(1) i
    by (simp add: park_edge_def state_for_def state_matches_def)
qed

interpretation script: coroutine_body "script_body script" for script
proof
  fix sc h sc'
  assume "core_ok sc" "script_body script h sc = Inr sc'"
  then show "core_ok sc'"
    using final_suspend_ok park_edge_keeps
    by (auto simp: script_body_def result_bind_Ok_iff split: option.splits if_splits)
qed

lemma park_edge_frame:
  assumes i: "i < length (states sc)" "cs_handle (states sc ! i) = Some h" "\<not> cs_waiting (states sc ! i)"
  obtains sc' where "park_edge h i signal edge reason sc = Inr sc'" "length (states sc') = length (states sc)"
    "\<And>j. cs_handle (states sc' ! j) = cs_handle (states sc ! j)" "\<And>j. cs_done (states sc' ! j) = cs_done (states sc ! j)"
    "\<And>j. cs_waiting (states sc' ! j) \<longleftrightarrow> cs_waiting (states sc ! j) \<or> j = i" "sched_core.more sc' = sched_core.more sc"
proof -
  have m: "state_for h i sc = Ok i" using i by (simp add: state_for_def state_matches_def)
  define w where "w = snd (case begin_wait i reason sc of Inr p \<Rightarrow> p)"
  obtain g where b: "begin_wait i reason sc = Inr (g, w)" using i by (simp add: begin_wait_def w_def Let_def)
  have w: "length (states w) = length (states sc)" "cs_handle (states w ! j) = cs_handle (states sc ! j)"
    "cs_done (states w ! j) = cs_done (states sc ! j)" "cs_waiting (states w ! j) \<longleftrightarrow> cs_waiting (states sc ! j) \<or> j = i"
    "sched_core.more w = sched_core.more sc" for j
    using i by (auto simp: w_def begin_wait_def Let_def upd_state_def upd_diag_def clear_ready_def nth_list_update')
  let ?r = "register_edge_wait signal edge \<lparr>reg_state = i, reg_generation = g, reg_winner = None, reg_index = 0\<rparr> w"
  have r: "length (states ?r) = length (states w)" "cs_handle (states ?r ! j) = cs_handle (states w ! j)"
    "cs_done (states ?r ! j) = cs_done (states w ! j)" "cs_waiting (states ?r ! j) = cs_waiting (states w ! j)"
    "sched_core.more ?r = sched_core.more w" for j
    by (auto simp: register_edge_wait_def Let_def upd_state_def nth_list_update')
  have p: "park_edge h i signal edge reason sc = Inr ?r" by (simp add: park_edge_def m b)
  show ?thesis by (rule that [OF p]) (simp_all add: r w)
qed

text \<open>A coroutine that finishes: its slot is done, everybody else keeps handle, progress and promise.\<close>

definition ended_slot :: "nat \<Rightarrow> sched \<Rightarrow> sched \<Rightarrow> bool" where
  "ended_slot i a b \<longleftrightarrow> length (states b) = length (states a) \<and>
     (\<forall>j. cs_handle (states b ! j) = cs_handle (states a ! j) \<and> (cs_done (states b ! j) \<longleftrightarrow> cs_done (states a ! j) \<or> j = i)) \<and>
     (\<forall>h. pr_state (promises b h) = pr_state (promises a h) \<and> pr_scheduled (promises b h) = pr_scheduled (promises a h) \<and>
        (pr_exception (promises b h) = pr_exception (promises a h) \<or> pr_exception (promises b h) = None)) \<and>
     pending_cancellations b = pending_cancellations a"

lemma ended_slot_layer: "ended_slot i a b \<Longrightarrow> layer_same b c \<Longrightarrow> ended_slot i a c"
  by (simp add: ended_slot_def layer_same_def slots_same_def)

lemma finish_ends:
  assumes ok: "core_ok sc" and i: "i < length (states sc)" "cs_handle (states sc ! i) = Some h" "\<not> cs_waiting (states sc ! i)"
    and p: "pr_state (promises sc h) = Some i" "pr_exception (promises sc h) = None"
  shows "\<exists>sc'. finish h sc = Inr sc' \<and> core_ok sc' \<and> ended_slot i sc sc'"
proof -
  have m: "state_matches i h sc" using i by (simp add: state_matches_def)
  define sc1 where "sc1 = mark_finished i sc"
  have ok1: "core_ok sc1" using done_core_ok [OF ok i(1,3)] i(2) by (simp add: sc1_def mark_finished_eq [OF i(1)])
  have e1: "ended_slot i sc sc1" and pr1: "promises sc1 = promises sc"
    using done_core_slots [OF i(1), of 0] more_fields [of sc1 sc]
    by (simp_all add: sc1_def mark_finished_eq [OF i(1)] ended_slot_def)
  let ?c = "lookup_or None (process_by_state sc1) i"
  have unfolded: "finish h sc =
      (if pr_continuation (promises sc1 h) \<noteq> None \<or> pr_join (promises sc1 h) \<noteq> None
       then Ok (sc1\<lparr>finished_states := finished_states sc1 @ [Some i]\<rparr>)
       else result_bind
         (case ?c of Some c \<Rightarrow> complete_process c False
              (upd_promise h (\<lambda>p. p\<lparr>pr_exception := None\<rparr>) (upd_control c (\<lambda>k. k\<lparr>ct_exception := None\<rparr>) sc1))
          | None \<Rightarrow> Ok sc1) (\<lambda>sc. Ok (sc\<lparr>finished_roots := finished_roots sc @ [Some i]\<rparr>)))"
    using i p m by (simp add: finish_def sc1_def [symmetric] pr1 Let_def cong: option.case_cong)
  have end_s: "ended_slot i sc (x\<lparr>finished_states := f\<rparr>) = ended_slot i sc x"
    "ended_slot i sc (x\<lparr>finished_roots := f\<rparr>) = ended_slot i sc x" for x f
    by (simp_all add: ended_slot_def)
  show ?thesis
  proof (cases "pr_continuation (promises sc1 h) \<noteq> None \<or> pr_join (promises sc1 h) \<noteq> None")
    case True
    then show ?thesis using ok1 e1 by (auto simp: unfolded end_s)
  next
    case root: False
    show ?thesis
    proof (cases ?c)
      case None
      then show ?thesis using ok1 e1 root by (auto simp: unfolded end_s)
    next
      case (Some c)
      let ?u = "upd_promise h (\<lambda>p. p\<lparr>pr_exception := None\<rparr>) (upd_control c (\<lambda>k. k\<lparr>ct_exception := None\<rparr>) sc1)"
      have u: "core_ok ?u" using ok1 by simp
      have "ended_slot i sc ?u" using e1 by (auto simp: ended_slot_def upd_promise_def upd_control_def)
      moreover obtain sc2 where s2: "complete_process c False ?u = Inr sc2" "core_ok sc2" using complete_process_ok [OF u] by blast
      ultimately have "ended_slot i sc sc2" using ended_slot_layer complete_process_layer [OF u] by blast
      then show ?thesis using Some root s2 by (auto simp: unfolded end_s)
    qed
  qed
qed

lemma finish_join_child_layer:
  assumes ok: "core_ok sc"
  shows "\<exists>sc'. finish_join_child (Some j) ex sc = Inr sc' \<and> core_ok sc' \<and>
    (\<forall>i a. ended_slot i a sc \<longrightarrow> ended_slot i a sc')"
proof -
  let ?s = "child_done j ex sc" and ?i = "jn_parent (joins sc j)"
  have s: "core_ok ?s" "\<forall>i a. ended_slot i a sc \<longrightarrow> ended_slot i a ?s"
    using ok by (auto simp: ended_slot_def child_done_def upd_join_def)
  show ?thesis
  proof (cases "jn_remaining (joins sc j) = 1 \<and> ?i < length (states sc) \<and> \<not> cs_done (states sc ! ?i) \<and> cs_waiting (states sc ! ?i)")
    case True
    then have i: "?i < length (states ?s)" by simp
    obtain sc1 where e: "end_wait ?i ?s = Inr sc1" "length (states sc1) = length (states ?s)"
      "\<And>j. cs_handle (states sc1 ! j) = cs_handle (states ?s ! j)" "\<And>j. cs_done (states sc1 ! j) = cs_done (states ?s ! j)"
      "sched_core.more sc1 = sched_core.more ?s"
      using end_wait_cases [OF s(1) i] by metis
    have f: "finish_join_child (Some j) ex sc = Inr (make_ready ?i sc1)" using True e(1) by (simp add: finish_join_child_eq Let_def)
    have "ended_slot k a (make_ready ?i sc1)" if "ended_slot k a sc" for k a
    proof -
      have "ended_slot k a sc1"
        using that e(2-4) more_fields(1,9) [OF e(5)] by (simp add: ended_slot_def child_done_def upd_join_def)
      then show ?thesis by (auto simp: ended_slot_def make_ready_def upd_state_def nth_list_update')
    qed
    then show ?thesis using f finish_join_child_ok [OF ok f] by blast
  next
    case False
    then have "finish_join_child (Some j) ex sc = Inr (if jn_remaining (joins sc j) = 0 then sc else ?s)"
      by (auto simp: finish_join_child_eq Let_def)
    then show ?thesis using ok s by auto
  qed
qed

lemma final_suspend_ends:
  assumes ok: "core_ok sc" and i: "i < length (states sc)" "cs_handle (states sc ! i) = Some h" "\<not> cs_waiting (states sc ! i)"
    and p: "pr_state (promises sc h) = Some i" "pr_scheduled (promises sc h)" "pr_exception (promises sc h) = None"
  shows "\<exists>n sc'. final_suspend h sc = Inr (n, sc') \<and> core_ok sc' \<and> ended_slot i sc sc'"
proof -
  obtain sc1 where s1: "finish h sc = Inr sc1" "core_ok sc1" "ended_slot i sc sc1"
    using finish_ends [OF ok i p(1,3)] by blast
  show ?thesis
  proof (cases "pr_join (promises sc1 h)")
    case None
    then show ?thesis using s1 p by (auto simp: final_suspend_def Let_def)
  next
    case (Some j)
    obtain sc2 where "finish_join_child (Some j) (pr_exception (promises sc1 h)) sc1 = Inr sc2" "core_ok sc2" "ended_slot i sc sc2"
      using finish_join_child_layer [OF s1(2)] s1(3) by blast
    then show ?thesis using Some s1 p by (auto simp: final_suspend_def Let_def)
  qed
qed

text \<open>The measure on every step of the drain.\<close>

lemma take_scripted:
  assumes s: "scripted sc" and c: "ready_cursor sc < length (ready_queue sc)"
  shows "scripted (snd (take_ready sc)) \<and> work_left (snd (take_ready sc)) = work_left sc"
proof -
  obtain r sc1 where t: "take_ready sc = (r, sc1)" by (cases "take_ready sc")
  have ok: "core_ok sc1" using take_ready_ok [OF _ c t] s by (simp add: scripted_def)
  have adv: "states (advance_cursor s) = states s" "sched_core.more (advance_cursor s) = sched_core.more s" for s :: sched
    by (simp_all add: advance_cursor_def Let_def)
  have "sc1 = advance_cursor sc \<or> (\<exists>i. sc1 = clear_ready i (advance_cursor sc))"
    using t by (auto simp: take_ready_def Let_def split: if_splits option.splits)
  then have f: "length (states sc1) = length (states sc)" "sched_core.more sc1 = sched_core.more sc"
    "\<And>j. cs_handle (states sc1 ! j) = cs_handle (states sc ! j) \<and> cs_done (states sc1 ! j) = cs_done (states sc ! j) \<and>
      cs_waiting (states sc1 ! j) = cs_waiting (states sc ! j)"
    by (auto simp: adv clear_ready_def upd_state_def nth_list_update' split: if_splits)
  have "work_left sc1 = work_left sc" by (rule same_work [OF f(1)]) (use f(3) in blast)
  then show ?thesis using s ok f more_fields(1,9) [OF f(2)] by (simp add: t scripted_def promises_bound_def)
qed

lemma ended_scripted:
  assumes s: "scripted sc" "core_ok sc'" and e: "ended_slot i sc sc'"
    and i: "i < length (states sc)" "cs_handle (states sc ! i) = Some h" "\<not> cs_done (states sc ! i)"
  shows "scripted sc' \<and> work_left sc' < work_left sc"
proof -
  have "promises_bound sc'"
    using s(1) e by (auto simp: scripted_def promises_bound_def ended_slot_def) metis+
  moreover have "live_slots sc' \<subset> live_slots sc"
    using e i by (auto simp: live_slots_def ended_slot_def)
  then have "work_left sc' < work_left sc"
    using e by (intro less_live_less_work) (simp_all add: ended_slot_def)
  ultimately show ?thesis using s(2) by (simp add: scripted_def)
qed

lemma script_resumes:
  assumes s: "scripted sc" and i: "i < length (states sc)" "cs_handle (states sc ! i) = Some h"
    "\<not> cs_done (states sc ! i)" "\<not> cs_waiting (states sc ! i)"
  shows "\<exists>sc'. script_body script h sc = Inr sc' \<and> scripted sc' \<and> work_left sc' < work_left sc"
proof -
  have ok: "core_ok sc" and p: "pr_state (promises sc h) = Some i" "pr_scheduled (promises sc h)" "pr_exception (promises sc h) = None"
    using s i by (auto simp: scripted_def promises_bound_def)
  show ?thesis
  proof (cases "script h")
    case None
    obtain n sc' where f: "final_suspend h sc = Inr (n, sc')" "core_ok sc'" "ended_slot i sc sc'"
      using final_suspend_ends [OF ok i(1,2,4) p] by blast
    then show ?thesis using None ended_scripted [OF s f(2,3) i(1-3)] by (simp add: script_body_def)
  next
    case (Some w)
    obtain signal edge where w: "w = (signal, edge)" by (cases w)
    obtain sc' where f: "park_edge h i signal edge ReasonEdge sc = Inr sc'" "length (states sc') = length (states sc)"
      "\<And>j. cs_handle (states sc' ! j) = cs_handle (states sc ! j)" "\<And>j. cs_done (states sc' ! j) = cs_done (states sc ! j)"
      "\<And>j. cs_waiting (states sc' ! j) \<longleftrightarrow> cs_waiting (states sc ! j) \<or> j = i" "sched_core.more sc' = sched_core.more sc"
      using park_edge_frame [OF i(1,2,4)] by blast
    have "core_ok sc'" by (rule park_edge_keeps [OF ok i(3) f(1)])
    then have "scripted sc'" using s f(2-4) more_fields(1,9) [OF f(6)] by (simp add: scripted_def promises_bound_def)
    moreover have l: "live_slots sc' = live_slots sc" using f by (simp add: live_slots_def)
    then have "unparked_slots sc' \<subset> unparked_slots sc"
      unfolding unparked_slots_def using i f(5) by (auto simp: live_slots_def)
    then have "work_left sc' < work_left sc" by (rule parked_less_work [OF f(2) l])
    ultimately show ?thesis using Some w p i f(1) by (simp add: script_body_def)
  qed
qed

lemma scripted_frame:
  assumes "sched_core.truncate a = sched_core.truncate b" "promises a = promises b"
    "pending_cancellations a = pending_cancellations b"
  shows "scripted a = scripted b" "work_left a = work_left b"
  using core_ok_ext [OF assms(1)] truncate_fields(4) [OF assms(1)] assms(2,3)
  by (simp_all add: scripted_def promises_bound_def work_left_def live_slots_def unparked_slots_def)

interpretation scripts: finite_work "script_body script" scripted work_left depth for script depth
proof
  fix sc c s
  assume P: "scripted sc"
  show "core_ok sc" using P by (simp add: scripted_def)
  have t: "sched_core.truncate (sc\<lparr>draining := True\<rparr>) = sched_core.truncate sc"
    "sched_core.truncate (sc\<lparr>current_context := c, current_state := s\<rparr>) = sched_core.truncate sc"
    by (simp_all add: sched_core.defs)
  show "scripted (sc\<lparr>draining := True\<rparr>)" using scripted_frame(1) [OF t(1)] P by simp
  show "scripted (sc\<lparr>current_context := c, current_state := s\<rparr>) \<and>
      work_left (sc\<lparr>current_context := c, current_state := s\<rparr>) \<le> work_left sc"
    using scripted_frame [OF t(2)] P by simp
  have "apply_pending_cancellations depth sc = Some (Inr (sc\<lparr>pending_cancellations := []\<rparr>))"
    "sc\<lparr>pending_cancellations := []\<rparr> = sc"
    using P by (simp_all add: apply_pending_cancellations_def scripted_def promises_bound_def)
  then show "\<exists>sc'. apply_pending_cancellations depth sc = Some (Inr sc') \<and> scripted sc' \<and> work_left sc' \<le> work_left sc"
    using P by simp
qed (use script_resumes take_scripted collect_scripted in \<open>auto simp: eq_iff\<close>)

end
