(* ===== verification/ProcessProps.thy ===== *)
theory ProcessProps
  imports DrainLemmas SchedSlots "HOL-Library.Multiset"
begin

text \<open>
  The properties of processes: joins, completion, cancellation, draining, owner cleanups, spawning
  and reclaiming, with the scheduler states that witness their hypotheses.
\<close>

section \<open>Joins\<close>

fun finish_children :: "nat \<Rightarrow> nat option list \<Rightarrow> sched \<Rightarrow> sched result" where
  "finish_children j [] sc = Ok sc"
| "finish_children j (ex # exs) sc =
     result_bind (finish_join_child (Some j) ex sc) (finish_children j exs)"

fun first_exception :: "nat option list \<Rightarrow> nat option" where
  "first_exception [] = None"
| "first_exception (ex # exs) = (case ex of None \<Rightarrow> first_exception exs | Some e \<Rightarrow> Some e)"

lemma children_pending:
  "length exs < jn_remaining (joins sc j) \<Longrightarrow>
   finish_children j exs sc = Ok (fold (child_done j) exs sc) \<and>
   (let sc' = fold (child_done j) exs sc in
     core_ok sc' = core_ok sc \<and> states sc' = states sc \<and> ready_queue sc' = ready_queue sc \<and>
     jn_remaining (joins sc' j) = jn_remaining (joins sc j) - length exs \<and>
     jn_parent (joins sc' j) = jn_parent (joins sc j) \<and>
     jn_exception (joins sc' j) = first_exception (jn_exception (joins sc j) # exs))"
proof (induction exs arbitrary: sc)
  case Nil
  then show ?case by (auto simp: Let_def split: option.splits)
next
  case (Cons ex exs)
  have c: "finish_join_child (Some j) ex sc = Ok (child_done j ex sc)"
    using Cons.prems by (simp add: finish_join_child_eq Let_def)
  have "length exs < jn_remaining (joins (child_done j ex sc) j)" using Cons.prems by simp
  from Cons.IH [OF this] show ?case using c by (auto simp: Let_def split: option.splits)
qed

lemma first_exception_append: "first_exception (a @ b) = first_exception (first_exception a # b)"
  by (induction a) (auto split: option.splits)

text \<open>
  Property C9: the parent of a join stays parked while any child is unfinished and is made ready
  exactly when the last one finishes, whatever order the children finish in. The join keeps the
  exception of the first child that failed.
\<close>

theorem join_resumes_parent_once:
  assumes "core_ok sc" "jn_remaining (joins sc j) = length exs" "exs \<noteq> []"
    and "jn_parent (joins sc j) = i" "i < length (states sc)" "cs_waiting (states sc ! i)"
    and "\<not> cs_done (states sc ! i)" "jn_exception (joins sc j) = None"
  shows "(\<forall>n<length exs. \<exists>sc'. finish_children j (take n exs) sc = Inr sc' \<and>
            ready_queue sc' = ready_queue sc \<and> states sc' = states sc) \<and>
    (\<exists>sc'. finish_children j exs sc = Inr sc' \<and> core_ok sc' \<and>
       ready_queue sc' = ready_queue sc @ [i] \<and> jn_exception (joins sc' j) = first_exception exs)"
proof -
  have part: "\<exists>sc'. finish_children j (take n exs) sc = Inr sc' \<and> core_ok sc' \<and>
      ready_queue sc' = ready_queue sc \<and> states sc' = states sc \<and>
      jn_remaining (joins sc' j) = length exs - n \<and> jn_parent (joins sc' j) = i \<and>
      jn_exception (joins sc' j) = first_exception (take n exs)" if "n < length exs" for n
    using children_pending [of "take n exs" sc j] that assms by (simp add: Let_def)
  obtain init ex where split: "exs = init @ [ex]" using assms(3) by (cases exs rule: rev_cases) auto
  obtain sc1 where 1: "finish_children j init sc = Inr sc1" "core_ok sc1" "ready_queue sc1 = ready_queue sc"
    "states sc1 = states sc" "jn_remaining (joins sc1 j) = 1" "jn_parent (joins sc1 j) = i"
    "jn_exception (joins sc1 j) = first_exception init"
    using part [of "length init"] split by auto
  have app: "finish_children j (a @ b) s = result_bind (finish_children j a s) (finish_children j b)" for a b s
  proof (induction a arbitrary: s)
    case (Cons x a)
    then show ?case by (cases "finish_join_child (Some j) x s") simp_all
  qed simp
  define sc2 where "sc2 = child_done j ex sc1"
  have 2: "core_ok sc2" "i < length (states sc2)" "states sc2 = states sc" "ready_queue sc2 = ready_queue sc"
    using 1 assms by (simp_all add: sc2_def)
  obtain sc3 where 3: "end_wait i sc2 = Inr sc3" "core_ok sc3" "\<not> cs_waiting (states sc3 ! i)"
    "length (states sc3) = length (states sc2)" "\<And>k. cs_handle (states sc3 ! k) = cs_handle (states sc2 ! k)"
    "\<And>k. cs_done (states sc3 ! k) = cs_done (states sc2 ! k)" "\<And>k. cs_ready (states sc3 ! k) = cs_ready (states sc2 ! k)"
    "ready_queue sc3 = ready_queue sc2" "sched_core.more sc3 = sched_core.more sc2"
    by (rule end_wait_cases [OF 2(1,2)]) (rule that)
  have slot: "cs_handle (states sc ! i) \<noteq> None" "\<not> cs_ready (states sc ! i)"
    using slot_okI [OF assms(1,5)] assms(6) by (auto simp: slot_ok_def)
  have i3: "i < length (states sc3)" "\<not> cs_done (states sc3 ! i)" "\<not> cs_ready (states sc3 ! i)" "cs_handle (states sc3 ! i) \<noteq> None"
    using 2 3 slot assms by simp_all
  have ok: "core_ok (make_ready i sc3)" by (rule make_ready_ok [OF 3(2) i3(1) 3(3) i3(4)])
  have joins: "joins (make_ready i sc3) = joins sc2"
    using make_ready_slots [of sc3 i] more_fields [of "make_ready i sc3" sc2] 3(9) by simp
  have ex: "jn_exception (joins (make_ready i sc3) j) = first_exception exs"
    by (simp add: joins sc2_def 1 split first_exception_append split: option.splits)
  have "finish_children j exs sc = Inr (make_ready i sc3)"
    using 1 2 3 assms by (simp add: split app finish_join_child_eq Let_def sc2_def [symmetric])
  moreover have "ready_queue (make_ready i sc3) = ready_queue sc @ [i]"
    using i3 3(8) 2(4) by (simp add: make_ready_def)
  ultimately show ?thesis using part ok ex by blast
qed

section \<open>Completion\<close>

lemma resume_registration_controls:
  fixes sc sc' :: sched
  assumes "core_ok sc" "resume_registration reg sc = Inr (b, sc')"
  shows "controls sc' = controls sc" "core_ok sc'"
  using resume_registration_slots(2) [OF assms] resume_registration_ok [OF assms(1), of reg]
    more_fields(4) [of sc' sc] assms(2) by (auto simp: resumed_core_def)

lemma resume_registrations_controls:
  fixes sc sc' :: sched
  assumes "core_ok sc" "resume_registrations regs sc = Inr sc'"
  shows "controls sc' = controls sc" "core_ok sc'"
  using resume_registrations_slots [OF assms] resume_registrations_ok [OF assms(1), of regs]
    more_fields(4) [of sc' sc] assms(2) by auto

lemma complete_process_marks:
  assumes ok: "core_ok sc" and res: "complete_process c cancelled sc = Inr sc'"
  shows "ct_done (controls sc' c) \<and>
    ct_cancelled (controls sc' c) = (if ct_done (controls sc c) then ct_cancelled (controls sc c) else cancelled)"
proof (cases "ct_done (controls sc c)")
  case True
  then show ?thesis using res by (simp add: complete_process_def)
next
  case False
  define sc1 where "sc1 = upd_control c (\<lambda>k. k\<lparr>ct_done := True, ct_cancelled := cancelled, ct_requested := False\<rparr>) sc"
  define sc2 where "sc2 = (if \<not> ct_owns_context (controls sc1 c) then notify_completion c cancelled sc1
    else notify_owned_completion c cancelled sc1)"
  have t: "sched_core.truncate sc2 = sched_core.truncate sc" by (simp add: sc2_def sc1_def notify_frame)
  have ok2: "core_ok sc2" using ok core_ok_ext [OF t] by simp
  have flags: "ct_done (controls sc2 c) \<and> ct_cancelled (controls sc2 c) = cancelled"
    by (auto simp: sc2_def sc1_def notify_completion_def notify_owned_completion_def Let_def split: option.splits)
  have eq: "(if ct_waiter (controls sc2 c) \<noteq> None \<or> ct_extra (controls sc2 c) \<noteq> []
      then resume_completion_waiters c sc2 else Ok sc2) = Inr sc'"
    using res by (simp only: complete_process_def sc2_def sc1_def Let_def if_not_P [OF False])
  have "ct_done (controls x c) \<and> ct_cancelled (controls x c) = cancelled"
    if r: "resume_completion_waiters c sc2 = Inr x" for x
  proof -
    obtain s1 s2 where s: "(case ct_waiter (controls sc2 c) of None \<Rightarrow> Ok sc2
         | Some reg \<Rightarrow> result_bind (resume_registration reg sc2) (\<lambda>(_, sc).
               Ok (upd_control c (\<lambda>k. k\<lparr>ct_waiter := None\<rparr>) sc))) = Inr s1"
      "resume_registrations (ct_extra (controls sc2 c)) s1 = Inr s2"
      "x = upd_control c (\<lambda>k. k\<lparr>ct_extra := []\<rparr>) s2"
      using r unfolding resume_completion_waiters_def Let_def result_bind_Ok_iff by blast
    have "ct_done (controls s1 c) \<and> ct_cancelled (controls s1 c) = cancelled \<and> core_ok s1"
      using s(1) flags ok2 resume_registration_controls [OF ok2]
      by (auto simp: result_bind_Ok_iff split: option.splits)
    then show ?thesis using resume_registrations_controls [OF _ s(2)] s(3) by simp
  qed
  then show ?thesis using eq flags False by (auto split: if_splits)
qed

text \<open>
  completing a process never aborts. The first completion marks the control done and
  records whether it was cancelled; it makes ready, once each and in the order they asked, exactly
  the coroutines still waiting for the process. A second completion changes nothing.
\<close>

theorem complete_process_exact:
  assumes "core_ok sc"
  shows "\<exists>sc'. complete_process c cancelled sc = Inr sc' \<and> core_ok sc' \<and> ct_done (controls sc' c) \<and>
    ready_queue sc' = ready_queue sc @
      (if ct_done (controls sc c) then [] else woken_states sc (completion_regs (controls sc c))) \<and>
    complete_process c b sc' = Inr sc' \<and>
    (ct_cancelled (controls sc' c) = (if ct_done (controls sc c) then ct_cancelled (controls sc c) else cancelled))"
proof -
  obtain sc' where 1: "complete_process c cancelled sc = Inr sc'" "core_ok sc'"
    "ready_queue sc' = ready_queue sc @
      (if ct_done (controls sc c) then [] else woken_states sc (completion_regs (controls sc c)))"
    using complete_process_ok [OF assms, of c cancelled] by auto
  have "ct_done (controls sc' c) \<and>
      ct_cancelled (controls sc' c) = (if ct_done (controls sc c) then ct_cancelled (controls sc c) else cancelled)"
    by (rule complete_process_marks [OF assms 1(1)])
  then show ?thesis using 1 by (auto simp: complete_process_def)
qed

section \<open>Cancellation\<close>

lemma cancelled_reach:
  assumes c: "cancelled_from sc sc'" and i: "\<not> cs_done (states sc ! i)" "cs_done (states sc' ! i)"
  shows "(i, x) \<in> (live_child sc)\<^sup>* \<Longrightarrow> cs_done (states sc' ! x)"
proof (induction rule: rtrancl_induct)
  case base
  then show ?case by (rule i(2))
next
  case (step y z)
  have "\<not> cs_done (states sc ! y)"
  proof (cases "y = i")
    case False
    then obtain w where "(w, y) \<in> live_child sc" using step(1) by (metis rtranclE)
    then show ?thesis by (simp add: live_child_iff)
  qed (use i in simp)
  then show ?case using c step unfolding cancelled_from_def by blast
qed

lemma cancel_ends:
  assumes ok: "core_ok sc" "distinct_handles sc"
    and i: "i < length (states sc)" "\<not> cs_done (states sc ! i)" "cs_handle (states sc ! i) \<noteq> None"
    and fuel: "length (states sc) \<le> fuel" and free: "\<not> waits_in_circle sc i"
  shows "\<exists>r. cancel_state fuel i sc = Some r"
proof -
  define S where "S = {x. (i, x) \<in> (live_child sc)\<^sup>*}"
  define rank where "rank x = card ((live_child sc)\<^sup>+ `` {x})" for x
  have fin: "finite ((live_child sc)\<^sup>+ `` {x})" and sub: "(live_child sc)\<^sup>+ `` {x} \<subseteq> {..<length (states sc)}" for x
  proof -
    show "(live_child sc)\<^sup>+ `` {x} \<subseteq> {..<length (states sc)}"
      using live_child_iff by (auto elim: tranclE)
    then show "finite ((live_child sc)\<^sup>+ `` {x})" using finite_subset by blast
  qed
  have acyclic: "(x, x) \<notin> (live_child sc)\<^sup>+" if "x \<in> S" for x
    using that free waits_for_reach [OF i(3)] waits_for_step_reach unfolding S_def waits_in_circle_def by blast
  have "b \<in> S \<and> rank b < rank a" if "(a, b) \<in> live_child sc" "a \<in> S" for a b
  proof -
    have b: "b \<in> S" using that unfolding S_def by (auto intro: rtrancl_into_rtrancl)
    have "(live_child sc)\<^sup>+ `` {b} \<subset> (live_child sc)\<^sup>+ `` {a}"
      using that(1) acyclic [OF b] by (auto intro: trancl_into_trancl2)
    then show ?thesis using b psubset_card_mono [OF fin] unfolding rank_def by blast
  qed
  then have dec: "\<forall>(a, b)\<in>live_child sc. a \<in> S \<longrightarrow> b \<in> S \<and> rank b < rank a" by blast
  have iS: "i \<in> S" by (simp add: S_def)
  have "(live_child sc)\<^sup>+ `` {i} \<subset> {..<length (states sc)}" using sub acyclic [OF iS] i(1) by blast
  then have "rank i < length (states sc)"
    unfolding rank_def using psubset_card_mono [of "{..<length (states sc)}"] by (metis card_lessThan finite_lessThan)
  then have r: "rank i < fuel" using fuel by simp
  have h: "i < length (states sc) \<longrightarrow> cs_done (states sc ! i) \<or> cs_handle (states sc ! i) \<noteq> None" using i by simp
  show ?thesis using cancel_state_terminates(1) [OF ok h dec iS r] by auto
qed

lemma circle_diverges:
  assumes ok: "core_ok sc" "distinct_handles sc"
    and i: "i < length (states sc)" "\<not> cs_done (states sc ! i)" "cs_handle (states sc ! i) \<noteq> None"
    and circle: "waits_in_circle sc i"
  shows "cancel_state n i sc = None"
proof -
  define S where "S = {x. x < length (states sc) \<and> \<not> cs_done (states sc ! x) \<and> cs_handle (states sc ! x) \<noteq> None \<and>
    waits_in_circle sc x}"
  have onward: "\<exists>b\<in>S. (a, b) \<in> live_child sc" if a: "a \<in> S" for a
  proof -
    obtain c where c: "(a, c) \<in> (waits_for sc)\<^sup>*" "(c, c) \<in> (waits_for sc)\<^sup>+"
      using a unfolding S_def waits_in_circle_def by blast
    obtain b where b: "(a, b) \<in> waits_for sc" "(b, c) \<in> (waits_for sc)\<^sup>*"
      using c(1)
    proof (cases rule: converse_rtranclE)
      case base
      then show ?thesis using that tranclD [OF c(2)] by blast
    next
      case (step y)
      then show ?thesis using that by blast
    qed
    have "waits_in_circle sc b" unfolding waits_in_circle_def using b(2) c(2) by blast
    then have "b \<in> S" using b(1) unfolding S_def waits_for_def by auto
    moreover have "(a, b) \<in> live_child sc" using b(1) waits_for_child a by (auto simp: S_def)
    ultimately show ?thesis by blast
  qed
  have backward: "a \<in> S" if "(a, b) \<in> live_child sc" "b \<in> S" "\<not> cs_done (states sc ! a)" "cs_handle (states sc ! a) \<noteq> None" for a b
  proof -
    have "(a, b) \<in> waits_for sc" using that waits_for_child by blast
    then have "waits_in_circle sc a"
      using that(2) unfolding S_def waits_in_circle_def by (auto intro: converse_rtrancl_into_rtrancl)
    then show ?thesis using that by (simp add: S_def live_child_iff)
  qed
  have "waiting_circle sc S"
    unfolding waiting_circle_def using onward backward by (auto simp: S_def)
  then show ?thesis using cancel_state_diverges(1) [OF ok] i circle by (simp add: S_def)
qed

text \<open>
  Property C2: cancelling a coroutine ends it and every live coroutine it transitively waits for,
  by awaiting a task or by joining children, and no other one; no handle changes and nothing aborts,
  with as much fuel as there are coroutines. The one exception is exact: where a coroutine that would be ended waits,
  over others, for itself, the recursion of the code does not end, whatever the fuel.
\<close>

theorem cancel_ends_exactly_the_tree:
  assumes "core_ok sc" "distinct_handles sc"
    and "i < length (states sc)" "\<not> cs_done (states sc ! i)" "cs_handle (states sc ! i) \<noteq> None"
    and "length (states sc) \<le> fuel"
  shows "if waits_in_circle sc i then \<forall>n. cancel_state n i sc = None
    else \<exists>sc'. cancel_state fuel i sc = Some (Inr sc') \<and> core_ok sc' \<and>
      (\<forall>x. cs_done (states sc' ! x) \<longleftrightarrow> cs_done (states sc ! x) \<or> (i, x) \<in> (waits_for sc)\<^sup>*) \<and>
      (\<forall>x. cs_handle (states sc' ! x) = cs_handle (states sc ! x))"
proof (cases "waits_in_circle sc i")
  case True
  then show ?thesis using circle_diverges [OF assms(1-5)] by simp
next
  case False
  have h: "i < length (states sc) \<longrightarrow> cs_done (states sc ! i) \<or> cs_handle (states sc ! i) \<noteq> None" using assms by simp
  obtain r where "cancel_state fuel i sc = Some r" using cancel_ends [OF assms False] by blast
  then obtain sc' where s: "cancel_state fuel i sc = Some (Inr sc')" "cancelled_from sc sc'" "cs_done (states sc' ! i)"
    "\<forall>x. cs_done (states sc' ! x) \<longrightarrow> cs_done (states sc ! x) \<or> (i, x) \<in> (live_child sc)\<^sup>*"
    using cancel_state_from(1) [OF assms(1,2) h] assms(3) by blast
  have "cs_done (states sc' ! x)" if "(i, x) \<in> (live_child sc)\<^sup>*" for x
    using that by (rule cancelled_reach [OF s(2) assms(4) s(3)])
  with s False show ?thesis by (auto simp: cancelled_from_def waits_for_reach(1) [OF assms(5)])
qed

section \<open>Draining\<close>

text \<open>
  Property C8: when every resumption of a coroutine succeeds and diminishes some measure of the work
  left, which the scheduler's own bookkeeping does not raise, and requested cancellations end, a drain
  returns: with enough fuel it succeeds, and it leaves a well-formed scheduler, an empty ready queue and no coroutine
  marked ready.
\<close>

theorem drain_leaves_nobody_ready:
  assumes "finite_work resume P work depth"
    and "P sc" "\<not> draining sc" "ready_cursor sc = 0"
  shows "\<exists>n. \<forall>fuel\<ge>n. \<exists>sc'. drain_ready resume depth fuel sc = Some (Inr sc') \<and> core_ok sc' \<and>
    ready_queue sc' = [] \<and> live_ready sc' = 0 \<and> (\<forall>s\<in>set (states sc'). \<not> cs_ready s)"
  by (rule finite_work.drain_returns [OF assms])

section \<open>Owner cleanups\<close>

lemma owned_frame [simp]:
  "has_process_owned_by o' m (log_call e sc) = has_process_owned_by o' m sc"
  "has_process_owned_by o' m (sc\<lparr>deferred_cleanups := ds\<rparr>) = has_process_owned_by o' m sc"
  by (simp_all add: has_process_owned_by_def log_call_def cong: option.case_cong)

lemma filter_mset_all: "\<forall>x\<in>set xs. P x \<Longrightarrow> filter_mset P (mset xs) = mset xs"
  by (induction xs) auto

lemma filter_mset_none: "\<forall>x\<in>set xs. \<not> P x \<Longrightarrow> filter_mset P (mset xs) = {#}"
  by (induction xs) auto

lemma swap_remove_mset:
  assumes "i < length xs"
  shows "mset xs = add_mset (xs ! i) (mset (butlast (xs[i := last xs])))"
    "take i (butlast (xs[i := last xs])) = take i xs"
proof -
  obtain ys y where xs: "xs = ys @ [y]" using assms by (cases xs rule: rev_cases) auto
  show "mset xs = add_mset (xs ! i) (mset (butlast (xs[i := last xs])))"
  proof (cases "i < length ys")
    case True
    then show ?thesis by (simp add: xs list_update_append nth_append mset_update)
  next
    case False
    then show ?thesis using assms by (simp add: xs list_update_append nth_append)
  qed
  show "take i (butlast (xs[i := last xs])) = take i xs"
    using assms by (cases "i < length ys") (auto simp: xs list_update_append)
qed

lemma run_cleanups_spec:
  "\<forall>c\<in>set (take index (deferred_cleanups sc)). has_process_owned_by (oc_owner c) (oc_matcher c) sc \<Longrightarrow>
   (\<forall>c\<in>set (deferred_cleanups (run_cleanups_from index sc)). has_process_owned_by (oc_owner c) (oc_matcher c) sc) \<and>
   (\<exists>ran. calls (run_cleanups_from index sc) = calls sc @ map (\<lambda>c. CallCleanup (oc_cleanup c) (oc_owner c)) ran \<and>
     (\<forall>c\<in>set ran. \<not> has_process_owned_by (oc_owner c) (oc_matcher c) sc) \<and>
     mset (deferred_cleanups sc) = mset ran + mset (deferred_cleanups (run_cleanups_from index sc))) \<and>
   run_cleanups_from index sc = sc\<lparr>deferred_cleanups := deferred_cleanups (run_cleanups_from index sc),
     calls := calls (run_cleanups_from index sc)\<rparr>"
proof (induction index sc rule: run_cleanups_from.induct)
  case (1 index sc)
  let ?ds = "deferred_cleanups sc"
  show ?case
  proof (cases "index \<ge> length ?ds")
    case True
    then have "run_cleanups_from index sc = sc" by (subst run_cleanups_from.simps) simp
    then show ?thesis using 1(3) True by simp
  next
    case False
    let ?p = "?ds ! index"
    show ?thesis
    proof (cases "has_process_owned_by (oc_owner ?p) (oc_matcher ?p) sc")
      case True
      have r: "run_cleanups_from index sc = run_cleanups_from (index + 1) sc"
        using False True by (subst run_cleanups_from.simps) simp
      show ?thesis
        unfolding r
        by (rule 1(1) [OF False refl True]) (use 1(3) True False in \<open>simp add: take_Suc_conv_app_nth\<close>)
    next
      case idle: False
      define ds where "ds = butlast (?ds[index := last ?ds])"
      define sc1 where "sc1 = log_call (CallCleanup (oc_cleanup ?p) (oc_owner ?p)) (sc\<lparr>deferred_cleanups := ds\<rparr>)"
      have r: "run_cleanups_from index sc = run_cleanups_from index sc1"
        using False idle by (subst run_cleanups_from.simps) (simp add: Let_def sc1_def ds_def)
      have i: "index < length ?ds" using False by simp
      note m = swap_remove_mset [OF i, folded ds_def]
      have f: "deferred_cleanups sc1 = ds" "calls sc1 = calls sc @ [CallCleanup (oc_cleanup ?p) (oc_owner ?p)]"
        "\<And>o' m'. has_process_owned_by o' m' sc1 = has_process_owned_by o' m' sc"
        by (simp_all add: sc1_def) (simp_all add: log_call_def)
      have pre: "\<forall>c\<in>set (take index (deferred_cleanups sc1)). has_process_owned_by (oc_owner c) (oc_matcher c) sc1"
        using 1(3) by (simp add: f m(2))
      have IH: "(\<forall>c\<in>set (deferred_cleanups (run_cleanups_from index sc1)). has_process_owned_by (oc_owner c) (oc_matcher c) sc1) \<and>
         (\<exists>ran. calls (run_cleanups_from index sc1) = calls sc1 @ map (\<lambda>c. CallCleanup (oc_cleanup c) (oc_owner c)) ran \<and>
           (\<forall>c\<in>set ran. \<not> has_process_owned_by (oc_owner c) (oc_matcher c) sc1) \<and>
           mset (deferred_cleanups sc1) = mset ran + mset (deferred_cleanups (run_cleanups_from index sc1))) \<and>
         run_cleanups_from index sc1 = sc1\<lparr>deferred_cleanups := deferred_cleanups (run_cleanups_from index sc1),
           calls := calls (run_cleanups_from index sc1)\<rparr>"
        by (rule 1(2) [OF False refl idle refl refl, folded ds_def, folded sc1_def, OF pre])
      then obtain ran where ran: "calls (run_cleanups_from index sc1) = calls sc1 @ map (\<lambda>c. CallCleanup (oc_cleanup c) (oc_owner c)) ran"
        "\<forall>c\<in>set ran. \<not> has_process_owned_by (oc_owner c) (oc_matcher c) sc"
        "mset ds = mset ran + mset (deferred_cleanups (run_cleanups_from index sc1))"
        by (auto simp: f)
      have ex: "\<exists>ran. calls (run_cleanups_from index sc1) = calls sc @ map (\<lambda>c. CallCleanup (oc_cleanup c) (oc_owner c)) ran \<and>
           (\<forall>c\<in>set ran. \<not> has_process_owned_by (oc_owner c) (oc_matcher c) sc) \<and>
           mset ?ds = mset ran + mset (deferred_cleanups (run_cleanups_from index sc1))"
        using ran idle m(1) by (intro exI [of _ "?p # ran"]) (simp add: f)
      have e: "sc1\<lparr>deferred_cleanups := a, calls := b\<rparr> = sc\<lparr>deferred_cleanups := a, calls := b\<rparr>" for a b
        by (cases sc) (simp add: sc1_def log_call_def)
      show ?thesis
        unfolding r
        by (rule conjI [OF conjunct1 [OF IH, unfolded f(3)] conjI [OF ex trans [OF conjunct2 [OF conjunct2 [OF IH]] e]]])
    qed
  qed
qed

text \<open>
  after the owner cleanups have run, every cleanup still deferred belongs to an owner
  with a process. The cleanups that ran are the other ones, each exactly once, and nothing else
  of the scheduler changed.
\<close>

theorem owner_cleanups_exact:
  "let sc' = run_owner_cleanups sc;
       busy = (\<lambda>c. has_process_owned_by (oc_owner c) (oc_matcher c) sc)
   in (\<forall>c\<in>set (deferred_cleanups sc'). busy c) \<and>
      mset (deferred_cleanups sc') = filter_mset busy (mset (deferred_cleanups sc)) \<and>
      (\<exists>ran. calls sc' = calls sc @ map (\<lambda>c. CallCleanup (oc_cleanup c) (oc_owner c)) ran \<and>
         mset ran = filter_mset (\<lambda>c. \<not> busy c) (mset (deferred_cleanups sc))) \<and>
      sc' = sc\<lparr>deferred_cleanups := deferred_cleanups sc', calls := calls sc'\<rparr>"
proof -
  let ?sc = "run_cleanups_from 0 sc"
  let ?busy = "\<lambda>c. has_process_owned_by (oc_owner c) (oc_matcher c) sc"
  obtain ran where r: "\<forall>c\<in>set (deferred_cleanups ?sc). ?busy c" "\<forall>c\<in>set ran. \<not> ?busy c"
    "calls ?sc = calls sc @ map (\<lambda>c. CallCleanup (oc_cleanup c) (oc_owner c)) ran"
    "mset (deferred_cleanups sc) = mset ran + mset (deferred_cleanups ?sc)"
    "?sc = sc\<lparr>deferred_cleanups := deferred_cleanups ?sc, calls := calls ?sc\<rparr>"
    using run_cleanups_spec [of 0 sc] by auto
  have "filter_mset ?busy (mset (deferred_cleanups sc)) = mset (deferred_cleanups ?sc)"
    "filter_mset (\<lambda>c. \<not> ?busy c) (mset (deferred_cleanups sc)) = mset ran"
    using r(1,2) by (simp_all add: r(4) filter_mset_all filter_mset_none)
  then show ?thesis using r(1,3,5) unfolding run_owner_cleanups_def Let_def by metis
qed

section \<open>Spawning\<close>

lemma truncate_install [simp]: "sched_core.truncate (install_control c i sc) = sched_core.truncate sc"
  by (simp add: install_control_def Let_def sched_core.defs upd_control_def)

lemma install_control_frame:
  "process_by_state (install_control c i sc) = (grow (i + 1) None (process_by_state sc))[i := Some c]"
  "ct_state (controls (install_control c i sc) c) = ct_state (controls sc c)"
  "process_by_state (upd_control c g sc) = process_by_state sc"
  by (simp_all add: install_control_def Let_def upd_control_def)

text \<open>
  a task spawned while the scheduler is running gets a free slot and a control of its
  own that names it, and is queued once, behind all work already ready; no other coroutine is
  touched. After shutdown nothing is spawned.
\<close>

theorem spawned_process_is_queued:
  assumes "core_ok sc"
  shows "(shutting_down sc \<longrightarrow> enlist (Some h) ctx handler sc = (None, sc)) \<and>
    (\<not> shutting_down sc \<longrightarrow> (\<exists>i sc'. enlist (Some h) ctx handler sc = (Some (next_control sc), sc') \<and>
       core_ok sc' \<and> i < length (states sc') \<and> cs_handle (states sc' ! i) = Some h \<and>
       cs_ready (states sc' ! i) \<and> ready_queue sc' = ready_queue sc @ [i] \<and>
       (i < length (states sc) \<longrightarrow> cs_handle (states sc ! i) = None) \<and>
       (\<forall>j<length (states sc). j \<noteq> i \<longrightarrow> states sc' ! j = states sc ! j) \<and>
       lookup_or None (process_by_state sc') i = Some (next_control sc) \<and>
       ct_state (controls sc' (next_control sc)) = Some i \<and> pr_state (promises sc' h) = Some i))"
proof (cases "shutting_down sc")
  case True
  then show ?thesis by (simp add: enlist_def)
next
  case False
  define sc1 where "sc1 = upd_promise h (\<lambda>p. p\<lparr>pr_scheduled := True, pr_continuation := None, pr_context := ctx\<rparr>) sc"
  obtain i sc2 where 2: "adopt h sc1 = (i, sc2)" by (cases "adopt h sc1")
  have ok1: "core_ok sc1" using assms by (simp add: sc1_def)
  note a = adopt_process_ok [OF ok1 2]
  have m: "next_control sc2 = next_control sc" "promises sc2 h = (promises sc1 h)\<lparr>pr_state := Some i\<rparr>"
    using a(13) by (cases sc2; cases sc; simp add: sc1_def upd_promise_def)+
  define c where "c = next_control sc"
  define sc3 where "sc3 = upd_control c (\<lambda>_. control_init
                   \<lparr>ct_scheduled := True, ct_state := Some i,
                    ct_owner := map_option fst handler,
                    ct_finish := (case handler of None \<Rightarrow> False | Some (_, f) \<Rightarrow> f)\<rparr>) (sc2\<lparr>next_control := c + 1\<rparr>)"
  define sc4 where "sc4 = retain_control (Some c) (install_control c i sc3)"
  have t: "sched_core.truncate sc4 = sched_core.truncate sc2"
    by (simp add: sc4_def sc3_def retain_control_def)
  note f = truncate_fields [OF t]
  have ok4: "core_ok sc4" using core_ok_ext [OF t] a(1) by simp
  have i4: "i < length (states sc4)" "\<not> cs_waiting (states sc4 ! i)" "cs_handle (states sc4 ! i) \<noteq> None"
    using a f by simp_all
  have eq: "enlist (Some h) ctx handler sc = (Some c, make_ready i sc4)"
    using False 2 m by (simp add: enlist_def Let_def sc1_def sc3_def sc4_def c_def)
  have st: "states (make_ready i sc4) = (states sc2)[i := (states sc2 ! i)\<lparr>cs_ready := True\<rparr>]"
    "ready_queue (make_ready i sc4) = ready_queue sc @ [i]"
    using a f by (simp_all add: make_ready_def upd_state_def sc1_def)
  have len: "length (states sc1) = length (states sc)" by (simp add: sc1_def)
  have more: "sched_core.more (make_ready i sc4) = sched_core.more sc4" using make_ready_slots by blast
  note mf = more_fields [OF more]
  have pbs: "lookup_or None (process_by_state sc4) i = Some c"
    by (simp add: sc4_def retain_control_def install_control_frame lookup_or_def)
  have cs: "ct_state (controls sc4 c) = Some i"
    by (simp add: sc4_def retain_control_def install_control_frame) (simp add: sc3_def)
  have ps: "promises sc4 h = promises sc2 h"
    by (simp add: sc4_def sc3_def retain_control_def upd_control_def install_control_def Let_def)
  have "core_ok (make_ready i sc4)" by (rule make_ready_ok [OF ok4 i4])
  moreover have "states (make_ready i sc4) ! j = states sc ! j" if "j < length (states sc)" "j \<noteq> i" for j
    using that a(9) [of j] by (simp add: st len) (simp add: sc1_def)
  ultimately show ?thesis
    using False eq st a pbs cs m ps len unfolding mf
    by (intro conjI impI exI [of _ i] exI [of _ "make_ready i sc4"]) (simp_all add: c_def mf sc1_def)
qed

section \<open>Reclaiming\<close>

definition destroyed :: "sched \<Rightarrow> nat list" where
  "destroyed sc = List.map_filter (\<lambda>c. case c of CallDestroy h \<Rightarrow> Some h | _ \<Rightarrow> None) (calls sc)"

lemma destroyed_log:
  "destroyed (log_call e sc) = destroyed sc @ (case e of CallDestroy h \<Rightarrow> [h] | _ \<Rightarrow> [])"
  by (simp add: destroyed_def log_call_def List.map_filter_def split: call.splits)

lemma destroyed_same: "calls a = calls b \<Longrightarrow> destroyed a = destroyed b"
  by (simp add: destroyed_def)

lemma destroyed_cleanups: "destroyed (run_cleanups_from 0 sc) = destroyed sc"
  using run_cleanups_spec [of 0 sc] by (auto simp: destroyed_def List.map_filter_def)

lemma destroyed_detach: "destroyed (snd (detach_control c sc)) = destroyed sc"
proof -
  have r: "destroyed (release_owned_context c s) = destroyed s" for s
    by (auto simp: release_owned_context_def Let_def destroyed_log split: option.splits)
      (simp_all add: destroyed_def upd_control_def)
  show ?thesis
    by (auto simp: detach_control_def Let_def r split: option.splits)
      (simp_all add: destroyed_def release_control_def upd_control_def r [unfolded destroyed_def])
qed

text \<open>
  reclaiming a finished coroutine destroys its frame once and frees its slot; the
  frames and slots of all others stay as they are. Reclaiming the same index again does nothing.
\<close>

theorem reclaimed_once:
  assumes "core_ok sc" "i < length (states sc)" "cs_handle (states sc ! i) = Some h" "cs_done (states sc ! i)"
  shows "let sc' = reclaim_finished_state (Some i) sc in
    core_ok sc' \<and> destroyed sc' = destroyed sc @ [h] \<and> free_states sc' = free_states sc @ [i] \<and>
    states sc' = (states sc)[i := coroutine_state_init] \<and> reclaim_finished_state (Some i) sc' = sc'"
proof -
  define sc1 where "sc1 = release_slot i (sc\<lparr>process_by_state := (process_by_state sc)[i := None]\<rparr>)"
  define r where "r = (case lookup_or None (process_by_state sc) i of None \<Rightarrow> (False, sc1) | Some c \<Rightarrow> detach_control c sc1)"
  define sc2 where "sc2 = log_call (CallDestroy h) (upd_promise h (\<lambda>p. p\<lparr>pr_scheduled := False\<rparr>) (snd r))"
  have eq: "reclaim_finished_state (Some i) sc = (if fst r \<and> deferred_cleanups sc2 \<noteq> [] then run_owner_cleanups sc2 else sc2)"
    using assms by (auto simp add: reclaim_finished_state_def sc2_def r_def sc1_def Let_def split: prod.splits option.splits)
  have t: "sched_core.truncate (reclaim_finished_state (Some i) sc) = sched_core.truncate sc1"
    by (simp add: eq run_owner_cleanups_def truncate_cleanups sc2_def r_def truncate_detach split: option.splits)
  have ok: "core_ok (reclaim_finished_state (Some i) sc)" using reclaim_keeps [OF assms(1)] by blast
  have "destroyed (snd r) = destroyed sc1" by (simp add: r_def destroyed_detach split: option.splits)
  moreover have "destroyed sc1 = destroyed sc"
    by (rule destroyed_same) (simp add: sc1_def release_slot_def upd_state_def)
  moreover have "destroyed (upd_promise h' g s) = destroyed s" for h' g s
    by (rule destroyed_same) (simp add: upd_promise_def)
  ultimately have d: "destroyed (reclaim_finished_state (Some i) sc) = destroyed sc @ [h]"
    by (simp add: eq run_owner_cleanups_def destroyed_cleanups sc2_def destroyed_log)
  have s: "states (reclaim_finished_state (Some i) sc) = (states sc)[i := coroutine_state_init]"
    "free_states (reclaim_finished_state (Some i) sc) = free_states sc @ [i]"
    using truncate_fields(4) [OF t] t by (simp_all add: sc1_def release_slot_def upd_state_def sched_core.defs)
  have "reclaim_finished_state (Some i) x = x" if "states x = (states sc)[i := coroutine_state_init]" for x
    using that assms(2) by (simp add: reclaim_finished_state_def coroutine_state_init_def)
  then show ?thesis using ok d s by (simp add: Let_def)
qed

section \<open>Joining\<close>

lemma adopt_children_ok:
  "core_ok sc \<Longrightarrow> core_ok (adopt_children hs j ctx sc)"
proof (induction hs arbitrary: sc)
  case (Cons h hs)
  define sc1 where "sc1 = upd_promise h (\<lambda>p. p\<lparr>pr_scheduled := True, pr_continuation := None,
                                          pr_join := Some j, pr_context := ctx\<rparr>) sc"
  obtain i sc2 where 2: "adopt h sc1 = (i, sc2)" by (cases "adopt h sc1")
  have "core_ok sc1" using Cons.prems by (simp add: sc1_def)
  note a = adopt_process_ok [OF this 2]
  have "core_ok (make_ready i sc2)" using a by (intro make_ready_ok) simp_all
  then show ?case using 2 Cons.IH by (simp add: Let_def sc1_def)
qed simp

lemma start_join_ok:
  assumes ok: "core_ok sc" and res: "start_join p hs sc = Inr (j, sc')"
    and d: "\<And>i. pr_state (promises sc p) = Some i \<Longrightarrow> \<not> cs_done (states sc ! i)"
  shows "core_ok sc'"
proof -
  obtain i where i: "pr_state (promises sc p) = Some i" "i < length (states sc)" "cs_handle (states sc ! i) = Some p"
    using res by (auto simp: start_join_def state_for_def state_matches_def split: option.splits if_splits)
  obtain sc1 where b: "begin_wait i ReasonJoin sc = Inr (next_generation sc + 1, sc1)" "core_ok sc1"
    using begin_wait_ok [OF ok i(2) _ d [OF i(1)], of ReasonJoin] i(3) by (metis option.distinct(1))
  have t: "core_ok (x\<lparr>next_join := a, joins := b\<rparr>) = core_ok x" for x :: sched and a b
    by (rule core_ok_ext) (simp add: sched_core.defs)
  show ?thesis
    using res i b by (auto simp: start_join_def state_for_def state_matches_def Let_def t intro!: adopt_children_ok)
qed

section \<open>Witnesses\<close>

text \<open>A coroutine with handle 1 that joins the tasks 2 and 3, both queued, after the calls of \<open>joining_reached\<close>.\<close>

definition joining_slots :: "coroutine_state list" where
  "joining_slots =
     [coroutine_state_init\<lparr>cs_handle := Some 1, cs_generation := 1, cs_waiting := True\<rparr>,
      coroutine_state_init\<lparr>cs_handle := Some 2, cs_ready := True\<rparr>,
      coroutine_state_init\<lparr>cs_handle := Some 3, cs_ready := True\<rparr>]"

definition joining :: sched where
  "joining =
     \<lparr>states = joining_slots,
      diags =
        [wait_diag_init\<lparr>wd_id := 1, wd_reason := ReasonJoin, wd_has_wait := True, wd_started := 0,
           wd_deadline := - 1, wd_progress := progress_of_reason ReasonJoin\<rparr>,
         wait_diag_init\<lparr>wd_id := 2\<rparr>, wait_diag_init\<lparr>wd_id := 3\<rparr>],
      interest = edge_interest_init\<lparr>ei_indices := [[], [], []]\<rparr>,
      edge_waiters = [], edge_entries = 0, stale_regs = 0, falling_regs = 0,
      phase_waiters = (\<lambda>_. []), phase_counts = (\<lambda>_. 0), phase_by_state = [\<lambda>_. 0, \<lambda>_. 0, \<lambda>_. 0],
      timers = timer_queue_init, ready_queue = [1, 2], ready_cursor = 0, live_ready = 2, now = 0,
      fs_per_tick = 1, next_generation = 1, next_coroutine_id = 3, current_phase = Evaluation,
      wait_registered = False, winners = (\<lambda>_. 0), free_states = [], active_coroutines = 3,
      promises = (\<lambda>_. promise_init)
        (1 := promise_init\<lparr>pr_state := Some 0, pr_scheduled := True\<rparr>,
         2 := promise_init\<lparr>pr_state := Some 1, pr_scheduled := True, pr_join := Some 0\<rparr>,
         3 := promise_init\<lparr>pr_state := Some 2, pr_scheduled := True, pr_join := Some 0\<rparr>),
      joins = (\<lambda>_. \<lparr>jn_remaining = 0, jn_parent = 0, jn_exception = None\<rparr>)
        (0 := \<lparr>jn_remaining = 2, jn_parent = 0, jn_exception = None\<rparr>),
      next_join = 1, controls = (\<lambda>_. control_init), next_control = 0, process_controls = [],
      process_by_state = [], pending_cancellations = [], deferred_cleanups = [],
      free_process_slots = [], finished_states = [], finished_roots = [], draining = False,
      reclaiming = False, shutting_down = False, inline_depth = 0, current_state = None,
      current_context = None, calls = []\<rparr>"

lemma joining_reached:
  "result_bind (scheduler_init 1) (\<lambda>core.
     let (i, sc) = adopt 1 (upd_promise 1 (\<lambda>p. p\<lparr>pr_scheduled := True\<rparr>) (sched_init core)) in start_join 1 [2, 3] sc) =
   Inr (0, joining)"
  by (simp add: joining_def joining_slots_def scheduler_init_def adopt_def adopt_state_def sched_init_def sched_core.defs sched.defs 
   upd_promise_def upd_state_def upd_diag_def grow_def start_join_def state_for_def state_matches_def begin_wait_def
   clear_ready_def make_ready_def coroutine_state_init_def edge_interest_init_def timer_queue_init_def promise_init_def
   numeral_2_eq_2 cong: result_bind_cong)

lemma joining_ok: "core_ok joining"
proof -
  obtain core :: sched_core where 0: "scheduler_init 1 = Inr core" "states core = []"
    by (auto simp: scheduler_init_def)
  have "sched_core.truncate (sched_init core) = sched_core.truncate core"
    by (simp add: sched_init_def sched_core.defs)
  then have "core_ok (sched_init core)" using scheduler_init_ok [OF 0(1)] core_ok_ext core_ok_truncate
    by (metis core_ok_truncate)
  then have ok: "core_ok (upd_promise 1 (\<lambda>p. p\<lparr>pr_scheduled := True\<rparr>) (sched_init core))" (is "core_ok ?s") by simp
  obtain i sc where 1: "adopt 1 ?s = (i, sc)" by (cases "adopt 1 ?s")
  note a = adopt_process_ok [OF ok 1]
  have p: "pr_state (promises sc 1) = Some i" using a(13) more_fields [of sc] by (simp add: upd_promise_def)
  have 2: "start_join 1 [2, 3] sc = Inr (0, joining)"
    using joining_reached by (simp add: 0(1) 1 del: One_nat_def)
  show ?thesis by (rule start_join_ok [OF a(1) 2]) (use p a(5) in auto)
qed

lemma joining_facts:
  "map cs_handle (states joining) = [Some 1, Some 2, Some 3]" "map cs_done (states joining) = [False, False, False]"
  "jn_remaining (joins joining 0) = 2" "jn_parent (joins joining 0) = 0" "jn_exception (joins joining 0) = None"
  "cs_waiting (states joining ! 0)" "ready_queue joining = [1, 2]" "ready_cursor joining = 0" "\<not> draining joining"
  "\<not> shutting_down joining" "next_control joining = 0" "ct_done (controls joining 0) = False"
  "completion_regs (controls joining 0) = []" "children_of 0 joining = [1, 2]" "children_of 1 joining = []"
  "children_of 2 joining = []"
  by code_simp+

lemma joining_states: "length (states joining) = 3"
  using joining_facts(1) by (metis length_map list.size(3,4) One_nat_def Suc_1 numeral_3_eq_3 add_Suc_right add.right_neutral)

lemma joining_nth:
  "cs_handle (states joining ! 0) = Some 1" "cs_handle (states joining ! 1) = Some 2"
  "cs_handle (states joining ! 2) = Some 3" "\<not> cs_done (states joining ! 0)" "\<not> cs_done (states joining ! 1)"
  by code_simp+

lemma joining_distinct: "distinct_handles joining"
proof -
  have "distinct (map cs_handle (states joining))" unfolding joining_facts(1) by simp
  then show ?thesis
    unfolding distinct_handles_def by (metis distinct_conv_nth length_map nth_map)
qed

lemma join_resumes_parent_once_witness:
  "\<exists>sc'. finish_children 0 [None, Some 5] joining = Inr sc' \<and> core_ok sc' \<and>
     ready_queue sc' = [1, 2, 0] \<and> jn_exception (joins sc' 0) = Some 5"
  using join_resumes_parent_once [OF joining_ok, of 0 "[None, Some 5]" 0] joining_facts joining_states joining_nth
  by auto

lemma complete_process_exact_witness:
  "\<exists>sc'. complete_process 0 True joining = Inr sc' \<and> ct_done (controls sc' 0) \<and>
     ready_queue sc' = [1, 2] \<and> ct_cancelled (controls sc' 0)"
  using complete_process_exact [OF joining_ok, of 0 True True] joining_facts
  by (auto simp: woken_states_def)

lemma cancel_ends_exactly_the_tree_witness:
  "\<exists>sc'. cancel_state 3 0 joining = Some (Inr sc') \<and> core_ok sc' \<and> cs_done (states sc' ! 1) \<and> cs_done (states sc' ! 2)"
proof -
  have pair: "(a, b) \<in> waits_for joining \<longleftrightarrow> a = 0 \<and> (b = 1 \<or> b = 2)" for a b
  proof -
    have "cs_handle (states joining ! a) \<noteq> None" if "a < 3"
    proof -
      have "a = 0 \<or> a = 1 \<or> a = 2" using that by linarith
      then show ?thesis using joining_nth by auto
    qed
    then have "(a, b) \<in> waits_for joining \<longleftrightarrow> a < 3 \<and> b \<in> set (children_of a joining)"
      using waits_for_child [of joining a b] by (auto simp: live_child_def joining_states waits_for_def)
    moreover have "a < 3 \<longleftrightarrow> a = 0 \<or> a = 1 \<or> a = 2" by linarith
    ultimately show ?thesis using joining_facts(14-16) by auto
  qed
  have "(a, b) \<in> (waits_for joining)\<^sup>+ \<Longrightarrow> a = 0 \<and> b \<noteq> 0" for a b
    by (induction rule: trancl_induct) (auto simp: pair)
  then have free: "\<not> waits_in_circle joining 0" unfolding waits_in_circle_def by blast
  have c: "(0, 1) \<in> (waits_for joining)\<^sup>*" "(0, 2) \<in> (waits_for joining)\<^sup>*"
    by (rule r_into_rtrancl, simp add: pair)+
  have h: "cs_handle (states joining ! 0) \<noteq> None" "0 < length (states joining)" "length (states joining) \<le> 3"
    by (simp_all add: joining_nth joining_states)
  show ?thesis
    using cancel_ends_exactly_the_tree [OF joining_ok joining_distinct h(2) joining_nth(4) h(1,3)] free c by auto
qed

lemma joining_scripted: "scripted joining"
proof -
  have p: "pr_state (promises joining 1) = Some 0" "pr_state (promises joining 2) = Some 1"
    "pr_state (promises joining 3) = Some 2" "pr_scheduled (promises joining 1)" "pr_scheduled (promises joining 2)"
    "pr_scheduled (promises joining 3)" "pr_exception (promises joining 1) = None"
    "pr_exception (promises joining 2) = None" "pr_exception (promises joining 3) = None"
    "pending_cancellations joining = []"
    by code_simp+
  have "promises_bound joining"
    unfolding promises_bound_def joining_states
  proof (intro conjI allI impI)
    fix i h
    assume "i < 3" "cs_handle (states joining ! i) = Some h"
    moreover have "i = 0 \<or> i = 1 \<or> i = 2" using \<open>i < 3\<close> by linarith
    ultimately show "pr_state (promises joining h) = Some i" "pr_scheduled (promises joining h)"
      "pr_exception (promises joining h) = None"
      using joining_nth(1-3) p by auto
  qed (rule p(10))
  then show ?thesis using joining_ok by (simp add: scripted_def)
qed

lemma drain_leaves_nobody_ready_witness:
  "\<exists>n sc'. drain_ready (script_body (\<lambda>h. if h = 2 then Some (0, Rising) else None)) 5 n joining = Some (Inr sc') \<and>
     core_ok sc' \<and> ready_queue sc' = []"
  using drain_leaves_nobody_ready [OF scripts.finite_work_axioms joining_scripted joining_facts(9,8)] by blast

lemma owner_cleanups_exact_witness:
  "deferred_cleanups (run_owner_cleanups (joining\<lparr>deferred_cleanups :=
      [\<lparr>oc_owner = 4, oc_matcher = None, oc_cleanup = 6\<rparr>]\<rparr>)) = []"
proof -
  let ?sc = "joining\<lparr>deferred_cleanups := [\<lparr>oc_owner = 4, oc_matcher = None, oc_cleanup = 6\<rparr>]\<rparr>"
  have "\<not> has_process_owned_by 4 None ?sc" by code_simp
  then show ?thesis using owner_cleanups_exact [of ?sc] by (simp add: Let_def)
qed

lemma spawned_process_is_queued_witness:
  "\<exists>i sc'. enlist (Some 9) None None joining = (Some 0, sc') \<and> core_ok sc' \<and>
     ready_queue sc' = [1, 2, i] \<and> cs_handle (states sc' ! i) = Some 9"
  using spawned_process_is_queued [OF joining_ok, of 9 None None] joining_facts by auto

text \<open>The same scheduler after task 2 has finished.\<close>

definition child_finished :: sched where
  "child_finished = (case final_suspend 2 joining of Inr (_, sc) \<Rightarrow> sc)"

lemma child_finished_ok: "core_ok child_finished"
proof -
  have "case final_suspend 2 joining of Inr _ \<Rightarrow> True | _ \<Rightarrow> False" by code_simp
  then obtain n sc where "final_suspend 2 joining = Inr (n, sc)" by (auto split: sum.splits)
  then show ?thesis using final_suspend_ok [OF joining_ok] by (simp add: child_finished_def)
qed

lemma reclaimed_once_witness:
  "destroyed (reclaim_finished_state (Some 1) child_finished) = [2]"
proof -
  have "1 < length (states child_finished)" "cs_handle (states child_finished ! 1) = Some 2"
    "cs_done (states child_finished ! 1)" "destroyed child_finished = []"
    by code_simp+
  then show ?thesis using reclaimed_once [OF child_finished_ok] by (simp add: Let_def)
qed

end
