(* ===== verification/SyncPrimitives.thy ===== *)
theory SyncPrimitives
  imports SchedSlots
begin

text \<open>
  \<open>Event\<close>, \<open>Queue\<close>, \<open>Semaphore\<close> and \<open>Lock\<close> (\<open>coro_runtime.hpp\<close>): the primitives on which
  coroutines wait for each other. An operation works on the primitive and the scheduler together.
  Most operations end by calling \<open>Scheduler::flush_external_wakes\<close>, which runs the coroutines
  just woken when it is called from outside a coroutine and returns at once otherwise; these runs
  may call the same primitive again, so \<open>flush\<close> is a parameter that maps the pair. Schedulers are
  named by numbers, because a primitive refuses waiters of a second one; the scheduler of the pair
  is the one the waiters belong to.
\<close>

type_synonym ('p, 's) flush = "'p \<times> 's \<Rightarrow> ('p \<times> 's) result"

section \<open>Waiters\<close>

text \<open>A waiter and whether something has been reserved for it.\<close>

type_synonym waiter = "registration \<times> bool"

definition same_wait :: "registration \<Rightarrow> registration \<Rightarrow> bool" where
  "same_wait l r = (reg_state l = reg_state r \<and> reg_generation l = reg_generation r)"

fun find_waiter :: "registration \<Rightarrow> waiter list \<Rightarrow> waiter option" where
  "find_waiter reg [] = None"
| "find_waiter reg (w # ws) = (if same_wait (fst w) reg then Some w else find_waiter reg ws)"

fun erase_waiter :: "registration \<Rightarrow> waiter list \<Rightarrow> waiter list" where
  "erase_waiter reg [] = []"
| "erase_waiter reg (w # ws) = (if same_wait (fst w) reg then ws else w # erase_waiter reg ws)"

text \<open>\<open>--n\<close> on a \<open>size_t\<close>.\<close>

definition dec_size :: "nat \<Rightarrow> nat" where
  "dec_size n = (if n = 0 then max_u64 else n - 1)"

text \<open>
  \<open>cleanup\<close> on one list of waiters: dead waiters go, and each dead waiter that held a reservation
  gives it back.
\<close>

definition live_waiters :: "(registration \<Rightarrow> bool) \<Rightarrow> waiter list \<Rightarrow> waiter list" where
  "live_waiters alive ws = filter (\<lambda>w. alive (fst w)) ws"

definition dead_reservations :: "(registration \<Rightarrow> bool) \<Rightarrow> waiter list \<Rightarrow> nat" where
  "dead_reservations alive ws = length (filter (\<lambda>w. \<not> alive (fst w) \<and> snd w) ws)"

text \<open>
  The loop of \<open>wake_consumers\<close> and \<open>wake_producers\<close>: in order, every waiter without a reservation
  gets one and is woken while \<open>room\<close> allows another reservation; a waiter that cannot be woken
  gives it back. The flag says whether a wake was tried.
\<close>

fun wake_waiters ::
  "(registration \<Rightarrow> 's \<Rightarrow> (bool \<times> 's) result) \<Rightarrow> (nat \<Rightarrow> bool) \<Rightarrow> waiter list \<Rightarrow> nat \<Rightarrow> 's \<Rightarrow>
   (waiter list \<times> nat \<times> bool \<times> 's) result" where
  "wake_waiters wake room [] reserved s = Ok ([], reserved, False, s)"
| "wake_waiters wake room ((reg, r) # ws) reserved s =
     (if \<not> room reserved then Ok ((reg, r) # ws, reserved, False, s)
      else if r then
        result_bind (wake_waiters wake room ws reserved s) (\<lambda>(ws, reserved, tried, s).
          Ok ((reg, True) # ws, reserved, tried, s))
      else
        result_bind (wake reg s) (\<lambda>(woken, s).
        result_bind (wake_waiters wake room ws (if woken then reserved + 1 else reserved) s)
          (\<lambda>(ws, reserved, tried, s). Ok ((reg, woken) # ws, reserved, True, s))))"

definition bind_scheduler :: "string \<Rightarrow> nat \<Rightarrow> nat option \<Rightarrow> nat option result" where
  "bind_scheduler what sid bound =
     (case bound of
        None \<Rightarrow> Ok (Some sid)
      | Some s \<Rightarrow>
          if s \<noteq> sid then Fail (Abort (what @ '' cannot have waiters from multiple schedulers''))
          else Ok (Some sid))"

section \<open>Event\<close>

record event =
  ev_waiters :: "registration list"
  ev_scheduler :: "nat option"
  ev_set :: bool

definition event_init :: event where
  "event_init = \<lparr>ev_waiters = [], ev_scheduler = None, ev_set = False\<rparr>"

definition event_cleanup :: "event \<times> 'a sched_core_scheme \<Rightarrow> event \<times> 'a sched_core_scheme" where
  "event_cleanup w =
     (let (ev, sc) = w;
          ev = ev\<lparr>ev_waiters := filter (\<lambda>r. external_wait_alive r sc) (ev_waiters ev)\<rparr>
      in (if ev_waiters ev = [] then ev\<lparr>ev_scheduler := None\<rparr> else ev, sc))"

fun wake_all :: "registration list \<Rightarrow> 'a sched_core_scheme \<Rightarrow> 'a sched_core_scheme result" where
  "wake_all [] sc = Ok sc"
| "wake_all (reg # regs) sc = result_bind (wake_external reg sc) (\<lambda>(_, sc). wake_all regs sc)"

definition event_set ::
  "(event, 'a sched_core_scheme) flush \<Rightarrow> event \<times> 'a sched_core_scheme \<Rightarrow>
   (event \<times> 'a sched_core_scheme) result" where
  "event_set flush w =
     (let (ev, sc) = event_cleanup (map_prod (\<lambda>ev. ev\<lparr>ev_set := True\<rparr>) id w)
      in if ev_waiters ev = [] then Ok (ev, sc)
         else result_bind (wake_all (ev_waiters ev) sc) (\<lambda>sc.
           flush (ev\<lparr>ev_waiters := [], ev_scheduler := None\<rparr>, sc)))"

definition event_clear :: "event \<times> 'a sched_core_scheme \<Rightarrow> event \<times> 'a sched_core_scheme" where
  "event_clear w = event_cleanup (map_prod (\<lambda>ev. ev\<lparr>ev_set := False\<rparr>) id w)"

definition event_suspend ::
  "nat \<Rightarrow> nat \<Rightarrow> nat \<Rightarrow> event \<times> 'a sched_core_scheme \<Rightarrow>
   (bool \<times> event \<times> 'a sched_core_scheme) result" where
  "event_suspend sid handle i w =
     (let (ev, sc) = event_cleanup w
      in if ev_set ev then Ok (False, ev, sc)
         else result_bind (bind_scheduler ''Event'' sid (ev_scheduler ev)) (\<lambda>s.
           result_bind (park_external handle i ReasonEvent sc) (\<lambda>(reg, sc).
             Ok (True, ev\<lparr>ev_scheduler := s, ev_waiters := ev_waiters ev @ [reg]\<rparr>, sc))))"

definition event_destroy :: "event \<times> 'a sched_core_scheme \<Rightarrow> unit result" where
  "event_destroy w =
     (if ev_waiters (fst (event_cleanup w)) \<noteq> [] then Fail (Abort ''Event destroyed with active waiters'')
      else Ok ())"

section \<open>Queue\<close>

record 'v queue =
  q_items :: "'v list"
  q_gets :: "waiter list"
  q_puts :: "waiter list"
  q_scheduler :: "nat option"
  q_reserved_items :: nat
  q_reserved_slots :: nat
  q_maxsize :: nat

definition queue_init :: "nat \<Rightarrow> 'v queue" where
  "queue_init maxsize =
     \<lparr>q_items = [], q_gets = [], q_puts = [], q_scheduler = None, q_reserved_items = 0,
      q_reserved_slots = 0, q_maxsize = maxsize\<rparr>"

definition has_unreserved_item :: "'v queue \<Rightarrow> bool" where
  "has_unreserved_item q = (length (q_items q) > q_reserved_items q)"

definition has_unreserved_slot :: "'v queue \<Rightarrow> bool" where
  "has_unreserved_slot q =
     (q_maxsize q = 0 \<or> length (q_items q) + q_reserved_slots q < q_maxsize q)"

definition queue_cleanup :: "'v queue \<times> 'a sched_core_scheme \<Rightarrow> 'v queue \<times> 'a sched_core_scheme" where
  "queue_cleanup w =
     (let (q, sc) = w;
          alive = (\<lambda>r. external_wait_alive r sc);
          q = q\<lparr>q_reserved_items := (dec_size ^^ dead_reservations alive (q_gets q)) (q_reserved_items q),
                q_gets := live_waiters alive (q_gets q)\<rparr>;
          q = q\<lparr>q_reserved_slots := (dec_size ^^ dead_reservations alive (q_puts q)) (q_reserved_slots q),
                q_puts := live_waiters alive (q_puts q)\<rparr>
      in (if q_gets q = [] \<and> q_puts q = [] then q\<lparr>q_scheduler := None\<rparr> else q, sc))"

definition wake_consumers ::
  "('v queue, 'a sched_core_scheme) flush \<Rightarrow> 'v queue \<times> 'a sched_core_scheme \<Rightarrow>
   ('v queue \<times> 'a sched_core_scheme) result" where
  "wake_consumers flush w =
     (let (q, sc) = queue_cleanup w
      in result_bind
           (wake_waiters wake_external (\<lambda>reserved. length (q_items q) > reserved)
              (q_gets q) (q_reserved_items q) sc)
           (\<lambda>(ws, reserved, tried, sc).
             let w = (q\<lparr>q_gets := ws, q_reserved_items := reserved\<rparr>, sc)
             in if tried then flush w else Ok w))"

definition wake_producers ::
  "('v queue, 'a sched_core_scheme) flush \<Rightarrow> 'v queue \<times> 'a sched_core_scheme \<Rightarrow>
   ('v queue \<times> 'a sched_core_scheme) result" where
  "wake_producers flush w =
     (let (q, sc) = queue_cleanup w
      in result_bind
           (wake_waiters wake_external
              (\<lambda>reserved. has_unreserved_slot (q\<lparr>q_reserved_slots := reserved\<rparr>))
              (q_puts q) (q_reserved_slots q) sc)
           (\<lambda>(ws, reserved, tried, sc).
             let w = (q\<lparr>q_puts := ws, q_reserved_slots := reserved\<rparr>, sc)
             in if tried then flush w else Ok w))"

definition queue_size :: "'v queue \<times> 'a sched_core_scheme \<Rightarrow> nat \<times> 'v queue \<times> 'a sched_core_scheme" where
  "queue_size w = (let w = queue_cleanup w in (length (q_items (fst w)), w))"

definition queue_full :: "'v queue \<times> 'a sched_core_scheme \<Rightarrow> bool \<times> 'v queue \<times> 'a sched_core_scheme" where
  "queue_full w = (let w = queue_cleanup w in (\<not> has_unreserved_slot (fst w), w))"

definition put_nowait ::
  "('v queue, 'a sched_core_scheme) flush \<Rightarrow> 'v \<Rightarrow> 'v queue \<times> 'a sched_core_scheme \<Rightarrow>
   (bool \<times> 'v queue \<times> 'a sched_core_scheme) result" where
  "put_nowait flush v w =
     (let (q, sc) = queue_cleanup w
      in if \<not> has_unreserved_slot q then Ok (False, q, sc)
         else result_bind (wake_consumers flush (q\<lparr>q_items := q_items q @ [v]\<rparr>, sc)) (\<lambda>w.
           Ok (True, w)))"

text \<open>Erasing the item at \<open>reserved_items_\<close>, behind the items promised to waiters.\<close>

definition take_unreserved :: "'v queue \<Rightarrow> 'v \<times> 'v queue" where
  "take_unreserved q =
     (q_items q ! q_reserved_items q,
      q\<lparr>q_items := take (q_reserved_items q) (q_items q) @ drop (q_reserved_items q + 1) (q_items q)\<rparr>)"

definition get_nowait ::
  "('v queue, 'a sched_core_scheme) flush \<Rightarrow> 'v queue \<times> 'a sched_core_scheme \<Rightarrow>
   ('v option \<times> 'v queue \<times> 'a sched_core_scheme) result" where
  "get_nowait flush w =
     (let (q, sc) = queue_cleanup w
      in if \<not> has_unreserved_item q then Ok (None, q, sc)
         else let (v, q) = take_unreserved q
         in result_bind (wake_producers flush (q, sc)) (\<lambda>w. Ok (Some v, w)))"

text \<open>\<open>GetAwaiter\<close> and \<open>PutAwaiter\<close>: ready at once, or parked, then resumed with the registration.\<close>

definition get_ready :: "'v queue \<times> 'a sched_core_scheme \<Rightarrow> bool \<times> 'v queue \<times> 'a sched_core_scheme" where
  "get_ready w = (let w = queue_cleanup w in (has_unreserved_item (fst w), w))"

definition put_ready :: "'v queue \<times> 'a sched_core_scheme \<Rightarrow> bool \<times> 'v queue \<times> 'a sched_core_scheme" where
  "put_ready w = (let w = queue_cleanup w in (has_unreserved_slot (fst w), w))"

definition suspend_get ::
  "nat \<Rightarrow> nat \<Rightarrow> nat \<Rightarrow> 'v queue \<times> 'a sched_core_scheme \<Rightarrow>
   (registration option \<times> 'v queue \<times> 'a sched_core_scheme) result" where
  "suspend_get sid handle i w =
     (let (q, sc) = queue_cleanup w
      in if length (q_items q) > q_reserved_items q then Ok (None, q, sc)
         else result_bind (bind_scheduler ''Queue'' sid (q_scheduler q)) (\<lambda>s.
           result_bind (park_external handle i ReasonQueueGet sc) (\<lambda>(reg, sc).
             Ok (Some reg, q\<lparr>q_scheduler := s, q_gets := q_gets q @ [(reg, False)]\<rparr>, sc))))"

definition suspend_put ::
  "nat \<Rightarrow> nat \<Rightarrow> nat \<Rightarrow> 'v queue \<times> 'a sched_core_scheme \<Rightarrow>
   (registration option \<times> 'v queue \<times> 'a sched_core_scheme) result" where
  "suspend_put sid handle i w =
     (let (q, sc) = queue_cleanup w
      in if has_unreserved_slot q then Ok (None, q, sc)
         else result_bind (bind_scheduler ''Queue'' sid (q_scheduler q)) (\<lambda>s.
           result_bind (park_external handle i ReasonQueuePut sc) (\<lambda>(reg, sc).
             Ok (Some reg, q\<lparr>q_scheduler := s, q_puts := q_puts q @ [(reg, False)]\<rparr>, sc))))"

definition consume_get ::
  "('v queue, 'a sched_core_scheme) flush \<Rightarrow> registration option \<Rightarrow> 'v queue \<times> 'a sched_core_scheme \<Rightarrow>
   ('v \<times> 'v queue \<times> 'a sched_core_scheme) result" where
  "consume_get flush registration w =
     (case registration of
        Some reg \<Rightarrow>
          let (q, sc) = w in
          (case find_waiter reg (q_gets q) of
             Some (_, True) \<Rightarrow>
               (case q_items q of
                  [] \<Rightarrow> Fail (Abort ''Queue consumer resumed without an item'')
                | v # items \<Rightarrow>
                    let w = queue_cleanup
                      (q\<lparr>q_items := items, q_reserved_items := dec_size (q_reserved_items q),
                         q_gets := erase_waiter reg (q_gets q)\<rparr>, sc)
                    in result_bind (wake_consumers flush w) (\<lambda>w.
                       result_bind (wake_producers flush w) (\<lambda>w. Ok (v, w))))
           | _ \<Rightarrow> Fail (Abort ''Queue consumer resumed without an item''))
      | None \<Rightarrow>
          let (q, sc) = queue_cleanup w
          in if length (q_items q) \<le> q_reserved_items q
             then Fail (Abort ''Queue consumer resumed without an item'')
             else let (v, q) = take_unreserved q
             in result_bind (wake_producers flush (q, sc)) (\<lambda>w. Ok (v, w)))"

definition produce ::
  "('v queue, 'a sched_core_scheme) flush \<Rightarrow> registration option \<Rightarrow> 'v \<Rightarrow> 'v queue \<times> 'a sched_core_scheme \<Rightarrow>
   ('v queue \<times> 'a sched_core_scheme) result" where
  "produce flush registration v w =
     result_bind
       (case registration of
          Some reg \<Rightarrow>
            let (q, sc) = w in
            (case find_waiter reg (q_puts q) of
               Some (_, True) \<Rightarrow>
                 Ok (q\<lparr>q_reserved_slots := dec_size (q_reserved_slots q),
                       q_puts := erase_waiter reg (q_puts q)\<rparr>, sc)
             | _ \<Rightarrow> Fail (Abort ''Queue producer resumed without capacity''))
        | None \<Rightarrow>
            let w = queue_cleanup w
            in if \<not> has_unreserved_slot (fst w) then Fail (Abort ''Queue producer resumed while full'')
               else Ok w)
       (\<lambda>(q, sc). wake_consumers flush (queue_cleanup (q\<lparr>q_items := q_items q @ [v]\<rparr>, sc)))"

definition abandon_get ::
  "('v queue, 'a sched_core_scheme) flush \<Rightarrow> registration \<Rightarrow> 'v queue \<times> 'a sched_core_scheme \<Rightarrow>
   ('v queue \<times> 'a sched_core_scheme) result" where
  "abandon_get flush reg w =
     (let (q, sc) = w in
      case find_waiter reg (q_gets q) of
        None \<Rightarrow> Ok w
      | Some (_, reserved) \<Rightarrow>
          wake_consumers flush (queue_cleanup
            (q\<lparr>q_reserved_items := (if reserved then dec_size (q_reserved_items q) else q_reserved_items q),
               q_gets := erase_waiter reg (q_gets q)\<rparr>, sc)))"

definition abandon_put ::
  "('v queue, 'a sched_core_scheme) flush \<Rightarrow> registration \<Rightarrow> 'v queue \<times> 'a sched_core_scheme \<Rightarrow>
   ('v queue \<times> 'a sched_core_scheme) result" where
  "abandon_put flush reg w =
     (let (q, sc) = w in
      case find_waiter reg (q_puts q) of
        None \<Rightarrow> Ok w
      | Some (_, reserved) \<Rightarrow>
          wake_producers flush (queue_cleanup
            (q\<lparr>q_reserved_slots := (if reserved then dec_size (q_reserved_slots q) else q_reserved_slots q),
               q_puts := erase_waiter reg (q_puts q)\<rparr>, sc)))"

definition queue_destroy :: "'v queue \<times> 'a sched_core_scheme \<Rightarrow> unit result" where
  "queue_destroy w =
     (let q = fst (queue_cleanup w)
      in if q_gets q \<noteq> [] \<or> q_puts q \<noteq> [] then Fail (Abort ''Queue destroyed with active waiters'')
         else Ok ())"

section \<open>Semaphore\<close>

record semaphore =
  sm_waiters :: "waiter list"
  sm_scheduler :: "nat option"
  sm_permits :: nat

definition semaphore_init :: "nat \<Rightarrow> semaphore" where
  "semaphore_init permits = \<lparr>sm_waiters = [], sm_scheduler = None, sm_permits = permits\<rparr>"

text \<open>
  One permit goes to the first waiter without one that can be woken; waiters that cannot are
  erased on the way. If nobody takes it, the count grows.
\<close>

fun give_permit ::
  "(registration \<Rightarrow> 's \<Rightarrow> (bool \<times> 's) result) \<Rightarrow> waiter list \<Rightarrow> nat \<Rightarrow> 's \<Rightarrow>
   (waiter list \<times> nat \<times> bool \<times> 's) result" where
  "give_permit wake [] permits s =
     (if permits = max_u64 then Fail (Abort ''Semaphore permit overflow'')
      else Ok ([], permits + 1, False, s))"
| "give_permit wake ((reg, r) # ws) permits s =
     (if r then
        result_bind (give_permit wake ws permits s) (\<lambda>(ws, permits, tried, s).
          Ok ((reg, True) # ws, permits, tried, s))
      else
        result_bind (wake reg s) (\<lambda>(woken, s).
          if woken then Ok ((reg, True) # ws, permits, True, s)
          else result_bind (give_permit wake ws permits s) (\<lambda>(ws, permits, _, s).
            Ok (ws, permits, True, s))))"

fun give_permits ::
  "(registration \<Rightarrow> 's \<Rightarrow> (bool \<times> 's) result) \<Rightarrow> nat \<Rightarrow> waiter list \<Rightarrow> nat \<Rightarrow> 's \<Rightarrow>
   (waiter list \<times> nat \<times> bool \<times> 's) result" where
  "give_permits wake 0 ws permits s = Ok (ws, permits, False, s)"
| "give_permits wake (Suc n) ws permits s =
     result_bind (give_permit wake ws permits s) (\<lambda>(ws, permits, tried, s).
     result_bind (give_permits wake n ws permits s) (\<lambda>(ws, permits, tried', s).
       Ok (ws, permits, tried \<or> tried', s)))"

definition dispatch ::
  "(semaphore, 'a sched_core_scheme) flush \<Rightarrow> nat \<Rightarrow> semaphore \<times> 'a sched_core_scheme \<Rightarrow>
   (semaphore \<times> 'a sched_core_scheme) result" where
  "dispatch flush n w =
     (let (sm, sc) = w in
      result_bind (give_permits wake_external n (sm_waiters sm) (sm_permits sm) sc)
        (\<lambda>(ws, permits, tried, sc).
          let w = (sm\<lparr>sm_waiters := ws, sm_permits := permits\<rparr>, sc)
          in if tried then flush w else Ok w))"

definition semaphore_cleanup ::
  "(semaphore, 'a sched_core_scheme) flush \<Rightarrow> semaphore \<times> 'a sched_core_scheme \<Rightarrow>
   (semaphore \<times> 'a sched_core_scheme) result" where
  "semaphore_cleanup flush w =
     (let (sm, sc) = w;
          alive = (\<lambda>r. external_wait_alive r sc);
          returned = dead_reservations alive (sm_waiters sm);
          sm = sm\<lparr>sm_waiters := live_waiters alive (sm_waiters sm)\<rparr>;
          sm = (if sm_waiters sm = [] then sm\<lparr>sm_scheduler := None\<rparr> else sm)
      in if returned \<noteq> 0 then dispatch flush returned (sm, sc) else Ok (sm, sc))"

definition semaphore_available ::
  "(semaphore, 'a sched_core_scheme) flush \<Rightarrow> semaphore \<times> 'a sched_core_scheme \<Rightarrow>
   (nat \<times> semaphore \<times> 'a sched_core_scheme) result" where
  "semaphore_available flush w =
     result_bind (semaphore_cleanup flush w) (\<lambda>w. Ok (sm_permits (fst w), w))"

definition semaphore_try_acquire ::
  "(semaphore, 'a sched_core_scheme) flush \<Rightarrow> semaphore \<times> 'a sched_core_scheme \<Rightarrow>
   (bool \<times> semaphore \<times> 'a sched_core_scheme) result" where
  "semaphore_try_acquire flush w =
     result_bind (semaphore_cleanup flush w) (\<lambda>(sm, sc).
       if sm_permits sm = 0 then Ok (False, sm, sc)
       else Ok (True, sm\<lparr>sm_permits := sm_permits sm - 1\<rparr>, sc))"

definition semaphore_suspend ::
  "(semaphore, 'a sched_core_scheme) flush \<Rightarrow> nat \<Rightarrow> nat \<Rightarrow> nat \<Rightarrow> semaphore \<times> 'a sched_core_scheme \<Rightarrow>
   (registration option \<times> semaphore \<times> 'a sched_core_scheme) result" where
  "semaphore_suspend flush sid handle i w =
     result_bind (semaphore_cleanup flush w) (\<lambda>(sm, sc).
       if sm_permits sm \<noteq> 0 then Ok (None, sm\<lparr>sm_permits := sm_permits sm - 1\<rparr>, sc)
       else result_bind (bind_scheduler ''Semaphore'' sid (sm_scheduler sm)) (\<lambda>s.
         result_bind (park_external handle i ReasonSemaphore sc) (\<lambda>(reg, sc).
           Ok (Some reg, sm\<lparr>sm_scheduler := s, sm_waiters := sm_waiters sm @ [(reg, False)]\<rparr>, sc))))"

definition semaphore_finish_acquire ::
  "(semaphore, 'a sched_core_scheme) flush \<Rightarrow> registration option \<Rightarrow> semaphore \<times> 'a sched_core_scheme \<Rightarrow>
   (semaphore \<times> 'a sched_core_scheme) result" where
  "semaphore_finish_acquire flush registration w =
     (case registration of
        None \<Rightarrow> Ok w
      | Some reg \<Rightarrow>
          let (sm, sc) = w in
          (case find_waiter reg (sm_waiters sm) of
             Some (_, True) \<Rightarrow>
               semaphore_cleanup flush (sm\<lparr>sm_waiters := erase_waiter reg (sm_waiters sm)\<rparr>, sc)
           | _ \<Rightarrow> Fail (Abort ''Semaphore waiter resumed without a permit'')))"

definition semaphore_abandon ::
  "(semaphore, 'a sched_core_scheme) flush \<Rightarrow> registration \<Rightarrow> semaphore \<times> 'a sched_core_scheme \<Rightarrow>
   (semaphore \<times> 'a sched_core_scheme) result" where
  "semaphore_abandon flush reg w =
     (let (sm, sc) = w in
      case find_waiter reg (sm_waiters sm) of
        None \<Rightarrow> Ok w
      | Some (_, return_permit) \<Rightarrow>
          result_bind (semaphore_cleanup flush (sm\<lparr>sm_waiters := erase_waiter reg (sm_waiters sm)\<rparr>, sc))
            (\<lambda>w. if return_permit then dispatch flush 1 w else Ok w))"

definition semaphore_release ::
  "(semaphore, 'a sched_core_scheme) flush \<Rightarrow> nat \<Rightarrow> semaphore \<times> 'a sched_core_scheme \<Rightarrow>
   (semaphore \<times> 'a sched_core_scheme) result" where
  "semaphore_release flush permits w =
     (if permits = 0 then Ok w
      else result_bind (semaphore_cleanup flush w) (dispatch flush permits))"

definition semaphore_destroy ::
  "(semaphore, 'a sched_core_scheme) flush \<Rightarrow> semaphore \<times> 'a sched_core_scheme \<Rightarrow> unit result" where
  "semaphore_destroy flush w =
     result_bind (semaphore_cleanup flush w) (\<lambda>w.
       if sm_waiters (fst w) \<noteq> [] then Fail (Abort ''Semaphore destroyed with active waiters'')
       else Ok ())"

section \<open>Lock\<close>

record lock =
  lk_waiters :: "waiter list"
  lk_scheduler :: "nat option"
  lk_locked :: bool
  lk_handoff :: bool

definition lock_init :: lock where
  "lock_init = \<lparr>lk_waiters = [], lk_scheduler = None, lk_locked = False, lk_handoff = False\<rparr>"

text \<open>
  \<open>handoff_or_unlock\<close>: ownership goes to the first waiter without it that can be woken; waiters
  that cannot are erased on the way. The first flag says whether somebody took it, the second
  whether a wake was tried.
\<close>

fun hand_over ::
  "(registration \<Rightarrow> 's \<Rightarrow> (bool \<times> 's) result) \<Rightarrow> waiter list \<Rightarrow> 's \<Rightarrow>
   (waiter list \<times> bool \<times> bool \<times> 's) result" where
  "hand_over wake [] s = Ok ([], False, False, s)"
| "hand_over wake ((reg, r) # ws) s =
     (if r then
        result_bind (hand_over wake ws s) (\<lambda>(ws, taken, tried, s).
          Ok ((reg, True) # ws, taken, tried, s))
      else
        result_bind (wake reg s) (\<lambda>(woken, s).
          if woken then Ok ((reg, True) # ws, True, True, s)
          else result_bind (hand_over wake ws s) (\<lambda>(ws, taken, _, s).
            Ok (ws, taken, True, s))))"

definition handoff_or_unlock ::
  "(lock, 'a sched_core_scheme) flush \<Rightarrow> lock \<times> 'a sched_core_scheme \<Rightarrow>
   (lock \<times> 'a sched_core_scheme) result" where
  "handoff_or_unlock flush w =
     (let (lk, sc) = w in
      result_bind (hand_over wake_external (lk_waiters lk) sc) (\<lambda>(ws, taken, tried, sc).
        let lk = lk\<lparr>lk_waiters := ws,
                    lk_handoff := (if taken then True else if tried then False else lk_handoff lk),
                    lk_locked := (if taken then lk_locked lk else False)\<rparr>
        in if tried then flush (lk, sc) else Ok (lk, sc)))"

definition lock_cleanup ::
  "(lock, 'a sched_core_scheme) flush \<Rightarrow> lock \<times> 'a sched_core_scheme \<Rightarrow>
   (lock \<times> 'a sched_core_scheme) result" where
  "lock_cleanup flush w =
     (let (lk, sc) = w in
      if lk_waiters lk = [] then Ok (lk\<lparr>lk_scheduler := None\<rparr>, sc)
      else
        let alive = (\<lambda>r. external_wait_alive r sc);
            return_ownership = (dead_reservations alive (lk_waiters lk) \<noteq> 0);
            lk = lk\<lparr>lk_waiters := live_waiters alive (lk_waiters lk)\<rparr>;
            lk = (if return_ownership then lk\<lparr>lk_handoff := False\<rparr> else lk);
            lk = (if lk_waiters lk = [] then lk\<lparr>lk_scheduler := None\<rparr> else lk)
        in if return_ownership then handoff_or_unlock flush (lk, sc) else Ok (lk, sc))"

definition lock_tidy ::
  "(lock, 'a sched_core_scheme) flush \<Rightarrow> lock \<times> 'a sched_core_scheme \<Rightarrow>
   (lock \<times> 'a sched_core_scheme) result" where
  "lock_tidy flush w = (if lk_scheduler (fst w) \<noteq> None then lock_cleanup flush w else Ok w)"

definition lock_is_locked ::
  "(lock, 'a sched_core_scheme) flush \<Rightarrow> lock \<times> 'a sched_core_scheme \<Rightarrow>
   (bool \<times> lock \<times> 'a sched_core_scheme) result" where
  "lock_is_locked flush w = result_bind (lock_tidy flush w) (\<lambda>w. Ok (lk_locked (fst w), w))"

definition lock_try_acquire ::
  "(lock, 'a sched_core_scheme) flush \<Rightarrow> lock \<times> 'a sched_core_scheme \<Rightarrow>
   (bool \<times> lock \<times> 'a sched_core_scheme) result" where
  "lock_try_acquire flush w =
     result_bind (lock_tidy flush w) (\<lambda>(lk, sc).
       if lk_locked lk then Ok (False, lk, sc) else Ok (True, lk\<lparr>lk_locked := True\<rparr>, sc))"

definition lock_suspend ::
  "(lock, 'a sched_core_scheme) flush \<Rightarrow> nat \<Rightarrow> nat \<Rightarrow> nat \<Rightarrow> lock \<times> 'a sched_core_scheme \<Rightarrow>
   (registration option \<times> lock \<times> 'a sched_core_scheme) result" where
  "lock_suspend flush sid handle i w =
     result_bind (lock_cleanup flush w) (\<lambda>(lk, sc).
       if \<not> lk_locked lk then Ok (None, lk\<lparr>lk_locked := True\<rparr>, sc)
       else result_bind (bind_scheduler ''Lock'' sid (lk_scheduler lk)) (\<lambda>s.
         result_bind (park_external handle i ReasonLock sc) (\<lambda>(reg, sc).
           Ok (Some reg, lk\<lparr>lk_scheduler := s, lk_waiters := lk_waiters lk @ [(reg, False)]\<rparr>, sc))))"

definition lock_finish_acquire ::
  "(lock, 'a sched_core_scheme) flush \<Rightarrow> registration option \<Rightarrow> lock \<times> 'a sched_core_scheme \<Rightarrow>
   (lock \<times> 'a sched_core_scheme) result" where
  "lock_finish_acquire flush registration w =
     (case registration of
        None \<Rightarrow> Ok w
      | Some reg \<Rightarrow>
          let (lk, sc) = w in
          (case find_waiter reg (lk_waiters lk) of
             Some (_, True) \<Rightarrow>
               if \<not> lk_handoff lk then Fail (Abort ''Lock waiter resumed without ownership'')
               else lock_cleanup flush
                 (lk\<lparr>lk_waiters := erase_waiter reg (lk_waiters lk), lk_handoff := False\<rparr>, sc)
           | _ \<Rightarrow> Fail (Abort ''Lock waiter resumed without ownership'')))"

definition lock_abandon ::
  "(lock, 'a sched_core_scheme) flush \<Rightarrow> registration \<Rightarrow> lock \<times> 'a sched_core_scheme \<Rightarrow>
   (lock \<times> 'a sched_core_scheme) result" where
  "lock_abandon flush reg w =
     (let (lk, sc) = w in
      case find_waiter reg (lk_waiters lk) of
        None \<Rightarrow> Ok w
      | Some (_, return_ownership) \<Rightarrow>
          let lk = lk\<lparr>lk_waiters := erase_waiter reg (lk_waiters lk)\<rparr>;
              lk = (if return_ownership then lk\<lparr>lk_handoff := False\<rparr> else lk)
          in result_bind (lock_cleanup flush (lk, sc)) (\<lambda>w.
               if return_ownership then handoff_or_unlock flush w else Ok w))"

definition lock_release ::
  "(lock, 'a sched_core_scheme) flush \<Rightarrow> lock \<times> 'a sched_core_scheme \<Rightarrow>
   (lock \<times> 'a sched_core_scheme) result" where
  "lock_release flush w =
     (let (lk, sc) = w in
      if lk_waiters lk = [] \<and> \<not> lk_handoff lk then
        if \<not> lk_locked lk then Fail (Abort ''cannot release an unlocked Lock'')
        else Ok (lk\<lparr>lk_locked := False, lk_scheduler := None\<rparr>, sc)
      else
        result_bind (lock_cleanup flush w) (\<lambda>(lk, sc).
          if \<not> lk_locked lk then Fail (Abort ''cannot release an unlocked Lock'')
          else if lk_handoff lk then
            Fail (Abort ''cannot release Lock while ownership handoff is pending'')
          else handoff_or_unlock flush (lk, sc)))"

definition lock_destroy ::
  "(lock, 'a sched_core_scheme) flush \<Rightarrow> lock \<times> 'a sched_core_scheme \<Rightarrow> unit result" where
  "lock_destroy flush w =
     result_bind (lock_cleanup flush w) (\<lambda>w.
       if lk_waiters (fst w) \<noteq> [] then Fail (Abort ''Lock destroyed with active waiters'')
       else Ok ())"

end
