(* ===== verification/SyncLemmas.thy ===== *)
theory SyncLemmas
  imports SyncPrimitives ProcessLemmas
begin

text \<open>
  What the loops of the synchronisation primitives do with any scheduler that keeps the contract
  of the locale \<open>wake_service\<close>, and the scheduler's own model as an instance of it.
\<close>

section \<open>The wake service\<close>

text \<open>
  What the primitives need of a scheduler: waking a registration succeeds exactly when its
  coroutine is still parked on it, uses it up, and changes neither anybody else's registration nor
  what is observed of a coroutine. A wake service observes who is alive.
\<close>

locale wake_observer =
  fixes ok :: "'s \<Rightarrow> bool" and alive :: "registration \<Rightarrow> 's \<Rightarrow> 'o" and valid :: "registration \<Rightarrow> 's \<Rightarrow> bool"
    and wake :: "registration \<Rightarrow> 's \<Rightarrow> (bool \<times> 's) result"
  assumes wake_total: "ok s \<Longrightarrow> \<exists>s'. wake r s = Inr (valid r s, s') \<and> ok s' \<and>
      (\<forall>q. alive q s' = alive q s) \<and> (\<forall>q. valid q s' \<longleftrightarrow> valid q s \<and> \<not> (valid r s \<and> reg_state q = reg_state r))"
begin

lemma wake_cases:
  assumes "ok s"
  obtains s' where "wake r s = Inr (valid r s, s')" "ok s'" "\<And>q. alive q s' = alive q s"
    "\<And>q. valid q s' \<longleftrightarrow> valid q s \<and> \<not> (valid r s \<and> reg_state q = reg_state r)"
  using wake_total [OF assms, of r] by blast

lemma wake_waiters_spec:
  assumes "ok s" and anti: "\<And>n. room (Suc n) \<Longrightarrow> room n"
  shows "\<exists>ws' n' tried s'. wake_waiters wake room ws n s = Inr (ws', n', tried, s') \<and> ok s' \<and>
    (\<forall>q. alive q s' = alive q s) \<and> (\<forall>q. valid q s' \<longrightarrow> valid q s) \<and>
    map fst ws' = map fst ws \<and> n \<le> n' \<and> (n < n' \<longrightarrow> room (n' - 1)) \<and>
    n' + length (filter snd ws) = n + length (filter snd ws') \<and>
    (room n' \<longrightarrow> (\<forall>w\<in>set ws'. \<not> snd w \<longrightarrow> \<not> valid (fst w) s')) \<and>
    (\<not> tried \<longrightarrow> ws' = ws \<and> n' = n \<and> s' = s)"
  using assms(1)
proof (induction ws arbitrary: n s)
  case Nil
  then show ?case by auto
next
  case (Cons w ws)
  obtain reg r where w: "w = (reg, r)" by (cases w)
  show ?case
  proof (cases "room n")
    case False
    then show ?thesis using Cons.prems by (auto simp: w)
  next
    case True
    show ?thesis
    proof (cases r)
      case True
      then show ?thesis using Cons.IH [OF Cons.prems, of n] \<open>room n\<close> by (force simp: w)
    next
      case False
      obtain s1 where 1: "wake reg s = Inr (valid reg s, s1)" "ok s1" "\<And>q. alive q s1 = alive q s"
        "\<And>q. valid q s1 \<longleftrightarrow> valid q s \<and> \<not> (valid reg s \<and> reg_state q = reg_state reg)"
        by (rule wake_cases [OF Cons.prems]) (rule that)
      let ?n = "if valid reg s then n + 1 else n"
      obtain ws' n' tried s' where 2: "wake_waiters wake room ws ?n s1 = Inr (ws', n', tried, s')" "ok s'"
        "\<forall>q. alive q s' = alive q s1" "\<forall>q. valid q s' \<longrightarrow> valid q s1" "map fst ws' = map fst ws" "?n \<le> n'"
        "?n < n' \<longrightarrow> room (n' - 1)" "n' + length (filter snd ws) = ?n + length (filter snd ws')"
        "room n' \<longrightarrow> (\<forall>w\<in>set ws'. \<not> snd w \<longrightarrow> \<not> valid (fst w) s')"
        using Cons.IH [OF 1(2), of ?n] by blast
      have "\<not> valid reg s \<Longrightarrow> \<not> valid reg s'" using 2(4) 1(4) by blast
      moreover have "n < n' \<longrightarrow> room (n' - 1)" using 2(6,7) \<open>room n\<close> by (cases "valid reg s"; cases "n' = n + 1") auto
      ultimately show ?thesis using 1 2 \<open>room n\<close> False
        by (cases "valid reg s") (auto simp: w)
    qed
  qed
qed

lemma give_permit_spec:
  "ok s \<Longrightarrow> p < max_u64 \<Longrightarrow>
   \<exists>ws' p' tried s'. give_permit wake ws p s = Inr (ws', p', tried, s') \<and> ok s' \<and>
    (\<forall>q. alive q s' = alive q s) \<and> (\<forall>q. valid q s' \<longrightarrow> valid q s) \<and>
    p' + length (filter snd ws') = p + length (filter snd ws) + 1 \<and>
    (p' = p \<or> p' = p + 1 \<and> (\<forall>w\<in>set ws'. snd w)) \<and> p' \<ge> p"
proof (induction ws arbitrary: s)
  case Nil
  then show ?case by auto
next
  case (Cons w ws)
  obtain reg r where w: "w = (reg, r)" by (cases w)
  show ?case
  proof (cases r)
    case True
    then show ?thesis using Cons.IH [OF Cons.prems] by (auto simp: w)
  next
    case False
    obtain s1 where 1: "wake reg s = Inr (valid reg s, s1)" "ok s1" "\<And>q. alive q s1 = alive q s"
      "\<And>q. valid q s1 \<longleftrightarrow> valid q s \<and> \<not> (valid reg s \<and> reg_state q = reg_state reg)"
      by (rule wake_cases [OF Cons.prems(1)]) (rule that)
    show ?thesis
    proof (cases "valid reg s")
      case True
      then show ?thesis using 1 False by (auto simp: w)
    next
      case invalid: False
      then show ?thesis using Cons.IH [OF 1(2) Cons.prems(2)] 1 False by (auto simp: w)
    qed
  qed
qed

lemma give_permit_reserved:
  "\<forall>w\<in>set ws. snd w \<Longrightarrow> give_permit wake ws p s = Inr (ws', p', tried, s') \<Longrightarrow> ws' = ws"
  by (induction ws arbitrary: ws' p' tried s') (auto simp: result_bind_Ok_iff split: if_splits)

lemma give_permits_reserved:
  "\<forall>w\<in>set ws. snd w \<Longrightarrow> give_permits wake n ws p s = Inr (ws', p', tried, s') \<Longrightarrow> ws' = ws"
proof (induction n arbitrary: ws p s tried)
  case (Suc n)
  then show ?case using give_permit_reserved [OF Suc.prems(1)] by (fastforce simp: result_bind_Ok_iff)
qed simp

lemma give_permits_spec:
  "ok s \<Longrightarrow> p + n \<le> max_u64 \<Longrightarrow>
   \<exists>ws' p' tried s'. give_permits wake n ws p s = Inr (ws', p', tried, s') \<and> ok s' \<and>
    (\<forall>q. alive q s' = alive q s) \<and> (\<forall>q. valid q s' \<longrightarrow> valid q s) \<and>
    p' + length (filter snd ws') = p + length (filter snd ws) + n \<and>
    p \<le> p' \<and> p' \<le> p + n \<and> (p < p' \<longrightarrow> (\<forall>w\<in>set ws'. snd w))"
proof (induction n arbitrary: ws p s)
  case 0
  then show ?case by auto
next
  case (Suc n)
  obtain ws1 p1 t1 s1 where 1: "give_permit wake ws p s = Inr (ws1, p1, t1, s1)" "ok s1"
    "\<forall>q. alive q s1 = alive q s" "\<forall>q. valid q s1 \<longrightarrow> valid q s"
    "p1 + length (filter snd ws1) = p + length (filter snd ws) + 1"
    "p1 = p \<or> p1 = p + 1 \<and> (\<forall>w\<in>set ws1. snd w)"
    using give_permit_spec [OF Suc.prems(1), of p ws] Suc.prems(2) by (auto simp: Suc_le_eq)
  have "p1 + n \<le> max_u64" using 1(6) Suc.prems(2) by auto
  then obtain ws2 p2 t2 s2 where 2: "give_permits wake n ws1 p1 s1 = Inr (ws2, p2, t2, s2)" "ok s2"
    "\<forall>q. alive q s2 = alive q s1" "\<forall>q. valid q s2 \<longrightarrow> valid q s1"
    "p2 + length (filter snd ws2) = p1 + length (filter snd ws1) + n" "p1 \<le> p2" "p2 \<le> p1 + n"
    "p1 < p2 \<longrightarrow> (\<forall>w\<in>set ws2. snd w)"
    using Suc.IH [OF 1(2), of p1 ws1] by blast
  have "p < p2 \<longrightarrow> (\<forall>w\<in>set ws2. snd w)"
  proof
    assume "p < p2"
    show "\<forall>w\<in>set ws2. snd w"
    proof (cases "p1 < p2")
      case False
      then have "p2 = p1" "p1 = p + 1" "\<forall>w\<in>set ws1. snd w" using 2(6) 1(6) \<open>p < p2\<close> by auto
      then show ?thesis using give_permits_reserved [OF _ 2(1)] by blast
    qed (use 2(8) in blast)
  qed
  then show ?case using 1 2 by (auto simp: 1(1) 2(1))
qed

lemma hand_over_spec:
  "ok s \<Longrightarrow> \<exists>ws' taken tried s'. hand_over wake ws s = Inr (ws', taken, tried, s') \<and> ok s' \<and>
    (\<forall>q. alive q s' = alive q s) \<and> (\<forall>q. valid q s' \<longrightarrow> valid q s) \<and>
    length (filter snd ws') = length (filter snd ws) + (if taken then 1 else 0) \<and>
    (taken \<longleftrightarrow> (\<exists>w\<in>set ws. \<not> snd w \<and> valid (fst w) s)) \<and> (taken \<longrightarrow> tried) \<and>
    (\<not> taken \<longrightarrow> ws' = filter snd ws)"
proof (induction ws arbitrary: s)
  case Nil
  then show ?case by auto
next
  case (Cons w ws)
  obtain reg r where w: "w = (reg, r)" by (cases w)
  show ?case
  proof (cases r)
    case True
    obtain ws' taken tried s' where "hand_over wake ws s = Inr (ws', taken, tried, s')" "ok s'"
      "\<forall>q. alive q s' = alive q s" "\<forall>q. valid q s' \<longrightarrow> valid q s"
      "length (filter snd ws') = length (filter snd ws) + (if taken then 1 else 0)"
      "taken \<longleftrightarrow> (\<exists>w\<in>set ws. \<not> snd w \<and> valid (fst w) s)" "taken \<longrightarrow> tried"
      "\<not> taken \<longrightarrow> ws' = filter snd ws"
      using Cons.IH [OF Cons.prems] by blast
    then show ?thesis using True
      by (intro exI [of _ "(reg, True) # ws'"] exI [of _ taken] exI [of _ tried] exI [of _ s']) (simp add: w)
  next
    case False
    obtain s1 where 1: "wake reg s = Inr (valid reg s, s1)" "ok s1" "\<And>q. alive q s1 = alive q s"
      "\<And>q. valid q s1 \<longleftrightarrow> valid q s \<and> \<not> (valid reg s \<and> reg_state q = reg_state reg)"
      by (rule wake_cases [OF Cons.prems]) (rule that)
    show ?thesis
    proof (cases "valid reg s")
      case True
      then show ?thesis using 1 False by (auto simp: w)
    next
      case invalid: False
      obtain ws' taken tried s' where "hand_over wake ws s1 = Inr (ws', taken, tried, s')" "ok s'"
        "\<forall>q. alive q s' = alive q s1" "\<forall>q. valid q s' \<longrightarrow> valid q s1"
        "length (filter snd ws') = length (filter snd ws) + (if taken then 1 else 0)"
        "taken \<longleftrightarrow> (\<exists>w\<in>set ws. \<not> snd w \<and> valid (fst w) s1)"
        "\<not> taken \<longrightarrow> ws' = filter snd ws"
        using Cons.IH [OF 1(2)] by blast
      then show ?thesis using 1 False invalid
        by (intro exI [of _ ws'] exI [of _ taken] exI [of _ True] exI [of _ s']) (simp add: w)
    qed
  qed
qed

end

locale wake_service = wake_observer ok alive valid wake
  for ok :: "'s \<Rightarrow> bool" and alive :: "registration \<Rightarrow> 's \<Rightarrow> bool" and valid :: "registration \<Rightarrow> 's \<Rightarrow> bool"
    and wake :: "registration \<Rightarrow> 's \<Rightarrow> (bool \<times> 's) result" +
  assumes valid_alive: "valid r s \<Longrightarrow> alive r s"

section \<open>The scheduler as a wake service\<close>

lemma resume_registration_alive:
  assumes "core_ok sc" "resume_registration reg sc = Inr (b, sc')"
  shows "external_wait_alive q sc' = external_wait_alive q sc"
proof (cases "registration_valid sc reg")
  case True
  note slot = valid_slot [OF assms(1) True]
  obtain ei where e: "end_wait (reg_state reg) sc = Inr (ended_core (reg_state reg) ei sc)"
    using end_wait_core [OF assms(1) slot(1,2)] by blast
  define sc1 where "sc1 = (case reg_winner reg of None \<Rightarrow> ended_core (reg_state reg) ei sc
    | Some slot \<Rightarrow> (ended_core (reg_state reg) ei sc)\<lparr>winners := (winners (ended_core (reg_state reg) ei sc))(slot := reg_index reg)\<rparr>)"
  have "sc' = make_ready (reg_state reg) sc1"
    using assms(2) True e by (auto simp: resume_registration_def sc1_def Let_def split: option.splits)
  moreover have "states sc1 = (states sc)[reg_state reg := ended (states sc ! reg_state reg)]"
    by (auto simp: sc1_def split: option.splits)
  ultimately have g: "cs_generation (states sc' ! j) = cs_generation (states sc ! j)" for j
    by (auto simp: make_ready_def upd_state_def nth_list_update')
  show ?thesis
    using resume_registration_slots(1) [OF assms] by (simp add: external_wait_alive_def Let_def slots_same_def g)
next
  case False
  then show ?thesis using assms(2) by (simp add: resume_registration_def)
qed

interpretation sched: wake_service core_ok external_wait_alive "\<lambda>r sc. registration_valid sc r" wake_external
proof
  show "registration_valid s r \<Longrightarrow> external_wait_alive r s" for r and s :: "'a sched_core_scheme"
    by (auto simp: registration_valid_def external_wait_alive_def Let_def split: if_splits)
next
  fix s :: "'a sched_core_scheme" and r
  assume ok: "core_ok s"
  obtain s' where r: "resume_registration r s = Inr (registration_valid s r, s')" "resumed_core r s s'"
    by (rule resume_registration_ok [OF ok])
  show "\<exists>s'. wake_external r s = Inr (registration_valid s r, s') \<and> core_ok s' \<and>
      (\<forall>q. external_wait_alive q s' = external_wait_alive q s) \<and>
      (\<forall>q. registration_valid s' q \<longleftrightarrow> registration_valid s q \<and> \<not> (registration_valid s r \<and> reg_state q = reg_state r))"
  proof (cases "registration_valid s r")
    case True
    then show ?thesis
      using r resume_registration_alive [OF ok r(1)] by (intro exI [of _ s']) (simp add: wake_external_def resumed_core_def)
  next
    case False
    then show ?thesis using ok by (simp add: wake_external_def)
  qed
qed

text \<open>Waking changes no handle either.\<close>

interpretation handles: wake_observer core_ok "\<lambda>r sc. cs_handle (states sc ! reg_state r)"
  "\<lambda>r sc. registration_valid sc r" wake_external
proof
  fix s :: "'a sched_core_scheme" and r
  assume ok: "core_ok s"
  obtain s' where w: "wake_external r s = Inr (registration_valid s r, s')" "core_ok s'"
    "\<forall>q. registration_valid s' q \<longleftrightarrow> registration_valid s q \<and> \<not> (registration_valid s r \<and> reg_state q = reg_state r)"
    using sched.wake_total [OF ok, of r] by blast
  have "cs_handle (states s' ! j) = cs_handle (states s ! j)" for j
    using w(1) resume_registration_slots(1) [OF ok]
    by (fastforce simp: wake_external_def slots_same_def split: if_splits)
  then show "\<exists>s'. wake_external r s = Inr (registration_valid s r, s') \<and> core_ok s' \<and>
      (\<forall>q. cs_handle (states s' ! reg_state q) = cs_handle (states s ! reg_state q)) \<and>
      (\<forall>q. registration_valid s' q \<longleftrightarrow> registration_valid s q \<and> \<not> (registration_valid s r \<and> reg_state q = reg_state r))"
    using w by blast
qed

end
