(* ===== verification/QueueProps.thy ===== *)
theory QueueProps
  imports SyncLemmas CancelLemmas SchedProps
begin

text \<open>
  The properties of \<open>Queue\<close>: its bookkeeping, its order and when waiters are woken.
\<close>

section \<open>Bookkeeping of waiters\<close>

abbreviation reserved_count :: "waiter list \<Rightarrow> nat" where
  "reserved_count ws \<equiv> length (filter snd ws)"

lemma live_dead_count: "reserved_count (live_waiters alive ws) + dead_reservations alive ws = reserved_count ws"
  by (induction ws) (auto simp: live_waiters_def dead_reservations_def)

lemma dec_size_times: "k \<le> n \<Longrightarrow> (dec_size ^^ k) n = n - k"
  by (induction k) (auto simp: dec_size_def)

lemma erase_count:
  "find_waiter reg ws = Some (r, b) \<Longrightarrow> reserved_count (erase_waiter reg ws) + (if b then 1 else 0) = reserved_count ws"
  by (induction ws) (auto split: if_splits)

lemma live_waiters_idem: "live_waiters a (live_waiters a ws) = live_waiters a ws"
  by (simp add: live_waiters_def)

lemma dead_live: "dead_reservations a (live_waiters a ws) = 0"
  by (auto simp: live_waiters_def dead_reservations_def filter_empty_conv)

section \<open>Queue\<close>

text \<open>The counters agree with the waiters, and promised items and slots exist.\<close>

definition queue_ok :: "'v queue \<times> 'a sched_core_scheme \<Rightarrow> bool" where
  "queue_ok w \<longleftrightarrow>
     (case w of (q, sc) \<Rightarrow>
        core_ok sc \<and> q_reserved_items q = reserved_count (q_gets q) \<and>
        q_reserved_items q \<le> length (q_items q) \<and>
        q_reserved_slots q = reserved_count (q_puts q) \<and>
        (q_maxsize q = 0 \<or> length (q_items q) + q_reserved_slots q \<le> q_maxsize q))"

lemma queue_cleanup_eq:
  assumes "q_reserved_items q = reserved_count (q_gets q)" "q_reserved_slots q = reserved_count (q_puts q)"
  shows "\<exists>s. queue_cleanup (q, sc) =
    (q\<lparr>q_gets := live_waiters (\<lambda>r. external_wait_alive r sc) (q_gets q),
       q_puts := live_waiters (\<lambda>r. external_wait_alive r sc) (q_puts q),
       q_reserved_items := reserved_count (live_waiters (\<lambda>r. external_wait_alive r sc) (q_gets q)),
       q_reserved_slots := reserved_count (live_waiters (\<lambda>r. external_wait_alive r sc) (q_puts q)),
       q_scheduler := s\<rparr>, sc)"
proof -
  let ?a = "\<lambda>r. external_wait_alive r sc"
  have d: "(dec_size ^^ dead_reservations ?a ws) (reserved_count ws) = reserved_count (live_waiters ?a ws)" for ws
    using live_dead_count [of ?a ws] dec_size_times [of "dead_reservations ?a ws" "reserved_count ws"] by linarith
  show ?thesis
    by (cases q; cases "live_waiters ?a (q_gets q) = [] \<and> live_waiters ?a (q_puts q) = []")
      (use assms d in \<open>auto simp: queue_cleanup_def Let_def\<close>)
qed

lemma queue_cleanup_ok:
  assumes "queue_ok (q, sc)"
  obtains q' where "queue_cleanup (q, sc) = (q', sc)" "queue_ok (q', sc)" "q_items q' = q_items q"
    "q_maxsize q' = q_maxsize q" "q_gets q' = live_waiters (\<lambda>r. external_wait_alive r sc) (q_gets q)"
    "q_puts q' = live_waiters (\<lambda>r. external_wait_alive r sc) (q_puts q)"
    "q_reserved_items q' \<le> q_reserved_items q" "q_reserved_slots q' \<le> q_reserved_slots q"
proof -
  let ?a = "\<lambda>r. external_wait_alive r sc"
  obtain s where e: "queue_cleanup (q, sc) =
    (q\<lparr>q_gets := live_waiters ?a (q_gets q), q_puts := live_waiters ?a (q_puts q),
       q_reserved_items := reserved_count (live_waiters ?a (q_gets q)),
       q_reserved_slots := reserved_count (live_waiters ?a (q_puts q)), q_scheduler := s\<rparr>, sc)"
    (is "_ = (?q, sc)")
    using queue_cleanup_eq [of q sc] assms by (auto simp: queue_ok_def)
  have "queue_ok (?q, sc)"
    using assms live_dead_count [of ?a "q_gets q"] live_dead_count [of ?a "q_puts q"]
    by (auto simp: queue_ok_def)
  then show ?thesis
    using assms live_dead_count [of ?a "q_gets q"] live_dead_count [of ?a "q_puts q"]
    by (intro that [OF e]) (auto simp: queue_ok_def)
qed

lemma wake_consumers_step:
  assumes "queue_ok w"
  obtains q' sc' tried where "wake_consumers flush w = (if tried then flush (q', sc') else Ok (q', sc'))"
    "queue_ok (q', sc')" "q_items q' = q_items (fst w)" "q_maxsize q' = q_maxsize (fst w)"
    "q_reserved_slots q' \<le> q_reserved_slots (fst w)"
    "has_unreserved_item q' \<longrightarrow> (\<forall>x\<in>set (q_gets q'). \<not> snd x \<longrightarrow> \<not> registration_valid sc' (fst x))"
proof -
  obtain q sc where w: "w = (q, sc)" by (cases w)
  obtain q1 where 1: "queue_cleanup (q, sc) = (q1, sc)" "queue_ok (q1, sc)" "q_items q1 = q_items q"
    "q_maxsize q1 = q_maxsize q" "q_reserved_slots q1 \<le> q_reserved_slots q"
    by (rule queue_cleanup_ok [of q sc]) (use assms w in auto)
  have ok: "core_ok sc" using 1(2) by (simp add: queue_ok_def)
  let ?room = "\<lambda>n. length (q_items q1) > n"
  obtain ws n tried sc' where 2: "wake_waiters wake_external ?room (q_gets q1) (q_reserved_items q1) sc = Inr (ws, n, tried, sc')"
    "core_ok sc'" "q_reserved_items q1 \<le> n" "q_reserved_items q1 < n \<longrightarrow> ?room (n - 1)"
    "n + reserved_count (q_gets q1) = q_reserved_items q1 + reserved_count ws"
    "?room n \<longrightarrow> (\<forall>w\<in>set ws. \<not> snd w \<longrightarrow> \<not> registration_valid sc' (fst w))"
    using sched.wake_waiters_spec [OF ok, of ?room "q_gets q1" "q_reserved_items q1"] by auto
  let ?q = "q1\<lparr>q_gets := ws, q_reserved_items := n\<rparr>"
  have "queue_ok (?q, sc')" using 1(2) 2 by (auto simp: queue_ok_def)
  then show ?thesis
    using 1 2 w by (intro that [of tried ?q sc']) (auto simp: wake_consumers_def Let_def has_unreserved_item_def)
qed

lemma unreserved_slot_frame [simp]:
  "has_unreserved_slot (q\<lparr>q_puts := ws\<rparr>) = has_unreserved_slot q"
  "has_unreserved_slot (q\<lparr>q_puts := ws, q_reserved_slots := n\<rparr>) = has_unreserved_slot (q\<lparr>q_reserved_slots := n\<rparr>)"
  by (simp_all add: has_unreserved_slot_def)

lemma wake_producers_step:
  assumes "queue_ok w"
  obtains q' sc' tried where "wake_producers flush w = (if tried then flush (q', sc') else Ok (q', sc'))"
    "queue_ok (q', sc')" "q_items q' = q_items (fst w)" "q_maxsize q' = q_maxsize (fst w)"
    "q_gets q' = live_waiters (\<lambda>r. external_wait_alive r (snd w)) (q_gets (fst w))"
    "\<And>r. registration_valid sc' r \<Longrightarrow> registration_valid (snd w) r"
    "has_unreserved_slot q' \<longrightarrow> (\<forall>x\<in>set (q_puts q'). \<not> snd x \<longrightarrow> \<not> registration_valid sc' (fst x))"
proof -
  obtain q sc where w: "w = (q, sc)" by (cases w)
  obtain q1 where 1: "queue_cleanup (q, sc) = (q1, sc)" "queue_ok (q1, sc)" "q_items q1 = q_items q"
    "q_maxsize q1 = q_maxsize q" "q_gets q1 = live_waiters (\<lambda>r. external_wait_alive r sc) (q_gets q)"
    by (rule queue_cleanup_ok [of q sc]) (use assms w in auto)
  have ok: "core_ok sc" using 1(2) by (simp add: queue_ok_def)
  let ?room = "\<lambda>n. has_unreserved_slot (q1\<lparr>q_reserved_slots := n\<rparr>)"
  have anti: "?room (Suc n) \<Longrightarrow> ?room n" for n by (auto simp: has_unreserved_slot_def)
  obtain ws n tried sc' where 2: "wake_waiters wake_external ?room (q_puts q1) (q_reserved_slots q1) sc = Inr (ws, n, tried, sc')"
    "core_ok sc'" "q_reserved_slots q1 \<le> n" "q_reserved_slots q1 < n \<longrightarrow> ?room (n - 1)"
    "n + reserved_count (q_puts q1) = q_reserved_slots q1 + reserved_count ws"
    "\<forall>q. registration_valid sc' q \<longrightarrow> registration_valid sc q"
    "?room n \<longrightarrow> (\<forall>w\<in>set ws. \<not> snd w \<longrightarrow> \<not> registration_valid sc' (fst w))"
    using sched.wake_waiters_spec [of sc ?room "q_puts q1" "q_reserved_slots q1"] ok anti by blast
  let ?q = "q1\<lparr>q_puts := ws, q_reserved_slots := n\<rparr>"
  have "queue_ok (?q, sc')" using 1(2) 2 by (auto simp: queue_ok_def has_unreserved_slot_def)
  then show ?thesis
    using 1 2 w by (intro that [of tried ?q sc']) (auto simp: wake_producers_def Let_def)
qed

text \<open>A flush that runs the woken coroutines and comes back to a well-formed queue.\<close>

definition flush_keeps :: "('w \<Rightarrow> bool) \<Rightarrow> ('w \<Rightarrow> 'w result) \<Rightarrow> bool" where
  "flush_keeps P flush \<longleftrightarrow> (\<forall>w. P w \<longrightarrow> (\<exists>w'. flush w = Inr w' \<and> P w'))"

lemma flush_keeps_Ok [simp]: "flush_keeps P Ok"
  by (simp add: flush_keeps_def)

lemma wake_consumers_keeps:
  "flush_keeps queue_ok flush \<Longrightarrow> queue_ok w \<Longrightarrow> \<exists>w'. wake_consumers flush w = Inr w' \<and> queue_ok w'"
  by (rule wake_consumers_step [of w flush]) (auto simp: flush_keeps_def split: if_splits)

lemma wake_producers_keeps:
  "flush_keeps queue_ok flush \<Longrightarrow> queue_ok w \<Longrightarrow> \<exists>w'. wake_producers flush w = Inr w' \<and> queue_ok w'"
  by (rule wake_producers_step [of w flush]) (auto simp: flush_keeps_def split: if_splits)

lemma take_unreserved_ok:
  assumes "queue_ok (q, sc)" "has_unreserved_item q"
  shows "queue_ok (snd (take_unreserved q), sc)"
  using assms by (auto simp: queue_ok_def take_unreserved_def has_unreserved_item_def)

lemma queue_ok_drop_get:
  assumes "queue_ok (q, sc)" "find_waiter reg (q_gets q) = Some (r, True)"
  shows "queue_ok (q\<lparr>q_items := tl (q_items q), q_reserved_items := dec_size (q_reserved_items q),
      q_gets := erase_waiter reg (q_gets q)\<rparr>, sc)"
    "q_items q \<noteq> []"
  using assms erase_count [OF assms(2)] by (auto simp: queue_ok_def dec_size_def)

lemma queue_ok_abandon_get:
  assumes "queue_ok (q, sc)" "find_waiter reg (q_gets q) = Some (r, b)"
  shows "queue_ok (q\<lparr>q_reserved_items := (if b then dec_size (q_reserved_items q) else q_reserved_items q),
      q_gets := erase_waiter reg (q_gets q)\<rparr>, sc)"
  using assms erase_count [OF assms(2)] by (auto simp: queue_ok_def dec_size_def)

lemma queue_ok_abandon_put:
  assumes "queue_ok (q, sc)" "find_waiter reg (q_puts q) = Some (r, b)"
  shows "queue_ok (q\<lparr>q_reserved_slots := (if b then dec_size (q_reserved_slots q) else q_reserved_slots q),
      q_puts := erase_waiter reg (q_puts q)\<rparr>, sc)"
  using assms erase_count [OF assms(2)] by (auto simp: queue_ok_def dec_size_def)

lemma queue_ok_append:
  "queue_ok (q, sc) \<Longrightarrow> has_unreserved_slot q \<Longrightarrow> queue_ok (q\<lparr>q_items := q_items q @ [v]\<rparr>, sc)"
  by (auto simp: queue_ok_def has_unreserved_slot_def)

lemma queue_ok_produced:
  assumes "queue_ok (q, sc)" "find_waiter reg (q_puts q) = Some (r, True)"
  shows "queue_ok (q\<lparr>q_reserved_slots := dec_size (q_reserved_slots q),
      q_puts := erase_waiter reg (q_puts q), q_items := q_items q @ [v]\<rparr>, sc)"
  using assms erase_count [OF assms(2)] by (auto simp: queue_ok_def dec_size_def)

lemma put_nowait_keeps:
  assumes f: "flush_keeps queue_ok flush" and ok: "queue_ok w"
  shows "\<exists>b w'. put_nowait flush v w = Inr (b, w') \<and> queue_ok w'"
proof -
  obtain q sc where w: "w = (q, sc)" by (cases w)
  obtain q1 where 1: "queue_cleanup (q, sc) = (q1, sc)" "queue_ok (q1, sc)"
    by (rule queue_cleanup_ok [of q sc]) (use ok w in auto)
  show ?thesis
  proof (cases "has_unreserved_slot q1")
    case True
    then show ?thesis
      using wake_consumers_keeps [OF f queue_ok_append [OF 1(2) True, of v]] 1(1) by (auto simp: put_nowait_def w Let_def)
  qed (use 1 in \<open>auto simp: put_nowait_def w\<close>)
qed

lemma get_nowait_keeps:
  assumes f: "flush_keeps queue_ok flush" and ok: "queue_ok w"
  shows "\<exists>v w'. get_nowait flush w = Inr (v, w') \<and> queue_ok w'"
proof -
  obtain q sc where w: "w = (q, sc)" by (cases w)
  obtain q1 where 1: "queue_cleanup (q, sc) = (q1, sc)" "queue_ok (q1, sc)"
    by (rule queue_cleanup_ok [of q sc]) (use ok w in auto)
  show ?thesis
  proof (cases "has_unreserved_item q1")
    case True
    obtain v q2 where t: "take_unreserved q1 = (v, q2)" by (cases "take_unreserved q1")
    have "queue_ok (q2, sc)" using take_unreserved_ok [OF 1(2) True] t by simp
    then show ?thesis using wake_producers_keeps [OF f] True 1(1) t by (fastforce simp: get_nowait_def w Let_def)
  qed (use 1 in \<open>auto simp: get_nowait_def w\<close>)
qed

lemma cleanup_keeps:
  assumes "queue_ok w"
  shows "queue_ok (queue_cleanup w)"
proof -
  obtain q sc where w: "w = (q, sc)" by (cases w)
  obtain q1 where "queue_cleanup (q, sc) = (q1, sc)" "queue_ok (q1, sc)"
    by (rule queue_cleanup_ok [of q sc]) (use assms w in auto)
  then show ?thesis using w by simp
qed

lemmas consumers_after_cleanup = wake_consumers_keeps [OF _ cleanup_keeps]
lemmas producers_after_cleanup = wake_producers_keeps [OF _ cleanup_keeps]

lemma consume_get_keeps:
  assumes f: "flush_keeps queue_ok flush" and ok: "queue_ok w"
    and r: "find_waiter reg (q_gets (fst w)) = Some (r, True)"
  shows "\<exists>w'. consume_get flush (Some reg) w = Inr (hd (q_items (fst w)), w') \<and> queue_ok w'"
proof -
  obtain q sc where w: "w = (q, sc)" by (cases w)
  have q: "find_waiter reg (q_gets q) = Some (r, True)" "queue_ok (q, sc)" using assms w by simp_all
  note d = queue_ok_drop_get [OF q(2,1)]
  let ?w = "(q\<lparr>q_items := tl (q_items q), q_reserved_items := dec_size (q_reserved_items q),
      q_gets := erase_waiter reg (q_gets q)\<rparr>, sc)"
  obtain w1 where 1: "wake_consumers flush (queue_cleanup ?w) = Inr w1" "queue_ok w1"
    using consumers_after_cleanup [OF f d(1)] by blast
  obtain w2 where 2: "wake_producers flush w1 = Inr w2" "queue_ok w2"
    using wake_producers_keeps [OF f 1(2)] by blast
  show ?thesis using 1 2 d(2) q by (cases w2) (auto simp: consume_get_def w Let_def neq_Nil_conv)
qed

lemma produce_keeps:
  assumes f: "flush_keeps queue_ok flush" and ok: "queue_ok w"
    and r: "find_waiter reg (q_puts (fst w)) = Some (r, True)"
  shows "\<exists>w'. produce flush (Some reg) v w = Inr w' \<and> queue_ok w'"
proof -
  obtain q sc where w: "w = (q, sc)" by (cases w)
  have q: "find_waiter reg (q_puts q) = Some (r, True)" "queue_ok (q, sc)" using assms w by simp_all
  show ?thesis
    using consumers_after_cleanup [OF f queue_ok_produced [OF q(2,1), of v]] q
    by (simp add: produce_def w)
qed

lemma abandon_keeps:
  assumes f: "flush_keeps queue_ok flush" and ok: "queue_ok w"
  shows "\<exists>w'. abandon_get flush reg w = Inr w' \<and> queue_ok w'"
    and "\<exists>w'. abandon_put flush reg w = Inr w' \<and> queue_ok w'"
proof -
  obtain q sc where w: "w = (q, sc)" by (cases w)
  have q: "queue_ok (q, sc)" using ok w by simp
  show "\<exists>w'. abandon_get flush reg w = Inr w' \<and> queue_ok w'"
  proof (cases "find_waiter reg (q_gets q)")
    case (Some p)
    then obtain r b where p: "find_waiter reg (q_gets q) = Some (r, b)" by (cases p) auto
    show ?thesis
      using consumers_after_cleanup [OF f queue_ok_abandon_get [OF q p]] by (simp add: abandon_get_def w p)
  qed (use q w in \<open>simp add: abandon_get_def\<close>)
  show "\<exists>w'. abandon_put flush reg w = Inr w' \<and> queue_ok w'"
  proof (cases "find_waiter reg (q_puts q)")
    case (Some p)
    then obtain r b where p: "find_waiter reg (q_puts q) = Some (r, b)" by (cases p) auto
    show ?thesis
      using producers_after_cleanup [OF f queue_ok_abandon_put [OF q p]] by (simp add: abandon_put_def w p)
  qed (use q w in \<open>simp add: abandon_put_def\<close>)
qed

lemma park_external_ok:
  assumes "core_ok sc" "i < length (states sc)" "cs_handle (states sc ! i) = Some h" "\<not> cs_done (states sc ! i)"
  shows "\<exists>sc' reg. park_external h i reason sc = Inr (reg, sc') \<and> core_ok sc' \<and> registration_valid sc' reg \<and>
    reg_state reg = i"
  by (rule begin_wait_ok [OF assms(1,2) _ assms(4), of reason])
    (use assms in \<open>auto simp: park_external_def state_for_def state_matches_def registration_valid_def Let_def\<close>)

lemma suspend_keeps:
  assumes ok: "queue_ok w" and i: "i < length (states (snd w))" "cs_handle (states (snd w) ! i) = Some h"
    "\<not> cs_done (states (snd w) ! i)" and b: "q_scheduler (fst w) \<in> {None, Some sid}"
  shows "\<exists>r w'. suspend_get sid h i w = Inr (r, w') \<and> queue_ok w'"
    and "\<exists>r w'. suspend_put sid h i w = Inr (r, w') \<and> queue_ok w'"
proof -
  obtain q sc where w: "w = (q, sc)" by (cases w)
  obtain q1 where 1: "queue_cleanup (q, sc) = (q1, sc)" "queue_ok (q1, sc)"
    by (rule queue_cleanup_ok [of q sc]) (use ok w in auto)
  have b1: "q_scheduler q1 \<in> {None, Some sid}" using 1(1) b w by (auto simp: queue_cleanup_def Let_def split: if_splits)
  have core: "core_ok sc" using 1(2) by (simp add: queue_ok_def)
  have p: "\<exists>sc' reg. park_external h i reason sc = Inr (reg, sc') \<and> core_ok sc'" for reason
    using park_external_ok [OF core, of i h reason] i w by auto
  have g: "queue_ok (q1\<lparr>q_scheduler := s, q_gets := q_gets q1 @ [(reg, False)]\<rparr>, sc')"
    "queue_ok (q1\<lparr>q_scheduler := s, q_puts := q_puts q1 @ [(reg, False)]\<rparr>, sc')" if "core_ok sc'" for s reg sc'
    using 1(2) that by (auto simp: queue_ok_def)
  show "\<exists>r w'. suspend_get sid h i w = Inr (r, w') \<and> queue_ok w'"
    using p [of ReasonQueueGet] g 1 b1 by (auto simp: suspend_get_def w bind_scheduler_def Let_def)
  show "\<exists>r w'. suspend_put sid h i w = Inr (r, w') \<and> queue_ok w'"
    using p [of ReasonQueuePut] g 1 b1 by (auto simp: suspend_put_def w bind_scheduler_def Let_def)
qed

text \<open>
  The promises that still count, those of waiters that are alive; an item that is free, and room for
  one.
\<close>

definition promised_items :: "'v queue \<times> 'a sched_core_scheme \<Rightarrow> nat" where
  "promised_items w = reserved_count (live_waiters (\<lambda>r. external_wait_alive r (snd w)) (q_gets (fst w)))"

definition promised_slots :: "'v queue \<times> 'a sched_core_scheme \<Rightarrow> nat" where
  "promised_slots w = reserved_count (live_waiters (\<lambda>r. external_wait_alive r (snd w)) (q_puts (fst w)))"

definition item_free :: "'v queue \<times> 'a sched_core_scheme \<Rightarrow> bool" where
  "item_free w \<longleftrightarrow> promised_items w < length (q_items (fst w))"

definition room_free :: "'v queue \<times> 'a sched_core_scheme \<Rightarrow> bool" where
  "room_free w \<longleftrightarrow> q_maxsize (fst w) = 0 \<or> length (q_items (fst w)) + promised_slots w < q_maxsize (fst w)"

lemma queue_cleanup_free:
  assumes "queue_ok w"
  shows "has_unreserved_item (fst (queue_cleanup w)) = item_free w"
    "has_unreserved_slot (fst (queue_cleanup w)) = room_free w"
    "q_items (fst (queue_cleanup w)) = q_items (fst w)"
    "q_reserved_items (fst (queue_cleanup w)) = promised_items w"
    "snd (queue_cleanup w) = snd w"
proof -
  obtain q sc where w: "w = (q, sc)" by (cases w)
  obtain q1 where 1: "queue_cleanup (q, sc) = (q1, sc)" "queue_ok (q1, sc)" "q_items q1 = q_items q"
    "q_maxsize q1 = q_maxsize q" "q_gets q1 = live_waiters (\<lambda>r. external_wait_alive r sc) (q_gets q)"
    "q_puts q1 = live_waiters (\<lambda>r. external_wait_alive r sc) (q_puts q)"
    by (rule queue_cleanup_ok [of q sc]) (use assms w in auto)
  then have r: "q_reserved_items q1 = promised_items w" "q_reserved_slots q1 = promised_slots w"
    by (simp_all add: queue_ok_def w promised_items_def promised_slots_def)
  show "has_unreserved_item (fst (queue_cleanup w)) = item_free w"
    "has_unreserved_slot (fst (queue_cleanup w)) = room_free w"
    "q_items (fst (queue_cleanup w)) = q_items (fst w)"
    "q_reserved_items (fst (queue_cleanup w)) = promised_items w"
    "snd (queue_cleanup w) = snd w"
    using 1 r by (simp_all add: w has_unreserved_item_def has_unreserved_slot_def item_free_def room_free_def)
qed

lemma cleanup_cases:
  assumes "queue_ok w"
  obtains q' where "queue_cleanup w = (q', snd w)" "queue_ok (q', snd w)" "has_unreserved_item q' = item_free w"
    "has_unreserved_slot q' = room_free w" "q_items q' = q_items (fst w)" "q_reserved_items q' = promised_items w"
  using that [of "fst (queue_cleanup w)"] queue_cleanup_free [OF assms] cleanup_keeps [OF assms]
  by (metis prod.collapse)

lemma nowait_result:
  assumes ok: "queue_ok w"
  shows "put_nowait flush v w = Inr (b, w1) \<Longrightarrow> b = room_free w"
    and "get_nowait flush w = Inr (u, w2) \<Longrightarrow> u \<noteq> None \<longleftrightarrow> item_free w"
  by (rule cleanup_cases [OF ok]; auto simp: put_nowait_def get_nowait_def Let_def result_bind_Ok_iff
      split: if_splits prod.splits)+

lemma suspend_result:
  assumes ok: "queue_ok w"
  shows "suspend_get sid h i w = Inr (r, w1) \<Longrightarrow> r = None \<longleftrightarrow> item_free w"
    and "suspend_put sid h i w = Inr (r, w2) \<Longrightarrow> r = None \<longleftrightarrow> room_free w"
  by (rule cleanup_cases [OF ok]; auto simp: suspend_get_def suspend_put_def Let_def result_bind_Ok_iff
      has_unreserved_item_def split: if_splits)+

lemma produce_at_once:
  assumes f: "flush_keeps queue_ok flush" and ok: "queue_ok w"
  shows "if room_free w then \<exists>w'. produce flush None v w = Inr w' \<and> queue_ok w'
    else produce flush None v w = Fail (Abort ''Queue producer resumed while full'')"
proof -
  obtain q where q: "queue_cleanup w = (q, snd w)" "queue_ok (q, snd w)" "has_unreserved_slot q = room_free w"
    by (rule cleanup_cases [OF ok]) (rule that)
  show ?thesis
    using consumers_after_cleanup [OF f queue_ok_append [OF q(2), of v]] q by (simp add: produce_def)
qed

lemma consume_at_once:
  assumes f: "flush_keeps queue_ok flush" and ok: "queue_ok w"
  shows "if item_free w then \<exists>w'. consume_get flush None w = Inr (q_items (fst w) ! promised_items w, w') \<and> queue_ok w'
    else consume_get flush None w = Fail (Abort ''Queue consumer resumed without an item'')"
proof -
  obtain q where q: "queue_cleanup w = (q, snd w)" "queue_ok (q, snd w)" "has_unreserved_item q = item_free w"
    "q_items q = q_items (fst w)" "q_reserved_items q = promised_items w"
    by (rule cleanup_cases [OF ok]) (rule that)
  obtain u q2 where t: "take_unreserved q = (u, q2)" by (cases "take_unreserved q")
  have "item_free w \<Longrightarrow> queue_ok (q2, snd w)" using take_unreserved_ok [OF q(2)] q(3) t by simp
  moreover have "u = q_items (fst w) ! promised_items w" using t q(4,5) by (simp add: take_unreserved_def)
  ultimately show ?thesis
    using wake_producers_keeps [OF f, of "(q2, snd w)"] q t
    by (auto simp: consume_get_def has_unreserved_item_def)
qed

text \<open>
  Property C11: no operation of a queue breaks its bookkeeping, whatever the coroutines
  it runs at the end do as long as they keep the bookkeeping too: the counters equal the number of
  waiters holding a promise, promised items are in the queue, and items and promised slots never
  exceed the size limit. An immediate operation succeeds, and an awaiting one does not park, exactly when an
  item is free or there is room, counting what living waiters are promised; an awaiting operation that
  finds none although it did not park aborts. A consumer or producer that was promised an item or a slot always gets it.
\<close>

theorem queue_operations_keep_bookkeeping:
  assumes "flush_keeps queue_ok flush" "queue_ok w"
  shows "(\<exists>w'. put_nowait flush v w = Inr (room_free w, w') \<and> queue_ok w') \<and>
    (\<exists>u w'. get_nowait flush w = Inr (u, w') \<and> queue_ok w' \<and> (u \<noteq> None \<longleftrightarrow> item_free w)) \<and>
    (\<exists>w'. abandon_get flush reg w = Inr w' \<and> queue_ok w') \<and>
    (\<exists>w'. abandon_put flush reg w = Inr w' \<and> queue_ok w') \<and>
    (\<forall>r. find_waiter reg (q_gets (fst w)) = Some (r, True) \<longrightarrow>
       (\<exists>w'. consume_get flush (Some reg) w = Inr (hd (q_items (fst w)), w') \<and> queue_ok w')) \<and>
    (\<forall>r. find_waiter reg (q_puts (fst w)) = Some (r, True) \<longrightarrow>
       (\<exists>w'. produce flush (Some reg) v w = Inr w' \<and> queue_ok w')) \<and>
    (if item_free w then \<exists>w'. consume_get flush None w = Inr (q_items (fst w) ! promised_items w, w') \<and> queue_ok w'
     else consume_get flush None w = Fail (Abort ''Queue consumer resumed without an item'')) \<and>
    (if room_free w then \<exists>w'. produce flush None v w = Inr w' \<and> queue_ok w'
     else produce flush None v w = Fail (Abort ''Queue producer resumed while full'')) \<and>
    (i < length (states (snd w)) \<and> cs_handle (states (snd w) ! i) = Some h \<and> \<not> cs_done (states (snd w) ! i) \<and>
     q_scheduler (fst w) \<in> {None, Some sid} \<longrightarrow>
       (\<exists>r w'. suspend_get sid h i w = Inr (r, w') \<and> queue_ok w' \<and> (r = None \<longleftrightarrow> item_free w)) \<and>
       (\<exists>r w'. suspend_put sid h i w = Inr (r, w') \<and> queue_ok w' \<and> (r = None \<longleftrightarrow> room_free w)))"
proof (intro conjI impI)
  show "\<exists>w'. put_nowait flush v w = Inr (room_free w, w') \<and> queue_ok w'"
  proof -
    obtain b w' where p: "put_nowait flush v w = Inr (b, w')" "queue_ok w'" using put_nowait_keeps [OF assms] by blast
    from nowait_result(1) [OF assms(2) p(1)] p show ?thesis by simp
  qed
  show "\<exists>u w'. get_nowait flush w = Inr (u, w') \<and> queue_ok w' \<and> (u \<noteq> None \<longleftrightarrow> item_free w)"
  proof -
    obtain u w' where p: "get_nowait flush w = Inr (u, w')" "queue_ok w'" using get_nowait_keeps [OF assms] by blast
    from nowait_result(2) [OF assms(2) p(1)] p show ?thesis by simp
  qed
  assume "i < length (states (snd w)) \<and> cs_handle (states (snd w) ! i) = Some h \<and> \<not> cs_done (states (snd w) ! i) \<and>
     q_scheduler (fst w) \<in> {None, Some sid}"
  then have i: "i < length (states (snd w))" "cs_handle (states (snd w) ! i) = Some h" "\<not> cs_done (states (snd w) ! i)"
    "q_scheduler (fst w) \<in> {None, Some sid}" by blast+
  show "\<exists>r w'. suspend_get sid h i w = Inr (r, w') \<and> queue_ok w' \<and> (r = None \<longleftrightarrow> item_free w)"
    using suspend_keeps(1) [OF assms(2) i] suspend_result(1) [OF assms(2)] by blast
  show "\<exists>r w'. suspend_put sid h i w = Inr (r, w') \<and> queue_ok w' \<and> (r = None \<longleftrightarrow> room_free w)"
    using suspend_keeps(2) [OF assms(2) i] suspend_result(2) [OF assms(2)] by blast
qed (use abandon_keeps [OF assms] consume_get_keeps [OF assms] produce_keeps [OF assms]
    consume_at_once [OF assms] produce_at_once [OF assms] in blast)+

section \<open>What a queue delivers\<close>

definition getters_served :: "'v queue \<times> 'a sched_core_scheme \<Rightarrow> bool" where
  "getters_served w \<longleftrightarrow> (has_unreserved_item (fst w) \<longrightarrow>
     (\<forall>x\<in>set (q_gets (fst w)). \<not> snd x \<longrightarrow> \<not> registration_valid (snd w) (fst x)))"

definition putters_served :: "'v queue \<times> 'a sched_core_scheme \<Rightarrow> bool" where
  "putters_served w \<longleftrightarrow> (has_unreserved_slot (fst w) \<longrightarrow>
     (\<forall>x\<in>set (q_puts (fst w)). \<not> snd x \<longrightarrow> \<not> registration_valid (snd w) (fst x)))"

lemma wake_consumers_inline:
  assumes "queue_ok w" "wake_consumers Ok w = Inr w'"
  shows "queue_ok w' \<and> q_items (fst w') = q_items (fst w) \<and> getters_served w'"
  by (rule wake_consumers_step [OF assms(1), of Ok]) (use assms(2) in \<open>auto simp: getters_served_def split: if_splits\<close>)

lemma wake_producers_inline:
  assumes "queue_ok w" "wake_producers Ok w = Inr w'"
  shows "queue_ok w' \<and> q_items (fst w') = q_items (fst w) \<and> putters_served w'"
  by (rule wake_producers_step [OF assms(1), of Ok]) (use assms(2) in \<open>auto simp: putters_served_def split: if_splits\<close>)

lemma cleanup_items: "q_items (fst (queue_cleanup w)) = q_items (fst w)"
  by (cases w) (auto simp: queue_cleanup_def Let_def)

lemma put_nowait_delivers:
  assumes "queue_ok w" "put_nowait Ok v w = Inr (b, w')"
  shows "if b then q_items (fst w') = q_items (fst w) @ [v] \<and> getters_served w'
    else q_items (fst w') = q_items (fst w)"
proof -
  obtain q1 sc1 where c: "queue_cleanup w = (q1, sc1)" by (cases "queue_cleanup w")
  have ok: "queue_ok (q1, sc1)" using cleanup_keeps [OF assms(1)] c by simp
  have i: "q_items q1 = q_items (fst w)" using cleanup_items [of w] c by simp
  show ?thesis
  proof (cases "has_unreserved_slot q1")
    case True
    then obtain w1 where "wake_consumers Ok (q1\<lparr>q_items := q_items q1 @ [v]\<rparr>, sc1) = Inr w1" "b" "w' = w1"
      using assms(2) c by (auto simp: put_nowait_def Let_def result_bind_Ok_iff)
    then show ?thesis using wake_consumers_inline [OF queue_ok_append [OF ok True, of v]] i by simp
  next
    case False
    then show ?thesis using assms(2) c by (auto simp: put_nowait_def cleanup_items)
  qed
qed

lemma consume_get_delivers:
  assumes "queue_ok w" "consume_get Ok (Some reg) w = Inr (v, w')"
  shows "q_items (fst w) \<noteq> [] \<and> v = hd (q_items (fst w)) \<and> q_items (fst w') = tl (q_items (fst w)) \<and> putters_served w'"
proof -
  obtain q sc where w: "w = (q, sc)" by (cases w)
  obtain r items where q: "find_waiter reg (q_gets q) = Some (r, True)" "q_items q = v # items"
    using assms(2) w by (auto simp: consume_get_def Let_def result_bind_Ok_iff split: option.splits bool.splits list.splits)
  have ok: "queue_ok (q, sc)" using assms(1) w by simp
  let ?w = "(q\<lparr>q_items := tl (q_items q), q_reserved_items := dec_size (q_reserved_items q),
      q_gets := erase_waiter reg (q_gets q)\<rparr>, sc)"
  obtain w1 where 1: "wake_consumers Ok (queue_cleanup ?w) = Inr w1" "wake_producers Ok w1 = Inr w'"
    using assms(2) q by (auto simp: consume_get_def w Let_def result_bind_Ok_iff)
  have w1: "queue_ok w1 \<and> q_items (fst w1) = items"
    using wake_consumers_inline [OF cleanup_keeps [OF queue_ok_drop_get(1) [OF ok q(1)]] 1(1)] q(2)
    by (simp add: cleanup_items)
  then show ?thesis using wake_producers_inline [OF _ 1(2)] q(2) w by simp
qed

lemma produce_delivers:
  assumes "queue_ok w" "produce Ok r v w = Inr w'"
  shows "q_items (fst w') = q_items (fst w) @ [v] \<and> getters_served w'"
proof (cases r)
  case (Some reg)
  obtain q sc where w: "w = (q, sc)" by (cases w)
  have ok: "queue_ok (q, sc)" using assms(1) w by simp
  obtain r' where q: "find_waiter reg (q_puts q) = Some (r', True)"
    using assms(2) w Some by (auto simp: produce_def Let_def split: option.splits bool.splits)
  show ?thesis
    using wake_consumers_inline [OF cleanup_keeps [OF queue_ok_produced [OF ok q, of v]]] assms(2) q Some
    by (simp add: produce_def w cleanup_items)
next
  case None
  obtain q where q: "queue_cleanup w = (q, snd w)" "queue_ok (q, snd w)" "q_items q = q_items (fst w)"
    by (rule cleanup_cases [OF assms(1)]) (rule that)
  then have "has_unreserved_slot q" "wake_consumers Ok (queue_cleanup (q\<lparr>q_items := q_items q @ [v]\<rparr>, snd w)) = Inr w'"
    using assms(2) None by (auto simp: produce_def Let_def result_bind_Ok_iff split: if_splits)
  then show ?thesis
    using wake_consumers_inline [OF cleanup_keeps [OF queue_ok_append [OF q(2), of v]]] q(3) by (simp add: cleanup_items)
qed

lemma take_at_once_delivers:
  assumes ok: "queue_ok w" and t: "get_nowait Ok w = Inr (Some u, w') \<or> consume_get Ok None w = Inr (u, w')"
  shows "promised_items w < length (q_items (fst w)) \<and> u = q_items (fst w) ! promised_items w \<and>
    q_items (fst w') = take (promised_items w) (q_items (fst w)) @ drop (promised_items w + 1) (q_items (fst w)) \<and>
    putters_served w'"
proof -
  obtain q where q: "queue_cleanup w = (q, snd w)" "queue_ok (q, snd w)" "q_items q = q_items (fst w)"
    "q_reserved_items q = promised_items w"
    by (rule cleanup_cases [OF ok]) (rule that)
  obtain x q2 where x: "take_unreserved q = (x, q2)" by (cases "take_unreserved q")
  have u: "has_unreserved_item q" "wake_producers Ok (q2, snd w) = Inr w'" "u = x"
    using t q(1) x by (auto simp: get_nowait_def consume_get_def has_unreserved_item_def result_bind_Ok_iff split: if_splits)
  have "queue_ok (q2, snd w)" using take_unreserved_ok [OF q(2) u(1)] x by simp
  then show ?thesis
    using wake_producers_inline [OF _ u(2)] u x q by (auto simp: take_unreserved_def has_unreserved_item_def)
qed

text \<open>Operations that move no item.\<close>

lemma items_stay:
  assumes ok: "queue_ok w"
  shows "put_nowait Ok v w = Inr (False, w') \<Longrightarrow> q_items (fst w') = q_items (fst w)"
    and "get_nowait Ok w = Inr (None, w') \<Longrightarrow> q_items (fst w') = q_items (fst w)"
    and "suspend_get sid h i w = Inr (r, w') \<Longrightarrow> q_items (fst w') = q_items (fst w)"
    and "suspend_put sid h i w = Inr (r, w') \<Longrightarrow> q_items (fst w') = q_items (fst w)"
    and "abandon_get Ok reg w = Inr w' \<Longrightarrow> q_items (fst w') = q_items (fst w)"
    and "abandon_put Ok reg w = Inr w' \<Longrightarrow> q_items (fst w') = q_items (fst w)"
proof -
  obtain q sc where w: "w = (q, sc)" by (cases w)
  have okq: "queue_ok (q, sc)" using ok w by simp
  obtain q1 where c: "queue_cleanup w = (q1, sc)" "q_items q1 = q_items q"
    by (rule cleanup_cases [OF ok]) (use w in auto)
  show "put_nowait Ok v w = Inr (False, w') \<Longrightarrow> q_items (fst w') = q_items (fst w)"
    "get_nowait Ok w = Inr (None, w') \<Longrightarrow> q_items (fst w') = q_items (fst w)"
    "suspend_get sid h i w = Inr (r, w') \<Longrightarrow> q_items (fst w') = q_items (fst w)"
    "suspend_put sid h i w = Inr (r, w') \<Longrightarrow> q_items (fst w') = q_items (fst w)"
    using c by (auto simp: w put_nowait_def get_nowait_def suspend_get_def suspend_put_def Let_def result_bind_Ok_iff
        cleanup_items split: if_splits prod.splits)
  show "q_items (fst w') = q_items (fst w)" if "abandon_get Ok reg w = Inr w'"
  proof (cases "find_waiter reg (q_gets q)")
    case (Some p)
    obtain x b where "p = (x, b)" by (cases p)
    then show ?thesis
      using wake_consumers_inline [OF cleanup_keeps [OF queue_ok_abandon_get [OF okq]]] that Some
      by (fastforce simp: abandon_get_def w cleanup_items)
  qed (use that w in \<open>simp add: abandon_get_def\<close>)
  show "q_items (fst w') = q_items (fst w)" if "abandon_put Ok reg w = Inr w'"
  proof (cases "find_waiter reg (q_puts q)")
    case (Some p)
    obtain x b where "p = (x, b)" by (cases p)
    then show ?thesis
      using wake_producers_inline [OF cleanup_keeps [OF queue_ok_abandon_put [OF okq]]] that Some
      by (fastforce simp: abandon_put_def w cleanup_items)
  qed (use that w in \<open>simp add: abandon_put_def\<close>)
qed

text \<open>
  Property C4: called from a coroutine, a queue is first in first out. A put,
  whether it waited or not, appends its value; a consumer that waited takes the oldest item, and a get
  that did not wait the oldest one not promised to a waiter; refused operations, parking and
  abandoned waits move no item. A put leaves no parked consumer without a promise while an
  unpromised item exists, and a get no parked producer while a slot is free. (Operations that
  only look at the queue do not restore this when a promised waiter has died.)
\<close>

theorem queue_is_fifo:
  assumes "queue_ok w"
  shows "(put_nowait Ok v w = Inr (True, w1) \<longrightarrow> q_items (fst w1) = q_items (fst w) @ [v] \<and> getters_served w1) \<and>
    (produce Ok r v w = Inr w1 \<longrightarrow> q_items (fst w1) = q_items (fst w) @ [v] \<and> getters_served w1) \<and>
    (consume_get Ok (Some reg) w = Inr (u, w1) \<longrightarrow>
       q_items (fst w) = u # q_items (fst w1) \<and> putters_served w1) \<and>
    (get_nowait Ok w = Inr (Some u, w1) \<or> consume_get Ok None w = Inr (u, w1) \<longrightarrow>
       (let k = promised_items w
        in k < length (q_items (fst w)) \<and> u = q_items (fst w) ! k \<and>
           q_items (fst w1) = take k (q_items (fst w)) @ drop (k + 1) (q_items (fst w))) \<and>
       putters_served w1) \<and>
    (put_nowait Ok v w = Inr (False, w1) \<or> get_nowait Ok w = Inr (None, w1) \<or>
     suspend_get sid h i w = Inr (s, w1) \<or> suspend_put sid h i w = Inr (s, w1) \<or>
     abandon_get Ok reg w = Inr w1 \<or> abandon_put Ok reg w = Inr w1 \<longrightarrow> q_items (fst w1) = q_items (fst w))"
proof (intro conjI impI)
  assume "put_nowait Ok v w = Inr (True, w1)"
  from put_nowait_delivers [OF assms this]
  show "q_items (fst w1) = q_items (fst w) @ [v]" "getters_served w1" by simp_all
next
  assume "produce Ok r v w = Inr w1"
  from produce_delivers [OF assms this]
  show "q_items (fst w1) = q_items (fst w) @ [v]" "getters_served w1" by simp_all
next
  assume "consume_get Ok (Some reg) w = Inr (u, w1)"
  from consume_get_delivers [OF assms this]
  show "q_items (fst w) = u # q_items (fst w1)" "putters_served w1" by simp_all
next
  assume "get_nowait Ok w = Inr (Some u, w1) \<or> consume_get Ok None w = Inr (u, w1)"
  note g = take_at_once_delivers [OF assms this]
  then show "let k = promised_items w
      in k < length (q_items (fst w)) \<and> u = q_items (fst w) ! k \<and>
         q_items (fst w1) = take k (q_items (fst w)) @ drop (k + 1) (q_items (fst w))"
    by (simp add: Let_def)
  show "putters_served w1" using g by blast
qed (use items_stay [OF assms] in blast)

section \<open>A lost wake-up\<close>

lemma find_waiter_mem: "find_waiter reg ws = Some p \<Longrightarrow> p \<in> set ws \<and> same_wait (fst p) reg"
  by (induction ws) (auto split: if_splits)

lemma find_waiter_none: "(\<forall>p\<in>set ws. \<not> same_wait (fst p) reg) \<Longrightarrow> find_waiter reg ws = None"
  by (induction ws) auto

lemma alive_same_wait: "same_wait a b \<Longrightarrow> external_wait_alive a sc = external_wait_alive b sc"
  by (simp add: same_wait_def external_wait_alive_def)

text \<open>
  Property C40: a queue can lose a wake-up. When a consumer that was promised an item dies, by
  being cancelled before it runs, while another one still waits, then any look at the queue (its size,
  whether it is full, whether a get or put would be immediate) takes the promise back without passing it on: the item
  is free, the other consumer stays parked, and the dead consumer's own awaiter, when it is destroyed, finds nothing
  to give back. When nobody looks in between, the awaiter passes the promise on.
\<close>

theorem queue_can_lose_wakeup:
  assumes "queue_ok (q, sc)" "find_waiter reg (q_gets q) = Some (r, True)" "\<not> external_wait_alive r sc"
    and "(other, False) \<in> set (q_gets q)" "registration_valid sc other"
    and "w \<in> {snd (queue_size (q, sc)), snd (queue_full (q, sc)), snd (get_ready (q, sc)), snd (put_ready (q, sc))}"
  shows "abandon_get Ok reg w = Inr w \<and> item_free w \<and> (other, False) \<in> set (q_gets (fst w)) \<and>
      registration_valid (snd w) other \<and> \<not> getters_served w \<and>
    (\<exists>w'. abandon_get Ok reg (q, sc) = Inr w' \<and> getters_served w')"
proof -
  let ?a = "\<lambda>r. external_wait_alive r sc"
  have w: "w = queue_cleanup (q, sc)" using assms(6) by (auto simp: queue_size_def queue_full_def get_ready_def put_ready_def Let_def)
  obtain q' where q': "queue_cleanup (q, sc) = (q', sc)" "queue_ok (q', sc)" "q_items q' = q_items q"
    "q_gets q' = live_waiters ?a (q_gets q)"
    by (rule queue_cleanup_ok [OF assms(1)]) (rule that)
  have r: "(r, True) \<in> set (q_gets q)" "same_wait r reg" using find_waiter_mem [OF assms(2)] by simp_all
  have dead: "\<not> external_wait_alive reg sc" using assms(3) alive_same_wait [OF r(2), of sc] by simp
  have "find_waiter reg (q_gets q') = None"
    by (rule find_waiter_none) (use dead alive_same_wait in \<open>auto simp: q'(4) live_waiters_def\<close>)
  then have a: "abandon_get Ok reg w = Inr w" by (simp add: abandon_get_def w q'(1))
  have m: "(r, True) \<in> set (filter (\<lambda>x. \<not> ?a (fst x) \<and> snd x) (q_gets q))" using r(1) assms(3) by simp
  then have "0 < dead_reservations ?a (q_gets q)" using length_pos_if_in_set [OF m] by (simp add: dead_reservations_def)
  then have "reserved_count (live_waiters ?a (q_gets q)) < reserved_count (q_gets q)"
    using live_dead_count [of ?a "q_gets q"] by linarith
  then have i: "has_unreserved_item q'"
    using q'(2-4) assms(1) by (simp add: queue_ok_def has_unreserved_item_def)
  have "external_wait_alive other sc" using assms(5)
    by (auto simp: registration_valid_def external_wait_alive_def Let_def split: if_splits)
  then have o: "(other, False) \<in> set (q_gets q')" using assms(4) by (simp add: q'(4) live_waiters_def)
  have f: "item_free w" using queue_cleanup_free(1) [OF q'(2)] i q' assms(1)
    by (simp add: w item_free_def promised_items_def live_waiters_idem) (simp add: queue_ok_def has_unreserved_item_def)
  have "\<not> getters_served w" using i o assms(5) by (auto simp: getters_served_def w q'(1) intro!: bexI [of _ "(other, False)"])
  moreover have "\<exists>w'. abandon_get Ok reg (q, sc) = Inr w' \<and> getters_served w'"
  proof -
    let ?w = "(q\<lparr>q_reserved_items := dec_size (q_reserved_items q), q_gets := erase_waiter reg (q_gets q)\<rparr>, sc)"
    have ok: "queue_ok ?w" using queue_ok_abandon_get [OF assms(1,2)] by simp
    obtain w' where "wake_consumers Ok (queue_cleanup ?w) = Inr w'" using consumers_after_cleanup [OF flush_keeps_Ok ok] by blast
    then show ?thesis using wake_consumers_inline [OF cleanup_keeps [OF ok]] assms(2) by (simp add: abandon_get_def)
  qed
  ultimately show ?thesis using a f o assms(5) by (simp add: w q'(1))
qed

lemmas sync_evaluation = result_bind.simps scheduler_init_def adopt_state_def suspend_get_def 
  queue_init_def queue_cleanup_def put_nowait_def wake_consumers_def live_waiters_def dead_reservations_def
   bind_scheduler_def park_external_def state_for_def state_matches_def begin_wait_def end_wait_def clear_ready_def
   upd_state_def upd_diag_def grow_def external_wait_alive_def has_unreserved_slot_def wake_external_def
   registration_valid_def resume_registration_def make_ready_def coroutine_state_init_def edge_interest_init_def
    has_unreserved_item_def remove_edge_interests_def

text \<open>
  The situation arises: two coroutines wait for an item of an empty queue, one item is put, and the
  first one, which was promised it, is cancelled before it runs.
\<close>

definition waiting_consumers :: "(nat queue \<times> sched) result" where
  "waiting_consumers =
     result_bind (scheduler_init 1) (\<lambda>core.
       let (i, sc) = adopt 1 (sched_init core); (j, sc) = adopt 2 sc in
       result_bind (suspend_get 0 1 i (queue_init 0, sc)) (\<lambda>(_, w).
       result_bind (suspend_get 0 2 j w) (\<lambda>(_, w). Ok w)))"

definition cancelled_consumer :: "(nat queue \<times> sched) result" where
  "cancelled_consumer =
     result_bind waiting_consumers (\<lambda>w.
     result_bind (put_nowait Ok 7 w) (\<lambda>(_, q, sc).
       case cancel_state 1 0 sc of
         None \<Rightarrow> Fail (Abort ''out of fuel'')
       | Some r \<Rightarrow> result_bind r (\<lambda>sc. Ok (q, sc))))"

lemmas consumer_evaluation = waiting_consumers_def cancelled_consumer_def sync_evaluation adopt_def sched_init_def
  upd_promise_def children_of_def cancel_self_def promise_init_def lookup_or_def sched.defs sched_core.defs
  mark_cancelled_def same_wait_def dec_size_def Let_def upt_rec

lemma suspend_get_success:
  assumes "suspend_get sid h i w = Inr (r, w')" "queue_ok w" "\<not> cs_done (states (snd w) ! i)"
  shows "queue_ok w'"
proof -
  obtain q where q: "queue_cleanup w = (q, snd w)" "queue_ok (q, snd w)" by (rule cleanup_cases [OF assms(2)]) (rule that)
  have "core_ok sc2" if "park_external h i ReasonQueueGet (snd w) = Inr (reg, sc2)" for reg sc2
  proof -
    have "i < length (states (snd w))" "cs_handle (states (snd w) ! i) = Some h"
      using that by (auto simp: park_external_def state_for_def state_matches_def split: if_splits)
    then show ?thesis using park_external_ok [of "snd w" i h ReasonQueueGet] assms(3) q(2) that by (auto simp: queue_ok_def)
  qed
  then show ?thesis using assms(1) q by (auto simp: suspend_get_def queue_ok_def result_bind_Ok_iff split: if_splits)
qed

definition consumer_reg :: "nat \<Rightarrow> nat \<Rightarrow> registration" where
  "consumer_reg i g = \<lparr>reg_state = i, reg_generation = g, reg_winner = None, reg_index = 0\<rparr>"

lemma cancelled_consumer_state:
  "case cancelled_consumer of Inl e \<Rightarrow> False | Inr (q, sc) \<Rightarrow>
     q_gets q = [(consumer_reg 0 1, True), (consumer_reg 1 2, False)] \<and>
     \<not> external_wait_alive (consumer_reg 0 1) sc \<and>
     registration_valid sc (consumer_reg 1 2)"
  by (simp add: consumer_evaluation consumer_reg_def cong: result_bind_cong)

lemma first_consumer_waits:
  "case result_bind (scheduler_init 1) (\<lambda>core.
       let (i, sc) = adopt 1 (sched_init core); (j, sc) = adopt 2 sc in
       result_bind (suspend_get 0 1 i (queue_init 0 :: nat queue, sc)) (\<lambda>(_, w). Ok (sc, i, j, w)))
   of Inl e \<Rightarrow> False | Inr (sc, i, j, w) \<Rightarrow> \<not> cs_done (states sc ! i) \<and> \<not> cs_done (states (snd w) ! j)"
  by (simp add: consumer_evaluation cong: result_bind_cong)

lemma waiting_consumers_ok:
  assumes "waiting_consumers = Inr w"
  shows "queue_ok w"
proof -
  obtain core :: sched_core where core: "scheduler_init 1 = Inr core"
    by (auto simp: scheduler_init_def)
  have "sched_core.truncate (sched_init core) = sched_core.truncate core"
    by (simp add: sched_init_def sched_core.defs)
  then have ok: "core_ok (sched_init core)" using scheduler_init_ok [OF core] core_ok_ext core_ok_truncate
    by (metis core_ok_truncate)
  obtain i sc where 1: "adopt 1 (sched_init core) = (i, sc)" by (cases "adopt 1 (sched_init core)")
  obtain j sc' where 2: "adopt 2 sc = (j, sc')" by (cases "adopt 2 sc")
  have ok2: "queue_ok (queue_init 0 :: nat queue, sc')"
    using adopt_process_ok(1) [OF adopt_process_ok(1) [OF ok 1] 2] by (simp add: queue_ok_def queue_init_def)
  obtain r s w1 where 3: "suspend_get 0 1 i (queue_init 0, sc') = Inr (r, w1)" "suspend_get 0 2 j w1 = Inr (s, w)"
    using assms core 1 2 by (auto simp: waiting_consumers_def result_bind_Ok_iff)
  have d: "\<not> cs_done (states sc' ! i)" "\<not> cs_done (states (snd w1) ! j)"
    using first_consumer_waits core 1 2 3(1) by simp_all
  have "queue_ok w1" by (rule suspend_get_success [OF 3(1) ok2]) (use d in simp)
  then show ?thesis by (rule suspend_get_success [OF 3(2)]) (use d in simp)
qed

lemma cancelled_consumer_ok:
  assumes "cancelled_consumer = Inr w"
  shows "queue_ok w"
proof -
  obtain w1 b q sc sc' where 1: "waiting_consumers = Inr w1" "put_nowait Ok 7 w1 = Inr (b, q, sc)"
    "cancel_state 1 0 sc = Some (Inr sc')" "w = (q, sc')"
    using assms by (auto simp: cancelled_consumer_def result_bind_Ok_iff simp del: cancel_state.simps split: option.splits)
  have "queue_ok (q, sc)" using put_nowait_keeps [OF flush_keeps_Ok waiting_consumers_ok [OF 1(1)], of 7] 1(2) by auto
  moreover have "core_ok sc'" using cancel_state_keeps(1) [OF _ 1(3)] calculation by (simp add: queue_ok_def)
  ultimately show ?thesis by (auto simp: queue_ok_def 1(4))
qed

lemma queue_can_lose_wakeup_witness:
  "\<exists>w. cancelled_consumer = Inr w \<and> \<not> getters_served (snd (queue_size w)) \<and>
     abandon_get Ok (consumer_reg 0 1) (snd (queue_size w)) = Inr (snd (queue_size w))"
proof -
  obtain q sc where w: "cancelled_consumer = Inr (q, sc)"
    and g: "q_gets q = [(consumer_reg 0 1, True), (consumer_reg 1 2, False)]"
    and a: "\<not> external_wait_alive (consumer_reg 0 1) sc" "registration_valid sc (consumer_reg 1 2)"
    using cancelled_consumer_state by (auto split: sum.splits)
  have f: "find_waiter (consumer_reg 0 1) (q_gets q) = Some (consumer_reg 0 1, True)" "(consumer_reg 1 2, False) \<in> set (q_gets q)"
    by (simp_all add: g same_wait_def)
  show ?thesis
    using queue_can_lose_wakeup [OF cancelled_consumer_ok [OF w] f(1) a(1) f(2) a(2), of "snd (queue_size (q, sc))"] w by auto
qed

section \<open>Witnesses\<close>

definition promised :: "nat queue \<times> sched_core" where
  "promised =
     (\<lparr>q_items = [7, 8], q_gets = [(demo_reg 0, True)], q_puts = [], q_scheduler = Some 0,
       q_reserved_items = 1, q_reserved_slots = 0, q_maxsize = 3\<rparr>, parked_demo)"

lemma promised_ok: "queue_ok promised"
  using parked_demo_ok by (simp add: queue_ok_def promised_def)

lemma queue_operations_keep_bookkeeping_witness:
  "\<exists>w'. consume_get Ok (Some (demo_reg 0)) promised = Inr (7, w') \<and> queue_ok w'"
  using queue_operations_keep_bookkeeping [OF flush_keeps_Ok promised_ok, of 0 "demo_reg 0" 0 0 0]
  by (auto simp: promised_def same_wait_def)

lemma queue_is_fifo_witness:
  "case put_nowait Ok 9 promised of Inr (True, w) \<Rightarrow> q_items (fst w) = [7, 8, 9] | _ \<Rightarrow> False"
proof -
  have "case put_nowait Ok 9 promised of Inr (True, w) \<Rightarrow> True | _ \<Rightarrow> False" by code_simp
  then obtain w where w: "put_nowait Ok 9 promised = Inr (True, w)"
    by (auto split: sum.splits bool.splits)
  have "q_items (fst w) = q_items (fst promised) @ [9]"
    using queue_is_fifo [OF promised_ok, of 9 w] w by blast
  moreover have "q_items (fst promised) = [7, 8]" by (simp add: promised_def)
  ultimately show ?thesis unfolding w by simp
qed

end
