(* ===== verification/SyncProps.thy ===== *)
theory SyncProps
  imports QueueProps
begin

text \<open>
  The properties of \<open>Semaphore\<close>, \<open>Lock\<close> and \<open>Event\<close>: permits are conserved, the lock excludes,
  setting an event wakes everybody.
\<close>

section \<open>Semaphore\<close>

text \<open>
  The permits nobody has taken yet: the free ones and those handed to waiters that have not run
  since.
\<close>

definition unclaimed :: "semaphore \<times> 'a sched_core_scheme \<Rightarrow> nat" where
  "unclaimed w = sm_permits (fst w) + reserved_count (sm_waiters (fst w))"

definition semaphore_ok :: "semaphore \<times> 'a sched_core_scheme \<Rightarrow> bool" where
  "semaphore_ok w \<longleftrightarrow> core_ok (snd w) \<and> unclaimed w \<le> max_u64"

definition permits_served :: "semaphore \<times> 'a sched_core_scheme \<Rightarrow> bool" where
  "permits_served w \<longleftrightarrow> (0 < sm_permits (fst w) \<longrightarrow> (\<forall>x\<in>set (sm_waiters (fst w)). snd x))"

text \<open>A coroutine that was alive before others were woken can still park.\<close>

lemma park_external_alive:
  assumes core: "core_ok sc" and alive: "\<forall>q. external_wait_alive q sc = external_wait_alive q sc0"
    and i: "i < length (states sc0)" "cs_handle (states sc0 ! i) = Some h" "\<not> cs_done (states sc0 ! i)"
    and h: "cs_handle (states sc ! i) = cs_handle (states sc0 ! i)"
  shows "\<exists>sc' reg. park_external h i reason sc = Inr (reg, sc') \<and> core_ok sc' \<and> registration_valid sc' reg \<and>
    reg_state reg = i"
proof -
  let ?q = "\<lparr>reg_state = i, reg_generation = cs_generation (states sc0 ! i), reg_winner = None, reg_index = 0\<rparr>"
  have "external_wait_alive ?q sc0" using i by (simp add: external_wait_alive_def)
  then have "external_wait_alive ?q sc" using alive by blast
  then have "i < length (states sc)" "\<not> cs_done (states sc ! i)"
    by (auto simp: external_wait_alive_def Let_def split: if_splits)
  then show ?thesis using park_external_ok [OF core] i(2) h by simp
qed

lemma dispatch_spec:
  assumes "core_ok (snd w)" "unclaimed w + n \<le> max_u64"
  shows "\<exists>w'. dispatch Ok n w = Inr w' \<and> core_ok (snd w') \<and> unclaimed w' = unclaimed w + n \<and>
    (permits_served w \<longrightarrow> permits_served w') \<and> sm_scheduler (fst w') = sm_scheduler (fst w) \<and>
    (\<forall>q. external_wait_alive q (snd w') = external_wait_alive q (snd w)) \<and>
    (\<forall>i. cs_handle (states (snd w') ! i) = cs_handle (states (snd w) ! i))"
proof -
  obtain sm sc where w: "w = (sm, sc)" by (cases w)
  have bound: "sm_permits sm + n \<le> max_u64" using assms(2) w by (simp add: unclaimed_def)
  then obtain ws p t sc' where g: "give_permits wake_external n (sm_waiters sm) (sm_permits sm) sc = Inr (ws, p, t, sc')"
    "core_ok sc'" "p + reserved_count ws = sm_permits sm + reserved_count (sm_waiters sm) + n"
    "sm_permits sm \<le> p" "sm_permits sm < p \<longrightarrow> (\<forall>w\<in>set ws. snd w)"
    "\<forall>q. external_wait_alive q sc' = external_wait_alive q sc"
    using sched.give_permits_spec [of sc "sm_permits sm" n "sm_waiters sm"] assms(1) w by auto
  have "\<forall>q :: registration. cs_handle (states sc' ! reg_state q) = cs_handle (states sc ! reg_state q)"
    using handles.give_permits_spec [OF _ bound, of sc "sm_waiters sm"] assms(1) w g(1) by auto
  then have h: "\<forall>i. cs_handle (states sc' ! i) = cs_handle (states sc ! i)"
    using registration.select_convs(1) by metis
  have "permits_served (sm, sc) \<Longrightarrow> 0 < p \<Longrightarrow> \<forall>w\<in>set ws. snd w"
    using g(4,5) sched.give_permits_reserved [OF _ g(1)] by (cases "sm_permits sm < p") (auto simp: permits_served_def)
  then show ?thesis using g h w by (auto simp: dispatch_def unclaimed_def permits_served_def Let_def)
qed

lemma semaphore_cleanup_spec:
  assumes "semaphore_ok w"
  shows "\<exists>w'. semaphore_cleanup Ok w = Inr w' \<and> semaphore_ok w' \<and> unclaimed w' = unclaimed w \<and>
    (permits_served w \<longrightarrow> permits_served w') \<and> sm_scheduler (fst w') \<in> {None, sm_scheduler (fst w)} \<and>
    (\<forall>q. external_wait_alive q (snd w') = external_wait_alive q (snd w)) \<and>
    (\<forall>i. cs_handle (states (snd w') ! i) = cs_handle (states (snd w) ! i))"
proof -
  obtain sm sc where w: "w = (sm, sc)" by (cases w)
  let ?a = "\<lambda>r. external_wait_alive r sc"
  let ?n = "dead_reservations ?a (sm_waiters sm)"
  define sm1 where "sm1 = (if live_waiters ?a (sm_waiters sm) = []
    then sm\<lparr>sm_waiters := live_waiters ?a (sm_waiters sm), sm_scheduler := None\<rparr>
    else sm\<lparr>sm_waiters := live_waiters ?a (sm_waiters sm)\<rparr>)"
  have 1: "sm_waiters sm1 = live_waiters ?a (sm_waiters sm)" "sm_permits sm1 = sm_permits sm"
    "sm_scheduler sm1 \<in> {None, sm_scheduler sm}"
    by (simp_all add: sm1_def)
  have u: "unclaimed (sm1, sc) + ?n = unclaimed w"
    using live_dead_count [of ?a "sm_waiters sm"] by (simp add: unclaimed_def 1 w)
  have ok: "core_ok sc" "unclaimed w \<le> max_u64" using assms w by (simp_all add: semaphore_ok_def)
  have p: "permits_served w \<Longrightarrow> permits_served (sm1, sc)"
    by (auto simp: permits_served_def 1 w live_waiters_def)
  have eq: "semaphore_cleanup Ok w = (if ?n \<noteq> 0 then dispatch Ok ?n (sm1, sc) else Ok (sm1, sc))"
    by (simp add: semaphore_cleanup_def w sm1_def Let_def)
  show ?thesis
    using dispatch_spec [of "(sm1, sc)" ?n] u ok p 1(3) w by (auto simp: eq [unfolded w] semaphore_ok_def)
qed

text \<open>A coroutine that asks for a permit and gets none at once parks, and only then.\<close>

lemma semaphore_suspend_spec:
  assumes ok: "semaphore_ok w" "permits_served w" and bound: "sm_scheduler (fst w) \<in> {None, Some sid}"
    and i: "i < length (states (snd w))" "cs_handle (states (snd w) ! i) = Some h" "\<not> cs_done (states (snd w) ! i)"
  shows "\<exists>r w'. semaphore_suspend Ok sid h i w = Inr (r, w') \<and> semaphore_ok w' \<and> permits_served w' \<and>
    unclaimed w = unclaimed w' + (if r = None then 1 else 0) \<and>
    (\<forall>reg. r = Some reg \<longrightarrow> sm_permits (fst w') = 0 \<and> last (sm_waiters (fst w')) = (reg, False) \<and>
      registration_valid (snd w') reg \<and> reg_state reg = i)"
proof -
  obtain sm sc where c: "semaphore_cleanup Ok w = Inr (sm, sc)" "semaphore_ok (sm, sc)" "unclaimed (sm, sc) = unclaimed w"
    "permits_served (sm, sc)" "sm_scheduler sm \<in> {None, sm_scheduler (fst w)}"
    "\<forall>q. external_wait_alive q sc = external_wait_alive q (snd w)"
    "\<forall>i. cs_handle (states sc ! i) = cs_handle (states (snd w) ! i)"
    using semaphore_cleanup_spec [OF ok(1)] ok(2) by (metis prod.collapse)
  have core: "core_ok sc" using c(2) by (simp add: semaphore_ok_def)
  show ?thesis
  proof (cases "sm_permits sm = 0")
    case False
    then have "semaphore_suspend Ok sid h i w = Inr (None, sm\<lparr>sm_permits := sm_permits sm - 1\<rparr>, sc)"
      by (simp add: semaphore_suspend_def c(1))
    then show ?thesis using False c(2-4) by (auto simp: semaphore_ok_def permits_served_def unclaimed_def)
  next
    case True
    obtain sc' reg where p: "park_external h i ReasonSemaphore sc = Inr (reg, sc')" "core_ok sc'" "registration_valid sc' reg"
      "reg_state reg = i"
      using park_external_alive [OF core _ i] c(6,7) by blast
    then have "semaphore_suspend Ok sid h i w =
        Inr (Some reg, sm\<lparr>sm_scheduler := Some sid, sm_waiters := sm_waiters sm @ [(reg, False)]\<rparr>, sc')"
      using True bound c(5) by (auto simp: semaphore_suspend_def c(1) bind_scheduler_def)
    then show ?thesis using True c(2,3) p by (auto simp: semaphore_ok_def permits_served_def unclaimed_def)
  qed
qed

text \<open>
  Property C10: permits are neither lost nor made up. Called from a coroutine on a semaphore whose
  permits fit a \<open>size_t\<close>, no operation aborts; releasing adds exactly the released permits, taking
  one at once or running with a handed permit uses up exactly one, and abandoning a wait, whether
  or not it was handed a permit, changes nothing. A coroutine that asks for a permit takes one, or parks
  behind the others, which happens only when none is free; so while a permit is free nobody is left waiting without
  one.
\<close>

theorem semaphore_conserves_permits:
  assumes "semaphore_ok w" "permits_served w"
  shows "(unclaimed w + n \<le> max_u64 \<longrightarrow>
      (\<exists>w'. semaphore_release Ok n w = Inr w' \<and> semaphore_ok w' \<and> permits_served w' \<and> unclaimed w' = unclaimed w + n)) \<and>
    (\<exists>b w'. semaphore_try_acquire Ok w = Inr (b, w') \<and> semaphore_ok w' \<and> permits_served w' \<and>
      unclaimed w = unclaimed w' + (if b then 1 else 0)) \<and>
    (\<exists>w'. semaphore_abandon Ok reg w = Inr w' \<and> semaphore_ok w' \<and> permits_served w' \<and> unclaimed w' = unclaimed w) \<and>
    (\<forall>r. find_waiter reg (sm_waiters (fst w)) = Some (r, True) \<longrightarrow>
      (\<exists>w'. semaphore_finish_acquire Ok (Some reg) w = Inr w' \<and> semaphore_ok w' \<and> permits_served w' \<and>
        unclaimed w = unclaimed w' + 1)) \<and>
    (sm_scheduler (fst w) \<in> {None, Some sid} \<and> i < length (states (snd w)) \<and>
     cs_handle (states (snd w) ! i) = Some h \<and> \<not> cs_done (states (snd w) ! i) \<longrightarrow>
      (\<exists>r w'. semaphore_suspend Ok sid h i w = Inr (r, w') \<and> semaphore_ok w' \<and> permits_served w' \<and>
        unclaimed w = unclaimed w' + (if r = None then 1 else 0) \<and>
        (\<forall>reg. r = Some reg \<longrightarrow> sm_permits (fst w') = 0 \<and> last (sm_waiters (fst w')) = (reg, False) \<and>
          registration_valid (snd w') reg \<and> reg_state reg = i)))"
proof (intro conjI impI allI)
  assume n: "unclaimed w + n \<le> max_u64"
  obtain w1 where 1: "semaphore_cleanup Ok w = Inr w1" "semaphore_ok w1" "unclaimed w1 = unclaimed w" "permits_served w1"
    using semaphore_cleanup_spec [OF assms(1)] assms(2) by blast
  then obtain w2 where 2: "dispatch Ok n w1 = Inr w2" "core_ok (snd w2)" "unclaimed w2 = unclaimed w + n" "permits_served w2"
    using dispatch_spec [of w1 n] n by (auto simp: semaphore_ok_def)
  show "\<exists>w'. semaphore_release Ok n w = Inr w' \<and> semaphore_ok w' \<and> permits_served w' \<and> unclaimed w' = unclaimed w + n"
  proof (cases "n = 0")
    case True
    then have "semaphore_release Ok n w = Inr w" by (simp add: semaphore_release_def)
    with True assms show ?thesis by (intro exI [of _ w] conjI) simp_all
  next
    case False
    then have "semaphore_release Ok n w = Inr w2" by (simp add: semaphore_release_def 1(1) 2(1))
    moreover have "semaphore_ok w2" using 2(2,3) n by (simp add: semaphore_ok_def)
    ultimately show ?thesis using 2(3,4) by blast
  qed
next
  obtain sm sc where c: "semaphore_cleanup Ok w = Inr (sm, sc)" "semaphore_ok (sm, sc)" "unclaimed (sm, sc) = unclaimed w"
    "permits_served (sm, sc)"
    using semaphore_cleanup_spec [OF assms(1)] assms(2) by (metis surj_pair)
  let ?w = "(sm\<lparr>sm_permits := sm_permits sm - 1\<rparr>, sc)"
  have more: "semaphore_ok ?w \<and> permits_served ?w \<and> unclaimed w = unclaimed ?w + 1" if "sm_permits sm \<noteq> 0"
    using c(2,4) that unfolding c(3) [symmetric] by (auto simp: semaphore_ok_def unclaimed_def permits_served_def)
  have t: "semaphore_try_acquire Ok w = (if sm_permits sm = 0 then Inr (False, sm, sc) else Inr (True, ?w))"
    by (simp add: semaphore_try_acquire_def c(1))
  show "\<exists>b w'. semaphore_try_acquire Ok w = Inr (b, w') \<and> semaphore_ok w' \<and> permits_served w' \<and>
      unclaimed w = unclaimed w' + (if b then 1 else 0)"
  proof (cases "sm_permits sm = 0")
    case True
    then show ?thesis using c t by (intro exI [of _ False] exI [of _ "(sm, sc)"]) simp
  next
    case False
    then show ?thesis using more t by (intro exI [of _ True] exI [of _ ?w]) simp
  qed
next
  obtain sm sc where w: "w = (sm, sc)" by (cases w)
  have gone: "\<exists>w1. semaphore_cleanup Ok (sm\<lparr>sm_waiters := erase_waiter reg (sm_waiters sm)\<rparr>, sc) = Inr w1 \<and>
      semaphore_ok w1 \<and> permits_served w1 \<and> unclaimed w = unclaimed w1 + (if b then 1 else 0)"
    if f: "find_waiter reg (sm_waiters sm) = Some (r, b)" for r b
  proof -
    let ?w = "(sm\<lparr>sm_waiters := erase_waiter reg (sm_waiters sm)\<rparr>, sc)"
    have u: "unclaimed w = unclaimed ?w + (if b then 1 else 0)"
      using erase_count [OF f] by (simp add: unclaimed_def w)
    have "set (erase_waiter reg ws) \<subseteq> set ws" for ws by (induction ws) auto
    then have "permits_served ?w" using assms(2) w by (auto simp: permits_served_def)
    moreover have "semaphore_ok ?w" using assms(1) u w by (simp add: semaphore_ok_def)
    ultimately show ?thesis using semaphore_cleanup_spec [of ?w] u by auto
  qed
  show "\<exists>w'. semaphore_abandon Ok reg w = Inr w' \<and> semaphore_ok w' \<and> permits_served w' \<and> unclaimed w' = unclaimed w"
  proof (cases "find_waiter reg (sm_waiters sm)")
    case None
    then show ?thesis using assms by (auto simp: semaphore_abandon_def w)
  next
    case (Some p)
    then obtain r b where f: "find_waiter reg (sm_waiters sm) = Some (r, b)" by (cases p) auto
    obtain w1 where 1: "semaphore_cleanup Ok (sm\<lparr>sm_waiters := erase_waiter reg (sm_waiters sm)\<rparr>, sc) = Inr w1"
      "semaphore_ok w1" "permits_served w1" "unclaimed w = unclaimed w1 + (if b then 1 else 0)"
      using gone [OF f] by blast
    show ?thesis
      using 1 f dispatch_spec [of w1 1] assms(1) by (cases b) (auto simp: semaphore_abandon_def w semaphore_ok_def)
  qed
  fix r
  assume "find_waiter reg (sm_waiters (fst w)) = Some (r, True)"
  then have f: "find_waiter reg (sm_waiters sm) = Some (r, True)" by (simp add: w)
  show "\<exists>w'. semaphore_finish_acquire Ok (Some reg) w = Inr w' \<and> semaphore_ok w' \<and> permits_served w' \<and>
        unclaimed w = unclaimed w' + 1"
    using gone [OF f] f by (auto simp: semaphore_finish_acquire_def w)
qed (use semaphore_suspend_spec [OF assms] in blast)

definition busy_semaphore :: "semaphore \<times> sched_core" where
  "busy_semaphore = (\<lparr>sm_waiters = [(demo_reg 0, False)], sm_scheduler = Some 0, sm_permits = 0\<rparr>, parked_demo)"

lemma semaphore_conserves_permits_witness:
  "\<exists>w'. semaphore_release Ok 1 busy_semaphore = Inr w' \<and> unclaimed w' = 1"
proof -
  have b: "semaphore_ok busy_semaphore" "permits_served busy_semaphore" "unclaimed busy_semaphore = 0"
    using parked_demo_ok by (simp_all add: semaphore_ok_def permits_served_def unclaimed_def busy_semaphore_def)
  then show ?thesis
    using semaphore_conserves_permits [OF b(1,2), THEN conjunct1, of 1] b(3) by (auto simp: max_u64_def)
qed

section \<open>Lock\<close>

text \<open>
  A run of a lock: the coroutines call its operations, each from inside a coroutine, and between
  the calls the scheduler may do anything that keeps it well formed (time passes, coroutines are
  cancelled or end). The flag remembers that somebody was granted the lock and has not released
  it; only then is \<open>release\<close> called.
\<close>

inductive lock_step :: "lock \<times> sched_core \<times> bool \<Rightarrow> lock \<times> sched_core \<times> bool \<Rightarrow> bool" where
  environment: "core_ok sc' \<Longrightarrow> lock_step (lk, sc, held) (lk, sc', held)"
| attempt: "lock_try_acquire Ok (lk, sc) = Inr (b, lk', sc') \<Longrightarrow> lock_step (lk, sc, held) (lk', sc', held \<or> b)"
| suspend: "lock_suspend Ok sid h i (lk, sc) = Inr (r, lk', sc') \<Longrightarrow>
    i < length (states sc) \<Longrightarrow> cs_handle (states sc ! i) = Some h \<Longrightarrow> \<not> cs_done (states sc ! i) \<Longrightarrow>
    lock_step (lk, sc, held) (lk', sc', held \<or> r = None)"
| resume: "lock_finish_acquire Ok (Some reg) (lk, sc) = Inr (lk', sc') \<Longrightarrow> lock_step (lk, sc, held) (lk', sc', True)"
| abandon: "lock_abandon Ok reg (lk, sc) = Inr (lk', sc') \<Longrightarrow> lock_step (lk, sc, held) (lk', sc', held)"
| release: "lock_release Ok (lk, sc) = Inr (lk', sc') \<Longrightarrow> held \<Longrightarrow> lock_step (lk, sc, held) (lk', sc', False)"

inductive_cases lock_stepE [elim]: "lock_step (lk, sc, held) s'"

inductive lock_reaches :: "lock \<times> sched_core \<times> bool \<Rightarrow> bool" where
  start: "core_ok sc \<Longrightarrow> lock_reaches (lock_init, sc, False)"
| step: "lock_reaches s \<Longrightarrow> lock_step s s' \<Longrightarrow> lock_reaches s'"

text \<open>Ownership is with a coroutine, in transit to one waiter, or free.\<close>

definition lock_ok :: "lock \<Rightarrow> bool \<Rightarrow> bool" where
  "lock_ok lk held \<longleftrightarrow>
     (if lk_handoff lk then reserved_count (lk_waiters lk) = 1 \<and> lk_locked lk \<and> \<not> held
      else reserved_count (lk_waiters lk) = 0 \<and> (lk_locked lk \<longleftrightarrow> held))"

lemma handoff_spec:
  assumes "core_ok sc" "reserved_count (lk_waiters lk) = 0" "\<not> lk_handoff lk"
  shows "\<exists>lk' sc'. handoff_or_unlock Ok (lk, sc) = Inr (lk', sc') \<and> core_ok sc' \<and>
    (\<forall>q. external_wait_alive q sc' = external_wait_alive q sc) \<and>
    (if \<exists>w\<in>set (lk_waiters lk). \<not> snd w \<and> registration_valid sc (fst w)
     then lk_handoff lk' \<and> reserved_count (lk_waiters lk') = 1 \<and> lk_locked lk' = lk_locked lk
     else \<not> lk_handoff lk' \<and> lk_waiters lk' = [] \<and> \<not> lk_locked lk')"
proof -
  obtain ws taken tried sc' where g: "hand_over wake_external (lk_waiters lk) sc = Inr (ws, taken, tried, sc')" "core_ok sc'"
    "\<forall>q. external_wait_alive q sc' = external_wait_alive q sc"
    "reserved_count ws = reserved_count (lk_waiters lk) + (if taken then 1 else 0)"
    "taken \<longleftrightarrow> (\<exists>w\<in>set (lk_waiters lk). \<not> snd w \<and> registration_valid sc (fst w))"
    "\<not> taken \<longrightarrow> ws = filter snd (lk_waiters lk)"
    using sched.hand_over_spec [OF assms(1), of "lk_waiters lk"] by blast
  show ?thesis using g assms(2,3)
    by (cases taken; cases tried) (simp_all add: handoff_or_unlock_def Let_def)
qed

lemma lock_owed:
  "lock_ok lk held \<Longrightarrow> l + d = reserved_count (lk_waiters lk) \<Longrightarrow> d \<noteq> 0 \<Longrightarrow>
   lk_handoff lk \<and> l = 0 \<and> lk_locked lk \<and> \<not> held"
  by (auto simp: lock_ok_def split: if_splits)

lemma lock_cleanup_spec:
  assumes "core_ok sc" "lock_ok lk held"
  shows "\<exists>lk' sc'. lock_cleanup Ok (lk, sc) = Inr (lk', sc') \<and> core_ok sc' \<and> lock_ok lk' held \<and>
    (\<forall>q. external_wait_alive q sc' = external_wait_alive q sc) \<and>
    (\<not> lk_handoff lk \<longrightarrow> \<not> lk_handoff lk' \<and> lk_locked lk' = lk_locked lk \<and> sc' = sc \<and>
       lk_waiters lk' = live_waiters (\<lambda>r. external_wait_alive r sc) (lk_waiters lk))"
proof (cases "lk_waiters lk = []")
  case True
  then show ?thesis using assms by (auto simp: lock_cleanup_def lock_ok_def live_waiters_def)
next
  case False
  let ?a = "\<lambda>r. external_wait_alive r sc"
  let ?d = "dead_reservations ?a (lk_waiters lk)"
  note count = live_dead_count [of ?a "lk_waiters lk"]
  define lk1 where "lk1 = lk\<lparr>lk_waiters := live_waiters ?a (lk_waiters lk), lk_handoff := (if ?d \<noteq> 0 then False else lk_handoff lk),
    lk_scheduler := (if live_waiters ?a (lk_waiters lk) = [] then None else lk_scheduler lk)\<rparr>"
  have eq: "lock_cleanup Ok (lk, sc) = (if ?d \<noteq> 0 then handoff_or_unlock Ok (lk1, sc) else Ok (lk1, sc))"
    using False by (cases lk) (auto simp: lock_cleanup_def lk1_def Let_def)
  show ?thesis
  proof (cases "?d = 0")
    case True
    then show ?thesis using count assms by (auto simp: eq lk1_def lock_ok_def)
  next
    case owed: False
    then have h: "lk_handoff lk" "reserved_count (live_waiters ?a (lk_waiters lk)) = 0" "lk_locked lk" "\<not> held"
      using lock_owed [OF assms(2) count] owed by simp_all
    have "reserved_count (lk_waiters lk1) = 0" "\<not> lk_handoff lk1" using h owed by (simp_all add: lk1_def)
    from handoff_spec [OF assms(1) this] show ?thesis
      using h owed by (auto simp: eq lock_ok_def lk1_def split: if_splits)
  qed
qed

lemma lock_tidy_spec:
  assumes "core_ok sc" "lock_ok lk held"
  shows "\<exists>lk' sc'. lock_tidy Ok (lk, sc) = Inr (lk', sc') \<and> core_ok sc' \<and> lock_ok lk' held"
  using lock_cleanup_spec [OF assms] assms by (auto simp: lock_tidy_def)

lemma lock_step_ok:
  assumes "lock_step (lk, sc, held) (lk', sc', held')" "core_ok sc" "lock_ok lk held"
  shows "core_ok sc' \<and> lock_ok lk' held'"
  using assms(1)
proof cases
  case environment
  then show ?thesis using assms by simp
next
  case (attempt b)
  then show ?thesis using lock_tidy_spec [OF assms(2,3)] attempt
    by (auto simp: lock_try_acquire_def lock_ok_def split: if_splits)
next
  case (suspend sid h i r)
  obtain lk1 sc1 where c: "lock_cleanup Ok (lk, sc) = Inr (lk1, sc1)" "core_ok sc1" "lock_ok lk1 held"
    "\<forall>q. external_wait_alive q sc1 = external_wait_alive q sc"
    using lock_cleanup_spec [OF assms(2,3)] by blast
  let ?q = "\<lparr>reg_state = i, reg_generation = cs_generation (states sc ! i), reg_winner = None, reg_index = 0\<rparr>"
  have "external_wait_alive ?q sc" using suspend by (simp add: external_wait_alive_def)
  then have "external_wait_alive ?q sc1" using c(4) by blast
  then have live: "\<not> cs_done (states sc1 ! i)" by (simp add: external_wait_alive_def Let_def split: if_splits)
  have "core_ok sc2" if "park_external h i ReasonLock sc1 = Inr (reg, sc2)" for reg sc2
  proof -
    have "i < length (states sc1)" "cs_handle (states sc1 ! i) = Some h"
      using that by (auto simp: park_external_def state_for_def state_matches_def split: if_splits)
    then show ?thesis using park_external_ok [OF c(2), of i h ReasonLock] live that by auto
  qed
  then show ?thesis
    using suspend c by (auto simp: lock_suspend_def lock_ok_def result_bind_Ok_iff split: if_splits)
next
  case (resume reg)
  obtain r where f: "find_waiter reg (lk_waiters lk) = Some (r, True)" "lk_handoff lk"
    using resume by (auto simp: lock_finish_acquire_def split: option.splits bool.splits if_splits)
  let ?lk = "lk\<lparr>lk_waiters := erase_waiter reg (lk_waiters lk), lk_handoff := False\<rparr>"
  have "lock_ok ?lk True" using assms(3) erase_count [OF f(1)] f(2) by (simp add: lock_ok_def)
  from lock_cleanup_spec [OF assms(2) this] show ?thesis
    using resume f by (auto simp: lock_finish_acquire_def)
next
  case (abandon reg)
  show ?thesis
  proof (cases "find_waiter reg (lk_waiters lk)")
    case None
    then show ?thesis using abandon assms by (simp add: lock_abandon_def)
  next
    case (Some p)
    then obtain r b where f: "find_waiter reg (lk_waiters lk) = Some (r, b)" by (cases p) auto
    note e = erase_count [OF f]
    show ?thesis
    proof (cases b)
      case True
      let ?lk = "lk\<lparr>lk_waiters := erase_waiter reg (lk_waiters lk), lk_handoff := False\<rparr>"
      have h: "lk_handoff lk" "lk_locked lk" "\<not> held" using assms(3) e True by (auto simp: lock_ok_def split: if_splits)
      have "lock_ok ?lk True" using assms(3) e True h by (simp add: lock_ok_def)
      then obtain lk1 where 1: "lock_cleanup Ok (?lk, sc) = Inr (lk1, sc)" "\<not> lk_handoff lk1" "lock_ok lk1 True"
        using lock_cleanup_spec [OF assms(2)] by fastforce
      then have "reserved_count (lk_waiters lk1) = 0" by (simp add: lock_ok_def)
      from handoff_spec [OF assms(2) this 1(2)] show ?thesis
        using abandon f True 1 h by (auto simp: lock_abandon_def lock_ok_def split: if_splits)
    next
      case False
      have "lock_ok (lk\<lparr>lk_waiters := erase_waiter reg (lk_waiters lk)\<rparr>) held"
        using assms(3) e False by (simp add: lock_ok_def)
      from lock_cleanup_spec [OF assms(2) this] show ?thesis
        using abandon f False by (auto simp: lock_abandon_def)
    qed
  qed
next
  case release
  have h: "\<not> lk_handoff lk" using release assms(3) by (auto simp: lock_ok_def split: if_splits)
  show ?thesis
  proof (cases "lk_waiters lk = []")
    case True
    then show ?thesis using release assms h by (auto simp: lock_release_def lock_ok_def split: if_splits)
  next
    case False
    obtain lk1 where 1: "lock_cleanup Ok (lk, sc) = Inr (lk1, sc)" "\<not> lk_handoff lk1" "lock_ok lk1 True"
      using lock_cleanup_spec [OF assms(2,3)] h release by auto
    then have "reserved_count (lk_waiters lk1) = 0" by (simp add: lock_ok_def)
    from handoff_spec [OF assms(2) this 1(2)] show ?thesis
      using release False 1 by (auto simp: lock_release_def lock_ok_def split: if_splits)
  qed
qed

lemma lock_reaches_ok: "lock_reaches s \<Longrightarrow> (case s of (lk, sc, held) \<Rightarrow> core_ok sc \<and> lock_ok lk held)"
proof (induction rule: lock_reaches.induct)
  case (start sc)
  then show ?case by (simp add: lock_ok_def lock_init_def)
next
  case (step s s')
  then show ?case using lock_step_ok by (cases s; cases s') auto
qed

text \<open>
  Property C5: mutual exclusion. In every reachable state of a lock at most one coroutine holds it
  or is about to receive it: while somebody holds it no other attempt succeeds, neither at once
  nor on resuming, and while it is in transit to a waiter nobody holds it. Releasing never aborts,
  and it passes the lock to a parked waiter whenever there is one.
\<close>

theorem lock_mutual_exclusion:
  assumes "lock_reaches (lk, sc, True)"
  shows "lk_locked lk \<and> \<not> lk_handoff lk \<and>
    (\<exists>w'. lock_try_acquire Ok (lk, sc) = Inr (False, w')) \<and>
    lock_suspend Ok sid h i (lk, sc) \<noteq> Inr (None, w) \<and>
    (\<exists>e. lock_finish_acquire Ok (Some reg) (lk, sc) = Inl e) \<and>
    (\<exists>lk' sc'. lock_release Ok (lk, sc) = Inr (lk', sc') \<and>
       (lk_handoff lk' \<longleftrightarrow> (\<exists>x\<in>set (lk_waiters lk). registration_valid sc (fst x))))"
proof -
  have ok: "core_ok sc" "lock_ok lk True" using lock_reaches_ok [OF assms] by simp_all
  then have h: "\<not> lk_handoff lk" "reserved_count (lk_waiters lk) = 0" "lk_locked lk"
    by (auto simp: lock_ok_def split: if_splits)
  obtain lk1 where 1: "lock_cleanup Ok (lk, sc) = Inr (lk1, sc)" "\<not> lk_handoff lk1" "lock_ok lk1 True"
    "lk_waiters lk1 = live_waiters (\<lambda>r. external_wait_alive r sc) (lk_waiters lk)" "lk_locked lk1"
    using lock_cleanup_spec [OF ok] h by auto
  have none: "reserved_count (lk_waiters lk1) = 0" using 1 by (simp add: lock_ok_def)
  have "\<exists>w'. lock_try_acquire Ok (lk, sc) = Inr (False, w')"
    using 1 h by (cases "lk_scheduler lk") (simp_all add: lock_try_acquire_def lock_tidy_def)
  moreover have "lock_suspend Ok sid h i (lk, sc) \<noteq> Inr (None, w)"
    using 1 by (auto simp: lock_suspend_def result_bind_Ok_iff)
  moreover have "\<exists>e. lock_finish_acquire Ok (Some reg) (lk, sc) = Inl e"
    using h by (auto simp: lock_finish_acquire_def split: option.splits bool.splits)
  moreover have "\<exists>lk' sc'. lock_release Ok (lk, sc) = Inr (lk', sc') \<and>
       (lk_handoff lk' \<longleftrightarrow> (\<exists>x\<in>set (lk_waiters lk). registration_valid sc (fst x)))"
  proof (cases "lk_waiters lk = []")
    case True
    then show ?thesis using h by (simp add: lock_release_def)
  next
    case False
    have unreserved: "\<forall>x\<in>set (lk_waiters lk). \<not> snd x" using h(2) by (simp add: filter_empty_conv)
    obtain lk' sc' where r: "handoff_or_unlock Ok (lk1, sc) = Inr (lk', sc')"
      "lk_handoff lk' \<longleftrightarrow> (\<exists>w\<in>set (lk_waiters lk1). \<not> snd w \<and> registration_valid sc (fst w))"
      using handoff_spec [OF ok(1) none 1(2)] by (metis (lifting))
    have "lock_release Ok (lk, sc) = Inr (lk', sc')" using 1 r(1) False by (simp add: lock_release_def)
    moreover have "(\<exists>w\<in>set (lk_waiters lk1). \<not> snd w \<and> registration_valid sc (fst w)) \<longleftrightarrow>
        (\<exists>x\<in>set (lk_waiters lk). registration_valid sc (fst x))"
      using unreserved sched.valid_alive [of sc] by (force simp: 1(4) live_waiters_def)
    ultimately show ?thesis using r(2) by blast
  qed
  ultimately show ?thesis using h by blast
qed

definition held_lock :: lock where
  "held_lock = \<lparr>lk_waiters = [], lk_scheduler = None, lk_locked = True, lk_handoff = False\<rparr>"

lemma held_lock_reached: "lock_reaches (held_lock, parked_demo, True)"
proof -
  have "lock_try_acquire Ok (lock_init, parked_demo) = Inr (True, held_lock, parked_demo)"
    by (simp add: lock_try_acquire_def lock_tidy_def lock_init_def held_lock_def)
  from lock_step.attempt [OF this, of False] show ?thesis
    using lock_reaches.step [OF lock_reaches.start [OF parked_demo_ok(1)]] by simp
qed

lemma lock_mutual_exclusion_witness:
  "\<exists>w'. lock_try_acquire Ok (held_lock, parked_demo) = Inr (False, w')"
  using lock_mutual_exclusion [OF held_lock_reached, of 0 0 0 "(lock_init, parked_demo)" "demo_reg 0"] by blast

section \<open>Event\<close>

lemma wake_all_spec:
  "core_ok sc \<Longrightarrow> \<exists>sc'. wake_all regs sc = Inr sc' \<and> core_ok sc' \<and>
     ready_queue sc' = ready_queue sc @ woken_states sc regs"
proof (induction regs arbitrary: sc)
  case Nil
  then show ?case by (simp add: woken_states_def)
next
  case (Cons reg regs)
  obtain sc1 where 1: "resume_registration reg sc = Inr (registration_valid sc reg, sc1)" "resumed_core reg sc sc1"
    using resume_registration_ok [OF Cons.prems] by blast
  have w: "wake_external reg sc = Inr (registration_valid sc reg, sc1)"
    using 1(1) by (auto simp: wake_external_def resume_registration_def)
  have rv: "\<forall>r. registration_valid sc1 r \<longleftrightarrow>
      registration_valid sc r \<and> \<not> (registration_valid sc reg \<and> reg_state r = reg_state reg)"
    and ok1: "core_ok sc1" and q: "ready_queue sc1 = ready_queue sc @ (if registration_valid sc reg then [reg_state reg] else [])"
    using 1(2) by (simp_all add: resumed_core_def)
  show ?case using Cons.IH [OF ok1] w woken_states_step [OF rv, of regs] q by auto
qed

text \<open>
  setting an event never aborts; it makes ready, once each and in the order they
  came, exactly the coroutines still parked on it, and leaves the event set with no waiters. A
  coroutine that then waits goes on at once.
\<close>

theorem event_set_wakes_all:
  assumes "core_ok sc"
  shows "\<exists>ev' sc'. event_set Ok (ev, sc) = Inr (ev', sc') \<and> core_ok sc' \<and> ev_set ev' \<and> ev_waiters ev' = [] \<and>
    ready_queue sc' = ready_queue sc @ woken_states sc (ev_waiters ev) \<and>
    (\<exists>w. event_suspend sid h i (ev', sc') = Inr (False, w))"
proof -
  let ?ws = "filter (\<lambda>r. external_wait_alive r sc) (ev_waiters ev)"
  have live: "woken_states sc ?ws = woken_states sc (ev_waiters ev)"
    using sched.valid_alive [of sc] by (auto simp: woken_states_def intro!: arg_cong [where f = first_occurrences] arg_cong [where f = "map reg_state"] filter_cong)
  obtain sc' where w: "wake_all ?ws sc = Inr sc'" "core_ok sc'" "ready_queue sc' = ready_queue sc @ woken_states sc ?ws"
    using wake_all_spec [OF assms] by blast
  have again: "\<exists>w. event_suspend sid h i (e, s) = Inr (False, w)" if "ev_set e" for e and s :: "'a sched_core_scheme"
    using that by (auto simp: event_suspend_def event_cleanup_def Let_def)
  show ?thesis
  proof (cases "?ws = []")
    case True
    then have "woken_states sc (ev_waiters ev) = []" using live by (simp add: woken_states_def)
    then show ?thesis using True assms again by (simp add: event_set_def event_cleanup_def Let_def)
  next
    case False
    then show ?thesis using w live again by (auto simp: event_set_def event_cleanup_def Let_def)
  qed
qed

lemma event_set_wakes_all_witness:
  "\<exists>w. event_set Ok (\<lparr>ev_waiters = [demo_reg 0], ev_scheduler = Some 0, ev_set = False\<rparr>, parked_demo) = Inr w \<and>
     ready_queue (snd w) = [0]"
proof -
  have "ready_queue parked_demo = []" by code_simp
  then show ?thesis
    using event_set_wakes_all [OF parked_demo_ok(1), of "\<lparr>ev_waiters = [demo_reg 0], ev_scheduler = Some 0, ev_set = False\<rparr>" 0 0 0]
      parked_demo_woken by auto
qed

end
