(* ===== verification/SparseMemory.thy ===== *)
theory SparseMemory
  imports Cpptb_Prelude
begin

text \<open>
  The reference memory of the verification components (\<open>cpptb_vc/memory_model.hpp\<close>) and its
  vocabulary (\<open>cpptb_vc/memory_mapped.hpp\<close>): regions of bytes with permissions, a byte order and a
  fill value, where only the bytes that differ from the fill value are stored. The ordered map of
  regions is the list of its values in the order of their base address, which is their key.
\<close>

section \<open>Vocabulary\<close>

datatype memory_operation = OpRead | OpWrite

datatype memory_status = Okay | SlaveError | DecodeError | Timeout

fun operation_name :: "memory_operation \<Rightarrow> string" where
  "operation_name OpRead = ''read''"
| "operation_name OpWrite = ''write''"

fun status_name :: "memory_status \<Rightarrow> string" where
  "status_name Okay = ''okay''"
| "status_name SlaveError = ''slave_error''"
| "status_name DecodeError = ''decode_error''"
| "status_name Timeout = ''timeout''"

definition memory_okay :: "memory_status \<Rightarrow> bool" where
  "memory_okay status = (status = Okay)"

record write_response =
  wr_status :: memory_status
  wr_wait_cycles :: u32

record 'd read_response =
  rr_data :: 'd
  rr_status :: memory_status
  rr_wait_cycles :: u32

record ('d, 'b) transaction =
  tr_operation :: memory_operation
  tr_address :: u64
  tr_data :: 'd
  tr_byte_enable :: 'b
  tr_status :: memory_status
  tr_wait_cycles :: u32

text \<open>\<open>MemoryPermission\<close> is a bit set: 1 for reading and 2 for writing.\<close>

datatype permission = NoAccess | ReadOnlyAccess | WriteOnlyAccess | ReadWriteAccess

fun permission_code :: "permission \<Rightarrow> u8" where
  "permission_code NoAccess = 0"
| "permission_code ReadOnlyAccess = 1"
| "permission_code WriteOnlyAccess = 2"
| "permission_code ReadWriteAccess = 3"

definition memory_readable :: "permission \<Rightarrow> bool" where
  "memory_readable p = (permission_code p AND permission_code ReadOnlyAccess \<noteq> 0)"

definition memory_writable :: "permission \<Rightarrow> bool" where
  "memory_writable p = (permission_code p AND permission_code WriteOnlyAccess \<noteq> 0)"

datatype byte_order = LittleEndian | BigEndian

section \<open>Regions\<close>

record region =
  rg_name :: string
  rg_base :: u64
  rg_size :: u64
  rg_permission :: permission
  rg_order :: byte_order
  rg_fill :: u8
  rg_bytes :: "u64 \<rightharpoonup> u8"

type_synonym memory = "region list"

definition rg_end :: "region \<Rightarrow> u64" where
  "rg_end r = rg_base r + rg_size r"

definition add_region :: "region \<Rightarrow> memory \<Rightarrow> memory result" where
  "add_region r m =
     (if rg_name r = [] then Fail (InvalidArgument ''memory region name must not be empty'')
      else if rg_size r = 0 then Fail (InvalidArgument ''memory region size must be greater than zero'')
      else if rg_base r > - 1 - rg_size r then Fail (InvalidArgument ''memory region address range overflows'')
      else
        let before = takeWhile (\<lambda>q. rg_base q < rg_base r) m;
            after = dropWhile (\<lambda>q. rg_base q < rg_base r) m
        in if after \<noteq> [] \<and> rg_base (hd after) < rg_end r
           then Fail (InvalidArgument ''memory region overlaps an existing region'')
           else if before \<noteq> [] \<and> rg_end (last before) > rg_base r
           then Fail (InvalidArgument ''memory region overlaps an existing region'')
           else Ok (before @ [r\<lparr>rg_bytes := Map.empty\<rparr>] @ after))"

text \<open>\<open>find_region\<close>: the position of the region that contains the whole range.\<close>

definition find_region :: "u64 \<Rightarrow> nat \<Rightarrow> memory \<Rightarrow> nat option" where
  "find_region address count m =
     (if count > max_u64 - unat address then None
      else
        let end_address = address + of_nat count;
            next = length (takeWhile (\<lambda>q. rg_base q \<le> address) m)
        in if next = 0 then None
           else
             let candidate = m ! (next - 1)
             in if rg_base candidate > address \<or> rg_end candidate < end_address then None
                else Some (next - 1))"

definition require_region :: "u64 \<Rightarrow> nat \<Rightarrow> memory \<Rightarrow> nat result" where
  "require_region address count m =
     (case find_region address count m of
        None \<Rightarrow> Fail (OutOfRange ''memory range is not contained in one region'')
      | Some i \<Rightarrow> Ok i)"

definition region_count :: "memory \<Rightarrow> nat" where
  "region_count m = length m"

definition allocated_bytes :: "memory \<Rightarrow> nat" where
  "allocated_bytes m = sum_list (map (\<lambda>r. card (dom (rg_bytes r))) m)"

definition byte_offset :: "region \<Rightarrow> u64 \<Rightarrow> nat \<Rightarrow> u64" where
  "byte_offset r address index = address - rg_base r + of_nat index"

definition load_byte :: "region \<Rightarrow> u64 \<Rightarrow> nat \<Rightarrow> u8" where
  "load_byte r address index =
     (case rg_bytes r (byte_offset r address index) of None \<Rightarrow> rg_fill r | Some b \<Rightarrow> b)"

definition store_byte :: "u64 \<Rightarrow> nat \<Rightarrow> u8 \<Rightarrow> region \<Rightarrow> region" where
  "store_byte address index value r =
     (if value = rg_fill r then r\<lparr>rg_bytes := (rg_bytes r)(byte_offset r address index := None)\<rparr>
      else r\<lparr>rg_bytes := (rg_bytes r)(byte_offset r address index \<mapsto> value)\<rparr>)"

definition store_bytes :: "u64 \<Rightarrow> (nat \<times> u8) list \<Rightarrow> region \<Rightarrow> region" where
  "store_bytes address = fold (\<lambda>(index, value). store_byte address index value)"

section \<open>Accesses\<close>

text \<open>
  A callback sees and may change the access before and after it happens; it leaves the number of
  bytes as it is. The data and enables of the event alias the caller's buffers.
\<close>

record access_event =
  ac_operation :: memory_operation
  ac_address :: u64
  ac_data :: "u8 list"
  ac_byte_enable :: "u8 list"
  ac_status :: memory_status
  ac_region :: string

type_synonym callback = "(access_event \<Rightarrow> access_event) \<times> (access_event \<Rightarrow> access_event)"

definition read_without_callback :: "u64 \<Rightarrow> u8 list \<Rightarrow> memory \<Rightarrow> memory_status \<times> u8 list" where
  "read_without_callback address data m =
     (case find_region address (length data) m of
        None \<Rightarrow> (DecodeError, data)
      | Some i \<Rightarrow>
          if \<not> memory_readable (rg_permission (m ! i)) then (SlaveError, data)
          else (Okay, map (load_byte (m ! i) address) [0..<length data]))"

definition region_name :: "nat option \<Rightarrow> memory \<Rightarrow> string" where
  "region_name region m = (case region of None \<Rightarrow> [] | Some i \<Rightarrow> rg_name (m ! i))"

definition read_into :: "callback option \<Rightarrow> u64 \<Rightarrow> u8 list \<Rightarrow> memory \<Rightarrow> memory_status \<times> u8 list" where
  "read_into callback address data m =
     (case callback of
        None \<Rightarrow> read_without_callback address data m
      | Some (before_access, after_access) \<Rightarrow>
          let region = find_region address (length data) m;
              event = before_access
                \<lparr>ac_operation = OpRead, ac_address = address, ac_data = data, ac_byte_enable = [],
                 ac_status = Okay, ac_region = region_name region m\<rparr>;
              event =
                (if ac_status event = Okay then
                   (case region of
                      None \<Rightarrow> event\<lparr>ac_status := DecodeError\<rparr>
                    | Some i \<Rightarrow>
                        if \<not> memory_readable (rg_permission (m ! i)) then event\<lparr>ac_status := SlaveError\<rparr>
                        else event\<lparr>ac_data := map (load_byte (m ! i) address) [0..<length data]\<rparr>)
                 else event);
              event = after_access event
          in (ac_status event, ac_data event))"

definition read_bytes :: "callback option \<Rightarrow> u64 \<Rightarrow> nat \<Rightarrow> memory \<Rightarrow> memory_status \<times> u8 list" where
  "read_bytes callback address count m = read_into callback address (replicate count 0) m"

definition write_without_callback ::
  "u64 \<Rightarrow> u8 list \<Rightarrow> u8 list \<Rightarrow> memory \<Rightarrow> memory_status \<times> memory" where
  "write_without_callback address data byte_enable m =
     (case find_region address (length data) m of
        None \<Rightarrow> (DecodeError, m)
      | Some i \<Rightarrow>
          if \<not> memory_writable (rg_permission (m ! i)) then (SlaveError, m)
          else (Okay, m[i := store_bytes address
                 (filter (\<lambda>(index, _). byte_enable = [] \<or> byte_enable ! index \<noteq> 0)
                    (enumerate 0 data)) (m ! i)]))"

definition write_mutable ::
  "callback option \<Rightarrow> u64 \<Rightarrow> u8 list \<Rightarrow> u8 list \<Rightarrow> memory \<Rightarrow> memory_status \<times> memory" where
  "write_mutable callback address data byte_enable m =
     (let region = find_region address (length data) m;
          event = \<lparr>ac_operation = OpWrite, ac_address = address, ac_data = data,
                   ac_byte_enable = byte_enable, ac_status = Okay, ac_region = region_name region m\<rparr>;
          event = (case callback of None \<Rightarrow> event | Some (before_access, _) \<Rightarrow> before_access event);
          (event, m) =
            (if ac_status event = Okay then
               (case region of
                  None \<Rightarrow> (event\<lparr>ac_status := DecodeError\<rparr>, m)
                | Some i \<Rightarrow>
                    if \<not> memory_writable (rg_permission (m ! i)) then (event\<lparr>ac_status := SlaveError\<rparr>, m)
                    else (event, m[i := store_bytes address
                           (filter (\<lambda>(index, _). ac_byte_enable event ! index \<noteq> 0)
                              (enumerate 0 (ac_data event))) (m ! i)]))
             else (event, m));
          event = (case callback of None \<Rightarrow> event | Some (_, after_access) \<Rightarrow> after_access event)
      in (ac_status event, m))"

definition write_bytes ::
  "callback option \<Rightarrow> u64 \<Rightarrow> u8 list \<Rightarrow> u8 list \<Rightarrow> memory \<Rightarrow> (memory_status \<times> memory) result" where
  "write_bytes callback address data byte_enable m =
     (if byte_enable \<noteq> [] \<and> length byte_enable \<noteq> length data
      then Fail (InvalidArgument ''byte-enable count must match write size'')
      else if callback = None then Ok (write_without_callback address data byte_enable m)
      else
        Ok (write_mutable callback address data
          (if byte_enable = [] then replicate (length data) 1
           else map (\<lambda>b. if b \<noteq> 0 then 1 else 0) byte_enable) m))"

section \<open>Words\<close>

text \<open>\<open>sizeof\<close> a data word of a whole number of bytes.\<close>

definition word_bytes :: "'d::len word itself \<Rightarrow> nat" where
  "word_bytes _ = LENGTH('d) div 8"

definition shift_index :: "byte_order \<Rightarrow> nat \<Rightarrow> nat \<Rightarrow> nat" where
  "shift_index order count index = (case order of LittleEndian \<Rightarrow> index | BigEndian \<Rightarrow> count - 1 - index)"

definition byte_order_at :: "u64 \<Rightarrow> nat \<Rightarrow> memory \<Rightarrow> byte_order" where
  "byte_order_at address count m =
     (case find_region address count m of None \<Rightarrow> LittleEndian | Some i \<Rightarrow> rg_order (m ! i))"

text \<open>Addresses come as integers; a negative one throws.\<close>

definition normalize_address :: "int \<Rightarrow> u64 result" where
  "normalize_address address =
     (if address < 0 then Fail (OutOfRange ''memory address must not be negative'')
      else Ok (of_int address))"

definition bytes_to_word :: "byte_order \<Rightarrow> u8 list \<Rightarrow> 'd::len word" where
  "bytes_to_word order bytes =
     fold (\<lambda>index value. value OR push_bit (shift_index order (length bytes) index * 8) (ucast (bytes ! index)))
       [0..<length bytes] 0"

definition word_to_bytes :: "byte_order \<Rightarrow> 'd::len word \<Rightarrow> u8 list" where
  "word_to_bytes order value =
     map (\<lambda>index. ucast (drop_bit (shift_index order (word_bytes TYPE('d word)) index * 8) value))
       [0..<word_bytes TYPE('d word)]"

definition read_word :: "callback option \<Rightarrow> int \<Rightarrow> memory \<Rightarrow> 'd::len word read_response result" where
  "read_word callback address m =
     result_bind (normalize_address address) (\<lambda>a.
       let count = word_bytes TYPE('d word);
           (status, bytes) = read_into callback a (replicate count 0) m
       in Ok \<lparr>rr_data = bytes_to_word (byte_order_at a count m) bytes, rr_status = status,
              rr_wait_cycles = 0\<rparr>)"

definition write_word ::
  "callback option \<Rightarrow> int \<Rightarrow> 'd::len word \<Rightarrow> 'e::len word \<Rightarrow> memory \<Rightarrow>
   (write_response \<times> memory) result" where
  "write_word callback address value byte_enable m =
     result_bind (normalize_address address) (\<lambda>a.
       let count = word_bytes TYPE('d word);
           bytes = word_to_bytes (byte_order_at a count m) value;
           enables = map (\<lambda>index. if bit byte_enable index then 1 else 0) [0..<count];
           (status, m) =
             (if callback = None then write_without_callback a bytes enables m
              else write_mutable callback a bytes enables m)
       in Ok (\<lparr>wr_status = status, wr_wait_cycles = 0\<rparr>, m))"

definition write_whole_word ::
  "callback option \<Rightarrow> int \<Rightarrow> 'd::len word \<Rightarrow> memory \<Rightarrow> (write_response \<times> memory) result" where
  "write_whole_word callback address value m =
     (let bytes = word_bytes TYPE('d word);
          all_bytes = (if bytes \<ge> 64 then - 1 else push_bit bytes 1 - 1) :: u64
      in write_word callback address value all_bytes m)"

section \<open>Backdoor\<close>

definition load :: "u64 \<Rightarrow> u8 list \<Rightarrow> memory \<Rightarrow> memory result" where
  "load address data m =
     result_bind (require_region address (length data) m) (\<lambda>i.
       Ok (m[i := store_bytes address (enumerate 0 data) (m ! i)]))"

definition fill :: "u64 \<Rightarrow> nat \<Rightarrow> u8 \<Rightarrow> memory \<Rightarrow> memory result" where
  "fill address count value m =
     result_bind (require_region address count m) (\<lambda>i.
       Ok (m[i := store_bytes address (enumerate 0 (replicate count value)) (m ! i)]))"

definition inspect :: "u64 \<Rightarrow> nat \<Rightarrow> memory \<Rightarrow> u8 list result" where
  "inspect address count m =
     result_bind (require_region address count m) (\<lambda>i. Ok (map (load_byte (m ! i) address) [0..<count]))"

text \<open>The contents of an image, if it can be opened.\<close>

definition load_file :: "u64 \<Rightarrow> u8 list option \<Rightarrow> memory \<Rightarrow> memory result" where
  "load_file address contents m =
     (case contents of
        None \<Rightarrow> Fail (RuntimeError ''cannot open memory image'')
      | Some data \<Rightarrow> load address data m)"

text \<open>What is written to a file that can be opened and takes the bytes.\<close>

definition dump_file :: "u64 \<Rightarrow> nat \<Rightarrow> bool \<Rightarrow> bool \<Rightarrow> memory \<Rightarrow> u8 list result" where
  "dump_file address count opens writes m =
     result_bind (inspect address count m) (\<lambda>data.
       if \<not> opens then Fail (RuntimeError ''cannot write memory image'')
       else if \<not> writes then Fail (RuntimeError ''failed writing memory image'')
       else Ok data)"

section \<open>Predictor\<close>

text \<open>
  \<open>MemoryPredictor\<close> replays every observed transaction on a model it is given, as two functions,
  and counts the ones whose outcome differs. The failed expectations go to the test's report,
  which is not modelled.
\<close>

record 'm predictor =
  pd_model :: 'm
  pd_reads :: u64
  pd_writes :: u64
  pd_mismatches :: u64

datatype disposition = Completed | Aborted | Incomplete

fun disposition_name :: "disposition \<Rightarrow> string" where
  "disposition_name Completed = ''completed''"
| "disposition_name Aborted = ''aborted''"
| "disposition_name Incomplete = ''incomplete''"

definition predict ::
  "('m \<Rightarrow> u64 \<Rightarrow> ('d read_response \<times> 'm) result) \<Rightarrow>
   ('m \<Rightarrow> u64 \<Rightarrow> 'd \<Rightarrow> 'b \<Rightarrow> (write_response \<times> 'm) result) \<Rightarrow>
   ('d, 'b) transaction \<Rightarrow> 'm predictor \<Rightarrow> 'm predictor result" where
  "predict read write observed p =
     result_bind
       (case tr_operation observed of
          OpRead \<Rightarrow> result_bind (read (pd_model p) (tr_address observed)) (\<lambda>(response, m).
            Ok (observed\<lparr>tr_data := rr_data response, tr_status := rr_status response\<rparr>,
                p\<lparr>pd_model := m, pd_reads := pd_reads p + 1\<rparr>))
        | OpWrite \<Rightarrow>
            result_bind (write (pd_model p) (tr_address observed) (tr_data observed) (tr_byte_enable observed))
              (\<lambda>(response, m).
                Ok (observed\<lparr>tr_status := wr_status response\<rparr>,
                    p\<lparr>pd_model := m, pd_writes := pd_writes p + 1\<rparr>)))
       (\<lambda>(expected, p).
          Ok (if observed \<noteq> expected then p\<lparr>pd_mismatches := pd_mismatches p + 1\<rparr> else p))"

definition predict_observation ::
  "('m \<Rightarrow> u64 \<Rightarrow> ('d read_response \<times> 'm) result) \<Rightarrow>
   ('m \<Rightarrow> u64 \<Rightarrow> 'd \<Rightarrow> 'b \<Rightarrow> (write_response \<times> 'm) result) \<Rightarrow>
   disposition \<Rightarrow> ('d, 'b) transaction \<Rightarrow> 'm predictor \<Rightarrow> 'm predictor result" where
  "predict_observation read write disposition observed p =
     (if disposition = Completed then predict read write observed p else Ok p)"

end
