(* ===== verification/MemoryLemmas.thy ===== *)
theory MemoryLemmas
  imports SparseMemory
begin

text \<open>
  Lemmas of the reference memory: what a well-formed memory is and that lookup is exact on it, what
  the accesses do to the contents seen as one partial function of the address, and that words survive
  the way through their bytes.
\<close>

section \<open>Well-formed memories\<close>

definition region_ok :: "region \<Rightarrow> bool" where
  "region_ok r \<longleftrightarrow>
     rg_name r \<noteq> [] \<and> rg_size r \<noteq> 0 \<and> unat (rg_base r) + unat (rg_size r) \<le> max_u64 \<and>
     (\<forall>offset value. rg_bytes r offset = Some value \<longrightarrow> offset < rg_size r \<and> value \<noteq> rg_fill r)"

definition lies_before :: "region \<Rightarrow> region \<Rightarrow> bool" where
  "lies_before q r \<longleftrightarrow> unat (rg_base q) + unat (rg_size q) \<le> unat (rg_base r)"

definition memory_ok :: "memory \<Rightarrow> bool" where
  "memory_ok m \<longleftrightarrow> sorted_wrt lies_before m \<and> list_all region_ok m"

lemma region_ok_nth: "memory_ok m \<Longrightarrow> i < length m \<Longrightarrow> region_ok (m ! i)"
  by (simp add: memory_ok_def list_all_length)

lemma unat_u64_bound: "unat (w :: u64) \<le> max_u64"
  using unsigned_less [where ?'a = nat, of w] by (simp add: max_u64_def)

lemma unat_u64_add: "unat (v :: u64) + n \<le> max_u64 \<Longrightarrow> unat (v + of_nat n) = unat v + n"
  by (simp add: unat_word_ariths unat_of_nat max_u64_def take_bit_eq_mod)

lemma unat_rg_end: "region_ok r \<Longrightarrow> unat (rg_end r) = unat (rg_base r) + unat (rg_size r)"
  using unat_u64_add [of "rg_base r" "unat (rg_size r)"] by (simp add: region_ok_def rg_end_def)

lemma region_size_positive: "region_ok r \<Longrightarrow> 0 < unat (rg_size r)"
  by (simp add: region_ok_def unat_gt_0)

lemma lies_before_nth:
  assumes "memory_ok m" "i < j" "j < length m"
  shows "unat (rg_base (m ! i)) + unat (rg_size (m ! i)) \<le> unat (rg_base (m ! j))"
  using assms sorted_wrt_nth_less [of lies_before m i j] by (simp add: memory_ok_def lies_before_def)

lemma base_nth_less:
  assumes "memory_ok m" "i < j" "j < length m"
  shows "unat (rg_base (m ! i)) < unat (rg_base (m ! j))"
  using lies_before_nth [OF assms] region_size_positive [OF region_ok_nth [OF assms(1), of i]] assms
  by simp

section \<open>Lookup\<close>

lemma length_takeWhile_iff:
  assumes "\<And>i j. i < j \<Longrightarrow> j < length xs \<Longrightarrow> P (xs ! j) \<Longrightarrow> P (xs ! i)" "k < length xs"
  shows "k < length (takeWhile P xs) \<longleftrightarrow> P (xs ! k)"
proof
  assume "k < length (takeWhile P xs)"
  then show "P (xs ! k)"
    using nth_mem set_takeWhileD takeWhile_nth by metis
next
  assume k: "P (xs ! k)"
  show "k < length (takeWhile P xs)"
  proof (rule ccontr)
    assume "\<not> k < length (takeWhile P xs)"
    then have le: "length (takeWhile P xs) \<le> k" by simp
    then have "length (takeWhile P xs) < length xs" using assms(2) by simp
    then have "\<not> P (xs ! length (takeWhile P xs))" by (rule nth_length_takeWhile)
    then show False
      using assms(1) [of "length (takeWhile P xs)" k] k assms(2) le by (metis le_neq_implies_less)
  qed
qed

lemma region_below_iff:
  assumes "memory_ok m" "k < length m"
  shows "k < length (takeWhile (\<lambda>q. rg_base q \<le> address) m) \<longleftrightarrow> rg_base (m ! k) \<le> address"
proof (rule length_takeWhile_iff [OF _ assms(2)])
  fix i j
  assume "i < j" "j < length m" "rg_base (m ! j) \<le> address"
  then show "rg_base (m ! i) \<le> address"
    using base_nth_less [OF assms(1), of i j] by (simp add: word_le_nat_alt)
qed

definition covers :: "region \<Rightarrow> u64 \<Rightarrow> nat \<Rightarrow> bool" where
  "covers r address n \<longleftrightarrow>
     unat (rg_base r) \<le> unat address \<and> unat address + n \<le> unat (rg_base r) + unat (rg_size r)"

lemma covers_unique:
  assumes "memory_ok m" "covers (m ! i) address n" "covers (m ! j) address n" "0 < n"
    "i < length m" "j < length m"
  shows "i = j"
  using assms lies_before_nth [OF assms(1), of i j] lies_before_nth [OF assms(1), of j i]
  by (cases i j rule: linorder_cases) (auto simp: covers_def)

lemma find_region_covers:
  assumes "memory_ok m" "find_region address n m = Some i"
  shows "i < length m" "covers (m ! i) address n"
proof -
  define upper where "upper = length (takeWhile (\<lambda>q. rg_base q \<le> address) m)"
  have le: "upper \<le> length m" unfolding upper_def by (rule length_takeWhile_le)
  from assms(2) have small: "unat address + n \<le> max_u64" and i: "0 < upper" "i = upper - 1"
    and r: "rg_base (m ! i) \<le> address" "address + of_nat n \<le> rg_end (m ! i)"
    using unat_u64_bound [of address]
    by (auto simp: find_region_def Let_def upper_def not_less not_le split: if_splits)
  show len: "i < length m" using le i by simp
  show "covers (m ! i) address n"
    using r unat_u64_add [OF small] unat_rg_end [OF region_ok_nth [OF assms(1) len]]
    by (simp add: covers_def word_le_nat_alt)
qed

lemma covers_small: "region_ok r \<Longrightarrow> covers r address n \<Longrightarrow> unat address + n \<le> max_u64"
  by (simp add: covers_def region_ok_def)

lemma find_region_iff:
  assumes "memory_ok m" "0 < n"
  shows "find_region address n m = Some i \<longleftrightarrow> i < length m \<and> covers (m ! i) address n"
proof
  assume "find_region address n m = Some i"
  then show "i < length m \<and> covers (m ! i) address n"
    using find_region_covers [OF assms(1)] by blast
next
  assume i: "i < length m \<and> covers (m ! i) address n"
  define upper where "upper = length (takeWhile (\<lambda>q. rg_base q \<le> address) m)"
  have ok: "region_ok (m ! i)" using i assms(1) region_ok_nth by blast
  note small = covers_small [OF ok conjunct2 [OF i]]
  have "i < upper"
    using i region_below_iff [OF assms(1), of i] by (simp add: upper_def covers_def word_le_nat_alt)
  moreover have "\<not> Suc i < upper"
  proof
    assume more_below: "Suc i < upper"
    then have len: "Suc i < length m" by (simp add: upper_def less_le_trans [OF _ length_takeWhile_le])
    then have "rg_base (m ! Suc i) \<le> address"
      using region_below_iff [OF assms(1), of "Suc i"] more_below by (simp add: upper_def)
    with i assms(2) show False
      using lies_before_nth [OF assms(1), of i "Suc i"] len by (simp add: covers_def word_le_nat_alt)
  qed
  ultimately have "upper = Suc i" by simp
  moreover have "address + of_nat n \<le> rg_end (m ! i)" "rg_base (m ! i) \<le> address"
    using i unat_u64_add [OF small] unat_rg_end [OF ok] by (simp_all add: covers_def word_le_nat_alt)
  moreover have "\<not> n > max_u64 - unat address" using small by simp
  ultimately show "find_region address n m = Some i"
    by (simp add: find_region_def Let_def upper_def [symmetric] not_less not_le)
qed

lemma find_region_None_iff:
  assumes "memory_ok m" "0 < n"
  shows "find_region address n m = None \<longleftrightarrow> (\<forall>i<length m. \<not> covers (m ! i) address n)"
  using find_region_iff [OF assms, of address] by (cases "find_region address n m") auto

lemma find_region_sub:
  assumes "memory_ok m" "find_region address n m = Some i" "j < n"
  shows "find_region (address + of_nat j) 1 m = Some i"
proof -
  note i = find_region_covers [OF assms(1,2)]
  have small: "unat address + j \<le> max_u64"
    using covers_small [OF region_ok_nth [OF assms(1) i(1)] i(2)] assms(3) by simp
  have "covers (m ! i) (address + of_nat j) 1"
    using i(2) assms(3) by (auto simp: covers_def unat_u64_add [OF small])
  then show ?thesis using i(1) by (simp add: find_region_iff [OF assms(1)])
qed

section \<open>Contents\<close>

text \<open>The memory as one partial function, and what a write lays over it.\<close>

definition contents :: "memory \<Rightarrow> u64 \<Rightarrow> u8 option" where
  "contents m address =
     (case find_region address 1 m of None \<Rightarrow> None | Some i \<Rightarrow> Some (load_byte (m ! i) address 0))"

definition patch :: "u64 \<Rightarrow> u8 list \<Rightarrow> (nat \<Rightarrow> bool) \<Rightarrow> u64 \<Rightarrow> u8 option" where
  "patch address data enabled x =
     (let k = unat (x - address) in if k < length data \<and> enabled k then Some (data ! k) else None)"

lemma contents_in_region:
  assumes "memory_ok m" "find_region address n m = Some i" "j < n"
  shows "contents m (address + of_nat j) = Some (load_byte (m ! i) address j)"
proof -
  have "byte_offset (m ! i) (address + of_nat j) 0 = byte_offset (m ! i) address j"
    by (simp add: byte_offset_def)
  then show ?thesis
    by (simp add: contents_def find_region_sub [OF assms] load_byte_def del: One_nat_def)
qed

lemma store_byte_shape [simp]:
  "rg_name (store_byte address i v r) = rg_name r"
  "rg_base (store_byte address i v r) = rg_base r"
  "rg_size (store_byte address i v r) = rg_size r"
  "rg_permission (store_byte address i v r) = rg_permission r"
  "rg_order (store_byte address i v r) = rg_order r"
  "rg_fill (store_byte address i v r) = rg_fill r"
  by (simp_all add: store_byte_def)

lemma store_bytes_shape [simp]:
  "rg_name (store_bytes address xs r) = rg_name r"
  "rg_base (store_bytes address xs r) = rg_base r"
  "rg_size (store_bytes address xs r) = rg_size r"
  "rg_permission (store_bytes address xs r) = rg_permission r"
  "rg_order (store_bytes address xs r) = rg_order r"
  "rg_fill (store_bytes address xs r) = rg_fill r"
  unfolding store_bytes_def by (induction xs arbitrary: r) auto

lemma store_bytes_simps [simp]:
  "store_bytes address [] r = r"
  "store_bytes address ((i, v) # xs) r = store_bytes address xs (store_byte address i v r)"
  by (simp_all add: store_bytes_def)

lemma rg_bytes_store_byte [simp]:
  "rg_bytes (store_byte address i v r) =
     (rg_bytes r)(byte_offset r address i := (if v = rg_fill r then None else Some v))"
  by (simp add: store_byte_def)

lemma load_store_byte:
  "load_byte (store_byte address i v r) x 0 =
     (if x = address + of_nat i then v else load_byte r x 0)"
  by (auto simp: load_byte_def byte_offset_def algebra_simps split: option.splits)

lemma offset_eq_iff:
  fixes x address :: u64
  assumes "i \<le> max_u64"
  shows "x = address + of_nat i \<longleftrightarrow> unat (x - address) = i"
proof
  assume "x = address + of_nat i"
  then show "unat (x - address) = i"
    using unat_u64_add [of 0 i] assms by simp
next
  assume "unat (x - address) = i"
  then have "of_nat i = x - address" by auto
  then show "x = address + of_nat i" by simp
qed

lemma load_store_bytes:
  assumes "distinct (map fst xs)" "\<forall>i\<in>fst ` set xs. i \<le> max_u64"
  shows "load_byte (store_bytes address xs r) x 0 =
    (case map_of xs (unat (x - address)) of None \<Rightarrow> load_byte r x 0 | Some v \<Rightarrow> v)"
  using assms
proof (induction xs arbitrary: r)
  case Nil
  then show ?case by simp
next
  case (Cons iv xs)
  obtain i v where iv: "iv = (i, v)" by fastforce
  have "map_of xs i = None" using Cons.prems(1) by (simp add: iv map_of_eq_None_iff)
  moreover have "x = address + of_nat i \<longleftrightarrow> unat (x - address) = i"
    using Cons.prems(2) by (intro offset_eq_iff) (simp add: iv)
  ultimately show ?case
    using Cons.IH [of "store_byte address i v r"] Cons.prems
    by (auto simp: iv load_store_byte split: option.splits)
qed

lemma map_of_enabled:
  "map_of (filter (\<lambda>(i, _). enabled i) (enumerate k data)) j =
     (if k \<le> j \<and> j < k + length data \<and> enabled j then Some (data ! (j - k)) else None)"
proof (induction data arbitrary: k)
  case Nil
  then show ?case by simp
next
  case (Cons v data)
  show ?case
    using Cons.IH [of "Suc k"] by (auto simp: nth_Cons' not_less_eq_eq not_le dest: le_antisym)
qed

lemma distinct_enabled: "distinct (map fst (filter P (enumerate k data)))"
  by (simp add: distinct_map_filter)

lemma enabled_index: "i \<in> fst ` set (filter P (enumerate k data)) \<Longrightarrow> k \<le> i \<and> i < k + length data"
  by (auto simp: in_set_enumerate_eq)

abbreviation enabled_bytes :: "(nat \<Rightarrow> bool) \<Rightarrow> u8 list \<Rightarrow> (nat \<times> u8) list" where
  "enabled_bytes enabled data \<equiv> filter (\<lambda>(i, _). enabled i) (enumerate 0 data)"

lemma load_enabled:
  assumes "length data \<le> Suc max_u64"
  shows "load_byte (store_bytes address (enabled_bytes enabled data) r) x 0 =
    (case patch address data enabled x of None \<Rightarrow> load_byte r x 0 | Some v \<Rightarrow> v)"
proof -
  have "\<forall>i\<in>fst ` set (enabled_bytes enabled data). i \<le> max_u64"
    using enabled_index assms by fastforce
  from load_store_bytes [OF distinct_enabled this] show ?thesis
    unfolding patch_def Let_def map_of_enabled by simp
qed

lemma region_ok_store_byte:
  assumes "region_ok r" "covers r address n" "i < n"
  shows "region_ok (store_byte address i v r)"
proof -
  have "unat (byte_offset r address i) = unat address - unat (rg_base r) + i"
  proof -
    have le: "rg_base r \<le> address" using assms(2) by (simp add: covers_def word_le_nat_alt)
    have "unat (address - rg_base r) + i \<le> max_u64"
      using assms by (auto simp: covers_def region_ok_def unat_sub [OF le])
    from unat_u64_add [OF this] show ?thesis by (simp add: byte_offset_def unat_sub [OF le])
  qed
  then have "byte_offset r address i < rg_size r"
    using assms by (auto simp: covers_def word_less_nat_alt)
  then show ?thesis
    using assms(1) by (auto simp: region_ok_def store_byte_def)
qed

lemma region_ok_store_bytes:
  assumes "region_ok r" "covers r address n" "\<forall>i\<in>fst ` set xs. i < n"
  shows "region_ok (store_bytes address xs r)"
  using assms
proof (induction xs arbitrary: r)
  case Nil
  then show ?case by simp
next
  case (Cons iv xs)
  obtain i v where iv: "iv = (i, v)" by fastforce
  show ?case
    using Cons.IH [of "store_byte address i v r"] Cons.prems region_ok_store_byte [of r address n i v]
    by (simp add: iv covers_def)
qed

text \<open>A region replaced by one of the same place.\<close>

definition same_place :: "region \<Rightarrow> region \<Rightarrow> bool" where
  "same_place r r' \<longleftrightarrow> rg_base r' = rg_base r \<and> rg_size r' = rg_size r"

lemma takeWhile_update:
  "i < length xs \<Longrightarrow> P y = P (xs ! i) \<Longrightarrow> length (takeWhile P (xs[i := y])) = length (takeWhile P xs)"
  by (induction xs arbitrary: i) (auto simp: nth_Cons split: nat.splits)

lemma find_region_update:
  assumes "i < length m" "same_place (m ! i) r"
  shows "find_region address n (m[i := r]) = find_region address n m"
proof -
  have "length (takeWhile (\<lambda>q. rg_base q \<le> address) (m[i := r])) =
      length (takeWhile (\<lambda>q. rg_base q \<le> address) m)"
    using assms by (intro takeWhile_update) (simp_all add: same_place_def)
  moreover have "rg_base (m[i := r] ! k) = rg_base (m ! k)" "rg_end (m[i := r] ! k) = rg_end (m ! k)" for k
    using assms by (auto simp: nth_list_update same_place_def rg_end_def)
  ultimately show ?thesis by (simp add: find_region_def Let_def)
qed

lemma memory_ok_update:
  assumes "memory_ok m" "i < length m" "same_place (m ! i) r" "region_ok r"
  shows "memory_ok (m[i := r])"
proof -
  have "sorted_wrt lies_before (m[i := r])"
    using assms(1,2,3) unfolding memory_ok_def sorted_wrt_iff_nth_less
    by (auto simp: nth_list_update lies_before_def same_place_def)
  then show ?thesis
    using assms by (auto simp: memory_ok_def list_all_iff dest: set_update_subset_insert [THEN subsetD])
qed

lemma stored_memory:
  fixes enabled :: "nat \<Rightarrow> bool"
  assumes "memory_ok m" "find_region address (length data) m = Some i"
  defines "m' \<equiv> m[i := store_bytes address (enabled_bytes enabled data) (m ! i)]"
  shows "memory_ok m'" "contents m' = contents m ++ patch address data enabled"
proof -
  note i = find_region_covers [OF assms(1,2)]
  note ok = region_ok_nth [OF assms(1) i(1)]
  have place: "same_place (m ! i) (store_bytes address (enabled_bytes enabled data) (m ! i))"
    by (simp add: same_place_def)
  have "region_ok (store_bytes address (enabled_bytes enabled data) (m ! i))"
    by (rule region_ok_store_bytes [OF ok i(2)]) (use enabled_index in fastforce)
  then show "memory_ok m'"
    unfolding m'_def using assms(1) i(1) place by (intro memory_ok_update)
  have small: "length data \<le> Suc max_u64"
    using covers_small [OF ok i(2)] by simp
  show "contents m' = contents m ++ patch address data enabled"
  proof
    fix x
    show "contents m' x = (contents m ++ patch address data enabled) x"
    proof (cases "find_region x 1 m = Some i")
      case True
      then show ?thesis
        using i(1) unfolding m'_def contents_def map_add_def
        by (simp add: find_region_update [OF i(1) place] load_enabled [OF small] split: option.splits)
    next
      case False
      have "patch address data enabled x = None"
      proof (rule ccontr)
        assume "patch address data enabled x \<noteq> None"
        then have "unat (x - address) < length data"
          by (auto simp: patch_def Let_def split: if_splits)
        from find_region_sub [OF assms(1,2) this] False show False by simp
      qed
      then show ?thesis
        using False unfolding m'_def contents_def map_add_def
        by (auto simp: find_region_update [OF i(1) place] split: option.splits)
    qed
  qed
qed

section \<open>Accesses\<close>

text \<open>The status an access of \<open>n > 0\<close> bytes has, given what the permission must allow.\<close>

definition access_status :: "(permission \<Rightarrow> bool) \<Rightarrow> u64 \<Rightarrow> nat \<Rightarrow> memory \<Rightarrow> memory_status" where
  "access_status allowed address n m =
     (case find (\<lambda>r. covers r address n) m of
        None \<Rightarrow> DecodeError
      | Some r \<Rightarrow> if allowed (rg_permission r) then Okay else SlaveError)"

lemma find_covering:
  assumes "memory_ok m" "0 < n"
  shows "find (\<lambda>r. covers r address n) m = map_option ((!) m) (find_region address n m)"
proof (cases "find_region address n m")
  case None
  then have "find (\<lambda>r. covers r address n) m = None"
    unfolding find_None_iff in_set_conv_nth using find_region_None_iff [OF assms, of address] by auto
  with None show ?thesis by simp
next
  case (Some i)
  note i = find_region_covers [OF assms(1) Some]
  have "\<not> covers (m ! j) address n" if "j < i" for j
    using covers_unique [OF assms(1), of j address n i] i assms(2) that by auto
  with i Some show ?thesis by (auto simp: find_Some_iff)
qed

lemma access_status_eq:
  assumes "memory_ok m" "0 < n"
  shows "access_status allowed address n m =
    (case find_region address n m of None \<Rightarrow> DecodeError
     | Some i \<Rightarrow> if allowed (rg_permission (m ! i)) then Okay else SlaveError)"
  by (simp add: access_status_def find_covering [OF assms] split: option.split)

lemma read_without_callback_refines:
  assumes "memory_ok m" "data \<noteq> []"
  shows "read_without_callback address data m =
    (let status = access_status memory_readable address (length data) m
     in (status, if status = Okay then map (\<lambda>j. the (contents m (address + of_nat j))) [0..<length data]
                 else data))"
proof -
  have pos: "0 < length data" using assms(2) by simp
  show ?thesis
    by (auto simp: read_without_callback_def access_status_eq [OF assms(1) pos] Let_def
        contents_in_region [OF assms(1)] split: option.split)
qed

lemma write_without_callback_refines:
  fixes byte_enable :: "u8 list"
  assumes "memory_ok m" "data \<noteq> []" "write_without_callback address data byte_enable m = (status, m')"
  defines "enabled \<equiv> \<lambda>i. byte_enable = [] \<or> byte_enable ! i \<noteq> 0"
  shows "status = access_status memory_writable address (length data) m" "memory_ok m'"
    "contents m' = (if status = Okay then contents m ++ patch address data enabled else contents m)"
    "status \<noteq> Okay \<Longrightarrow> m' = m"
proof -
  have pos: "0 < length data" using assms(2) by simp
  show "status = access_status memory_writable address (length data) m"
    using assms(3)
    by (auto simp: write_without_callback_def access_status_eq [OF assms(1) pos]
        split: option.splits if_splits)
  have cases: "status \<noteq> Okay \<and> m' = m \<or> status = Okay \<and> (\<exists>i. find_region address (length data) m = Some i \<and>
      m' = m[i := store_bytes address (enabled_bytes enabled data) (m ! i)])"
    using assms(3) by (auto simp: write_without_callback_def enabled_def split: option.splits if_splits)
  then show "memory_ok m'"
    "contents m' = (if status = Okay then contents m ++ patch address data enabled else contents m)"
    "status \<noteq> Okay \<Longrightarrow> m' = m"
    using assms(1) stored_memory [OF assms(1), of address data _ enabled] by auto
qed

section \<open>Words\<close>

lemma shift_index_less: "i < n \<Longrightarrow> shift_index order n i < n"
  by (cases order) (auto simp: shift_index_def)

lemma shift_index_twice [simp]: "i < n \<Longrightarrow> shift_index order n (shift_index order n i) = i"
  by (cases order) (auto simp: shift_index_def)

lemma bit_fold_or:
  fixes f :: "nat \<Rightarrow> 'a::len word"
  shows "bit (fold (\<lambda>i v. v OR f i) is a) k \<longleftrightarrow> bit a k \<or> (\<exists>i\<in>set is. bit (f i) k)"
  by (induction "is" arbitrary: a) (auto simp: bit_or_iff)

lemma bit_bytes_to_word:
  fixes k :: nat
  defines "lane order n \<equiv> shift_index order n (k div 8)"
  shows "bit (bytes_to_word order bytes :: 'd::len word) k \<longleftrightarrow>
    k < LENGTH('d) \<and> k div 8 < length bytes \<and> bit (bytes ! lane order (length bytes)) (k mod 8)"
    (is "?bit \<longleftrightarrow> ?at")
proof
  assume ?bit
  then obtain i where i: "i < length bytes" "k < LENGTH('d)"
    "shift_index order (length bytes) i * 8 \<le> k"
    "bit (bytes ! i) (k - shift_index order (length bytes) i * 8)"
    by (auto simp: bytes_to_word_def bit_fold_or bit_push_bit_iff bit_ucast_iff)
  define s where "s = shift_index order (length bytes) i"
  have less: "k - s * 8 < 8" "s * 8 \<le> k"
    using bit_imp_le_length [OF i(4)] i(3) by (simp_all add: s_def)
  then have k: "k = s * 8 + (k - s * 8)" by simp
  have "k div 8 = s" "k mod 8 = k - s * 8"
    by (subst k, simp add: less(1) div_mult_self3 del: le_add_diff_inverse2 le_add_diff_inverse)+
  then show ?at
    using i shift_index_less [OF i(1), of order] by (simp add: lane_def s_def)
next
  assume at: ?at
  define i where "i = lane order (length bytes)"
  have "i < length bytes" "shift_index order (length bytes) i = k div 8"
    using at by (simp_all add: i_def lane_def shift_index_less)
  moreover have "bit (push_bit (k div 8 * 8) (ucast (bytes ! i) :: 'd word)) k"
    using at le_less_trans [OF mod_less_eq_dividend, of k "LENGTH('d)" 8]
    by (simp add: bit_push_bit_iff bit_ucast_iff i_def minus_div_mult_eq_mod)
  ultimately show ?bit
    unfolding bytes_to_word_def bit_fold_or by (intro disjI2 bexI [of _ i]) simp_all
qed

lemma bit_word_to_bytes:
  "i < word_bytes TYPE('d::len word) \<Longrightarrow>
   bit (word_to_bytes order (v :: 'd word) ! i) j \<longleftrightarrow>
     j < 8 \<and> bit v (shift_index order (word_bytes TYPE('d word)) i * 8 + j)"
  by (auto simp: word_to_bytes_def bit_ucast_iff bit_drop_bit_eq)

lemma length_word_to_bytes [simp]: "length (word_to_bytes order (v :: 'd::len word)) = word_bytes TYPE('d word)"
  by (simp add: word_to_bytes_def)

lemma bytes_of_word_round_trip:
  fixes v :: "'d::len word"
  assumes "8 dvd LENGTH('d)"
  shows "bytes_to_word order (word_to_bytes order v) = v"
proof (rule bit_word_eqI)
  fix k
  assume k: "k < LENGTH('d)"
  have "k div 8 < word_bytes TYPE('d word)"
    using k assms by (auto simp: word_bytes_def)
  then show "bit (bytes_to_word order (word_to_bytes order v) :: 'd word) k = bit v k"
    using k by (simp add: bit_bytes_to_word bit_word_to_bytes shift_index_less)
qed

section \<open>The layout\<close>

text \<open>What no access changes: the regions without the bytes they store.\<close>

definition layout :: "memory \<Rightarrow> memory" where
  "layout m = map (\<lambda>r. r\<lparr>rg_bytes := Map.empty\<rparr>) m"

lemma length_layout [simp]: "length (layout m) = length m"
  by (simp add: layout_def)

lemma layout_nth:
  assumes "i < length m"
  shows "rg_base (layout m ! i) = rg_base (m ! i)" "rg_end (layout m ! i) = rg_end (m ! i)"
    "rg_permission (layout m ! i) = rg_permission (m ! i)" "rg_order (layout m ! i) = rg_order (m ! i)"
  using assms by (simp_all add: layout_def rg_end_def)

lemma layout_update:
  assumes "i < length m"
  shows "layout (m[i := store_bytes address xs (m ! i)]) = layout m"
proof -
  have "(store_bytes address xs r)\<lparr>rg_bytes := Map.empty\<rparr> = r\<lparr>rg_bytes := Map.empty\<rparr>" for r
    by (rule region.equality) simp_all
  then show ?thesis using assms by (simp add: layout_def map_update list_update_same_conv)
qed

lemma find_region_layout: "find_region address n (layout m) = find_region address n m"
proof -
  define upper where "upper = length (takeWhile (\<lambda>q. rg_base q \<le> address) m)"
  have "length (takeWhile (\<lambda>q. rg_base q \<le> address) (layout m)) = upper"
    by (simp add: layout_def takeWhile_map comp_def upper_def)
  moreover have "upper - 1 < length m" if "upper \<noteq> 0"
    using that length_takeWhile_le [of "\<lambda>q. rg_base q \<le> address" m] unfolding upper_def by linarith
  ultimately show ?thesis
    by (simp add: find_region_def Let_def upper_def [symmetric] layout_nth)
qed

lemma find_region_same_layout: "layout m' = layout m \<Longrightarrow> find_region address n m' = find_region address n m"
  using find_region_layout by metis

lemma nth_same_layout:
  assumes "layout m' = layout m" "i < length m"
  shows "rg_permission (m' ! i) = rg_permission (m ! i)" "rg_order (m' ! i) = rg_order (m ! i)"
proof -
  have "length m' = length m" using assms(1) length_layout by metis
  then show "rg_permission (m' ! i) = rg_permission (m ! i)" "rg_order (m' ! i) = rg_order (m ! i)"
    using assms layout_nth(3,4) by metis+
qed

lemma access_status_same_layout:
  assumes "layout m' = layout m" "memory_ok m" "memory_ok m'" "0 < n"
  shows "access_status allowed address n m' = access_status allowed address n m"
  using assms find_region_covers(1) [OF assms(2)]
  by (auto simp: access_status_eq find_region_same_layout [OF assms(1)] nth_same_layout [OF assms(1)]
      split: option.splits)

lemma byte_order_same_layout:
  assumes "layout m' = layout m" "memory_ok m"
  shows "byte_order_at address n m' = byte_order_at address n m"
  using find_region_covers(1) [OF assms(2)]
  by (auto simp: byte_order_at_def find_region_same_layout [OF assms(1)] nth_same_layout [OF assms(1)]
      split: option.splits)

lemma write_without_callback_layout:
  assumes "memory_ok m" "write_without_callback address data byte_enable m = (status, m')"
  shows "layout m' = layout m"
  using assms(2) layout_update find_region_covers(1) [OF assms(1)]
  by (auto simp: write_without_callback_def split: option.splits if_splits)

section \<open>Words in memory\<close>

lemma word_bytes_positive: "8 dvd LENGTH('d) \<Longrightarrow> 0 < word_bytes TYPE('d::len word)"
  using dvd_imp_le [of 8 "LENGTH('d)"] by (simp add: word_bytes_def)

text \<open>The word the contents spell at an address.\<close>

definition word_at :: "byte_order \<Rightarrow> u64 \<Rightarrow> (u64 \<Rightarrow> u8 option) \<Rightarrow> 'd::len word" where
  "word_at order address f =
     bytes_to_word order (map (\<lambda>j. the (f (address + of_nat j))) [0..<word_bytes TYPE('d word)])"

lemma read_word_refines:
  fixes address :: int and m :: memory
  assumes "memory_ok m" "8 dvd LENGTH('d)" "0 \<le> address"
  defines "status \<equiv> access_status memory_readable (of_int address) (word_bytes TYPE('d word)) m"
  shows "\<exists>response. read_word None address m = Ok (response :: 'd::len word read_response) \<and>
    rr_status response = status \<and> rr_wait_cycles response = 0 \<and>
    (status = Okay \<longrightarrow> rr_data response =
       word_at (byte_order_at (of_int address) (word_bytes TYPE('d word)) m) (of_int address) (contents m))"
proof -
  have "replicate (word_bytes TYPE('d word)) (0 :: u8) \<noteq> []"
    using word_bytes_positive [OF assms(2)] by simp
  from read_without_callback_refines [OF assms(1) this]
  have "read_into None (of_int address) (replicate (word_bytes TYPE('d word)) 0) m =
    (status, if status = Okay
       then map (\<lambda>j. the (contents m (of_int address + of_nat j))) [0..<word_bytes TYPE('d word)]
       else replicate (word_bytes TYPE('d word)) 0)"
    by (simp add: read_into_def status_def Let_def)
  then show ?thesis
    using assms(3) by (auto simp: read_word_def normalize_address_def Let_def word_at_def)
qed

lemma write_word_refines:
  fixes address :: int and m :: memory and v :: "'d::len word" and byte_enable :: "'e::len word"
  assumes "memory_ok m" "8 dvd LENGTH('d)" "write_word None address v byte_enable m = Ok (response, m')"
  defines "status \<equiv> access_status memory_writable (of_int address) (word_bytes TYPE('d word)) m"
    and "order \<equiv> byte_order_at (of_int address) (word_bytes TYPE('d word)) m"
  shows "0 \<le> address" "wr_status response = status" "wr_wait_cycles response = 0" "memory_ok m'"
    "layout m' = layout m"
    "contents m' = (if status = Okay
       then contents m ++ patch (of_int address) (word_to_bytes order v) (bit byte_enable)
       else contents m)"
    "status \<noteq> Okay \<Longrightarrow> m' = m"
proof -
  define n where "n = word_bytes TYPE('d word)"
  define enables :: "u8 list" where "enables = map (\<lambda>index. if bit byte_enable index then 1 else 0) [0..<n]"
  have n: "0 < n" using word_bytes_positive [OF assms(2)] by (simp add: n_def)
  have nonneg: "0 \<le> address"
    using assms(3) by (auto simp: write_word_def normalize_address_def split: if_splits)
  then show "0 \<le> address" .
  obtain st where w: "write_without_callback (of_int address) (word_to_bytes order v) enables m = (st, m')"
    and response: "response = \<lparr>wr_status = st, wr_wait_cycles = 0\<rparr>"
    using assms(3) nonneg
    by (auto simp: write_word_def normalize_address_def Let_def n_def [symmetric] enables_def order_def
        split: prod.splits)
  have nonempty: "word_to_bytes order v \<noteq> []"
    using n length_word_to_bytes [of order v] unfolding n_def by (metis length_0_conv less_numeral_extra(3))
  note refines = write_without_callback_refines [OF assms(1) nonempty w]
  have st: "st = status" using refines(1) by (simp add: status_def)
  show "wr_status response = status" "wr_wait_cycles response = 0" by (simp_all add: response st)
  show "memory_ok m'" by (rule refines(2))
  show "layout m' = layout m" by (rule write_without_callback_layout [OF assms(1) w])
  show "status \<noteq> Okay \<Longrightarrow> m' = m" using refines(4) by (simp add: st)
  have "enables \<noteq> []" using n by (simp add: enables_def)
  then have "patch (of_int address) (word_to_bytes order v) (\<lambda>i. enables = [] \<or> enables ! i \<noteq> 0) =
      patch (of_int address) (word_to_bytes order v) (bit byte_enable)"
    by (auto simp: fun_eq_iff patch_def Let_def enables_def n_def split: if_splits)
  then show "contents m' = (if status = Okay
       then contents m ++ patch (of_int address) (word_to_bytes order v) (bit byte_enable)
       else contents m)"
    using refines(3) by (simp add: st)
qed

lemma patched_word:
  fixes v old :: "'d::len word"
  assumes "8 dvd LENGTH('d)" "old = word_at order address f" "k < LENGTH('d)"
    and "LENGTH('d) < 2 ^ 64"
  defines "lane \<equiv> shift_index order (word_bytes TYPE('d word)) (k div 8)"
  shows "bit (word_at order address (f ++ patch address (word_to_bytes order v) enabled) :: 'd word) k =
    (if enabled lane then bit v k else bit old k)"
proof -
  define n where "n = word_bytes TYPE('d word)"
  have k: "k div 8 < n" using assms(1,3) by (auto simp: n_def word_bytes_def)
  have lane: "lane < n" "shift_index order n lane = k div 8"
    using k by (simp_all add: lane_def n_def shift_index_less)
  have "lane \<le> max_u64"
    using lane(1) assms(4) by (simp add: n_def word_bytes_def max_u64_def)
  then have offset: "unat (of_nat lane :: u64) = lane"
    using unat_u64_add [of 0 lane] by simp
  have at: "patch address (word_to_bytes order v) enabled (address + of_nat lane) =
      (if enabled lane then Some (word_to_bytes order v ! lane) else None)"
    using lane(1) by (simp add: patch_def Let_def offset n_def)
  have "bit (word_to_bytes order v ! lane) (k mod 8) = bit v k"
    using lane by (simp add: bit_word_to_bytes n_def)
  then show ?thesis
    using k lane(1) assms(3) at unfolding assms(2) word_at_def bit_bytes_to_word
    by (auto simp: n_def lane_def [symmetric] map_add_def)
qed

section \<open>Adding regions\<close>

lemma unat_room: "unat (- 1 - s :: u64) = max_u64 - unat s"
proof -
  have "unat (- 1 - s) = unat (- 1 :: u64) - unat s"
    by (rule unat_sub) simp
  also have "unat (- 1 :: u64) = max_u64"
    by (simp add: max_u64_def unsigned_minus_1_eq_mask mask_eq_exp_minus_1)
  finally show ?thesis .
qed

lemma range_overflows_iff: "rg_base r > - 1 - rg_size r \<longleftrightarrow> unat (rg_base r) + unat (rg_size r) > max_u64"
  using unat_u64_bound [of "rg_size r"] by (auto simp: word_less_nat_alt unat_room)

definition addable :: "region \<Rightarrow> memory \<Rightarrow> bool" where
  "addable r m \<longleftrightarrow> rg_name r \<noteq> [] \<and> rg_size r \<noteq> 0 \<and> unat (rg_base r) + unat (rg_size r) \<le> max_u64 \<and>
     (\<forall>q\<in>set m. lies_before q r \<or> lies_before r q)"

lemma split_at_base:
  assumes "memory_ok m" "m = takeWhile P m @ dropWhile P m"
  shows "q \<in> set (butlast (takeWhile P m)) \<Longrightarrow> lies_before q (last (takeWhile P m))"
    "q \<in> set (tl (dropWhile P m)) \<Longrightarrow> lies_before (hd (dropWhile P m)) q"
proof -
  have "sorted_wrt lies_before (takeWhile P m @ dropWhile P m)"
    using assms by (simp add: memory_ok_def)
  then have s: "sorted_wrt lies_before (takeWhile P m)" "sorted_wrt lies_before (dropWhile P m)"
    by (simp_all only: sorted_wrt_append)
  show "lies_before q (last (takeWhile P m))" if q: "q \<in> set (butlast (takeWhile P m))"
  proof -
    have "takeWhile P m \<noteq> []" using q by auto
    then have "takeWhile P m = butlast (takeWhile P m) @ [last (takeWhile P m)]" by simp
    with s(1) have "sorted_wrt lies_before (butlast (takeWhile P m) @ [last (takeWhile P m)])" by simp
    with q show ?thesis unfolding sorted_wrt_append by simp
  qed
  show "lies_before (hd (dropWhile P m)) q" if "q \<in> set (tl (dropWhile P m))"
    using s(2) that by (cases "dropWhile P m") auto
qed

lemma lies_before_trans: "lies_before p q \<Longrightarrow> lies_before q r \<Longrightarrow> lies_before p r"
  by (simp add: lies_before_def)

lemma add_region_cases:
  fixes r :: region
  assumes "memory_ok m" "rg_name r \<noteq> []" "rg_size r \<noteq> 0" "unat (rg_base r) + unat (rg_size r) \<le> max_u64"
  defines "before \<equiv> takeWhile (\<lambda>q. rg_base q < rg_base r) m"
    and "after \<equiv> dropWhile (\<lambda>q. rg_base q < rg_base r) m"
  shows "(after \<noteq> [] \<and> rg_base (hd after) < rg_end r) \<or> (before \<noteq> [] \<and> rg_end (last before) > rg_base r) \<longleftrightarrow>
      \<not> addable r m" (is "?overlap \<longleftrightarrow> _")
    and "addable r m \<Longrightarrow> (\<forall>q\<in>set before. lies_before q r) \<and> (\<forall>q\<in>set after. lies_before r q)"
proof -
  have m: "m = before @ after" by (simp add: before_def after_def)
  have set_m: "set m = set before \<union> set after" by (metis m set_append)
  have ok: "region_ok q" if "q \<in> set m" for q
    using assms(1) that by (simp add: memory_ok_def list_all_iff)
  have positive: "0 < unat (rg_size q)" if "q \<in> set m" for q
    using region_size_positive [OF ok [OF that]] .
  have rsize: "0 < unat (rg_size r)" using assms(3) by (simp add: unat_gt_0)
  have rend: "unat (rg_end r) = unat (rg_base r) + unat (rg_size r)"
    using unat_u64_add [of "rg_base r" "unat (rg_size r)"] assms(4) by (simp add: rg_end_def)
  have hd_after: "hd after \<in> set m" "\<not> rg_base (hd after) < rg_base r" if "after \<noteq> []"
    using that hd_dropWhile [of "\<lambda>q. rg_base q < rg_base r" m] hd_in_set [of after] set_m
    by (simp_all add: after_def)
  have last_before: "last before \<in> set m" if "before \<noteq> []"
    using that set_m last_in_set [of before] by simp
  have before_less: "rg_base q < rg_base r" if "q \<in> set before" for q
    using set_takeWhileD [of q "\<lambda>q. rg_base q < rg_base r" m] that by (simp add: before_def)
  show sides: "(\<forall>q\<in>set before. lies_before q r) \<and> (\<forall>q\<in>set after. lies_before r q)" if "addable r m"
  proof (intro conjI ballI)
    fix q assume q: "q \<in> set before"
    then have "q \<in> set m" by (simp add: set_m)
    with that have "lies_before q r \<or> lies_before r q" by (simp add: addable_def)
    with before_less [OF q] show "lies_before q r" by (auto simp: lies_before_def word_less_nat_alt)
  next
    fix q assume q: "q \<in> set after"
    then have "q \<in> set m" by (simp add: set_m)
    with that have side: "lies_before q r \<or> lies_before r q" by (simp add: addable_def)
    have "after \<noteq> []" using q by auto
    note hd_base = hd_after(2) [OF this]
    have "unat (rg_base r) \<le> unat (rg_base q)"
    proof (cases "q = hd after")
      case True
      then show ?thesis using hd_base by (simp add: word_less_nat_alt)
    next
      case False
      then have "q \<in> set (tl after)" using q by (cases after) auto
      then have "lies_before (hd after) q"
        using split_at_base(2) [OF assms(1)] by (simp add: after_def)
      then show ?thesis using hd_base by (simp add: word_less_nat_alt lies_before_def)
    qed
    with side show "lies_before r q"
      using positive [OF \<open>q \<in> set m\<close>] by (auto simp: lies_before_def)
  qed
  show "?overlap \<longleftrightarrow> \<not> addable r m"
  proof
    assume over: ?overlap
    show "\<not> addable r m"
    proof
      assume "addable r m"
      note sides = sides [OF this]
      from over show False
      proof
        assume "after \<noteq> [] \<and> rg_base (hd after) < rg_end r"
        moreover from this have "lies_before r (hd after)" using sides by simp
        ultimately show False by (simp add: lies_before_def word_less_nat_alt rend)
      next
        assume "before \<noteq> [] \<and> rg_end (last before) > rg_base r"
        moreover from this have "lies_before (last before) r" using sides by simp
        ultimately show False
          using unat_rg_end [OF ok [OF last_before]] by (simp add: lies_before_def word_less_nat_alt)
      qed
    qed
  next
    assume not: "\<not> addable r m"
    show ?overlap
    proof (rule ccontr)
      assume no: "\<not> ?overlap"
      have "lies_before q r" if q: "q \<in> set before" for q
      proof -
        have "before \<noteq> []" using q by auto
        then have "lies_before (last before) r"
          using no unat_rg_end [OF ok [OF last_before]] by (simp add: lies_before_def word_less_nat_alt)
        moreover have "q = last before \<or> q \<in> set (butlast before)"
          using q \<open>before \<noteq> []\<close> by (metis append_butlast_last_id in_set_conv_decomp_last rotate1.simps(2) set_ConsD set_rotate1)
        ultimately show ?thesis
          using split_at_base(1) [OF assms(1), of "\<lambda>q. rg_base q < rg_base r" q] lies_before_trans
          by (auto simp: before_def)
      qed
      moreover have "lies_before r q" if q: "q \<in> set after" for q
      proof -
        have "after \<noteq> []" using q by auto
        then have "lies_before r (hd after)"
          using no by (simp add: lies_before_def word_less_nat_alt rend)
        moreover have "q = hd after \<or> q \<in> set (tl after)"
          using q by (cases after) auto
        ultimately show ?thesis
          using split_at_base(2) [OF assms(1), of "\<lambda>q. rg_base q < rg_base r" q] lies_before_trans
          by (auto simp: after_def)
      qed
      ultimately have "addable r m"
        using assms(2,3,4) by (auto simp: addable_def set_m)
      with not show False by simp
    qed
  qed
qed

lemma add_region_exact:
  assumes "memory_ok m"
  shows "is_ok (add_region r m) \<longleftrightarrow> addable r m"
proof (cases "rg_name r \<noteq> [] \<and> rg_size r \<noteq> 0 \<and> unat (rg_base r) + unat (rg_size r) \<le> max_u64")
  case True
  then show ?thesis
    using add_region_cases(1) [OF assms, of r] range_overflows_iff [of r]
    by (auto simp: add_region_def Let_def)
next
  case False
  then show ?thesis
    using range_overflows_iff [of r] by (auto simp: add_region_def addable_def)
qed

lemma find_append: "find P (xs @ ys) = (case find P xs of None \<Rightarrow> find P ys | Some x \<Rightarrow> Some x)"
  by (induction xs) auto

lemma contents_find:
  "memory_ok m \<Longrightarrow> contents m x = map_option (\<lambda>r. load_byte r x 0) (find (\<lambda>r. covers r x 1) m)"
  by (simp add: contents_def find_covering split: option.splits)

lemma added_region:
  assumes "memory_ok m" "add_region r m = Ok m'"
  shows "memory_ok m'"
    "contents m' = (\<lambda>x. if covers r x 1 then Some (rg_fill r) else contents m x)"
    "length m' = Suc (length m)"
proof -
  have addable: "addable r m"
    using add_region_exact [OF assms(1), of r] assms(2) by simp
  define before where "before = takeWhile (\<lambda>q. rg_base q < rg_base r) m"
  define after where "after = dropWhile (\<lambda>q. rg_base q < rg_base r) m"
  define fresh where "fresh = r\<lparr>rg_bytes := Map.empty\<rparr>"
  have m: "m = before @ after" by (simp add: before_def after_def)
  have m': "m' = before @ [fresh] @ after"
    using assms(2) by (auto simp: add_region_def Let_def before_def after_def fresh_def split: if_splits)
  have sides: "\<forall>q\<in>set before. lies_before q r" "\<forall>q\<in>set after. lies_before r q"
    using add_region_cases(2) [OF assms(1), of r] addable
    by (auto simp: addable_def before_def after_def)
  show ok: "memory_ok m'"
    using assms(1) sides addable lies_before_trans
    by (auto simp: memory_ok_def m m' sorted_wrt_append fresh_def region_ok_def addable_def
        lies_before_def list_all_iff)
  show "length m' = Suc (length m)" by (simp add: m m')
  show "contents m' = (\<lambda>x. if covers r x 1 then Some (rg_fill r) else contents m x)"
  proof
    fix x
    have fresh: "covers fresh x 1 = covers r x 1" "load_byte fresh x 0 = rg_fill r"
      by (simp_all add: fresh_def covers_def load_byte_def)
    have "find (\<lambda>r. covers r x 1) before = None" if "covers r x 1"
      using sides(1) that by (fastforce simp: find_None_iff covers_def lies_before_def)
    moreover have "contents m' x =
        map_option (\<lambda>r. load_byte r x 0) (find (\<lambda>r. covers r x 1) (before @ [fresh] @ after))"
      using contents_find [OF ok, of x] by (simp only: m')
    moreover have "contents m x =
        map_option (\<lambda>r. load_byte r x 0) (find (\<lambda>r. covers r x 1) (before @ after))"
      using contents_find [OF assms(1), of x] by (simp only: m)
    ultimately show "contents m' x = (if covers r x 1 then Some (rg_fill r) else contents m x)"
      using fresh by (simp add: find_append split: option.splits)
  qed
qed

section \<open>Callbacks\<close>

text \<open>A callback that leaves the number of data and enable bytes alone.\<close>

definition keeps_lengths :: "callback \<Rightarrow> bool" where
  "keeps_lengths cb \<longleftrightarrow> (\<forall>e. length (ac_data (fst cb e)) = length (ac_data e) \<and>
     length (ac_byte_enable (fst cb e)) = length (ac_byte_enable e))"

lemma idle_read: "read_into (Some (id, id)) address data m = read_into None address data m"
  by (auto simp: read_into_def read_without_callback_def Let_def split: option.split)

lemma enabled_cong:
  "(\<And>i. i < length data \<Longrightarrow> enabled i = enabled' i) \<Longrightarrow> enabled_bytes enabled data = enabled_bytes enabled' data"
  by (rule filter_cong) (auto simp: in_set_enumerate_eq)

lemma idle_write: "write_bytes (Some (id, id)) address data byte_enable m = write_bytes None address data byte_enable m"
proof -
  define enables :: "u8 list" where "enables = (if byte_enable = [] then replicate (length data) 1
     else map (\<lambda>b. if b \<noteq> 0 then 1 else 0) byte_enable)"
  have "write_mutable (Some (id, id)) address data enables m = write_without_callback address data byte_enable m"
    if "byte_enable = [] \<or> length byte_enable = length data"
  proof -
    have "enabled_bytes (\<lambda>i. enables ! i \<noteq> 0) data = enabled_bytes (\<lambda>i. byte_enable = [] \<or> byte_enable ! i \<noteq> 0) data"
      using that by (intro enabled_cong) (auto simp: enables_def split: if_splits)
    then show ?thesis
      by (auto simp: write_mutable_def write_without_callback_def Let_def split: option.split)
  qed
  then show ?thesis
    by (auto simp: write_bytes_def enables_def split: if_splits)
qed

lemma write_mutable_keeps_ok:
  assumes "memory_ok m" "\<And>cb. callback = Some cb \<Longrightarrow> keeps_lengths cb"
    "write_mutable callback address data byte_enable m = (status, m')"
  shows "memory_ok m'" "layout m' = layout m"
proof -
  define event where "event =
    (let e = \<lparr>ac_operation = OpWrite, ac_address = address, ac_data = data, ac_byte_enable = byte_enable,
             ac_status = Okay, ac_region = region_name (find_region address (length data) m) m\<rparr>
     in case callback of None \<Rightarrow> e | Some (before_access, _) \<Rightarrow> before_access e)"
  have len: "length (ac_data event) = length data"
    using assms(2) by (auto simp: event_def Let_def keeps_lengths_def split: option.split)
  have "m' = m \<or> (\<exists>i. find_region address (length data) m = Some i \<and>
      m' = m[i := store_bytes address (enabled_bytes (\<lambda>i. ac_byte_enable event ! i \<noteq> 0) (ac_data event)) (m ! i)])"
    using assms(3) unfolding write_mutable_def Let_def
    by (auto simp: event_def Let_def split: option.splits if_splits prod.splits)
  then have "memory_ok m' \<and> layout m' = layout m"
    using stored_memory(1) [OF assms(1), of address "ac_data event"] assms(1) layout_update
      find_region_covers(1) [OF assms(1)] by (auto simp: len)
  then show "memory_ok m'" "layout m' = layout m" by simp_all
qed

section \<open>Every operation keeps a memory well-formed\<close>

lemma write_bytes_keeps_ok:
  assumes "memory_ok m" "\<And>cb. callback = Some cb \<Longrightarrow> keeps_lengths cb"
    "write_bytes callback address data byte_enable m = Ok (status, m')"
  shows "memory_ok m'" "layout m' = layout m"
proof -
  have "memory_ok m' \<and> layout m' = layout m"
  proof (cases callback)
    case None
    then have w: "write_without_callback address data byte_enable m = (status, m')"
      using assms(3) by (auto simp: write_bytes_def split: if_splits)
    have "m' = m \<or> (\<exists>i. find_region address (length data) m = Some i \<and>
       m' = m[i := store_bytes address
         (enabled_bytes (\<lambda>i. byte_enable = [] \<or> byte_enable ! i \<noteq> 0) data) (m ! i)])"
      using w by (auto simp: write_without_callback_def split: option.splits if_splits)
    then show ?thesis
      using stored_memory(1) [OF assms(1)] assms(1) write_without_callback_layout [OF assms(1) w] by auto
  next
    case (Some cb)
    then obtain enables where "write_mutable callback address data enables m = (status, m')"
      using assms(3) by (auto simp: write_bytes_def split: if_splits)
    with write_mutable_keeps_ok [OF assms(1,2)] show ?thesis by blast
  qed
  then show "memory_ok m'" "layout m' = layout m" by simp_all
qed

lemma enumerate_enabled: "enumerate 0 data = enabled_bytes (\<lambda>_. True) data"
  by simp

lemma load_keeps_ok:
  assumes "memory_ok m" "load address data m = Ok m'"
  shows "memory_ok m'" "contents m' = contents m ++ patch address data (\<lambda>_. True)" "layout m' = layout m"
proof -
  obtain i where i: "find_region address (length data) m = Some i"
    "m' = m[i := store_bytes address (enabled_bytes (\<lambda>_. True) data) (m ! i)]"
    using assms(2) by (auto simp: load_def require_region_def split: option.splits)
  then show "memory_ok m'" "contents m' = contents m ++ patch address data (\<lambda>_. True)"
    using stored_memory [OF assms(1) i(1), of "\<lambda>_. True"] by simp_all
  show "layout m' = layout m"
    using i(2) layout_update [OF find_region_covers(1) [OF assms(1) i(1)]] by simp
qed

lemma fill_is_load: "fill address n v m = load address (replicate n v) m"
  by (simp add: fill_def load_def)

lemma write_without_callback_keeps_ok:
  assumes "memory_ok m" "write_without_callback address data byte_enable m = (status, m')"
  shows "memory_ok m'"
proof -
  have "m' = m \<or> (\<exists>i. find_region address (length data) m = Some i \<and>
     m' = m[i := store_bytes address
       (enabled_bytes (\<lambda>i. byte_enable = [] \<or> byte_enable ! i \<noteq> 0) data) (m ! i)])"
    using assms(2) by (auto simp: write_without_callback_def split: option.splits if_splits)
  then show ?thesis
    using stored_memory(1) [OF assms(1)] assms(1) by auto
qed

lemma write_word_keeps_ok:
  fixes v :: "'d::len word"
  assumes "memory_ok m" "\<And>cb. callback = Some cb \<Longrightarrow> keeps_lengths cb"
    "write_word callback address v byte_enable m = Ok (response, m')"
  shows "memory_ok m'" "layout m' = layout m"
proof -
  obtain a data enables status where
    "write_without_callback a data enables m = (status, m') \<or> write_mutable callback a data enables m = (status, m')"
    using assms(3) unfolding write_word_def Let_def result_bind_Ok_iff
    by (elim exE conjE, split prod.splits) (auto split: if_splits prod.splits)
  then have "memory_ok m' \<and> layout m' = layout m"
    using write_without_callback_keeps_ok [OF assms(1)] write_without_callback_layout [OF assms(1)]
      write_mutable_keeps_ok [OF assms(1), of callback, OF assms(2)] by blast
  then show "memory_ok m'" "layout m' = layout m" by simp_all
qed

inductive memory_step :: "memory \<Rightarrow> memory \<Rightarrow> bool" where
  add_step: "add_region r m = Ok m' \<Longrightarrow> memory_step m m'"
| write_step: "(\<And>cb. callback = Some cb \<Longrightarrow> keeps_lengths cb) \<Longrightarrow>
    write_bytes callback address data byte_enable m = Ok (status, m') \<Longrightarrow> memory_step m m'"
| load_step: "load address data m = Ok m' \<Longrightarrow> memory_step m m'"
| fill_step: "fill address n v m = Ok m' \<Longrightarrow> memory_step m m'"
| load_file_step: "load_file address file_bytes m = Ok m' \<Longrightarrow> memory_step m m'"

inductive word_step :: "'d::len word itself \<Rightarrow> memory \<Rightarrow> memory \<Rightarrow> bool" for d where
  other_step: "memory_step m m' \<Longrightarrow> word_step d m m'"
| word_write_step: "(\<And>cb. callback = Some cb \<Longrightarrow> keeps_lengths cb) \<Longrightarrow>
    write_word callback address (v :: 'd word) (byte_enable :: u64) m = Ok (response, m') \<Longrightarrow> word_step d m m'"

inductive memory_reaches :: "'d::len word itself \<Rightarrow> memory \<Rightarrow> bool" for d where
  empty_memory: "memory_reaches d []"
| more_memory: "memory_reaches d m \<Longrightarrow> word_step d m m' \<Longrightarrow> memory_reaches d m'"

lemma memory_ok_empty [simp]: "memory_ok []"
  by (simp add: memory_ok_def)

lemma load_file_load: "load_file address file_bytes m = Ok m' \<Longrightarrow> \<exists>data. load address data m = Ok m'"
  by (auto simp: load_file_def split: option.splits)

lemma memory_step_keeps_ok: "memory_step m m' \<Longrightarrow> memory_ok m \<Longrightarrow> memory_ok m'"
  by (induction rule: memory_step.induct)
    (use added_region(1) write_bytes_keeps_ok(1) load_keeps_ok(1) fill_is_load load_file_load in metis)+

lemma memory_reaches_ok: "memory_reaches d m \<Longrightarrow> memory_ok m"
  by (induction rule: memory_reaches.induct)
    (auto elim!: word_step.cases intro: memory_step_keeps_ok write_word_keeps_ok(1))

section \<open>Space\<close>

lemma stored_in_region:
  assumes "region_ok r"
  shows "finite (dom (rg_bytes r))" "card (dom (rg_bytes r)) \<le> unat (rg_size r)"
proof -
  have sub: "unat ` dom (rg_bytes r) \<subseteq> {..<unat (rg_size r)}"
    using assms by (auto simp: region_ok_def word_less_nat_alt)
  have inj: "inj_on unat (dom (rg_bytes r))"
    by (rule inj_onI) (simp add: unsigned_word_eqI)
  show "finite (dom (rg_bytes r))"
    using finite_imageD [OF finite_subset [OF sub] inj] by simp
  show "card (dom (rg_bytes r)) \<le> unat (rg_size r)"
    using card_mono [OF _ sub] card_image [OF inj] by simp
qed

lemma sizes_bounded:
  assumes "sorted_wrt lies_before m" "list_all region_ok m"
  shows "\<forall>b. (\<forall>r\<in>set m. b \<le> unat (rg_base r)) \<longrightarrow> b + sum_list (map (\<lambda>r. unat (rg_size r)) m) \<le> max_u64 \<or> m = []"
  using assms
proof (induction m)
  case Nil
  then show ?case by simp
next
  case (Cons r m)
  have r: "unat (rg_base r) + unat (rg_size r) \<le> max_u64" using Cons.prems(2) by (simp add: region_ok_def)
  have "\<forall>q\<in>set m. unat (rg_base r) + unat (rg_size r) \<le> unat (rg_base q)"
    using Cons.prems(1) by (simp add: lies_before_def)
  then have "unat (rg_base r) + unat (rg_size r) + sum_list (map (\<lambda>r. unat (rg_size r)) m) \<le> max_u64 \<or> m = []"
    using Cons by simp
  then show ?case using r by auto
qed

lemma allocated_bounded:
  assumes "memory_ok m"
  shows "allocated_bytes m \<le> sum_list (map (\<lambda>r. unat (rg_size r)) m)"
    "sum_list (map (\<lambda>r. unat (rg_size r)) m) \<le> max_u64"
proof -
  show "allocated_bytes m \<le> sum_list (map (\<lambda>r. unat (rg_size r)) m)"
    unfolding allocated_bytes_def using assms stored_in_region(2)
    by (intro sum_list_mono) (auto simp: memory_ok_def list_all_iff)
  show "sum_list (map (\<lambda>r. unat (rg_size r)) m) \<le> max_u64"
    using sizes_bounded [of m] assms by (fastforce simp: memory_ok_def)
qed

end
