(* ===== verification/MemoryPredictor.thy ===== *)
theory MemoryPredictor
  imports MemoryLemmas
begin

text \<open>
  The predictor against any reference memory, its interface a locale, and the sparse memory as one
  that provides it.
\<close>

section \<open>Predicting against a reference memory\<close>

text \<open>
  What \<open>MemoryReferenceModelFor\<close> asks of a model: a read and a write that, from a good state of the
  model, answer and leave a good state.
\<close>

locale reference_memory =
  fixes fetch :: "'m \<Rightarrow> u64 \<Rightarrow> ('d read_response \<times> 'm) result"
    and put :: "'m \<Rightarrow> u64 \<Rightarrow> 'd \<Rightarrow> 'b \<Rightarrow> (write_response \<times> 'm) result"
    and valid :: "'m \<Rightarrow> bool"
  assumes read_answers: "valid m \<Longrightarrow> \<exists>response m'. fetch m address = Ok (response, m') \<and> valid m'"
    and write_answers: "valid m \<Longrightarrow> \<exists>response m'. put m address data enable = Ok (response, m') \<and> valid m'"

text \<open>What the model answers to a transaction, and to a stream of them.\<close>

definition model_answer ::
  "('m \<Rightarrow> u64 \<Rightarrow> ('d read_response \<times> 'm) result) \<Rightarrow>
   ('m \<Rightarrow> u64 \<Rightarrow> 'd \<Rightarrow> 'b \<Rightarrow> (write_response \<times> 'm) result) \<Rightarrow>
   'm \<Rightarrow> ('d, 'b) transaction \<Rightarrow> (('d, 'b) transaction \<times> 'm) result" where
  "model_answer read write m t =
     (case tr_operation t of
        OpRead \<Rightarrow> result_bind (read m (tr_address t)) (\<lambda>(response, m').
          Ok (t\<lparr>tr_data := rr_data response, tr_status := rr_status response\<rparr>, m'))
      | OpWrite \<Rightarrow> result_bind (write m (tr_address t) (tr_data t) (tr_byte_enable t)) (\<lambda>(response, m').
          Ok (t\<lparr>tr_status := wr_status response\<rparr>, m')))"

primrec model_answers ::
  "('m \<Rightarrow> u64 \<Rightarrow> ('d read_response \<times> 'm) result) \<Rightarrow>
   ('m \<Rightarrow> u64 \<Rightarrow> 'd \<Rightarrow> 'b \<Rightarrow> (write_response \<times> 'm) result) \<Rightarrow>
   ('d, 'b) transaction list \<Rightarrow> 'm \<Rightarrow> (('d, 'b) transaction list \<times> 'm) result" where
  "model_answers read write [] m = Ok ([], m)"
| "model_answers read write (t # ts) m =
     result_bind (model_answer read write m t) (\<lambda>(t', m').
     result_bind (model_answers read write ts m') (\<lambda>(ts', m''). Ok (t' # ts', m'')))"

text \<open>A predictor subscribed to a stream of observations.\<close>

primrec predict_all ::
  "('m \<Rightarrow> u64 \<Rightarrow> ('d read_response \<times> 'm) result) \<Rightarrow>
   ('m \<Rightarrow> u64 \<Rightarrow> 'd \<Rightarrow> 'b \<Rightarrow> (write_response \<times> 'm) result) \<Rightarrow>
   (disposition \<times> ('d, 'b) transaction) list \<Rightarrow> 'm predictor \<Rightarrow> 'm predictor result" where
  "predict_all read write [] p = Ok p"
| "predict_all read write (ob # os) p =
     result_bind (predict_observation read write (fst ob) (snd ob) p) (predict_all read write os)"

definition completed :: "(disposition \<times> 'a) list \<Rightarrow> 'a list" where
  "completed os = map snd (filter (\<lambda>ob. fst ob = Completed) os)"

definition operations :: "memory_operation \<Rightarrow> ('d, 'b) transaction list \<Rightarrow> nat" where
  "operations operation ts = length (filter (\<lambda>t. tr_operation t = operation) ts)"

definition differences :: "'a list \<Rightarrow> 'a list \<Rightarrow> nat" where
  "differences xs ys = length (filter (\<lambda>(x, y). x \<noteq> y) (zip xs ys))"

lemma completed_simps [simp]:
  "completed [] = []"
  "completed ((d, t) # os) = (if d = Completed then t # completed os else completed os)"
  by (simp_all add: completed_def)

lemma differences_simps [simp]:
  "differences [] ys = 0"
  "differences (x # xs) (y # ys) = (if x \<noteq> y then 1 else 0) + differences xs ys"
  by (simp_all add: differences_def)

lemma operations_simps [simp]:
  "operations operation [] = 0"
  "operations operation (t # ts) = (if tr_operation t = operation then 1 else 0) + operations operation ts"
  by (simp_all add: operations_def)

lemma differences_zero: "length xs = length ys \<Longrightarrow> differences xs ys = 0 \<longleftrightarrow> xs = ys"
  by (induction xs ys rule: list_induct2) auto

context reference_memory
begin

lemma answer_exists:
  assumes "valid m"
  shows "\<exists>t' m'. model_answer fetch put m t = Ok (t', m') \<and> valid m'"
proof (cases "tr_operation t")
  case OpRead
  obtain response m' where "fetch m (tr_address t) = Ok (response, m')" "valid m'"
    using read_answers [OF assms] by blast
  with OpRead show ?thesis by (simp add: model_answer_def)
next
  case OpWrite
  obtain response m' where "put m (tr_address t) (tr_data t) (tr_byte_enable t) = Ok (response, m')" "valid m'"
    using write_answers [OF assms] by blast
  with OpWrite show ?thesis by (simp add: model_answer_def)
qed

lemma predict_answer:
  assumes "model_answer fetch put (pd_model p) t = Ok (t', m')"
  shows "predict fetch put t p = Ok
    \<lparr>pd_model = m', pd_reads = pd_reads p + of_nat (operations OpRead [t]),
     pd_writes = pd_writes p + of_nat (operations OpWrite [t]),
     pd_mismatches = pd_mismatches p + of_nat (differences [t] [t'])\<rparr>"
proof (cases "tr_operation t")
  case OpRead
  with assms obtain response where "fetch (pd_model p) (tr_address t) = Ok (response, m')"
    "t' = t\<lparr>tr_data := rr_data response, tr_status := rr_status response\<rparr>"
    by (auto simp: model_answer_def result_bind_Ok_iff)
  with OpRead show ?thesis by (simp add: predict_def)
next
  case OpWrite
  with assms obtain response where
    "put (pd_model p) (tr_address t) (tr_data t) (tr_byte_enable t) = Ok (response, m')"
    "t' = t\<lparr>tr_status := wr_status response\<rparr>"
    by (auto simp: model_answer_def result_bind_Ok_iff)
  with OpWrite show ?thesis by (simp add: predict_def)
qed

lemma predict_all_answers:
  assumes "valid (pd_model p)"
  shows "\<exists>answers m'. model_answers fetch put (completed os) (pd_model p) = Ok (answers, m') \<and>
    length answers = length (completed os) \<and> valid m' \<and>
    predict_all fetch put os p = Ok
      \<lparr>pd_model = m', pd_reads = pd_reads p + of_nat (operations OpRead (completed os)),
       pd_writes = pd_writes p + of_nat (operations OpWrite (completed os)),
       pd_mismatches = pd_mismatches p + of_nat (differences (completed os) answers)\<rparr>"
  using assms
proof (induction os arbitrary: p)
  case Nil
  then show ?case by simp
next
  case (Cons ob os)
  obtain d t where ob: "ob = (d, t)" by fastforce
  show ?case
  proof (cases "d = Completed")
    case False
    then show ?thesis using Cons by (simp add: ob predict_observation_def)
  next
    case True
    obtain t' m' where t': "model_answer fetch put (pd_model p) t = Ok (t', m')" "valid m'"
      using answer_exists [OF Cons.prems] by blast
    define q where "q =
      \<lparr>pd_model = m', pd_reads = pd_reads p + of_nat (operations OpRead [t]),
       pd_writes = pd_writes p + of_nat (operations OpWrite [t]),
       pd_mismatches = pd_mismatches p + of_nat (differences [t] [t'])\<rparr>"
    have "predict fetch put t p = Ok q"
      unfolding q_def by (rule predict_answer [OF t'(1)])
    moreover have "valid (pd_model q)" by (simp add: q_def t'(2))
    from Cons.IH [OF this] obtain answers m'' where
      "model_answers fetch put (completed os) m' = Ok (answers, m'')"
      "length answers = length (completed os)" "valid m''"
      "predict_all fetch put os q = Ok
        \<lparr>pd_model = m'', pd_reads = pd_reads q + of_nat (operations OpRead (completed os)),
         pd_writes = pd_writes q + of_nat (operations OpWrite (completed os)),
         pd_mismatches = pd_mismatches q + of_nat (differences (completed os) answers)\<rparr>"
      by (auto simp: q_def)
    ultimately show ?thesis
      using True t' by (auto simp: ob predict_observation_def q_def algebra_simps)
  qed
qed

end

text \<open>The sparse memory, without a callback, as a reference model.\<close>

definition sparse_read :: "memory \<Rightarrow> u64 \<Rightarrow> ('d::len word read_response \<times> memory) result" where
  "sparse_read m address = result_bind (read_word None (uint address) m) (\<lambda>response. Ok (response, m))"

definition sparse_write ::
  "memory \<Rightarrow> u64 \<Rightarrow> 'd::len word \<Rightarrow> 'e::len word \<Rightarrow> (write_response \<times> memory) result" where
  "sparse_write m address data enable = write_word None (uint address) data enable m"

lemma read_word_total: "0 \<le> address \<Longrightarrow> \<exists>response. read_word callback address m = Ok response"
  by (simp add: read_word_def normalize_address_def Let_def split: prod.split)

lemma write_word_total: "0 \<le> address \<Longrightarrow> \<exists>response m'. write_word callback address v enable m = Ok (response, m')"
  by (simp add: write_word_def normalize_address_def Let_def split: prod.split)

interpretation sparse: reference_memory sparse_read sparse_write memory_ok
proof
  fix m :: memory and address :: u64
  assume ok: "memory_ok m"
  obtain response :: "'a::len word read_response" where "read_word None (uint address) m = Ok response"
    using read_word_total [of "uint address" None m] by auto
  with ok show "\<exists>response m'. sparse_read m address = Ok (response :: 'a word read_response, m') \<and> memory_ok m'"
    by (simp add: sparse_read_def)
next
  fix m :: memory and address :: u64 and data :: "'a::len word" and enable :: "'b::len word"
  assume ok: "memory_ok m"
  obtain response m' where w: "write_word None (uint address) data enable m = Ok (response, m')"
    using write_word_total [of "uint address" None data enable m] by auto
  with write_word_keeps_ok(1) [OF ok _ w]
  show "\<exists>response m'. sparse_write m address data enable = Ok (response, m') \<and> memory_ok m'"
    by (simp add: sparse_write_def)
qed

end
