(* ===== verification/MemoryProps.thy ===== *)
theory MemoryProps
  imports MemoryPredictor
begin

text \<open>
  The properties of the reference memory and its predictor, on small concrete memories.
\<close>

section \<open>A concrete memory\<close>

definition small_ram :: region where
  "small_ram = \<lparr>rg_name = ''ram'', rg_base = 16, rg_size = 8, rg_permission = ReadWriteAccess,
     rg_order = BigEndian, rg_fill = 0, rg_bytes = Map.empty\<rparr>"

definition small_rom :: region where
  "small_rom = \<lparr>rg_name = ''rom'', rg_base = 24, rg_size = 4, rg_permission = ReadOnlyAccess,
     rg_order = LittleEndian, rg_fill = 255, rg_bytes = Map.empty\<rparr>"

lemma small_ok: "memory_ok [small_ram, small_rom]" "memory_ok [small_ram]"
  by (simp_all add: memory_ok_def region_ok_def lies_before_def small_ram_def small_rom_def max_u64_def)

lemma find_small: "find_region 16 4 [small_ram, small_rom] = Some 0" "find_region 24 4 [small_ram, small_rom] = Some 1"
  by (simp_all add: find_region_def small_ram_def small_rom_def max_u64_def rg_end_def)

lemma small_fields [simp]:
  "rg_permission small_ram = ReadWriteAccess" "rg_order small_ram = BigEndian" "rg_fill small_ram = 0"
  "rg_base small_ram = 16" "rg_bytes small_ram = Map.empty"
  "rg_permission small_rom = ReadOnlyAccess" "rg_order small_rom = LittleEndian"
  by (simp_all add: small_ram_def small_rom_def)

lemma small_permissions [simp]:
  "memory_readable ReadWriteAccess" "memory_writable ReadWriteAccess" "\<not> memory_writable ReadOnlyAccess"
  by (simp_all add: memory_readable_def memory_writable_def)

lemma small_status:
  "access_status memory_writable 16 (Suc (Suc (Suc (Suc 0)))) [small_ram, small_rom] = Okay"
  using find_small(1) by (simp add: access_status_eq [OF small_ok(1)] numeral_eq_Suc)

section \<open>Properties\<close>

text \<open>
  Property C12: A well-formed sparse memory behaves as one partial function from addresses to bytes.
  A read or write of at least one byte is answered DecodeError when no region covers all of it,
  SlaveError when the covering region does not permit it, and Okay otherwise; a read that is Okay
  delivers the bytes of that function, any other one leaves the caller's buffer alone; a write that
  is Okay replaces exactly the enabled bytes, any other one changes nothing.
\<close>

theorem memory_refines_partial_function:
  assumes "memory_ok m" "data \<noteq> []" "byte_enable = [] \<or> length byte_enable = length data"
  shows "let readable = access_status memory_readable address (length data) m;
             writable = access_status memory_writable address (length data) m
         in read_into None address data m =
              (readable, if readable = Okay
                 then map (\<lambda>j. the (contents m (address + of_nat j))) [0..<length data] else data) \<and>
            (\<exists>m'. write_bytes None address data byte_enable m = Ok (writable, m') \<and> memory_ok m' \<and>
               contents m' = (if writable = Okay
                 then contents m ++ patch address data (\<lambda>i. byte_enable = [] \<or> byte_enable ! i \<noteq> 0)
                 else contents m) \<and>
               (writable \<noteq> Okay \<longrightarrow> m' = m))"
proof -
  obtain status m' where w: "write_without_callback address data byte_enable m = (status, m')"
    by fastforce
  note refines = write_without_callback_refines [OF assms(1,2) w]
  have "write_bytes None address data byte_enable m = Ok (status, m')"
    using assms(3) w by (auto simp: write_bytes_def)
  then show ?thesis
    using refines read_without_callback_refines [OF assms(1,2)]
    by (simp add: read_into_def Let_def)
qed

lemma memory_refines_partial_function_witness:
  "\<exists>m'. write_bytes None 16 [1, 2, 3, 4] [1, 0, 0, 1] [small_ram, small_rom] = Ok (Okay, m') \<and>
     contents m' 19 = Some 4 \<and> contents m' 18 = contents [small_ram, small_rom] 18"
proof -
  obtain m' where m': "write_bytes None 16 [1, 2, 3, 4] [1, 0, 0, 1] [small_ram, small_rom] = Ok (Okay, m')"
    "contents m' = contents [small_ram, small_rom] ++
       patch 16 [1, 2, 3, 4] (\<lambda>i. [1, 0, 0, 1 :: u8] = [] \<or> [1, 0, 0, 1 :: u8] ! i \<noteq> 0)"
    using memory_refines_partial_function [OF small_ok(1), of "[1, 2, 3, 4]" "[1, 0, 0, 1]" 16]
    by (auto simp: Let_def small_status)
  show ?thesis
    by (intro exI [of _ m'] conjI m'(1)) (simp_all add: m'(2) patch_def map_add_def)
qed

text \<open>
  A word written with byte enables and read back at the same address is the old word with
  the enabled bytes replaced, where bit \<open>i\<close> of the enables stands for the \<open>i\<close>-th address, which is the
  \<open>i\<close>-th lowest byte of the word in a little-endian region and the \<open>i\<close>-th highest one in a
  big-endian region; with every byte enabled it is the written word.
\<close>

theorem word_access_lanes:
  fixes v :: "'d::len word" and byte_enable :: "'e::len word" and address :: int
  assumes "memory_ok m" "8 dvd LENGTH('d)" "LENGTH('d) < 2 ^ 64"
    and "read_word None address m = Ok (before :: 'd word read_response)" "rr_status before = Okay"
    and "write_word None address v byte_enable m = Ok (response, m')" "wr_status response = Okay"
  defines "bytes \<equiv> word_bytes TYPE('d word)"
  defines "lane \<equiv> \<lambda>k. shift_index (byte_order_at (of_int address) bytes m) bytes (k div 8)"
  shows "\<exists>after. read_word None address m' = Ok (after :: 'd word read_response) \<and> rr_status after = Okay \<and>
    (\<forall>k<LENGTH('d). bit (rr_data after) k = bit (if bit byte_enable (lane k) then v else rr_data before) k) \<and>
    ((\<forall>i<bytes. bit byte_enable i) \<longrightarrow> rr_data after = v)"
proof -
  note written = write_word_refines [OF assms(1,2,6)]
  note pos = word_bytes_positive [OF assms(2)]
  define order where "order = byte_order_at (of_int address) (word_bytes TYPE('d word)) m"
  from read_word_refines [OF assms(1,2) written(1)] assms(4,5)
  have before: "access_status memory_readable (of_int address) (word_bytes TYPE('d word)) m = Okay"
    "rr_data before = word_at order (of_int address) (contents m)"
    by (auto simp: order_def)
  from read_word_refines [OF written(4) assms(2) written(1)] obtain after :: "'d word read_response" where
    after: "read_word None address m' = Ok after" "rr_status after = Okay"
    "rr_data after = word_at order (of_int address) (contents m')"
    using before(1) access_status_same_layout [OF written(5) assms(1) written(4) pos]
      byte_order_same_layout [OF written(5) assms(1)]
    by (auto simp: order_def)
  have "contents m' = contents m ++ patch (of_int address) (word_to_bytes order v) (bit byte_enable)"
    using written(2,6) assms(7) by (simp add: order_def)
  then have bits: "bit (rr_data after) k = bit (if bit byte_enable (lane k) then v else rr_data before) k"
    if "k < LENGTH('d)" for k
    using patched_word [OF assms(2) before(2) that assms(3)] by (simp add: after(3) lane_def bytes_def order_def)
  have "rr_data after = v" if "\<forall>i<bytes. bit byte_enable i"
  proof (rule bit_word_eqI)
    fix k assume k: "k < LENGTH('d)"
    then have "k div 8 < bytes" using assms(2) by (auto simp: bytes_def word_bytes_def)
    then have "lane k < bytes" by (simp add: lane_def shift_index_less)
    with that bits [OF k] show "bit (rr_data after) k = bit v k" by simp
  qed
  with after bits show ?thesis by blast
qed

lemma word_access_lanes_witness:
  "\<exists>response m' after. write_word None 16 (0x11223344 :: u32) (1 :: u8) [small_ram, small_rom] = Ok (response, m') \<and>
     read_word None 16 m' = Ok (after :: u32 read_response) \<and> bit (rr_data after) 24 \<and> \<not> bit (rr_data after) 2"
proof -
  obtain before :: "u32 read_response" where before: "read_word None 16 [small_ram, small_rom] = Ok before"
    "rr_status before = Okay" "rr_data before = 0"
    by (simp add: read_word_def normalize_address_def read_into_def read_without_callback_def word_bytes_def
        find_small bytes_to_word_def load_byte_def upt_rec Let_def)
  obtain response m' where written: "write_word None 16 (0x11223344 :: u32) (1 :: u8) [small_ram, small_rom] = Ok (response, m')"
    "wr_status response = Okay"
    by (simp add: write_word_def normalize_address_def write_without_callback_def word_bytes_def
        find_small Let_def)
  have len: "8 dvd LENGTH(32)" "LENGTH(32) < 2 ^ 64" by simp_all
  have lane: "byte_order_at (of_int 16) (word_bytes TYPE(u32)) [small_ram, small_rom] = BigEndian"
    by (simp add: byte_order_at_def word_bytes_def find_small)
  from word_access_lanes [OF small_ok(1) len before(1,2) written] obtain after :: "u32 read_response" where
    after: "read_word None 16 m' = Ok after"
    and bits: "\<forall>k<LENGTH(32). bit (rr_data after) k =
      bit (if bit (1 :: u8) (shift_index BigEndian (word_bytes TYPE(u32)) (k div 8)) then 0x11223344 else 0 :: u32) k"
    unfolding lane before(3) by blast
  have "bit (rr_data after) 24" "\<not> bit (rr_data after) 2"
    using bits [rule_format, of 24] bits [rule_format, of 2]
    by (simp_all add: shift_index_def word_bytes_def)
  then show ?thesis using written(1) after by blast
qed

text \<open>
  Property C25: Whatever sequence of operations built a memory, with callbacks that keep the number
  of bytes of an access, its regions lie one behind the other without overlap, only bytes inside a
  region and different from its fill value are stored, and the number of stored bytes is at most the
  size of all regions together, which fits 64 bits.
\<close>

theorem memory_stays_bounded:
  assumes "memory_reaches (d :: 'd::len word itself) m"
  shows "memory_ok m \<and> allocated_bytes m \<le> sum_list (map (\<lambda>r. unat (rg_size r)) m) \<and>
    sum_list (map (\<lambda>r. unat (rg_size r)) m) \<le> max_u64"
  using memory_reaches_ok [OF assms] allocated_bounded by blast+

lemma small_reached: "memory_reaches TYPE(u32) [small_ram]"
proof -
  have "add_region small_ram [] = Ok [small_ram]"
    by (simp add: add_region_def small_ram_def)
  then show ?thesis
    by (intro more_memory [OF empty_memory] other_step add_step)
qed

lemma memory_stays_bounded_witness: "memory_ok [small_ram] \<and> allocated_bytes [small_ram] \<le> 8"
  using memory_stays_bounded [OF small_reached] by (simp add: small_ram_def)

text \<open>
  A region is accepted exactly if it has a name and a size, ends within the address
  space, and does not overlap a region of the memory; the memory then has one region more, whose
  bytes all read as its fill value, and every other address keeps its contents.
\<close>

theorem add_region_accepts_disjoint:
  assumes "memory_ok m"
  shows "(is_ok (add_region r m) \<longleftrightarrow>
      rg_name r \<noteq> [] \<and> rg_size r \<noteq> 0 \<and> unat (rg_base r) + unat (rg_size r) \<le> max_u64 \<and>
      (\<forall>q\<in>set m. unat (rg_base q) + unat (rg_size q) \<le> unat (rg_base r) \<or>
         unat (rg_base r) + unat (rg_size r) \<le> unat (rg_base q)))
    \<and> (\<forall>m'. add_region r m = Ok m' \<longrightarrow> memory_ok m' \<and> region_count m' = region_count m + 1 \<and>
      contents m' = (\<lambda>x. if covers r x 1 then Some (rg_fill r) else contents m x))"
  using add_region_exact [OF assms] added_region [OF assms]
  by (auto simp: addable_def lies_before_def region_count_def)

lemma add_region_accepts_disjoint_witness:
  "is_ok (add_region small_rom [small_ram]) \<and> \<not> is_ok (add_region small_ram [small_ram])"
  using conjunct1 [OF add_region_accepts_disjoint [OF small_ok(2), of small_rom]]
    conjunct1 [OF add_region_accepts_disjoint [OF small_ok(2), of small_ram]]
  by (simp add: small_ram_def small_rom_def max_u64_def)

text \<open>
  Property C13: Replaying a stream of observations against a well-formed memory never fails: the
  predictor counts the completed reads and writes, and its mismatches are exactly the completed
  transactions that differ from what the memory answers to the same stream; there is none exactly
  if the stream is what the memory answers.
\<close>

theorem predictor_counts_mismatches:
  fixes os :: "(disposition \<times> ('d::len word, 'e::len word) transaction) list"
  assumes "memory_ok (pd_model p)"
  shows "\<exists>answers m'. model_answers sparse_read sparse_write (completed os) (pd_model p) = Ok (answers, m') \<and>
    memory_ok m' \<and> length answers = length (completed os) \<and>
    predict_all sparse_read sparse_write os p = Ok
      \<lparr>pd_model = m', pd_reads = pd_reads p + of_nat (operations OpRead (completed os)),
       pd_writes = pd_writes p + of_nat (operations OpWrite (completed os)),
       pd_mismatches = pd_mismatches p + of_nat (differences (completed os) answers)\<rparr> \<and>
    (differences (completed os) answers = 0 \<longleftrightarrow> completed os = answers)"
proof -
  from sparse.predict_all_answers [OF assms, of os] obtain answers m' where
    "model_answers sparse_read sparse_write (completed os) (pd_model p) = Ok (answers, m')"
    "length answers = length (completed os)" "memory_ok m'"
    "predict_all sparse_read sparse_write os p = Ok
      \<lparr>pd_model = m', pd_reads = pd_reads p + of_nat (operations OpRead (completed os)),
       pd_writes = pd_writes p + of_nat (operations OpWrite (completed os)),
       pd_mismatches = pd_mismatches p + of_nat (differences (completed os) answers)\<rparr>"
    by blast
  then show ?thesis
    using differences_zero [of "completed os" answers] by (intro exI [of _ answers] exI [of _ m']) simp
qed

definition failed_read :: "(u32, u64) transaction" where
  "failed_read = \<lparr>tr_operation = OpRead, tr_address = 64, tr_data = 5, tr_byte_enable = - 1,
     tr_status = Okay, tr_wait_cycles = 2\<rparr>"

lemma predictor_counts_mismatches_witness:
  "\<exists>p'. predict_all sparse_read sparse_write [(Aborted, failed_read), (Completed, failed_read)]
     \<lparr>pd_model = [small_ram], pd_reads = 0, pd_writes = 0, pd_mismatches = 0\<rparr> = Ok p' \<and>
     pd_reads p' = 1 \<and> pd_mismatches p' = 1"
proof -
  define p where "p = \<lparr>pd_model = [small_ram], pd_reads = 0, pd_writes = 0, pd_mismatches = 0\<rparr>"
  have ok: "memory_ok (pd_model p)" by (simp add: p_def small_ok)
  have "sparse_read [small_ram] 64 = Ok (\<lparr>rr_data = 0 :: u32, rr_status = DecodeError, rr_wait_cycles = 0\<rparr>, [small_ram])"
    by (simp add: sparse_read_def read_word_def normalize_address_def read_into_def read_without_callback_def
        find_region_def word_bytes_def small_ram_def rg_end_def max_u64_def bytes_to_word_def upt_rec)
  then have "model_answers sparse_read sparse_write [failed_read] (pd_model p) =
      Ok ([failed_read\<lparr>tr_data := 0, tr_status := DecodeError\<rparr>], [small_ram])"
    by (simp add: model_answer_def failed_read_def p_def)
  with predictor_counts_mismatches [OF ok, of "[(Aborted, failed_read), (Completed, failed_read)]"]
  show ?thesis
    unfolding p_def [symmetric] by (auto simp: failed_read_def p_def)
qed

end
