(* ===== verification/RandomStream.thy ===== *)
theory RandomStream
  imports PackedBits "HOL-Library.Multiset"
begin

text \<open>
  The repeatable random streams of \<open>random.hpp\<close>: seeds, the xoshiro256** generator, draws that reject
  the values that would bias them, and the choices and shuffles built on the draws. Drawing below a
  bound loops until a value is accepted, so a draw is an option: \<open>None\<close> is a draw that never returns.
\<close>

section \<open>Seeds\<close>

definition golden :: u64 where
  "golden = 0x9e3779b97f4a7c15"

definition finalize_seed :: "u64 \<Rightarrow> u64" where
  "finalize_seed v =
     (let v = (v XOR drop_bit 30 v) * 0xbf58476d1ce4e5b9;
          v = (v XOR drop_bit 27 v) * 0x94d049bb133111eb
      in v XOR drop_bit 31 v)"

definition mix_seed :: "u64 \<Rightarrow> u64" where
  "mix_seed v = finalize_seed (v + golden)"

text \<open>The value and the next state.\<close>

definition splitmix_next :: "u64 \<Rightarrow> u64 \<times> u64" where
  "splitmix_next state = (let state = state + golden in (finalize_seed state, state))"

definition derive_seed :: "u64 \<Rightarrow> u64 \<Rightarrow> u64" where
  "derive_seed master_seed stream_id = mix_seed (master_seed XOR (stream_id * 0xd2b74407b1ce6e93))"

text \<open>The order-preserving map between the integers of a width and its unsigned ones.\<close>

definition sign_bit :: "'a::len word" where
  "sign_bit = push_bit (LENGTH('a) - 1) 1"

definition ordered_unsigned :: "bool \<Rightarrow> 'a::len word \<Rightarrow> 'a word" where
  "ordered_unsigned is_signed v = (if is_signed then v XOR sign_bit else v)"

definition from_ordered_unsigned :: "bool \<Rightarrow> 'a::len word \<Rightarrow> 'a word" where
  "from_ordered_unsigned is_signed v = (if is_signed then v XOR sign_bit else v)"

section \<open>The generator\<close>

record random =
  rnd_state :: "u64 \<times> u64 \<times> u64 \<times> u64"
  rnd_seed :: u64

definition reseed :: "u64 \<Rightarrow> random" where
  "reseed seed =
     (let (a, state) = splitmix_next seed;
          (b, state) = splitmix_next state;
          (c, state) = splitmix_next state;
          (d, state) = splitmix_next state
      in \<lparr>rnd_state = (if a OR b OR c OR d = 0 then (1, b, c, d) else (a, b, c, d)), rnd_seed = seed\<rparr>)"

definition default_random :: random where
  "default_random = reseed 1"

definition next_u64 :: "random \<Rightarrow> u64 \<times> random" where
  "next_u64 r =
     (let (a, b, c, d) = rnd_state r;
          result = word_rotl 7 (b * 5) * 9;
          shifted = push_bit 17 b;
          c = c XOR a;
          d = d XOR b;
          b = b XOR c;
          a = a XOR d;
          c = c XOR shifted;
          d = word_rotl 45 d
      in (result, r\<lparr>rnd_state := (a, b, c, d)\<rparr>))"

section \<open>Draws\<close>

type_synonym 'a draw = "('a \<times> random) option"

fun draw_bind :: "'a draw \<Rightarrow> ('a \<Rightarrow> random \<Rightarrow> 'b draw) \<Rightarrow> 'b draw" where
  "draw_bind None f = None"
| "draw_bind (Some (x, r)) f = f x r"

partial_function (option) reject_loop :: "u64 \<Rightarrow> u64 \<Rightarrow> random \<Rightarrow> u64 draw" where
  "reject_loop threshold wide_bound r =
     (let (v, r) = next_u64 r
      in if v \<ge> threshold then Some (v mod wide_bound, r) else reject_loop threshold wide_bound r)"

definition uniform_below :: "'a::len word \<Rightarrow> random \<Rightarrow> u64 draw" where
  "uniform_below bound r =
     (if bound = 0 then Some (next_u64 r)
      else
        let wide_bound = ucast bound :: u64;
            threshold = (0 - wide_bound) mod wide_bound
        in reject_loop threshold wide_bound r)"

text \<open>A draw may throw; the generator is then as it was.\<close>

definition randint :: "bool \<Rightarrow> 'a::len word \<Rightarrow> 'a word \<Rightarrow> random \<Rightarrow> 'a word result draw" where
  "randint is_signed minimum maximum r =
     (let low = ordered_unsigned is_signed minimum;
          high = ordered_unsigned is_signed maximum
      in if low > high then Some (Fail (InvalidArgument ''randint minimum exceeds maximum''), r)
         else draw_bind (uniform_below (high - low + 1) r) (\<lambda>offset r.
           Some (Ok (from_ordered_unsigned is_signed (low + ucast offset)), r)))"

fun random_words :: "nat \<Rightarrow> random \<Rightarrow> u32 list \<times> random" where
  "random_words 0 r = ([], r)"
| "random_words (Suc 0) r = (let (v, r) = next_u64 r in ([ucast v], r))"
| "random_words (Suc (Suc n)) r =
     (let (v, r) = next_u64 r;
          (words, r) = random_words n r
      in (ucast v # ucast (drop_bit 32 v) # words, r))"

definition randbits :: "nat \<Rightarrow> random \<Rightarrow> packed \<times> random" where
  "randbits W r = (let (words, r) = random_words (word_count W) r in (from_words W words, r))"

section \<open>Choices\<close>

definition choice :: "'a list \<Rightarrow> random \<Rightarrow> 'a result draw" where
  "choice xs r =
     (if xs = [] then Some (Fail (InvalidArgument ''choice requires at least one value''), r)
      else draw_bind (randint False (0 :: u64) (of_nat (length xs - 1)) r) (\<lambda>index r.
        Some (result_bind index (\<lambda>i. Ok (xs ! unat i)), r)))"

fun sum_weights :: "('a \<times> u64) list \<Rightarrow> u64 \<Rightarrow> u64 result" where
  "sum_weights [] so_far = Ok so_far"
| "sum_weights ((_, weight) # entries) so_far =
     (if weight > - 1 - so_far
      then Fail (InvalidArgument ''weighted_choice total weight overflows uint64_t'')
      else sum_weights entries (so_far + weight))"

fun pick_weighted :: "('a \<times> u64) list \<Rightarrow> u64 \<Rightarrow> 'a result" where
  "pick_weighted [] selected = Fail (LogicError ''weighted_choice selection fell outside weights'')"
| "pick_weighted ((v, weight) # entries) selected =
     (if selected < weight then Ok v else pick_weighted entries (selected - weight))"

definition weighted_choice :: "('a \<times> u64) list \<Rightarrow> random \<Rightarrow> 'a result draw" where
  "weighted_choice entries r =
     (case sum_weights entries 0 of
        Inl e \<Rightarrow> Some (Fail e, r)
      | Inr total_weight \<Rightarrow>
          if total_weight = 0
          then Some (Fail (InvalidArgument ''weighted_choice requires a positive weight''), r)
          else draw_bind (randint False 0 (total_weight - 1) r) (\<lambda>selected r.
            Some (result_bind selected (pick_weighted entries), r)))"

definition swap_at :: "nat \<Rightarrow> nat \<Rightarrow> 'a list \<Rightarrow> 'a list" where
  "swap_at i j xs = xs[i := xs ! j, j := xs ! i]"

fun shuffle_loop :: "nat \<Rightarrow> 'a list \<Rightarrow> random \<Rightarrow> 'a list result draw" where
  "shuffle_loop 0 xs r = Some (Ok xs, r)"
| "shuffle_loop (Suc 0) xs r = Some (Ok xs, r)"
| "shuffle_loop (Suc (Suc n)) xs r =
     draw_bind (randint False (0 :: u64) (of_nat (Suc n)) r) (\<lambda>selected r.
       case selected of
         Inl e \<Rightarrow> Some (Fail e, r)
       | Inr i \<Rightarrow> shuffle_loop (Suc n) (swap_at (Suc n) (unat i) xs) r)"

definition random_shuffle :: "'a list \<Rightarrow> random \<Rightarrow> 'a list result draw" where
  "random_shuffle xs r = shuffle_loop (length xs) xs r"

section \<open>Rejection\<close>

text \<open>The values the generator will deliver.\<close>

definition after :: "nat \<Rightarrow> random \<Rightarrow> random" where
  "after n = (snd \<circ> next_u64) ^^ n"

definition drawn :: "nat \<Rightarrow> random \<Rightarrow> u64" where
  "drawn n r = fst (next_u64 (after n r))"

lemma after_simps [simp]:
  "after 0 r = r"
  "after (Suc n) r = after n (snd (next_u64 r))"
  by (simp_all add: after_def funpow_Suc_right del: funpow.simps)

lemma drawn_Suc: "drawn (Suc n) r = drawn n (snd (next_u64 r))"
  by (simp add: drawn_def)

lemma drawn_0: "drawn 0 r = fst (next_u64 r)"
  by (simp add: drawn_def)

lemma reject_loop_step:
  "reject_loop threshold bound r =
     (if fst (next_u64 r) \<ge> threshold then Some (fst (next_u64 r) mod bound, snd (next_u64 r))
      else reject_loop threshold bound (snd (next_u64 r)))"
  by (subst reject_loop.simps) (simp add: Let_def split: prod.split)

lemma reject_loop_accepts:
  assumes "threshold \<le> drawn n r" "\<forall>i<n. drawn i r < threshold"
  shows "reject_loop threshold bound r = Some (drawn n r mod bound, after (Suc n) r)"
  using assms
proof (induction n arbitrary: r)
  case 0
  then show ?case by (subst reject_loop_step) (simp add: drawn_0)
next
  case (Suc n)
  have "drawn 0 r < threshold" using Suc.prems(2) by blast
  then have "reject_loop threshold bound r = reject_loop threshold bound (snd (next_u64 r))"
    by (subst reject_loop_step) (auto simp: drawn_0)
  also have "\<dots> = Some (drawn n (snd (next_u64 r)) mod bound, after (Suc n) (snd (next_u64 r)))"
    using Suc.prems by (intro Suc.IH) (auto simp flip: drawn_Suc)
  finally show ?case by (simp add: drawn_Suc)
qed

lemma reject_loop_returns:
  assumes "reject_loop threshold bound r = Some (v, r')"
  shows "\<exists>n. threshold \<le> drawn n r \<and> (\<forall>i<n. drawn i r < threshold) \<and>
    v = drawn n r mod bound \<and> r' = after (Suc n) r"
proof -
  define P where "P = (\<lambda>threshold bound r y. \<exists>n. threshold \<le> drawn n r \<and> (\<forall>i<n. drawn i r < threshold) \<and>
      fst y = drawn n r mod bound \<and> snd y = after (Suc n) r)"
  have "P threshold bound r (v, r')"
  proof (rule reject_loop.raw_induct [OF _ assms])
    fix loop threshold bound r y
    assume IH: "\<And>threshold bound r y. loop threshold bound r = Some y \<Longrightarrow> P threshold bound r y"
      and body: "(let (v, r) = next_u64 r
        in if threshold \<le> v then Some (v mod bound, r) else loop threshold bound r) = Some y"
    show "P threshold bound r y"
    proof (cases "threshold \<le> fst (next_u64 r)")
      case True
      with body show ?thesis
        unfolding P_def by (intro exI [of _ 0]) (auto simp: drawn_0 Let_def split: prod.splits)
    next
      case False
      then have "loop threshold bound (snd (next_u64 r)) = Some y"
        using body by (auto simp: Let_def split: prod.splits)
      from IH [OF this] obtain n where n: "threshold \<le> drawn n (snd (next_u64 r))"
        "\<forall>i<n. drawn i (snd (next_u64 r)) < threshold"
        "fst y = drawn n (snd (next_u64 r)) mod bound" "snd y = after (Suc n) (snd (next_u64 r))"
        unfolding P_def by blast
      have "drawn i r < threshold" if "i < Suc n" for i
        using that n(2) False by (cases i) (auto simp: drawn_0 drawn_Suc)
      then show ?thesis
        unfolding P_def using n by (intro exI [of _ "Suc n"]) (simp add: drawn_Suc)
    qed
  qed
  then show ?thesis by (simp add: P_def)
qed

end
