(* ===== verification/RandomLemmas.thy ===== *)
theory RandomLemmas
  imports RandomStream
begin

text \<open>
  Lemmas of the random streams: the order of signed and unsigned words, how many generator values are
  accepted for each outcome, and what draws, choices and shuffles deliver.
\<close>

section \<open>The order of the integers of a width\<close>

definition int_le :: "bool \<Rightarrow> 'a::len word \<Rightarrow> 'a word \<Rightarrow> bool" where
  "int_le is_signed a b = (if is_signed then sint a \<le> sint b else a \<le> b)"

lemma bit_sign_bit: "bit (sign_bit :: 'a::len word) i \<longleftrightarrow> i = LENGTH('a) - 1"
  by (auto simp: sign_bit_def bit_push_bit_iff bit_1_iff simp del: push_bit_of_1)

lemma uint_sign_bit: "uint (sign_bit :: 'a::len word) = 2 ^ (LENGTH('a) - 1)"
  by (rule bit_eqI) (auto simp: bit_uint_iff bit_sign_bit bit_exp_iff)

lemma xor_sign_bit: "v XOR sign_bit = v + (sign_bit :: 'a::len word)"
proof -
  have s: "sign_bit + sign_bit = (0 :: 'a word)"
  proof -
    have "2 * (2 :: 'a word) ^ (LENGTH('a) - 1) = 2 ^ LENGTH('a)"
      using power_Suc [of "2 :: 'a word" "LENGTH('a) - 1"] by simp
    then show ?thesis by (simp add: sign_bit_def push_bit_eq_mult flip: mult_2)
  qed
  note bits = bit_sign_bit
  show ?thesis
  proof (cases "bit v (LENGTH('a) - 1)")
    case False
    then have "v AND sign_bit = 0"
      by (intro bit_word_eqI) (auto simp: bit_and_iff bits)
    then show ?thesis by (simp add: disjunctive_add_eq_xor)
  next
    case True
    define w where "w = v AND NOT sign_bit"
    have "w AND sign_bit = 0"
      by (intro bit_word_eqI) (auto simp: w_def bit_and_iff bit_not_iff)
    then have w: "w + sign_bit = w XOR sign_bit" by (rule disjunctive_add_eq_xor)
    have "w XOR sign_bit = v"
      using True by (intro bit_word_eqI) (auto simp: w_def bit_xor_iff bit_and_iff bit_not_iff bits)
    with w have v: "v = w + sign_bit" by simp
    have "v XOR sign_bit = w"
      using True by (intro bit_word_eqI) (auto simp: w_def bit_xor_iff bit_and_iff bit_not_iff bits)
    then show ?thesis using v s by (simp add: add.assoc)
  qed
qed

lemma sint_shift: "uint (v + sign_bit) = sint v + 2 ^ (LENGTH('a) - 1)" for v :: "'a::len word"
proof -
  have "sint v = signed_take_bit (LENGTH('a) - 1) (uint v)"
    by (simp add: sint_uint)
  also have "\<dots> = take_bit LENGTH('a) (uint v + 2 ^ (LENGTH('a) - 1)) - 2 ^ (LENGTH('a) - 1)"
    by (simp add: signed_take_bit_eq_take_bit_shift)
  also have "take_bit LENGTH('a) (uint v + 2 ^ (LENGTH('a) - 1)) = uint (v + sign_bit)"
    by (simp add: uint_word_ariths uint_sign_bit take_bit_eq_mod)
  finally show ?thesis by simp
qed

lemma ordered_le: "ordered_unsigned is_signed a \<le> ordered_unsigned is_signed b \<longleftrightarrow> int_le is_signed a b"
  by (simp add: ordered_unsigned_def int_le_def xor_sign_bit word_le_def sint_shift)

lemma ordered_inverse [simp]:
  "ordered_unsigned is_signed (from_ordered_unsigned is_signed v) = v"
  "from_ordered_unsigned is_signed (ordered_unsigned is_signed v) = v"
  by (simp_all add: ordered_unsigned_def from_ordered_unsigned_def bit_eq_iff bit_xor_iff xor.assoc)

section \<open>Draws below a bound\<close>

lemma residue_shift:
  assumes "e < b" "d < (b :: nat)" "(t + e) mod b = (t + d) mod b"
  shows "e = d"
proof (cases e d rule: linorder_cases)
  case less
  then have "b dvd d - e"
    using assms(3) mod_eq_dvd_iff_nat [of "t + e" "t + d" b] by simp
  with less assms(2) show ?thesis using nat_dvd_not_less [of "d - e" b] by simp
next
  case greater
  then have "b dvd e - d"
    using assms(3) mod_eq_dvd_iff_nat [of "t + d" "t + e" b] by simp
  with greater assms(1) show ?thesis using nat_dvd_not_less [of "e - d" b] by simp
qed

lemma residues_in_interval:
  fixes b t :: nat
  assumes "k < b"
  shows "card {n. t \<le> n \<and> n < t + q * b \<and> n mod b = k} = q"
proof -
  define d where "d = (k + b - t mod b) mod b"
  have b: "0 < b" using assms by simp
  have d: "d < b" by (simp add: d_def b)
  have dk: "(t + d) mod b = k"
  proof -
    have "(t + d) mod b = (t mod b + (k + b - t mod b)) mod b"
      by (simp add: d_def mod_simps)
    also have "t mod b + (k + b - t mod b) = k + b"
      using mod_less_divisor [OF b, of t] by linarith
    finally show ?thesis using assms by simp
  qed
  have "{n. t \<le> n \<and> n < t + q * b \<and> n mod b = k} = (\<lambda>j. t + d + j * b) ` {..<q}"
  proof (intro equalityI subsetI)
    fix n assume "n \<in> {n. t \<le> n \<and> n < t + q * b \<and> n mod b = k}"
    then have n: "t \<le> n" "n < t + q * b" "n mod b = k" by simp_all
    define j e where "j = (n - t) div b" and "e = (n - t) mod b"
    have split: "n = t + e + j * b" using n(1) by (simp add: j_def e_def)
    have e: "e < b" by (simp add: e_def b)
    have "(t + e) mod b = (t + d) mod b"
      using n(3) split dk by (metis mod_mult_self1 mult.commute)
    then have "e = d" by (rule residue_shift [OF e d])
    moreover have "j < q"
    proof (rule ccontr)
      assume "\<not> j < q"
      then have "q * b \<le> j * b" by simp
      with split n(2) show False by simp
    qed
    ultimately show "n \<in> (\<lambda>j. t + d + j * b) ` {..<q}" using split by auto
  next
    fix n assume "n \<in> (\<lambda>j. t + d + j * b) ` {..<q}"
    then obtain j where j: "j < q" "n = t + d + j * b" by auto
    have "d + j * b < q * b"
      using less_mult_add [OF d j(1)] by (simp add: add.commute)
    with j dk show "n \<in> {n. t \<le> n \<and> n < t + q * b \<and> n mod b = k}"
      by (simp add: mod_mult_self1)
  qed
  moreover have "inj_on (\<lambda>j. t + d + j * b) {..<q}" using b by (auto simp: inj_on_def)
  ultimately show ?thesis by (simp add: card_image)
qed

definition reject_threshold :: "u64 \<Rightarrow> u64" where
  "reject_threshold bound = (0 - bound) mod bound"

lemma unat_reject_threshold:
  assumes "bound \<noteq> 0"
  shows "unat (reject_threshold bound) = 2 ^ 64 mod unat bound"
proof -
  have le: "unat bound \<le> 2 ^ 64" "0 < unat bound"
    using unsigned_less [where ?'a = nat, of bound] assms by (simp_all add: unat_gt_0)
  have "0 - bound = of_nat (2 ^ 64 - unat bound)"
    using le by (simp add: of_nat_diff)
  moreover define n where "n = 2 ^ 64 - unat bound"
  moreover have "n < 2 ^ 64" using le by (simp add: n_def)
  then have "unat (of_nat n :: u64) = n" by (simp add: unat_of_nat take_bit_eq_mod)
  ultimately have "unat (0 - bound) = 2 ^ 64 - unat bound" by (simp only:)
  then show ?thesis
    using le by (simp add: reject_threshold_def unat_mod_distrib le_mod_geq)
qed

lemma accepted_per_residue:
  assumes "bound \<noteq> 0" "k < bound"
  shows "card {v :: u64. reject_threshold bound \<le> v \<and> v mod bound = k} = 2 ^ 64 div unat bound"
proof -
  define A where "A = {v :: u64. reject_threshold bound \<le> v \<and> v mod bound = k}"
  define t b q where "t = unat (reject_threshold bound)" and "b = unat bound" and "q = 2 ^ 64 div unat bound"
  have split: "t + q * b = 2 ^ 64"
    by (simp add: t_def q_def b_def unat_reject_threshold [OF assms(1)] del: power_numeral)
  have "unat ` A = {n. t \<le> n \<and> n < t + q * b \<and> n mod b = unat k}"
  proof (intro equalityI subsetI)
    fix n assume "n \<in> unat ` A"
    then obtain v where "v \<in> A" "n = unat v" by blast
    then show "n \<in> {n. t \<le> n \<and> n < t + q * b \<and> n mod b = unat k}"
      unfolding split using unsigned_less [where ?'a = nat, of v]
      by (auto simp: A_def t_def b_def word_le_nat_alt unat_mod_distrib)
  next
    fix n assume n: "n \<in> {n. t \<le> n \<and> n < t + q * b \<and> n mod b = unat k}"
    then have "n < 2 ^ 64" unfolding split by simp
    then have u: "unat (of_nat n :: u64) = n" by (simp add: unat_of_nat take_bit_eq_mod)
    have "(of_nat n :: u64) \<in> A"
      using n by (simp add: A_def t_def b_def word_le_nat_alt word_unat_eq_iff unat_mod_distrib u)
    then show "n \<in> unat ` A" using u by (metis imageI)
  qed
  moreover have "inj_on unat A" by (rule inj_onI) (simp add: unsigned_word_eqI)
  ultimately have "card A = card {n. t \<le> n \<and> n < t + q * b \<and> n mod b = unat k}"
    using card_image by metis
  also have "\<dots> = q"
    using assms by (intro residues_in_interval) (simp add: b_def word_less_nat_alt)
  finally show ?thesis by (simp add: A_def q_def)
qed

definition accepts_at :: "u64 \<Rightarrow> random \<Rightarrow> nat \<Rightarrow> bool" where
  "accepts_at bound r n \<longleftrightarrow>
     reject_threshold bound \<le> drawn n r \<and> (\<forall>i<n. drawn i r < reject_threshold bound)"

lemma uniform_below_exact:
  fixes bound :: "'a::len word"
  assumes "bound \<noteq> 0"
  shows "uniform_below bound r = Some (v, r') \<longleftrightarrow>
    (\<exists>n. accepts_at (ucast bound) r n \<and> v = drawn n r mod ucast bound \<and> r' = after (Suc n) r)"
proof -
  have eq: "uniform_below bound r = reject_loop (reject_threshold (ucast bound)) (ucast bound) r"
    using assms by (simp add: uniform_below_def reject_threshold_def Let_def)
  show ?thesis
    unfolding eq
  proof
    assume "reject_loop (reject_threshold (ucast bound)) (ucast bound) r = Some (v, r')"
    from reject_loop_returns [OF this]
    show "\<exists>n. accepts_at (ucast bound) r n \<and> v = drawn n r mod ucast bound \<and> r' = after (Suc n) r"
      by (simp only: accepts_at_def conj_assoc)
  next
    assume "\<exists>n. accepts_at (ucast bound) r n \<and> v = drawn n r mod ucast bound \<and> r' = after (Suc n) r"
    then obtain n where n: "accepts_at (ucast bound) r n" "v = drawn n r mod ucast bound" "r' = after (Suc n) r"
      by blast
    have "reject_loop (reject_threshold (ucast bound)) (ucast bound) r =
        Some (drawn n r mod ucast bound, after (Suc n) r)"
      using n(1) unfolding accepts_at_def by (intro reject_loop_accepts) simp_all
    with n show "reject_loop (reject_threshold (ucast bound)) (ucast bound) r = Some (v, r')" by simp
  qed
qed

lemma uniform_below_returns:
  fixes bound :: "'a::len word"
  shows "uniform_below bound r = None \<longleftrightarrow>
    bound \<noteq> 0 \<and> (\<forall>n. drawn n r < reject_threshold (ucast bound))"
proof (cases "bound = 0")
  case True
  then show ?thesis by (simp add: uniform_below_def)
next
  case False
  have "(\<exists>n. accepts_at (ucast bound) r n) \<longleftrightarrow> (\<exists>n. reject_threshold (ucast bound) \<le> drawn n r)"
  proof
    assume "\<exists>n. reject_threshold (ucast bound) \<le> drawn n r"
    then have "accepts_at (ucast bound) r (LEAST n. reject_threshold (ucast bound) \<le> drawn n r)"
      unfolding accepts_at_def using not_less_Least by (auto intro: LeastI simp: not_le [symmetric])
    then show "\<exists>n. accepts_at (ucast bound) r n" by blast
  qed (auto simp: accepts_at_def)
  moreover have "uniform_below bound r \<noteq> None \<longleftrightarrow> (\<exists>n. accepts_at (ucast bound) r n)"
    using uniform_below_exact [OF False, of r] by (auto simp: not_None_eq)
  ultimately show ?thesis using False by (metis not_le)
qed

section \<open>Integers in a range\<close>

definition draw_span :: "bool \<Rightarrow> 'a::len word \<Rightarrow> 'a word \<Rightarrow> 'a word" where
  "draw_span is_signed lo hi = ordered_unsigned is_signed hi - ordered_unsigned is_signed lo + 1"

definition draw_value :: "bool \<Rightarrow> 'a::len word \<Rightarrow> 'a word \<Rightarrow> u64 \<Rightarrow> 'a word" where
  "draw_value is_signed lo hi x = from_ordered_unsigned is_signed
     (ordered_unsigned is_signed lo + ucast (x mod ucast (draw_span is_signed lo hi)))"

lemma ucast_small:
  fixes v :: "'b::len word" and s :: "'a::len word"
  assumes "LENGTH('a) \<le> LENGTH('b)" "v < ucast s"
  shows "unat (ucast v :: 'a word) = unat v" "(ucast v :: 'a word) < s" "ucast (ucast v :: 'a word) = v"
proof -
  have less: "unat v < unat s"
    using assms(2) by (simp add: word_less_nat_alt unat_ucast_up [OF assms(1)])
  then have "unat v < 2 ^ LENGTH('a)" by (rule less_trans) (rule unsigned_less)
  then show u: "unat (ucast v :: 'a word) = unat v" by (simp add: unsigned_ucast_eq take_bit_eq_mod)
  then show "(ucast v :: 'a word) < s" using less by (simp add: word_less_nat_alt)
  show "ucast (ucast v :: 'a word) = v"
    by (simp add: word_unat_eq_iff unat_ucast_up [OF assms(1)] u)
qed

lemma unat_span:
  fixes low high :: "'a::len word"
  assumes "low \<le> high" "high - low + 1 \<noteq> 0"
  shows "unat (high - low + 1) = unat high - unat low + 1"
proof -
  have "unat (high - low + 1) = unat (high - low) + 1"
    using unatSuc [of "high - low"] assms(2) by (simp add: add.commute)
  then show ?thesis using unat_sub [OF assms(1)] by simp
qed

lemma offset_in_range:
  fixes low high offset :: "'a::len word"
  assumes "low \<le> high" "offset \<le> high - low"
  shows "low \<le> low + offset" "low + offset \<le> high" "unat (low + offset) = unat low + unat offset"
proof -
  have le: "unat low + unat offset \<le> unat high"
    using assms unat_sub [OF assms(1)] by (simp add: word_le_nat_alt)
  then have "unat low + unat offset < 2 ^ LENGTH('a)"
    by (rule le_less_trans) (rule unsigned_less)
  then show "unat (low + offset) = unat low + unat offset"
    by (simp add: unat_word_ariths)
  then show "low \<le> low + offset" "low + offset \<le> high"
    using le by (simp_all add: word_le_nat_alt)
qed

lemma unat_u64:
  fixes a :: "'a::len word"
  assumes "LENGTH('a) \<le> 64"
  shows "unat (ucast a :: u64) = unat a" "(ucast a :: u64) = 0 \<longleftrightarrow> a = 0"
proof -
  show u: "unat (ucast a :: u64) = unat a" by (rule unat_ucast_up) (simp add: assms)
  show "(ucast a :: u64) = 0 \<longleftrightarrow> a = 0"
    by (simp add: word_unat_eq_iff u)
qed

lemma u64_small:
  fixes v :: u64 and s :: "'a::len word"
  assumes "LENGTH('a) \<le> 64" "v < ucast s"
  shows "(ucast v :: 'a word) < s" "ucast (ucast v :: 'a word) = v"
  using ucast_small(2,3) [OF _ assms(2)] assms(1) by simp_all

lemma uniform_offset_in_range:
  fixes low high :: "'a::len word"
  assumes "LENGTH('a) \<le> 64" "low \<le> high" "uniform_below (high - low + 1) r = Some (v, r')"
  shows "(ucast v :: 'a word) \<le> high - low"
proof (cases "high - low + 1 = 0")
  case True
  then have "high - low = - 1" by (simp add: eq_neg_iff_add_eq_0)
  then show ?thesis by simp
next
  case False
  then have "v < ucast (high - low + 1)"
  proof -
    have "(ucast (high - low + 1) :: u64) \<noteq> 0"
      using False by (simp add: unat_u64(2) [OF assms(1)])
    then have "x mod ucast (high - low + 1) < (ucast (high - low + 1) :: u64)" for x :: u64
      by (simp add: word_mod_less_divisor word_neq_0_conv)
    then show ?thesis
      using assms(3) uniform_below_exact [OF False] by auto
  qed
  from u64_small(1) [OF assms(1) this] have "(ucast v :: 'a word) < high - low + 1" .
  then show ?thesis
    using unat_span [OF assms(2) False] unat_sub [OF assms(2)]
    by (simp add: word_less_nat_alt word_le_nat_alt)
qed

lemma randint_refuses:
  "\<not> int_le is_signed lo hi \<Longrightarrow>
   randint is_signed lo hi r = Some (Fail (InvalidArgument ''randint minimum exceeds maximum''), r)"
  by (simp add: randint_def Let_def ordered_le [symmetric] not_le)

lemma randint_accepts:
  assumes "int_le is_signed lo hi"
  shows "randint is_signed lo hi r =
    draw_bind (uniform_below (draw_span is_signed lo hi) r) (\<lambda>offset r.
      Some (Ok (from_ordered_unsigned is_signed (ordered_unsigned is_signed lo + ucast offset)), r))"
  using assms by (simp add: randint_def Let_def ordered_le [symmetric] draw_span_def not_less [symmetric])

lemma randint_in_range:
  fixes lo hi :: "'a::len word"
  assumes "LENGTH('a) \<le> 64" "int_le is_signed lo hi" "randint is_signed lo hi r = Some (result, r')"
  shows "\<exists>v. result = Ok v \<and> int_le is_signed lo v \<and> int_le is_signed v hi"
proof -
  obtain offset where u: "uniform_below (draw_span is_signed lo hi) r = Some (offset, r')"
    and res: "result = Ok (from_ordered_unsigned is_signed (ordered_unsigned is_signed lo + ucast offset))"
    using assms(3) unfolding randint_accepts [OF assms(2)]
    by (cases "uniform_below (draw_span is_signed lo hi) r") auto
  have le: "ordered_unsigned is_signed lo \<le> ordered_unsigned is_signed hi"
    using assms(2) by (simp add: ordered_le)
  note range = offset_in_range [OF le uniform_offset_in_range [OF assms(1) le u [unfolded draw_span_def]]]
  then show ?thesis
    unfolding res by (simp add: ordered_le [symmetric])
qed

lemma randint_returns:
  assumes "int_le is_signed lo hi"
  shows "randint is_signed lo hi r = None \<longleftrightarrow> draw_span is_signed lo hi \<noteq> 0 \<and>
    (\<forall>n. drawn n r < reject_threshold (ucast (draw_span is_signed lo hi)))"
  unfolding randint_accepts [OF assms] uniform_below_returns [symmetric]
  by (cases "uniform_below (draw_span is_signed lo hi) r") auto

lemma randint_value:
  assumes "int_le is_signed lo hi" "draw_span is_signed lo hi \<noteq> 0"
    "accepts_at (ucast (draw_span is_signed lo hi)) r n"
  shows "randint is_signed lo hi r = Some (Ok (draw_value is_signed lo hi (drawn n r)), after (Suc n) r)"
proof -
  have "uniform_below (draw_span is_signed lo hi) r =
      Some (drawn n r mod ucast (draw_span is_signed lo hi), after (Suc n) r)"
    using assms(3) uniform_below_exact [OF assms(2)] by blast
  then show ?thesis by (simp add: randint_accepts [OF assms(1)] draw_value_def)
qed

lemma ordered_eq_iff: "ordered_unsigned is_signed a = b \<longleftrightarrow> a = from_ordered_unsigned is_signed b"
  by (metis ordered_inverse)

lemma draws_unbiased:
  fixes lo hi v :: "'a::len word"
  assumes "LENGTH('a) \<le> 64" "int_le is_signed lo v" "int_le is_signed v hi" "draw_span is_signed lo hi \<noteq> 0"
  defines "bound \<equiv> ucast (draw_span is_signed lo hi) :: u64"
  shows "card {x. reject_threshold bound \<le> x \<and> draw_value is_signed lo hi x = v} = 2 ^ 64 div unat bound"
proof -
  define low high w where "low = ordered_unsigned is_signed lo" and "high = ordered_unsigned is_signed hi"
    and "w = ordered_unsigned is_signed v"
  have le: "low \<le> w" "w \<le> high" using assms(2,3) by (simp_all add: low_def high_def w_def ordered_le)
  have span: "draw_span is_signed lo hi = high - low + 1" by (simp add: draw_span_def low_def high_def)
  have bound: "unat bound = unat high - unat low + 1"
    using unat_span [of low high] le assms(4) unat_u64(1) [OF assms(1), of "high - low + 1"]
    by (simp add: bound_def span)
  then have nz: "bound \<noteq> 0" by auto
  define k :: u64 where "k = ucast (w - low)"
  have uk: "unat k = unat w - unat low"
    using unat_sub [OF le(1)] by (simp add: k_def unat_u64(1) [OF assms(1)])
  have k: "k < bound"
    using le by (auto simp: word_less_nat_alt word_le_nat_alt uk bound)
  have "draw_value is_signed lo hi x = v \<longleftrightarrow> x mod bound = k" for x
  proof -
    have less: "x mod bound < bound" using nz by (simp add: word_mod_less_divisor word_neq_0_conv)
    note small = u64_small(2) [OF assms(1) less [unfolded bound_def]]
    have "draw_value is_signed lo hi x = v \<longleftrightarrow> low + ucast (x mod bound) = w"
      by (simp add: draw_value_def low_def w_def bound_def ordered_eq_iff [symmetric] eq_commute)
    also have "\<dots> \<longleftrightarrow> (ucast (x mod bound) :: 'a word) = w - low"
      by (auto simp: algebra_simps)
    also have "\<dots> \<longleftrightarrow> x mod bound = k"
    proof
      assume "(ucast (x mod bound) :: 'a word) = w - low"
      then have "k = ucast (ucast (x mod bound) :: 'a word)" by (simp add: k_def)
      then show "x mod bound = k" using small by (simp add: bound_def)
    next
      assume "x mod bound = k"
      then have "unat (x mod bound) = unat (w - low)" using uk unat_sub [OF le(1)] by simp
      moreover have "unat (ucast (x mod bound) :: 'a word) = unat (x mod bound)"
        using ucast_small(1) [OF _ less [unfolded bound_def]] assms(1) by (simp add: bound_def)
      ultimately show "(ucast (x mod bound) :: 'a word) = w - low" by (simp add: unsigned_word_eqI)
    qed
    finally show ?thesis .
  qed
  then show ?thesis
    using accepted_per_residue [OF nz k] by simp
qed

section \<open>Choices and shuffles\<close>

lemma int_le_unsigned [simp]: "int_le False a b \<longleftrightarrow> a \<le> b"
  by (simp add: int_le_def)

lemma randint_index:
  assumes "randint False (0 :: u64) hi r = Some (result, r')"
  shows "\<exists>v. result = Ok v \<and> v \<le> hi"
  using randint_in_range [OF _ _ assms] by simp

lemma choice_member:
  assumes "choice xs r = Some (result, r')" "length xs \<le> 2 ^ 64"
  shows "if xs = [] then \<not> is_ok result \<and> r' = r else \<exists>x\<in>set xs. result = Ok x"
proof (cases "xs = []")
  case True
  then show ?thesis using assms(1) by (auto simp: choice_def)
next
  case False
  then obtain i r'' where i: "randint False (0 :: u64) (of_nat (length xs - 1)) r = Some (i, r'')"
    "result = result_bind i (\<lambda>i. Ok (xs ! unat i))"
    using assms(1) by (cases "randint False (0 :: u64) (of_nat (length xs - 1)) r") (auto simp: choice_def)
  from randint_index [OF i(1)] obtain v where v: "i = Ok v" "v \<le> of_nat (length xs - 1)" by blast
  have pos: "0 < length xs" using False by simp
  then have "unat (of_nat (length xs - 1) :: u64) = length xs - 1"
    using assms(2) by (simp add: unat_of_nat take_bit_eq_mod)
  with v(2) have "unat v \<le> length xs - 1" unfolding word_le_nat_alt by (simp only:)
  with pos have "unat v < length xs" by linarith
  then show ?thesis using False i(2) v(1) by simp
qed

abbreviation weight_sum :: "('a \<times> u64) list \<Rightarrow> nat" where
  "weight_sum entries \<equiv> sum_list (map (\<lambda>e. unat (snd e)) entries)"

lemma sum_weights_exact:
  "sum_weights entries so_far =
     (if unat so_far + weight_sum entries \<le> 2 ^ 64 - 1 then Ok (of_nat (unat so_far + weight_sum entries))
      else Fail (InvalidArgument ''weighted_choice total weight overflows uint64_t''))"
proof (induction entries arbitrary: so_far)
  case Nil
  have "unat so_far \<le> 2 ^ 64 - 1" using unsigned_less [where ?'a = nat, of so_far] by simp
  then show ?case by simp
next
  case (Cons e entries)
  obtain x w where e: "e = (x, w)" by fastforce
  have room: "unat (- 1 - so_far) = 2 ^ 64 - 1 - unat so_far"
  proof -
    have "unat (- 1 - so_far) = unat (- 1 :: u64) - unat so_far" by (rule unat_sub) simp
    then show ?thesis by (simp add: unsigned_minus_1_eq_mask mask_eq_exp_minus_1)
  qed
  show ?case
  proof (cases "w > - 1 - so_far")
    case True
    then have "unat so_far + unat w > 2 ^ 64 - 1" by (simp add: word_less_nat_alt room)
    then show ?thesis using True by (simp add: e)
  next
    case False
    then have "unat w \<le> 2 ^ 64 - 1 - unat so_far" by (simp add: word_less_nat_alt room not_less)
    moreover have "unat so_far \<le> 2 ^ 64 - 1" using unsigned_less [where ?'a = nat, of so_far] by simp
    ultimately have le: "unat so_far + unat w \<le> 2 ^ 64 - 1" by linarith
    then have "unat (so_far + w) = unat so_far + unat w"
      by (simp add: unat_word_ariths)
    then show ?thesis using False Cons.IH [of "so_far + w"] by (simp add: e add.assoc)
  qed
qed

lemma pick_weighted_exact:
  assumes "unat selected < weight_sum entries"
  shows "\<exists>i<length entries. pick_weighted entries selected = Ok (fst (entries ! i)) \<and>
    weight_sum (take i entries) \<le> unat selected \<and> unat selected < weight_sum (take (Suc i) entries)"
  using assms
proof (induction entries arbitrary: selected)
  case Nil
  then show ?case by simp
next
  case (Cons e entries)
  obtain x w where e: "e = (x, w)" by fastforce
  show ?case
  proof (cases "selected < w")
    case True
    then show ?thesis by (intro exI [of _ 0]) (simp add: e word_less_nat_alt)
  next
    case False
    then have less: "unat (selected - w) = unat selected - unat w" "unat w \<le> unat selected"
      by (simp_all add: unat_sub word_le_nat_alt not_less)
    then have "unat (selected - w) < weight_sum entries" using Cons.prems by (simp add: e)
    from Cons.IH [OF this] obtain i where i: "i < length entries"
      "pick_weighted entries (selected - w) = Ok (fst (entries ! i))"
      "weight_sum (take i entries) \<le> unat (selected - w)"
      "unat (selected - w) < weight_sum (take (Suc i) entries)" by blast
    then show ?thesis
      using False less by (intro exI [of _ "Suc i"]) (auto simp: e)
  qed
qed

lemma weighted_choice_exact:
  assumes "weighted_choice entries r = Some (result, r')"
  shows "if weight_sum entries = 0 \<or> weight_sum entries \<ge> 2 ^ 64
    then (\<exists>e. result = Fail (InvalidArgument e)) \<and> r' = r
    else \<exists>v w. result = Ok v \<and> (v, w) \<in> set entries \<and> w \<noteq> 0"
proof -
  define s where "s = weight_sum entries"
  show ?thesis
  proof (cases "s \<ge> 2 ^ 64 \<or> s = 0")
    case True
    then show ?thesis
      using assms sum_weights_exact [of entries 0]
      by (auto simp: weighted_choice_def s_def [symmetric])
  next
    case False
    then have u: "unat (of_nat s :: u64) = s" by (simp add: unat_of_nat take_bit_eq_mod)
    then have nz: "of_nat s \<noteq> (0 :: u64)" using False by (metis unat_0)
    have sums: "sum_weights entries 0 = Ok (of_nat s)"
      using False sum_weights_exact [of entries 0] by (simp add: s_def)
    obtain selected r'' where sel: "randint False 0 (of_nat s - 1 :: u64) r = Some (selected, r'')"
      "result = result_bind selected (pick_weighted entries)"
      using assms nz by (cases "randint False 0 (of_nat s - 1 :: u64) r")
        (auto simp: weighted_choice_def sums)
    from randint_index [OF sel(1)] obtain v where v: "selected = Ok v" "v \<le> of_nat s - 1" by blast
    have "unat (of_nat s - 1 :: u64) = s - 1" using nz u by (simp add: unat_minus_one)
    with v(2) have "unat v \<le> s - 1" unfolding word_le_nat_alt by (simp only:)
    with False have "unat v < weight_sum entries" unfolding s_def [symmetric] by linarith
    from pick_weighted_exact [OF this] obtain i where i: "i < length entries"
      "pick_weighted entries v = Ok (fst (entries ! i))"
      "weight_sum (take i entries) < weight_sum (take (Suc i) entries)" by auto
    have "weight_sum (take (Suc i) entries) = weight_sum (take i entries) + unat (snd (entries ! i))"
      using i(1) by (simp add: take_Suc_conv_app_nth)
    with i(3) have "snd (entries ! i) \<noteq> 0" by auto
    moreover have "(fst (entries ! i), snd (entries ! i)) \<in> set entries" using i(1) by simp
    moreover have "result = Ok (fst (entries ! i))" using i(2) sel(2) v(1) by simp
    ultimately have "\<exists>v w. result = Ok v \<and> (v, w) \<in> set entries \<and> w \<noteq> 0" by blast
    moreover have "\<not> (weight_sum entries = 0 \<or> weight_sum entries \<ge> 2 ^ 64)"
      using False unfolding s_def by blast
    ultimately show ?thesis by (simp only: if_False)
  qed
qed

lemma mset_swap_at:
  "i < length xs \<Longrightarrow> j < length xs \<Longrightarrow> mset (swap_at i j xs) = mset xs"
  by (simp add: swap_at_def mset_swap)

lemma shuffle_loop_permutes:
  assumes "shuffle_loop n xs r = Some (result, r')" "n \<le> length xs" "length xs \<le> 2 ^ 64"
  shows "\<exists>ys. result = Ok ys \<and> mset ys = mset xs"
  using assms
proof (induction n xs r arbitrary: result r' rule: shuffle_loop.induct)
  case (3 n xs r)
  obtain i r'' where i: "randint False (0 :: u64) (of_nat (Suc n)) r = Some (i, r'')"
    using "3.prems"(1) by (cases "randint False (0 :: u64) (of_nat (Suc n)) r") auto
  from randint_index [OF i] obtain v where v: "i = Ok v" "v \<le> of_nat (Suc n)" by blast
  have "unat (of_nat (Suc n) :: u64) = Suc n"
    using "3.prems"(2,3) by (simp add: unat_of_nat take_bit_eq_mod del: of_nat_Suc)
  then have less: "unat v < length xs"
    using v(2) "3.prems"(2) by (simp add: word_le_nat_alt del: of_nat_Suc)
  have "shuffle_loop (Suc n) (swap_at (Suc n) (unat v) xs) r'' = Some (result, r')"
    using "3.prems"(1) i v(1) by simp
  moreover have "length (swap_at (Suc n) (unat v) xs) = length xs"
    by (simp add: swap_at_def)
  ultimately obtain ys where "result = Ok ys" "mset ys = mset (swap_at (Suc n) (unat v) xs)"
    using "3.IH" [OF v(1), of r'' result r'] "3.prems"(2,3) by auto
  then show ?case
    using mset_swap_at [of "Suc n" xs "unat v"] less "3.prems"(2) by simp
qed auto

section \<open>The generator\<close>

definition generator_ok :: "random \<Rightarrow> bool" where
  "generator_ok r \<longleftrightarrow> rnd_state r \<noteq> (0, 0, 0, 0)"

lemma reseed_ok: "generator_ok (reseed seed)"
  by (auto simp: generator_ok_def reseed_def Let_def split: prod.split)

lemma rotl_eq_iff: "word_rotl n a = word_rotl n b \<longleftrightarrow> a = b"
  by (metis word_rot_lr)

lemma shifted_fixpoint:
  fixes z :: u64
  assumes "z = push_bit 17 z"
  shows "z = 0"
proof (rule bit_word_eqI)
  have step: "bit z i \<longleftrightarrow> i < 64 \<and> 17 \<le> i \<and> bit z (i - 17)" for i
    using assms bit_push_bit_iff [of 17 z i] bit_imp_le_length [of z i] by auto
  have "\<not> bit z i" for i
  proof (induction i rule: less_induct)
    case (less i)
    then show ?case using step [of i] by auto
  qed
  then show "bit z i = bit 0 i" for i by simp
qed

lemma xorshift_inject:
  fixes x y :: u64
  shows "x XOR push_bit 17 x = y XOR push_bit 17 y \<longleftrightarrow> x = y"
proof
  assume eq: "x XOR push_bit 17 x = y XOR push_bit 17 y"
  have "x XOR y = push_bit 17 (x XOR y)"
  proof (rule bit_word_eqI)
    fix i
    have "bit (x XOR push_bit 17 x) i = bit (y XOR push_bit 17 y) i" using eq by simp
    then show "bit (x XOR y) i = bit (push_bit 17 (x XOR y)) i"
      by (auto simp: bit_xor_iff bit_push_bit_iff)
  qed
  from shifted_fixpoint [OF this] show "x = y"
    by (simp add: bit_eq_iff bit_xor_iff)
qed simp

definition step_state :: "u64 \<times> u64 \<times> u64 \<times> u64 \<Rightarrow> u64 \<times> u64 \<times> u64 \<times> u64" where
  "step_state s = rnd_state (snd (next_u64 \<lparr>rnd_state = s, rnd_seed = 0\<rparr>))"

lemma next_u64_state: "rnd_state (snd (next_u64 r)) = step_state (rnd_state r)"
  by (simp add: step_state_def next_u64_def Let_def split: prod.split)

lemma step_state_eq:
  "step_state (a, b, c, d) = (a XOR (d XOR b), b XOR (c XOR a), (c XOR a) XOR push_bit 17 b, word_rotl 45 (d XOR b))"
  by (simp add: step_state_def next_u64_def Let_def)

lemma xor_cancel: "(a :: u64) XOR x = b XOR x \<longleftrightarrow> a = b"
  by (auto simp: bit_eq_iff bit_xor_iff)

lemma step_state_inject: "step_state s = step_state t \<longleftrightarrow> s = t"
proof
  assume eq: "step_state s = step_state t"
  obtain a b c d where s: "s = (a, b, c, d)" by (cases s)
  obtain a' b' c' d' where t: "t = (a', b', c', d')" by (cases t)
  have d: "d XOR b = d' XOR b'" and a: "a XOR (d XOR b) = a' XOR (d' XOR b')"
    and b: "b XOR (c XOR a) = b' XOR (c' XOR a')"
    and c: "(c XOR a) XOR push_bit 17 b = (c' XOR a') XOR push_bit 17 b'"
    using eq unfolding s t step_state_eq prod.inject rotl_eq_iff by blast+
  have a_eq: "a = a'" using a d by (simp add: xor_cancel)
  have "b XOR push_bit 17 b = (b XOR (c XOR a)) XOR ((c XOR a) XOR push_bit 17 b)"
    by (auto simp: bit_eq_iff bit_xor_iff)
  also have "\<dots> = b' XOR push_bit 17 b'"
    unfolding b c by (auto simp: bit_eq_iff bit_xor_iff)
  finally have b_eq: "b = b'" by (simp add: xorshift_inject)
  have "d = d'" using d b_eq by (simp add: xor_cancel)
  moreover have "c = c'" using c a_eq b_eq by (simp add: xor_cancel)
  ultimately show "s = t" using a_eq b_eq by (simp add: s t)
qed simp

lemma step_state_zero: "step_state (0, 0, 0, 0) = (0, 0, 0, 0)"
  by (simp add: step_state_eq)

lemma step_state_nonzero: "step_state s = (0, 0, 0, 0) \<longleftrightarrow> s = (0, 0, 0, 0)"
  using step_state_inject [of s "(0, 0, 0, 0)"] by (simp add: step_state_zero)

lemma next_keeps_ok: "generator_ok r \<Longrightarrow> generator_ok (snd (next_u64 r))"
  by (simp add: generator_ok_def next_u64_state step_state_nonzero)

lemma step_state_bij: "bij_betw step_state {s. s \<noteq> (0, 0, 0, 0)} {s. s \<noteq> (0, 0, 0, 0)}"
proof -
  have inj: "inj_on step_state {s. s \<noteq> (0, 0, 0, 0)}"
    by (rule inj_onI) (simp add: step_state_inject)
  moreover have "step_state ` {s. s \<noteq> (0, 0, 0, 0)} \<subseteq> {s. s \<noteq> (0, 0, 0, 0)}"
    by (simp add: image_subset_iff step_state_nonzero)
  ultimately show ?thesis
    unfolding bij_betw_def using endo_inj_surj [of "{s. s \<noteq> (0, 0, 0, 0)}" step_state] by simp
qed

end
