(* ===== verification/RandomProps.thy ===== *)
theory RandomProps
  imports RandomLemmas
begin

text \<open>
  The properties of the random streams.
\<close>

text \<open>A draw of one of two values always returns.\<close>

lemma coin_returns: "\<exists>result r'. randint False (0 :: u64) 1 r = Some (result, r')"
proof -
  have "draw_span False (0 :: u64) 1 = 2" by (simp add: draw_span_def ordered_unsigned_def)
  then have "randint False (0 :: u64) 1 r \<noteq> None"
    using randint_returns [of False "0 :: u64" 1 r] by (simp add: reject_threshold_def)
  then show ?thesis by auto
qed

text \<open>
  Property C24: Drawing an integer refuses a minimum above the maximum and leaves the generator as it
  was; otherwise the drawn integer lies between the two, in the order of signed or unsigned integers,
  and the draw fails to return exactly if every value the generator will ever deliver is below the
  threshold of rejection (which is 0 for a power of two or the full range).
\<close>

theorem randint_exact:
  fixes lo hi :: "'a::len word"
  assumes "LENGTH('a) \<le> 64"
  shows "(\<not> int_le is_signed lo hi \<longrightarrow>
      randint is_signed lo hi r = Some (Fail (InvalidArgument ''randint minimum exceeds maximum''), r)) \<and>
    (int_le is_signed lo hi \<longrightarrow>
      (randint is_signed lo hi r = None \<longleftrightarrow> draw_span is_signed lo hi \<noteq> 0 \<and>
        (\<forall>n. drawn n r < reject_threshold (ucast (draw_span is_signed lo hi)))) \<and>
      (\<forall>result r'. randint is_signed lo hi r = Some (result, r') \<longrightarrow>
        (\<exists>v. result = Ok v \<and> int_le is_signed lo v \<and> int_le is_signed v hi)))"
  using randint_refuses randint_returns randint_in_range [OF assms] by blast

lemma randint_exact_witness:
  "\<exists>r'. randint True (- 3 :: u8) (- 3) default_random = Some (Ok (- 3), r')"
proof -
  have span: "draw_span True (- 3 :: u8) (- 3) = 1" by (simp add: draw_span_def)
  have "randint True (- 3 :: u8) (- 3) default_random \<noteq> None"
    using randint_exact [of True "- 3 :: u8" "- 3" default_random]
    by (simp add: span int_le_def reject_threshold_def)
  then obtain result r' where r: "randint True (- 3 :: u8) (- 3) default_random = Some (result, r')" by auto
  then obtain v where "result = Ok v" "int_le True (- 3) v" "int_le True v (- 3)"
    using randint_exact [of True "- 3 :: u8" "- 3" default_random] by (auto simp: int_le_def)
  then have "result = Ok (- 3)" by (simp add: int_le_def signed_word_eqI)
  with r show ?thesis by blast
qed

text \<open>
  Property C26: Draws are not biased: for every integer of the range the same number of generator
  values is accepted and delivers it, namely \<open>2 ^ 64\<close> divided by the number of integers in the range;
  a rejected value is drawn again.
\<close>

theorem draws_are_unbiased:
  fixes lo hi v :: "'a::len word"
  assumes "LENGTH('a) \<le> 64" "int_le is_signed lo v" "int_le is_signed v hi" "draw_span is_signed lo hi \<noteq> 0"
    and "accepts_at (ucast (draw_span is_signed lo hi)) r n"
  shows "randint is_signed lo hi r = Some (Ok (draw_value is_signed lo hi (drawn n r)), after (Suc n) r) \<and>
    card {x. reject_threshold (ucast (draw_span is_signed lo hi)) \<le> x \<and> draw_value is_signed lo hi x = v} =
      2 ^ 64 div unat (draw_span is_signed lo hi)"
proof -
  have "int_le is_signed lo hi" using assms(2,3) by (auto simp: int_le_def split: if_splits)
  from randint_value [OF this assms(4,5)] draws_unbiased [OF assms(1-4)] show ?thesis
    by (simp add: unat_u64(1) [OF assms(1)])
qed

lemma draws_are_unbiased_witness:
  "card {x. reject_threshold 6 \<le> x \<and> draw_value False (1 :: u32) 6 x = 4} = 3074457345618258602"
proof -
  have span: "draw_span False (1 :: u32) 6 = 6" by (simp add: draw_span_def ordered_unsigned_def)
  have accepts: "accepts_at 6 default_random 0"
  proof -
    have "reject_threshold 6 = 4" by (simp add: reject_threshold_def)
    moreover have "drawn 0 default_random = 12966619160104079557" unfolding drawn_0 by code_simp
    ultimately show ?thesis by (simp add: accepts_at_def)
  qed
  show ?thesis
    using draws_are_unbiased [of False "1 :: u32" 4 6 default_random 0] accepts by (simp add: span)
qed

text \<open>
  A weighted choice that returns throws exactly if the weights are all zero or exceed 64
  bits together, and then leaves the generator alone; otherwise it delivers an entry of positive
  weight, so the selection never falls outside of the weights.
\<close>

theorem weighted_choice_delivers_weighted:
  assumes "weighted_choice entries r = Some (result, r')"
  shows "if weight_sum entries = 0 \<or> weight_sum entries \<ge> 2 ^ 64
    then (\<exists>e. result = Fail (InvalidArgument e)) \<and> r' = r
    else \<exists>v w. result = Ok v \<and> (v, w) \<in> set entries \<and> w \<noteq> 0"
  by (rule weighted_choice_exact [OF assms])

lemma weighted_choice_delivers_weighted_witness:
  "\<exists>result r'. weighted_choice [(CHR ''a'', 0), (CHR ''b'', 2)] default_random = Some (result, r') \<and> result = Ok (CHR ''b'')"
proof -
  have "weighted_choice [(CHR ''a'', 0), (CHR ''b'', 2)] default_random \<noteq> None"
    using coin_returns [of default_random] by (auto simp: weighted_choice_def)
  then obtain result r' where w: "weighted_choice [(CHR ''a'', 0), (CHR ''b'', 2)] default_random = Some (result, r')"
    by auto
  from weighted_choice_delivers_weighted [OF w] have "result = Ok (CHR ''b'')" by auto
  with w show ?thesis by blast
qed

text \<open>
  A shuffle that returns never throws and delivers a permutation of the list.
\<close>

theorem shuffle_permutes:
  assumes "random_shuffle xs r = Some (result, r')" "length xs \<le> 2 ^ 64"
  shows "\<exists>ys. result = Ok ys \<and> mset ys = mset xs"
  using shuffle_loop_permutes [of "length xs" xs r result r'] assms by (simp add: random_shuffle_def)

lemma shuffle_permutes_witness:
  "\<exists>ys r'. random_shuffle [3 :: nat, 5] default_random = Some (Ok ys, r') \<and> mset ys = {#3, 5#}"
proof -
  have "random_shuffle [3 :: nat, 5] default_random \<noteq> None"
    using coin_returns [of default_random] by (auto simp: random_shuffle_def split: sum.split)
  then obtain result r' where s: "random_shuffle [3 :: nat, 5] default_random = Some (result, r')" by auto
  from shuffle_permutes [OF s] s show ?thesis by (auto simp: add_mset_commute)
qed

text \<open>
  The generator never gets stuck: every seed gives a state other than all zeros, drawing
  keeps it so, and a draw permutes those states, so that no two streams ever run together.
\<close>

theorem generator_permutes_states:
  "rnd_state (reseed seed) \<noteq> (0, 0, 0, 0) \<and>
   (\<forall>r. rnd_state (snd (next_u64 r)) = step_state (rnd_state r)) \<and>
   bij_betw step_state {s. s \<noteq> (0, 0, 0, 0)} {s. s \<noteq> (0, 0, 0, 0)}"
  using reseed_ok [of seed] next_u64_state step_state_bij by (simp add: generator_ok_def)

end
