(* ===== verification/FixedPoint.thy ===== *)
theory FixedPoint
  imports PackedBits
begin

text \<open>
  The fixed-point values of \<open>fixed.hpp\<close>: a packed integer with a number of integer bits and a
  signedness. The template parameters of \<open>Fixed\<close> are a record, and the destination of a conversion
  is given by it. The integer a value stands for is its scaled value; the aborts are failures.
\<close>

section \<open>Formats and values\<close>

datatype signedness = Unsigned | Signed

datatype rounding = Truncate | NearestEven

datatype overflow = Wrap | Saturate | Trap

record format =
  fm_width :: nat
  fm_integer :: nat
  fm_sign :: signedness

record fixed =
  fx_format :: format
  fx_bits :: packed

definition fractional_bits :: "format \<Rightarrow> nat" where
  "fractional_bits fm = fm_width fm - fm_integer fm"

definition width_mask :: "nat \<Rightarrow> u128" where
  "width_mask width = (if width = 128 then NOT 0 else push_bit width 1 - 1)"

definition unsigned_limit :: "nat \<Rightarrow> u128" where
  "unsigned_limit width = width_mask width"

definition signed_positive_limit :: "nat \<Rightarrow> u128" where
  "signed_positive_limit width = push_bit (width - 1) 1 - 1"

definition signed_negative_limit :: "nat \<Rightarrow> u128" where
  "signed_negative_limit width = push_bit (width - 1) 1"

section \<open>Sign and magnitude\<close>

text \<open>The argument is a two's complement integer.\<close>

definition magnitude :: "u64 \<Rightarrow> u64" where
  "magnitude v = (if sint v \<ge> 0 then v else - (v + 1) + 1)"

function gcd_loop :: "u64 \<Rightarrow> u64 \<Rightarrow> u64" where
  "gcd_loop left right = (if right \<noteq> 0 then gcd_loop right (left mod right) else left)"
  by pat_completeness auto
termination
  by (relation "measure (\<lambda>(left, right). unat right)")
    (auto simp: word_less_nat_alt [symmetric] word_mod_less_divisor word_neq_0_conv)

declare gcd_loop.simps [simp del]

definition scalar_bits :: "nat \<Rightarrow> u128 \<Rightarrow> bool \<Rightarrow> packed" where
  "scalar_bits W raw negative =
     (let ws = replicate (word_count W) (if negative then 0xffffffff else 0);
          copied_words = (if word_count W < 4 then word_count W else 4)
      in from_words W (fst (fold store_low_word [0..<copied_words] (ws, raw))))"

definition decompose :: "fixed \<Rightarrow> bool \<times> u128" where
  "decompose f =
     (let width = fm_width (fx_format f); raw = to_uint128 (fx_bits f)
      in if fm_sign (fx_format f) = Signed \<and> raw AND push_bit (width - 1) 1 \<noteq> 0
         then (True, (NOT raw + 1) AND width_mask width)
         else (False, raw))"

definition encode :: "nat \<Rightarrow> bool \<Rightarrow> u128 \<Rightarrow> packed" where
  "encode W negative m = from_uint128 W (if negative then 0 - m else m)"

section \<open>Construction\<close>

definition fixed_zero :: "format \<Rightarrow> fixed" where
  "fixed_zero fm = \<lparr>fx_format = fm, fx_bits = bits_zero (fm_width fm)\<rparr>"

definition from_raw :: "format \<Rightarrow> packed \<Rightarrow> fixed" where
  "from_raw fm bits = \<lparr>fx_format = fm, fx_bits = bits\<rparr>"

text \<open>From a 128-bit pattern and whether it stands for a negative integer.\<close>

definition from_raw_scalar :: "format \<Rightarrow> u128 \<Rightarrow> bool \<Rightarrow> fixed" where
  "from_raw_scalar fm v negative = from_raw fm (scalar_bits (fm_width fm) v negative)"

text \<open>The result is read as unsigned or signed according to the format.\<close>

definition scaled :: "fixed \<Rightarrow> u128" where
  "scaled f =
     (case fm_sign (fx_format f) of
        Unsigned \<Rightarrow> to_uint128 (fx_bits f)
      | Signed \<Rightarrow>
          let (negative, m) = decompose f
          in if \<not> negative then m
             else if m = push_bit 127 1
                  then let half_min = - push_bit 126 1 in half_min + half_min
             else - m)"

text \<open>The loop never ends for 0, which it is not called with.\<close>

partial_function (option) strip_twos :: "u64 \<Rightarrow> nat \<Rightarrow> (u64 \<times> nat) option" where
  "strip_twos denominator count =
     (if denominator AND 1 = 0 then strip_twos (drop_bit 1 denominator) (count + 1)
      else Some (denominator, count))"

definition representable :: "format \<Rightarrow> bool \<Rightarrow> u128 \<Rightarrow> bool" where
  "representable fm negative m =
     (case fm_sign fm of
        Signed \<Rightarrow> m \<le> (if negative then signed_negative_limit (fm_width fm)
                        else signed_positive_limit (fm_width fm))
      | Unsigned \<Rightarrow> \<not> negative \<and> m \<le> unsigned_limit (fm_width fm))"

definition all_ones :: u128 where
  "all_ones = NOT 0"

text \<open>\<open>m << shift\<close>, where a shift by the whole width or more gives 0.\<close>

definition shift_up :: "nat \<Rightarrow> u128 \<Rightarrow> u128" where
  "shift_up shift m = (if shift \<ge> 128 then 0 else push_bit shift m)"

definition shift_overflows :: "nat \<Rightarrow> u128 \<Rightarrow> bool" where
  "shift_overflows shift m = (m \<noteq> 0 \<and> (shift \<ge> 128 \<or> m > drop_bit shift all_ones))"

definition from_ratio :: "format \<Rightarrow> u64 \<Rightarrow> u64 \<Rightarrow> fixed result option" where
  "from_ratio fm numerator denominator =
     (if denominator = 0 then Some (Fail (Abort ''zero denominator''))
      else
        let negative = (sint numerator < 0);
            divisor = gcd_loop (magnitude numerator) denominator;
            numerator_magnitude = magnitude numerator div divisor
        in case strip_twos (denominator div divisor) 0 of
             None \<Rightarrow> None
           | Some (odd_part, denominator_power) \<Rightarrow>
               Some (if odd_part \<noteq> 1 \<or> denominator_power > fractional_bits fm
                 then Fail (Abort ''ratio has no exact representation'')
                 else
                   let shift = fractional_bits fm - denominator_power;
                       m = ucast numerator_magnitude
                   in if shift_overflows shift m
                      then Fail (Abort ''ratio is outside the supported range'')
                      else
                        let m = shift_up shift m;
                            negative = (negative \<and> m \<noteq> 0)
                        in if \<not> representable fm negative m
                           then Fail (Abort ''ratio is not representable'')
                           else Ok (from_raw fm (encode (fm_width fm) negative m))))"

section \<open>Arithmetic\<close>

definition product_format :: "format \<Rightarrow> format \<Rightarrow> format" where
  "product_format l r =
     \<lparr>fm_width = fm_width l + fm_width r, fm_integer = fm_integer l + fm_integer r,
      fm_sign = (if fm_sign l = Signed \<or> fm_sign r = Signed then Signed else Unsigned)\<rparr>"

definition mul_full :: "fixed \<Rightarrow> fixed \<Rightarrow> fixed" where
  "mul_full l r =
     (let (l_negative, l_magnitude) = decompose l;
          (r_negative, r_magnitude) = decompose r;
          product = l_magnitude * r_magnitude;
          negative = (product \<noteq> 0 \<and> l_negative \<noteq> r_negative);
          fm = product_format (fx_format l) (fx_format r)
      in from_raw fm (encode (fm_width fm) negative product))"

text \<open>The magnitude rounded to \<open>shift > 0\<close> fewer fractional bits.\<close>

definition round_magnitude :: "rounding \<Rightarrow> nat \<Rightarrow> u128 \<Rightarrow> u128" where
  "round_magnitude rounding shift m =
     (let quotient = (if shift = 128 then 0 else drop_bit shift m);
          remainder_mask = (if shift = 128 then all_ones else push_bit shift 1 - 1);
          remainder = m AND remainder_mask;
          halfway = push_bit (shift - 1) 1
      in if rounding = NearestEven \<and>
            (remainder > halfway \<or> (remainder = halfway \<and> quotient AND 1 \<noteq> 0))
         then quotient + 1 else quotient)"

definition quantize :: "format \<Rightarrow> rounding \<Rightarrow> overflow \<Rightarrow> fixed \<Rightarrow> fixed result" where
  "quantize dest rounding overflow source =
     (let (negative, m) = decompose source;
          source_fraction = fractional_bits (fx_format source);
          dest_fraction = fractional_bits dest;
          (arithmetic_overflow, m) =
            (if source_fraction > dest_fraction
             then (False, round_magnitude rounding (source_fraction - dest_fraction) m)
             else if source_fraction < dest_fraction
             then (shift_overflows (dest_fraction - source_fraction) m,
                   shift_up (dest_fraction - source_fraction) m)
             else (False, m));
          negative = (negative \<and> m \<noteq> 0);
          is_representable = (\<not> arithmetic_overflow \<and> representable dest negative m)
      in if is_representable \<or> overflow = Wrap
         then Ok (from_raw dest (encode (fm_width dest) negative m))
         else if overflow = Trap then Fail (Abort ''quantize overflow'')
         else case fm_sign dest of
                Signed \<Rightarrow> Ok (from_raw dest (encode (fm_width dest) negative
                  (if negative then signed_negative_limit (fm_width dest)
                   else signed_positive_limit (fm_width dest))))
              | Unsigned \<Rightarrow> Ok (from_raw dest (from_uint128 (fm_width dest)
                  (if negative then 0 else unsigned_limit (fm_width dest)))))"

section \<open>The integer a value stands for\<close>

definition fixed_ok :: "fixed \<Rightarrow> bool" where
  "fixed_ok f \<longleftrightarrow> packed_ok (fx_bits f) \<and> pwidth (fx_bits f) = fm_width (fx_format f) \<and>
     fm_integer (fx_format f) \<le> fm_width (fx_format f)"

definition format_ok :: "format \<Rightarrow> bool" where
  "format_ok fm \<longleftrightarrow> 0 < fm_width fm \<and> fm_integer fm \<le> fm_width fm \<and> fm_width fm \<le> 128"

definition format_min :: "format \<Rightarrow> int" where
  "format_min fm = (case fm_sign fm of Unsigned \<Rightarrow> 0 | Signed \<Rightarrow> - (2 ^ (fm_width fm - 1)))"

definition format_max :: "format \<Rightarrow> int" where
  "format_max fm = (case fm_sign fm of Unsigned \<Rightarrow> 2 ^ fm_width fm - 1 | Signed \<Rightarrow> 2 ^ (fm_width fm - 1) - 1)"

definition in_format :: "format \<Rightarrow> int \<Rightarrow> bool" where
  "in_format fm x \<longleftrightarrow> format_min fm \<le> x \<and> x \<le> format_max fm"

definition fx_value :: "fixed \<Rightarrow> int" where
  "fx_value f =
     (let x = int (packed_value (fx_bits f)); width = fm_width (fx_format f)
      in if fm_sign (fx_format f) = Signed \<and> x \<ge> 2 ^ (width - 1) then x - 2 ^ width else x)"

end
