(* ===== verification/FixedLemmas.thy ===== *)
theory FixedLemmas
  imports FixedPoint
begin

text \<open>
  Lemmas of the fixed-point values: limits, what sign and magnitude stand for, and that each operation
  computes the integer it should.
\<close>

section \<open>Limits\<close>

lemma unat_mask_128: "W \<le> 128 \<Longrightarrow> unat (mask W :: u128) = 2 ^ W - 1"
proof -
  assume W: "W \<le> 128"
  have "unat (mask W :: u128) = mask W"
    by (rule nat_bit_eqI) (use W in \<open>auto simp: bit_unat bit_mask_word bit_mask_iff\<close>)
  then show ?thesis by (simp add: mask_eq_exp_minus_1)
qed

lemma width_mask_eq: "W \<le> 128 \<Longrightarrow> width_mask W = mask W"
  by (cases "W = 128")
    (auto intro!: bit_word_eqI simp: width_mask_def push_one_minus_one bit_not_iff bit_mask_word simp del: push_bit_of_1)

lemma unat_limits:
  assumes "0 < W" "W \<le> 128"
  shows "unat (unsigned_limit W) = 2 ^ W - 1" "unat (signed_positive_limit W) = 2 ^ (W - 1) - 1"
    "unat (signed_negative_limit W) = 2 ^ (W - 1)"
proof -
  show "unat (unsigned_limit W) = 2 ^ W - 1"
    using assms by (simp add: unsigned_limit_def width_mask_eq unat_mask_128)
  show "unat (signed_positive_limit W) = 2 ^ (W - 1) - 1"
    using assms unat_mask_128 [of "W - 1"] by (simp add: signed_positive_limit_def push_one_minus_one del: push_bit_of_1)
  show "unat (signed_negative_limit W) = 2 ^ (W - 1)"
    by (rule nat_bit_eqI)
      (use assms in \<open>auto simp: signed_negative_limit_def bit_unat bit_one_shifted bit_exp_iff simp del: push_bit_of_1\<close>)
qed

lemma unat_less_mod:
  fixes m :: u128
  assumes "W \<le> 128"
  shows "uint (0 - m) mod 2 ^ W = (- int (unat m)) mod 2 ^ W"
proof -
  have dvd: "(2 :: int) ^ W dvd 2 ^ 128" using assms by (rule le_imp_power_dvd)
  have "uint (0 - m) = (0 - uint m) mod 2 ^ 128" by (simp add: uint_word_ariths)
  then show ?thesis using mod_mod_cancel [OF dvd] by simp
qed

section \<open>Values\<close>

definition signed_int :: "bool \<Rightarrow> u128 \<Rightarrow> int" where
  "signed_int negative m = (if negative then - int (unat m) else int (unat m))"

lemma encode_value:
  assumes "0 < W" "W \<le> 128"
  shows "int (packed_value (encode W negative m)) = signed_int negative m mod 2 ^ W"
proof -
  have "int (packed_value (encode W negative m)) = uint (if negative then 0 - m else m) mod 2 ^ W"
    using packed_value_from_uint128 [OF assms(1)] by (simp add: encode_def zmod_int)
  then show ?thesis using unat_less_mod [OF assms(2), of m] by (simp add: signed_int_def)
qed

lemma encode_ok [simp]:
  "0 < W \<Longrightarrow> packed_ok (encode W negative m)" "pwidth (encode W negative m) = W"
  by (simp_all add: encode_def from_uint128_ok)

lemma fixed_ok_encode: "format_ok fm \<Longrightarrow> fixed_ok (from_raw fm (encode (fm_width fm) negative m))"
  by (simp add: fixed_ok_def from_raw_def format_ok_def)

lemma half_power: "0 < W \<Longrightarrow> (2 :: int) ^ W = 2 * 2 ^ (W - 1)"
  using power_Suc [of "2 :: int" "W - 1"] by simp

lemma value_bounds:
  assumes "fixed_ok f"
  shows "int (packed_value (fx_bits f)) < 2 ^ fm_width (fx_format f)" "0 < fm_width (fx_format f)"
proof -
  have "packed_value (fx_bits f) < 2 ^ fm_width (fx_format f)"
    using packed_value_bound [of "fx_bits f"] assms by (simp add: fixed_ok_def)
  then show "int (packed_value (fx_bits f)) < 2 ^ fm_width (fx_format f)"
    using of_nat_less_iff [where ?'a = int] by fastforce
  show "0 < fm_width (fx_format f)" using assms by (auto simp: fixed_ok_def packed_ok_def)
qed

lemma value_in_format:
  assumes "fixed_ok f"
  shows "in_format (fx_format f) (fx_value f)"
  using value_bounds [OF assms] half_power [OF value_bounds(2) [OF assms]]
  by (auto simp: in_format_def format_min_def format_max_def fx_value_def Let_def split: signedness.split)

lemma value_mod: "fx_value f mod 2 ^ fm_width (fx_format f) = int (packed_value (fx_bits f)) mod 2 ^ fm_width (fx_format f)"
  by (simp add: fx_value_def Let_def)

lemma in_format_unique:
  assumes "0 < fm_width fm" "in_format fm x" "in_format fm y" "x mod 2 ^ fm_width fm = y mod 2 ^ fm_width fm"
  shows "x = y"
proof -
  have "2 ^ fm_width fm dvd x - y" using assms(4) by (simp add: mod_eq_dvd_iff)
  moreover have "\<bar>x - y\<bar> < 2 ^ fm_width fm"
    using assms(2,3) half_power [OF assms(1)]
    by (auto simp: in_format_def format_min_def format_max_def abs_less_iff split: signedness.splits)
  ultimately show ?thesis using zdvd_imp_le [of "2 ^ fm_width fm" "\<bar>x - y\<bar>"] by (cases "x = y") auto
qed

lemma encoded_value:
  assumes "format_ok fm" "in_format fm (signed_int negative m)"
  shows "fx_value (from_raw fm (encode (fm_width fm) negative m)) = signed_int negative m"
proof -
  define g where "g = from_raw fm (encode (fm_width fm) negative m)"
  have g: "fixed_ok g" "fx_format g = fm"
    using fixed_ok_encode [OF assms(1)] by (simp_all add: g_def from_raw_def)
  have W: "0 < fm_width fm" "fm_width fm \<le> 128" using assms(1) by (simp_all add: format_ok_def)
  have "fx_value g mod 2 ^ fm_width fm = signed_int negative m mod 2 ^ fm_width fm"
    using value_mod [of g] encode_value [OF W] by (simp add: g_def from_raw_def)
  then show ?thesis
    unfolding g_def [symmetric]
    using in_format_unique [OF W(1) _ assms(2)] value_in_format [OF g(1)] g(2) by simp
qed

lemma nat_top_bit: "(p :: nat) < 2 ^ Suc n \<Longrightarrow> bit p n \<longleftrightarrow> 2 ^ n \<le> p"
proof -
  assume "p < 2 ^ Suc n"
  then have "p div 2 ^ n < 2" by (simp add: less_mult_imp_div_less)
  moreover have "0 < p div 2 ^ n \<longleftrightarrow> 2 ^ n \<le> p"
    by (simp add: div_greater_zero_iff)
  ultimately show ?thesis
    unfolding bit_iff_odd by (cases "p div 2 ^ n" rule: nat.exhaust) auto
qed

lemma decompose_exact:
  assumes "fixed_ok f" "fm_width (fx_format f) \<le> 128" "decompose f = (negative, m)"
  shows "fx_value f = signed_int negative m" "negative \<Longrightarrow> m \<noteq> 0"
proof -
  define W p raw where "W = fm_width (fx_format f)" and "p = packed_value (fx_bits f)"
    and "raw = to_uint128 (fx_bits f)"
  have W: "0 < W" "W \<le> 128" using value_bounds [OF assms(1)] assms(2) by (simp_all add: W_def)
  have raw: "unat raw = p"
    using unat_to_uint128 [of "fx_bits f"] assms(1,2) by (simp add: raw_def p_def fixed_ok_def)
  have p: "p < 2 ^ W" using value_bounds(1) [OF assms(1)] by (simp add: p_def W_def)
  have top: "raw AND push_bit (W - 1) 1 \<noteq> 0 \<longleftrightarrow> 2 ^ (W - 1) \<le> p"
  proof -
    have "raw AND push_bit (W - 1) 1 \<noteq> 0 \<longleftrightarrow> bit raw (W - 1)"
      by (simp only: bit_iff_and_push_bit_not_eq_0)
    also have "\<dots> \<longleftrightarrow> bit p (W - 1)" by (simp add: raw [symmetric] bit_unat)
    finally show ?thesis using nat_top_bit [of p "W - 1"] p W(1) by simp
  qed
  have neg_m: "unat ((NOT raw + 1) AND width_mask W) = 2 ^ W - p" if "2 ^ (W - 1) \<le> p"
  proof -
    have p0: "0 < p" using that by (rule less_le_trans [rotated]) simp
    have "(NOT raw + 1) AND width_mask W = take_bit W (0 - raw)"
      by (simp add: width_mask_eq [OF W(2)] take_bit_eq_mask minus_eq_not_plus_1)
    then have "int (unat ((NOT raw + 1) AND width_mask W)) = take_bit W (uint (0 - raw))"
      by (simp only: unsigned_take_bit_eq of_nat_take_bit uint_nat)
    also have "\<dots> = uint (0 - raw) mod 2 ^ W" by (rule take_bit_eq_mod)
    also have "\<dots> = (- int p) mod 2 ^ W" using unat_less_mod [OF W(2), of raw] by (simp add: raw)
    also have "\<dots> = 2 ^ W - int p"
      using p0 p by (simp add: zmod_zminus1_eq_if)
    also have "\<dots> = int (2 ^ W - p)" using p by (simp add: of_nat_diff)
    finally show ?thesis by (simp only: of_nat_eq_iff)
  qed
  have "fx_value f = signed_int negative m \<and> (negative \<longrightarrow> m \<noteq> 0)"
  proof (cases "fm_sign (fx_format f) = Signed \<and> 2 ^ (W - 1) \<le> p")
    case True
    then have d: "negative" "m = (NOT raw + 1) AND width_mask W"
      using assms(3) top unfolding decompose_def Let_def W_def raw_def by auto
    then have m: "int (unat m) = 2 ^ W - int p" using True p neg_m by (simp add: of_nat_diff)
    have "2 ^ (W - 1) \<le> int p"
      using True by (metis of_nat_le_iff of_nat_numeral of_nat_power)
    then have "fx_value f = int p - 2 ^ W"
      using True by (simp add: fx_value_def p_def W_def)
    moreover have "m \<noteq> 0" using d(2) neg_m True p by (metis unat_0 zero_less_diff less_irrefl_nat)
    ultimately show ?thesis using d(1) m by (simp add: signed_int_def)
  next
    case False
    then have d: "\<not> negative" "m = raw"
      using assms(3) top unfolding decompose_def Let_def W_def raw_def by (auto split: if_splits)
    have "int p < 2 ^ (W - 1)" if "fm_sign (fx_format f) = Signed"
      using False that by (metis not_le of_nat_less_iff of_nat_numeral of_nat_power)
    then have "fx_value f = int p"
      by (cases "fm_sign (fx_format f)") (auto simp: fx_value_def Let_def p_def W_def)
    then show ?thesis using d raw by (simp add: signed_int_def)
  qed
  then show "fx_value f = signed_int negative m" "negative \<Longrightarrow> m \<noteq> 0" by simp_all
qed

section \<open>Products\<close>

lemma decompose_bound:
  assumes "fixed_ok f" "fm_width (fx_format f) \<le> 128" "decompose f = (negative, m)"
  shows "int (unat m) = \<bar>fx_value f\<bar>"
    "\<bar>fx_value f\<bar> \<le> (case fm_sign (fx_format f) of
       Unsigned \<Rightarrow> 2 ^ fm_width (fx_format f) - 1 | Signed \<Rightarrow> 2 ^ (fm_width (fx_format f) - 1))"
    "\<bar>fx_value f\<bar> < 2 ^ fm_width (fx_format f)"
  using decompose_exact [OF assms] value_in_format [OF assms(1)] half_power [OF value_bounds(2) [OF assms(1)]]
  by (auto simp: signed_int_def in_format_def format_min_def format_max_def split: signedness.splits if_splits)

lemma half_products:
  fixes x y :: int
  assumes "1 \<le> x" "1 \<le> y"
  shows "x * y \<le> 2 * x * y - 1" "x * (2 * y - 1) \<le> 2 * x * y - 1" "(2 * x - 1) * y \<le> 2 * x * y - 1"
    "(2 * x - 1) * (2 * y - 1) \<le> (2 * x) * (2 * y) - 1"
proof -
  have "1 * 1 \<le> x * y" using assms by (intro mult_mono) auto
  then show "x * y \<le> 2 * x * y - 1" by linarith
  show "x * (2 * y - 1) \<le> 2 * x * y - 1" "(2 * x - 1) * y \<le> 2 * x * y - 1"
    "(2 * x - 1) * (2 * y - 1) \<le> (2 * x) * (2 * y) - 1"
    using assms by (simp_all add: algebra_simps)
qed

lemma mul_full_exact:
  assumes "fixed_ok l" "fixed_ok r" "fm_width (fx_format l) + fm_width (fx_format r) \<le> 128"
  shows "fixed_ok (mul_full l r)" "fx_format (mul_full l r) = product_format (fx_format l) (fx_format r)"
    "fx_value (mul_full l r) = fx_value l * fx_value r"
proof -
  define fm where "fm = product_format (fx_format l) (fx_format r)"
  define Wl Wr where "Wl = fm_width (fx_format l)" and "Wr = fm_width (fx_format r)"
  obtain ln lm where l: "decompose l = (ln, lm)" by fastforce
  obtain rn rm where r: "decompose r = (rn, rm)" by fastforce
  have W: "Wl \<le> 128" "Wr \<le> 128" "0 < Wl" "0 < Wr" "Wl + Wr \<le> 128" "fm_width fm = Wl + Wr"
    using assms value_bounds(2) by (auto simp: Wl_def Wr_def fm_def product_format_def)
  note bl = decompose_bound [OF assms(1) W(1) [unfolded Wl_def] l, folded Wl_def]
  note br = decompose_bound [OF assms(2) W(2) [unfolded Wr_def] r, folded Wr_def]
  have fm: "format_ok fm"
    using assms W by (auto simp: format_ok_def fm_def product_format_def fixed_ok_def)
  have "\<bar>fx_value l\<bar> * \<bar>fx_value r\<bar> < 2 ^ Wl * 2 ^ Wr"
    by (rule mult_strict_mono') (use bl(3) br(3) in auto)
  also have "\<dots> \<le> 2 ^ 128"
    unfolding power_add [symmetric] by (rule power_increasing [OF W(5)]) simp
  finally have "unat lm * unat rm < 2 ^ 128"
    by (metis bl(1) br(1) of_nat_less_iff of_nat_mult of_nat_numeral of_nat_power)
  then have product: "unat (lm * rm) = unat lm * unat rm"
    by (simp add: unat_word_ariths)
  define negative where "negative = (lm * rm \<noteq> 0 \<and> ln \<noteq> rn)"
  have v: "signed_int negative (lm * rm) = fx_value l * fx_value r"
  proof -
    define a b where "a = int (unat lm)" and "b = int (unat rm)"
    have ab: "fx_value l = (if ln then - a else a)" "fx_value r = (if rn then - b else b)"
      using decompose_exact(1) [OF assms(1) _ l] decompose_exact(1) [OF assms(2) _ r] W(1,2)
      by (simp_all only: a_def b_def signed_int_def Wl_def Wr_def)
    have p: "int (unat (lm * rm)) = a * b" by (simp only: product of_nat_mult a_def b_def)
    then have "lm * rm \<noteq> 0 \<longleftrightarrow> a * b \<noteq> 0" by (metis of_nat_eq_0_iff unat_eq_zero)
    then show ?thesis unfolding signed_int_def negative_def p ab by auto
  qed
  have "in_format fm (fx_value l * fx_value r)"
  proof -
    define bound where "bound = (\<lambda>f :: fixed. case fm_sign (fx_format f) of
       Unsigned \<Rightarrow> 2 ^ fm_width (fx_format f) - 1 | Signed \<Rightarrow> (2 :: int) ^ (fm_width (fx_format f) - 1))"
    have "\<bar>fx_value l * fx_value r\<bar> \<le> bound l * bound r"
      unfolding abs_mult by (rule mult_mono) (use bl(2) br(2) in \<open>auto simp: bound_def Wl_def Wr_def split: signedness.splits\<close>)
    moreover have "bound l * bound r \<le> format_max fm"
    proof -
      have pl: "(2 :: int) ^ Wl = 2 * 2 ^ (Wl - 1)" and pr: "(2 :: int) ^ Wr = 2 * 2 ^ (Wr - 1)"
        by (rule half_power [OF W(3)], rule half_power [OF W(4)])
      have ge: "(1 :: int) \<le> 2 ^ (Wl - 1)" "(1 :: int) \<le> 2 ^ (Wr - 1)" by simp_all
      have top: "(2 :: int) ^ (Wl + Wr - 1) = 2 * 2 ^ (Wl - 1) * 2 ^ (Wr - 1)"
      proof -
        have "Wl + Wr - 1 = Suc ((Wl - 1) + (Wr - 1))" using W(3,4) by simp
        then show ?thesis by (simp only: power_Suc power_add mult.assoc)
      qed
      have mx: "format_max fm = (if fm_sign fm = Signed then 2 ^ (Wl + Wr - 1) - 1 else 2 ^ Wl * 2 ^ Wr - 1)"
        by (cases "fm_sign fm") (simp_all add: format_max_def W(6) power_add)
      define x y :: int where "x = 2 ^ (Wl - 1)" and "y = 2 ^ (Wr - 1)"
      have "x * y \<le> 2 * x * y - 1" "x * (2 * y - 1) \<le> 2 * x * y - 1" "(2 * x - 1) * y \<le> 2 * x * y - 1"
        "(2 * x - 1) * (2 * y - 1) \<le> (2 * x) * (2 * y) - 1"
        by (rule half_products; use ge in \<open>simp add: x_def y_def\<close>)+
      moreover have "bound l = (if fm_sign (fx_format l) = Signed then x else 2 * x - 1)"
        "bound r = (if fm_sign (fx_format r) = Signed then y else 2 * y - 1)"
        by (auto simp: bound_def x_def y_def pl [unfolded Wl_def] pr [unfolded Wr_def] Wl_def Wr_def split: signedness.split)
      moreover have "format_max fm = (if fm_sign (fx_format l) = Signed \<or> fm_sign (fx_format r) = Signed
          then 2 * x * y - 1 else (2 * x) * (2 * y) - 1)"
        unfolding mx top pl pr x_def y_def by (simp add: fm_def product_format_def)
      ultimately show ?thesis by auto
    qed
    moreover have "format_min fm \<le> fx_value l * fx_value r"
    proof (cases "fm_sign fm")
      case Signed
      then have "format_min fm = - (format_max fm + 1)" by (simp add: format_min_def format_max_def)
      with calculation show ?thesis by (simp add: abs_le_iff)
    next
      case Unsigned
      then have "fm_sign (fx_format l) = Unsigned" "fm_sign (fx_format r) = Unsigned"
        by (auto simp: fm_def product_format_def split: if_splits intro: signedness.exhaust)
      then have "0 \<le> fx_value l" "0 \<le> fx_value r"
        using value_in_format [OF assms(1)] value_in_format [OF assms(2)]
        by (simp_all add: in_format_def format_min_def)
      then show ?thesis using Unsigned by (simp add: format_min_def)
    qed
    ultimately show ?thesis by (simp add: in_format_def)
  qed
  then have inf: "in_format fm (signed_int negative (lm * rm))" by (simp add: v)
  have eq: "mul_full l r = from_raw fm (encode (fm_width fm) negative (lm * rm))"
    by (simp add: mul_full_def l r negative_def fm_def Let_def)
  show "fixed_ok (mul_full l r)" unfolding eq by (rule fixed_ok_encode [OF fm])
  show "fx_format (mul_full l r) = product_format (fx_format l) (fx_format r)"
    by (simp add: eq from_raw_def fm_def)
  show "fx_value (mul_full l r) = fx_value l * fx_value r"
    unfolding eq using encoded_value [OF fm inf] v by simp
qed

section \<open>Rounding\<close>

text \<open>A natural number divided by \<open>2 ^ k\<close>, and an integer by its magnitude.\<close>

definition rounded_nat :: "rounding \<Rightarrow> nat \<Rightarrow> nat \<Rightarrow> nat" where
  "rounded_nat rounding k n =
     (let q = n div 2 ^ k; r = n mod 2 ^ k
      in if rounding = NearestEven \<and> (2 * r > 2 ^ k \<or> (2 * r = 2 ^ k \<and> odd q)) then q + 1 else q)"

definition rounded :: "rounding \<Rightarrow> nat \<Rightarrow> int \<Rightarrow> int" where
  "rounded rounding k x = sgn x * int (rounded_nat rounding k (nat \<bar>x\<bar>))"

definition exact_value :: "rounding \<Rightarrow> nat \<Rightarrow> nat \<Rightarrow> int \<Rightarrow> int" where
  "exact_value rounding source_fraction dest_fraction x =
     (if source_fraction > dest_fraction then rounded rounding (source_fraction - dest_fraction) x
      else x * 2 ^ (dest_fraction - source_fraction))"

lemma nearest_even_error: "\<bar>2 ^ k * rounded NearestEven k x - x\<bar> * 2 \<le> 2 ^ k"
proof -
  define n q r where "n = nat \<bar>x\<bar>" and "q = n div 2 ^ k" and "r = n mod 2 ^ k"
  have split: "int n = 2 ^ k * int q + int r"
    using mult_div_mod_eq [of "2 ^ k" n, folded q_def r_def]
    by (metis of_nat_add of_nat_mult of_nat_power of_nat_numeral)
  have "r < 2 ^ k" by (simp add: r_def)
  then have r: "int r < 2 ^ k" by (metis of_nat_less_iff of_nat_numeral of_nat_power)
  have near: "\<bar>2 ^ k * int (rounded_nat NearestEven k n) - int n\<bar> * 2 \<le> 2 ^ k"
  proof (cases "2 * r > 2 ^ k \<or> (2 * r = 2 ^ k \<and> odd q)")
    case True
    then have "2 ^ k \<le> 2 * int r" by (metis le_eq_less_or_eq of_nat_le_iff of_nat_mult of_nat_numeral of_nat_power)
    moreover have "int (rounded_nat NearestEven k n) = int q + 1"
      using True by (simp add: rounded_nat_def Let_def q_def r_def)
    ultimately show ?thesis using split r by (simp add: algebra_simps abs_le_iff)
  next
    case False
    then have "2 * int r \<le> 2 ^ k" by (metis le_less_linear of_nat_le_iff of_nat_mult of_nat_numeral of_nat_power)
    moreover have "int (rounded_nat NearestEven k n) = int q"
      using False by (auto simp: rounded_nat_def Let_def q_def r_def)
    ultimately show ?thesis using split by (simp add: abs_le_iff)
  qed
  show ?thesis
  proof (cases "x < 0")
    case True
    then have "x = - int n" "rounded NearestEven k x = - int (rounded_nat NearestEven k n)"
      by (simp_all add: n_def rounded_def)
    then have "\<bar>2 ^ k * rounded NearestEven k x - x\<bar> = \<bar>- (2 ^ k * int (rounded_nat NearestEven k n) - int n)\<bar>"
      by simp
    with near show ?thesis by (simp only: abs_minus_cancel)
  next
    case False
    then have "x = int n" by (simp add: n_def)
    moreover have "rounded NearestEven k x = int (rounded_nat NearestEven k n)"
      using False by (cases "x = 0") (simp_all add: n_def rounded_def rounded_nat_def)
    ultimately show ?thesis using near by simp
  qed
qed

lemma truncate_value: "rounded Truncate k x = sgn x * (\<bar>x\<bar> div 2 ^ k)"
proof -
  have "int (nat \<bar>x\<bar> div 2 ^ k) = \<bar>x\<bar> div 2 ^ k" by (simp add: zdiv_int)
  then show ?thesis by (simp add: rounded_def rounded_nat_def Let_def)
qed

lemma unat_drop_bit_u128: "unat (drop_bit k m) = unat m div 2 ^ k" for m :: u128
  unfolding drop_bit_eq_div [symmetric]
  by (rule nat_bit_eqI) (simp add: bit_unat bit_drop_bit_eq)

lemma unat_push_bit_u128: "unat (push_bit k m) = unat m * 2 ^ k mod 2 ^ 128" for m :: u128
  unfolding push_bit_eq_mult [symmetric] take_bit_eq_mod [symmetric]
  by (rule nat_bit_eqI) (auto simp: bit_unat bit_push_bit_iff bit_take_bit_iff)

lemma round_magnitude_exact:
  assumes "0 < k" "k \<le> 128"
  shows "unat (round_magnitude rounding k m) = rounded_nat rounding k (unat m)"
proof -
  define q r where "q = (if k = 128 then 0 else drop_bit k m)"
    and "r = m AND (if k = 128 then all_ones else push_bit k 1 - 1)"
  have m: "unat m < 2 ^ 128" using unsigned_less [where ?'a = nat, of m] by simp
  have uq: "unat q = unat m div 2 ^ k"
    using m by (cases "k = 128") (simp_all add: q_def unat_drop_bit_u128 del: drop_bit_eq_div)
  have "r = take_bit k m"
    using assms by (auto simp: r_def all_ones_def push_one_minus_one take_bit_eq_mask and.commute
        simp del: push_bit_of_1 intro!: bit_word_eqI)
      (auto simp: bit_and_iff bit_mask_word)
  then have ur: "unat r = unat m mod 2 ^ k"
    unfolding take_bit_eq_mod [symmetric, where ?'a = nat] by (simp only: unsigned_take_bit_eq)
  have uh: "unat (push_bit (k - 1) 1 :: u128) = 2 ^ (k - 1)"
    using unat_limits(3) [of k] assms by (simp add: signed_negative_limit_def)
  have p: "2 ^ k = 2 * (2 :: nat) ^ (k - 1)" using assms(1) power_Suc [of "2 :: nat" "k - 1"] by simp
  have odd: "q AND 1 \<noteq> 0 \<longleftrightarrow> odd (unat q)"
    using bit_iff_and_push_bit_not_eq_0 [of q 0] by (simp add: bit_unat [symmetric] bit_0)
  have gt: "r > push_bit (k - 1) 1 \<longleftrightarrow> 2 * (unat m mod 2 ^ k) > 2 ^ k"
    and eq: "r = push_bit (k - 1) 1 \<longleftrightarrow> 2 * (unat m mod 2 ^ k) = 2 ^ k"
    unfolding word_less_nat_alt word_unat_eq_iff ur uh p by auto
  have "unat m div 2 ^ k \<le> unat m div 2 ^ 1"
    using assms(1) by (intro div_le_mono2 power_increasing) auto
  then have "unat q + 1 < 2 ^ 128" using m uq by simp
  then have "unat (q + 1) = unat q + 1" by (simp add: unat_word_ariths)
  then show ?thesis
    unfolding round_magnitude_def Let_def q_def [symmetric] r_def [symmetric] gt eq odd rounded_nat_def
    by (simp add: uq)
qed

lemma shift_overflows_iff: "shift_overflows k m \<longleftrightarrow> unat m * 2 ^ k \<ge> 2 ^ 128"
proof (cases "k \<ge> 128")
  case True
  then have "(2 :: nat) ^ 128 \<le> 2 ^ k" by (rule power_increasing) simp
  then show ?thesis
    using True mult_le_mono [of 1 "unat m" "2 ^ 128" "2 ^ k"]
    by (cases "unat m = 0") (auto simp: shift_overflows_def unat_eq_zero unat_gt_0 Suc_le_eq)
next
  case False
  have "drop_bit k all_ones = mask (128 - k)"
    using False by (intro bit_word_eqI) (auto simp: all_ones_def bit_drop_bit_eq bit_not_iff bit_mask_word)
  then have u: "unat (drop_bit k all_ones) = 2 ^ (128 - k) - 1" by (simp add: unat_mask_128)
  have "m > drop_bit k all_ones \<longleftrightarrow> unat m \<ge> 2 ^ (128 - k)"
  proof -
    define p :: nat where "p = 2 ^ (128 - k)"
    have "0 < p" by (simp add: p_def)
    then show ?thesis unfolding word_less_nat_alt u p_def [symmetric] by linarith
  qed
  also have "\<dots> \<longleftrightarrow> unat m * 2 ^ k \<ge> 2 ^ (128 - k) * 2 ^ k" by simp
  also have "(2 :: nat) ^ (128 - k) * 2 ^ k = 2 ^ 128"
    using False by (simp flip: power_add)
  finally show ?thesis
    using False by (auto simp: shift_overflows_def)
qed

lemma unat_shift_up: "unat (shift_up k m) = unat m * 2 ^ k mod 2 ^ 128"
proof (cases "k \<ge> 128")
  case True
  then have "(2 :: nat) ^ 128 dvd 2 ^ k" by (rule le_imp_power_dvd)
  then have "(2 :: nat) ^ 128 dvd unat m * 2 ^ k" by (rule dvd_mult)
  then show ?thesis using True by (simp add: shift_up_def)
next
  case False
  then show ?thesis
    by (simp only: shift_up_def if_False unat_push_bit_u128)
qed


lemma representable_iff:
  assumes "format_ok fm" "negative \<longrightarrow> m \<noteq> 0"
  shows "representable fm negative m \<longleftrightarrow> in_format fm (signed_int negative m)"
proof -
  have W: "0 < fm_width fm" "fm_width fm \<le> 128" using assms(1) by (simp_all add: format_ok_def)
  have pos: "negative \<Longrightarrow> 0 < unat m" using assms(2) by (simp add: unat_gt_0)
  have cmp: "n < 2 ^ k \<longleftrightarrow> int n < 2 ^ k" "n \<le> 2 ^ k \<longleftrightarrow> int n \<le> 2 ^ k" for n k :: nat
    by (metis of_nat_less_iff of_nat_numeral of_nat_power) (metis of_nat_le_iff of_nat_numeral of_nat_power)
  have le: "n \<le> 2 ^ k - 1 \<longleftrightarrow> n < 2 ^ k" for n k :: nat
  proof -
    have "0 < (2 :: nat) ^ k" by simp
    then show ?thesis by linarith
  qed
  show ?thesis
  proof (cases "fm_sign fm")
    case Signed
    define h u :: int where "h = 2 ^ (fm_width fm - 1)" and "u = int (unat m)"
    have "m \<le> signed_negative_limit (fm_width fm) \<longleftrightarrow> u \<le> h"
      "m \<le> signed_positive_limit (fm_width fm) \<longleftrightarrow> u < h"
      unfolding h_def u_def by (simp_all only: word_le_nat_alt unat_limits [OF W] cmp le)
    moreover have "1 \<le> h" "0 \<le> u" by (simp_all add: h_def u_def)
    ultimately show ?thesis
      unfolding representable_def in_format_def format_min_def format_max_def signed_int_def Signed
        h_def [symmetric] u_def [symmetric]
      by (cases negative) auto
  next
    case Unsigned
    define u where "u = int (unat m)"
    have "m \<le> unsigned_limit (fm_width fm) \<longleftrightarrow> u < 2 ^ fm_width fm"
      unfolding u_def by (simp only: word_le_nat_alt unat_limits [OF W] cmp le)
    moreover have "0 \<le> u" "negative \<longrightarrow> 0 < u" using pos by (simp_all add: u_def del: of_nat_unat)
    ultimately show ?thesis
      unfolding representable_def in_format_def format_min_def format_max_def signed_int_def Unsigned
        u_def [symmetric]
      by (cases negative) auto
  qed
qed

section \<open>Quantization\<close>

text \<open>The last part of \<open>quantize\<close>, for a shifted or rounded magnitude.\<close>

definition finish_quantize :: "format \<Rightarrow> overflow \<Rightarrow> bool \<Rightarrow> bool \<Rightarrow> u128 \<Rightarrow> fixed result" where
  "finish_quantize dest overflow arithmetic_overflow negative m =
     (if \<not> arithmetic_overflow \<and> representable dest negative m \<or> overflow = Wrap
      then Ok (from_raw dest (encode (fm_width dest) negative m))
      else if overflow = Trap then Fail (Abort ''quantize overflow'')
      else case fm_sign dest of
             Signed \<Rightarrow> Ok (from_raw dest (encode (fm_width dest) negative
               (if negative then signed_negative_limit (fm_width dest)
                else signed_positive_limit (fm_width dest))))
           | Unsigned \<Rightarrow> Ok (from_raw dest (from_uint128 (fm_width dest)
               (if negative then 0 else unsigned_limit (fm_width dest)))))"

text \<open>What is promised: the integer if it fits, and otherwise what the overflow mode asks for.\<close>

definition quantized :: "format \<Rightarrow> overflow \<Rightarrow> int \<Rightarrow> fixed result \<Rightarrow> bool" where
  "quantized dest overflow x result \<longleftrightarrow>
     (if \<not> in_format dest x \<and> overflow = Trap then result = Fail (Abort ''quantize overflow'')
      else \<exists>f. result = Ok f \<and> fixed_ok f \<and> fx_format f = dest \<and>
        (if in_format dest x then fx_value f = x
         else if overflow = Wrap then fx_value f mod 2 ^ fm_width dest = x mod 2 ^ fm_width dest
         else fx_value f = (if x < 0 then format_min dest else format_max dest)))"

lemma saturated_value:
  assumes "format_ok dest"
  shows "fm_sign dest = Signed \<Longrightarrow> signed_int negative (if negative then signed_negative_limit (fm_width dest)
      else signed_positive_limit (fm_width dest)) = (if negative then format_min dest else format_max dest)"
    "fm_sign dest = Unsigned \<Longrightarrow> signed_int False (if negative then 0 else unsigned_limit (fm_width dest)) =
      (if negative then format_min dest else format_max dest)"
proof -
  have W: "0 < fm_width dest" "fm_width dest \<le> 128" using assms by (simp_all add: format_ok_def)
  show "fm_sign dest = Signed \<Longrightarrow> signed_int negative (if negative then signed_negative_limit (fm_width dest)
      else signed_positive_limit (fm_width dest)) = (if negative then format_min dest else format_max dest)"
    "fm_sign dest = Unsigned \<Longrightarrow> signed_int False (if negative then 0 else unsigned_limit (fm_width dest)) =
      (if negative then format_min dest else format_max dest)"
    using unat_limits [OF W]
    by (simp_all add: signed_int_def format_min_def format_max_def of_nat_diff del: of_nat_unat)
qed

lemma format_min_max: "format_ok dest \<Longrightarrow> in_format dest (format_min dest) \<and> in_format dest (format_max dest)"
  by (auto simp: in_format_def format_min_def format_max_def format_ok_def split: signedness.split)

lemma finish_quantize_exact:
  assumes dest: "format_ok dest" and neg: "negative \<longrightarrow> m \<noteq> 0"
    and no: "\<not> arithmetic_overflow \<Longrightarrow> x = signed_int negative m"
    and over: "arithmetic_overflow \<Longrightarrow> \<not> in_format dest x"
    and wrap: "x mod 2 ^ fm_width dest = signed_int negative m mod 2 ^ fm_width dest"
    and sat: "overflow = Saturate \<Longrightarrow> negative \<longleftrightarrow> x < 0"
  shows "quantized dest overflow x (finish_quantize dest overflow arithmetic_overflow negative m)"
proof -
  have W: "0 < fm_width dest" "fm_width dest \<le> 128" using dest by (simp_all add: format_ok_def)
  define f where "f = from_raw dest (encode (fm_width dest) negative m)"
  have f: "fixed_ok f" "fx_format f = dest"
    using fixed_ok_encode [OF dest] by (simp_all add: f_def from_raw_def)
  show ?thesis
  proof (cases "in_format dest x")
    case True
    then have x: "x = signed_int negative m" "\<not> arithmetic_overflow" using no over by auto
    then have "representable dest negative m" using representable_iff [OF dest neg] True by simp
    moreover have "fx_value f = x" using encoded_value [OF dest] True x(1) by (simp add: f_def)
    ultimately show ?thesis using True f x(2) by (simp add: quantized_def finish_quantize_def f_def)
  next
    case False
    then have unfit: "\<not> (\<not> arithmetic_overflow \<and> representable dest negative m)"
      using no representable_iff [OF dest neg] by auto
    show ?thesis
    proof (cases overflow)
      case Wrap
      have "fx_value f mod 2 ^ fm_width dest = x mod 2 ^ fm_width dest"
        using value_mod [of f] encode_value [OF W, of negative m] wrap f(2) by (simp add: f_def from_raw_def)
      then show ?thesis using False Wrap f by (simp add: quantized_def finish_quantize_def f_def)
    next
      case Trap
      then show ?thesis using False unfit by (simp add: quantized_def finish_quantize_def)
    next
      case Saturate
      have limits: "in_format dest (if negative then format_min dest else format_max dest)"
        using format_min_max [OF dest] by simp
      obtain n v where nv: "finish_quantize dest overflow arithmetic_overflow negative m =
          Ok (from_raw dest (encode (fm_width dest) n v))"
        "signed_int n v = (if negative then format_min dest else format_max dest)"
      proof (cases "fm_sign dest")
        case Signed
        with that saturated_value(1) [OF dest] Saturate unfit show ?thesis
          by (auto simp: finish_quantize_def)
      next
        case Unsigned
        with that [of False] saturated_value(2) [OF dest] Saturate unfit show ?thesis
          by (auto simp: finish_quantize_def encode_def)
      qed
      have "fx_value (from_raw dest (encode (fm_width dest) n v)) = signed_int n v"
        using encoded_value [OF dest, of n v] limits nv(2) by simp
      then show ?thesis
        using False Saturate nv sat fixed_ok_encode [OF dest, of n v]
        by (auto simp: quantized_def from_raw_def)
    qed
  qed
qed

lemma quantize_steps:
  assumes "decompose source = (negative, m)"
  shows "quantize dest rounding overflow source =
    (let s = fractional_bits (fx_format source); d = fractional_bits dest;
         m' = (if s > d then round_magnitude rounding (s - d) m
               else if s < d then shift_up (d - s) m else m)
     in finish_quantize dest overflow (s < d \<and> shift_overflows (d - s) m) (negative \<and> m' \<noteq> 0) m')"
  by (auto simp: quantize_def finish_quantize_def assms Let_def)

lemma sgn_signed_int: "sgn (signed_int negative m) = (if m = 0 then 0 else if negative then - 1 else 1)"
  by (auto simp: signed_int_def unat_gt_0 sgn_if unat_eq_zero simp del: of_nat_unat)

lemma abs_signed_int: "\<bar>signed_int negative m\<bar> = int (unat m)"
  by (simp add: signed_int_def del: of_nat_unat)

lemma signed_int_zero: "signed_int negative m = 0 \<longleftrightarrow> m = 0"
  using abs_signed_int [of negative m] by (metis abs_0_eq of_nat_eq_0_iff unat_eq_zero)

lemma quantize_exact:
  assumes src: "fixed_ok source" "fm_width (fx_format source) \<le> 128" and dest: "format_ok dest"
    and x: "x = exact_value rounding (fractional_bits (fx_format source)) (fractional_bits dest) (fx_value source)"
    and kept: "overflow = Saturate \<Longrightarrow> x < 0 \<Longrightarrow> \<not> 2 ^ 128 dvd x"
  shows "quantized dest overflow x (quantize dest rounding overflow source)"
proof -
  obtain negative m where d: "decompose source = (negative, m)" by fastforce
  note v = decompose_exact [OF src d]
  define s t where "s = fractional_bits (fx_format source)" and "t = fractional_bits dest"
  define m' where "m' = (if s > t then round_magnitude rounding (s - t) m
               else if s < t then shift_up (t - s) m else m)"
  have bounds: "s \<le> 128" "t \<le> 128" "0 < fm_width dest" "fm_width dest \<le> 128"
    using src dest by (auto simp: s_def t_def fractional_bits_def format_ok_def)
  have "quantized dest overflow x
      (finish_quantize dest overflow (s < t \<and> shift_overflows (t - s) m) (negative \<and> m' \<noteq> 0) m')"
  proof (cases "s > t")
    case True
    have m': "unat m' = rounded_nat rounding (s - t) (unat m)"
      using True bounds by (simp add: m'_def round_magnitude_exact)
    have zero: "m = 0 \<Longrightarrow> m' = 0"
      using m' by (auto simp: rounded_nat_def Let_def unat_eq_zero [symmetric])
    have "x = sgn (signed_int negative m) * int (unat m')"
      unfolding x exact_value_def s_def [symmetric] t_def [symmetric] rounded_def v(1) abs_signed_int
      using True by (simp add: m' del: of_nat_unat)
    then have eq: "x = signed_int (negative \<and> m' \<noteq> 0) m'"
      using zero by (cases "m = 0") (auto simp: sgn_signed_int signed_int_def unat_eq_zero unat_gt_0 simp del: of_nat_unat)
    have "x < 0 \<longleftrightarrow> negative \<and> m' \<noteq> 0"
      unfolding eq by (auto simp: signed_int_def unat_gt_0 simp del: of_nat_unat)
    with True eq show ?thesis by (intro finish_quantize_exact [OF dest]) auto
  next
    case False
    define k where "k = t - s"
    have m': "unat m' = unat m * 2 ^ k mod 2 ^ 128"
    proof (cases "s < t")
      case True
      then show ?thesis by (simp add: m'_def k_def unat_shift_up)
    next
      case eq: False
      then show ?thesis
        using False unsigned_less [where ?'a = nat, of m] by (simp add: m'_def k_def)
    qed
    have xk: "x = signed_int negative m * 2 ^ k"
      unfolding x exact_value_def s_def [symmetric] t_def [symmetric] v(1) k_def using False by simp
    have abs_x: "\<bar>x\<bar> = int (unat m * 2 ^ k)"
      unfolding xk abs_mult abs_signed_int by simp
    have over: "s < t \<and> shift_overflows (t - s) m \<longleftrightarrow> 2 ^ 128 \<le> unat m * 2 ^ k"
    proof (cases "s < t")
      case True
      then show ?thesis by (simp add: shift_overflows_iff k_def)
    next
      case eq: False
      then show ?thesis using False unsigned_less [where ?'a = nat, of m] by (simp add: k_def not_le)
    qed
    have mod128: "x mod 2 ^ 128 = signed_int (negative \<and> m' \<noteq> 0) m' mod 2 ^ 128"
    proof -
      have "int (unat m') = int (unat m * 2 ^ k) mod 2 ^ 128"
        unfolding m' by (simp add: zmod_int)
      then have "signed_int negative m' mod 2 ^ 128 = x mod 2 ^ 128"
        unfolding xk signed_int_def by (simp add: mod_minus_eq del: of_nat_unat)
      moreover have "signed_int (negative \<and> m' \<noteq> 0) m' = signed_int negative m'"
        by (simp add: signed_int_def)
      ultimately show ?thesis by simp
    qed
    show ?thesis
    proof (rule finish_quantize_exact [OF dest])
      show "negative \<and> m' \<noteq> 0 \<longrightarrow> m' \<noteq> 0" by simp
      show "x = signed_int (negative \<and> m' \<noteq> 0) m'" if "\<not> (s < t \<and> shift_overflows (t - s) m)"
      proof -
        have "unat m' = unat m * 2 ^ k" using that over m' by simp
        then show ?thesis unfolding xk by (auto simp: signed_int_def simp del: of_nat_unat)
      qed
      show "\<not> in_format dest x" if "s < t \<and> shift_overflows (t - s) m"
      proof
        assume "in_format dest x"
        then have "\<bar>x\<bar> < 2 ^ fm_width dest"
          using half_power [OF bounds(3)]
          by (auto simp: in_format_def format_min_def format_max_def abs_less_iff split: signedness.splits)
        also have "\<dots> \<le> 2 ^ 128" by (rule power_increasing [OF bounds(4)]) simp
        finally have "int (unat m * 2 ^ k) < int (2 ^ 128)" using abs_x by simp
        then show False using that over by (simp only: of_nat_less_iff not_less)
      qed
      have "(2 :: int) ^ fm_width dest dvd 2 ^ 128" by (rule le_imp_power_dvd [OF bounds(4)])
      from mod_mod_cancel [OF this] mod128
      show "x mod 2 ^ fm_width dest = signed_int (negative \<and> m' \<noteq> 0) m' mod 2 ^ fm_width dest" by metis
      show "negative \<and> m' \<noteq> 0 \<longleftrightarrow> x < 0" if "overflow = Saturate"
      proof
        assume n: "negative \<and> m' \<noteq> 0"
        then have "m \<noteq> 0" using v(2) by simp
        with n show "x < 0" unfolding xk by (simp add: signed_int_def unat_gt_0 mult_less_0_iff del: of_nat_unat)
      next
        assume neg: "x < 0"
        then have "negative" unfolding xk by (auto simp: signed_int_def mult_less_0_iff split: if_splits)
        moreover have "m' \<noteq> 0"
        proof
          assume "m' = 0"
          then have "x mod 2 ^ 128 = 0" using mod128 by (simp add: signed_int_def)
          then show False using kept [OF that neg] by (simp add: dvd_eq_mod_eq_0)
        qed
        ultimately show "negative \<and> m' \<noteq> 0" ..
      qed
    qed
  qed
  then show ?thesis
    unfolding quantize_steps [OF d] Let_def m'_def s_def t_def .
qed

section \<open>Ratios\<close>

lemma gcd_loop_gcd: "unat (gcd_loop a b) = gcd (unat a) (unat b)"
proof (induction a b rule: gcd_loop.induct)
  case (1 a b)
  show ?case
  proof (cases "b = 0")
    case True
    then show ?thesis by (simp add: gcd_loop.simps)
  next
    case False
    then have "unat (gcd_loop a b) = gcd (unat b) (unat (a mod b))"
      using 1 by (subst gcd_loop.simps) simp
    also have "\<dots> = gcd (unat a) (unat b)"
      by (simp add: unat_mod_distrib gcd.commute flip: gcd_red_nat)
    finally show ?thesis .
  qed
qed

lemma magnitude_abs: "unat (magnitude v) = nat \<bar>sint v\<bar>"
proof -
  have small: "uint (word_of_int x :: u64) = x" if "0 \<le> x" "x \<le> 2 ^ 63" for x
    using that by (simp add: uint_word_of_int)
  have v: "word_of_int (sint v) = v" by simp
  have range: "- (2 ^ 63) \<le> sint v" "sint v < 2 ^ 63" using sint_ge [of v] sint_lt [of v] by simp_all
  show ?thesis
  proof (cases "sint v \<ge> 0")
    case True
    then have "uint v = sint v" using small [of "sint v"] range by (simp only: v)
    then show ?thesis using True by (simp add: magnitude_def unat_eq_nat_uint)
  next
    case False
    have "- (v + 1) + 1 = word_of_int (- sint v)" by simp
    then have "uint (magnitude v) = uint (word_of_int (- sint v) :: u64)"
      using False by (simp only: magnitude_def if_False)
    also have "\<dots> = - sint v" using False range by (intro small) simp_all
    finally show ?thesis using False by (simp add: unat_eq_nat_uint)
  qed
qed

lemma strip_twos_exact:
  assumes "d \<noteq> 0"
  shows "\<exists>p odd_part. strip_twos d count = Some (odd_part, count + p) \<and>
    odd (unat odd_part) \<and> unat d = unat odd_part * 2 ^ p"
  using assms
proof (induction "unat d" arbitrary: d count rule: less_induct)
  case less
  have parity: "d AND 1 = 0 \<longleftrightarrow> even (unat d)"
    using bit_iff_and_push_bit_not_eq_0 [of d 0] by (auto simp: bit_unat [symmetric] bit_0)
  have half: "unat (drop_bit 1 d) = unat d div 2"
    by (simp add: drop_bit_Suc unat_div_distrib)
  have pos: "0 < unat d" using less.prems by (simp add: unat_gt_0)
  show ?case
  proof (cases "even (unat d)")
    case False
    then show ?thesis by (intro exI [of _ 0] exI [of _ d]) (simp add: strip_twos.simps parity)
  next
    case True
    then have "unat (drop_bit 1 d) < unat d" "drop_bit 1 d \<noteq> 0"
      using pos half by (auto simp: unat_eq_zero [symmetric])
    from less.hyps [OF this, of "count + 1"] obtain p odd_part where p:
      "strip_twos (drop_bit 1 d) (count + 1) = Some (odd_part, count + 1 + p)" "odd (unat odd_part)"
      "unat (drop_bit 1 d) = unat odd_part * 2 ^ p" by blast
    have "unat d = unat odd_part * 2 ^ Suc p" using p(3) True unfolding half by auto
    then show ?thesis
      using p True by (intro exI [of _ "Suc p"] exI [of _ odd_part]) (subst strip_twos.simps, simp add: parity)
  qed
qed

lemma odd_dvd_power: "odd (o' :: nat) \<Longrightarrow> o' * 2 ^ p dvd 2 ^ F \<longleftrightarrow> o' = 1 \<and> p \<le> F"
proof
  assume o: "odd o'" and d: "o' * 2 ^ p dvd 2 ^ F"
  from d have "o' dvd 2 ^ F" by (rule dvd_mult_left)
  moreover have "coprime o' (2 ^ F)" using o by simp
  ultimately have "o' = 1" by (metis coprime_common_divisor_nat dvd_refl coprime_absorb_left is_unit_gcd nat_dvd_1_iff_1)
  with d show "o' = 1 \<and> p \<le> F" by (simp add: power_dvd_imp_le)
qed (auto intro: le_imp_power_dvd)

text \<open>The integer a ratio stands for in a format, if there is one.\<close>

definition ratio_value :: "format \<Rightarrow> u64 \<Rightarrow> u64 \<Rightarrow> int \<Rightarrow> bool" where
  "ratio_value fm numerator denominator x \<longleftrightarrow>
     in_format fm x \<and> x * int (unat denominator) = sint numerator * 2 ^ fractional_bits fm"

lemma reduced_ratio:
  fixes N D F :: nat
  assumes "0 < D"
  defines "g \<equiv> gcd N D"
  assumes "D div g = o' * 2 ^ p" "odd o'"
  shows "D dvd N * 2 ^ F \<longleftrightarrow> o' = 1 \<and> p \<le> F"
    "o' = 1 \<Longrightarrow> p \<le> F \<Longrightarrow> N * 2 ^ F = (N div g * 2 ^ (F - p)) * D"
proof -
  define n d where "n = N div g" and "d = D div g"
  have g: "0 < g" using assms(1) by (simp add: g_def)
  have N: "N = n * g" and D: "D = d * g" by (simp_all add: n_def d_def g_def)
  have cop: "coprime n d" using div_gcd_coprime [of N D] assms(1) by (simp add: n_def d_def g_def)
  have "D dvd N * 2 ^ F \<longleftrightarrow> d dvd n * 2 ^ F" using g by (simp add: N D mult.commute mult.left_commute)
  also have "\<dots> \<longleftrightarrow> d dvd 2 ^ F" using cop by (simp add: coprime_commute coprime_dvd_mult_right_iff)
  also have "\<dots> \<longleftrightarrow> o' = 1 \<and> p \<le> F" using odd_dvd_power [OF assms(4)] assms(3) by (simp add: d_def)
  finally show "D dvd N * 2 ^ F \<longleftrightarrow> o' = 1 \<and> p \<le> F" .
  show "N * 2 ^ F = (N div g * 2 ^ (F - p)) * D" if "o' = 1" "p \<le> F"
  proof -
    have "d = 2 ^ p" using assms(3) that(1) by (simp add: d_def)
    moreover have "(2 :: nat) ^ F = 2 ^ (F - p) * 2 ^ p" using that(2) by (simp flip: power_add)
    ultimately show ?thesis unfolding n_def [symmetric] by (simp add: N D)
  qed
qed

lemma from_ratio_exact:
  assumes fm: "format_ok fm" and nz: "denominator \<noteq> 0"
  shows "\<exists>result. from_ratio fm numerator denominator = Some result \<and>
    (is_ok result \<longleftrightarrow> (\<exists>x. ratio_value fm numerator denominator x)) \<and>
    (\<forall>f. result = Ok f \<longrightarrow> fixed_ok f \<and> fx_format f = fm \<and> ratio_value fm numerator denominator (fx_value f))"
proof -
  define F N D where "F = fractional_bits fm" and "N = nat \<bar>sint numerator\<bar>" and "D = unat denominator"
  define divisor where "divisor = gcd_loop (magnitude numerator) denominator"
  have g: "unat divisor = gcd N D" by (simp add: divisor_def gcd_loop_gcd magnitude_abs N_def D_def)
  have D: "0 < D" using nz by (simp add: D_def unat_gt_0)
  define n :: u128 where "n = ucast (magnitude numerator div divisor)"
  have n: "unat n = N div gcd N D"
  proof -
    have "unat n = unat (magnitude numerator div divisor)"
      unfolding n_def by (rule unat_ucast_up) simp
    then show ?thesis by (simp only: unat_div_distrib magnitude_abs N_def [symmetric] g)
  qed
  have d: "unat (denominator div divisor) = D div gcd N D"
    by (simp add: unat_div_distrib D_def [symmetric] g)
  then have "denominator div divisor \<noteq> 0"
    using D by (metis div_greater_zero_iff gcd_le2_nat gcd_pos_nat less_irrefl_nat unat_0)
  from strip_twos_exact [OF this, of 0] obtain p odd_part where strip:
    "strip_twos (denominator div divisor) 0 = Some (odd_part, p)"
    "odd (unat odd_part)" "D div gcd N D = unat odd_part * 2 ^ p"
    using d by auto
  note reduced = reduced_ratio [OF D strip(3,2), of F]
  have odd1: "odd_part = 1 \<longleftrightarrow> unat odd_part = 1" by (simp add: word_unat_eq_iff)
  show ?thesis
  proof (cases "odd_part = 1 \<and> p \<le> F")
    case False
    then have "\<not> D dvd N * 2 ^ F" using reduced(1) odd1 by blast
    have "\<not> ratio_value fm numerator denominator x" for x
    proof
      assume "ratio_value fm numerator denominator x"
      then have "x * int D = sint numerator * 2 ^ F" by (simp add: ratio_value_def D_def F_def)
      then have "int D dvd sint numerator * 2 ^ F" by (metis dvd_triv_right)
      then have "int D dvd \<bar>sint numerator * 2 ^ F\<bar>" by simp
      also have "\<bar>sint numerator * 2 ^ F\<bar> = int (N * 2 ^ F)" by (simp add: N_def abs_mult)
      finally show False using \<open>\<not> D dvd N * 2 ^ F\<close> by (simp only: int_dvd_int_iff)
    qed
    then show ?thesis
      using False nz strip(1)
      by (auto simp: from_ratio_def Let_def divisor_def [symmetric] F_def)
  next
    case True
    define k where "k = F - p"
    define x where "x = (if sint numerator < 0 then - int (unat n * 2 ^ k) else int (unat n * 2 ^ k))"
    have prod: "N * 2 ^ F = unat n * 2 ^ k * D"
      using reduced(2) True odd1 by (simp add: n k_def)
    have xD: "x * int D = sint numerator * 2 ^ F"
    proof -
      have "int N * 2 ^ F = int (unat n * 2 ^ k) * int D" using prod by (metis of_nat_mult of_nat_numeral of_nat_power)
      then show ?thesis by (auto simp: x_def N_def simp del: of_nat_unat)
    qed
    have "y * int D = x * int D \<longleftrightarrow> y = x" for y using D by simp
    then have unique: "ratio_value fm numerator denominator y \<longleftrightarrow> y = x \<and> in_format fm x" for y
      unfolding ratio_value_def D_def [symmetric] F_def [symmetric] xD by auto
    define m where "m = shift_up k n"
    define negative where "negative = (sint numerator < 0 \<and> m \<noteq> 0)"
    have eq: "from_ratio fm numerator denominator =
      Some (if shift_overflows k n then Fail (Abort ''ratio is outside the supported range'')
        else if \<not> representable fm negative m then Fail (Abort ''ratio is not representable'')
        else Ok (from_raw fm (encode (fm_width fm) negative m)))"
      using True nz strip(1)
      by (simp add: from_ratio_def Let_def divisor_def [symmetric] F_def [symmetric] n_def [symmetric]
          k_def [symmetric] m_def [symmetric] negative_def)
    show ?thesis
    proof (cases "shift_overflows k n")
      case over: True
      then have big: "2 ^ 128 \<le> unat n * 2 ^ k" by (simp add: shift_overflows_iff)
      have "\<not> in_format fm x"
      proof
        assume "in_format fm x"
        then have "\<bar>x\<bar> < 2 ^ fm_width fm"
          using half_power [of "fm_width fm"] fm
          by (auto simp: in_format_def format_min_def format_max_def abs_less_iff format_ok_def split: signedness.splits)
        also have "\<dots> \<le> 2 ^ 128" using fm by (intro power_increasing) (simp_all add: format_ok_def)
        finally have "int (unat n * 2 ^ k) < int (2 ^ 128)" by (simp add: x_def split: if_splits)
        then show False using big by (simp only: of_nat_less_iff not_less)
      qed
      then show ?thesis using over by (simp add: eq unique)
    next
      case False
      then have um: "unat m = unat n * 2 ^ k"
        by (simp add: m_def unat_shift_up shift_overflows_iff not_le)
      then have x: "x = signed_int negative m"
        by (auto simp: x_def signed_int_def negative_def unat_eq_zero [symmetric] simp del: of_nat_unat unat_0_iff)
      have rep: "representable fm negative m \<longleftrightarrow> in_format fm x"
        unfolding x by (rule representable_iff [OF fm]) (simp add: negative_def)
      show ?thesis
      proof (cases "in_format fm x")
        case True
        then have "fx_value (from_raw fm (encode (fm_width fm) negative m)) = x"
          using encoded_value [OF fm] x by simp
        then show ?thesis
          using False True rep fixed_ok_encode [OF fm, of negative m] by (simp add: eq unique from_raw_def)
      next
        case unfit: False
        then show ?thesis using False rep by (simp add: eq unique)
      qed
    qed
  qed
qed

end
