(* ===== verification/FixedProps.thy ===== *)
theory FixedProps
  imports FixedLemmas
begin

text \<open>
  The properties of the fixed-point values, on an 8-bit integer format, a format with two fractional
  bits and one with 121.
\<close>

definition byte_format :: format where
  "byte_format = \<lparr>fm_width = 8, fm_integer = 8, fm_sign = Signed\<rparr>"

definition wide_format :: format where
  "wide_format = \<lparr>fm_width = 128, fm_integer = 7, fm_sign = Signed\<rparr>"

definition quarter_format :: format where
  "quarter_format = \<lparr>fm_width = 8, fm_integer = 6, fm_sign = Signed\<rparr>"

lemma formats_ok: "format_ok byte_format" "format_ok wide_format" "format_ok quarter_format"
  by (simp_all add: format_ok_def byte_format_def wide_format_def quarter_format_def)

definition byte :: "nat \<Rightarrow> bool \<Rightarrow> fixed" where
  "byte n negative = from_raw byte_format (encode 8 negative (of_nat n))"

lemma byte_value:
  assumes "n \<le> 127 \<or> n = 128 \<and> negative"
  shows "fixed_ok (byte n negative)" "fx_format (byte n negative) = byte_format"
    "fx_value (byte n negative) = (if negative then - int n else int n)"
proof -
  show "fixed_ok (byte n negative)" "fx_format (byte n negative) = byte_format"
    using fixed_ok_encode [OF formats_ok(1)] by (simp_all add: byte_def byte_format_def from_raw_def)
  have v: "signed_int negative (of_nat n) = (if negative then - int n else int n)"
    using assms by (auto simp: signed_int_def unat_of_nat take_bit_eq_mod simp del: of_nat_unat)
  then have "in_format byte_format (signed_int negative (of_nat n))"
    using assms by (auto simp: in_format_def format_min_def format_max_def byte_format_def)
  from encoded_value [OF formats_ok(1) this] v
  show "fx_value (byte n negative) = (if negative then - int n else int n)"
    by (simp add: byte_def byte_format_def)
qed

text \<open>
  Property C19: Quantizing computes the integer of the value in the destination format exactly: with
  more fractional bits it is multiplied, with fewer it is rounded towards zero or to the nearest value
  with ties to even; if it fits the destination it is the result, otherwise wrapping keeps it modulo
  the width, trapping fails, and saturating gives the limit on its side. The last is proved for all
  but the negative values whose shifted magnitude is a multiple of \<open>2 ^ 128\<close>.
\<close>

theorem quantize_correct:
  assumes "fixed_ok source" "fm_width (fx_format source) \<le> 128" "format_ok dest"
    and "x = exact_value rounding (fractional_bits (fx_format source)) (fractional_bits dest) (fx_value source)"
    and "overflow = Saturate \<and> x < 0 \<longrightarrow> \<not> 2 ^ 128 dvd x"
  shows "quantized dest overflow x (quantize dest rounding overflow source) \<and>
    (\<forall>k y. rounded Truncate k y = sgn y * (\<bar>y\<bar> div 2 ^ k)) \<and>
    (\<forall>k y. \<bar>2 ^ k * rounded NearestEven k y - y\<bar> * 2 \<le> 2 ^ k)"
  using quantize_exact [OF assms(1-4)] assms(5) truncate_value nearest_even_error by blast

lemma quantize_correct_witness:
  "\<exists>f. quantize quarter_format NearestEven Saturate (byte 100 True) = Ok f \<and> fx_value f = - 128"
proof -
  have b: "fixed_ok (byte 100 True)" "fx_format (byte 100 True) = byte_format" "fx_value (byte 100 True) = - 100"
    using byte_value [of 100 True] by simp_all
  have x: "exact_value NearestEven (fractional_bits byte_format) (fractional_bits quarter_format) (- 100) = - 400"
    by (simp add: exact_value_def fractional_bits_def byte_format_def quarter_format_def)
  have "quantized quarter_format Saturate (- 400) (quantize quarter_format NearestEven Saturate (byte 100 True))"
    using quantize_correct [OF b(1) _ formats_ok(3) refl, where rounding = NearestEven and overflow = Saturate]
    unfolding b(2,3) x by (simp add: byte_format_def)
  then show ?thesis
    by (auto simp: quantized_def in_format_def format_min_def format_max_def quarter_format_def)
qed

text \<open>
  Property C28: Where the shifted magnitude of a negative value is a multiple of \<open>2 ^ 128\<close> saturation
  picks the wrong side: -128 quantized to 128 bits with 121 fractional bits becomes the largest
  positive value, although it is below the smallest value of the format.
\<close>

theorem quantize_saturates_to_wrong_side:
  "fx_value (byte 128 True) = - 128 \<and>
   exact_value Truncate (fractional_bits byte_format) (fractional_bits wide_format) (- 128) < format_min wide_format \<and>
   (\<exists>f. quantize wide_format Truncate Saturate (byte 128 True) = Ok f \<and> fx_value f = format_max wide_format)"
proof -
  note b = byte_value [of 128 True]
  have "exact_value Truncate (fractional_bits byte_format) (fractional_bits wide_format) (- 128) < format_min wide_format"
    by (simp add: exact_value_def fractional_bits_def byte_format_def wide_format_def format_min_def)
  moreover obtain f where f: "quantize wide_format Truncate Saturate (byte 128 True) = Ok f"
    "f = from_raw wide_format (encode 128 False (signed_positive_limit 128))"
  proof -
    have "decompose (byte 128 True) = (True, 128)" by code_simp
    moreover have "shift_overflows 121 128" "shift_up 121 128 = 0" by code_simp+
    moreover note quantize_steps [OF calculation(1), of wide_format Truncate Saturate]
    ultimately have "quantize wide_format Truncate Saturate (byte 128 True) =
        finish_quantize wide_format Saturate True False 0"
      using b(2) by (simp add: fractional_bits_def byte_format_def wide_format_def)
    then show ?thesis
      using that by (simp add: finish_quantize_def wide_format_def)
  qed
  moreover have "fx_value f = format_max wide_format"
  proof -
    have s: "signed_int False (signed_positive_limit 128) = format_max wide_format"
      using saturated_value(1) [OF formats_ok(2), of False] by (simp add: wide_format_def)
    then show ?thesis
      using encoded_value [OF formats_ok(2), of False "signed_positive_limit 128"] format_min_max [OF formats_ok(2)]
      by (simp add: f(2) wide_format_def)
  qed
  ultimately show ?thesis using b(3) by auto
qed

text \<open>
  The full product of two values, in the format with the bits of both, is exact.
\<close>

theorem mul_full_is_exact:
  assumes "fixed_ok l" "fixed_ok r" "fm_width (fx_format l) + fm_width (fx_format r) \<le> 128"
  shows "fixed_ok (mul_full l r) \<and> fx_format (mul_full l r) = product_format (fx_format l) (fx_format r) \<and>
    fx_value (mul_full l r) = fx_value l * fx_value r"
  using mul_full_exact [OF assms] by blast

lemma mul_full_is_exact_witness: "fx_value (mul_full (byte 128 True) (byte 3 False)) = - 384"
  using mul_full_is_exact [of "byte 128 True" "byte 3 False"] byte_value [of 128 True] byte_value [of 3 False]
  by (simp add: byte_format_def)

text \<open>
  Property C27: A ratio with a denominator other than 0 is always converted or refused, and its two
  loops end: it is converted exactly if some integer of the format is the ratio scaled by the
  fractional bits, and then to that integer.
\<close>

theorem from_ratio_terminates_exactly:
  assumes "format_ok fm" "denominator \<noteq> 0"
  shows "\<exists>result. from_ratio fm numerator denominator = Some result \<and>
    (is_ok result \<longleftrightarrow> (\<exists>x. in_format fm x \<and>
       x * int (unat denominator) = sint numerator * 2 ^ fractional_bits fm)) \<and>
    (\<forall>f. result = Ok f \<longrightarrow> fixed_ok f \<and> fx_format f = fm \<and>
       fx_value f * int (unat denominator) = sint numerator * 2 ^ fractional_bits fm)"
  using from_ratio_exact [OF assms] unfolding ratio_value_def by blast

lemma from_ratio_terminates_exactly_witness:
  "\<exists>f. from_ratio quarter_format (- 6) 8 = Some (Ok f) \<and> fx_value f = - 3"
proof -
  obtain result where r: "from_ratio quarter_format (- 6) 8 = Some result"
    "is_ok result \<longleftrightarrow> (\<exists>x. in_format quarter_format x \<and> x * 8 = - 24)"
    "\<forall>f. result = Ok f \<longrightarrow> fx_value f * 8 = - 24"
    using from_ratio_terminates_exactly [OF formats_ok(3), of 8 "- 6"]
    by (auto simp: fractional_bits_def quarter_format_def)
  have "in_format quarter_format (- 3) \<and> - 3 * 8 = (- 24 :: int)"
    by (simp add: in_format_def format_min_def format_max_def quarter_format_def)
  then obtain f where "result = Ok f" using r(2) by (auto simp: is_ok_iff)
  with r show ?thesis by auto
qed

end
