(* ===== verification/LogicBits.thy ===== *)
theory LogicBits
  imports PackedBits
begin

text \<open>
  The four-state vectors of \<open>logic_bits.hpp\<close>: two planes of packed bits, the value plane and the
  plane of unknown bits. The words a simulator hands over are pairs of words; text has one digit per
  bit, underscores aside.
\<close>

section \<open>Definitions\<close>

datatype logic_state = Zero | One | X | Z

record logic_bits =
  lg_aval :: packed
  lg_bval :: packed

definition from_planes :: "packed \<Rightarrow> packed \<Rightarrow> logic_bits" where
  "from_planes aval bval = \<lparr>lg_aval = aval, lg_bval = bval\<rparr>"

definition from_bits :: "packed \<Rightarrow> logic_bits" where
  "from_bits b = from_planes b (bits_zero (pwidth b))"

definition logic_from_uint :: "nat \<Rightarrow> u64 \<Rightarrow> logic_bits" where
  "logic_from_uint W v = from_bits (from_uint W v)"

text \<open>The planes of a digit.\<close>

definition digit_planes :: "char \<Rightarrow> (bool \<times> bool) result" where
  "digit_planes c =
     (if c = CHR ''0'' then Ok (False, False)
      else if c = CHR ''1'' then Ok (True, False)
      else if c = CHR ''x'' \<or> c = CHR ''X'' then Ok (True, True)
      else if c = CHR ''z'' \<or> c = CHR ''Z'' then Ok (False, True)
      else Fail (Abort ''binary text accepts only 0, 1, X, Z, and underscore''))"

definition raise_bit :: "bool \<Rightarrow> nat \<Rightarrow> packed \<Rightarrow> packed result" where
  "raise_bit raised position b = (if raised then set_bit_at position True b else Ok b)"

text \<open>The characters are walked from the last one.\<close>

fun string_loop :: "string \<Rightarrow> nat \<Rightarrow> packed \<Rightarrow> packed \<Rightarrow> logic_bits result" where
  "string_loop [] position aval bval = Ok (from_planes aval bval)"
| "string_loop (c # cs) position aval bval =
     (if c = CHR ''_'' then string_loop cs position aval bval
      else result_bind (digit_planes c) (\<lambda>(a, b).
           result_bind (raise_bit a position aval) (\<lambda>aval.
           result_bind (raise_bit b position bval) (\<lambda>bval.
           string_loop cs (position + 1) aval bval))))"

definition from_string :: "nat \<Rightarrow> string \<Rightarrow> logic_bits result" where
  "from_string W digits =
     (if length (filter (\<lambda>c. c \<noteq> CHR ''_'') digits) \<noteq> W
      then Fail (Abort ''binary text must contain exactly width digits'')
      else string_loop (rev digits) 0 (bits_zero W) (bits_zero W))"

definition from_dpi_words :: "nat \<Rightarrow> (u32 \<times> u32) list \<Rightarrow> logic_bits" where
  "from_dpi_words W words =
     from_planes (from_words W (map fst (take (word_count W) words)))
       (from_words W (map snd (take (word_count W) words)))"

definition dpi_words :: "logic_bits \<Rightarrow> (u32 \<times> u32) list" where
  "dpi_words l = zip (pwords (lg_aval l)) (pwords (lg_bval l))"

definition state_at :: "logic_bits \<Rightarrow> nat \<Rightarrow> logic_state result" where
  "state_at l index =
     result_bind (get_bit (lg_aval l) index) (\<lambda>a.
     result_bind (get_bit (lg_bval l) index) (\<lambda>b.
     Ok (if \<not> b then (if a then One else Zero) else if a then X else Z)))"

definition is_known :: "logic_bits \<Rightarrow> bool" where
  "is_known l = list_all (\<lambda>w. w = 0) (pwords (lg_bval l))"

definition contains_x :: "logic_bits \<Rightarrow> bool" where
  "contains_x l = list_ex (\<lambda>index. state_at l index = Ok X) [0..<pwidth (lg_aval l)]"

definition contains_z :: "logic_bits \<Rightarrow> bool" where
  "contains_z l = list_ex (\<lambda>index. state_at l index = Ok Z) [0..<pwidth (lg_aval l)]"

definition to_bits :: "logic_bits \<Rightarrow> packed result" where
  "to_bits l =
     (if \<not> is_known l then Fail (Abort ''cannot convert X/Z value to two-state Bits'')
      else Ok (lg_aval l))"

section \<open>States\<close>

definition logic_ok :: "nat \<Rightarrow> logic_bits \<Rightarrow> bool" where
  "logic_ok W l \<longleftrightarrow> packed_ok (lg_aval l) \<and> packed_ok (lg_bval l) \<and> pwidth (lg_aval l) = W \<and> pwidth (lg_bval l) = W"

fun state_of :: "bool \<times> bool \<Rightarrow> logic_state" where
  "state_of (a, b) = (if \<not> b then (if a then One else Zero) else if a then X else Z)"

definition logic_state_at :: "logic_bits \<Rightarrow> nat \<Rightarrow> logic_state" where
  "logic_state_at l i = state_of (wbit (pwords (lg_aval l)) i, wbit (pwords (lg_bval l)) i)"

lemma state_at_eq: "logic_ok W l \<Longrightarrow> i < W \<Longrightarrow> state_at l i = Ok (logic_state_at l i)"
  by (auto simp: state_at_def logic_ok_def get_bit_eq logic_state_at_def)

lemma state_at_out: "logic_ok W l \<Longrightarrow> W \<le> i \<Longrightarrow> state_at l i = Fail (Abort ''bit index is out of bounds'')"
  by (simp add: state_at_def logic_ok_def get_bit_def)

lemma state_of_eq [simp]:
  "state_of p = One \<longleftrightarrow> p = (True, False)" "state_of p = Zero \<longleftrightarrow> p = (False, False)"
  "state_of p = X \<longleftrightarrow> p = (True, True)" "state_of p = Z \<longleftrightarrow> p = (False, True)"
  by (cases p; simp)+

lemma is_known_iff:
  assumes "logic_ok W l"
  shows "is_known l \<longleftrightarrow> (\<forall>i<W. logic_state_at l i \<in> {Zero, One})"
proof -
  have b: "packed_ok (lg_bval l)" "pwidth (lg_bval l) = W" using assms by (simp_all add: logic_ok_def)
  have "is_known l \<longleftrightarrow> (\<forall>i. \<not> wbit (pwords (lg_bval l)) i)"
  proof
    assume "is_known l"
    then show "\<forall>i. \<not> wbit (pwords (lg_bval l)) i"
      by (auto simp: is_known_def wbit_def list_all_length)
  next
    assume none: "\<forall>i. \<not> wbit (pwords (lg_bval l)) i"
    have "pwords (lg_bval l) ! q = 0" if "q < length (pwords (lg_bval l))" for q
    proof (rule bit_word_eqI)
      fix k :: nat assume "k < LENGTH(32)"
      then show "bit (pwords (lg_bval l) ! q) k = bit 0 k"
        using none wbit_index [of k "pwords (lg_bval l)" q] that by simp
    qed
    then show "is_known l" by (simp add: is_known_def list_all_length)
  qed
  also have "\<dots> \<longleftrightarrow> (\<forall>i<W. logic_state_at l i \<in> {Zero, One})"
    using packed_ok_bit [OF b(1)] b(2) by (auto simp: logic_state_at_def)
  finally show ?thesis .
qed

lemma contains_iff:
  assumes "logic_ok W l"
  shows "contains_x l \<longleftrightarrow> (\<exists>i<W. logic_state_at l i = X)" "contains_z l \<longleftrightarrow> (\<exists>i<W. logic_state_at l i = Z)"
  using assms state_at_eq [OF assms]
  by (auto simp: contains_x_def contains_z_def list_ex_iff logic_ok_def)

lemma known_or_unknown:
  assumes "logic_ok W l"
  shows "is_known l \<longleftrightarrow> \<not> contains_x l \<and> \<not> contains_z l"
proof -
  have "s \<in> {Zero, One} \<longleftrightarrow> s \<noteq> X \<and> s \<noteq> Z" for s by (cases s) auto
  then show ?thesis unfolding is_known_iff [OF assms] contains_iff [OF assms] by auto
qed

section \<open>Words of a simulator\<close>

lemma from_words_same:
  assumes "packed_ok b"
  shows "from_words (pwidth b) (pwords b) = b"
proof -
  have "pwords b \<noteq> []" using assms by (auto simp: packed_ok_def)
  then have "(pwords b)[length (pwords b) - 1 := last (pwords b)] = pwords b"
    by (simp add: last_conv_nth)
  with assms show ?thesis by (simp add: from_words_def mask_padding_def packed_ok_def)
qed

lemma dpi_round_trip:
  assumes "logic_ok W l"
  shows "from_dpi_words W (dpi_words l) = l"
proof -
  have l: "length (pwords (lg_aval l)) = word_count W" "length (pwords (lg_bval l)) = word_count W"
    using assms by (auto simp: logic_ok_def packed_ok_def)
  then have "from_dpi_words W (dpi_words l) = from_planes (from_words W (pwords (lg_aval l))) (from_words W (pwords (lg_bval l)))"
    by (simp add: from_dpi_words_def dpi_words_def)
  also have "\<dots> = l"
    using assms from_words_same [of "lg_aval l"] from_words_same [of "lg_bval l"]
    by (cases l) (simp add: from_planes_def logic_ok_def)
  finally show ?thesis .
qed

section \<open>Text\<close>

definition digits_of :: "string \<Rightarrow> string" where
  "digits_of cs = filter (\<lambda>c. c \<noteq> CHR ''_'') cs"

text \<open>The digits of a four-state text and the states they stand for.\<close>

definition digit_states :: "(char \<times> logic_state) list" where
  "digit_states = zip ''01xXzZ'' [Zero, One, X, X, Z, Z]"

definition logic_digit :: "char \<Rightarrow> bool" where
  "logic_digit c \<longleftrightarrow> c \<in> set ''01xXzZ''"

lemma logic_digit_planes: "logic_digit c \<longleftrightarrow> is_ok (digit_planes c)"
  by (auto simp: logic_digit_def digit_planes_def)

lemma digit_planes_state: "digit_planes c = Ok p \<Longrightarrow> map_of digit_states c = Some (state_of p)"
  by (auto simp: digit_states_def digit_planes_def split: if_splits)

definition planes_at :: "logic_bits \<Rightarrow> nat \<Rightarrow> bool \<times> bool" where
  "planes_at l i = (wbit (pwords (lg_aval l)) i, wbit (pwords (lg_bval l)) i)"

lemma raise_bit_ok:
  assumes "packed_ok b" "position < pwidth b"
  shows "\<exists>b'. raise_bit raised position b = Ok b' \<and> packed_ok b' \<and> pwidth b' = pwidth b \<and>
    (\<forall>i. wbit (pwords b') i \<longleftrightarrow> (if i = position \<and> raised then True else wbit (pwords b) i))"
proof (cases raised)
  case True
  then obtain b' where b': "set_bit_at position True b = Ok b'" "raise_bit raised position b = Ok b'"
    using set_bit_at_eq [OF assms(2), of True] by (auto simp: raise_bit_def)
  then show ?thesis
    using set_bit_at_ok [OF assms(1) b'(1)] set_bit_at_result(1) [OF b'(1)] wbit_set_bit_at [OF assms(1) b'(1)] True
    by auto
next
  case False
  then show ?thesis using assms by (simp add: raise_bit_def)
qed

lemma string_loop_exact:
  assumes "logic_ok W (from_planes aval bval)" "position + length (digits_of cs) \<le> W"
    and "\<forall>i\<ge>position. planes_at (from_planes aval bval) i = (False, False)"
  shows "(\<exists>c\<in>set (digits_of cs). \<not> logic_digit c) \<and> \<not> is_ok (string_loop cs position aval bval) \<or>
    (\<forall>c\<in>set (digits_of cs). logic_digit c) \<and>
    (\<exists>l. string_loop cs position aval bval = Ok l \<and> logic_ok W l \<and>
      (\<forall>i. planes_at l i =
        (if position \<le> i \<and> i < position + length (digits_of cs)
         then (case digit_planes (digits_of cs ! (i - position)) of Inl _ \<Rightarrow> (False, False) | Inr p \<Rightarrow> p)
         else planes_at (from_planes aval bval) i)))"
  using assms
proof (induction cs arbitrary: position aval bval)
  case Nil
  then show ?case by (auto simp: digits_of_def)
next
  case (Cons c cs)
  show ?case
  proof (cases "c = CHR ''_''")
    case True
    then have "digits_of (c # cs) = digits_of cs" "string_loop (c # cs) position aval bval = string_loop cs position aval bval"
      by (simp_all add: digits_of_def)
    then show ?thesis
      using Cons.IH [OF Cons.prems(1) _ Cons.prems(3)] Cons.prems(2) by (simp only:)
  next
    case False
    then have ds: "digits_of (c # cs) = c # digits_of cs" by (simp add: digits_of_def)
    show ?thesis
    proof (cases "digit_planes c")
      case (Inl e)
      then show ?thesis using False by (auto simp: ds logic_digit_planes)
    next
      case (Inr p)
      obtain a b where p: "p = (a, b)" by fastforce
      have pos: "position < W" using Cons.prems(2) ds by simp
      have ok: "packed_ok aval" "pwidth aval = W" "packed_ok bval" "pwidth bval = W"
        using Cons.prems(1) by (simp_all add: logic_ok_def from_planes_def)
      obtain aval' where a': "raise_bit a position aval = Ok aval'" "packed_ok aval'" "pwidth aval' = W"
        "\<And>i. wbit (pwords aval') i \<longleftrightarrow> (if i = position \<and> a then True else wbit (pwords aval) i)"
        using raise_bit_ok [OF ok(1), of position a] pos ok(2) by auto
      obtain bval' where b': "raise_bit b position bval = Ok bval'" "packed_ok bval'" "pwidth bval' = W"
        "\<And>i. wbit (pwords bval') i \<longleftrightarrow> (if i = position \<and> b then True else wbit (pwords bval) i)"
        using raise_bit_ok [OF ok(3), of position b] pos ok(4) by auto
      have here: "planes_at (from_planes aval' bval') i =
          (if i = position then p else planes_at (from_planes aval bval) i)" for i
        using Cons.prems(3) by (auto simp: planes_at_def from_planes_def a'(4) b'(4) p)
      have step: "string_loop (c # cs) position aval bval = string_loop cs (position + 1) aval' bval'"
        using False Inr a'(1) b'(1) by (simp add: p)
      have pre: "logic_ok W (from_planes aval' bval')" "position + 1 + length (digits_of cs) \<le> W"
        "\<forall>i\<ge>position + 1. planes_at (from_planes aval' bval') i = (False, False)"
        using a' b' Cons.prems(2,3) ds here by (auto simp: logic_ok_def from_planes_def)
      have good: "logic_digit c" using Inr by (simp add: logic_digit_planes)
      from Cons.IH [OF pre] show ?thesis
      proof
        assume "(\<exists>c\<in>set (digits_of cs). \<not> logic_digit c) \<and> \<not> is_ok (string_loop cs (position + 1) aval' bval')"
        then show ?thesis unfolding step ds by simp
      next
        assume r: "(\<forall>c\<in>set (digits_of cs). logic_digit c) \<and>
          (\<exists>l. string_loop cs (position + 1) aval' bval' = Ok l \<and> logic_ok W l \<and>
            (\<forall>i. planes_at l i =
              (if position + 1 \<le> i \<and> i < position + 1 + length (digits_of cs)
               then (case digit_planes (digits_of cs ! (i - (position + 1))) of Inl _ \<Rightarrow> (False, False) | Inr p \<Rightarrow> p)
               else planes_at (from_planes aval' bval') i)))"
        then obtain l where l: "string_loop cs (position + 1) aval' bval' = Ok l" "logic_ok W l"
          and at: "\<And>i. planes_at l i =
              (if position + 1 \<le> i \<and> i < position + 1 + length (digits_of cs)
               then (case digit_planes (digits_of cs ! (i - (position + 1))) of Inl _ \<Rightarrow> (False, False) | Inr p \<Rightarrow> p)
               else planes_at (from_planes aval' bval') i)" by blast
        have "planes_at l i =
            (if position \<le> i \<and> i < position + length (c # digits_of cs)
             then (case digit_planes ((c # digits_of cs) ! (i - position)) of Inl _ \<Rightarrow> (False, False) | Inr p \<Rightarrow> p)
             else planes_at (from_planes aval bval) i)" for i
        proof (cases "i = position")
          case True
          then show ?thesis using at [of i] here Inr by (simp)
        next
          case False
          then show ?thesis using at [of i] here
            by (auto simp: nth_Cons' Suc_le_eq)
        qed
        then show ?thesis unfolding step ds using r l good by auto
      qed
    qed
  qed
qed

lemma zero_planes: "planes_at (from_planes (bits_zero W) (bits_zero W)) i = (False, False)"
  by (simp add: planes_at_def from_planes_def bits_zero_def)

lemma bits_zero_ok: "0 < W \<Longrightarrow> packed_ok (bits_zero W) \<and> pwidth (bits_zero W) = W"
  by (auto simp: bits_zero_def intro!: packed_okI)

section \<open>Properties\<close>

text \<open>
  Property C29: Text is parsed exactly if it has one of the digits 0, 1, X, Z in either case for every
  bit, underscores aside; the last digit then names the state of bit 0 and so on, so that the value is
  known, and converts to two-state bits, exactly if no digit is X or Z, and it is the value that its
  words, as a simulator takes them, give back.
\<close>

theorem from_string_correct:
  assumes "0 < W"
  shows "(is_ok (from_string W digits) \<longleftrightarrow>
      length (digits_of digits) = W \<and> (\<forall>c\<in>set (digits_of digits). logic_digit c)) \<and>
    (\<forall>l. from_string W digits = Ok l \<longrightarrow>
      (\<forall>i<W. \<exists>s. map_of digit_states (rev (digits_of digits) ! i) = Some s \<and> state_at l i = Ok s) \<and>
      (is_ok (to_bits l) \<longleftrightarrow> (\<forall>i<W. state_at l i \<noteq> Ok X \<and> state_at l i \<noteq> Ok Z)) \<and>
      from_dpi_words W (dpi_words l) = l)"
proof -
  have rev: "digits_of (rev digits) = rev (digits_of digits)" by (simp add: digits_of_def rev_filter)
  have zero: "logic_ok W (from_planes (bits_zero W) (bits_zero W))"
    using bits_zero_ok [OF assms] by (simp add: logic_ok_def from_planes_def)
  show ?thesis
  proof (cases "length (digits_of digits) = W")
    case False
    then show ?thesis by (simp add: from_string_def digits_of_def)
  next
    case True
    then have eq: "from_string W digits = string_loop (rev digits) 0 (bits_zero W) (bits_zero W)"
      by (simp add: from_string_def digits_of_def)
    have "0 + length (digits_of (rev digits)) \<le> W" using True by (simp add: rev)
    from string_loop_exact [OF zero this] show ?thesis
    proof
      show "\<forall>i\<ge>0. planes_at (from_planes (bits_zero W) (bits_zero W)) i = (False, False)"
        by (simp add: zero_planes)
    next
      assume "(\<exists>c\<in>set (digits_of (rev digits)). \<not> logic_digit c) \<and>
        \<not> is_ok (string_loop (rev digits) 0 (bits_zero W) (bits_zero W))"
      then show ?thesis by (auto simp: rev eq is_ok_iff)
    next
      assume good: "(\<forall>c\<in>set (digits_of (rev digits)). logic_digit c) \<and>
        (\<exists>l. string_loop (rev digits) 0 (bits_zero W) (bits_zero W) = Ok l \<and> logic_ok W l \<and>
          (\<forall>i. planes_at l i =
            (if 0 \<le> i \<and> i < 0 + length (digits_of (rev digits))
             then (case digit_planes (digits_of (rev digits) ! (i - 0)) of Inl _ \<Rightarrow> (False, False) | Inr p \<Rightarrow> p)
             else planes_at (from_planes (bits_zero W) (bits_zero W)) i)))"
      then obtain l where l: "from_string W digits = Ok l" "logic_ok W l"
        and at: "\<And>i. i < W \<Longrightarrow> planes_at l i =
          (case digit_planes (rev (digits_of digits) ! i) of Inl _ \<Rightarrow> (False, False) | Inr p \<Rightarrow> p)"
        using True by (auto simp: rev eq)
      have valid: "\<forall>c\<in>set (digits_of digits). logic_digit c" using good by (simp add: rev)
      have digit: "\<exists>s. map_of digit_states (rev (digits_of digits) ! i) = Some s \<and> state_at l i = Ok s"
        if "i < W" for i
      proof -
        have "rev (digits_of digits) ! i \<in> set (digits_of digits)"
          using that True nth_mem [of i "rev (digits_of digits)"] by simp
        then obtain p where p: "digit_planes (rev (digits_of digits) ! i) = Ok p"
          using valid by (auto simp: logic_digit_planes is_ok_iff)
        then show ?thesis
          using at [OF that] state_at_eq [OF l(2) that] digit_planes_state [OF p]
          by (simp add: logic_state_at_def planes_at_def)
      qed
      have "is_ok (to_bits l) \<longleftrightarrow> (\<forall>i<W. state_at l i \<noteq> Ok X \<and> state_at l i \<noteq> Ok Z)"
        using known_or_unknown [OF l(2)] contains_iff [OF l(2)] state_at_eq [OF l(2)]
        by (auto simp: to_bits_def)
      then show ?thesis
        using True valid digit dpi_round_trip [OF l(2)] l(1) by auto
    qed
  qed
qed

lemma from_string_correct_witness:
  "\<exists>l. from_string 4 ''1_0xZ'' = Ok l \<and> state_at l 1 = Ok X \<and> \<not> is_ok (to_bits l)"
proof -
  have "is_ok (from_string 4 ''1_0xZ'')"
    using from_string_correct [of 4 "''1_0xZ''"]
    by (simp add: digits_of_def logic_digit_def numeral_nat)
  then obtain l where l: "from_string 4 ''1_0xZ'' = Ok l" by (auto simp: is_ok_iff)
  with from_string_correct [of 4 "''1_0xZ''"]
  have all: "\<forall>i<4. \<exists>s. map_of digit_states (rev (digits_of ''1_0xZ'') ! i) = Some s \<and> state_at l i = Ok s"
    and bits: "is_ok (to_bits l) \<longleftrightarrow> (\<forall>i<4. state_at l i \<noteq> Ok X \<and> state_at l i \<noteq> Ok Z)" by simp_all
  have "state_at l 1 = Ok X"
    using all [rule_format, of 1] by (auto simp: digits_of_def digit_states_def)
  moreover from this have "\<not> is_ok (to_bits l)" using bits by (auto intro!: exI [of _ 1])
  ultimately show ?thesis using l by blast
qed

end
