(* ===== verification/Coverage.thy ===== *)
theory Coverage
  imports Cpptb_Prelude
begin

text \<open>
  Functional coverage (\<open>coverage.hpp\<close>): coverpoints with their bins, crosses of coverpoints with the
  filters that remove combinations, covergroups, and snapshots with their merging. A value is the
  integer the code orders it by; what a sample is, is a type of the model, and guards, which read
  state outside of the covergroup, are predicates on it. A coverpoint is named by its position in the
  covergroup where the code keeps its address.
\<close>

section \<open>Bins\<close>

datatype bin_kind = OrdinaryBin | IgnoreBin | IllegalBin | TransitionBin

fun bin_kind_name :: "bin_kind \<Rightarrow> string" where
  "bin_kind_name OrdinaryBin = ''ordinary''"
| "bin_kind_name IgnoreBin = ''ignore''"
| "bin_kind_name IllegalBin = ''illegal''"
| "bin_kind_name TransitionBin = ''transition''"

type_synonym ranges = "(int \<times> int) list"

record bin =
  bn_name :: string
  bn_kind :: bin_kind
  bn_from :: ranges
  bn_to :: ranges
  bn_wildcard :: bool
  bn_care :: u64
  bn_want :: u64
  bn_default_sequence :: bool
  bn_hits :: u64

definition in_any :: "int \<Rightarrow> ranges \<Rightarrow> bool" where
  "in_any v rs = list_ex (\<lambda>(low, high). low \<le> v \<and> v \<le> high) rs"

definition matches_from :: "bin \<Rightarrow> int \<Rightarrow> bool" where
  "matches_from b v =
     (if bn_wildcard b then (word_of_int v AND bn_care b) = bn_want b else in_any v (bn_from b))"

definition matches_to :: "bin \<Rightarrow> int \<Rightarrow> bool" where
  "matches_to b v = in_any v (bn_to b)"

definition hit :: "bin \<Rightarrow> bin" where
  "hit b = b\<lparr>bn_hits := bn_hits b + 1\<rparr>"

section \<open>Coverpoints\<close>

record 's coverpoint =
  cp_name :: string
  cp_narrow :: "int \<Rightarrow> int"
  cp_bins :: "bin list"
  cp_ordinary_names :: "string list"
  cp_last_hits :: "nat list"
  cp_guard :: "('s \<Rightarrow> bool) option"
  cp_samples :: u64
  cp_illegal_hits :: u64
  cp_previous :: "int option"
  cp_sampled :: bool
  cp_sealed :: bool

definition coverpoint_init :: "string \<Rightarrow> (int \<Rightarrow> int) \<Rightarrow> 's coverpoint result" where
  "coverpoint_init name narrow =
     (if name = [] then Fail (InvalidArgument ''coverpoint name is empty'')
      else Ok \<lparr>cp_name = name, cp_narrow = narrow, cp_bins = [], cp_ordinary_names = [], cp_last_hits = [], cp_guard = None,
               cp_samples = 0, cp_illegal_hits = 0, cp_previous = None, cp_sampled = False, cp_sealed = False\<rparr>)"

definition add_bin ::
  "bin_kind \<Rightarrow> string \<Rightarrow> ranges \<Rightarrow> ranges \<Rightarrow> bool \<Rightarrow> bool \<Rightarrow> u64 \<Rightarrow> u64 \<Rightarrow> 's coverpoint \<Rightarrow> 's coverpoint result" where
  "add_bin kind name froms tos wildcard default_sequence care want cp =
     (if cp_sampled cp then Fail (LogicError ''coverage bins cannot be added after sampling'')
      else if cp_sealed cp
      then Fail (LogicError ''coverage bins cannot be added after the coverpoint is used in a cross'')
      else if name = [] then Fail (InvalidArgument ''coverage bin name is empty'')
      else if list_ex (\<lambda>(low, high). high < low) (froms @ tos)
      then Fail (InvalidArgument ''coverage bin has a reversed range'')
      else if list_ex (\<lambda>b. bn_name b = name) (cp_bins cp)
      then Fail (InvalidArgument ''duplicate coverage bin'')
      else
        let cp = (if kind = OrdinaryBin then cp\<lparr>cp_ordinary_names := cp_ordinary_names cp @ [name]\<rparr> else cp)
        in Ok (cp\<lparr>cp_bins := cp_bins cp @
             [\<lparr>bn_name = name, bn_kind = kind, bn_from = froms, bn_to = tos, bn_wildcard = wildcard,
               bn_care = care, bn_want = want, bn_default_sequence = default_sequence, bn_hits = 0\<rparr>]\<rparr>))"

definition ranges_bin :: "bin_kind \<Rightarrow> string \<Rightarrow> ranges \<Rightarrow> 's coverpoint \<Rightarrow> 's coverpoint result" where
  "ranges_bin kind name froms = add_bin kind name froms [] False False 0 0"

definition value_bin :: "bin_kind \<Rightarrow> string \<Rightarrow> int \<Rightarrow> 's coverpoint \<Rightarrow> 's coverpoint result" where
  "value_bin kind name v = ranges_bin kind name [(v, v)]"

definition range_bin :: "bin_kind \<Rightarrow> string \<Rightarrow> int \<Rightarrow> int \<Rightarrow> 's coverpoint \<Rightarrow> 's coverpoint result" where
  "range_bin kind name low high = ranges_bin kind name [(low, high)]"

definition transition_bin :: "string \<Rightarrow> int \<Rightarrow> int \<Rightarrow> 's coverpoint \<Rightarrow> 's coverpoint result" where
  "transition_bin name before after =
     add_bin TransitionBin name [(before, before)] [(after, after)] False False 0 0"

definition illegal_default_sequence :: "string \<Rightarrow> 's coverpoint \<Rightarrow> 's coverpoint result" where
  "illegal_default_sequence name = add_bin IllegalBin name [] [] False True 0 0"

text \<open>The care mask, the wanted bits and the number of bits of a pattern.\<close>

fun pattern_loop :: "string \<Rightarrow> u64 \<Rightarrow> u64 \<Rightarrow> nat \<Rightarrow> (u64 \<times> u64 \<times> nat) result" where
  "pattern_loop [] care want bits = Ok (care, want, bits)"
| "pattern_loop (c # cs) care want bits =
     (if c = CHR ''_'' then pattern_loop cs care want bits
      else
        let care = push_bit 1 care; want = push_bit 1 want
        in if c = CHR ''0'' then pattern_loop cs (care OR 1) want (bits + 1)
           else if c = CHR ''1'' then pattern_loop cs (care OR 1) (want OR 1) (bits + 1)
           else if c = CHR ''?'' \<or> c = CHR ''x'' \<or> c = CHR ''X'' then pattern_loop cs care want (bits + 1)
           else Fail (InvalidArgument ''wildcard bin has a character other than 0, 1, ? or x in its pattern''))"

definition wildcard_bin :: "bin_kind \<Rightarrow> string \<Rightarrow> string \<Rightarrow> 's coverpoint \<Rightarrow> 's coverpoint result" where
  "wildcard_bin kind name pattern cp =
     result_bind (pattern_loop pattern 0 0 0) (\<lambda>(care, want, bits).
       if bits = 0 \<or> bits > 64
       then Fail (InvalidArgument ''wildcard bin needs between 1 and 64 pattern bits'')
       else add_bin kind name [] [] True False care want cp)"

fun nat_text :: "nat \<Rightarrow> string" where
  "nat_text n = (if n < 10 then [char_of (48 + n)] else nat_text (n div 10) @ [char_of (48 + n mod 10)])"

definition int_text :: "int \<Rightarrow> string" where
  "int_text v = (if v < 0 then ''-'' @ nat_text (nat (- v)) else nat_text (nat v))"

text \<open>A refused bin of an array leaves the bins before it in the coverpoint.\<close>

fun bin_array_loop :: "string \<Rightarrow> int list \<Rightarrow> 's coverpoint \<Rightarrow> 's coverpoint \<times> unit result" where
  "bin_array_loop name [] cp = (cp, Ok ())"
| "bin_array_loop name (v # vs) cp =
     (case value_bin OrdinaryBin (name @ ''['' @ int_text v @ '']'') v cp of
        Inl e \<Rightarrow> (cp, Fail e)
      | Inr cp \<Rightarrow> bin_array_loop name vs cp)"

definition bin_array :: "string \<Rightarrow> int \<Rightarrow> int \<Rightarrow> 's coverpoint \<Rightarrow> 's coverpoint \<times> unit result" where
  "bin_array name low high cp =
     (if high < low then (cp, Fail (InvalidArgument ''coverage bin array has a reversed range''))
      else bin_array_loop name [low..high] cp)"

definition coverpoint_iff :: "('s \<Rightarrow> bool) \<Rightarrow> 's coverpoint \<Rightarrow> 's coverpoint" where
  "coverpoint_iff guard cp = cp\<lparr>cp_guard := Some guard\<rparr>"

definition seal :: "'s coverpoint \<Rightarrow> 's coverpoint" where
  "seal cp = cp\<lparr>cp_sealed := True\<rparr>"

text \<open>
  The loops of \<open>sample\<close>: over the ignored and the illegal bins, over the ordinary and the transition
  bins, and over the bins of the default sequence.
\<close>

fun exclude_loop :: "int \<Rightarrow> bin list \<Rightarrow> bool \<Rightarrow> u32 \<Rightarrow> u64 \<Rightarrow> bin list \<times> bool \<times> u32 \<times> u64" where
  "exclude_loop v [] ignored illegal illegal_hits = ([], ignored, illegal, illegal_hits)"
| "exclude_loop v (b # bs) ignored illegal illegal_hits =
     (if bn_kind b \<noteq> IgnoreBin \<and> bn_kind b \<noteq> IllegalBin \<or> bn_default_sequence b \<or> \<not> matches_from b v
      then apfst ((#) b) (exclude_loop v bs ignored illegal illegal_hits)
      else if bn_kind b = IllegalBin
      then apfst ((#) (hit b)) (exclude_loop v bs ignored (illegal + 1) (illegal_hits + 1))
      else apfst ((#) (hit b)) (exclude_loop v bs True illegal illegal_hits))"

fun match_loop ::
  "int option \<Rightarrow> int \<Rightarrow> bin list \<Rightarrow> nat \<Rightarrow> nat list \<Rightarrow> bool \<Rightarrow> bool \<Rightarrow> bin list \<times> nat list \<times> bool \<times> bool" where
  "match_loop previous v [] ordinary_index last_hits any_transition have_transitions =
     ([], last_hits, any_transition, have_transitions)"
| "match_loop previous v (b # bs) ordinary_index last_hits any_transition have_transitions =
     (case bn_kind b of
        OrdinaryBin \<Rightarrow>
          if matches_from b v
          then apfst ((#) (hit b)) (match_loop previous v bs (ordinary_index + 1) (last_hits @ [ordinary_index])
                 any_transition have_transitions)
          else apfst ((#) b) (match_loop previous v bs (ordinary_index + 1) last_hits
                 any_transition have_transitions)
      | TransitionBin \<Rightarrow>
          if (case previous of None \<Rightarrow> False | Some before \<Rightarrow> matches_from b before \<and> matches_to b v)
          then apfst ((#) (hit b)) (match_loop previous v bs ordinary_index last_hits True True)
          else apfst ((#) b) (match_loop previous v bs ordinary_index last_hits any_transition True)
      | _ \<Rightarrow> apfst ((#) b) (match_loop previous v bs ordinary_index last_hits any_transition have_transitions))"

fun default_loop :: "bin list \<Rightarrow> u32 \<Rightarrow> u64 \<Rightarrow> bin list \<times> u32 \<times> u64" where
  "default_loop [] illegal illegal_hits = ([], illegal, illegal_hits)"
| "default_loop (b # bs) illegal illegal_hits =
     (if \<not> bn_default_sequence b then apfst ((#) b) (default_loop bs illegal illegal_hits)
      else apfst ((#) (hit b)) (default_loop bs (illegal + 1) (illegal_hits + 1)))"

definition sample_bins :: "int \<Rightarrow> 's coverpoint \<Rightarrow> u32 \<times> 's coverpoint" where
  "sample_bins v cp =
     (let (bs, ignored, illegal, illegal_hits) = exclude_loop v (cp_bins cp) False 0 (cp_illegal_hits cp);
          cp = cp\<lparr>cp_bins := bs, cp_illegal_hits := illegal_hits\<rparr>
      in if \<not> ignored \<and> illegal = 0 then
           let (bs, last_hits, any_transition, have_transitions) =
                 match_loop (cp_previous cp) v (cp_bins cp) 0 (cp_last_hits cp) False False;
               cp = cp\<lparr>cp_bins := bs, cp_last_hits := last_hits\<rparr>
           in if have_transitions \<and> cp_previous cp \<noteq> None \<and> \<not> any_transition then
                let (bs, illegal, illegal_hits) = default_loop (cp_bins cp) illegal (cp_illegal_hits cp)
                in (illegal, cp\<lparr>cp_bins := bs, cp_illegal_hits := illegal_hits\<rparr>)
              else (illegal, cp)
         else (illegal, cp))"

definition coverpoint_sample :: "'s \<Rightarrow> int \<Rightarrow> 's coverpoint \<Rightarrow> u32 \<times> 's coverpoint" where
  "coverpoint_sample s v cp =
     (let cp = cp\<lparr>cp_sampled := True, cp_last_hits := []\<rparr>
      in if (case cp_guard cp of None \<Rightarrow> False | Some guard \<Rightarrow> \<not> guard s) then (0, cp)
         else let (illegal, cp) = sample_bins v (cp\<lparr>cp_samples := cp_samples cp + 1\<rparr>)
              in (illegal, cp\<lparr>cp_previous := Some v\<rparr>))"

definition ordinary_bin_count :: "'s coverpoint \<Rightarrow> nat" where
  "ordinary_bin_count cp = length (cp_ordinary_names cp)"

definition ordinary_bin_name :: "'s coverpoint \<Rightarrow> nat \<Rightarrow> string result" where
  "ordinary_bin_name cp index =
     (if index < length (cp_ordinary_names cp) then Ok (cp_ordinary_names cp ! index)
      else Fail (OutOfRange ''vector::at''))"

definition ordinary_bin_accepts :: "'s coverpoint \<Rightarrow> nat \<Rightarrow> int \<Rightarrow> bool" where
  "ordinary_bin_accepts cp index v =
     (let ordinary = filter (\<lambda>b. bn_kind b = OrdinaryBin) (cp_bins cp)
      in index < length ordinary \<and> matches_from (ordinary ! index) (cp_narrow cp v))"

section \<open>Cross bin selection\<close>

text \<open>
  A predicate of \<open>where\<close> sees which coverpoints are crossed, their names and the names of their bins,
  position by position. The values of \<open>binsof\<close> are kept as 64-bit integers and go back to the type of
  the coverpoint when they are compared.
\<close>

datatype select =
    BinsOf nat "int list"
  | Where string "(nat \<times> string \<times> string) list \<Rightarrow> bool"
  | Binary bool select select
  | Negate select

definition binsof :: "nat \<Rightarrow> int list \<Rightarrow> select" where
  "binsof point vs = BinsOf point (map (\<lambda>v. sint (word_of_int v :: u64)) vs)"

definition position_of :: "nat \<Rightarrow> nat list \<Rightarrow> nat option" where
  "position_of point points = (case filter (\<lambda>i. points ! i = point) [0..<length points] of [] \<Rightarrow> None | i # _ \<Rightarrow> Some i)"

definition cross_bin_view :: "'s coverpoint list \<Rightarrow> nat list \<Rightarrow> nat list \<Rightarrow> (nat \<times> string \<times> string) list" where
  "cross_bin_view all points bins =
     map (\<lambda>(p, b). (p, cp_name (all ! p), cp_ordinary_names (all ! p) ! b)) (zip points bins)"

fun matches_cross :: "'s coverpoint list \<Rightarrow> nat list \<Rightarrow> nat list \<Rightarrow> select \<Rightarrow> bool" where
  "matches_cross all points bins (BinsOf point vs) =
     (case position_of point points of
        None \<Rightarrow> False
      | Some i \<Rightarrow> vs = [] \<or> list_ex (ordinary_bin_accepts (all ! point) (bins ! i)) vs)"
| "matches_cross all points bins (Where description test) = test (cross_bin_view all points bins)"
| "matches_cross all points bins (Binary conjunction l r) =
     (if conjunction then matches_cross all points bins l \<and> matches_cross all points bins r
      else matches_cross all points bins l \<or> matches_cross all points bins r)"
| "matches_cross all points bins (Negate s) = (\<not> matches_cross all points bins s)"

fun join_text :: "string list \<Rightarrow> string" where
  "join_text [] = []"
| "join_text [x] = x"
| "join_text (x # y # zs) = x @ '', '' @ join_text (y # zs)"

fun describe :: "'s coverpoint list \<Rightarrow> select \<Rightarrow> string" where
  "describe all (BinsOf point vs) =
     ''binsof('' @ cp_name (all ! point) @ '')'' @
     (if vs = [] then [] else '' intersect {'' @ join_text (map int_text vs) @ ''}'')"
| "describe all (Where description test) = ''where('' @ description @ '')''"
| "describe all (Binary conjunction l r) =
     ''('' @ describe all l @ (if conjunction then '' && '' else '' || '') @ describe all r @ '')''"
| "describe all (Negate s) = ''!'' @ describe all s"

section \<open>Crosses\<close>

record cross_filter =
  fl_name :: string
  fl_select :: select
  fl_illegal :: bool
  fl_hits :: u64

record 's cross =
  cr_name :: string
  cr_points :: "nat list"
  cr_hits :: "u64 list"
  cr_filters :: "cross_filter list"
  cr_guard :: "('s \<Rightarrow> bool) option"
  cr_illegal_hits :: u64

definition bin_counts :: "'s coverpoint list \<Rightarrow> nat list \<Rightarrow> nat list" where
  "bin_counts all points = map (\<lambda>p. ordinary_bin_count (all ! p)) points"

definition cross_init :: "'s coverpoint list \<Rightarrow> string \<Rightarrow> nat list \<Rightarrow> 's cross" where
  "cross_init all name points =
     \<lparr>cr_name = name, cr_points = points, cr_hits = replicate (foldl (*) 1 (bin_counts all points)) 0,
      cr_filters = [], cr_guard = None, cr_illegal_hits = 0\<rparr>"

text \<open>The number of a combination of bins, most significant first.\<close>

definition index_of :: "nat list \<Rightarrow> nat list \<Rightarrow> nat" where
  "index_of counts bins = foldl (\<lambda>index (count, b). index * count + b) 0 (zip counts bins)"

text \<open>The position of the filter that removes a combination: the first to ignore it, else the first.\<close>

fun excluded_loop ::
  "'s coverpoint list \<Rightarrow> nat list \<Rightarrow> nat list \<Rightarrow> cross_filter list \<Rightarrow> nat \<Rightarrow> nat option \<Rightarrow> nat option" where
  "excluded_loop all points bins [] i illegal_match = illegal_match"
| "excluded_loop all points bins (f # fs) i illegal_match =
     (if \<not> matches_cross all points bins (fl_select f)
      then excluded_loop all points bins fs (i + 1) illegal_match
      else if \<not> fl_illegal f then Some i
      else excluded_loop all points bins fs (i + 1) (if illegal_match = None then Some i else illegal_match))"

definition excluded_by :: "'s coverpoint list \<Rightarrow> 's cross \<Rightarrow> nat list \<Rightarrow> nat option" where
  "excluded_by all c bins = excluded_loop all (cr_points c) bins (cr_filters c) 0 None"

definition count_combination :: "'s coverpoint list \<Rightarrow> nat list \<Rightarrow> u32 \<times> 's cross \<Rightarrow> u32 \<times> 's cross" where
  "count_combination all bins = (\<lambda>(illegal, c).
     case excluded_by all c bins of
       None \<Rightarrow>
         let i = index_of (bin_counts all (cr_points c)) bins
         in (illegal, c\<lparr>cr_hits := (cr_hits c)[i := cr_hits c ! i + 1]\<rparr>)
     | Some f \<Rightarrow>
         let fl = cr_filters c ! f;
             c = c\<lparr>cr_filters := (cr_filters c)[f := fl\<lparr>fl_hits := fl_hits fl + 1\<rparr>]\<rparr>
         in if fl_illegal fl then (illegal + 1, c\<lparr>cr_illegal_hits := cr_illegal_hits c + 1\<rparr>) else (illegal, c))"

text \<open>\<open>walk\<close>: the bins chosen so far, and the hits of the coverpoints that are left.\<close>

fun walk :: "'s coverpoint list \<Rightarrow> nat list \<Rightarrow> nat list list \<Rightarrow> u32 \<times> 's cross \<Rightarrow> u32 \<times> 's cross" where
  "walk all bins [] state = count_combination all bins state"
| "walk all bins (hits # rest) state = fold (\<lambda>b. walk all (bins @ [b]) rest) hits state"

definition cross_sample :: "'s \<Rightarrow> 's coverpoint list \<Rightarrow> 's cross \<Rightarrow> u32 \<times> 's cross" where
  "cross_sample s all c =
     (if (case cr_guard c of None \<Rightarrow> False | Some guard \<Rightarrow> \<not> guard s) then (0, c)
      else walk all [] (map (\<lambda>p. cp_last_hits (all ! p)) (cr_points c)) (0, c))"

section \<open>Covergroups\<close>

record 's covergroup =
  cg_name :: string
  cg_source_file :: string
  cg_source_line :: u32
  cg_points :: "'s coverpoint list"
  cg_extractors :: "('s \<Rightarrow> int) list"
  cg_crosses :: "'s cross list"
  cg_samples :: u64
  cg_illegal_hits :: u64
  cg_sampled :: bool

definition covergroup_init :: "string \<Rightarrow> string \<Rightarrow> u32 \<Rightarrow> 's covergroup result" where
  "covergroup_init name source_file source_line =
     (if name = [] then Fail (InvalidArgument ''covergroup name is empty'')
      else Ok \<lparr>cg_name = name, cg_source_file = source_file, cg_source_line = source_line, cg_points = [],
               cg_extractors = [], cg_crosses = [], cg_samples = 0, cg_illegal_hits = 0, cg_sampled = False\<rparr>)"

definition add_coverpoint :: "string \<Rightarrow> (int \<Rightarrow> int) \<Rightarrow> ('s \<Rightarrow> int) \<Rightarrow> 's covergroup \<Rightarrow> 's covergroup result" where
  "add_coverpoint name narrow extractor g =
     (if cg_sampled g then Fail (LogicError ''coverpoints cannot be added after sampling'')
      else if list_ex (\<lambda>p. cp_name p = name) (cg_points g)
      then Fail (InvalidArgument ''duplicate coverpoint'')
      else result_bind (coverpoint_init name narrow) (\<lambda>p.
        Ok (g\<lparr>cg_points := cg_points g @ [p], cg_extractors := cg_extractors g @ [extractor]\<rparr>)))"

text \<open>Sealing the coverpoints of a cross up to the first that is not the covergroup's own.\<close>

fun seal_points :: "nat list \<Rightarrow> 's coverpoint list \<Rightarrow> 's coverpoint list \<times> unit result" where
  "seal_points [] all = (all, Ok ())"
| "seal_points (p # points) all =
     (if p < length all then seal_points points (all[p := seal (all ! p)])
      else (all, Fail (InvalidArgument ''cross coverpoints must belong to the covergroup'')))"

definition add_cross :: "string \<Rightarrow> nat list \<Rightarrow> 's covergroup \<Rightarrow> 's covergroup \<times> unit result" where
  "add_cross name points g =
     (if cg_sampled g then (g, Fail (LogicError ''crosses cannot be added after sampling''))
      else if name = [] then (g, Fail (InvalidArgument ''coverage cross name is empty''))
      else
        let (all, sealed) = seal_points points (cg_points g); g = g\<lparr>cg_points := all\<rparr>
        in if \<not> is_ok sealed then (g, sealed)
           else if list_ex (\<lambda>c. cr_name c = name) (cg_crosses g)
           then (g, Fail (InvalidArgument ''duplicate coverage cross''))
           else (g\<lparr>cg_crosses := cg_crosses g @ [cross_init all name points]\<rparr>, Ok ()))"

definition add_filter :: "string \<Rightarrow> select \<Rightarrow> bool \<Rightarrow> 's cross \<Rightarrow> 's cross result" where
  "add_filter name selected illegal c =
     (if name = [] then Fail (InvalidArgument ''cross bin filter name is empty'')
      else Ok (c\<lparr>cr_filters := cr_filters c @
             [\<lparr>fl_name = name, fl_select = selected, fl_illegal = illegal, fl_hits = 0\<rparr>]\<rparr>))"

definition cross_iff :: "('s \<Rightarrow> bool) \<Rightarrow> 's cross \<Rightarrow> 's cross" where
  "cross_iff guard c = c\<lparr>cr_guard := Some guard\<rparr>"

fun sample_points :: "'s \<Rightarrow> 's coverpoint list \<Rightarrow> ('s \<Rightarrow> int) list \<Rightarrow> u32 \<Rightarrow> u32 \<times> 's coverpoint list" where
  "sample_points s (p # ps) (extractor # es) illegal =
     (let (n, p) = coverpoint_sample s (extractor s) p; (illegal, ps) = sample_points s ps es (illegal + n)
      in (illegal, p # ps))"
| "sample_points s ps es illegal = (illegal, ps)"

fun sample_crosses :: "'s \<Rightarrow> 's coverpoint list \<Rightarrow> 's cross list \<Rightarrow> u32 \<Rightarrow> u32 \<times> 's cross list" where
  "sample_crosses s all [] illegal = (illegal, [])"
| "sample_crosses s all (c # cs) illegal =
     (let (n, c) = cross_sample s all c; (illegal, cs) = sample_crosses s all cs (illegal + n)
      in (illegal, c # cs))"

definition covergroup_sample :: "'s \<Rightarrow> 's covergroup \<Rightarrow> u32 \<times> 's covergroup" where
  "covergroup_sample s g =
     (let (illegal, points) = sample_points s (cg_points g) (cg_extractors g) 0;
          (illegal, crosses) = sample_crosses s points (cg_crosses g) illegal
      in (illegal, g\<lparr>cg_sampled := True, cg_samples := cg_samples g + 1, cg_points := points,
                     cg_crosses := crosses, cg_illegal_hits := cg_illegal_hits g + ucast illegal\<rparr>))"

section \<open>Snapshots\<close>

record bin_snapshot =
  bs_name :: string
  bs_kind :: bin_kind
  bs_hits :: u64

record point_snapshot =
  ps_name :: string
  ps_samples :: u64
  ps_illegal_hits :: u64
  ps_bins :: "bin_snapshot list"

record cross_bin_snapshot =
  xb_bins :: "string list"
  xb_hits :: u64

record cross_snapshot =
  xs_name :: string
  xs_points :: "string list"
  xs_ignored :: "string list"
  xs_illegal :: "string list"
  xs_illegal_hits :: u64
  xs_bins :: "cross_bin_snapshot list"

record coverage_snapshot =
  sn_name :: string
  sn_source_file :: string
  sn_source_line :: u32
  sn_samples :: u64
  sn_illegal_hits :: u64
  sn_points :: "point_snapshot list"
  sn_crosses :: "cross_snapshot list"

definition point_view :: "'s coverpoint \<Rightarrow> point_snapshot" where
  "point_view cp =
     \<lparr>ps_name = cp_name cp, ps_samples = cp_samples cp, ps_illegal_hits = cp_illegal_hits cp,
      ps_bins = map (\<lambda>b. \<lparr>bs_name = bn_name b, bs_kind = bn_kind b, bs_hits = bn_hits b\<rparr>) (cp_bins cp)\<rparr>"

fun collect :: "'s coverpoint list \<Rightarrow> 's cross \<Rightarrow> nat list \<Rightarrow> nat list \<Rightarrow> cross_bin_snapshot list \<Rightarrow> cross_bin_snapshot list" where
  "collect all c bins [] result =
     (if excluded_by all c bins \<noteq> None then result
      else result @
        [\<lparr>xb_bins = map (\<lambda>(p, b). cp_ordinary_names (all ! p) ! b) (zip (cr_points c) bins),
          xb_hits = cr_hits c ! index_of (bin_counts all (cr_points c)) bins\<rparr>])"
| "collect all c bins (count # counts) result =
     fold (\<lambda>b. collect all c (bins @ [b]) counts) [0..<count] result"

definition filter_text :: "'s coverpoint list \<Rightarrow> cross_filter \<Rightarrow> string" where
  "filter_text all f = fl_name f @ '' = '' @ describe all (fl_select f)"

definition cross_view :: "'s coverpoint list \<Rightarrow> 's cross \<Rightarrow> cross_snapshot" where
  "cross_view all c =
     \<lparr>xs_name = cr_name c, xs_points = map (\<lambda>p. cp_name (all ! p)) (cr_points c),
      xs_ignored = map (filter_text all) (filter (\<lambda>f. \<not> fl_illegal f) (cr_filters c)),
      xs_illegal = map (filter_text all) (filter fl_illegal (cr_filters c)),
      xs_illegal_hits = cr_illegal_hits c,
      xs_bins = collect all c [] (bin_counts all (cr_points c)) []\<rparr>"

definition snapshot :: "'s covergroup \<Rightarrow> coverage_snapshot" where
  "snapshot g =
     \<lparr>sn_name = cg_name g, sn_source_file = cg_source_file g, sn_source_line = cg_source_line g,
      sn_samples = cg_samples g, sn_illegal_hits = cg_illegal_hits g,
      sn_points = map point_view (cg_points g), sn_crosses = map (cross_view (cg_points g)) (cg_crosses g)\<rparr>"

definition coverable_kind :: "bin_kind \<Rightarrow> bool" where
  "coverable_kind kind = (kind = OrdinaryBin \<or> kind = TransitionBin)"

definition coverable_bins :: "coverage_snapshot \<Rightarrow> nat" where
  "coverable_bins sn =
     sum_list (map (\<lambda>p. length (filter (\<lambda>b. coverable_kind (bs_kind b)) (ps_bins p))) (sn_points sn)) +
     sum_list (map (\<lambda>c. length (xs_bins c)) (sn_crosses sn))"

definition covered_bins :: "coverage_snapshot \<Rightarrow> nat" where
  "covered_bins sn =
     sum_list (map (\<lambda>p. length (filter (\<lambda>b. coverable_kind (bs_kind b) \<and> bs_hits b \<noteq> 0) (ps_bins p))) (sn_points sn)) +
     sum_list (map (\<lambda>c. length (filter (\<lambda>b. xb_hits b \<noteq> 0) (xs_bins c))) (sn_crosses sn))"

text \<open>Merging: the models are compared in full before any count changes.\<close>

definition same_point :: "point_snapshot \<Rightarrow> point_snapshot \<Rightarrow> bool" where
  "same_point p q =
     (ps_name p = ps_name q \<and> length (ps_bins p) = length (ps_bins q) \<and>
      list_all (\<lambda>(b, c). bs_name b = bs_name c \<and> bs_kind b = bs_kind c) (zip (ps_bins p) (ps_bins q)))"

definition same_cross :: "cross_snapshot \<Rightarrow> cross_snapshot \<Rightarrow> bool" where
  "same_cross c d =
     (xs_name c = xs_name d \<and> xs_points c = xs_points d \<and> xs_ignored c = xs_ignored d \<and>
      xs_illegal c = xs_illegal d \<and> length (xs_bins c) = length (xs_bins d) \<and>
      list_all (\<lambda>(b, e). xb_bins b = xb_bins e) (zip (xs_bins c) (xs_bins d)))"

definition same_model :: "coverage_snapshot \<Rightarrow> coverage_snapshot \<Rightarrow> bool" where
  "same_model sn other =
     (sn_name sn = sn_name other \<and> length (sn_points sn) = length (sn_points other) \<and>
      length (sn_crosses sn) = length (sn_crosses other) \<and>
      list_all (\<lambda>(p, q). same_point p q) (zip (sn_points sn) (sn_points other)) \<and>
      list_all (\<lambda>(c, d). same_cross c d) (zip (sn_crosses sn) (sn_crosses other)))"

definition merge_point :: "point_snapshot \<Rightarrow> point_snapshot \<Rightarrow> point_snapshot" where
  "merge_point p q =
     p\<lparr>ps_samples := ps_samples p + ps_samples q, ps_illegal_hits := ps_illegal_hits p + ps_illegal_hits q,
       ps_bins := map (\<lambda>(b, c). b\<lparr>bs_hits := bs_hits b + bs_hits c\<rparr>) (zip (ps_bins p) (ps_bins q))\<rparr>"

definition merge_cross :: "cross_snapshot \<Rightarrow> cross_snapshot \<Rightarrow> cross_snapshot" where
  "merge_cross c d =
     c\<lparr>xs_bins := map (\<lambda>(b, e). b\<lparr>xb_hits := xb_hits b + xb_hits e\<rparr>) (zip (xs_bins c) (xs_bins d))\<rparr>"

definition merge :: "coverage_snapshot \<Rightarrow> coverage_snapshot \<Rightarrow> coverage_snapshot result" where
  "merge sn other =
     (if \<not> same_model sn other then Fail (InvalidArgument ''coverage snapshots have different models'')
      else Ok (sn\<lparr>sn_samples := sn_samples sn + sn_samples other,
                  sn_illegal_hits := sn_illegal_hits sn + sn_illegal_hits other,
                  sn_points := map (\<lambda>(p, q). merge_point p q) (zip (sn_points sn) (sn_points other)),
                  sn_crosses := map (\<lambda>(c, d). merge_cross c d) (zip (sn_crosses sn) (sn_crosses other))\<rparr>))"

end
