(* ===== verification/CoverageLemmas.thy ===== *)
theory CoverageLemmas
  imports Coverage
begin

text \<open>
  What a sample does to coverpoints and crosses. The loops over the bins are brought to closed form
  (\<open>coverpoint_sample_eq\<close>), the number of a combination of bins is shown to be one-to-one and in
  range, and a sample of a cross to be one update of all its counters (\<open>cross_sample_eq\<close>).
\<close>

section \<open>The loops of a coverpoint\<close>

text \<open>Which bins a value hits, bin by bin.\<close>

definition excludes :: "int \<Rightarrow> bin \<Rightarrow> bool" where
  "excludes v b =
     ((bn_kind b = IgnoreBin \<or> bn_kind b = IllegalBin) \<and> \<not> bn_default_sequence b \<and> matches_from b v)"

definition ordinary_hit :: "int \<Rightarrow> bin \<Rightarrow> bool" where
  "ordinary_hit v b = (bn_kind b = OrdinaryBin \<and> matches_from b v)"

definition transition_hit :: "int option \<Rightarrow> int \<Rightarrow> bin \<Rightarrow> bool" where
  "transition_hit previous v b =
     (bn_kind b = TransitionBin \<and> (\<exists>before. previous = Some before \<and> matches_from b before \<and> matches_to b v))"

definition hit_where :: "(bin \<Rightarrow> bool) \<Rightarrow> bin list \<Rightarrow> bin list" where
  "hit_where P bs = map (\<lambda>b. if P b then hit b else b) bs"

definition count_where :: "(bin \<Rightarrow> bool) \<Rightarrow> bin list \<Rightarrow> nat" where
  "count_where P bs = length (filter P bs)"

definition ordinary_bins :: "bin list \<Rightarrow> bin list" where
  "ordinary_bins bs = filter (\<lambda>b. bn_kind b = OrdinaryBin) bs"

fun ordinary_positions :: "int \<Rightarrow> bin list \<Rightarrow> nat \<Rightarrow> nat list" where
  "ordinary_positions v [] i = []"
| "ordinary_positions v (b # bs) i = (if matches_from b v then [i] else []) @ ordinary_positions v bs (i + 1)"

lemma hit_where_Nil [simp]: "hit_where P [] = []"
  by (simp add: hit_where_def)

lemma hit_where_Cons [simp]: "hit_where P (b # bs) = (if P b then hit b else b) # hit_where P bs"
  by (simp add: hit_where_def)

lemma length_hit_where [simp]: "length (hit_where P bs) = length bs"
  by (simp add: hit_where_def)

lemma hit_fields [simp]:
  "bn_name (hit b) = bn_name b" "bn_kind (hit b) = bn_kind b" "bn_from (hit b) = bn_from b"
  "bn_to (hit b) = bn_to b" "bn_wildcard (hit b) = bn_wildcard b" "bn_care (hit b) = bn_care b"
  "bn_want (hit b) = bn_want b" "bn_default_sequence (hit b) = bn_default_sequence b"
  "bn_hits (hit b) = bn_hits b + 1"
  by (simp_all add: hit_def)

lemma matches_hit [simp]: "matches_from (hit b) v = matches_from b v" "matches_to (hit b) v = matches_to b v"
  by (simp_all add: matches_from_def matches_to_def)

lemma hit_tests [simp]:
  "excludes v (hit b) = excludes v b" "ordinary_hit v (hit b) = ordinary_hit v b"
  "transition_hit previous v (hit b) = transition_hit previous v b"
  by (simp_all add: excludes_def ordinary_hit_def transition_hit_def)

lemma count_where_Nil [simp]: "count_where P [] = 0"
  by (simp add: count_where_def)

lemma count_where_Cons [simp]: "count_where P (b # bs) = (if P b then 1 else 0) + count_where P bs"
  by (simp add: count_where_def)

lemma count_where_zero: "count_where P bs = 0 \<longleftrightarrow> (\<forall>b \<in> set bs. \<not> P b)"
  by (auto simp: count_where_def filter_empty_conv)

lemma count_where_le: "count_where P bs \<le> length bs"
  by (simp add: count_where_def)

lemma exclude_loop_eq:
  "exclude_loop v bs ignored illegal illegal_hits =
     (hit_where (excludes v) bs,
      ignored \<or> (\<exists>b \<in> set bs. excludes v b \<and> bn_kind b = IgnoreBin),
      illegal + of_nat (count_where (\<lambda>b. excludes v b \<and> bn_kind b = IllegalBin) bs),
      illegal_hits + of_nat (count_where (\<lambda>b. excludes v b \<and> bn_kind b = IllegalBin) bs))"
  by (induction bs arbitrary: ignored illegal illegal_hits) (auto simp: excludes_def)

lemma match_loop_eq:
  "match_loop previous v bs i last_hits any_transition have_transitions =
     (hit_where (\<lambda>b. ordinary_hit v b \<or> transition_hit previous v b) bs,
      last_hits @ ordinary_positions v (ordinary_bins bs) i,
      any_transition \<or> (\<exists>b \<in> set bs. transition_hit previous v b),
      have_transitions \<or> (\<exists>b \<in> set bs. bn_kind b = TransitionBin))"
proof (induction bs arbitrary: i last_hits any_transition have_transitions)
  case Nil
  show ?case by (simp add: ordinary_bins_def)
next
  case (Cons b bs)
  show ?case
    by (cases "bn_kind b") (auto simp: Cons.IH ordinary_bins_def ordinary_hit_def transition_hit_def split: option.splits)
qed

lemma default_loop_eq:
  "default_loop bs illegal illegal_hits =
     (hit_where bn_default_sequence bs, illegal + of_nat (count_where bn_default_sequence bs),
      illegal_hits + of_nat (count_where bn_default_sequence bs))"
  by (induction bs arbitrary: illegal illegal_hits) auto

lemma ordinary_positions_eq:
  "ordinary_positions v bs i = map ((+) i) (filter (\<lambda>j. matches_from (bs ! j) v) [0..<length bs])"
proof (induction bs arbitrary: i)
  case Nil
  show ?case by simp
next
  case (Cons b bs)
  have "[0..<Suc (length bs)] = 0 # map Suc [0..<length bs]"
    by (simp add: upt_conv_Cons map_Suc_upt del: upt_Suc)
  then show ?case
    by (auto simp: Cons.IH filter_map comp_def simp del: upt_Suc)
qed

lemma hit_where_twice:
  assumes "\<And>b. b \<in> set bs \<Longrightarrow> \<not> (P b \<and> Q b)"  "\<And>b. Q (hit b) = Q b"
  shows "hit_where Q (hit_where P bs) = hit_where (\<lambda>b. P b \<or> Q b) bs"
  using assms by (induction bs) auto

lemma ordinary_bins_hit_where: "ordinary_bins (hit_where P bs) = hit_where P (ordinary_bins bs)"
  by (induction bs) (auto simp: ordinary_bins_def)

lemma hit_where_none: "(\<And>b. b \<in> set bs \<Longrightarrow> \<not> P b) \<Longrightarrow> hit_where P bs = bs"
  by (induction bs) auto

lemma hit_where_cong: "(\<And>b. b \<in> set bs \<Longrightarrow> P b = Q b) \<Longrightarrow> hit_where P bs = hit_where Q bs"
  by (induction bs) auto

section \<open>A sample of a coverpoint\<close>

definition guard_open :: "('s \<Rightarrow> bool) option \<Rightarrow> 's \<Rightarrow> bool" where
  "guard_open g s = (case g of None \<Rightarrow> True | Some f \<Rightarrow> f s)"

definition barred :: "int \<Rightarrow> bin list \<Rightarrow> bool" where
  "barred v bs = (\<exists>b \<in> set bs. excludes v b)"

definition missed :: "int option \<Rightarrow> int \<Rightarrow> bin list \<Rightarrow> bool" where
  "missed previous v bs =
     (previous \<noteq> None \<and> (\<exists>b \<in> set bs. bn_kind b = TransitionBin) \<and> (\<forall>b \<in> set bs. \<not> transition_hit previous v b))"

definition counted :: "int option \<Rightarrow> int \<Rightarrow> bin list \<Rightarrow> bin \<Rightarrow> bool" where
  "counted previous v bs b =
     (excludes v b \<or>
      \<not> barred v bs \<and> (ordinary_hit v b \<or> transition_hit previous v b \<or> bn_default_sequence b \<and> missed previous v bs))"

definition illegal_count :: "int option \<Rightarrow> int \<Rightarrow> bin list \<Rightarrow> nat" where
  "illegal_count previous v bs = count_where (\<lambda>b. counted previous v bs b \<and> bn_kind b = IllegalBin) bs"

definition point_hits :: "int \<Rightarrow> bin list \<Rightarrow> nat list" where
  "point_hits v bs =
     (if barred v bs then []
      else filter (\<lambda>i. matches_from (ordinary_bins bs ! i) v) [0..<length (ordinary_bins bs)])"

definition default_is_illegal :: "bin list \<Rightarrow> bool" where
  "default_is_illegal bs = (\<forall>b \<in> set bs. bn_default_sequence b \<longrightarrow> bn_kind b = IllegalBin)"

lemma transition_hit_case:
  "(case previous of None \<Rightarrow> False | Some before \<Rightarrow> matches_from b before \<and> matches_to b v) =
     (\<exists>before. previous = Some before \<and> matches_from b before \<and> matches_to b v)"
  by (cases previous) auto

lemma barred_hit_where [simp]: "barred v (hit_where P bs) = barred v bs"
  by (induction bs) (auto simp: barred_def)

lemma ordinary_positions_hit_where: "ordinary_positions v (hit_where P bs) i = ordinary_positions v bs i"
  by (induction bs arbitrary: i) auto

lemma bex_hit_where: "(\<And>b. Q (hit b) = Q b) \<Longrightarrow> (\<exists>b \<in> set (hit_where P bs). Q b) = (\<exists>b \<in> set bs. Q b)"
  by (induction bs) auto

lemma count_where_hit_where: "(\<And>b. Q (hit b) = Q b) \<Longrightarrow> count_where Q (hit_where P bs) = count_where Q bs"
  by (induction bs) auto

lemma count_where_cong: "(\<And>b. b \<in> set bs \<Longrightarrow> P b = Q b) \<Longrightarrow> count_where P bs = count_where Q bs"
  by (induction bs) auto

lemma of_nat_u32_zero: "n < 2 ^ 32 \<Longrightarrow> (of_nat n :: u32) = 0 \<longleftrightarrow> n = 0"
  by (auto simp: word_of_nat_eq_0_iff dest: dvd_imp_le)

lemma barred_iff:
  assumes "length bs < 2 ^ 32"
  shows "(\<not> (\<exists>b \<in> set bs. excludes v b \<and> bn_kind b = IgnoreBin) \<and>
          (of_nat (count_where (\<lambda>b. excludes v b \<and> bn_kind b = IllegalBin) bs) :: u32) = 0) =
         (\<not> barred v bs)"
proof -
  have "count_where (\<lambda>b. excludes v b \<and> bn_kind b = IllegalBin) bs < 2 ^ 32"
    using count_where_le assms by (rule le_less_trans)
  then show ?thesis
    by (auto simp: of_nat_u32_zero count_where_zero barred_def excludes_def)
qed

lemma sample_bins_eq:
  assumes few: "length (cp_bins cp) < 2 ^ 32" and default: "default_is_illegal (cp_bins cp)"
    and cleared: "cp_last_hits cp = []"
  shows "sample_bins v cp =
    (of_nat (illegal_count (cp_previous cp) v (cp_bins cp)),
     cp\<lparr>cp_bins := hit_where (counted (cp_previous cp) v (cp_bins cp)) (cp_bins cp),
        cp_last_hits := point_hits v (cp_bins cp),
        cp_illegal_hits := cp_illegal_hits cp + of_nat (illegal_count (cp_previous cp) v (cp_bins cp))\<rparr>)"
proof (cases "barred v (cp_bins cp)")
  case True
  let ?bs = "cp_bins cp" and ?p = "cp_previous cp"
  have c: "counted ?p v ?bs = excludes v"
    using True by (auto simp: counted_def)
  show ?thesis
    using True barred_iff [OF few, of v] cleared
    by (auto simp: sample_bins_def exclude_loop_eq c illegal_count_def point_hits_def Let_def)
next
  case False
  let ?bs = "cp_bins cp" and ?p = "cp_previous cp"
  have none: "\<not> excludes v b" if "b \<in> set ?bs" for b
    using False that by (auto simp: barred_def)
  have zero: "count_where (\<lambda>b. excludes v b \<and> bn_kind b = IllegalBin) ?bs = 0"
    using none by (auto simp: count_where_zero)
  have positions: "ordinary_positions v (ordinary_bins ?bs) 0 = point_hits v ?bs"
    using False by (simp add: point_hits_def ordinary_positions_eq map_idI)
  show ?thesis
  proof (cases "missed ?p v ?bs")
    case True
    have counted: "counted ?p v ?bs b = (ordinary_hit v b \<or> transition_hit ?p v b \<or> bn_default_sequence b)"
      if "b \<in> set ?bs" for b
      using True False none that by (auto simp: counted_def)
    have twice: "hit_where bn_default_sequence
        (hit_where (\<lambda>b. ordinary_hit v b \<or> transition_hit ?p v b) ?bs) = hit_where (counted ?p v ?bs) ?bs"
      using default counted
      by (subst hit_where_twice)
        (auto simp: default_is_illegal_def ordinary_hit_def transition_hit_def intro!: hit_where_cong)
    have count: "count_where bn_default_sequence (hit_where P ?bs) = illegal_count ?p v ?bs" for P
      using default counted
      by (subst count_where_hit_where)
        (auto simp: illegal_count_def default_is_illegal_def ordinary_hit_def transition_hit_def intro!: count_where_cong)
    show ?thesis
      using True False zero none twice count cleared positions barred_iff [OF few, of v]
      by (auto simp: sample_bins_def exclude_loop_eq match_loop_eq default_loop_eq missed_def hit_where_none)
  next
    case missed: False
    have counted: "counted ?p v ?bs b = (ordinary_hit v b \<or> transition_hit ?p v b)" if "b \<in> set ?bs" for b
      using missed False none that by (auto simp: counted_def)
    have none_illegal: "illegal_count ?p v ?bs = 0"
      using counted by (auto simp: illegal_count_def count_where_zero ordinary_hit_def transition_hit_def)
    have hits: "hit_where (\<lambda>b. ordinary_hit v b \<or> transition_hit ?p v b) ?bs = hit_where (counted ?p v ?bs) ?bs"
      using counted by (auto intro!: hit_where_cong)
    show ?thesis
      using missed False zero none cleared positions none_illegal hits barred_iff [OF few, of v]
      by (auto simp: sample_bins_def exclude_loop_eq match_loop_eq default_loop_eq missed_def hit_where_none Let_def)
  qed
qed

lemma coverpoint_sample_eq:
  assumes "length (cp_bins cp) < 2 ^ 32" and "default_is_illegal (cp_bins cp)"
  shows "coverpoint_sample s v cp =
    (if guard_open (cp_guard cp) s then
       (of_nat (illegal_count (cp_previous cp) v (cp_bins cp)),
        cp\<lparr>cp_bins := hit_where (counted (cp_previous cp) v (cp_bins cp)) (cp_bins cp),
           cp_last_hits := point_hits v (cp_bins cp), cp_samples := cp_samples cp + 1,
           cp_illegal_hits := cp_illegal_hits cp + of_nat (illegal_count (cp_previous cp) v (cp_bins cp)),
           cp_previous := Some v, cp_sampled := True\<rparr>)
     else (0, cp\<lparr>cp_last_hits := [], cp_sampled := True\<rparr>))"
  using assms by (auto simp: coverpoint_sample_def sample_bins_eq guard_open_def split: option.splits)

section \<open>Numbering the combinations of a cross\<close>

text \<open>A combination takes one bin below each count.\<close>

definition combination :: "nat list \<Rightarrow> nat list \<Rightarrow> bool" where
  "combination counts bins = list_all2 (\<lambda>n b. b < n) counts bins"

lemma index_of_foldl:
  "length bins = length counts \<Longrightarrow>
   foldl (\<lambda>index (count, b). index * count + b) a (zip counts bins) = a * prod_list counts + index_of counts bins"
proof (induction bins counts arbitrary: a rule: list_induct2)
  case Nil
  show ?case by (simp add: index_of_def)
next
  case (Cons b bs n ns)
  from Cons.IH [of "a * n + b"] Cons.IH [of b] show ?case
    by (simp add: index_of_def algebra_simps)
qed

lemma index_of_Nil [simp]: "index_of [] [] = 0"
  by (simp add: index_of_def)

lemma index_of_Cons:
  "length bins = length counts \<Longrightarrow> index_of (n # counts) (b # bins) = b * prod_list counts + index_of counts bins"
  using index_of_foldl [of bins counts b] by (simp add: index_of_def)

lemma combination_length: "combination counts bins \<Longrightarrow> length bins = length counts"
  by (auto simp: combination_def dest: list_all2_lengthD)

lemma index_of_bound: "combination counts bins \<Longrightarrow> index_of counts bins < prod_list counts"
proof (induction counts arbitrary: bins)
  case Nil
  then show ?case by (simp add: combination_def)
next
  case (Cons n counts)
  then obtain b bs where bins: "bins = b # bs" "b < n" "combination counts bs"
    by (cases bins) (auto simp: combination_def)
  with Cons.IH have "index_of counts bs < prod_list counts" by blast
  with bins show ?case
    using less_mult_add [of "index_of counts bs" "prod_list counts" b n]
    by (simp add: index_of_Cons combination_length)
qed

lemma index_of_inject:
  "combination counts bins \<Longrightarrow> combination counts bins' \<Longrightarrow> index_of counts bins = index_of counts bins' \<Longrightarrow> bins = bins'"
proof (induction counts arbitrary: bins bins')
  case Nil
  then show ?case by (simp add: combination_def)
next
  case (Cons n counts)
  obtain b bs where bins: "bins = b # bs" "combination counts bs"
    using Cons.prems(1) by (cases bins) (auto simp: combination_def)
  obtain b' bs' where bins': "bins' = b' # bs'" "combination counts bs'"
    using Cons.prems(2) by (cases bins') (auto simp: combination_def)
  have eq: "b * prod_list counts + index_of counts bs = b' * prod_list counts + index_of counts bs'"
    using Cons.prems(3) bins bins' by (simp add: index_of_Cons combination_length)
  have bound: "index_of counts bs < prod_list counts" "index_of counts bs' < prod_list counts"
    using bins bins' by (auto intro: index_of_bound)
  then have "b = (b * prod_list counts + index_of counts bs) div prod_list counts"
    "b' = (b' * prod_list counts + index_of counts bs') div prod_list counts"
    by simp_all
  with eq have "b = b'" by metis
  with eq Cons.IH bins bins' show ?case by auto
qed

lemma cross_init_size: "foldl (*) 1 ns = prod_list ns" for ns :: "nat list"
proof -
  have "foldl (*) a ns = a * prod_list ns" for a
    by (induction ns arbitrary: a) (auto simp: algebra_simps)
  then show ?thesis by simp
qed

section \<open>Walking over the combinations\<close>

lemma walk_eq: "walk all bins hits state = fold (count_combination all) (map ((@) bins) (product_lists hits)) state"
proof (induction hits arbitrary: bins state)
  case Nil
  show ?case by simp
next
  case (Cons h hits)
  have assoc: "(@) (bins @ [b]) = (\<lambda>xs. bins @ b # xs)" for b
    by auto
  have "fold (\<lambda>b. walk all (bins @ [b]) hits) h state =
      fold (count_combination all) (concat (map (\<lambda>b. map ((@) (bins @ [b])) (product_lists hits)) h)) state"
    by (induction h arbitrary: state) (simp_all add: Cons.IH assoc)
  also have "concat (map (\<lambda>b. map ((@) (bins @ [b])) (product_lists hits)) h) =
      map ((@) bins) (product_lists (h # hits))"
    by (induction h) (simp_all add: comp_def assoc)
  finally show ?case by simp
qed

lemma in_product_lists: "bins \<in> set (product_lists hits) \<longleftrightarrow> list_all2 (\<lambda>h b. b \<in> set h) hits bins"
  by (auto simp: product_lists_set list_all2_conv_all_nth)


section \<open>A sample of a cross\<close>

lemma excluded_loop_cong:
  "list_all2 (\<lambda>f f'. fl_select f = fl_select f' \<and> fl_illegal f = fl_illegal f') fs fs' \<Longrightarrow>
   excluded_loop all points bins fs i m = excluded_loop all points bins fs' i m"
  by (induction fs fs' arbitrary: i m rule: list_all2_induct) auto

lemma excluded_by_cong:
  assumes "length (cr_filters c) = length (cr_filters c')" "cr_points c = cr_points c'"
    and "\<And>i. i < length (cr_filters c) \<Longrightarrow>
      fl_select (cr_filters c ! i) = fl_select (cr_filters c' ! i) \<and> fl_illegal (cr_filters c ! i) = fl_illegal (cr_filters c' ! i)"
  shows "excluded_by all c bins = excluded_by all c' bins"
  unfolding excluded_by_def assms(2) by (rule excluded_loop_cong) (use assms in \<open>auto simp: list_all2_conv_all_nth\<close>)

lemma excluded_loop_Some:
  "excluded_loop all points bins fs i m = Some f \<Longrightarrow>
   m = Some f \<or> (\<exists>j < length fs. f = i + j \<and> matches_cross all points bins (fl_select (fs ! j)))"
proof (induction fs arbitrary: i m)
  case Nil
  then show ?case by simp
next
  case (Cons g fs)
  have step: "\<exists>j < length (g # fs). f = i + j \<and> matches_cross all points bins (fl_select ((g # fs) ! j))"
    if "\<exists>j < length fs. f = i + 1 + j \<and> matches_cross all points bins (fl_select (fs ! j))"
    using that by force
  show ?case
  proof (cases "matches_cross all points bins (fl_select g)")
    case False
    with Cons.prems Cons.IH [of "i + 1" m] step show ?thesis by auto
  next
    case True
    then have first: "\<exists>j < length (g # fs). i = i + j \<and> matches_cross all points bins (fl_select ((g # fs) ! j))"
      by (intro exI [of _ 0]) simp
    show ?thesis
    proof (cases "fl_illegal g")
      case False
      with Cons.prems True first show ?thesis by auto
    next
      case illegal: True
      with Cons.prems True Cons.IH [of "i + 1" "if m = None then Some i else m"] step first show ?thesis
        by (auto split: if_splits)
    qed
  qed
qed

lemma excluded_by_Some: "excluded_by all c bins = Some f \<Longrightarrow>
  f < length (cr_filters c) \<and> matches_cross all (cr_points c) bins (fl_select (cr_filters c ! f))"
  by (auto simp: excluded_by_def dest!: excluded_loop_Some)

lemma excluded_loop_None:
  "excluded_loop all points bins fs i m = None \<longleftrightarrow>
     m = None \<and> (\<forall>f \<in> set fs. \<not> matches_cross all points bins (fl_select f))"
  by (induction fs arbitrary: i m) auto

lemma excluded_by_None:
  "excluded_by all c bins = None \<longleftrightarrow>
     (\<forall>f \<in> set (cr_filters c). \<not> matches_cross all (cr_points c) bins (fl_select f))"
  by (simp add: excluded_by_def excluded_loop_None)

lemma excluded_loop_ignored:
  "(\<exists>f \<in> set fs. matches_cross all points bins (fl_select f) \<and> \<not> fl_illegal f) \<Longrightarrow>
   \<exists>j < length fs. excluded_loop all points bins fs i m = Some (i + j) \<and> \<not> fl_illegal (fs ! j)"
proof (induction fs arbitrary: i m)
  case Nil
  then show ?case by simp
next
  case (Cons g fs)
  show ?case
  proof (cases "matches_cross all points bins (fl_select g) \<and> \<not> fl_illegal g")
    case True
    then show ?thesis by (intro exI [of _ 0]) simp
  next
    case False
    with Cons.prems have "\<exists>f \<in> set fs. matches_cross all points bins (fl_select f) \<and> \<not> fl_illegal f"
      by auto
    note ih = Cons.IH [OF this, of "i + 1"
        "if matches_cross all points bins (fl_select g) \<and> m = None then Some i else m"]
    have "excluded_loop all points bins (g # fs) i m = excluded_loop all points bins fs (i + 1)
        (if matches_cross all points bins (fl_select g) \<and> m = None then Some i else m)"
      using False by (cases m) auto
    with ih obtain j where "j < length fs" "excluded_loop all points bins (g # fs) i m = Some (i + 1 + j)"
      "\<not> fl_illegal (fs ! j)"
      by auto
    then show ?thesis by (intro exI [of _ "Suc j"]) simp
  qed
qed

text \<open>The counters of a cross after it has seen a list of combinations.\<close>

definition cross_after :: "'s coverpoint list \<Rightarrow> nat list list \<Rightarrow> 's cross \<Rightarrow> 's cross" where
  "cross_after all L c =
     c\<lparr>cr_hits := map (\<lambda>i. cr_hits c ! i + of_nat (length (filter
           (\<lambda>b. excluded_by all c b = None \<and> index_of (bin_counts all (cr_points c)) b = i) L))) [0..<length (cr_hits c)],
       cr_filters := map (\<lambda>i. (cr_filters c ! i)\<lparr>fl_hits := fl_hits (cr_filters c ! i) +
           of_nat (length (filter (\<lambda>b. excluded_by all c b = Some i) L))\<rparr>) [0..<length (cr_filters c)],
       cr_illegal_hits := cr_illegal_hits c + of_nat (length (filter
           (\<lambda>b. \<exists>f. excluded_by all c b = Some f \<and> fl_illegal (cr_filters c ! f)) L))\<rparr>"

lemma cross_after_Nil [simp]: "cross_after all [] c = c"
  by (simp add: cross_after_def map_nth)

lemma cross_after_fields [simp]:
  "cr_name (cross_after all L c) = cr_name c" "cr_points (cross_after all L c) = cr_points c"
  "cr_guard (cross_after all L c) = cr_guard c" "length (cr_hits (cross_after all L c)) = length (cr_hits c)"
  "length (cr_filters (cross_after all L c)) = length (cr_filters c)"
  by (simp_all add: cross_after_def)

lemma cross_after_filter [simp]:
  "i < length (cr_filters c) \<Longrightarrow> fl_name (cr_filters (cross_after all L c) ! i) = fl_name (cr_filters c ! i)"
  "i < length (cr_filters c) \<Longrightarrow> fl_select (cr_filters (cross_after all L c) ! i) = fl_select (cr_filters c ! i)"
  "i < length (cr_filters c) \<Longrightarrow> fl_illegal (cr_filters (cross_after all L c) ! i) = fl_illegal (cr_filters c ! i)"
  by (simp_all add: cross_after_def)

lemma excluded_by_after [simp]: "excluded_by all (cross_after all' L c) bins = excluded_by all c bins"
  by (rule excluded_by_cong) simp_all

lemma cross_after_append: "cross_after all (L @ M) c = cross_after all M (cross_after all L c)"
proof -
  have fl: "excluded_by all c b = Some f \<Longrightarrow>
      fl_illegal (cr_filters (cross_after all L c) ! f) = fl_illegal (cr_filters c ! f)" for b f
    using excluded_by_Some [of all c b f] by simp
  then have "filter (\<lambda>b. \<exists>f. excluded_by all c b = Some f \<and> fl_illegal (cr_filters (cross_after all L c) ! f)) M =
      filter (\<lambda>b. \<exists>f. excluded_by all c b = Some f \<and> fl_illegal (cr_filters c ! f)) M"
    by (auto intro!: filter_cong)
  then show ?thesis
    unfolding cross_after_def [of all M]
    by (simp only: excluded_by_after cross_after_fields)
      (auto simp: cross_after_def add.assoc intro!: cross.equality nth_equalityI)
qed

lemma count_combination_eq:
  "count_combination all bins (n, c) =
     (n + (if \<exists>f. excluded_by all c bins = Some f \<and> fl_illegal (cr_filters c ! f) then 1 else 0),
      cross_after all [bins] c)"
proof (cases "excluded_by all c bins")
  case None
  then show ?thesis
    by (auto simp: count_combination_def cross_after_def Let_def map_nth nth_list_update
        intro!: cross.equality nth_equalityI)
next
  case (Some f)
  then show ?thesis
    by (auto simp: count_combination_def cross_after_def Let_def map_nth nth_list_update
        intro!: cross.equality nth_equalityI)
qed

definition illegal_combinations :: "'s coverpoint list \<Rightarrow> 's cross \<Rightarrow> nat list list \<Rightarrow> nat" where
  "illegal_combinations all c L =
     length (filter (\<lambda>b. \<exists>f. excluded_by all c b = Some f \<and> fl_illegal (cr_filters c ! f)) L)"

lemma fold_count_combination:
  "fold (count_combination all) L (n, c) = (n + of_nat (illegal_combinations all c L), cross_after all L c)"
proof (induction L arbitrary: n rule: rev_induct)
  case Nil
  show ?case by (simp add: illegal_combinations_def)
next
  case (snoc b L)
  have "excluded_by all c b = Some f \<Longrightarrow>
      fl_illegal (cr_filters (cross_after all L c) ! f) = fl_illegal (cr_filters c ! f)" for f
    using excluded_by_Some [of all c b f] by simp
  then have "(\<exists>f. excluded_by all c b = Some f \<and> fl_illegal (cr_filters (cross_after all L c) ! f)) =
      (\<exists>f. excluded_by all c b = Some f \<and> fl_illegal (cr_filters c ! f))"
    by blast
  then show ?case
    by (simp add: snoc.IH count_combination_eq illegal_combinations_def cross_after_append)
qed

text \<open>The combinations that a sample of a cross walks over.\<close>

definition hit_combinations :: "'s coverpoint list \<Rightarrow> 's cross \<Rightarrow> nat list list" where
  "hit_combinations all c = product_lists (map (\<lambda>p. cp_last_hits (all ! p)) (cr_points c))"

lemma cross_sample_eq:
  "cross_sample s all c =
     (if guard_open (cr_guard c) s
      then (of_nat (illegal_combinations all c (hit_combinations all c)), cross_after all (hit_combinations all c) c)
      else (0, c))"
  by (auto simp: cross_sample_def walk_eq guard_open_def hit_combinations_def fold_count_combination map_idI
      split: option.splits)

section \<open>Well-formed covergroups\<close>

definition unhit :: "bin \<Rightarrow> bin" where
  "unhit b = b\<lparr>bn_hits := 0\<rparr>"

lemma unhit_hit [simp]: "unhit (hit b) = unhit b"
  by (simp add: unhit_def hit_def)

lemma unhit_hit_where [simp]: "map unhit (hit_where P bs) = map unhit bs"
  by (induction bs) auto

lemma unhit_fields [simp]:
  "bn_name (unhit b) = bn_name b" "bn_kind (unhit b) = bn_kind b" "bn_from (unhit b) = bn_from b"
  "bn_to (unhit b) = bn_to b" "bn_default_sequence (unhit b) = bn_default_sequence b"
  by (simp_all add: unhit_def)

definition ranges_ordered :: "bin \<Rightarrow> bool" where
  "ranges_ordered b = list_all (\<lambda>(low, high). low \<le> high) (bn_from b @ bn_to b)"

definition bins_ok :: "bin list \<Rightarrow> bool" where
  "bins_ok bs = (distinct (map bn_name bs) \<and> default_is_illegal bs \<and> list_all ranges_ordered bs)"

definition point_ok :: "'s coverpoint \<Rightarrow> bool" where
  "point_ok p =
     (cp_name p \<noteq> [] \<and> bins_ok (cp_bins p) \<and> cp_ordinary_names p = map bn_name (ordinary_bins (cp_bins p)) \<and>
      distinct (cp_last_hits p) \<and> (\<forall>h \<in> set (cp_last_hits p). h < ordinary_bin_count p))"

definition cross_ok :: "'s coverpoint list \<Rightarrow> 's cross \<Rightarrow> bool" where
  "cross_ok all c =
     ((\<forall>p \<in> set (cr_points c). p < length all \<and> cp_sealed (all ! p)) \<and>
      length (cr_hits c) = prod_list (bin_counts all (cr_points c)))"

definition group_ok :: "'s covergroup \<Rightarrow> bool" where
  "group_ok g =
     (cg_name g \<noteq> [] \<and> length (cg_extractors g) = length (cg_points g) \<and>
      distinct (map cp_name (cg_points g)) \<and> distinct (map cr_name (cg_crosses g)) \<and>
      list_all point_ok (cg_points g) \<and> list_all (cross_ok (cg_points g)) (cg_crosses g))"

lemma bins_ok_unhit: "map unhit bs = map unhit bs' \<Longrightarrow> bins_ok bs = bins_ok bs'"
proof -
  have "bins_ok bs = bins_ok (map unhit bs)" for bs
    by (auto simp: bins_ok_def default_is_illegal_def list_all_iff ranges_ordered_def comp_def)
  then show "map unhit bs = map unhit bs' \<Longrightarrow> bins_ok bs = bins_ok bs'" by metis
qed

lemma ordinary_unhit: "map unhit bs = map unhit bs' \<Longrightarrow> map unhit (ordinary_bins bs) = map unhit (ordinary_bins bs')"
proof -
  have "map unhit (ordinary_bins bs) = ordinary_bins (map unhit bs)" for bs
    by (induction bs) (auto simp: ordinary_bins_def)
  then show "map unhit bs = map unhit bs' \<Longrightarrow> map unhit (ordinary_bins bs) = map unhit (ordinary_bins bs')" by metis
qed

lemma names_unhit: "map unhit bs = map unhit bs' \<Longrightarrow> map bn_name bs = map bn_name bs'"
proof -
  have "map bn_name bs = map bn_name (map unhit bs)" for bs
    by simp
  then show "map unhit bs = map unhit bs' \<Longrightarrow> map bn_name bs = map bn_name bs'" by metis
qed

lemma sample_bins_shape:
  assumes "cp_last_hits cp = []"
  shows "map unhit (cp_bins (snd (sample_bins v cp))) = map unhit (cp_bins cp)"
    and "distinct (cp_last_hits (snd (sample_bins v cp)))"
    and "h \<in> set (cp_last_hits (snd (sample_bins v cp))) \<Longrightarrow> h < length (ordinary_bins (cp_bins cp))"
    and "cp_name (snd (sample_bins v cp)) = cp_name cp" "cp_ordinary_names (snd (sample_bins v cp)) = cp_ordinary_names cp"
      "cp_sealed (snd (sample_bins v cp)) = cp_sealed cp" "cp_guard (snd (sample_bins v cp)) = cp_guard cp"
      "cp_narrow (snd (sample_bins v cp)) = cp_narrow cp" "cp_samples (snd (sample_bins v cp)) = cp_samples cp"
  using assms
  by (auto simp: sample_bins_def exclude_loop_eq match_loop_eq default_loop_eq Let_def
      ordinary_positions_hit_where ordinary_bins_hit_where ordinary_positions_eq distinct_map split: if_split_asm)

lemma coverpoint_sample_shape:
  "map unhit (cp_bins (snd (coverpoint_sample s v cp))) = map unhit (cp_bins cp)"
  "distinct (cp_last_hits (snd (coverpoint_sample s v cp)))"
  "h \<in> set (cp_last_hits (snd (coverpoint_sample s v cp))) \<Longrightarrow> h < length (ordinary_bins (cp_bins cp))"
  "cp_name (snd (coverpoint_sample s v cp)) = cp_name cp"
  "cp_ordinary_names (snd (coverpoint_sample s v cp)) = cp_ordinary_names cp"
  "cp_sealed (snd (coverpoint_sample s v cp)) = cp_sealed cp" "cp_guard (snd (coverpoint_sample s v cp)) = cp_guard cp"
  "cp_narrow (snd (coverpoint_sample s v cp)) = cp_narrow cp"
  using sample_bins_shape [where cp = "cp\<lparr>cp_sampled := True, cp_last_hits := [], cp_samples := cp_samples cp + 1\<rparr>" and v = v]
  by (auto simp: coverpoint_sample_def Let_def split_def split: if_split_asm)

lemma coverpoint_sample_ok:
  assumes "point_ok p"
  shows "point_ok (snd (coverpoint_sample s v p))"
proof -
  have "bins_ok (cp_bins (snd (coverpoint_sample s v p))) = bins_ok (cp_bins p)"
    by (rule bins_ok_unhit) (rule coverpoint_sample_shape)
  moreover have "map bn_name (ordinary_bins (cp_bins (snd (coverpoint_sample s v p)))) = map bn_name (ordinary_bins (cp_bins p))"
    by (intro names_unhit ordinary_unhit) (rule coverpoint_sample_shape)
  ultimately show ?thesis
    using assms by (auto simp: point_ok_def ordinary_bin_count_def coverpoint_sample_shape dest: coverpoint_sample_shape(3))
qed

section \<open>Reachable covergroups\<close>

text \<open>What a test can do to a coverpoint it holds a reference to, and to a covergroup.\<close>

inductive point_step :: "'s coverpoint \<Rightarrow> 's coverpoint \<Rightarrow> bool" where
  ranges: "kind \<noteq> TransitionBin \<Longrightarrow> ranges_bin kind name rs p = Ok q \<Longrightarrow> point_step p q"
| wildcard: "kind \<noteq> TransitionBin \<Longrightarrow> wildcard_bin kind name pattern p = Ok q \<Longrightarrow> point_step p q"
| transition: "transition_bin name before after p = Ok q \<Longrightarrow> point_step p q"
| default_sequence: "illegal_default_sequence name p = Ok q \<Longrightarrow> point_step p q"
| bin_array: "point_step p (fst (bin_array name low high p))"
| guard: "point_step p (coverpoint_iff guard p)"
| sample: "point_step p (snd (coverpoint_sample s v p))"

inductive group_step :: "'s covergroup \<Rightarrow> 's covergroup \<Rightarrow> bool" where
  new_point: "add_coverpoint name narrow extractor g = Ok h \<Longrightarrow> group_step g h"
| point: "i < length (cg_points g) \<Longrightarrow> point_step (cg_points g ! i) p \<Longrightarrow>
    group_step g (g\<lparr>cg_points := (cg_points g)[i := p]\<rparr>)"
| new_cross: "group_step g (fst (add_cross name points g))"
| new_filter: "i < length (cg_crosses g) \<Longrightarrow> add_filter name selected illegal (cg_crosses g ! i) = Ok c \<Longrightarrow>
    group_step g (g\<lparr>cg_crosses := (cg_crosses g)[i := c]\<rparr>)"
| guard: "i < length (cg_crosses g) \<Longrightarrow>
    group_step g (g\<lparr>cg_crosses := (cg_crosses g)[i := cross_iff guard (cg_crosses g ! i)]\<rparr>)"
| sample: "group_step g (snd (covergroup_sample s g))"

inductive reached :: "'s covergroup \<Rightarrow> bool" where
  init: "covergroup_init name source_file source_line = Ok g \<Longrightarrow> reached g"
| step: "reached g \<Longrightarrow> group_step g h \<Longrightarrow> reached h"

inductive_cases point_stepE: "point_step p q"
inductive_cases group_stepE: "group_step g h"

lemma add_bin_Ok:
  assumes "add_bin kind name froms tos wildcard dflt care want p = Ok q"
  shows "\<not> cp_sealed p" and "\<not> cp_sealed q" and "cp_name q = cp_name p" and "cp_last_hits q = cp_last_hits p"
    and "cp_bins q = cp_bins p @ [\<lparr>bn_name = name, bn_kind = kind, bn_from = froms, bn_to = tos,
      bn_wildcard = wildcard, bn_care = care, bn_want = want, bn_default_sequence = dflt, bn_hits = 0\<rparr>]"
    and "cp_ordinary_names q = cp_ordinary_names p @ (if kind = OrdinaryBin then [name] else [])"
    and "name \<notin> bn_name ` set (cp_bins p)"
  using assms
  by (auto simp: add_bin_def Let_def list_ex_iff split: if_split_asm)

lemma not_reversed: "\<not> list_ex (\<lambda>(low, high). high < low) rs \<longleftrightarrow> list_all (\<lambda>(low, high). low \<le> high) rs"
  for rs :: ranges
  by (induction rs) auto

lemma add_bin_ranges:
  assumes "add_bin kind name froms tos wildcard dflt care want p = Ok q"
  shows "list_all (\<lambda>(low, high). low \<le> high) (froms @ tos)"
  using assms by (simp add: add_bin_def not_reversed [symmetric] del: list_all_append list_ex_append split: if_split_asm)

lemma add_bin_ok:
  assumes "add_bin kind name froms tos wildcard dflt care want p = Ok q" "point_ok p"
    and "dflt \<longrightarrow> kind = IllegalBin"
  shows "point_ok q"
  using add_bin_Ok [OF assms(1)] add_bin_ranges [OF assms(1)] assms(2,3)
  by (auto simp: point_ok_def bins_ok_def default_is_illegal_def ordinary_bins_def ordinary_bin_count_def ranges_ordered_def)

lemma bin_array_loop_ok: "point_ok p \<Longrightarrow> point_ok (fst (bin_array_loop name vs p))"
  by (induction vs arbitrary: p)
    (auto simp: value_bin_def ranges_bin_def split: sum.splits intro: add_bin_ok)

lemma bin_array_loop_fields:
  "cp_name (fst (bin_array_loop name vs p)) = cp_name p"
  "cp_sealed p \<Longrightarrow> fst (bin_array_loop name vs p) = p"
  by (induction vs arbitrary: p)
    (auto simp: value_bin_def ranges_bin_def split: sum.splits dest: add_bin_Ok)

lemma wildcard_bin_Ok: "wildcard_bin kind name pattern p = Ok q \<Longrightarrow>
    \<exists>care want. add_bin kind name [] [] True False care want p = Ok q"
  by (auto simp: wildcard_bin_def result_bind_Ok_iff split: if_split_asm)

lemma point_step_ok: "point_step p q \<Longrightarrow> point_ok p \<Longrightarrow> point_ok q"
proof (induction rule: point_step.induct)
  case (wildcard kind name pattern p q)
  then show ?case by (auto dest!: wildcard_bin_Ok intro: add_bin_ok)
next
  case (guard p guard)
  then show ?case by (auto simp: point_ok_def coverpoint_iff_def ordinary_bin_count_def)
qed (auto simp: ranges_bin_def transition_bin_def illegal_default_sequence_def bin_array_def
    intro: add_bin_ok bin_array_loop_ok coverpoint_sample_ok)

lemma point_step_name: "point_step p q \<Longrightarrow> cp_name q = cp_name p"
  by (induction rule: point_step.induct)
    (auto simp: ranges_bin_def transition_bin_def illegal_default_sequence_def bin_array_def coverpoint_iff_def
      coverpoint_sample_shape bin_array_loop_fields dest!: wildcard_bin_Ok dest: add_bin_Ok)

lemma point_step_sealed:
  "point_step p q \<Longrightarrow> cp_sealed p \<Longrightarrow> cp_sealed q \<and> cp_ordinary_names q = cp_ordinary_names p"
  by (induction rule: point_step.induct)
    (auto simp: ranges_bin_def transition_bin_def illegal_default_sequence_def bin_array_def coverpoint_iff_def
      coverpoint_sample_shape bin_array_loop_fields dest!: wildcard_bin_Ok dest: add_bin_Ok)

text \<open>A cross only looks at the coverpoints' order, names and ordinary bins.\<close>

lemma bin_counts_cong:
  "length all = length all' \<Longrightarrow> (\<And>p. p \<in> set points \<Longrightarrow> cp_ordinary_names (all ! p) = cp_ordinary_names (all' ! p)) \<Longrightarrow>
   bin_counts all points = bin_counts all' points"
  by (auto simp: bin_counts_def ordinary_bin_count_def)

lemma cross_ok_cong:
  assumes "cross_ok all c" "length all' = length all" "cr_points c' = cr_points c" "length (cr_hits c') = length (cr_hits c)"
    and "\<And>p. p < length all \<Longrightarrow> cp_sealed (all ! p) \<Longrightarrow>
      cp_sealed (all' ! p) \<and> cp_ordinary_names (all' ! p) = cp_ordinary_names (all ! p)"
  shows "cross_ok all' c'"
proof -
  have "bin_counts all' (cr_points c) = bin_counts all (cr_points c)"
    using assms by (intro bin_counts_cong) (auto simp: cross_ok_def)
  then show ?thesis
    using assms by (simp add: cross_ok_def)
qed

lemma seal_points_shape:
  assumes "seal_points points all = (all', r)"
  shows "length all' = length all"
    and "\<And>i. i < length all \<Longrightarrow> all' ! i = all ! i \<or> all' ! i = seal (all ! i)"
    and "r = Ok () \<Longrightarrow> (\<forall>p \<in> set points. p < length all \<and> cp_sealed (all' ! p))"
proof -
  have shape: "length (fst (seal_points points all)) = length all \<and>
      (\<forall>i < length all. fst (seal_points points all) ! i = all ! i \<or> fst (seal_points points all) ! i = seal (all ! i)) \<and>
      (snd (seal_points points all) = Ok () \<longrightarrow> (\<forall>p \<in> set points. p < length all)) \<and>
      (snd (seal_points points all) = Ok () \<longrightarrow> (\<forall>p \<in> set points. cp_sealed (fst (seal_points points all) ! p))) \<and>
      (\<forall>i < length all. cp_sealed (all ! i) \<longrightarrow> cp_sealed (fst (seal_points points all) ! i))"
  proof (induction points arbitrary: all)
    case Nil
    show ?case by simp
  next
    case (Cons p points)
    show ?case
    proof (cases "p < length all")
      case False
      then show ?thesis by simp
    next
      case True
      have seal: "seal (seal x) = seal x" "cp_sealed (seal x)" for x :: "'a coverpoint"
        by (simp_all add: seal_def)
      from True Cons.IH [of "all[p := seal (all ! p)]"] show ?thesis
        by (auto simp: nth_list_update seal split: if_split_asm)
    qed
  qed
  with assms show "length all' = length all"
    "\<And>i. i < length all \<Longrightarrow> all' ! i = all ! i \<or> all' ! i = seal (all ! i)"
    "r = Ok () \<Longrightarrow> (\<forall>p \<in> set points. p < length all \<and> cp_sealed (all' ! p))"
    by auto
qed

lemma seal_fields [simp]:
  "cp_name (seal p) = cp_name p" "cp_ordinary_names (seal p) = cp_ordinary_names p" "cp_sealed (seal p)"
  "point_ok (seal p) = point_ok p"
  by (auto simp: seal_def point_ok_def ordinary_bin_count_def)

lemma sample_points_shape:
  "length (snd (sample_points s ps es n)) = length ps"
  "i < length ps \<Longrightarrow> snd (sample_points s ps es n) ! i =
     (if i < length es then snd (coverpoint_sample s ((es ! i) s) (ps ! i)) else ps ! i)"
proof (induction ps arbitrary: es n i)
  case (Cons p ps)
  { case 1 with Cons.IH show ?case by (cases es) (auto simp: split_def Let_def)
  next
    case 2 with Cons.IH show ?case by (cases es; cases i) (auto simp: split_def Let_def) }
qed auto

lemma sample_crosses_shape:
  "snd (sample_crosses s all cs n) = map (\<lambda>c. snd (cross_sample s all c)) cs"
  by (induction cs arbitrary: n) (auto simp: split_def Let_def)

lemma cross_sample_fields [simp]:
  "cr_name (snd (cross_sample s all c)) = cr_name c" "cr_points (snd (cross_sample s all c)) = cr_points c"
  "length (cr_hits (snd (cross_sample s all c))) = length (cr_hits c)"
  by (simp_all add: cross_sample_eq)

lemma list_all_update: "list_all P xs \<Longrightarrow> P x \<Longrightarrow> list_all P (xs[i := x])"
  using set_update_subset_insert [of xs i x] by (auto simp: list_all_iff)

lemma map_update_same: "i < length xs \<Longrightarrow> f x = f (xs ! i) \<Longrightarrow> map f (xs[i := x]) = map f xs"
  by (metis list_update_id map_update)

lemma group_ok_crosses:
  assumes "group_ok g" "length all = length (cg_points g)" "map cr_name cs = map cr_name (cg_crosses g)"
    and "\<And>i. i < length (cg_points g) \<Longrightarrow> cp_name (all ! i) = cp_name (cg_points g ! i)"
    and "list_all point_ok all"
    and "\<And>i. i < length cs \<Longrightarrow> cr_points (cs ! i) = cr_points (cg_crosses g ! i) \<and>
      length (cr_hits (cs ! i)) = length (cr_hits (cg_crosses g ! i))"
    and "\<And>p. p < length all \<Longrightarrow> cp_sealed (cg_points g ! p) \<Longrightarrow>
      cp_sealed (all ! p) \<and> cp_ordinary_names (all ! p) = cp_ordinary_names (cg_points g ! p)"
  shows "distinct (map cp_name all)" and "distinct (map cr_name cs)" and "list_all (cross_ok all) cs"
proof -
  have "map cp_name all = map cp_name (cg_points g)"
    using assms by (auto intro: nth_equalityI)
  then show "distinct (map cp_name all)" using assms(1) by (simp add: group_ok_def)
  show "distinct (map cr_name cs)" using assms(1,3) by (simp add: group_ok_def)
  have len: "length cs = length (cg_crosses g)"
    using assms(3) by (metis length_map)
  show "list_all (cross_ok all) cs"
    unfolding list_all_length
  proof (intro allI impI)
    fix i assume i: "i < length cs"
    with len assms(1) have "cross_ok (cg_points g) (cg_crosses g ! i)"
      by (simp add: group_ok_def list_all_length)
    then show "cross_ok all (cs ! i)"
      by (rule cross_ok_cong) (use assms i len in auto)
  qed
qed

lemma add_coverpoint_ok:
  assumes "group_ok g" "add_coverpoint name narrow extractor g = Ok h"
  shows "group_ok h"
proof -
  have new: "point_ok p \<and> cp_name p = name" if "coverpoint_init name narrow = Ok p" for p :: "'a coverpoint"
    using that by (auto simp: coverpoint_init_def point_ok_def bins_ok_def default_is_illegal_def ordinary_bins_def
        split: if_split_asm)
  obtain p where p: "coverpoint_init name narrow = Ok p" "name \<notin> cp_name ` set (cg_points g)"
    "h = g\<lparr>cg_points := cg_points g @ [p], cg_extractors := cg_extractors g @ [extractor]\<rparr>"
    using assms(2) by (auto simp: add_coverpoint_def result_bind_Ok_iff list_ex_iff split: if_split_asm)
  have "cross_ok (cg_points g @ [p]) c" if "c \<in> set (cg_crosses g)" for c
  proof -
    have ok: "cross_ok (cg_points g) c"
      using assms(1) that by (auto simp: group_ok_def list_all_iff)
    then have same: "(cg_points g @ [p]) ! i = cg_points g ! i" if "i \<in> set (cr_points c)" for i
      using that by (auto simp: cross_ok_def nth_append)
    then have "bin_counts (cg_points g @ [p]) (cr_points c) = bin_counts (cg_points g) (cr_points c)"
      by (auto simp: bin_counts_def)
    with ok same show ?thesis
      by (auto simp: cross_ok_def)
  qed
  with assms(1) p new [OF p(1)] show ?thesis
    by (auto simp: group_ok_def list_all_iff)
qed

lemma add_cross_ok:
  assumes "group_ok g"
  shows "group_ok (fst (add_cross name points g))"
proof -
  obtain all r where seal: "seal_points points (cg_points g) = (all, r)"
    by (cases "seal_points points (cg_points g)")
  note shape = seal_points_shape [OF seal]
  have names: "cp_name (all ! i) = cp_name (cg_points g ! i)" if "i < length (cg_points g)" for i
    using shape(2) [OF that] by auto
  have points: "list_all point_ok all"
    using assms shape by (fastforce simp: group_ok_def list_all_length)
  have kept: "cp_sealed (all ! i) \<and> cp_ordinary_names (all ! i) = cp_ordinary_names (cg_points g ! i)"
    if "i < length all" "cp_sealed (cg_points g ! i)" for i
    using shape(1) shape(2) [of i] that by auto
  note rest = group_ok_crosses [OF assms shape(1) refl names points _ kept, simplified]
  have sealed: "group_ok (g\<lparr>cg_points := all\<rparr>)"
    using assms shape(1) points rest by (auto simp: group_ok_def)
  have init: "cross_ok all (cross_init all name points)" if "r = Ok ()"
    using shape(1,3) that by (auto simp: cross_ok_def cross_init_def cross_init_size [simplified])
  have "r = Ok ()" if "is_ok r"
    using that by (cases r) auto
  moreover have "cr_name (cross_init all name points) = name"
    by (simp add: cross_init_def)
  ultimately show ?thesis
    using sealed init seal assms
    by (auto simp: add_cross_def group_ok_def list_ex_iff Let_def)
qed

lemma group_step_ok:
  assumes "group_step g h" "group_ok g"
  shows "group_ok h"
  using assms
proof (induction rule: group_step.induct)
  case (new_point name narrow extractor g h)
  then show ?case by (blast intro: add_coverpoint_ok)
next
  case (point i g p)
  let ?all = "(cg_points g)[i := p]"
  have ok: "point_ok p"
    using point by (auto simp: group_ok_def list_all_length intro: point_step_ok)
  then have points: "list_all point_ok ?all"
    using point by (auto simp: group_ok_def intro: list_all_update)
  have names: "cp_name (?all ! j) = cp_name (cg_points g ! j)" if "j < length (cg_points g)" for j
    using point that by (auto simp: nth_list_update point_step_name)
  have kept: "cp_sealed (?all ! j) \<and> cp_ordinary_names (?all ! j) = cp_ordinary_names (cg_points g ! j)"
    if "j < length ?all" "cp_sealed (cg_points g ! j)" for j
    using point that by (auto simp: nth_list_update dest: point_step_sealed)
  show ?case
    using point points group_ok_crosses [OF point(3) _ refl names points _ kept]
    by (auto simp: group_ok_def)
next
  case (new_cross g name points)
  then show ?case by (simp add: add_cross_ok)
next
  case (new_filter i g name selected illegal c)
  then have c: "cr_name c = cr_name (cg_crosses g ! i)" "cr_points c = cr_points (cg_crosses g ! i)"
    "cr_hits c = cr_hits (cg_crosses g ! i)"
    by (auto simp: add_filter_def split: if_split_asm)
  with new_filter show ?case
    using group_ok_crosses [OF new_filter(3), of "cg_points g" "(cg_crosses g)[i := c]"]
    by (auto simp: group_ok_def nth_list_update map_update_same)
next
  case (guard i g guard)
  then show ?case
    using group_ok_crosses [OF guard(2), of "cg_points g" "(cg_crosses g)[i := cross_iff guard (cg_crosses g ! i)]"]
    by (auto simp: group_ok_def nth_list_update map_update_same cross_iff_def)
next
  case (sample g s)
  let ?all = "snd (sample_points s (cg_points g) (cg_extractors g) 0)"
  have point: "?all ! i = snd (coverpoint_sample s ((cg_extractors g ! i) s) (cg_points g ! i))"
    if "i < length (cg_points g)" for i
    using sample that by (simp add: sample_points_shape group_ok_def)
  have points: "list_all point_ok ?all"
    using sample point by (auto simp: group_ok_def list_all_length sample_points_shape(1) intro: coverpoint_sample_ok)
  show ?case
    using sample points point group_ok_crosses [OF sample, of ?all "map (\<lambda>c. snd (cross_sample s ?all c)) (cg_crosses g)"]
    by (auto simp: covergroup_sample_def group_ok_def sample_points_shape(1) coverpoint_sample_shape sample_crosses_shape
        split_def Let_def comp_def)
qed

lemma reached_ok: "reached g \<Longrightarrow> group_ok g"
proof (induction rule: reached.induct)
  case (init name source_file source_line g)
  then show ?case by (auto simp: covergroup_init_def group_ok_def split: if_split_asm)
next
  case (step g h)
  then show ?case by (blast intro: group_step_ok)
qed

text \<open>In a well-formed covergroup a sample stays inside of the counters of a cross.\<close>

lemma hit_combination:
  assumes "list_all point_ok all" "cross_ok all c" "bins \<in> set (hit_combinations all c)"
  shows "combination (bin_counts all (cr_points c)) bins"
proof -
  have "bins ! i < ordinary_bin_count (all ! (cr_points c ! i))"
    if "i < length (cr_points c)" "bins ! i \<in> set (cp_last_hits (all ! (cr_points c ! i)))" for i
    using that assms(1,2) by (auto simp: cross_ok_def list_all_length point_ok_def)
  then show ?thesis
    using assms(3) by (auto simp: hit_combinations_def in_product_lists combination_def bin_counts_def list_all2_conv_all_nth)
qed

lemma distinct_hit_combinations:
  assumes "list_all point_ok all" "cross_ok all c"
  shows "distinct (hit_combinations all c)"
  unfolding hit_combinations_def
  by (rule distinct_product_lists) (use assms in \<open>auto simp: cross_ok_def list_all_length point_ok_def\<close>)

end
