(* ===== verification/CoverageRuns.thy ===== *)
theory CoverageRuns
  imports CoverageLemmas
begin

text \<open>
  Runs of samples. A covergroup without its counts (\<open>cleared\<close>) decides what a sample hits, if no
  coverpoint has transition bins; the counts then add up over runs, which is what merging relies on.
\<close>

section \<open>Coverpoints, crosses and groups without their counts\<close>

definition clear_point :: "'s coverpoint \<Rightarrow> 's coverpoint" where
  "clear_point p =
     p\<lparr>cp_bins := map unhit (cp_bins p), cp_last_hits := [], cp_samples := 0, cp_illegal_hits := 0,
       cp_previous := None, cp_sampled := False\<rparr>"

definition clear_cross :: "'s cross \<Rightarrow> 's cross" where
  "clear_cross c =
     c\<lparr>cr_hits := replicate (length (cr_hits c)) 0, cr_filters := map (\<lambda>f. f\<lparr>fl_hits := 0\<rparr>) (cr_filters c),
       cr_illegal_hits := 0\<rparr>"

definition cleared :: "'s covergroup \<Rightarrow> 's covergroup" where
  "cleared g =
     g\<lparr>cg_points := map clear_point (cg_points g), cg_crosses := map clear_cross (cg_crosses g),
       cg_samples := 0, cg_illegal_hits := 0, cg_sampled := False\<rparr>"

lemma clear_point_fields [simp]:
  "cp_name (clear_point p) = cp_name p" "cp_narrow (clear_point p) = cp_narrow p"
  "cp_ordinary_names (clear_point p) = cp_ordinary_names p" "cp_guard (clear_point p) = cp_guard p"
  "cp_sealed (clear_point p) = cp_sealed p" "cp_bins (clear_point p) = map unhit (cp_bins p)"
  "clear_point (clear_point p) = clear_point p"
  by (simp_all add: clear_point_def unhit_def comp_def)

lemma clear_cross_fields [simp]:
  "cr_name (clear_cross c) = cr_name c" "cr_points (clear_cross c) = cr_points c"
  "cr_guard (clear_cross c) = cr_guard c" "length (cr_hits (clear_cross c)) = length (cr_hits c)"
  "length (cr_filters (clear_cross c)) = length (cr_filters c)" "cr_illegal_hits (clear_cross c) = 0"
  "clear_cross (clear_cross c) = clear_cross c"
  by (simp_all add: clear_cross_def comp_def)

lemma clear_cross_filters [simp]:
  "map fl_select (cr_filters (clear_cross c)) = map fl_select (cr_filters c)"
  "map fl_illegal (cr_filters (clear_cross c)) = map fl_illegal (cr_filters c)"
  "map fl_name (cr_filters (clear_cross c)) = map fl_name (cr_filters c)"
  by (simp_all add: clear_cross_def)

lemma unhit_matches [simp]:
  "matches_from (unhit b) v = matches_from b v" "matches_to (unhit b) v = matches_to b v"
  "excludes v (unhit b) = excludes v b" "ordinary_hit v (unhit b) = ordinary_hit v b"
  "transition_hit previous v (unhit b) = transition_hit previous v b"
  by (simp_all add: matches_from_def matches_to_def unhit_def excludes_def ordinary_hit_def transition_hit_def)

text \<open>Coverpoints without transition bins have no history.\<close>

definition stateless :: "bin list \<Rightarrow> bool" where
  "stateless bs = ((\<forall>b \<in> set bs. bn_kind b \<noteq> TransitionBin) \<and> default_is_illegal bs \<and> length bs < 2 ^ 32)"

lemma counted_unhit:
  assumes "stateless bs" "b \<in> set bs"
  shows "counted None v (map unhit bs) (unhit b) = counted previous v bs b"
  using assms by (auto simp: counted_def stateless_def barred_def missed_def transition_hit_def)

lemma stateless_unhit: "stateless bs \<Longrightarrow> stateless (map unhit bs)"
  by (auto simp: stateless_def default_is_illegal_def)

lemma illegal_count_unhit:
  assumes "stateless bs"
  shows "illegal_count None v (map unhit bs) = illegal_count previous v bs"
proof -
  have "filter (\<lambda>b. counted None v (map unhit bs) (unhit b) \<and> bn_kind b = IllegalBin) bs =
      filter (\<lambda>b. counted previous v bs b \<and> bn_kind b = IllegalBin) bs"
    using assms by (intro filter_cong) (auto simp: counted_unhit [where previous = previous])
  then show ?thesis
    by (simp add: illegal_count_def count_where_def filter_map comp_def)
qed

lemma point_hits_unhit: "point_hits v (map unhit bs) = point_hits v bs"
proof -
  have "ordinary_bins (map unhit bs) = map unhit (ordinary_bins bs)"
    by (induction bs) (auto simp: ordinary_bins_def)
  then show ?thesis
    by (auto simp: point_hits_def barred_def intro!: filter_cong)
qed

lemma coverpoint_sample_clear:
  assumes "stateless (cp_bins p)"
  shows "fst (coverpoint_sample s v (clear_point p)) = fst (coverpoint_sample s v p)"
    and "cp_last_hits (snd (coverpoint_sample s v (clear_point p))) = cp_last_hits (snd (coverpoint_sample s v p))"
    and "clear_point (snd (coverpoint_sample s v p)) = clear_point p"
    and "point_view (snd (coverpoint_sample s v p)) =
      merge_point (point_view p) (point_view (snd (coverpoint_sample s v (clear_point p))))"
proof -
  have small: "length (cp_bins p) < 2 ^ 32" "default_is_illegal (cp_bins p)"
    "length (map unhit (cp_bins p)) < 2 ^ 32" "default_is_illegal (map unhit (cp_bins p))"
    using assms stateless_unhit [OF assms] by (auto simp: stateless_def)
  note eq = coverpoint_sample_eq [of p s v] coverpoint_sample_eq [of "clear_point p" s v]
  have hits: "map (\<lambda>(b, c). b\<lparr>bs_hits := bs_hits b + bs_hits c\<rparr>)
        (zip (map (\<lambda>b. \<lparr>bs_name = bn_name b, bs_kind = bn_kind b, bs_hits = bn_hits b\<rparr>) (cp_bins p))
             (map (\<lambda>b. \<lparr>bs_name = bn_name b, bs_kind = bn_kind b, bs_hits = bn_hits b\<rparr>)
               (hit_where (counted None v (map unhit (cp_bins p))) (map unhit (cp_bins p))))) =
      map (\<lambda>b. \<lparr>bs_name = bn_name b, bs_kind = bn_kind b, bs_hits = bn_hits b\<rparr>)
        (hit_where (counted (cp_previous p) v (cp_bins p)) (cp_bins p))"
    using counted_unhit [OF assms, of _ v "cp_previous p"]
    by (auto simp: hit_where_def unhit_def intro!: nth_equalityI)
  have none: "map (\<lambda>(b, c). b\<lparr>bs_hits := bs_hits b + bs_hits c\<rparr>)
        (zip (map (\<lambda>b. \<lparr>bs_name = bn_name b, bs_kind = bn_kind b, bs_hits = bn_hits b\<rparr>) (cp_bins p))
             (map (\<lambda>b. \<lparr>bs_name = bn_name b, bs_kind = bn_kind b, bs_hits = bn_hits b\<rparr>) (map unhit (cp_bins p)))) =
      map (\<lambda>b. \<lparr>bs_name = bn_name b, bs_kind = bn_kind b, bs_hits = bn_hits b\<rparr>) (cp_bins p)"
    by (auto simp: unhit_def intro!: nth_equalityI)
  show "fst (coverpoint_sample s v (clear_point p)) = fst (coverpoint_sample s v p)"
    "cp_last_hits (snd (coverpoint_sample s v (clear_point p))) = cp_last_hits (snd (coverpoint_sample s v p))"
    using small by (simp_all add: eq illegal_count_unhit [OF assms, where previous = "cp_previous p"] point_hits_unhit)
      (auto simp: clear_point_def illegal_count_unhit [OF assms, where previous = "cp_previous p"])
  show "clear_point (snd (coverpoint_sample s v p)) = clear_point p"
    using small by (simp add: eq) (simp add: clear_point_def)
  show "point_view (snd (coverpoint_sample s v p)) =
      merge_point (point_view p) (point_view (snd (coverpoint_sample s v (clear_point p))))"
    using small hits none
    by (simp add: eq) (simp add: point_view_def merge_point_def clear_point_def illegal_count_unhit [OF assms, where previous = "cp_previous p"])
qed

section \<open>Crosses and the coverpoints they read\<close>

lemma nth_past_end: "length xs \<le> n \<Longrightarrow> xs ! n = [] ! (n - length xs)"
proof (induction xs arbitrary: n)
  case (Cons x xs)
  then show ?case by (cases n) simp_all
qed simp

lemma nth_beyond: "length xs \<le> n \<Longrightarrow> length ys = length xs \<Longrightarrow> xs ! n = ys ! n"
  using nth_past_end [of xs n] nth_past_end [of ys n] by simp

lemma same_points:
  assumes "map clear_point all = map clear_point all'"
  shows "clear_point (all ! p) = clear_point (all' ! p)"
proof (cases "p < length all")
  case True
  with assms show ?thesis by (metis length_map nth_map)
next
  case False
  then have "all ! p = all' ! p"
    using map_eq_imp_length_eq [OF assms] by (intro nth_beyond) simp_all
  then show ?thesis by simp
qed

lemma same_point_fields:
  assumes "map clear_point all = map clear_point all'"
  shows "cp_name (all ! p) = cp_name (all' ! p)" "cp_narrow (all ! p) = cp_narrow (all' ! p)"
    "cp_ordinary_names (all ! p) = cp_ordinary_names (all' ! p)"
    "map unhit (cp_bins (all ! p)) = map unhit (cp_bins (all' ! p))"
  using same_points [OF assms, of p] clear_point_fields(1-3,6) by metis+

lemma accepts_unhit:
  fixes p q :: "'s coverpoint"
  shows "map unhit (cp_bins p) = map unhit (cp_bins q) \<Longrightarrow> cp_narrow p = cp_narrow q \<Longrightarrow>
   ordinary_bin_accepts p i v = ordinary_bin_accepts q i v"
proof -
  have unhit: "ordinary_bins (map unhit bs) = map unhit (ordinary_bins bs)" for bs
    by (induction bs) (auto simp: ordinary_bins_def)
  have "ordinary_bin_accepts r i v = (i < length (ordinary_bins (map unhit (cp_bins r))) \<and>
      matches_from (ordinary_bins (map unhit (cp_bins r)) ! i) (cp_narrow r v))" for r :: "'s coverpoint"
    unfolding unhit by (auto simp: ordinary_bin_accepts_def ordinary_bins_def Let_def)
  then show "ordinary_bin_accepts p i v = ordinary_bin_accepts q i v"
    if "map unhit (cp_bins p) = map unhit (cp_bins q)" "cp_narrow p = cp_narrow q"
    by (simp only: that)
qed

lemma same_matches:
  assumes "map clear_point all = map clear_point all'"
  shows "matches_cross all points bins s = matches_cross all' points bins s"
proof (induction s)
  case (BinsOf point vs)
  have "ordinary_bin_accepts (all ! point) i v = ordinary_bin_accepts (all' ! point) i v" for i v
    by (intro accepts_unhit same_point_fields assms)
  then have "ordinary_bin_accepts (all ! point) = ordinary_bin_accepts (all' ! point)" by blast
  then show ?case by (simp split: option.splits)
next
  case (Where description test)
  have "cross_bin_view all points bins = cross_bin_view all' points bins"
    by (simp add: cross_bin_view_def same_point_fields [OF assms])
  then show ?case by simp
qed auto

lemma same_describe:
  assumes "map clear_point all = map clear_point all'"
  shows "describe all s = describe all' s"
  by (induction s) (auto simp: same_point_fields [OF assms])

lemma same_bin_counts:
  assumes "map clear_point all = map clear_point all'"
  shows "bin_counts all points = bin_counts all' points"
  by (simp add: bin_counts_def ordinary_bin_count_def same_point_fields [OF assms])

lemma same_excluded:
  assumes "map clear_point all = map clear_point all'" "clear_cross c = clear_cross d"
  shows "excluded_by all c bins = excluded_by all' d bins"
proof -
  have eq: "excluded_by all (clear_cross c) bins = excluded_by all c bins" for c :: "'a cross" and all
    by (rule excluded_by_cong) (simp_all add: clear_cross_def)
  have "excluded_loop all points bins fs i m = excluded_loop all' points bins fs i m" for points fs i m
    by (induction fs arbitrary: i m) (simp_all add: same_matches [OF assms(1)])
  then have "excluded_by all (clear_cross c) bins = excluded_by all' (clear_cross d) bins"
    by (simp add: excluded_by_def assms(2))
  then show ?thesis by (simp only: eq)
qed

section \<open>A sample is added to the counts\<close>

definition combination_entry :: "'s coverpoint list \<Rightarrow> 's cross \<Rightarrow> nat list \<Rightarrow> cross_bin_snapshot" where
  "combination_entry all c bins =
     \<lparr>xb_bins = map (\<lambda>(p, b). cp_ordinary_names (all ! p) ! b) (zip (cr_points c) bins),
      xb_hits = cr_hits c ! index_of (bin_counts all (cr_points c)) bins\<rparr>"

definition counted_combinations :: "'s coverpoint list \<Rightarrow> 's cross \<Rightarrow> nat list list" where
  "counted_combinations all c =
     filter (\<lambda>bins. excluded_by all c bins = None)
       (product_lists (map (\<lambda>n. [0..<n]) (bin_counts all (cr_points c))))"

lemma collect_eq:
  "collect all c bins counts result =
     result @ map (combination_entry all c) (filter (\<lambda>b. excluded_by all c b = None)
       (map ((@) bins) (product_lists (map (\<lambda>n. [0..<n]) counts))))"
proof (induction counts arbitrary: bins result)
  case Nil
  show ?case by (simp add: combination_entry_def)
next
  case (Cons n counts)
  have assoc: "(@) (bins @ [b]) = (\<lambda>xs. bins @ b # xs)" for b
    by auto
  have "fold (\<lambda>b. collect all c (bins @ [b]) counts) bs result =
      result @ map (combination_entry all c) (filter (\<lambda>b. excluded_by all c b = None)
        (concat (map (\<lambda>b. map ((@) (bins @ [b])) (product_lists (map (\<lambda>n. [0..<n]) counts))) bs)))" for bs
    by (induction bs arbitrary: result) (simp_all add: Cons.IH assoc)
  moreover have "concat (map (\<lambda>b. map ((@) (bins @ [b])) (product_lists (map (\<lambda>n. [0..<n]) counts))) bs) =
      map ((@) bins) (concat (map (\<lambda>b. map (Cons b) (product_lists (map (\<lambda>n. [0..<n]) counts))) bs))" for bs
    by (induction bs) (simp_all add: comp_def assoc)
  ultimately show ?case by simp
qed

lemma cross_view_bins: "xs_bins (cross_view all c) = map (combination_entry all c) (counted_combinations all c)"
  by (simp add: cross_view_def collect_eq counted_combinations_def map_idI)

lemma counted_combination: "bins \<in> set (counted_combinations all c) \<Longrightarrow> combination (bin_counts all (cr_points c)) bins"
  by (auto simp: counted_combinations_def in_product_lists combination_def list_all2_conv_all_nth)

lemma same_combinations:
  assumes "map clear_point all = map clear_point all'" "clear_cross c = clear_cross d"
  shows "counted_combinations all c = counted_combinations all' d"
proof -
  have "cr_points c = cr_points d"
    using assms(2) by (metis clear_cross_fields(2))
  then show ?thesis
    using same_excluded [OF assms] same_bin_counts [OF assms(1)] by (simp add: counted_combinations_def)
qed

definition cross_add :: "cross_snapshot \<Rightarrow> cross_snapshot \<Rightarrow> cross_snapshot" where
  "cross_add c d = (merge_cross c d)\<lparr>xs_illegal_hits := xs_illegal_hits c + xs_illegal_hits d\<rparr>"

lemma clear_cross_after [simp]: "clear_cross (cross_after all L c) = clear_cross c"
  by (rule cross.equality) (auto simp: clear_cross_def cross_after_def intro: nth_equalityI)

lemma cross_view_texts:
  assumes "map clear_point all = map clear_point all'" "clear_cross c = clear_cross d"
  shows "xs_name (cross_view all c) = xs_name (cross_view all' d)"
    "xs_points (cross_view all c) = xs_points (cross_view all' d)"
    "xs_ignored (cross_view all c) = xs_ignored (cross_view all' d)"
    "xs_illegal (cross_view all c) = xs_illegal (cross_view all' d)"
    "map xb_bins (xs_bins (cross_view all c)) = map xb_bins (xs_bins (cross_view all' d))"
proof -
  let ?strip = "map (\<lambda>f. f\<lparr>fl_hits := 0\<rparr>)"
  have points: "cr_points c = cr_points d" and name: "cr_name c = cr_name d"
    using assms(2) by (metis clear_cross_fields(1,2))+
  have filters: "?strip (cr_filters c) = ?strip (cr_filters d)"
    using assms(2) [THEN arg_cong, of cr_filters] by (simp add: clear_cross_def)
  have t: "map (filter_text all) (filter (\<lambda>f. fl_illegal f = b) fs) =
      map (filter_text all) (filter (\<lambda>f. fl_illegal f = b) (?strip fs))" for all :: "'a coverpoint list" and b fs
    by (induction fs) (auto simp: filter_text_def)
  have text': "filter_text all = filter_text all'"
    using same_describe [OF assms(1)] by (auto simp: filter_text_def)
  have texts: "map (filter_text all) (filter (\<lambda>f. fl_illegal f = b) (cr_filters c)) =
      map (filter_text all') (filter (\<lambda>f. fl_illegal f = b) (cr_filters d))" for b
    using t [of all b "cr_filters c"] t [of all b "cr_filters d"] filters text' by simp
  show "xs_name (cross_view all c) = xs_name (cross_view all' d)"
    "xs_points (cross_view all c) = xs_points (cross_view all' d)"
    "xs_ignored (cross_view all c) = xs_ignored (cross_view all' d)"
    "xs_illegal (cross_view all c) = xs_illegal (cross_view all' d)"
    using texts [of False] texts [of True] by (simp_all add: cross_view_def name points same_point_fields [OF assms(1)])
  show "map xb_bins (xs_bins (cross_view all c)) = map xb_bins (xs_bins (cross_view all' d))"
    using same_combinations [OF assms]
    by (simp add: cross_view_bins comp_def combination_entry_def points same_point_fields [OF assms(1)])
qed

lemma cross_view_hits: "map xb_hits (xs_bins (cross_view all c)) =
    map (\<lambda>bins. cr_hits c ! index_of (bin_counts all (cr_points c)) bins) (counted_combinations all c)"
  by (simp add: cross_view_bins comp_def combination_entry_def)

lemma cross_bins_eqI:
  "map xb_bins xs = map xb_bins ys \<Longrightarrow> map xb_hits xs = map xb_hits ys \<Longrightarrow> xs = ys"
  for xs ys :: "cross_bin_snapshot list"
  by (induction xs ys rule: list_induct2') auto

lemma cross_snapshot_eqI:
  fixes c d :: cross_snapshot
  assumes "xs_name c = xs_name d" "xs_points c = xs_points d" "xs_ignored c = xs_ignored d" "xs_illegal c = xs_illegal d"
    "xs_illegal_hits c = xs_illegal_hits d" "map xb_bins (xs_bins c) = map xb_bins (xs_bins d)"
    "map xb_hits (xs_bins c) = map xb_hits (xs_bins d)"
  shows "c = d"
  using assms cross_bins_eqI by (intro cross_snapshot.equality) auto

lemma cross_add_fields [simp]:
  "xs_name (cross_add c d) = xs_name c" "xs_points (cross_add c d) = xs_points c" "xs_ignored (cross_add c d) = xs_ignored c"
  "xs_illegal (cross_add c d) = xs_illegal c" "xs_illegal_hits (cross_add c d) = xs_illegal_hits c + xs_illegal_hits d"
  by (simp_all add: cross_add_def merge_cross_def)

lemma cross_add_bins:
  "length (xs_bins c) = length (xs_bins d) \<Longrightarrow> map xb_bins (xs_bins (cross_add c d)) = map xb_bins (xs_bins c)"
  "map xb_hits (xs_bins (cross_add c d)) =
     map (\<lambda>(x, y). x + y) (zip (map xb_hits (xs_bins c)) (map xb_hits (xs_bins d)))"
  by (auto simp: cross_add_def merge_cross_def intro: nth_equalityI)

lemma cross_sample_clear:
  assumes same: "map clear_point all = map clear_point all'" "map clear_point all = map clear_point all0"
    and hits: "\<And>p. cp_last_hits (all ! p) = cp_last_hits (all' ! p)"
    and ok: "length (cr_hits c) = prod_list (bin_counts all (cr_points c))"
  shows "fst (cross_sample s all' (clear_cross c)) = fst (cross_sample s all c)"
    and "cross_view all (snd (cross_sample s all c)) =
      cross_add (cross_view all0 c) (cross_view all' (snd (cross_sample s all' (clear_cross c))))"
proof -
  let ?L = "hit_combinations all c"
  have L: "hit_combinations all' (clear_cross c) = ?L"
    by (simp add: hit_combinations_def hits)
  have clear: "clear_cross c = clear_cross (clear_cross c)" by simp
  have ex: "excluded_by all' (clear_cross c) b = excluded_by all c b" for b
    using same_excluded [OF same(1) clear] by simp
  have illegal: "fl_illegal (cr_filters (clear_cross c) ! f) = fl_illegal (cr_filters c ! f)" if "f < length (cr_filters c)" for f
    using that by (simp add: clear_cross_def)
  have count: "illegal_combinations all' (clear_cross c) ?L = illegal_combinations all c ?L"
    using excluded_by_Some [of all c]
    by (auto simp: illegal_combinations_def ex illegal intro!: arg_cong [of _ _ length] filter_cong)
  show "fst (cross_sample s all' (clear_cross c)) = fst (cross_sample s all c)"
    by (simp add: cross_sample_eq L count)
  have counts: "bin_counts all' points = bin_counts all points" "bin_counts all0 points = bin_counts all points" for points
    using same_bin_counts same by metis+
  have after_illegal: "cr_illegal_hits (cross_after all L c) = cr_illegal_hits c + of_nat (illegal_combinations all c L)"
    for all :: "'a coverpoint list" and L c
    by (simp add: cross_after_def illegal_combinations_def)
  let ?c = "snd (cross_sample s all c)" and ?d = "snd (cross_sample s all' (clear_cross c))"
  have cc: "clear_cross ?c = clear_cross c" and cd: "clear_cross ?d = clear_cross c"
    by (simp_all add: cross_sample_eq)
  have combos: "counted_combinations all ?c = counted_combinations all c"
    "counted_combinations all0 c = counted_combinations all c" "counted_combinations all' ?d = counted_combinations all c"
    by (rule same_combinations; use same cc cd in simp)+
  note same0 = trans [OF same(2) [symmetric] same(1)]
  note texts0 = cross_view_texts [OF same(2) cc]
  have len: "length (xs_bins (cross_view all0 c)) = length (xs_bins (cross_view all' ?d))"
    by (simp add: cross_view_bins combos)
  have hit: "cr_hits ?c ! i = cr_hits c ! i + cr_hits ?d ! i" if "i < length (cr_hits c)" for i
  proof -
    have "cr_hits (clear_cross c) ! i = 0"
      using that by (simp add: clear_cross_def)
    then show ?thesis
      using that by (simp add: cross_sample_eq L) (simp add: cross_after_def ex counts)
  qed
  show "cross_view all ?c = cross_add (cross_view all0 c) (cross_view all' ?d)"
  proof (rule cross_snapshot_eqI)
    show "map xb_hits (xs_bins (cross_view all ?c)) =
        map xb_hits (xs_bins (cross_add (cross_view all0 c) (cross_view all' ?d)))"
      using hit index_of_bound [OF counted_combination, of _ all c] ok
      by (auto simp: cross_add_bins cross_view_hits combos counts zip_map_map map_zip_map2 zip_same_conv_map comp_def)
    show "xs_illegal_hits (cross_view all ?c) = xs_illegal_hits (cross_add (cross_view all0 c) (cross_view all' ?d))"
      by (simp add: cross_view_def cross_sample_eq L after_illegal count)
  qed (use texts0 len in \<open>simp_all add: cross_add_bins\<close>)
qed

section \<open>Whole covergroups\<close>

definition snapshot_add :: "coverage_snapshot \<Rightarrow> coverage_snapshot \<Rightarrow> coverage_snapshot" where
  "snapshot_add sn other =
     sn\<lparr>sn_samples := sn_samples sn + sn_samples other, sn_illegal_hits := sn_illegal_hits sn + sn_illegal_hits other,
        sn_points := map (\<lambda>(p, q). merge_point p q) (zip (sn_points sn) (sn_points other)),
        sn_crosses := map (\<lambda>(c, d). cross_add c d) (zip (sn_crosses sn) (sn_crosses other))\<rparr>"

definition group_stateless :: "'s covergroup \<Rightarrow> bool" where
  "group_stateless g = list_all (\<lambda>p. stateless (cp_bins p)) (cg_points g)"

lemma sample_points_clear:
  "list_all (\<lambda>p. stateless (cp_bins p)) ps \<Longrightarrow> length es = length ps \<Longrightarrow>
   fst (sample_points s (map clear_point ps) es n) = fst (sample_points s ps es n)"
  by (induction ps es arbitrary: n rule: list_induct2')
    (auto simp: split_def Let_def coverpoint_sample_clear(1))

lemma sample_crosses_fst:
  "fst (sample_crosses s all cs n) = n + sum_list (map (\<lambda>c. fst (cross_sample s all c)) cs)"
  by (induction cs arbitrary: n) (auto simp: split_def Let_def add.assoc)

lemma covergroup_sample_clear:
  assumes ok: "group_ok g" and "group_stateless g"
  shows "cleared (snd (covergroup_sample s g)) = cleared g"
    and "snapshot (snd (covergroup_sample s g)) =
      snapshot_add (snapshot g) (snapshot (snd (covergroup_sample s (cleared g))))"
proof -
  let ?n = "length (cg_points g)" and ?es = "cg_extractors g"
  let ?all = "snd (sample_points s (cg_points g) ?es 0)"
  let ?all' = "snd (sample_points s (map clear_point (cg_points g)) ?es 0)"
  have es: "length ?es = ?n" using ok by (simp add: group_ok_def)
  have state: "stateless (cp_bins (cg_points g ! i))" if "i < ?n" for i
    using assms(2) that by (auto simp: group_stateless_def list_all_length)
  have len: "length ?all = ?n" "length ?all' = ?n"
    by (simp_all add: sample_points_shape(1))
  have all: "?all ! i = snd (coverpoint_sample s ((?es ! i) s) (cg_points g ! i))"
    "?all' ! i = snd (coverpoint_sample s ((?es ! i) s) (clear_point (cg_points g ! i)))" if "i < ?n" for i
    using that es by (simp_all add: sample_points_shape(2))
  have clear: "clear_point (?all ! i) = clear_point (cg_points g ! i)"
    "clear_point (?all' ! i) = clear_point (cg_points g ! i)" if "i < ?n" for i
    using that state coverpoint_sample_clear(3) [of "cg_points g ! i"] coverpoint_sample_clear(3) [of "clear_point (cg_points g ! i)"]
    by (simp_all add: all stateless_unhit)
  have same: "map clear_point ?all = map clear_point ?all'" "map clear_point ?all = map clear_point (cg_points g)"
    using clear len by (auto intro: nth_equalityI)
  have hits: "cp_last_hits (?all ! i) = cp_last_hits (?all' ! i)" for i
  proof (cases "i < ?n")
    case True
    then show ?thesis using state by (simp add: all coverpoint_sample_clear(2))
  next
    case False
    then show ?thesis using len nth_beyond [of ?all i ?all'] by simp
  qed
  have size: "length (cr_hits c) = prod_list (bin_counts ?all (cr_points c))" if "c \<in> set (cg_crosses g)" for c
    using ok that same_bin_counts [OF same(2)] by (auto simp: group_ok_def list_all_iff cross_ok_def)
  note crossed = cross_sample_clear [OF same hits size]
  show "cleared (snd (covergroup_sample s g)) = cleared g"
    by (auto simp: cleared_def covergroup_sample_def split_def Let_def same(2) sample_crosses_shape cross_sample_eq comp_def)
  have points: "map point_view ?all =
      map (\<lambda>(p, q). merge_point p q) (zip (map point_view (cg_points g)) (map point_view ?all'))"
    using len state by (auto simp: all coverpoint_sample_clear(4) intro!: nth_equalityI)
  have illegal: "fst (sample_crosses s ?all (cg_crosses g) n) = fst (sample_crosses s ?all' (map clear_cross (cg_crosses g)) n)" for n
    using crossed(1) by (auto simp: sample_crosses_fst comp_def intro!: arg_cong [of _ _ sum_list])
  have crosses: "map (cross_view ?all) (map (\<lambda>c. snd (cross_sample s ?all c)) (cg_crosses g)) =
      map (\<lambda>(c, d). cross_add c d) (zip (map (cross_view (cg_points g)) (cg_crosses g))
        (map (cross_view ?all') (map (\<lambda>c. snd (cross_sample s ?all' (clear_cross c))) (cg_crosses g))))"
    using crossed(2) by (auto simp: comp_def intro!: nth_equalityI)
  have points_illegal: "fst (sample_points s (map clear_point (cg_points g)) ?es 0) = fst (sample_points s (cg_points g) ?es 0)"
    using assms(2) es by (intro sample_points_clear) (auto simp: group_stateless_def)
  show "snapshot (snd (covergroup_sample s g)) =
      snapshot_add (snapshot g) (snapshot (snd (covergroup_sample s (cleared g))))"
    using points crosses illegal points_illegal
    by (simp add: snapshot_def snapshot_add_def covergroup_sample_def split_def Let_def cleared_def sample_crosses_shape comp_def)
qed

section \<open>Runs\<close>

definition run_samples :: "'s list \<Rightarrow> 's covergroup \<Rightarrow> 's covergroup" where
  "run_samples ss g = fold (\<lambda>s g. snd (covergroup_sample s g)) ss g"

lemma run_samples_Nil [simp]: "run_samples [] g = g"
  by (simp add: run_samples_def)

lemma run_samples_snoc [simp]: "run_samples (ss @ [s]) g = snd (covergroup_sample s (run_samples ss g))"
  by (simp add: run_samples_def)

lemma run_samples_append: "run_samples (ss @ ts) g = run_samples ts (run_samples ss g)"
  by (simp add: run_samples_def)

lemma sample_ok: "group_ok g \<Longrightarrow> group_ok (snd (covergroup_sample s g))"
  by (blast intro: group_step_ok group_step.sample)

lemma run_samples_ok: "group_ok g \<Longrightarrow> group_ok (run_samples ss g)"
  by (induction ss rule: rev_induct) (auto intro: sample_ok)

lemma stateless_cleared: "group_stateless (cleared g) = group_stateless g"
proof -
  have "stateless (map unhit bs) = stateless bs" for bs
    by (auto simp: stateless_def default_is_illegal_def)
  then show ?thesis by (simp add: group_stateless_def cleared_def list_all_length)
qed

lemma cleared_cleared [simp]: "cleared (cleared g) = cleared g"
  by (simp add: cleared_def comp_def)

lemma group_ok_cleared: "group_ok g \<Longrightarrow> group_ok (cleared g)"
proof -
  assume ok: "group_ok g"
  have "bins_ok (map unhit bs) = bins_ok bs" for bs
    by (rule bins_ok_unhit) (simp add: comp_def unhit_def)
  moreover have "map bn_name (ordinary_bins (map unhit bs)) = map bn_name (ordinary_bins bs)" for bs
    by (induction bs) (auto simp: ordinary_bins_def)
  ultimately have points: "list_all point_ok (map clear_point (cg_points g))"
    using ok by (auto simp: group_ok_def list_all_iff point_ok_def clear_point_def)
  have "cross_ok (map clear_point (cg_points g)) (clear_cross c)" if "c \<in> set (cg_crosses g)" for c
  proof -
    have "cross_ok (cg_points g) c"
      using ok that by (auto simp: group_ok_def list_all_iff)
    then show ?thesis
      by (rule cross_ok_cong) simp_all
  qed
  then have "list_all (cross_ok (map clear_point (cg_points g))) (map clear_cross (cg_crosses g))"
    by (simp add: list_all_iff)
  then show "group_ok (cleared g)"
    using ok points unfolding group_ok_def cleared_def by (simp add: comp_def)
qed

lemma run_samples_cleared:
  "group_ok g \<Longrightarrow> group_stateless g \<Longrightarrow> cleared (run_samples ss g) = cleared g \<and> group_stateless (run_samples ss g)"
proof (induction ss rule: rev_induct)
  case (snoc s ss)
  then have "cleared (run_samples (ss @ [s]) g) = cleared g"
    using covergroup_sample_clear(1) [OF run_samples_ok [OF snoc.prems(1)], of ss s] by simp
  with snoc.prems show ?case by (metis stateless_cleared)
qed simp

lemma merge_point_assoc:
  "length (ps_bins p) = length (ps_bins q) \<Longrightarrow> length (ps_bins q) = length (ps_bins r) \<Longrightarrow>
   merge_point (merge_point p q) r = merge_point p (merge_point q r)"
  by (rule point_snapshot.equality) (auto simp: merge_point_def add.assoc intro!: nth_equalityI)

lemma cross_add_assoc:
  "length (xs_bins p) = length (xs_bins q) \<Longrightarrow> length (xs_bins q) = length (xs_bins r) \<Longrightarrow>
   cross_add (cross_add p q) r = cross_add p (cross_add q r)"
  by (rule cross_snapshot.equality) (auto simp: cross_add_def merge_cross_def add.assoc intro!: nth_equalityI)

text \<open>Two snapshots of the same covergroup have the same model.\<close>

lemma cleared_same:
  assumes "cleared g = cleared h"
  shows "map clear_point (cg_points g) = map clear_point (cg_points h)"
    "map clear_cross (cg_crosses g) = map clear_cross (cg_crosses h)" "cg_name g = cg_name h"
  using assms [THEN arg_cong, of cg_points] assms [THEN arg_cong, of cg_crosses] assms [THEN arg_cong, of cg_name]
  by (simp_all add: cleared_def)

lemma cleared_shape:
  assumes "cleared g = cleared h"
  shows "length (cg_points g) = length (cg_points h)" "length (cg_crosses g) = length (cg_crosses h)"
    "i < length (cg_points h) \<Longrightarrow> same_point (point_view (cg_points g ! i)) (point_view (cg_points h ! i))"
    "i < length (cg_crosses h) \<Longrightarrow>
      same_cross (cross_view (cg_points g) (cg_crosses g ! i)) (cross_view (cg_points h) (cg_crosses h ! i))"
proof -
  note same = cleared_same [OF assms]
  show len: "length (cg_points g) = length (cg_points h)" "length (cg_crosses g) = length (cg_crosses h)"
    using same(1,2) by (auto dest: map_eq_imp_length_eq)
  show "same_point (point_view (cg_points g ! i)) (point_view (cg_points h ! i))" if "i < length (cg_points h)"
  proof -
    note fields = same_point_fields [OF same(1), of i]
    have bins: "length (cp_bins (cg_points g ! i)) = length (cp_bins (cg_points h ! i))"
      using fields(4) by (rule map_eq_imp_length_eq)
    have "bn_name (cp_bins (cg_points g ! i) ! j) = bn_name (cp_bins (cg_points h ! i) ! j) \<and>
        bn_kind (cp_bins (cg_points g ! i) ! j) = bn_kind (cp_bins (cg_points h ! i) ! j)"
      if "j < length (cp_bins (cg_points h ! i))" for j
      using that bins fields(4) by (metis nth_map unhit_fields(1,2))
    with fields bins show ?thesis
      by (simp add: same_point_def point_view_def list_all_length)
  qed
  show "same_cross (cross_view (cg_points g) (cg_crosses g ! i)) (cross_view (cg_points h) (cg_crosses h ! i))"
    if i: "i < length (cg_crosses h)"
  proof -
    have c: "clear_cross (cg_crosses g ! i) = clear_cross (cg_crosses h ! i)"
      using same(2) i len by (metis nth_map)
    note texts = cross_view_texts [OF same(1) c]
    have "length (xs_bins (cross_view (cg_points g) (cg_crosses g ! i))) =
        length (xs_bins (cross_view (cg_points h) (cg_crosses h ! i)))"
      using texts(5) by (rule map_eq_imp_length_eq)
    with texts show ?thesis
      by (auto simp: same_cross_def list_all_length) (metis nth_map)
  qed
qed

lemma cleared_same_model: "cleared g = cleared h \<Longrightarrow> same_model (snapshot g) (snapshot h)"
  using cleared_shape [of g h] cleared_same(3) [of g h]
  by (auto simp: same_model_def snapshot_def list_all_length)

lemma snapshot_add_assoc:
  assumes "cleared g = cleared h" "cleared h = cleared k"
  shows "snapshot_add (snapshot_add (snapshot g) (snapshot h)) (snapshot k) =
    snapshot_add (snapshot g) (snapshot_add (snapshot h) (snapshot k))"
proof -
  note gh = cleared_shape [OF assms(1)] and hk = cleared_shape [OF assms(2)]
  have points: "merge_point (merge_point (point_view (cg_points g ! i)) (point_view (cg_points h ! i))) (point_view (cg_points k ! i)) =
      merge_point (point_view (cg_points g ! i)) (merge_point (point_view (cg_points h ! i)) (point_view (cg_points k ! i)))"
    if "i < length (cg_points k)" for i
    using gh(3) [of i] hk(1) hk(3) [of i] that by (intro merge_point_assoc) (auto simp: same_point_def)
  have crosses: "cross_add (cross_add (cross_view (cg_points g) (cg_crosses g ! i)) (cross_view (cg_points h) (cg_crosses h ! i)))
        (cross_view (cg_points k) (cg_crosses k ! i)) =
      cross_add (cross_view (cg_points g) (cg_crosses g ! i)) (cross_add (cross_view (cg_points h) (cg_crosses h ! i))
        (cross_view (cg_points k) (cg_crosses k ! i)))" if "i < length (cg_crosses k)" for i
    using gh(4) [of i] hk(2) hk(4) [of i] that by (intro cross_add_assoc) (auto simp: same_cross_def)
  show ?thesis
    using points crosses gh(1,2) hk(1,2)
    by (auto simp: snapshot_add_def snapshot_def add.assoc intro!: nth_equalityI coverage_snapshot.equality)
qed

lemma cleared_counts:
  assumes "cleared g = g"
  shows "i < length (cg_points g) \<Longrightarrow> clear_point (cg_points g ! i) = cg_points g ! i"
    "i < length (cg_crosses g) \<Longrightarrow> clear_cross (cg_crosses g ! i) = cg_crosses g ! i"
    "cg_samples g = 0" "cg_illegal_hits g = 0"
proof -
  show "cg_samples g = 0" "cg_illegal_hits g = 0"
    by (subst assms [symmetric], simp add: cleared_def)+
  have "map clear_point (cg_points g) = cg_points g" "map clear_cross (cg_crosses g) = cg_crosses g"
    using assms [THEN arg_cong, of cg_points] assms [THEN arg_cong, of cg_crosses] by (simp_all add: cleared_def)
  then show "i < length (cg_points g) \<Longrightarrow> clear_point (cg_points g ! i) = cg_points g ! i"
    "i < length (cg_crosses g) \<Longrightarrow> clear_cross (cg_crosses g ! i) = cg_crosses g ! i"
    by (metis nth_map)+
qed

lemma merge_point_zero:
  assumes "same_point (point_view p) (point_view q)" "clear_point q = q"
  shows "merge_point (point_view p) (point_view q) = point_view p"
proof -
  have "cp_samples q = 0" "cp_illegal_hits q = 0" "cp_bins q = map unhit (cp_bins q)"
    by (subst assms(2) [symmetric], simp add: clear_point_def)+
  moreover have "bn_hits (cp_bins q ! i) = 0" if "i < length (cp_bins q)" for i
    using calculation(3) that by (metis nth_map unhit_def bin.select_convs(9) bin.surjective bin.update_convs(9))
  ultimately show ?thesis
    using assms(1) by (intro point_snapshot.equality) (auto simp: merge_point_def point_view_def same_point_def intro!: nth_equalityI)
qed

lemma cross_add_zero:
  assumes "length (xs_bins c) = length (xs_bins (cross_view all d))" "clear_cross d = d"
    "length (cr_hits d) = prod_list (bin_counts all (cr_points d))"
  shows "cross_add c (cross_view all d) = c"
proof -
  have zero: "cr_illegal_hits d = 0" "cr_hits d = replicate (length (cr_hits d)) 0"
    by (subst assms(2) [symmetric], simp add: clear_cross_def)+
  have "xb_hits (xs_bins (cross_view all d) ! i) = 0" if "i < length (xs_bins (cross_view all d))" for i
  proof -
    have "counted_combinations all d ! i \<in> set (counted_combinations all d)"
      using that by (simp add: cross_view_bins)
    then have "index_of (bin_counts all (cr_points d)) (counted_combinations all d ! i) < length (cr_hits d)"
      using index_of_bound [OF counted_combination] assms(3) by metis
    then show ?thesis
      using that zero(2) by (simp add: cross_view_bins combination_entry_def) (metis nth_replicate)
  qed
  then show ?thesis
    using assms(1) zero(1)
    by (intro cross_snapshot.equality) (auto simp: cross_add_def merge_cross_def cross_view_def intro!: nth_equalityI)
qed

lemma snapshot_add_zero:
  assumes "group_ok g" "cleared g = g" "cleared h = g"
  shows "snapshot_add (snapshot h) (snapshot g) = snapshot h"
proof -
  note zero = cleared_counts [OF assms(2)]
  have same: "cleared h = cleared g" using assms by simp
  note shape = cleared_shape [OF same]
  have "cross_add (cross_view (cg_points h) (cg_crosses h ! i)) (cross_view (cg_points g) (cg_crosses g ! i)) =
      cross_view (cg_points h) (cg_crosses h ! i)" if "i < length (cg_crosses g)" for i
    using shape(4) [OF that] zero(2) [OF that] assms(1) that
    by (intro cross_add_zero) (auto simp: same_cross_def group_ok_def list_all_length cross_ok_def)
  moreover have "merge_point (point_view (cg_points h ! i)) (point_view (cg_points g ! i)) = point_view (cg_points h ! i)"
    if "i < length (cg_points g)" for i
    using shape(3) [OF that] zero(1) [OF that] by (rule merge_point_zero)
  ultimately show ?thesis
    using shape(1,2) zero(3,4)
    by (auto simp: snapshot_add_def snapshot_def intro!: nth_equalityI coverage_snapshot.equality)
qed

lemma run_samples_add:
  assumes ok: "group_ok g" and state: "group_stateless g" and fresh: "cleared g = g" and "cleared h = g" "group_ok h"
  shows "snapshot (run_samples ss h) = snapshot_add (snapshot h) (snapshot (run_samples ss g))"
proof (induction ss rule: rev_induct)
  case Nil
  show ?case using snapshot_add_zero [OF ok fresh \<open>cleared h = g\<close>] by simp
next
  case (snoc s ss)
  have h_state: "group_stateless h"
    using assms stateless_cleared by metis
  let ?s = "snapshot (snd (covergroup_sample s g))"
  have last: "snapshot (run_samples (ss @ [s]) k) = snapshot_add (snapshot (run_samples ss k)) ?s"
    if "group_ok k" "group_stateless k" "cleared k = g" for k
    using covergroup_sample_clear(2) [OF run_samples_ok [OF that(1)], of ss s] run_samples_cleared [OF that(1,2), of ss] that(3)
    by simp
  have "cleared (run_samples ss g) = g" "cleared (snd (covergroup_sample s g)) = g"
    using run_samples_cleared [OF ok state] fresh covergroup_sample_clear(1) [OF ok state] by metis+
  then have "snapshot_add (snapshot_add (snapshot h) (snapshot (run_samples ss g))) ?s =
      snapshot_add (snapshot h) (snapshot_add (snapshot (run_samples ss g)) ?s)"
    using \<open>cleared h = g\<close> by (intro snapshot_add_assoc) simp_all
  then show ?case
    using snoc.IH last [OF \<open>group_ok h\<close> h_state \<open>cleared h = g\<close>] last [OF ok state fresh] by simp
qed

text \<open>Merging adds all counts but the illegal hits of the crosses.\<close>

definition keep_cross_illegal :: "coverage_snapshot \<Rightarrow> coverage_snapshot \<Rightarrow> coverage_snapshot" where
  "keep_cross_illegal old sn =
     sn\<lparr>sn_crosses := map (\<lambda>(c, d). d\<lparr>xs_illegal_hits := xs_illegal_hits c\<rparr>) (zip (sn_crosses old) (sn_crosses sn))\<rparr>"

lemma merge_eq:
  "same_model sn other \<Longrightarrow> merge sn other = Ok (keep_cross_illegal sn (snapshot_add sn other))"
  by (auto simp: merge_def keep_cross_illegal_def snapshot_add_def cross_add_def merge_cross_def same_model_def
      intro!: coverage_snapshot.equality nth_equalityI cross_snapshot.equality)

lemma merge_runs:
  assumes "group_ok g" "group_stateless g" "cleared g = g"
  shows "merge (snapshot (run_samples xs g)) (snapshot (run_samples ys g)) =
    Ok (keep_cross_illegal (snapshot (run_samples xs g)) (snapshot (run_samples (xs @ ys) g)))"
proof -
  note clear = run_samples_cleared [OF assms(1,2)]
  have "same_model (snapshot (run_samples xs g)) (snapshot (run_samples ys g))"
    using clear by (intro cleared_same_model) simp
  then show ?thesis
    using run_samples_add [OF assms, of "run_samples xs g" ys] clear assms(3) run_samples_ok [OF assms(1)]
    by (simp add: merge_eq run_samples_append)
qed

end
