(* ===== verification/CoverageProps.thy ===== *)
theory CoverageProps
  imports CoverageRuns
begin

text \<open>
  The properties of coverpoints, crosses and merged runs, and a covergroup of two coverpoints whose
  cross has one illegal bin selection.
\<close>

definition bin_at :: "string \<Rightarrow> int \<Rightarrow> bin" where
  "bin_at name v = \<lparr>bn_name = name, bn_kind = OrdinaryBin, bn_from = [(v, v)], bn_to = [], bn_wildcard = False,
     bn_care = 0, bn_want = 0, bn_default_sequence = False, bn_hits = 0\<rparr>"

definition pair_point :: "string \<Rightarrow> (int \<times> int) coverpoint" where
  "pair_point name = \<lparr>cp_name = name, cp_narrow = id, cp_bins = [bin_at ''a'' 0, bin_at ''b'' 1],
     cp_ordinary_names = [''a'', ''b''], cp_last_hits = [], cp_guard = None, cp_samples = 0, cp_illegal_hits = 0,
     cp_previous = None, cp_sampled = False, cp_sealed = True\<rparr>"

definition pair_cross :: "(int \<times> int) cross" where
  "pair_cross = \<lparr>cr_name = ''x'', cr_points = [0, 1], cr_hits = [0, 0, 0, 0],
     cr_filters = [\<lparr>fl_name = ''bad'', fl_select = binsof 0 [1], fl_illegal = True, fl_hits = 0\<rparr>],
     cr_guard = None, cr_illegal_hits = 0\<rparr>"

definition pair_group :: "(int \<times> int) covergroup" where
  "pair_group = \<lparr>cg_name = ''g'', cg_source_file = ''t.cpp'', cg_source_line = 7,
     cg_points = [pair_point ''p'', pair_point ''q''], cg_extractors = [fst, snd], cg_crosses = [pair_cross],
     cg_samples = 0, cg_illegal_hits = 0, cg_sampled = False\<rparr>"

lemma pair_binsof: "binsof 0 [1] = BinsOf 0 [1]"
  by (simp add: binsof_def)

lemma pair_group_ok: "group_ok pair_group" "group_stateless pair_group" "cleared pair_group = pair_group"
  by (simp_all add: group_ok_def pair_group_def pair_point_def pair_cross_def point_ok_def bins_ok_def bin_at_def
      default_is_illegal_def ranges_ordered_def ordinary_bins_def cross_ok_def bin_counts_def ordinary_bin_count_def
      group_stateless_def stateless_def cleared_def clear_point_def clear_cross_def unhit_def)

lemma pair_sample:
  "snd (covergroup_sample (1, 0) pair_group) =
     pair_group\<lparr>cg_points := [(pair_point ''p'')\<lparr>cp_bins := [bin_at ''a'' 0, hit (bin_at ''b'' 1)], cp_last_hits := [1],
           cp_samples := 1, cp_previous := Some 1, cp_sampled := True\<rparr>,
         (pair_point ''q'')\<lparr>cp_bins := [hit (bin_at ''a'' 0), bin_at ''b'' 1], cp_last_hits := [0],
           cp_samples := 1, cp_previous := Some 0, cp_sampled := True\<rparr>],
       cg_crosses := [pair_cross\<lparr>cr_filters := [\<lparr>fl_name = ''bad'', fl_select = binsof 0 [1], fl_illegal = True, fl_hits = 1\<rparr>],
         cr_illegal_hits := 1\<rparr>],
       cg_samples := 1, cg_illegal_hits := 1, cg_sampled := True\<rparr>"
  by (simp add: covergroup_sample_def pair_group_def pair_point_def pair_cross_def bin_at_def coverpoint_sample_def
      sample_bins_def matches_from_def in_any_def hit_def cross_sample_def count_combination_def excluded_by_def
      pair_binsof position_of_def ordinary_bin_accepts_def upt_rec)

lemma excluded_by_illegal:
  "(\<exists>f. excluded_by all c b = Some f \<and> fl_illegal (cr_filters c ! f)) \<longleftrightarrow>
     (\<exists>f \<in> set (cr_filters c). matches_cross all (cr_points c) b (fl_select f)) \<and>
     (\<forall>f \<in> set (cr_filters c). matches_cross all (cr_points c) b (fl_select f) \<longrightarrow> fl_illegal f)"
proof (cases "\<exists>f \<in> set (cr_filters c). matches_cross all (cr_points c) b (fl_select f) \<and> \<not> fl_illegal f")
  case True
  then show ?thesis
    using excluded_loop_ignored [OF True, of 0 None] by (auto simp: excluded_by_def)
next
  case False
  then show ?thesis
    using excluded_by_None [of all c b] excluded_by_Some [of all c b] nth_mem [of _ "cr_filters c"]
    by (cases "excluded_by all c b") blast+
qed

text \<open>
  Property C30: Whatever a test does with a covergroup and its coverpoints and crosses, the covergroup
  stays well-formed: names are unique, each coverpoint knows the names of its ordinary bins, no range
  is reversed, a cross has one counter for each combination of bins of its sealed coverpoints; and
  every combination that a sample reaches has its counter.
\<close>

theorem covergroups_stay_well_formed:
  assumes "reached g"
  shows "group_ok g \<and>
    (\<forall>c \<in> set (cg_crosses g). \<forall>bins \<in> set (hit_combinations (cg_points g) c).
       index_of (bin_counts (cg_points g) (cr_points c)) bins < length (cr_hits c))"
proof -
  have ok: "group_ok g" using assms by (rule reached_ok)
  have "index_of (bin_counts (cg_points g) (cr_points c)) bins < length (cr_hits c)"
    if "c \<in> set (cg_crosses g)" "bins \<in> set (hit_combinations (cg_points g) c)" for c bins
  proof -
    have parts: "list_all point_ok (cg_points g)" "cross_ok (cg_points g) c"
      using ok that(1) by (auto simp: group_ok_def list_all_iff)
    then show ?thesis
      using index_of_bound [OF hit_combination [OF parts that(2)]] by (simp add: cross_ok_def)
  qed
  with ok show ?thesis by blast
qed

definition first_group :: "int covergroup" where
  "first_group = \<lparr>cg_name = ''g'', cg_source_file = ''t.cpp'', cg_source_line = 7, cg_points = [], cg_extractors = [],
     cg_crosses = [], cg_samples = 0, cg_illegal_hits = 0, cg_sampled = False\<rparr>"

lemma first_group_steps:
  "reached first_group"
  "add_coverpoint ''p'' id id first_group = Ok (first_group\<lparr>cg_points := [\<lparr>cp_name = ''p'', cp_narrow = id, cp_bins = [],
     cp_ordinary_names = [], cp_last_hits = [], cp_guard = None, cp_samples = 0, cp_illegal_hits = 0,
     cp_previous = None, cp_sampled = False, cp_sealed = False\<rparr>], cg_extractors := [id]\<rparr>)"
  by (rule reached.init [of "''g''" "''t.cpp''" 7])
    (simp_all add: covergroup_init_def first_group_def add_coverpoint_def coverpoint_init_def)

lemma covergroups_stay_well_formed_witness:
  "group_ok (fst (add_cross ''x'' [0, 0] (snd (covergroup_sample 3 (first_group\<lparr>cg_points := [\<lparr>cp_name = ''p'', cp_narrow = id,
     cp_bins = [], cp_ordinary_names = [], cp_last_hits = [], cp_guard = None, cp_samples = 0, cp_illegal_hits = 0,
     cp_previous = None, cp_sampled = False, cp_sealed = False\<rparr>], cg_extractors := [id]\<rparr>)))))"
  by (intro conjunct1 [OF covergroups_stay_well_formed] reached.step [OF _ group_step.new_cross]
      reached.step [OF _ group_step.sample] reached.step [OF first_group_steps(1) group_step.new_point [OF first_group_steps(2)]])

text \<open>
  Property C31: A sample of a coverpoint whose guard is open counts each bin at most once: an ignored
  or illegal bin that holds the value; when no such bin holds it, an ordinary bin that does, a
  transition bin that leads from the previous value to it, and the bins of the default sequence when
  no transition bin took the transition. It reports the number of illegal bins it counted and leaves
  the positions of the ordinary bins for the crosses. A closed guard leaves all counts and the
  previous value alone.
\<close>

theorem coverpoint_sample_counts:
  assumes "point_ok p" and "length (cp_bins p) < 2 ^ 32"
  shows "coverpoint_sample s v p =
    (if guard_open (cp_guard p) s then
       (of_nat (length (filter (\<lambda>b. counted (cp_previous p) v (cp_bins p) b \<and> bn_kind b = IllegalBin) (cp_bins p))),
        p\<lparr>cp_bins := map (\<lambda>b. if counted (cp_previous p) v (cp_bins p) b then b\<lparr>bn_hits := bn_hits b + 1\<rparr> else b) (cp_bins p),
          cp_last_hits := if barred v (cp_bins p) then []
            else filter (\<lambda>i. matches_from (ordinary_bins (cp_bins p) ! i) v) [0..<length (ordinary_bins (cp_bins p))],
          cp_samples := cp_samples p + 1,
          cp_illegal_hits := cp_illegal_hits p +
            of_nat (length (filter (\<lambda>b. counted (cp_previous p) v (cp_bins p) b \<and> bn_kind b = IllegalBin) (cp_bins p))),
          cp_previous := Some v, cp_sampled := True\<rparr>)
     else (0, p\<lparr>cp_last_hits := [], cp_sampled := True\<rparr>))"
  using coverpoint_sample_eq [of p s v] assms
  by (simp add: point_ok_def bins_ok_def illegal_count_def count_where_def point_hits_def hit_where_def hit_def)

lemma coverpoint_sample_counts_witness:
  "cp_last_hits (snd (coverpoint_sample (0, 0) 1 (pair_point ''p''))) = [1]"
proof -
  have "point_ok (pair_point ''p'')"
    using pair_group_ok(1) by (simp add: group_ok_def pair_group_def)
  from coverpoint_sample_counts [OF this, of "(0, 0)" 1] show ?thesis
    by (simp add: pair_point_def bin_at_def barred_def excludes_def ordinary_bins_def matches_from_def in_any_def
        guard_open_def upt_rec)
qed

text \<open>
  Property C14: A sample of a cross whose guard is open raises the counter of a combination of bins by
  one exactly if the sample hit each of its bins and no filter selects it, and leaves every other
  counter alone. It reports the number of combinations it hit that some filter selects and no filter
  ignores.
\<close>

theorem cross_sample_counts:
  assumes ok: "group_ok g" and c: "c \<in> set (cg_crosses g)" and guard: "guard_open (cr_guard c) s"
    and bins: "combination (bin_counts (cg_points g) (cr_points c)) bins"
  defines "i \<equiv> index_of (bin_counts (cg_points g) (cr_points c)) bins"
    and "selected b \<equiv> filter (\<lambda>f. matches_cross (cg_points g) (cr_points c) b (fl_select f)) (cr_filters c)"
    and "reached_bins \<equiv> {b. list_all2 (\<lambda>p j. j \<in> set (cp_last_hits (cg_points g ! p))) (cr_points c) b}"
  shows "cr_hits (snd (cross_sample s (cg_points g) c)) ! i =
      cr_hits c ! i + (if bins \<in> reached_bins \<and> selected bins = [] then 1 else 0) \<and>
    fst (cross_sample s (cg_points g) c) =
      of_nat (card {b \<in> reached_bins. selected b \<noteq> [] \<and> list_all fl_illegal (selected b)})"
proof -
  let ?all = "cg_points g" and ?L = "hit_combinations (cg_points g) c"
  have parts: "list_all point_ok ?all" "cross_ok ?all c"
    using ok c by (auto simp: group_ok_def list_all_iff)
  have L: "set ?L = reached_bins" "distinct ?L"
    using distinct_hit_combinations [OF parts]
    by (auto simp: hit_combinations_def in_product_lists reached_bins_def list_all2_conv_all_nth)
  have i: "i < length (cr_hits c)"
    using index_of_bound [OF bins] parts(2) by (simp add: cross_ok_def i_def)
  have none: "excluded_by ?all c b = None \<longleftrightarrow> selected b = []" for b
    by (simp add: excluded_by_None selected_def filter_empty_conv)
  have "filter (\<lambda>b. excluded_by ?all c b = None \<and> index_of (bin_counts ?all (cr_points c)) b = i) ?L =
      filter (\<lambda>b. b = bins \<and> selected b = []) ?L"
    using index_of_inject [OF hit_combination [OF parts] bins] by (auto simp: none i_def intro!: filter_cong)
  also have "length \<dots> = (if bins \<in> reached_bins \<and> selected bins = [] then 1 else 0)"
    using L by (auto simp: distinct_length_filter card_1_singleton_iff Int_def conj_commute cong: conj_cong)
  finally have one: "length (filter (\<lambda>b. excluded_by ?all c b = None \<and> index_of (bin_counts ?all (cr_points c)) b = i) ?L) =
      (if bins \<in> reached_bins \<and> selected bins = [] then 1 else 0)" .
  have illegal: "(\<exists>f. excluded_by ?all c b = Some f \<and> fl_illegal (cr_filters c ! f)) \<longleftrightarrow>
      selected b \<noteq> [] \<and> list_all fl_illegal (selected b)" for b
    using excluded_by_illegal [of ?all c b] by (auto simp: selected_def list_all_iff filter_empty_conv)
  have "illegal_combinations ?all c ?L = card {b \<in> reached_bins. selected b \<noteq> [] \<and> list_all fl_illegal (selected b)}"
    using L by (simp add: illegal_combinations_def illegal distinct_length_filter) (simp add: Int_def conj_commute)
  with one i guard show ?thesis
    by (simp add: cross_sample_eq) (simp add: cross_after_def)
qed

lemma cross_sample_counts_witness:
  "fst (cross_sample (1, 0) (cg_points (snd (covergroup_sample (1, 0) pair_group)))
     (hd (cg_crosses (snd (covergroup_sample (1, 0) pair_group))))) = 1"
proof -
  let ?g = "snd (covergroup_sample (1, 0) pair_group)"
  let ?c = "hd (cg_crosses ?g)"
  have g: "group_ok ?g" by (rule sample_ok) (rule pair_group_ok)
  have c: "?c \<in> set (cg_crosses ?g)" "guard_open (cr_guard ?c) (1, 0)" "combination (bin_counts (cg_points ?g) (cr_points ?c)) [0, 0]"
    by (simp_all add: pair_sample pair_cross_def guard_open_def combination_def bin_counts_def ordinary_bin_count_def pair_point_def)
  have set: "{b. list_all2 (\<lambda>p j. j \<in> set (cp_last_hits (cg_points ?g ! p))) (cr_points ?c) b} = {[1, 0]}"
    by (auto simp: pair_sample pair_cross_def list_all2_Cons1)
  have "{b \<in> {[1, 0]}. filter (\<lambda>f. matches_cross (cg_points ?g) (cr_points ?c) b (fl_select f)) (cr_filters ?c) \<noteq> [] \<and>
      list_all fl_illegal (filter (\<lambda>f. matches_cross (cg_points ?g) (cr_points ?c) b (fl_select f)) (cr_filters ?c))} = {[1, 0]}"
    by (auto simp: pair_sample pair_cross_def pair_binsof position_of_def upt_rec ordinary_bin_accepts_def pair_point_def
        bin_at_def hit_def matches_from_def in_any_def)
  then show ?thesis
    using conjunct2 [OF cross_sample_counts [OF g c]] unfolding set by simp
qed

text \<open>
  Property C20: Merging the snapshots of two runs of a fresh covergroup, whose coverpoints have no
  transition bins, gives the snapshot of the one run over both lists of samples, except that each
  cross keeps the illegal hits of the first run only.
\<close>

theorem merged_runs_are_one_run:
  assumes "group_ok g" "cleared g = g"
    and "list_all (\<lambda>p. list_all (\<lambda>b. bn_kind b \<noteq> TransitionBin) (cp_bins p) \<and> length (cp_bins p) < 2 ^ 32) (cg_points g)"
  shows "merge (snapshot (run_samples xs g)) (snapshot (run_samples ys g)) =
    Ok (keep_cross_illegal (snapshot (run_samples xs g)) (snapshot (run_samples (xs @ ys) g)))"
proof -
  have "group_stateless g"
    using assms by (auto simp: group_stateless_def stateless_def list_all_iff group_ok_def point_ok_def bins_ok_def)
  then show ?thesis
    using assms by (intro merge_runs)
qed

lemma merged_runs_are_one_run_witness:
  "is_ok (merge (snapshot (run_samples [(1, 0)] pair_group)) (snapshot (run_samples [(0, 1), (1, 1)] pair_group)))"
proof -
  have "list_all (\<lambda>p. list_all (\<lambda>b. bn_kind b \<noteq> TransitionBin) (cp_bins p) \<and> length (cp_bins p) < 2 ^ 32) (cg_points pair_group)"
    by (simp add: pair_group_def pair_point_def bin_at_def)
  from merged_runs_are_one_run [OF pair_group_ok(1,3) this] show ?thesis by simp
qed

lemma keep_cross_single:
  "\<exists>c. sn_crosses old = [c] \<and> xs_illegal_hits c = n \<Longrightarrow> map xs_illegal_hits (sn_crosses sn) = [k] \<Longrightarrow>
   map xs_illegal_hits (sn_crosses (keep_cross_illegal old sn)) = [n]"
  by (auto simp: keep_cross_illegal_def)

text \<open>
  Property C32: The illegal hits of a cross are lost by a merge. A cross that each of two runs hits once
  in an illegal combination is reported with one illegal hit by the merged snapshot, whose total of
  illegal hits is two; a single run over both samples reports two.
\<close>

theorem merge_drops_cross_illegal:
  "\<exists>sn. merge (snapshot (run_samples [(1, 0)] pair_group)) (snapshot (run_samples [(1, 0)] pair_group)) = Ok sn \<and>
     sn_illegal_hits sn = 2 \<and> map xs_illegal_hits (sn_crosses sn) = [1] \<and>
     map xs_illegal_hits (sn_crosses (snapshot (run_samples [(1, 0), (1, 0)] pair_group))) = [2]"
proof -
  let ?one = "snapshot (run_samples [(1, 0)] pair_group)" and ?two = "snapshot (run_samples [(1, 0), (1, 0)] pair_group)"
  have one: "sn_illegal_hits ?one = 1" "map xs_illegal_hits (sn_crosses ?one) = [1]"
    by (simp_all add: run_samples_def pair_sample snapshot_def cross_view_def)
  have "cleared (run_samples [(1, 0)] pair_group) = pair_group" "group_ok (run_samples [(1, 0)] pair_group)"
    using run_samples_cleared [OF pair_group_ok(1,2)] pair_group_ok(3) run_samples_ok [OF pair_group_ok(1)] by metis+
  then have "snapshot (run_samples [(1, 0)] (run_samples [(1, 0)] pair_group)) = snapshot_add ?one ?one"
    by (rule run_samples_add [OF pair_group_ok])
  then have sum: "?two = snapshot_add ?one ?one"
    by (simp add: run_samples_def)
  have lists: "\<exists>c. sn_crosses ?one = [c] \<and> xs_illegal_hits c = 1"
    using one(2) by auto
  have two: "sn_illegal_hits ?two = 2" "map xs_illegal_hits (sn_crosses ?two) = [2]"
    unfolding sum using lists one(1) by (auto simp: snapshot_add_def simp del: One_nat_def)
  have merged: "merge ?one ?one = Ok (keep_cross_illegal ?one ?two)"
    using merge_runs [OF pair_group_ok, of "[(1, 0)]" "[(1, 0)]"] by simp
  have hits: "sn_illegal_hits (keep_cross_illegal ?one ?two) = 2"
    using two(1) by (simp add: keep_cross_illegal_def)
  have crosses: "map xs_illegal_hits (sn_crosses (keep_cross_illegal ?one ?two)) = [1]"
    by (rule keep_cross_single [OF lists two(2)])
  show ?thesis
    by (intro exI [of _ "keep_cross_illegal ?one ?two"] conjI merged hits crosses two(2))
qed

end
