(* ===== verification/RegisterFields.thy ===== *)
theory RegisterFields
  imports Cpptb_Prelude
begin

text \<open>
  Fields of registers (\<open>register_model.hpp\<close>, up to and with the namespace \<open>register_detail\<close>): their
  access rights, what reading and writing does to them, and the arithmetic on the bits of a field.
  Widths and positions, which the code keeps in 16 bits, are natural numbers. The address of a
  descriptor, by which address maps recognise it, is its \<open>rd_id\<close>.
\<close>

section \<open>Descriptors\<close>

datatype register_access =
    RegNoAccess | RegReadOnly | RegWriteOnly | RegReadWrite | RegWriteOnce | RegReadWriteOnce

datatype read_effect = ReadPlain | ReadClear | ReadSet | ReadUser

datatype write_effect =
    WritePlain | WriteOneSet | WriteOneClear | WriteOneToggle | WriteZeroSet | WriteZeroClear
  | WriteZeroToggle | WriteClear | WriteSet | WriteUser

datatype register_prediction = PredictDirect | PredictRead | PredictWrite

datatype register_endianness = RegLittle | RegBig

record slice_descriptor =
  sl_path :: string
  sl_lsb :: nat
  sl_width :: nat

record field_descriptor =
  fd_name :: string
  fd_path :: string
  fd_lsb :: nat
  fd_width :: nat
  fd_access :: register_access
  fd_read_effect :: read_effect
  fd_write_effect :: write_effect
  fd_reset_value :: u64
  fd_reset_mask :: u64
  fd_volatile :: bool
  fd_slices :: "slice_descriptor list"

record register_descriptor =
  rd_id :: nat
  rd_name :: string
  rd_path :: string
  rd_address :: u64
  rd_width :: nat
  rd_access_width :: nat
  rd_endianness :: register_endianness
  rd_reset_value :: u64
  rd_reset_mask :: u64
  rd_reset_value_words :: "u32 list"
  rd_reset_mask_words :: "u32 list"
  rd_fields :: "field_descriptor list"
  rd_slices :: "slice_descriptor list"

section \<open>Masks and access rights\<close>

definition register_mask :: "nat \<Rightarrow> u64" where
  "register_mask width = (if width \<ge> 64 then - 1 else if width = 0 then 0 else push_bit width 1 - 1)"

definition register_field_mask :: "field_descriptor \<Rightarrow> u64" where
  "register_field_mask f = push_bit (fd_lsb f) (register_mask (fd_width f))"

definition register_readable :: "register_access \<Rightarrow> bool" where
  "register_readable access = (access = RegReadOnly \<or> access = RegReadWrite \<or> access = RegReadWriteOnce)"

definition register_writable :: "register_access \<Rightarrow> bool" where
  "register_writable access =
     (access = RegWriteOnly \<or> access = RegReadWrite \<or> access = RegWriteOnce \<or> access = RegReadWriteOnce)"

text \<open>Every field is compared with the fields before it.\<close>

fun overlaps_previous :: "field_descriptor \<Rightarrow> field_descriptor list \<Rightarrow> bool" where
  "overlaps_previous f [] = False"
| "overlaps_previous f (p # ps) =
     (if fd_lsb f < fd_lsb p + fd_width p \<and> fd_lsb p < fd_lsb f + fd_width f then True
      else overlaps_previous f ps)"

fun validate_fields :: "nat \<Rightarrow> field_descriptor list \<Rightarrow> field_descriptor list \<Rightarrow> unit result" where
  "validate_fields width previous [] = Ok ()"
| "validate_fields width previous (f # fs) =
     (if fd_width f = 0 \<or> fd_lsb f \<ge> width \<or> fd_width f > width - fd_lsb f
      then Fail (InvalidArgument ''register field lies outside its register'')
      else if overlaps_previous f previous then Fail (InvalidArgument ''register fields overlap'')
      else validate_fields width (previous @ [f]) fs)"

definition validate_field_layout :: "register_descriptor \<Rightarrow> unit result" where
  "validate_field_layout rd = validate_fields (rd_width rd) [] (rd_fields rd)"

section \<open>The bits of a field\<close>

definition insert_field :: "u64 \<Rightarrow> u64 \<Rightarrow> field_descriptor \<Rightarrow> u64" where
  "insert_field v field_value f =
     (let m = register_field_mask f in (v AND NOT m) OR (push_bit (fd_lsb f) field_value AND m))"

definition extract_field :: "u64 \<Rightarrow> field_descriptor \<Rightarrow> u64" where
  "extract_field v f = drop_bit (fd_lsb f) v AND register_mask (fd_width f)"

definition apply_write_effect :: "u64 \<Rightarrow> u64 \<Rightarrow> field_descriptor \<Rightarrow> u64" where
  "apply_write_effect previous written f =
     (let m = register_mask (fd_width f);
          old_field = extract_field previous f;
          write_field = extract_field written f;
          next_field = (case fd_write_effect f of
              WritePlain \<Rightarrow> write_field
            | WriteOneSet \<Rightarrow> old_field OR write_field
            | WriteOneClear \<Rightarrow> old_field AND NOT write_field
            | WriteOneToggle \<Rightarrow> old_field XOR write_field
            | WriteZeroSet \<Rightarrow> old_field OR (NOT write_field AND m)
            | WriteZeroClear \<Rightarrow> old_field AND write_field
            | WriteZeroToggle \<Rightarrow> old_field XOR (NOT write_field AND m)
            | WriteClear \<Rightarrow> 0
            | WriteSet \<Rightarrow> m
            | WriteUser \<Rightarrow> write_field)
      in insert_field previous next_field f)"

definition apply_write_valid_mask :: "u64 \<Rightarrow> u64 \<Rightarrow> field_descriptor \<Rightarrow> u64" where
  "apply_write_valid_mask previous_valid written f =
     (let m = register_mask (fd_width f);
          old_valid = extract_field previous_valid f;
          write_field = extract_field written f;
          next_valid = (case fd_write_effect f of
              WritePlain \<Rightarrow> m
            | WriteClear \<Rightarrow> m
            | WriteSet \<Rightarrow> m
            | WriteOneSet \<Rightarrow> old_valid OR write_field
            | WriteOneClear \<Rightarrow> old_valid OR write_field
            | WriteOneToggle \<Rightarrow> old_valid
            | WriteZeroToggle \<Rightarrow> old_valid
            | WriteZeroSet \<Rightarrow> old_valid OR (NOT write_field AND m)
            | WriteZeroClear \<Rightarrow> old_valid OR (NOT write_field AND m)
            | WriteUser \<Rightarrow> 0)
      in insert_field previous_valid next_valid f)"

definition apply_read_valid_mask :: "u64 \<Rightarrow> field_descriptor \<Rightarrow> u64" where
  "apply_read_valid_mask previous_valid f =
     insert_field previous_valid (if fd_read_effect f = ReadUser then 0 else register_mask (fd_width f)) f"

text \<open>The value to write so that a field takes its staged value, when the previous value is known.\<close>

definition encode_staged_write_known :: "u64 \<Rightarrow> u64 \<Rightarrow> field_descriptor \<Rightarrow> u64" where
  "encode_staged_write_known previous staged f =
     (let m = register_mask (fd_width f);
          old_field = extract_field previous f;
          staged_field = extract_field staged f;
          written = (case fd_write_effect f of
              WritePlain \<Rightarrow> staged_field
            | WriteUser \<Rightarrow> staged_field
            | WriteOneSet \<Rightarrow> staged_field AND NOT old_field
            | WriteOneClear \<Rightarrow> old_field AND NOT staged_field
            | WriteOneToggle \<Rightarrow> old_field XOR staged_field
            | WriteZeroSet \<Rightarrow> old_field OR NOT staged_field
            | WriteZeroClear \<Rightarrow> NOT old_field OR staged_field
            | WriteZeroToggle \<Rightarrow> NOT (old_field XOR staged_field)
            | WriteClear \<Rightarrow> 0
            | WriteSet \<Rightarrow> 0)
      in insert_field 0 (written AND m) f)"

definition encode_staged_write :: "u64 \<Rightarrow> u64 \<Rightarrow> u64 \<Rightarrow> field_descriptor \<Rightarrow> u64" where
  "encode_staged_write previous previous_valid staged f =
     (let m = register_mask (fd_width f);
          old_field = extract_field previous f;
          old_valid = extract_field previous_valid f;
          staged_field = extract_field staged f;
          written = (case fd_write_effect f of
              WritePlain \<Rightarrow> staged_field
            | WriteUser \<Rightarrow> staged_field
            | WriteOneSet \<Rightarrow> staged_field AND (NOT old_field OR NOT old_valid)
            | WriteOneClear \<Rightarrow> NOT staged_field AND (old_field OR NOT old_valid)
            | WriteOneToggle \<Rightarrow> old_valid AND (old_field XOR staged_field)
            | WriteZeroSet \<Rightarrow> (old_field AND old_valid) OR NOT staged_field
            | WriteZeroClear \<Rightarrow> (NOT old_field AND old_valid) OR staged_field
            | WriteZeroToggle \<Rightarrow> (old_valid AND NOT (old_field XOR staged_field)) OR NOT old_valid
            | WriteClear \<Rightarrow> 0
            | WriteSet \<Rightarrow> 0)
      in insert_field 0 (written AND m) f)"

definition apply_read_effect :: "u64 \<Rightarrow> field_descriptor \<Rightarrow> u64" where
  "apply_read_effect sampled f =
     (case fd_read_effect f of
        ReadPlain \<Rightarrow> sampled
      | ReadUser \<Rightarrow> sampled
      | ReadClear \<Rightarrow> insert_field sampled 0 f
      | ReadSet \<Rightarrow> insert_field sampled (register_mask (fd_width f)) f)"

section \<open>Policies for user-defined effects\<close>

text \<open>
  A policy decides bit by bit; its operations on a whole field go over the bits unless it overrides
  them. The handle only calls the operations on fields. Their arguments are the descriptors, the
  previous value of the field, which of its bits are known, and the written, staged or read value.
\<close>

record field_policy =
  pl_encode_write :: "register_descriptor \<Rightarrow> field_descriptor \<Rightarrow> u64 \<Rightarrow> u64 \<Rightarrow> u64 \<Rightarrow> u64"
  pl_predict_write :: "register_descriptor \<Rightarrow> field_descriptor \<Rightarrow> u64 \<Rightarrow> u64 \<Rightarrow> u64 \<Rightarrow> u64 \<times> u64"
  pl_predict_read :: "register_descriptor \<Rightarrow> field_descriptor \<Rightarrow> u64 \<Rightarrow> u64 \<Rightarrow> u64 \<Rightarrow> u64 \<times> u64"

type_synonym 'r bit_policy =
  "register_descriptor \<Rightarrow> field_descriptor \<Rightarrow> nat \<Rightarrow> bool \<Rightarrow> bool \<Rightarrow> bool \<Rightarrow> 'r"

definition encode_write_field ::
  "bool bit_policy \<Rightarrow> register_descriptor \<Rightarrow> field_descriptor \<Rightarrow> u64 \<Rightarrow> u64 \<Rightarrow> u64 \<Rightarrow> u64" where
  "encode_write_field encode_write rd f previous previous_valid v =
     fold (\<lambda>b encoded.
         if encode_write rd f b (previous AND push_bit b 1 \<noteq> 0) (previous_valid AND push_bit b 1 \<noteq> 0)
              (v AND push_bit b 1 \<noteq> 0)
         then encoded OR push_bit b 1 else encoded)
       [0..<fd_width f] 0"

definition predict_field ::
  "(bool \<times> bool) bit_policy \<Rightarrow> register_descriptor \<Rightarrow> field_descriptor \<Rightarrow> u64 \<Rightarrow> u64 \<Rightarrow> u64 \<Rightarrow> u64 \<times> u64" where
  "predict_field predict_bit rd f previous previous_valid v =
     fold (\<lambda>b (result, valid).
         let (bit_value, bit_valid) =
               predict_bit rd f b (previous AND push_bit b 1 \<noteq> 0) (previous_valid AND push_bit b 1 \<noteq> 0)
                 (v AND push_bit b 1 \<noteq> 0)
         in (if bit_value then result OR push_bit b 1 else result,
             if bit_valid then valid OR push_bit b 1 else valid))
       [0..<fd_width f] (0, 0)"

definition bitwise_policy ::
  "bool bit_policy \<Rightarrow> (bool \<times> bool) bit_policy \<Rightarrow> (bool \<times> bool) bit_policy \<Rightarrow> field_policy" where
  "bitwise_policy encode_write predict_write predict_read =
     \<lparr>pl_encode_write = encode_write_field encode_write, pl_predict_write = predict_field predict_write,
      pl_predict_read = predict_field predict_read\<rparr>"

end
