(* ===== verification/RegisterMap.thy ===== *)
theory RegisterMap
  imports RegisterFields SparseMemory
begin

text \<open>
  Address maps of registers (\<open>RegisterAddressMap\<close> in \<open>register_model.hpp\<close>). A bus master, a frontdoor
  and a backdoor are interfaces of the code: here records of functions that take and return the state
  of everything outside, of type \<open>'w\<close>. Addresses, data and byte enables are unsigned words of the
  master's widths.
\<close>

section \<open>Masters, frontdoors and routes\<close>

record ('a, 'd, 'e, 'w) master =
  ms_write :: "'a \<Rightarrow> 'd \<Rightarrow> 'e \<Rightarrow> 'w \<Rightarrow> write_response \<times> 'w"
  ms_read :: "'a \<Rightarrow> 'w \<Rightarrow> 'd read_response \<times> 'w"

record memory_descriptor =
  md_id :: nat
  md_name :: string
  md_path :: string
  md_address :: u64
  md_entries :: u64
  md_width :: nat
  md_access_width :: nat
  md_access :: register_access
  md_hdl_path :: string

record ('a, 'd, 'e, 'w) frontdoor =
  fr_write :: "('a, 'd, 'e, 'w) master \<Rightarrow> register_descriptor \<Rightarrow> 'a \<Rightarrow> 'd \<Rightarrow> 'e \<Rightarrow> 'w \<Rightarrow> write_response \<times> 'w"
  fr_read :: "('a, 'd, 'e, 'w) master \<Rightarrow> register_descriptor \<Rightarrow> 'a \<Rightarrow> 'w \<Rightarrow> 'd read_response \<times> 'w"

record ('a, 'd, 'e, 'w) memory_frontdoor =
  mf_write :: "('a, 'd, 'e, 'w) master \<Rightarrow> memory_descriptor \<Rightarrow> u64 \<Rightarrow> 'a \<Rightarrow> 'd \<Rightarrow> 'e \<Rightarrow> 'w \<Rightarrow> write_response \<times> 'w"
  mf_read :: "('a, 'd, 'e, 'w) master \<Rightarrow> memory_descriptor \<Rightarrow> u64 \<Rightarrow> 'a \<Rightarrow> 'w \<Rightarrow> 'd read_response \<times> 'w"

record 'f route =
  rt_id :: nat
  rt_offset :: u64
  rt_frontdoor :: "'f option"

record ('a, 'd, 'e, 'w) address_map =
  am_name :: string
  am_master :: "('a, 'd, 'e, 'w) master"
  am_base :: u64
  am_routes :: "('a, 'd, 'e, 'w) frontdoor route list"
  am_memory_routes :: "('a, 'd, 'e, 'w) memory_frontdoor route list"

definition address_map_init ::
  "string \<Rightarrow> ('a, 'd, 'e, 'w) master \<Rightarrow> u64 \<Rightarrow> ('a, 'd, 'e, 'w) address_map result" where
  "address_map_init name m base =
     (if name = [] then Fail (InvalidArgument ''register address-map name is empty'')
      else Ok \<lparr>am_name = name, am_master = m, am_base = base, am_routes = [], am_memory_routes = []\<rparr>)"

fun find_route :: "nat \<Rightarrow> 'f route list \<Rightarrow> 'f route option" where
  "find_route i [] = None"
| "find_route i (r # rs) = (if rt_id r = i then Some r else find_route i rs)"

text \<open>Replacing the first route of a descriptor, or adding one.\<close>

fun put_route :: "'f route \<Rightarrow> 'f route list \<Rightarrow> 'f route list" where
  "put_route r [] = [r]"
| "put_route r (q # qs) = (if rt_id q = rt_id r then r # qs else q # put_route r qs)"

definition fits_address :: "'a::len itself \<Rightarrow> u64 \<Rightarrow> bool" where
  "fits_address a address = (unat address \<le> 2 ^ LENGTH('a) - 1)"

definition route_offset :: "nat \<Rightarrow> u64 \<Rightarrow> 'f route list \<Rightarrow> u64" where
  "route_offset i dflt rs = (case find_route i rs of Some r \<Rightarrow> rt_offset r | None \<Rightarrow> dflt)"

section \<open>Effective addresses\<close>

definition effective_address ::
  "register_descriptor \<Rightarrow> ('a::len word, 'd, 'e, 'w) address_map \<Rightarrow> u64 result" where
  "effective_address rd am =
     (let offset = route_offset (rd_id rd) (rd_address rd) (am_routes am)
      in if offset > - 1 - am_base am then Fail (OverflowError ''register address map overflows'')
         else let address = am_base am + offset
              in if \<not> fits_address TYPE('a) address
                 then Fail (OverflowError ''register address exceeds frontdoor width'')
                 else Ok address)"

definition effective_memory_address ::
  "memory_descriptor \<Rightarrow> u64 \<Rightarrow> ('a::len word, 'd, 'e, 'w) address_map \<Rightarrow> u64 result" where
  "effective_memory_address md i am =
     (if md_width md = 0 \<or> md_width md mod 8 \<noteq> 0
      then Fail (LogicError ''register memory has invalid element width'')
      else if i \<ge> md_entries md then Fail (OutOfRange ''register memory address-map index out of bounds'')
      else
        let offset = route_offset (md_id md) (md_address md) (am_memory_routes am);
            bytes = of_nat (md_width md div 8)
        in if i > (- 1 - offset) div bytes \<or> offset + i * bytes > - 1 - am_base am
           then Fail (OverflowError ''register memory address map overflows'')
           else let address = am_base am + offset + i * bytes
                in if \<not> fits_address TYPE('a) address
                   then Fail (OverflowError ''register memory address exceeds frontdoor width'')
                   else Ok address)"

section \<open>Routing\<close>

text \<open>A route whose address does not fit is taken back.\<close>

definition add_route ::
  "register_descriptor \<Rightarrow> u64 \<Rightarrow> ('a::len word, 'd, 'e, 'w) frontdoor option \<Rightarrow>
   ('a word, 'd, 'e, 'w) address_map \<Rightarrow> ('a word, 'd, 'e, 'w) address_map result" where
  "add_route rd offset fr am =
     (let am' = am\<lparr>am_routes := put_route \<lparr>rt_id = rd_id rd, rt_offset = offset, rt_frontdoor = fr\<rparr> (am_routes am)\<rparr>
      in result_bind (effective_address rd am') (\<lambda>_. Ok am'))"

definition add_memory_route ::
  "memory_descriptor \<Rightarrow> u64 \<Rightarrow> ('a::len word, 'd, 'e, 'w) memory_frontdoor option \<Rightarrow>
   ('a word, 'd, 'e, 'w) address_map \<Rightarrow> ('a word, 'd, 'e, 'w) address_map result" where
  "add_memory_route md offset fr am =
     (let am' = am\<lparr>am_memory_routes :=
            put_route \<lparr>rt_id = md_id md, rt_offset = offset, rt_frontdoor = fr\<rparr> (am_memory_routes am)\<rparr>
      in result_bind (effective_memory_address md 0 am') (\<lambda>_. Ok am'))"

definition use_frontdoor ::
  "register_descriptor \<Rightarrow> ('a::len word, 'd, 'e, 'w) frontdoor \<Rightarrow>
   ('a word, 'd, 'e, 'w) address_map \<Rightarrow> ('a word, 'd, 'e, 'w) address_map result" where
  "use_frontdoor rd fr am = add_route rd (route_offset (rd_id rd) (rd_address rd) (am_routes am)) (Some fr) am"

definition use_memory_frontdoor ::
  "memory_descriptor \<Rightarrow> ('a::len word, 'd, 'e, 'w) memory_frontdoor \<Rightarrow>
   ('a word, 'd, 'e, 'w) address_map \<Rightarrow> ('a word, 'd, 'e, 'w) address_map result" where
  "use_memory_frontdoor md fr am =
     add_memory_route md (route_offset (md_id md) (md_address md) (am_memory_routes am)) (Some fr) am"

section \<open>Transfers\<close>

definition map_write ::
  "register_descriptor \<Rightarrow> 'a \<Rightarrow> 'd \<Rightarrow> 'e \<Rightarrow> ('a, 'd, 'e, 'w) address_map \<Rightarrow> 'w \<Rightarrow> write_response \<times> 'w" where
  "map_write rd address data byte_enable am w =
     (case find_route (rd_id rd) (am_routes am) of
        None \<Rightarrow> ms_write (am_master am) address data byte_enable w
      | Some r \<Rightarrow>
          (case rt_frontdoor r of
             None \<Rightarrow> ms_write (am_master am) address data byte_enable w
           | Some fr \<Rightarrow> fr_write fr (am_master am) rd address data byte_enable w))"

definition map_read ::
  "register_descriptor \<Rightarrow> 'a \<Rightarrow> ('a, 'd, 'e, 'w) address_map \<Rightarrow> 'w \<Rightarrow> 'd read_response \<times> 'w" where
  "map_read rd address am w =
     (case find_route (rd_id rd) (am_routes am) of
        None \<Rightarrow> ms_read (am_master am) address w
      | Some r \<Rightarrow>
          (case rt_frontdoor r of
             None \<Rightarrow> ms_read (am_master am) address w
           | Some fr \<Rightarrow> fr_read fr (am_master am) rd address w))"

definition map_memory_write ::
  "memory_descriptor \<Rightarrow> u64 \<Rightarrow> 'a \<Rightarrow> 'd \<Rightarrow> 'e \<Rightarrow> ('a, 'd, 'e, 'w) address_map \<Rightarrow> 'w \<Rightarrow> write_response \<times> 'w" where
  "map_memory_write md i address data byte_enable am w =
     (case find_route (md_id md) (am_memory_routes am) of
        None \<Rightarrow> ms_write (am_master am) address data byte_enable w
      | Some r \<Rightarrow>
          (case rt_frontdoor r of
             None \<Rightarrow> ms_write (am_master am) address data byte_enable w
           | Some fr \<Rightarrow> mf_write fr (am_master am) md i address data byte_enable w))"

definition map_memory_read ::
  "memory_descriptor \<Rightarrow> u64 \<Rightarrow> 'a \<Rightarrow> ('a, 'd, 'e, 'w) address_map \<Rightarrow> 'w \<Rightarrow> 'd read_response \<times> 'w" where
  "map_memory_read md i address am w =
     (case find_route (md_id md) (am_memory_routes am) of
        None \<Rightarrow> ms_read (am_master am) address w
      | Some r \<Rightarrow>
          (case rt_frontdoor r of
             None \<Rightarrow> ms_read (am_master am) address w
           | Some fr \<Rightarrow> mf_read fr (am_master am) md i address w))"

end
