(* ===== verification/RegisterHandle.thy ===== *)
theory RegisterHandle
  imports RegisterMap
begin

text \<open>
  Registers of up to 64 bits (\<open>RegisterHandle\<close> and \<open>RegisterFieldHandle\<close> in \<open>register_model.hpp\<close>): the
  staged and the mirrored value, which of their bits are known, and the operations that predict,
  stage, read, write, update, mirror, peek and poke. An operation on the bus runs under the lock of
  its handle and is one function here, which takes the handle and the state of everything outside.
  What the code reports to the test is appended to \<open>rh_reports\<close>.
\<close>

section \<open>Handles\<close>

datatype access_error = NoAccessError | RegisterWidthError | TransferWidthError | AddressWidthError

datatype register_report =
    UpdateWarning string u64 u64
  | MirrorExpected string u64 u64

record 'w register_backdoor =
  bd_peek :: "register_descriptor \<Rightarrow> u64 \<Rightarrow> 'w \<Rightarrow> u64 \<times> 'w"
  bd_poke :: "register_descriptor \<Rightarrow> u64 \<Rightarrow> u64 \<Rightarrow> 'w \<Rightarrow> 'w"

record register_write_response =
  xw_transport :: write_response
  xw_transfers :: nat
  xw_failed :: "u64 option"

record 'd register_read_response =
  xr_data :: u64
  xr_transport :: "'d read_response"
  xr_valid :: u64
  xr_transfers :: nat
  xr_failed :: "u64 option"

record ('a, 'd, 'e, 'w) register_handle =
  rh_master :: "('a, 'd, 'e, 'w) master"
  rh_desc :: register_descriptor
  rh_backdoor :: "'w register_backdoor option"
  rh_policy :: "field_policy option"
  rh_auto_predict :: bool
  rh_staged :: u64
  rh_mirrored :: u64
  rh_staged_valid :: u64
  rh_mirrored_valid :: u64
  rh_address :: u64
  rh_written_once :: u64
  rh_width_mask :: u64
  rh_chunk_mask :: u64
  rh_nonvolatile_mask :: u64
  rh_writable_mask :: u64
  rh_write_once_mask :: u64
  rh_transfer_count :: nat
  rh_access_width :: nat
  rh_all_bytes :: 'e
  rh_readable :: bool
  rh_writable :: bool
  rh_write_once_only :: bool
  rh_access_error :: access_error
  rh_reports :: "register_report list"

text \<open>What the masks of the fields add up to; the flags are whether a writable field was seen and whether
  all of them are write-once.\<close>

fun field_metadata ::
  "field_descriptor list \<Rightarrow> bool \<Rightarrow> bool \<Rightarrow> ('a, 'd, 'e, 'w) register_handle \<Rightarrow> ('a, 'd, 'e, 'w) register_handle" where
  "field_metadata [] saw_writable only_write_once h =
     h\<lparr>rh_write_once_only := saw_writable \<and> only_write_once\<rparr>"
| "field_metadata (f # fs) saw_writable only_write_once h =
     (let m = register_field_mask f;
          h = (if register_readable (fd_access f) then
                 h\<lparr>rh_readable := True,
                   rh_nonvolatile_mask := if fd_volatile f then rh_nonvolatile_mask h else rh_nonvolatile_mask h OR m\<rparr>
               else h)
      in if \<not> register_writable (fd_access f) then field_metadata fs saw_writable only_write_once h
         else
           let h = h\<lparr>rh_writable := True, rh_writable_mask := rh_writable_mask h OR m\<rparr>
           in if fd_access f = RegWriteOnce \<or> fd_access f = RegReadWriteOnce
              then field_metadata fs True only_write_once (h\<lparr>rh_write_once_mask := rh_write_once_mask h OR m\<rparr>)
              else field_metadata fs True False h)"

definition low_bits :: "nat \<Rightarrow> u64" where
  "low_bits bytes = (if bytes \<ge> 64 then - 1 else push_bit bytes 1 - 1)"

definition initialize_metadata ::
  "('a, 'd, 'e::len word, 'w) register_handle \<Rightarrow> ('a, 'd, 'e word, 'w) register_handle" where
  "initialize_metadata h =
     (let rd = rh_desc h;
          access_width = (if rd_access_width rd = 0 then rd_width rd else rd_access_width rd);
          h = h\<lparr>rh_width_mask := register_mask (rd_width rd), rh_access_width := access_width,
                rh_chunk_mask := register_mask access_width,
                rh_all_bytes := ucast (low_bits (access_width div 8)),
                rh_transfer_count := if access_width = 0 then 0 else rd_width rd div access_width\<rparr>
      in if rd_fields rd = [] then
           h\<lparr>rh_readable := True, rh_writable := True, rh_nonvolatile_mask := rh_width_mask h,
             rh_writable_mask := rh_width_mask h\<rparr>
         else field_metadata (rd_fields rd) False True h)"

definition initialize_access_validation ::
  "('a::len word, 'd::len word, 'e, 'w) register_handle \<Rightarrow> ('a word, 'd word, 'e, 'w) register_handle" where
  "initialize_access_validation h =
     (let rd = rh_desc h; transfer_width = rh_access_width h
      in if rd_width rd = 0 \<or> rd_width rd mod 8 \<noteq> 0 \<or> rd_width rd > 64
         then h\<lparr>rh_access_error := RegisterWidthError\<rparr>
         else if transfer_width = 0 \<or> transfer_width mod 8 \<noteq> 0 \<or> transfer_width > rd_width rd \<or>
           rd_width rd mod transfer_width \<noteq> 0 \<or> transfer_width > LENGTH('d)
         then h\<lparr>rh_access_error := TransferWidthError\<rparr>
         else if \<not> fits_address TYPE('a)
           (rh_address h + of_nat (rh_transfer_count h - 1) * of_nat (rh_access_width h div 8))
         then h\<lparr>rh_access_error := AddressWidthError\<rparr> else h)"

definition register_handle_init ::
  "('a::len word, 'd::len word, 'e::len word, 'w) master \<Rightarrow> register_descriptor \<Rightarrow> u64 \<Rightarrow>
   'w register_backdoor option \<Rightarrow> field_policy option \<Rightarrow> ('a word, 'd word, 'e word, 'w) register_handle result" where
  "register_handle_init m rd base backdoor policy =
     (let staged = rd_reset_value rd AND rd_reset_mask rd AND register_mask (rd_width rd);
          valid = rd_reset_mask rd AND register_mask (rd_width rd);
          address = base + rd_address rd
      in if base > - 1 - rd_address rd then Fail (InvalidArgument ''register base plus offset overflows'')
         else result_bind (validate_field_layout rd) (\<lambda>_.
           if rd_width rd mod 8 = 0 \<and> of_nat (rd_width rd div 8) > - 1 - address
           then Fail (InvalidArgument ''register address range overflows'')
           else if \<not> fits_address TYPE('a) address
           then Fail (InvalidArgument ''register address exceeds frontdoor address width'')
           else Ok (initialize_access_validation (initialize_metadata
             \<lparr>rh_master = m, rh_desc = rd, rh_backdoor = backdoor, rh_policy = policy, rh_auto_predict = True,
              rh_staged = staged, rh_mirrored = staged, rh_staged_valid = valid, rh_mirrored_valid = valid,
              rh_address = address, rh_written_once = 0, rh_width_mask = 0, rh_chunk_mask = 0,
              rh_nonvolatile_mask = 0, rh_writable_mask = 0, rh_write_once_mask = 0, rh_transfer_count = 0,
              rh_access_width = 0, rh_all_bytes = 0, rh_readable = False, rh_writable = False,
              rh_write_once_only = False, rh_access_error = NoAccessError, rh_reports = []\<rparr>))))"

fun access_failure :: "access_error \<Rightarrow> failure" where
  "access_failure RegisterWidthError = LogicError ''register must be byte-aligned and no wider than 64 bits''"
| "access_failure TransferWidthError =
     LogicError ''register accesswidth must be byte-aligned, divide regwidth, and fit the frontdoor data width''"
| "access_failure AddressWidthError =
     LogicError ''split register transfer address exceeds the frontdoor address width''"
| "access_failure NoAccessError = Abort ''''"

definition require_supported_access :: "('a, 'd, 'e, 'w) register_handle \<Rightarrow> unit result" where
  "require_supported_access h =
     (if rh_access_error h \<noteq> NoAccessError then Fail (access_failure (rh_access_error h)) else Ok ())"

definition set_auto_predict :: "bool \<Rightarrow> ('a, 'd, 'e, 'w) register_handle \<Rightarrow> ('a, 'd, 'e, 'w) register_handle" where
  "set_auto_predict enabled h = h\<lparr>rh_auto_predict := enabled\<rparr>"

section \<open>Staging\<close>

text \<open>An accessor of the handle first checks that the register can be accessed.\<close>

definition supported :: "('a, 'd, 'e, 'w) register_handle \<Rightarrow> 'r \<Rightarrow> 'r result" where
  "supported h r = result_bind (require_supported_access h) (\<lambda>_. Ok r)"

definition staged_value :: "('a, 'd, 'e, 'w) register_handle \<Rightarrow> u64 result" where
  "staged_value h = supported h (rh_staged h)"

definition mirrored_value :: "('a, 'd, 'e, 'w) register_handle \<Rightarrow> u64 result" where
  "mirrored_value h = supported h (rh_mirrored h)"

definition staged_valid_mask :: "('a, 'd, 'e, 'w) register_handle \<Rightarrow> u64 result" where
  "staged_valid_mask h = supported h (rh_staged_valid h)"

definition mirrored_valid_mask :: "('a, 'd, 'e, 'w) register_handle \<Rightarrow> u64 result" where
  "mirrored_valid_mask h = supported h (rh_mirrored_valid h)"

definition update_needed :: "('a, 'd, 'e, 'w) register_handle \<Rightarrow> bool" where
  "update_needed h =
     (rh_staged_valid h AND rh_writable_mask h AND
        ((rh_staged h XOR rh_mirrored h) OR NOT (rh_mirrored_valid h)) \<noteq> 0)"

definition needs_update :: "('a, 'd, 'e, 'w) register_handle \<Rightarrow> bool result" where
  "needs_update h = supported h (update_needed h)"

definition stage_fields :: "u64 \<Rightarrow> field_descriptor list \<Rightarrow> u64 \<Rightarrow> u64" where
  "stage_fields v fs staged =
     fold (\<lambda>f staged. if register_writable (fd_access f) then insert_field staged (drop_bit (fd_lsb f) v) f
                      else staged) fs staged"

definition stage :: "u64 \<Rightarrow> ('a, 'd, 'e, 'w) register_handle \<Rightarrow> ('a, 'd, 'e, 'w) register_handle result" where
  "stage v h =
     supported h
       (if rd_fields (rh_desc h) = []
        then h\<lparr>rh_staged := v AND rh_width_mask h, rh_staged_valid := rh_width_mask h\<rparr>
        else h\<lparr>rh_staged := stage_fields v (rd_fields (rh_desc h)) (rh_staged h),
               rh_staged_valid := rh_staged_valid h OR rh_writable_mask h\<rparr>)"

definition stage_field ::
  "u64 \<Rightarrow> field_descriptor \<Rightarrow> ('a, 'd, 'e, 'w) register_handle \<Rightarrow> ('a, 'd, 'e, 'w) register_handle result" where
  "stage_field v f h =
     supported h
       (h\<lparr>rh_staged := insert_field (rh_staged h) v f,
          rh_staged_valid := rh_staged_valid h OR register_field_mask f\<rparr>)"

definition reset :: "('a, 'd, 'e, 'w) register_handle \<Rightarrow> ('a, 'd, 'e, 'w) register_handle result" where
  "reset h =
     (let rd = rh_desc h;
          staged = rd_reset_value rd AND rd_reset_mask rd AND rh_width_mask h;
          valid = rd_reset_mask rd AND rh_width_mask h
      in supported h (h\<lparr>rh_staged := staged, rh_mirrored := staged, rh_staged_valid := valid,
           rh_mirrored_valid := valid, rh_written_once := 0\<rparr>))"

section \<open>Prediction\<close>

text \<open>
  The effect of a write on one field: the new value and the known bits, from those before it. The
  bits of the field that are enabled and not yet written once are taken over.
\<close>

definition place_field :: "u64 \<Rightarrow> u64 \<Rightarrow> field_descriptor \<Rightarrow> u64" where
  "place_field v field_value f =
     (v AND NOT (register_field_mask f)) OR push_bit (fd_lsb f) (field_value AND register_mask (fd_width f))"

definition write_effect_of ::
  "register_descriptor \<Rightarrow> field_policy option \<Rightarrow> u64 \<Rightarrow> field_descriptor \<Rightarrow> u64 \<times> u64 \<Rightarrow> u64 \<times> u64" where
  "write_effect_of rd policy v f = (\<lambda>(next_value, next_valid).
     case (fd_write_effect f, policy) of
       (WriteUser, Some pl) \<Rightarrow>
         let (result, result_valid) = pl_predict_write pl rd f (extract_field next_value f)
               (extract_field next_valid f) (extract_field v f)
         in (place_field next_value result f, place_field next_valid result_valid f)
     | _ \<Rightarrow> (apply_write_effect next_value v f, apply_write_valid_mask next_valid v f))"

definition take_bits :: "u64 \<Rightarrow> u64 \<Rightarrow> u64 \<Rightarrow> u64" where
  "take_bits m old new = (old AND NOT m) OR (new AND m)"

definition predict_write_field ::
  "register_descriptor \<Rightarrow> field_policy option \<Rightarrow> u64 \<Rightarrow> u64 \<Rightarrow> field_descriptor \<Rightarrow> u64 \<times> u64 \<Rightarrow> u64 \<times> u64" where
  "predict_write_field rd policy v enabled f = (\<lambda>(next_value, next_valid).
     let field_enabled = register_field_mask f AND enabled
     in if \<not> register_writable (fd_access f) \<or> field_enabled = 0 then (next_value, next_valid)
        else
          let (effected, effected_valid) = write_effect_of rd policy v f (next_value, next_valid)
          in (take_bits field_enabled next_value effected, take_bits field_enabled next_valid effected_valid))"

definition predict_write_masked ::
  "u64 \<Rightarrow> u64 \<Rightarrow> ('a, 'd, 'e, 'w) register_handle \<Rightarrow> ('a, 'd, 'e, 'w) register_handle" where
  "predict_write_masked v enabled h =
     (let enabled = enabled AND rh_width_mask h
      in if rd_fields (rh_desc h) = [] then
           let mirrored = take_bits enabled (rh_mirrored h) v AND rh_width_mask h;
               valid = (rh_mirrored_valid h OR enabled) AND rh_width_mask h
           in h\<lparr>rh_mirrored := mirrored, rh_staged := mirrored, rh_mirrored_valid := valid, rh_staged_valid := valid\<rparr>
         else
           let (next_value, next_valid) =
                 fold (predict_write_field (rh_desc h) (rh_policy h) v (enabled AND NOT (rh_written_once h)))
                   (rd_fields (rh_desc h)) (rh_mirrored h, rh_mirrored_valid h);
               m = rh_writable_mask h AND enabled
           in h\<lparr>rh_mirrored := next_value AND rh_width_mask h,
                rh_staged := take_bits m (rh_staged h) next_value AND rh_width_mask h,
                rh_mirrored_valid := next_valid AND rh_width_mask h,
                rh_staged_valid := take_bits m (rh_staged_valid h) next_valid AND rh_width_mask h,
                rh_written_once := rh_written_once h OR (rh_write_once_mask h AND enabled)\<rparr>)"

definition read_effect_of ::
  "register_descriptor \<Rightarrow> field_policy option \<Rightarrow> u64 \<Rightarrow> u64 \<Rightarrow> field_descriptor \<Rightarrow> u64 \<times> u64 \<Rightarrow> u64 \<times> u64" where
  "read_effect_of rd policy v sampled f = (\<lambda>(next_value, next_valid).
     case (fd_read_effect f, policy) of
       (ReadUser, Some pl) \<Rightarrow>
         let (result, result_valid) = pl_predict_read pl rd f (extract_field next_value f)
               (extract_field next_valid f) (extract_field v f)
         in (place_field sampled result f, place_field next_valid result_valid f)
     | _ \<Rightarrow> (apply_read_effect sampled f, apply_read_valid_mask next_valid f))"

definition predict_read_field ::
  "register_descriptor \<Rightarrow> field_policy option \<Rightarrow> u64 \<Rightarrow> u64 \<Rightarrow> field_descriptor \<Rightarrow>
   u64 \<times> u64 \<times> u64 \<times> u64 \<Rightarrow> u64 \<times> u64 \<times> u64 \<times> u64" where
  "predict_read_field rd policy v enabled f = (\<lambda>(next_value, next_valid, staged, staged_valid).
     let field_enabled = register_field_mask f AND enabled
     in if \<not> register_readable (fd_access f) \<or> field_enabled = 0
        then (next_value, next_valid, staged, staged_valid)
        else
          let sampled = take_bits field_enabled next_value v;
              (effected, effected_valid) = read_effect_of rd policy v sampled f (next_value, next_valid);
              next_value = take_bits field_enabled next_value effected;
              next_valid = take_bits field_enabled next_valid effected_valid
          in (next_value, next_valid, take_bits field_enabled staged next_value,
              take_bits field_enabled staged_valid next_valid))"

definition predict_read_masked ::
  "u64 \<Rightarrow> u64 \<Rightarrow> ('a, 'd, 'e, 'w) register_handle \<Rightarrow> ('a, 'd, 'e, 'w) register_handle" where
  "predict_read_masked v enabled h =
     (let enabled = enabled AND rh_width_mask h
      in if enabled = 0 then h
         else if rd_fields (rh_desc h) = [] then
           let mirrored = take_bits enabled (rh_mirrored h) v
           in h\<lparr>rh_mirrored := mirrored, rh_staged := take_bits enabled (rh_staged h) mirrored,
                rh_mirrored_valid := rh_mirrored_valid h OR enabled,
                rh_staged_valid := rh_staged_valid h OR enabled\<rparr>
         else
           let (next_value, next_valid, staged, staged_valid) =
                 fold (predict_read_field (rh_desc h) (rh_policy h) v enabled) (rd_fields (rh_desc h))
                   (rh_mirrored h, rh_mirrored_valid h, rh_staged h, rh_staged_valid h)
           in h\<lparr>rh_mirrored := next_value AND rh_width_mask h, rh_staged := staged AND rh_width_mask h,
                rh_mirrored_valid := next_valid AND rh_width_mask h,
                rh_staged_valid := staged_valid AND rh_width_mask h\<rparr>)"

definition predict_value ::
  "u64 \<Rightarrow> register_prediction \<Rightarrow> ('a, 'd, 'e, 'w) register_handle \<Rightarrow> ('a, 'd, 'e, 'w) register_handle result" where
  "predict_value v prediction h =
     supported h
       (if prediction = PredictDirect \<or> rd_fields (rh_desc h) = [] \<and> prediction = PredictRead then
          h\<lparr>rh_mirrored := v AND rh_width_mask h, rh_staged := v AND rh_width_mask h,
            rh_mirrored_valid := rh_width_mask h, rh_staged_valid := rh_width_mask h\<rparr>
        else if prediction = PredictWrite then predict_write_masked v (rh_width_mask h) h
        else predict_read_masked v (rh_width_mask h) h)"

text \<open>The bits of the enabled bytes, of the first \<open>bytes\<close> bytes.\<close>

definition byte_mask :: "nat \<Rightarrow> u64 \<Rightarrow> u64" where
  "byte_mask bytes byte_enable =
     fold (\<lambda>i enabled. if drop_bit i byte_enable AND 1 \<noteq> 0 then enabled OR push_bit (i * 8) 0xff else enabled)
       [0..<bytes] 0"

definition predict_write ::
  "u64 \<Rightarrow> 'e::len word \<Rightarrow> ('a, 'd, 'e word, 'w) register_handle \<Rightarrow> ('a, 'd, 'e word, 'w) register_handle result" where
  "predict_write v byte_enable h =
     supported h (predict_write_masked v (byte_mask (rd_width (rh_desc h) div 8) (ucast byte_enable)) h)"

definition valid_byte_enable_mask :: "('a, 'd, 'e, 'w) register_handle \<Rightarrow> u64 result" where
  "valid_byte_enable_mask h = supported h (low_bits (rh_access_width h div 8))"

definition handle_end :: "('a, 'd, 'e, 'w) register_handle \<Rightarrow> u64" where
  "handle_end h = rh_address h + of_nat (rd_width (rh_desc h) div 8)"

definition end_address :: "('a, 'd, 'e, 'w) register_handle \<Rightarrow> u64 result" where
  "end_address h = supported h (handle_end h)"

definition is_transfer_address :: "u64 \<Rightarrow> ('a, 'd, 'e, 'w) register_handle \<Rightarrow> bool result" where
  "is_transfer_address address h =
     supported h
       (if address < rh_address h \<or> address \<ge> handle_end h then False
        else (address - rh_address h) mod of_nat (rh_access_width h div 8) = 0)"

definition require_transfer_address :: "u64 \<Rightarrow> ('a, 'd, 'e, 'w) register_handle \<Rightarrow> nat result" where
  "require_transfer_address address h =
     result_bind (is_transfer_address address h) (\<lambda>yes.
       if \<not> yes then Fail (LogicError ''register predictor transaction is not aligned to an accesswidth transfer'')
       else Ok (unat (ucast ((address - rh_address h) div of_nat (rh_access_width h div 8)) :: u32)))"

definition transfer_bit_offset :: "nat \<Rightarrow> ('a, 'd, 'e, 'w) register_handle \<Rightarrow> nat" where
  "transfer_bit_offset transfer h =
     (if rd_endianness (rh_desc h) = RegLittle then transfer else rh_transfer_count h - transfer - 1) *
     rh_access_width h"

definition predict_transfer_read ::
  "u64 \<Rightarrow> 'd::len word \<Rightarrow> ('a, 'd word, 'e, 'w) register_handle \<Rightarrow> ('a, 'd word, 'e, 'w) register_handle result" where
  "predict_transfer_read address v h =
     result_bind (require_transfer_address address h) (\<lambda>transfer.
       let offset = transfer_bit_offset transfer h
       in Ok (predict_read_masked (push_bit offset (ucast v)) (push_bit offset (rh_chunk_mask h)) h))"

definition predict_transfer_write ::
  "u64 \<Rightarrow> 'd::len word \<Rightarrow> 'e::len word \<Rightarrow> ('a, 'd word, 'e word, 'w) register_handle \<Rightarrow>
   ('a, 'd word, 'e word, 'w) register_handle result" where
  "predict_transfer_write address v byte_enable h =
     result_bind (require_transfer_address address h) (\<lambda>transfer.
       let offset = transfer_bit_offset transfer h;
           enabled = push_bit offset (byte_mask (rh_access_width h div 8) (ucast byte_enable))
       in Ok (predict_write_masked (push_bit offset (ucast v)) enabled h))"

end
