(* ===== verification/RegisterBus.thy ===== *)
theory RegisterBus
  imports RegisterHandle
begin

text \<open>
  The operations of a register on the bus (\<open>read\<close>, \<open>write\<close>, \<open>update\<close>, \<open>mirror\<close>), through the
  backdoor, and through the handle of a field. A register wider than a transfer is split; a failed
  transfer ends the operation and leaves what was done before it. Each operation delivers its response
  or the exception it throws, the handle, and the state of everything outside.
\<close>

type_synonym ('a, 'd, 'e, 'w, 'r) register_task =
  "('a, 'd, 'e, 'w) register_handle \<Rightarrow> 'w \<Rightarrow> 'r result \<times> ('a, 'd, 'e, 'w) register_handle \<times> 'w"

definition empty_write_response :: register_write_response where
  "empty_write_response =
     \<lparr>xw_transport = \<lparr>wr_status = Okay, wr_wait_cycles = 0\<rparr>, xw_transfers = 0, xw_failed = None\<rparr>"

definition empty_read_response :: "'d::zero register_read_response" where
  "empty_read_response =
     \<lparr>xr_data = 0, xr_transport = \<lparr>rr_data = 0, rr_status = Okay, rr_wait_cycles = 0\<rparr>, xr_valid = 0,
      xr_transfers = 0, xr_failed = None\<rparr>"

definition transfer_address ::
  "nat \<Rightarrow> ('a::len word, 'd, 'e, 'w) address_map option \<Rightarrow> ('a word, 'd, 'e, 'w) register_handle \<Rightarrow> u64 result" where
  "transfer_address transfer am h =
     result_bind (case am of Some m \<Rightarrow> effective_address (rh_desc h) m | None \<Rightarrow> Ok (rh_address h)) (\<lambda>base.
       Ok (base + of_nat transfer * of_nat (rh_access_width h div 8)))"

definition bus_write ::
  "'a \<Rightarrow> 'd \<Rightarrow> 'e \<Rightarrow> ('a, 'd, 'e, 'w) address_map option \<Rightarrow> ('a, 'd, 'e, 'w) register_handle \<Rightarrow> 'w \<Rightarrow>
   write_response \<times> 'w" where
  "bus_write address data byte_enable am h w =
     (case am of
        Some m \<Rightarrow> map_write (rh_desc h) address data byte_enable m w
      | None \<Rightarrow> ms_write (rh_master h) address data byte_enable w)"

definition bus_read ::
  "'a \<Rightarrow> ('a, 'd, 'e, 'w) address_map option \<Rightarrow> ('a, 'd, 'e, 'w) register_handle \<Rightarrow> 'w \<Rightarrow> 'd read_response \<times> 'w" where
  "bus_read address am h w =
     (case am of
        Some m \<Rightarrow> map_read (rh_desc h) address m w
      | None \<Rightarrow> ms_read (rh_master h) address w)"

section \<open>Reading\<close>

fun read_transfers ::
  "nat list \<Rightarrow> ('a::len word, 'd::len word, 'e, 'w) address_map option \<Rightarrow> 'd word register_read_response \<Rightarrow>
   ('a word, 'd word, 'e, 'w, 'd word register_read_response) register_task" where
  "read_transfers [] am response h w = (Ok response, h, w)"
| "read_transfers (t # ts) am response h w =
     (case transfer_address t am h of
        Inl e \<Rightarrow> (Fail e, h, w)
      | Inr address \<Rightarrow>
          let (transport, w) = bus_read (ucast address) am h w;
              response = response\<lparr>xr_transport := transport\<rparr>
          in if \<not> memory_okay (rr_status transport) then (Ok (response\<lparr>xr_failed := Some address\<rparr>), h, w)
             else
               let offset = transfer_bit_offset t h;
                   enabled = push_bit offset (rh_chunk_mask h);
                   data = push_bit offset (ucast (rr_data transport) AND rh_chunk_mask h)
               in read_transfers ts am
                    (response\<lparr>xr_transfers := xr_transfers response + 1,
                       xr_data := (xr_data response AND NOT enabled) OR data,
                       xr_valid := xr_valid response OR enabled\<rparr>) h w)"

definition frontdoor_read ::
  "('a::len word, 'd::len word, 'e, 'w) address_map option \<Rightarrow>
   ('a word, 'd word, 'e, 'w, 'd word register_read_response) register_task" where
  "frontdoor_read am h w =
     (if \<not> rh_readable h then (Fail (LogicError ''register is not readable''), h, w)
      else case require_supported_access h of
        Inl e \<Rightarrow> (Fail e, h, w)
      | Inr _ \<Rightarrow> read_transfers [0..<rh_transfer_count h] am empty_read_response h w)"

definition read_locked ::
  "('a::len word, 'd::len word, 'e, 'w) address_map option \<Rightarrow>
   ('a word, 'd word, 'e, 'w, 'd word register_read_response) register_task" where
  "read_locked am h w =
     (case frontdoor_read am h w of
        (Inl e, h, w) \<Rightarrow> (Fail e, h, w)
      | (Inr response, h, w) \<Rightarrow>
          (Ok response,
           if rh_auto_predict h then predict_read_masked (xr_data response) (xr_valid response) h else h, w))"

section \<open>Writing\<close>

definition enforce_write_access :: "('a, 'd, 'e, 'w) register_handle \<Rightarrow> unit result" where
  "enforce_write_access h =
     (if \<not> rh_writable h then Fail (LogicError ''register is not writable'')
      else if rh_written_once h \<noteq> 0 \<and> rh_write_once_only h
      then Fail (LogicError ''write-once register was already written'')
      else Ok ())"

text \<open>The transfers of a write; \<open>predict_chunk\<close> is what a completed transfer does to the handle.\<close>

fun write_transfers ::
  "nat list \<Rightarrow> u64 \<Rightarrow> (u64 \<Rightarrow> ('a::len word, 'd::len word, 'e, 'w) register_handle \<Rightarrow> ('a word, 'd word, 'e, 'w) register_handle) \<Rightarrow>
   ('a word, 'd word, 'e, 'w) address_map option \<Rightarrow> register_write_response \<Rightarrow>
   ('a word, 'd word, 'e, 'w, register_write_response) register_task" where
  "write_transfers [] v predict_chunk am response h w = (Ok response, h, w)"
| "write_transfers (t # ts) v predict_chunk am response h w =
     (case transfer_address t am h of
        Inl e \<Rightarrow> (Fail e, h, w)
      | Inr address \<Rightarrow>
          let offset = transfer_bit_offset t h;
              (transport, w) = bus_write (ucast address) (ucast (drop_bit offset v AND rh_chunk_mask h)) (rh_all_bytes h) am h w;
              response = response\<lparr>xw_transport := transport\<rparr>
          in if \<not> memory_okay (wr_status transport) then (Ok (response\<lparr>xw_failed := Some address\<rparr>), h, w)
             else write_transfers ts v predict_chunk am (response\<lparr>xw_transfers := xw_transfers response + 1\<rparr>)
                    (if rh_auto_predict h then predict_chunk (push_bit offset (rh_chunk_mask h)) h else h) w)"

definition write_unlocked ::
  "u64 \<Rightarrow> ('a::len word, 'd::len word, 'e, 'w) address_map option \<Rightarrow>
   ('a word, 'd word, 'e, 'w, register_write_response) register_task" where
  "write_unlocked v am h w =
     (case result_bind (enforce_write_access h) (\<lambda>_. require_supported_access h) of
        Inl e \<Rightarrow> (Fail e, h, w)
      | Inr _ \<Rightarrow>
          let v = v AND rh_width_mask h
          in write_transfers [0..<rh_transfer_count h] v (predict_write_masked v) am empty_write_response h w)"

section \<open>Updating\<close>

definition staged_write_value :: "('a, 'd, 'e, 'w) register_handle \<Rightarrow> u64" where
  "staged_write_value h =
     (if rd_fields (rh_desc h) = [] then rh_staged h
      else fold (\<lambda>f written.
          if \<not> register_writable (fd_access f) then written
          else
            case (fd_write_effect f, rh_policy h) of
              (WriteUser, Some pl) \<Rightarrow>
                written OR push_bit (fd_lsb f)
                  (pl_encode_write pl (rh_desc h) f (extract_field (rh_mirrored h) f)
                     (extract_field (rh_mirrored_valid h) f) (extract_field (rh_staged h) f) AND
                   register_mask (fd_width f))
            | _ \<Rightarrow> written OR encode_staged_write (rh_mirrored h) (rh_mirrored_valid h) (rh_staged h) f)
        (rd_fields (rh_desc h)) 0)"

definition predicted_write_state :: "u64 \<Rightarrow> ('a, 'd, 'e, 'w) register_handle \<Rightarrow> u64 \<times> u64" where
  "predicted_write_state written h =
     (if rd_fields (rh_desc h) = [] then (written AND rh_width_mask h, rh_width_mask h)
      else
        let (next_value, next_valid) =
              fold (\<lambda>f state.
                  if register_writable (fd_access f) \<and> rh_written_once h AND register_field_mask f = 0
                  then write_effect_of (rh_desc h) (rh_policy h) written f state else state)
                (rd_fields (rh_desc h)) (rh_mirrored h, rh_mirrored_valid h)
        in (next_value AND rh_width_mask h, next_valid AND rh_width_mask h))"

definition commit_predicted_write_state ::
  "u64 \<times> u64 \<Rightarrow> ('a, 'd, 'e, 'w) register_handle \<Rightarrow> ('a, 'd, 'e, 'w) register_handle" where
  "commit_predicted_write_state predicted h =
     (let m = rh_writable_mask h AND rh_width_mask h
      in h\<lparr>rh_staged := take_bits m (rh_staged h) (fst predicted),
           rh_staged_valid := take_bits m (rh_staged_valid h) (snd predicted),
           rh_mirrored := fst predicted AND rh_width_mask h,
           rh_mirrored_valid := snd predicted AND rh_width_mask h,
           rh_written_once := rh_written_once h OR (rh_write_once_mask h AND rh_width_mask h)\<rparr>)"

definition update_locked ::
  "('a::len word, 'd::len word, 'e, 'w) address_map option \<Rightarrow>
   ('a word, 'd word, 'e, 'w, register_write_response) register_task" where
  "update_locked am h w =
     (case needs_update h of
        Inl e \<Rightarrow> (Fail e, h, w)
      | Inr needed \<Rightarrow>
          if \<not> needed then (Ok empty_write_response, h, w)
          else if rh_writable_mask h AND NOT (rh_staged_valid h) \<noteq> 0
          then (Fail (LogicError ''register update has unknown staged writable bits''), h, w)
          else
            let write_value = staged_write_value h;
                reachable = predicted_write_state write_value h;
                m = rh_writable_mask h AND rh_staged_valid h;
                h = (if (fst reachable XOR rh_staged h) AND m \<noteq> 0 \<or> snd reachable AND m \<noteq> m
                     then h\<lparr>rh_reports := rh_reports h @
                       [UpdateWarning (rd_path (rh_desc h)) (rh_staged h AND m) (fst reachable AND m)]\<rparr>
                     else h)
            in case result_bind (enforce_write_access h) (\<lambda>_. require_supported_access h) of
                 Inl e \<Rightarrow> (Fail e, h, w)
               | Inr _ \<Rightarrow>
                   write_transfers [0..<rh_transfer_count h] write_value
                     (if rh_transfer_count h = 1 then (\<lambda>_. commit_predicted_write_state reachable)
                      else predict_write_masked write_value) am empty_write_response h w)"

section \<open>Mirroring\<close>

definition mirror_locked ::
  "bool \<Rightarrow> ('a::len word, 'd::len word, 'e, 'w) address_map option \<Rightarrow>
   ('a word, 'd word, 'e, 'w, 'd word register_read_response) register_task" where
  "mirror_locked check am h w =
     (let previous = rh_mirrored h; previous_valid = rh_mirrored_valid h
      in case frontdoor_read am h w of
           (Inl e, h, w) \<Rightarrow> (Fail e, h, w)
         | (Inr response, h, w) \<Rightarrow>
             let compare_mask = rh_nonvolatile_mask h AND rh_width_mask h AND previous_valid AND xr_valid response;
                 h = (if check \<and> compare_mask \<noteq> 0
                      then h\<lparr>rh_reports := rh_reports h @
                        [MirrorExpected (rd_path (rh_desc h)) (xr_data response AND compare_mask) (previous AND compare_mask)]\<rparr>
                      else h)
             in (Ok response,
                 if rh_auto_predict h then predict_read_masked (xr_data response) (xr_valid response) h else h, w))"

section \<open>Backdoor\<close>

definition peek :: "('a, 'd, 'e, 'w, u64) register_task" where
  "peek h w =
     (case rh_backdoor h of
        None \<Rightarrow> (Fail (LogicError ''register has no backdoor adapter''), h, w)
      | Some bd \<Rightarrow>
          let (v, w) = bd_peek bd (rh_desc h) (rh_address h) w
          in (case predict_value v PredictDirect h of Inl e \<Rightarrow> (Fail e, h, w) | Inr h \<Rightarrow> (Ok v, h, w)))"

definition poke :: "u64 \<Rightarrow> ('a, 'd, 'e, 'w, unit) register_task" where
  "poke v h w =
     (case rh_backdoor h of
        None \<Rightarrow> (Fail (LogicError ''register has no backdoor adapter''), h, w)
      | Some bd \<Rightarrow>
          let w = bd_poke bd (rh_desc h) (rh_address h) v w
          in (case predict_value v PredictDirect h of Inl e \<Rightarrow> (Fail e, h, w) | Inr h \<Rightarrow> (Ok (), h, w)))"

section \<open>Fields\<close>

definition field_of :: "field_descriptor \<Rightarrow> u64 result \<Rightarrow> u64 result" where
  "field_of f r = result_bind r (\<lambda>v. Ok (extract_field v f))"

definition field_staged :: "field_descriptor \<Rightarrow> ('a, 'd, 'e, 'w) register_handle \<Rightarrow> u64 result" where
  "field_staged f h = field_of f (staged_value h)"

definition field_mirrored :: "field_descriptor \<Rightarrow> ('a, 'd, 'e, 'w) register_handle \<Rightarrow> u64 result" where
  "field_mirrored f h = field_of f (mirrored_value h)"

definition field_staged_valid :: "field_descriptor \<Rightarrow> ('a, 'd, 'e, 'w) register_handle \<Rightarrow> u64 result" where
  "field_staged_valid f h = field_of f (staged_valid_mask h)"

definition field_mirrored_valid :: "field_descriptor \<Rightarrow> ('a, 'd, 'e, 'w) register_handle \<Rightarrow> u64 result" where
  "field_mirrored_valid f h = field_of f (mirrored_valid_mask h)"

definition field_stage ::
  "u64 \<Rightarrow> field_descriptor \<Rightarrow> ('a, 'd, 'e, 'w) register_handle \<Rightarrow> ('a, 'd, 'e, 'w) register_handle result" where
  "field_stage v f h =
     (if \<not> register_writable (fd_access f) then Fail (LogicError ''field is not writable'') else stage_field v f h)"

definition field_read ::
  "field_descriptor \<Rightarrow> ('a::len word, 'd::len word, 'e, 'w) address_map option \<Rightarrow>
   ('a word, 'd word, 'e, 'w, 'd word register_read_response) register_task" where
  "field_read f am h w =
     (case read_locked am h w of
        (Inl e, h, w) \<Rightarrow> (Fail e, h, w)
      | (Inr response, h, w) \<Rightarrow>
          (Ok (response\<lparr>xr_data := extract_field (xr_data response) f,
                 xr_valid := extract_field (xr_valid response) f\<rparr>), h, w))"

definition field_write ::
  "u64 \<Rightarrow> field_descriptor \<Rightarrow> ('a::len word, 'd::len word, 'e, 'w) address_map option \<Rightarrow>
   ('a word, 'd word, 'e, 'w, register_write_response) register_task" where
  "field_write v f am h w =
     (case field_stage v f h of Inl e \<Rightarrow> (Fail e, h, w) | Inr h \<Rightarrow> update_locked am h w)"

end
