(* ===== verification/RegisterBits.thy ===== *)
theory RegisterBits
  imports RegisterBus
begin

text \<open>
  What the operations on fields do to a single bit, and the fold over the fields of a register: in a
  valid layout each bit belongs to at most one field, so a step per field acts on every bit at most
  once (locale \<open>field_steps\<close>, interpreted on the steps of the handle).
\<close>

section \<open>Bits of masks and fields\<close>

definition covers :: "field_descriptor \<Rightarrow> nat \<Rightarrow> bool" where
  "covers f i = (fd_lsb f \<le> i \<and> i < fd_lsb f + fd_width f)"

lemma bit_u64_high: "64 \<le> i \<Longrightarrow> \<not> bit (w :: u64) i"
  using bit_word_high [of i w] by simp

lemma bit_u64_low: "bit (w :: u64) i \<Longrightarrow> i < 64"
  using bit_u64_high [of i w] by (meson not_le)

lemma low_bits_eq: "low_bits n = mask n"
  unfolding low_bits_def push_one_minus_one by (auto intro!: bit_word_eqI simp: bit_mask_word)

lemma register_mask_eq: "register_mask n = mask n"
  unfolding register_mask_def push_one_minus_one by (auto intro!: bit_word_eqI simp: bit_mask_word)

lemma bit_register_mask [bits_at]: "bit (register_mask n) i \<longleftrightarrow> i < 64 \<and> i < n"
  by (simp add: register_mask_eq bit_mask_word)

lemma bit_register_field_mask [bits_at]: "bit (register_field_mask f) i \<longleftrightarrow> i < 64 \<and> covers f i"
  by (auto simp: register_field_mask_def bit_push_bit_iff bit_register_mask covers_def)

lemma bit_insert_field [bits_at]:
  "bit (insert_field v x f) i \<longleftrightarrow> i < 64 \<and> (if covers f i then bit x (i - fd_lsb f) else bit v i)"
  by (auto dest: bit_u64_low simp: insert_field_def Let_def bit_or_iff bit_and_iff bit_not_iff bit_push_bit_iff bits_at covers_def)

lemma bit_extract_field [bits_at]: "bit (extract_field v f) i \<longleftrightarrow> i < fd_width f \<and> bit v (fd_lsb f + i)"
  by (auto simp: extract_field_def bit_and_iff bit_drop_bit_eq bits_at dest: bit_u64_low)

lemma bit_place_field [bits_at]:
  "bit (place_field v x f) i \<longleftrightarrow> i < 64 \<and> (if covers f i then bit x (i - fd_lsb f) else bit v i)"
  by (auto dest: bit_u64_low simp: place_field_def bit_or_iff bit_and_iff bit_not_iff bit_push_bit_iff bits_at covers_def)

lemma bit_take_bits [bits_at]: "bit (take_bits m a b) i \<longleftrightarrow> (if bit m i then bit b i else bit a i)"
  by (auto simp: take_bits_def bit_or_iff bit_and_iff bit_not_iff dest: bit_u64_low)

lemma bit_low_bits [bits_at]: "bit (low_bits n) i \<longleftrightarrow> i < 64 \<and> i < n"
  by (auto simp: low_bits_eq bit_mask_word)

lemma bit_byte_mask [bits_at]: "bit (byte_mask n be) i \<longleftrightarrow> i < 64 \<and> i < 8 * n \<and> bit be (i div 8)"
proof (induction n)
  case 0
  show ?case by (simp add: byte_mask_def)
next
  case (Suc n)
  have ff: "(0xff :: u64) = mask 8" by (simp add: mask_eq_exp_minus_1)
  have one: "(drop_bit n be AND 1 \<noteq> 0) = bit be n"
    by (simp add: bit_iff_and_drop_bit_eq_1 and_one_eq odd_iff_mod_2_eq_one bit_iff_odd_drop_bit)
  have step: "byte_mask (Suc n) be = (if bit be n then byte_mask n be OR push_bit (n * 8) (mask 8) else byte_mask n be)"
    by (simp add: byte_mask_def one ff)
  have "i < 8 * Suc n \<and> \<not> i < 8 * n \<longleftrightarrow> n * 8 \<le> i \<and> i - n * 8 < 8"
    by auto
  moreover have "i div 8 = n" if "n * 8 \<le> i" "i < 8 + 8 * n"
    using that by (intro div_nat_eqI) auto
  ultimately show ?case
    by (auto simp: step Suc.IH bit_or_iff bit_push_bit_iff bit_mask_word)
qed

section \<open>Effects, bit by bit\<close>

fun write_bit :: "write_effect \<Rightarrow> bool \<Rightarrow> bool \<Rightarrow> bool" where
  "write_bit WritePlain old written = written"
| "write_bit WriteOneSet old written = (old \<or> written)"
| "write_bit WriteOneClear old written = (old \<and> \<not> written)"
| "write_bit WriteOneToggle old written = (old \<noteq> written)"
| "write_bit WriteZeroSet old written = (old \<or> \<not> written)"
| "write_bit WriteZeroClear old written = (old \<and> written)"
| "write_bit WriteZeroToggle old written = (old = written)"
| "write_bit WriteClear old written = False"
| "write_bit WriteSet old written = True"
| "write_bit WriteUser old written = written"

fun write_known :: "write_effect \<Rightarrow> bool \<Rightarrow> bool \<Rightarrow> bool" where
  "write_known WriteOneSet known written = (known \<or> written)"
| "write_known WriteOneClear known written = (known \<or> written)"
| "write_known WriteOneToggle known written = known"
| "write_known WriteZeroToggle known written = known"
| "write_known WriteZeroSet known written = (known \<or> \<not> written)"
| "write_known WriteZeroClear known written = (known \<or> \<not> written)"
| "write_known WriteUser known written = False"
| "write_known effect known written = True"

fun encode_bit :: "write_effect \<Rightarrow> bool \<Rightarrow> bool \<Rightarrow> bool \<Rightarrow> bool" where
  "encode_bit WriteOneSet old known staged = (staged \<and> (\<not> old \<or> \<not> known))"
| "encode_bit WriteOneClear old known staged = (\<not> staged \<and> (old \<or> \<not> known))"
| "encode_bit WriteOneToggle old known staged = (known \<and> old \<noteq> staged)"
| "encode_bit WriteZeroSet old known staged = (old \<and> known \<or> \<not> staged)"
| "encode_bit WriteZeroClear old known staged = (\<not> old \<and> known \<or> staged)"
| "encode_bit WriteZeroToggle old known staged = (known \<and> old = staged \<or> \<not> known)"
| "encode_bit WriteClear old known staged = False"
| "encode_bit WriteSet old known staged = False"
| "encode_bit effect old known staged = staged"

fun read_bit :: "read_effect \<Rightarrow> bool \<Rightarrow> bool" where
  "read_bit ReadPlain sampled = sampled"
| "read_bit ReadClear sampled = False"
| "read_bit ReadSet sampled = True"
| "read_bit ReadUser sampled = sampled"

lemma bit_apply_write_effect [bits_at]:
  assumes "i < 64"
  shows "bit (apply_write_effect previous written f) i =
    (if covers f i then write_bit (fd_write_effect f) (bit previous i) (bit written i) else bit previous i)"
  using assms
  by (cases "fd_write_effect f")
    (auto simp: apply_write_effect_def Let_def bits_at bit_or_iff bit_and_iff bit_not_iff bit_xor_iff covers_def)

lemma bit_apply_write_valid_mask [bits_at]:
  assumes "i < 64"
  shows "bit (apply_write_valid_mask previous_valid written f) i =
    (if covers f i then write_known (fd_write_effect f) (bit previous_valid i) (bit written i) else bit previous_valid i)"
  using assms
  by (cases "fd_write_effect f")
    (auto simp: apply_write_valid_mask_def Let_def bits_at bit_or_iff bit_and_iff bit_not_iff bit_xor_iff covers_def)

lemma bit_encode_staged_write [bits_at]:
  assumes "i < 64"
  shows "bit (encode_staged_write previous previous_valid staged f) i =
    (covers f i \<and> encode_bit (fd_write_effect f) (bit previous i) (bit previous_valid i) (bit staged i))"
  using assms
  by (cases "fd_write_effect f")
    (auto simp: encode_staged_write_def Let_def bits_at bit_or_iff bit_and_iff bit_not_iff bit_xor_iff covers_def)

lemma bit_apply_read_effect [bits_at]:
  assumes "i < 64"
  shows "bit (apply_read_effect sampled f) i = (if covers f i then read_bit (fd_read_effect f) (bit sampled i) else bit sampled i)"
  using assms by (cases "fd_read_effect f") (auto simp: apply_read_effect_def bits_at covers_def)

lemma bit_apply_read_valid_mask [bits_at]:
  assumes "i < 64"
  shows "bit (apply_read_valid_mask previous_valid f) i =
    (if covers f i then fd_read_effect f \<noteq> ReadUser else bit previous_valid i)"
  using assms by (auto simp: apply_read_valid_mask_def bits_at covers_def)

text \<open>The overload for a known previous value is the general one.\<close>

lemma encode_staged_write_known_eq: "encode_staged_write_known previous staged f = encode_staged_write previous (- 1) staged f"
proof (rule bit_word_eqI)
  fix i assume "i < LENGTH(64)"
  then have i: "i < 64" by simp
  then show "bit (encode_staged_write_known previous staged f) i = bit (encode_staged_write previous (- 1) staged f) i"
    by (cases "fd_write_effect f")
      (auto simp: encode_staged_write_known_def Let_def bits_at bit_or_iff bit_and_iff bit_not_iff bit_xor_iff covers_def)
qed

section \<open>Layouts\<close>

definition disjoint_fields :: "field_descriptor list \<Rightarrow> bool" where
  "disjoint_fields fs = sorted_wrt (\<lambda>f g. \<forall>i. \<not> (covers f i \<and> covers g i)) fs"

definition field_at :: "field_descriptor list \<Rightarrow> nat \<Rightarrow> field_descriptor option" where
  "field_at fs i = find (\<lambda>f. covers f i) fs"

lemma overlaps_previous_iff:
  "0 < fd_width f \<Longrightarrow> \<forall>p \<in> set ps. 0 < fd_width p \<Longrightarrow>
   overlaps_previous f ps \<longleftrightarrow> (\<exists>p \<in> set ps. \<exists>i. covers p i \<and> covers f i)"
proof (induction ps)
  case Nil
  show ?case by simp
next
  case (Cons p ps)
  have "(fd_lsb f < fd_lsb p + fd_width p \<and> fd_lsb p < fd_lsb f + fd_width f) = (\<exists>i. covers p i \<and> covers f i)"
    using Cons.prems
    by (auto simp: covers_def intro: exI [of _ "max (fd_lsb f) (fd_lsb p)"])
  with Cons show ?case by auto
qed

lemma validate_fields_Ok:
  "validate_fields width previous fs = Ok () \<Longrightarrow> disjoint_fields previous \<Longrightarrow>
   \<forall>p \<in> set previous. 0 < fd_width p \<and> fd_lsb p + fd_width p \<le> width \<Longrightarrow>
   disjoint_fields (previous @ fs) \<and> (\<forall>p \<in> set (previous @ fs). 0 < fd_width p \<and> fd_lsb p + fd_width p \<le> width)"
proof (induction fs arbitrary: previous)
  case Nil
  then show ?case by simp
next
  case (Cons f fs)
  then have ok: "0 < fd_width f \<and> fd_lsb f + fd_width f \<le> width" "\<not> overlaps_previous f previous"
    "validate_fields width (previous @ [f]) fs = Ok ()"
    by (auto split: if_split_asm)
  have "\<forall>p \<in> set previous. \<forall>i. \<not> (covers p i \<and> covers f i)"
    using overlaps_previous_iff [of f previous] ok(1,2) Cons.prems(3) by (metis (no_types, lifting))
  then have "disjoint_fields (previous @ [f])"
    using Cons.prems(2) by (simp add: disjoint_fields_def sorted_wrt_append)
  from Cons.IH [OF ok(3) this] show ?case
    using ok(1) Cons.prems(3) by auto
qed

lemma validate_field_layout_Ok:
  assumes "validate_field_layout rd = Ok ()"
  shows "disjoint_fields (rd_fields rd)"
    and "f \<in> set (rd_fields rd) \<Longrightarrow> 0 < fd_width f \<and> fd_lsb f + fd_width f \<le> rd_width rd"
  using validate_fields_Ok [of "rd_width rd" "[]" "rd_fields rd"] assms
  by (auto simp: validate_field_layout_def disjoint_fields_def)

lemma field_at_Some: "field_at fs i = Some f \<Longrightarrow> f \<in> set fs \<and> covers f i"
  by (auto simp: field_at_def find_Some_iff)

lemma field_at_None: "field_at fs i = None \<longleftrightarrow> (\<forall>f \<in> set fs. \<not> covers f i)"
  by (auto simp: field_at_def find_None_iff)

lemma field_at_eqI:
  assumes "disjoint_fields fs" "f \<in> set fs" "covers f i"
  shows "field_at fs i = Some f"
  using assms
proof (induction fs)
  case (Cons g fs)
  then show ?case by (auto simp: field_at_def disjoint_fields_def)
qed simp

section \<open>One step per field\<close>

locale field_steps =
  fixes obs :: "'s \<Rightarrow> nat \<Rightarrow> 'o"
    and field_step :: "field_descriptor \<Rightarrow> 's \<Rightarrow> 's"
  assumes outside: "i < 64 \<Longrightarrow> \<not> covers f i \<Longrightarrow> obs (field_step f s) i = obs s i"
    and inside: "(\<And>i. i < 64 \<Longrightarrow> covers f i \<Longrightarrow> obs s i = obs s' i) \<Longrightarrow> i < 64 \<Longrightarrow> covers f i \<Longrightarrow>
      obs (field_step f s) i = obs (field_step f s') i"
begin

lemma fold_outside:
  "i < 64 \<Longrightarrow> \<forall>f \<in> set fs. \<not> covers f i \<Longrightarrow> obs (fold field_step fs s) i = obs s i"
  by (induction fs arbitrary: s) (auto simp: outside)

lemma fold_inside:
  assumes "disjoint_fields fs" "f \<in> set fs" "i < 64" "covers f i"
  shows "obs (fold field_step fs s) i = obs (field_step f s) i"
  using assms
proof (induction fs arbitrary: s)
  case Nil
  then show ?case by simp
next
  case (Cons g fs)
  show ?case
  proof (cases "f = g")
    case True
    then have "\<forall>h \<in> set fs. \<not> covers h i"
      using Cons.prems by (auto simp: disjoint_fields_def)
    with True Cons.prems(3) show ?thesis by (simp add: fold_outside)
  next
    case False
    then have f: "f \<in> set fs" "\<forall>j. \<not> (covers g j \<and> covers f j)"
      using Cons.prems by (auto simp: disjoint_fields_def)
    have "obs (fold field_step fs (field_step g s)) i = obs (field_step f (field_step g s)) i"
      using Cons f by (simp add: disjoint_fields_def)
    also have "\<dots> = obs (field_step f s) i"
      by (rule inside) (use f Cons.prems outside in auto)
    finally show ?thesis by simp
  qed
qed

lemma fold_at:
  assumes "disjoint_fields fs" "i < 64"
  shows "obs (fold field_step fs s) i = (case field_at fs i of None \<Rightarrow> obs s i | Some f \<Rightarrow> obs (field_step f s) i)"
  using assms fold_outside [of i fs s] fold_inside [of fs _ i s]
  by (auto simp: field_at_None dest: field_at_Some split: option.split)

end

text \<open>The steps of the handle.\<close>

lemma extract_field_cong:
  assumes "\<And>i. i < 64 \<Longrightarrow> covers f i \<Longrightarrow> bit a i = bit b i"
  shows "extract_field a f = extract_field b f"
proof (rule bit_word_eqI)
  fix i :: nat
  show "bit (extract_field a f) i = bit (extract_field b f) i"
    using assms [of "fd_lsb f + i"] bit_u64_low [of a "fd_lsb f + i"] bit_u64_low [of b "fd_lsb f + i"]
    by (auto simp: bits_at covers_def)
qed

definition pair_bits :: "u64 \<times> u64 \<Rightarrow> nat \<Rightarrow> bool \<times> bool" where
  "pair_bits s i = (bit (fst s) i, bit (snd s) i)"

lemma pair_bits_eqD: "pair_bits s i = pair_bits s' i \<Longrightarrow> bit (fst s) i = bit (fst s') i \<and> bit (snd s) i = bit (snd s') i"
  by (simp add: pair_bits_def)

text \<open>The effect of a write on the bits of a field, policies included.\<close>

definition write_effect_bits ::
  "register_descriptor \<Rightarrow> field_policy option \<Rightarrow> u64 \<Rightarrow> field_descriptor \<Rightarrow> u64 \<times> u64 \<Rightarrow> nat \<Rightarrow> bool \<times> bool" where
  "write_effect_bits rd policy v f s i =
     (case (fd_write_effect f, policy) of
        (WriteUser, Some pl) \<Rightarrow>
          let r = pl_predict_write pl rd f (extract_field (fst s) f) (extract_field (snd s) f) (extract_field v f)
          in (bit (fst r) (i - fd_lsb f), bit (snd r) (i - fd_lsb f))
      | _ \<Rightarrow> (write_bit (fd_write_effect f) (bit (fst s) i) (bit v i), write_known (fd_write_effect f) (bit (snd s) i) (bit v i)))"

lemma write_effect_of_bits:
  assumes "i < 64"
  shows "pair_bits (write_effect_of rd policy v f s) i =
    (if covers f i then write_effect_bits rd policy v f s i else pair_bits s i)"
  using assms
  by (auto simp: write_effect_of_def write_effect_bits_def pair_bits_def bits_at split_def Let_def
      split: write_effect.split option.split)

lemma write_effect_bits_cong:
  assumes "\<And>i. i < 64 \<Longrightarrow> covers f i \<Longrightarrow> pair_bits s i = pair_bits s' i" "i < 64" "covers f i"
  shows "write_effect_bits rd policy v f s i = write_effect_bits rd policy v f s' i"
proof -
  have "extract_field (fst s) f = extract_field (fst s') f" "extract_field (snd s) f = extract_field (snd s') f"
    by (rule extract_field_cong; use assms(1) pair_bits_eqD in blast)+
  with assms(1) [OF assms(2,3)] show ?thesis
    by (auto simp: write_effect_bits_def pair_bits_def split: write_effect.split option.split)
qed

lemma predict_write_field_bits:
  assumes "i < 64"
  shows "pair_bits (predict_write_field rd policy v enabled f s) i =
    (if covers f i \<and> register_writable (fd_access f) \<and> bit enabled i then write_effect_bits rd policy v f s i
     else pair_bits s i)"
proof -
  obtain x y where s: "s = (x, y)" by (cases s)
  obtain a b where e: "write_effect_of rd policy v f (x, y) = (a, b)"
    by (cases "write_effect_of rd policy v f (x, y)")
  have eff: "(bit a i, bit b i) = (if covers f i then write_effect_bits rd policy v f s i else pair_bits s i)"
    using write_effect_of_bits [OF assms, of rd policy v f s] by (simp add: e s pair_bits_def)
  have none: "\<not> (covers f i \<and> bit enabled i)" if "register_field_mask f AND enabled = 0"
  proof -
    have "bit (register_field_mask f AND enabled) i = False"
      using that by simp
    then show ?thesis using assms by (simp add: bit_and_iff bits_at)
  qed
  show ?thesis
  proof (cases "\<not> register_writable (fd_access f) \<or> register_field_mask f AND enabled = 0")
    case True
    then show ?thesis using none by (auto simp: predict_write_field_def s Let_def)
  next
    case False
    then show ?thesis
      using eff assms by (auto simp: predict_write_field_def s Let_def e pair_bits_def bits_at bit_and_iff)
  qed
qed

interpretation write_steps: field_steps pair_bits "predict_write_field rd policy v enabled"
proof
  fix i f s s' assume same: "\<And>i. i < 64 \<Longrightarrow> covers f i \<Longrightarrow> pair_bits s i = pair_bits s' i" and i: "i < 64" "covers f i"
  from write_effect_bits_cong [OF same i] same [OF i] i(1)
  show "pair_bits (predict_write_field rd policy v enabled f s) i = pair_bits (predict_write_field rd policy v enabled f s') i"
    by (simp add: predict_write_field_bits)
qed (simp add: predict_write_field_bits)

interpretation reachable_steps: field_steps pair_bits
  "\<lambda>f state. if register_writable (fd_access f) \<and> locked AND register_field_mask f = 0
     then write_effect_of rd policy written f state else state"
proof
  fix i f s s' assume same: "\<And>i. i < 64 \<Longrightarrow> covers f i \<Longrightarrow> pair_bits s i = pair_bits s' i" and i: "i < 64" "covers f i"
  from write_effect_bits_cong [OF same i] same [OF i] i(1)
  show "pair_bits (if register_writable (fd_access f) \<and> locked AND register_field_mask f = 0
      then write_effect_of rd policy written f s else s) i =
    pair_bits (if register_writable (fd_access f) \<and> locked AND register_field_mask f = 0
      then write_effect_of rd policy written f s' else s') i"
    by (simp add: write_effect_of_bits)
qed (simp add: write_effect_of_bits)

text \<open>Reading: the mirrored and the staged value with their known bits.\<close>

definition quad_bits :: "u64 \<times> u64 \<times> u64 \<times> u64 \<Rightarrow> nat \<Rightarrow> bool \<times> bool \<times> bool \<times> bool" where
  "quad_bits s i = (bit (fst s) i, bit (fst (snd s)) i, bit (fst (snd (snd s))) i, bit (snd (snd (snd s))) i)"

definition read_effect_bits ::
  "register_descriptor \<Rightarrow> field_policy option \<Rightarrow> u64 \<Rightarrow> field_descriptor \<Rightarrow> u64 \<Rightarrow> u64 \<Rightarrow> nat \<Rightarrow> bool \<times> bool" where
  "read_effect_bits rd policy v f next_value next_valid i =
     (case (fd_read_effect f, policy) of
        (ReadUser, Some pl) \<Rightarrow>
          let r = pl_predict_read pl rd f (extract_field next_value f) (extract_field next_valid f) (extract_field v f)
          in (bit (fst r) (i - fd_lsb f), bit (snd r) (i - fd_lsb f))
      | _ \<Rightarrow> (read_bit (fd_read_effect f) (bit v i), fd_read_effect f \<noteq> ReadUser))"

lemma read_effect_of_bits:
  assumes "i < 64" "covers f i" "bit m i"
  shows "pair_bits (read_effect_of rd policy v (take_bits m x v) f (x, y)) i = read_effect_bits rd policy v f x y i"
  using assms
  by (auto simp: read_effect_of_def read_effect_bits_def pair_bits_def bits_at split_def Let_def
      split: read_effect.split option.split)

lemma predict_read_field_bits:
  assumes "i < 64"
  shows "quad_bits (predict_read_field rd policy v enabled f (x, y, s, t)) i =
    (if covers f i \<and> register_readable (fd_access f) \<and> bit enabled i
     then let r = read_effect_bits rd policy v f x y i in (fst r, snd r, fst r, snd r)
     else quad_bits (x, y, s, t) i)"
proof (cases "\<not> register_readable (fd_access f) \<or> register_field_mask f AND enabled = 0")
  case True
  have none: "\<not> (covers f i \<and> bit enabled i)" if "register_field_mask f AND enabled = 0"
  proof -
    have "bit (register_field_mask f AND enabled) i = False"
      using that by simp
    then show ?thesis using assms by (simp add: bit_and_iff bits_at)
  qed
  with True show ?thesis by (auto simp: predict_read_field_def Let_def)
next
  case False
  let ?m = "register_field_mask f AND enabled"
  obtain a b where e: "read_effect_of rd policy v (take_bits ?m x v) f (x, y) = (a, b)"
    by (cases "read_effect_of rd policy v (take_bits ?m x v) f (x, y)")
  have "bit a i = fst (read_effect_bits rd policy v f x y i) \<and> bit b i = snd (read_effect_bits rd policy v f x y i)"
    if "bit ?m i"
    using read_effect_of_bits [of i f ?m rd policy v x y] that assms
    by (simp add: e pair_bits_def bit_and_iff bits_at prod_eq_iff)
  with False assms show ?thesis
    by (auto simp: predict_read_field_def Let_def e quad_bits_def bits_at bit_and_iff)
qed

lemma read_effect_bits_cong:
  assumes "\<And>i. i < 64 \<Longrightarrow> covers f i \<Longrightarrow> bit x i = bit x' i \<and> bit y i = bit y' i"
  shows "read_effect_bits rd policy v f x y i = read_effect_bits rd policy v f x' y' i"
proof -
  have "extract_field x f = extract_field x' f" "extract_field y f = extract_field y' f"
    by (rule extract_field_cong; use assms in blast)+
  then show ?thesis
    by (auto simp: read_effect_bits_def split: read_effect.split option.split)
qed

interpretation read_steps: field_steps quad_bits "predict_read_field rd policy v enabled"
proof
  fix i f and q q' :: "u64 \<times> u64 \<times> u64 \<times> u64"
  obtain x y s t x' y' s' t' where q: "q = (x, y, s, t)" "q' = (x', y', s', t')"
    by (cases q, cases q')
  show "quad_bits (predict_read_field rd policy v enabled f q) i = quad_bits q i" if "i < 64" "\<not> covers f i"
    using that by (simp add: q predict_read_field_bits)
  assume same: "\<And>i. i < 64 \<Longrightarrow> covers f i \<Longrightarrow> quad_bits q i = quad_bits q' i" and i: "i < 64" "covers f i"
  have "read_effect_bits rd policy v f x y i = read_effect_bits rd policy v f x' y' i"
    by (rule read_effect_bits_cong) (use same in \<open>auto simp: q quad_bits_def\<close>)
  with same [OF i] i(1) show "quad_bits (predict_read_field rd policy v enabled f q) i =
      quad_bits (predict_read_field rd policy v enabled f q') i"
    by (simp add: q predict_read_field_bits)
qed

text \<open>Staging, and encoding the staged value.\<close>

interpretation stage_steps: field_steps bit
  "\<lambda>f staged. if register_writable (fd_access f) then insert_field staged (drop_bit (fd_lsb f) v) f else staged"
  by unfold_locales (auto simp: bits_at)

end
