(* ===== verification/RegisterMirror.thy ===== *)
theory RegisterMirror
  imports RegisterBits
begin

text \<open>
  The mirrored value as an abstraction of the register in the hardware: what a constructed handle
  knows of its fields (\<open>handle_ok\<close>), what hardware that implements the description does on a transfer,
  and that prediction keeps every known bit of the mirror equal to the hardware.
\<close>

section \<open>What a constructed handle knows of its register\<close>

text \<open>A handle without the values that its operations change.\<close>

definition setup_of :: "('a, 'd, 'e, 'w) register_handle \<Rightarrow> ('a, 'd, 'e, 'w) register_handle" where
  "setup_of h =
     h\<lparr>rh_auto_predict := True, rh_staged := 0, rh_mirrored := 0, rh_staged_valid := 0, rh_mirrored_valid := 0,
       rh_written_once := 0, rh_reports := []\<rparr>"

definition writable_at :: "field_descriptor list \<Rightarrow> nat \<Rightarrow> bool" where
  "writable_at fs i = (case field_at fs i of None \<Rightarrow> fs = [] | Some f \<Rightarrow> register_writable (fd_access f))"

definition readable_at :: "field_descriptor list \<Rightarrow> nat \<Rightarrow> bool" where
  "readable_at fs i = (case field_at fs i of None \<Rightarrow> fs = [] | Some f \<Rightarrow> register_readable (fd_access f))"

definition stable_at :: "field_descriptor list \<Rightarrow> nat \<Rightarrow> bool" where
  "stable_at fs i = (case field_at fs i of None \<Rightarrow> True | Some f \<Rightarrow> \<not> fd_volatile f)"

definition write_once_access :: "register_access \<Rightarrow> bool" where
  "write_once_access access = (access = RegWriteOnce \<or> access = RegReadWriteOnce)"

definition write_once_at :: "field_descriptor list \<Rightarrow> nat \<Rightarrow> bool" where
  "write_once_at fs i = (case field_at fs i of None \<Rightarrow> False | Some f \<Rightarrow> write_once_access (fd_access f))"

definition handle_ok :: "('a::len word, 'd::len word, 'e::len word, 'w) register_handle \<Rightarrow> bool" where
  "handle_ok h =
     (let rd = rh_desc h; fs = rd_fields rd; width = rd_width rd; aw = rh_access_width h
      in disjoint_fields fs \<and> (\<forall>f \<in> set fs. 0 < fd_width f \<and> fd_lsb f + fd_width f \<le> width) \<and>
         rh_access_error h = NoAccessError \<and> 0 < width \<and> width \<le> 64 \<and> width mod 8 = 0 \<and>
         0 < aw \<and> aw mod 8 = 0 \<and> aw \<le> width \<and> width mod aw = 0 \<and> aw \<le> LENGTH('d) \<and>
         aw = (if rd_access_width rd = 0 then width else rd_access_width rd) \<and>
         rh_transfer_count h = width div aw \<and> rh_chunk_mask h = mask aw \<and> rh_width_mask h = mask width \<and>
         rh_all_bytes h = ucast (mask (aw div 8) :: u64) \<and>
         (\<forall>i < 64. bit (rh_writable_mask h) i = (i < width \<and> writable_at fs i)) \<and>
         (\<forall>i < 64. bit (rh_nonvolatile_mask h) i = (i < width \<and> readable_at fs i \<and> stable_at fs i)) \<and>
         (\<forall>i < 64. bit (rh_write_once_mask h) i = write_once_at fs i) \<and>
         rh_readable h = (fs = [] \<or> (\<exists>f \<in> set fs. register_readable (fd_access f))) \<and>
         rh_writable h = (fs = [] \<or> (\<exists>f \<in> set fs. register_writable (fd_access f))) \<and>
         rh_write_once_only h = ((\<exists>f \<in> set fs. register_writable (fd_access f)) \<and>
           (\<forall>f \<in> set fs. register_writable (fd_access f) \<longrightarrow> write_once_access (fd_access f))))"

lemma setup_of_fields [simp]:
  "rh_master (setup_of h) = rh_master h" "rh_desc (setup_of h) = rh_desc h" "rh_backdoor (setup_of h) = rh_backdoor h"
  "rh_policy (setup_of h) = rh_policy h" "rh_address (setup_of h) = rh_address h" "rh_width_mask (setup_of h) = rh_width_mask h"
  "rh_chunk_mask (setup_of h) = rh_chunk_mask h" "rh_nonvolatile_mask (setup_of h) = rh_nonvolatile_mask h"
  "rh_writable_mask (setup_of h) = rh_writable_mask h" "rh_write_once_mask (setup_of h) = rh_write_once_mask h"
  "rh_transfer_count (setup_of h) = rh_transfer_count h" "rh_access_width (setup_of h) = rh_access_width h"
  "rh_all_bytes (setup_of h) = rh_all_bytes h" "rh_readable (setup_of h) = rh_readable h"
  "rh_writable (setup_of h) = rh_writable h" "rh_write_once_only (setup_of h) = rh_write_once_only h"
  "rh_access_error (setup_of h) = rh_access_error h"
  by (simp_all add: setup_of_def)

lemma setup_of_eqD:
  assumes "setup_of h = setup_of k"
  shows "rh_master h = rh_master k" "rh_desc h = rh_desc k" "rh_policy h = rh_policy k"
    "rh_address h = rh_address k" "rh_width_mask h = rh_width_mask k" "rh_chunk_mask h = rh_chunk_mask k"
    "rh_nonvolatile_mask h = rh_nonvolatile_mask k" "rh_writable_mask h = rh_writable_mask k"
    "rh_write_once_mask h = rh_write_once_mask k" "rh_transfer_count h = rh_transfer_count k"
    "rh_access_width h = rh_access_width k" "rh_all_bytes h = rh_all_bytes k" "rh_readable h = rh_readable k"
    "rh_writable h = rh_writable k" "rh_write_once_only h = rh_write_once_only k" "rh_access_error h = rh_access_error k"
  by (metis assms setup_of_fields(1),
    metis assms setup_of_fields(2),
    metis assms setup_of_fields(4),
    metis assms setup_of_fields(5),
    metis assms setup_of_fields(6),
    metis assms setup_of_fields(7),
    metis assms setup_of_fields(8),
    metis assms setup_of_fields(9),
    metis assms setup_of_fields(10),
    metis assms setup_of_fields(11),
    metis assms setup_of_fields(12),
    metis assms setup_of_fields(13),
    metis assms setup_of_fields(14),
    metis assms setup_of_fields(15),
    metis assms setup_of_fields(16),
    metis assms setup_of_fields(17))

lemma handle_ok_setup:
  assumes "setup_of h = setup_of k"
  shows "handle_ok h = handle_ok k"
  unfolding handle_ok_def setup_of_eqD [OF assms] ..

lemma field_at_ex:
  assumes "disjoint_fields fs"
  shows "(\<exists>f \<in> set fs. P f \<and> covers f i) = (case field_at fs i of None \<Rightarrow> False | Some f \<Rightarrow> P f)"
  using field_at_eqI [OF assms] by (auto simp: field_at_None dest: field_at_Some split: option.split)

lemma field_metadata_fields [simp]:
  "setup_of (field_metadata fs saw once h) = (setup_of h)
     \<lparr>rh_readable := rh_readable (field_metadata fs saw once h), rh_writable := rh_writable (field_metadata fs saw once h),
      rh_writable_mask := rh_writable_mask (field_metadata fs saw once h),
      rh_nonvolatile_mask := rh_nonvolatile_mask (field_metadata fs saw once h),
      rh_write_once_mask := rh_write_once_mask (field_metadata fs saw once h),
      rh_write_once_only := rh_write_once_only (field_metadata fs saw once h)\<rparr>"
proof (induction fs arbitrary: saw once h)
  case Nil
  show ?case by (simp add: setup_of_def)
next
  case (Cons f fs)
  show ?case
    by (simp add: Let_def Cons.IH del: setup_of_fields split: if_split) (simp add: setup_of_def)
qed

lemma field_metadata_masks:
  "bit (rh_writable_mask (field_metadata fs saw once h)) i \<longleftrightarrow>
     bit (rh_writable_mask h) i \<or> i < 64 \<and> (\<exists>f \<in> set fs. register_writable (fd_access f) \<and> covers f i)"
  "bit (rh_nonvolatile_mask (field_metadata fs saw once h)) i \<longleftrightarrow>
     bit (rh_nonvolatile_mask h) i \<or> i < 64 \<and> (\<exists>f \<in> set fs. (register_readable (fd_access f) \<and> \<not> fd_volatile f) \<and> covers f i)"
  "bit (rh_write_once_mask (field_metadata fs saw once h)) i \<longleftrightarrow>
     bit (rh_write_once_mask h) i \<or> i < 64 \<and> (\<exists>f \<in> set fs. write_once_access (fd_access f) \<and> covers f i)"
  "rh_readable (field_metadata fs saw once h) \<longleftrightarrow> rh_readable h \<or> (\<exists>f \<in> set fs. register_readable (fd_access f))"
  "rh_writable (field_metadata fs saw once h) \<longleftrightarrow> rh_writable h \<or> (\<exists>f \<in> set fs. register_writable (fd_access f))"
  "rh_write_once_only (field_metadata fs saw once h) \<longleftrightarrow>
     (saw \<or> (\<exists>f \<in> set fs. register_writable (fd_access f))) \<and> once \<and>
     (\<forall>f \<in> set fs. register_writable (fd_access f) \<longrightarrow> write_once_access (fd_access f))"
proof (induction fs arbitrary: saw once h)
  case Nil
  { case 1 show ?case by simp next case 2 show ?case by simp next case 3 show ?case by simp
  next case 4 show ?case by simp next case 5 show ?case by simp next case 6 show ?case by simp }
next
  case (Cons f fs)
  have once: "write_once_access (fd_access f) \<Longrightarrow> register_writable (fd_access f)"
    by (auto simp: write_once_access_def register_writable_def)
  { case 1 show ?case by (auto simp: Let_def Cons.IH bit_or_iff bits_at)
  next case 2 show ?case by (auto simp: Let_def Cons.IH bit_or_iff bits_at)
  next case 3 show ?case using once by (auto simp: Let_def Cons.IH bit_or_iff bits_at write_once_access_def)
  next case 4 show ?case by (auto simp: Let_def Cons.IH)
  next case 5 show ?case by (auto simp: Let_def Cons.IH)
  next case 6 show ?case by (auto simp: Let_def Cons.IH write_once_access_def) }
qed

lemma field_metadata_other [simp]:
  "rh_desc (field_metadata fs saw once h) = rh_desc h" "rh_master (field_metadata fs saw once h) = rh_master h"
  "rh_policy (field_metadata fs saw once h) = rh_policy h" "rh_address (field_metadata fs saw once h) = rh_address h"
  "rh_access_error (field_metadata fs saw once h) = rh_access_error h"
  "rh_access_width (field_metadata fs saw once h) = rh_access_width h"
  "rh_chunk_mask (field_metadata fs saw once h) = rh_chunk_mask h"
  "rh_width_mask (field_metadata fs saw once h) = rh_width_mask h"
  "rh_transfer_count (field_metadata fs saw once h) = rh_transfer_count h"
  "rh_all_bytes (field_metadata fs saw once h) = rh_all_bytes h"
  "rh_staged (field_metadata fs saw once h) = rh_staged h" "rh_mirrored (field_metadata fs saw once h) = rh_mirrored h"
  "rh_staged_valid (field_metadata fs saw once h) = rh_staged_valid h"
  "rh_mirrored_valid (field_metadata fs saw once h) = rh_mirrored_valid h"
  "rh_written_once (field_metadata fs saw once h) = rh_written_once h"
  "rh_auto_predict (field_metadata fs saw once h) = rh_auto_predict h"
  "rh_reports (field_metadata fs saw once h) = rh_reports h" "rh_backdoor (field_metadata fs saw once h) = rh_backdoor h"
  by (induction fs arbitrary: saw once h) (auto simp: Let_def)

lemma fields_below:
  "\<forall>f \<in> set fs. fd_lsb f + fd_width f \<le> width \<Longrightarrow> field_at fs i = Some f \<Longrightarrow> i < width"
  by (auto simp: covers_def dest!: field_at_Some)

definition values_ok :: "('a, 'd, 'e, 'w) register_handle \<Rightarrow> bool" where
  "values_ok h =
     (\<forall>i. bit (rh_staged h) i \<or> bit (rh_mirrored h) i \<or> bit (rh_staged_valid h) i \<or> bit (rh_mirrored_valid h) i \<longrightarrow>
        i < rd_width (rh_desc h))"

lemma register_handle_init_ok:
  fixes m :: "('a::len word, 'd::len word, 'e::len word, 'w) master"
  assumes "register_handle_init m rd base backdoor policy = Ok h"
  shows "rh_desc h = rd" "rh_master h = m" "rh_policy h = policy" "rh_backdoor h = backdoor"
    "rh_address h = base + rd_address rd" "rh_auto_predict h" "rh_written_once h = 0" "rh_reports h = []" "values_ok h"
    "rh_access_error h = NoAccessError \<Longrightarrow> handle_ok h"
proof -
  let ?staged = "rd_reset_value rd AND rd_reset_mask rd AND register_mask (rd_width rd)"
  let ?valid = "rd_reset_mask rd AND register_mask (rd_width rd)"
  let ?h0 = "\<lparr>rh_master = m, rh_desc = rd, rh_backdoor = backdoor, rh_policy = policy, rh_auto_predict = True,
      rh_staged = ?staged, rh_mirrored = ?staged, rh_staged_valid = ?valid, rh_mirrored_valid = ?valid,
      rh_address = base + rd_address rd, rh_written_once = 0, rh_width_mask = 0, rh_chunk_mask = 0,
      rh_nonvolatile_mask = 0, rh_writable_mask = 0, rh_write_once_mask = 0, rh_transfer_count = 0,
      rh_access_width = 0, rh_all_bytes = 0, rh_readable = False, rh_writable = False,
      rh_write_once_only = False, rh_access_error = NoAccessError, rh_reports = []\<rparr>
      :: ('a word, 'd word, 'e word, 'w) register_handle"
  let ?h1 = "initialize_metadata ?h0"
  have layout: "validate_field_layout rd = Ok ()" and h: "h = initialize_access_validation ?h1"
    using assms by (auto simp: register_handle_init_def Let_def result_bind_Ok_iff split: if_split_asm)
  have same: "rh_desc ?h1 = rd" "rh_master ?h1 = m" "rh_policy ?h1 = policy" "rh_backdoor ?h1 = backdoor"
    "rh_address ?h1 = base + rd_address rd" "rh_auto_predict ?h1" "rh_written_once ?h1 = 0" "rh_reports ?h1 = []"
    "rh_staged ?h1 = ?staged" "rh_mirrored ?h1 = ?staged" "rh_staged_valid ?h1 = ?valid" "rh_mirrored_valid ?h1 = ?valid"
    by (simp_all add: initialize_metadata_def Let_def)
  have validation: "initialize_access_validation k = k\<lparr>rh_access_error := rh_access_error (initialize_access_validation k)\<rparr>"
    for k :: "('a word, 'd word, 'e word, 'w) register_handle"
    by (auto simp: initialize_access_validation_def Let_def)
  show "rh_desc h = rd" "rh_master h = m" "rh_policy h = policy" "rh_backdoor h = backdoor"
    "rh_address h = base + rd_address rd" "rh_auto_predict h" "rh_written_once h = 0" "rh_reports h = []"
    unfolding h by (subst validation, simp add: same)+
  show "values_ok h"
    unfolding h by (subst validation) (auto simp: values_ok_def same bit_and_iff bits_at)
  let ?aw = "if rd_access_width rd = 0 then rd_width rd else rd_access_width rd"
  let ?fs = "rd_fields rd"
  assume none: "rh_access_error h = NoAccessError"
  then have eq: "h = ?h1"
    unfolding h by (subst validation) (auto simp: initialize_metadata_def Let_def)
  have disjoint: "disjoint_fields ?fs" and inside: "\<forall>f \<in> set ?fs. 0 < fd_width f \<and> fd_lsb f + fd_width f \<le> rd_width rd"
    using validate_field_layout_Ok [OF layout] by blast+
  have aw: "rh_access_width ?h1 = ?aw"
    by (simp add: initialize_metadata_def Let_def)
  have widths: "0 < rd_width rd" "rd_width rd \<le> 64" "rd_width rd mod 8 = 0" "0 < ?aw" "?aw mod 8 = 0" "?aw \<le> rd_width rd"
    "rd_width rd mod ?aw = 0" "?aw \<le> LENGTH('d)"
    using none unfolding h by (auto simp: initialize_access_validation_def Let_def same aw split: if_split_asm)
  have masks: "rh_transfer_count ?h1 = rd_width rd div ?aw" "rh_chunk_mask ?h1 = mask ?aw" "rh_width_mask ?h1 = mask (rd_width rd)"
    "rh_all_bytes ?h1 = ucast (mask (?aw div 8) :: u64)"
    using widths by (auto simp: initialize_metadata_def Let_def register_mask_eq low_bits_eq)
  have bound: "field_at ?fs i = Some f \<Longrightarrow> i < rd_width rd" for i f
    using inside fields_below [of ?fs "rd_width rd" i f] by blast
  have err: "rh_access_error ?h1 = NoAccessError"
    using none eq by simp
  have field_masks:
    "i < 64 \<Longrightarrow> bit (rh_writable_mask ?h1) i = (i < rd_width rd \<and> writable_at ?fs i)"
    "i < 64 \<Longrightarrow> bit (rh_nonvolatile_mask ?h1) i = (i < rd_width rd \<and> readable_at ?fs i \<and> stable_at ?fs i)"
    "i < 64 \<Longrightarrow> bit (rh_write_once_mask ?h1) i = write_once_at ?fs i" for i
  proof -
    have unfold: "writable_at ?fs i = (case field_at ?fs i of None \<Rightarrow> ?fs = [] | Some f \<Rightarrow> register_writable (fd_access f))"
      "readable_at ?fs i = (case field_at ?fs i of None \<Rightarrow> ?fs = [] | Some f \<Rightarrow> register_readable (fd_access f))"
      "stable_at ?fs i = (case field_at ?fs i of None \<Rightarrow> True | Some f \<Rightarrow> \<not> fd_volatile f)"
      "write_once_at ?fs i = (case field_at ?fs i of None \<Rightarrow> False | Some f \<Rightarrow> write_once_access (fd_access f))"
      by (simp_all only: writable_at_def readable_at_def stable_at_def write_once_at_def)
    have masks_of: "i < 64 \<Longrightarrow> bit (rh_writable_mask ?h1) i = (if ?fs = [] then i < rd_width rd else
        (case field_at ?fs i of None \<Rightarrow> False | Some f \<Rightarrow> register_writable (fd_access f)))"
      "i < 64 \<Longrightarrow> bit (rh_nonvolatile_mask ?h1) i = (if ?fs = [] then i < rd_width rd else
        (case field_at ?fs i of None \<Rightarrow> False | Some f \<Rightarrow> register_readable (fd_access f) \<and> \<not> fd_volatile f))"
      "i < 64 \<Longrightarrow> bit (rh_write_once_mask ?h1) i = (if ?fs = [] then False else
        (case field_at ?fs i of None \<Rightarrow> False | Some f \<Rightarrow> write_once_access (fd_access f)))"
      by (simp_all add: initialize_metadata_def Let_def field_metadata_masks field_at_ex [OF disjoint]
          field_at_ex [OF disjoint, where P = "\<lambda>f. register_readable (fd_access f) \<and> \<not> fd_volatile f", unfolded conj_assoc] bits_at)
    show "i < 64 \<Longrightarrow> bit (rh_writable_mask ?h1) i = (i < rd_width rd \<and> writable_at ?fs i)"
      "i < 64 \<Longrightarrow> bit (rh_nonvolatile_mask ?h1) i = (i < rd_width rd \<and> readable_at ?fs i \<and> stable_at ?fs i)"
      "i < 64 \<Longrightarrow> bit (rh_write_once_mask ?h1) i = write_once_at ?fs i"
      unfolding unfold masks_of
      by (cases "?fs = []"; cases "field_at ?fs i"; use bound [of i] in \<open>simp add: field_at_def\<close>)+
  qed
  have flags: "rh_readable ?h1 = (?fs = [] \<or> (\<exists>f \<in> set ?fs. register_readable (fd_access f)))"
    "rh_writable ?h1 = (?fs = [] \<or> (\<exists>f \<in> set ?fs. register_writable (fd_access f)))"
    "rh_write_once_only ?h1 = ((\<exists>f \<in> set ?fs. register_writable (fd_access f)) \<and>
       (\<forall>f \<in> set ?fs. register_writable (fd_access f) \<longrightarrow> write_once_access (fd_access f)))"
    by (auto simp: initialize_metadata_def Let_def field_metadata_masks)
  show "handle_ok h"
    using disjoint inside widths masks field_masks flags err
    unfolding eq handle_ok_def Let_def aw same(1) by blast
qed

section \<open>Operations keep the setup\<close>

lemma predict_write_masked_setup [simp]: "setup_of (predict_write_masked v m h) = setup_of h"
  by (simp add: predict_write_masked_def Let_def split_def setup_of_def)

lemma predict_read_masked_setup [simp]: "setup_of (predict_read_masked v m h) = setup_of h"
  by (simp add: predict_read_masked_def Let_def split_def setup_of_def)

lemma commit_setup [simp]: "setup_of (commit_predicted_write_state r h) = setup_of h"
  by (simp add: commit_predicted_write_state_def Let_def setup_of_def)

lemma predict_auto [simp]:
  "rh_auto_predict (predict_write_masked v m h) = rh_auto_predict h" "rh_reports (predict_write_masked v m h) = rh_reports h"
  "rh_auto_predict (predict_read_masked v m h) = rh_auto_predict h" "rh_reports (predict_read_masked v m h) = rh_reports h"
  "rh_written_once (predict_read_masked v m h) = rh_written_once h"
  "rh_auto_predict (commit_predicted_write_state r h) = rh_auto_predict h"
  "rh_reports (commit_predicted_write_state r h) = rh_reports h"
  by (simp_all add: predict_write_masked_def predict_read_masked_def commit_predicted_write_state_def Let_def split_def)

section \<open>Prediction, bit by bit\<close>

lemma handle_okD:
  assumes "handle_ok h"
  shows "disjoint_fields (rd_fields (rh_desc h))" "rh_width_mask h = mask (rd_width (rh_desc h))" "rd_width (rh_desc h) \<le> 64"
    "rh_chunk_mask h = mask (rh_access_width h)" "0 < rh_access_width h"
    "rh_transfer_count h * rh_access_width h = rd_width (rh_desc h)" "rh_access_error h = NoAccessError"
    "i < 64 \<Longrightarrow> bit (rh_writable_mask h) i = (i < rd_width (rh_desc h) \<and> writable_at (rd_fields (rh_desc h)) i)"
    "i < 64 \<Longrightarrow> bit (rh_nonvolatile_mask h) i =
       (i < rd_width (rh_desc h) \<and> readable_at (rd_fields (rh_desc h)) i \<and> stable_at (rd_fields (rh_desc h)) i)"
    "i < 64 \<Longrightarrow> bit (rh_write_once_mask h) i = write_once_at (rd_fields (rh_desc h)) i"
    "f \<in> set (rd_fields (rh_desc h)) \<Longrightarrow> fd_lsb f + fd_width f \<le> rd_width (rh_desc h)"
  using assms by (auto simp: handle_ok_def Let_def)

lemma bit_mask_u64 [bits_at]: "bit (mask n :: u64) i \<longleftrightarrow> i < 64 \<and> i < n"
  by (simp add: bit_mask_word)

definition write_bits ::
  "('a, 'd, 'e, 'w) register_handle \<Rightarrow> u64 \<Rightarrow> u64 \<Rightarrow> u64 \<times> u64 \<Rightarrow> nat \<Rightarrow> bool \<times> bool" where
  "write_bits h v m s i =
     (case field_at (rd_fields (rh_desc h)) i of
        None \<Rightarrow> if rd_fields (rh_desc h) = [] \<and> bit m i then (bit v i, True) else pair_bits s i
      | Some f \<Rightarrow>
          if register_writable (fd_access f) \<and> bit m i \<and> \<not> bit (rh_written_once h) i
          then write_effect_bits (rh_desc h) (rh_policy h) v f s i else pair_bits s i)"

lemma predict_write_masked_bits:
  assumes "handle_ok h" "i < rd_width (rh_desc h)"
  shows "pair_bits (rh_mirrored (predict_write_masked v m h), rh_mirrored_valid (predict_write_masked v m h)) i =
      write_bits h v m (rh_mirrored h, rh_mirrored_valid h) i"
    and "pair_bits (rh_staged (predict_write_masked v m h), rh_staged_valid (predict_write_masked v m h)) i =
      (if rd_fields (rh_desc h) = [] \<or> writable_at (rd_fields (rh_desc h)) i \<and> bit m i
       then write_bits h v m (rh_mirrored h, rh_mirrored_valid h) i
       else pair_bits (rh_staged h, rh_staged_valid h) i)"
    and "bit (rh_written_once (predict_write_masked v m h)) i =
      (bit (rh_written_once h) i \<or> write_once_at (rd_fields (rh_desc h)) i \<and> bit m i)"
proof -
  let ?fs = "rd_fields (rh_desc h)" and ?s = "(rh_mirrored h, rh_mirrored_valid h)"
  note ok = handle_okD [OF assms(1)]
  have i: "i < 64" using ok(3) assms(2) by simp
  let ?m = "m AND rh_width_mask h"
  let ?r = "fold (predict_write_field (rh_desc h) (rh_policy h) v (?m AND NOT (rh_written_once h))) ?fs ?s"
  have fold: "pair_bits ?r i = write_bits h v m ?s i" if "?fs \<noteq> []"
    using write_steps.fold_at [OF ok(1) i, of "rh_desc h" "rh_policy h" v "?m AND NOT (rh_written_once h)" ?s] that assms(2) i
    by (auto simp: write_bits_def predict_write_field_bits bit_and_iff bit_not_iff ok(2) bits_at dest: field_at_Some
        split: option.split)
  have none: "write_once_at [] i = False" "writable_at [] i"
    by (simp_all add: write_once_at_def writable_at_def field_at_def)
  show "pair_bits (rh_mirrored (predict_write_masked v m h), rh_mirrored_valid (predict_write_masked v m h)) i = write_bits h v m ?s i"
    using fold assms(2) i
    by (auto simp: predict_write_masked_def Let_def split_def pair_bits_def bit_and_iff bit_or_iff bits_at ok(2)
        write_bits_def field_at_def)
  show "pair_bits (rh_staged (predict_write_masked v m h), rh_staged_valid (predict_write_masked v m h)) i =
      (if ?fs = [] \<or> writable_at ?fs i \<and> bit m i then write_bits h v m ?s i else pair_bits (rh_staged h, rh_staged_valid h) i)"
    using fold assms(2) i
    by (auto simp: predict_write_masked_def Let_def split_def pair_bits_def bit_and_iff bit_or_iff bits_at ok(2) ok(8)
        write_bits_def field_at_def)
  show "bit (rh_written_once (predict_write_masked v m h)) i =
      (bit (rh_written_once h) i \<or> write_once_at ?fs i \<and> bit m i)"
    using assms(2) i ok(10) [OF i] none
    by (auto simp: predict_write_masked_def Let_def split_def bit_and_iff bit_or_iff bits_at ok(2))
qed

definition read_bits ::
  "('a, 'd, 'e, 'w) register_handle \<Rightarrow> u64 \<Rightarrow> u64 \<Rightarrow> u64 \<Rightarrow> nat \<Rightarrow> bool \<times> bool" where
  "read_bits h v x y i =
     (case field_at (rd_fields (rh_desc h)) i of
        None \<Rightarrow> (bit v i, True)
      | Some f \<Rightarrow> read_effect_bits (rh_desc h) (rh_policy h) v f x y i)"

lemma predict_read_masked_bits:
  assumes "handle_ok h" "i < rd_width (rh_desc h)"
  shows "pair_bits (rh_mirrored (predict_read_masked v m h), rh_mirrored_valid (predict_read_masked v m h)) i =
      (if readable_at (rd_fields (rh_desc h)) i \<and> bit m i then read_bits h v (rh_mirrored h) (rh_mirrored_valid h) i
       else pair_bits (rh_mirrored h, rh_mirrored_valid h) i)"
    and "pair_bits (rh_staged (predict_read_masked v m h), rh_staged_valid (predict_read_masked v m h)) i =
      (if readable_at (rd_fields (rh_desc h)) i \<and> bit m i then read_bits h v (rh_mirrored h) (rh_mirrored_valid h) i
       else pair_bits (rh_staged h, rh_staged_valid h) i)"
proof -
  let ?fs = "rd_fields (rh_desc h)"
  note ok = handle_okD [OF assms(1)]
  have i: "i < 64" using ok(3) assms(2) by simp
  let ?m = "m AND rh_width_mask h" and ?s = "(rh_mirrored h, rh_mirrored_valid h, rh_staged h, rh_staged_valid h)"
  let ?r = "fold (predict_read_field (rh_desc h) (rh_policy h) v ?m) ?fs ?s"
  have fold: "quad_bits ?r i = (if readable_at ?fs i \<and> bit m i
      then let r = read_bits h v (rh_mirrored h) (rh_mirrored_valid h) i in (fst r, snd r, fst r, snd r)
      else quad_bits ?s i)" if "?fs \<noteq> []"
    using read_steps.fold_at [OF ok(1) i, of "rh_desc h" "rh_policy h" v ?m ?s] that assms(2) i
    by (auto simp: read_bits_def readable_at_def predict_read_field_bits bit_and_iff ok(2) bits_at dest: field_at_Some
        split: option.split)
  have zero: "\<not> bit m i" if "?m = 0"
  proof -
    have "bit ?m i = False" using that by simp
    then show ?thesis using i assms(2) by (simp add: bit_and_iff ok(2) bits_at)
  qed
  have none: "readable_at [] i" "field_at [] i = None"
    by (simp_all add: readable_at_def field_at_def)
  show "pair_bits (rh_mirrored (predict_read_masked v m h), rh_mirrored_valid (predict_read_masked v m h)) i =
      (if readable_at ?fs i \<and> bit m i then read_bits h v (rh_mirrored h) (rh_mirrored_valid h) i
       else pair_bits (rh_mirrored h, rh_mirrored_valid h) i)"
    using fold zero assms(2) i none
    by (auto simp: predict_read_masked_def Let_def split_def pair_bits_def quad_bits_def bit_and_iff bit_or_iff bits_at ok(2)
        read_bits_def prod_eq_iff)
  show "pair_bits (rh_staged (predict_read_masked v m h), rh_staged_valid (predict_read_masked v m h)) i =
      (if readable_at ?fs i \<and> bit m i then read_bits h v (rh_mirrored h) (rh_mirrored_valid h) i
       else pair_bits (rh_staged h, rh_staged_valid h) i)"
    using fold zero assms(2) i none
    by (auto simp: predict_read_masked_def Let_def split_def pair_bits_def quad_bits_def bit_and_iff bit_or_iff bits_at ok(2)
        read_bits_def prod_eq_iff)
qed

section \<open>Hardware that implements the description\<close>

text \<open>
  \<open>hw\<close> before and \<open>hw'\<close> after a transfer that writes the enabled bits. A bit that a write-once field
  has locked ignores writes; a bit of a volatile field, or of a field with a user-defined effect that
  is written, may take any value.
\<close>

definition hw_write :: "field_descriptor list \<Rightarrow> u64 \<Rightarrow> u64 \<Rightarrow> u64 \<Rightarrow> u64 \<Rightarrow> u64 \<Rightarrow> bool" where
  "hw_write fs v enabled locked hw hw' =
     (\<forall>i < 64. case field_at fs i of
        None \<Rightarrow> bit hw' i = (if fs = [] \<and> bit enabled i then bit v i else bit hw i)
      | Some f \<Rightarrow>
          fd_volatile f \<or>
          (if register_writable (fd_access f) \<and> bit enabled i \<and> \<not> bit locked i
           then fd_write_effect f = WriteUser \<or> bit hw' i = write_bit (fd_write_effect f) (bit hw i) (bit v i)
           else bit hw' i = bit hw i))"

definition hw_read :: "field_descriptor list \<Rightarrow> u64 \<Rightarrow> u64 \<Rightarrow> u64 \<Rightarrow> bool" where
  "hw_read fs enabled hw hw' =
     (\<forall>i < 64. case field_at fs i of
        None \<Rightarrow> bit hw' i = bit hw i
      | Some f \<Rightarrow>
          fd_volatile f \<or>
          (if register_readable (fd_access f) \<and> bit enabled i
           then fd_read_effect f = ReadUser \<or> bit hw' i = read_bit (fd_read_effect f) (bit hw i)
           else bit hw' i = bit hw i))"

text \<open>Data that a transfer read.\<close>

definition hw_data :: "field_descriptor list \<Rightarrow> u64 \<Rightarrow> u64 \<Rightarrow> u64 \<Rightarrow> bool" where
  "hw_data fs enabled data hw =
     (\<forall>i < 64. readable_at fs i \<and> stable_at fs i \<and> bit enabled i \<longrightarrow> bit data i = bit hw i)"

text \<open>Every known bit of the mirror is that of the hardware, but for volatile fields.\<close>

definition mirror_sound :: "('a, 'd, 'e, 'w) register_handle \<Rightarrow> u64 \<Rightarrow> bool" where
  "mirror_sound h hw =
     (\<forall>i < rd_width (rh_desc h). stable_at (rd_fields (rh_desc h)) i \<and> bit (rh_mirrored_valid h) i \<longrightarrow>
        bit (rh_mirrored h) i = bit hw i)"

lemma write_known_sound:
  "write_known effect known written \<Longrightarrow> (known \<Longrightarrow> old = hw) \<Longrightarrow>
   effect \<noteq> WriteUser \<and> write_bit effect old written = write_bit effect hw written"
  by (cases effect) auto

lemma predict_write_sound:
  assumes ok: "handle_ok h" and policy: "rh_policy h = None" and sound: "mirror_sound h hw"
    and hw: "hw_write (rd_fields (rh_desc h)) v m (rh_written_once h) hw hw'"
  shows "mirror_sound (predict_write_masked v m h) hw'"
proof -
  let ?fs = "rd_fields (rh_desc h)" and ?h = "predict_write_masked v m h"
  have desc: "rh_desc ?h = rh_desc h"
    by (rule setup_of_eqD) simp
  have "bit (rh_mirrored ?h) i = bit hw' i"
    if i: "i < rd_width (rh_desc h)" and stable: "stable_at ?fs i" and known: "bit (rh_mirrored_valid ?h) i" for i
  proof -
    have hw_i: "case field_at ?fs i of
        None \<Rightarrow> bit hw' i = (if ?fs = [] \<and> bit m i then bit v i else bit hw i)
      | Some f \<Rightarrow> fd_volatile f \<or> (if register_writable (fd_access f) \<and> bit m i \<and> \<not> bit (rh_written_once h) i
           then fd_write_effect f = WriteUser \<or> bit hw' i = write_bit (fd_write_effect f) (bit hw i) (bit v i)
           else bit hw' i = bit hw i)"
      using hw i handle_okD(3) [OF ok] by (simp add: hw_write_def)
    have bits: "(bit (rh_mirrored ?h) i, bit (rh_mirrored_valid ?h) i) =
        write_bits h v m (rh_mirrored h, rh_mirrored_valid h) i"
      using predict_write_masked_bits(1) [OF ok i, of v m] by (simp add: pair_bits_def)
    have old: "bit (rh_mirrored_valid h) i \<Longrightarrow> bit (rh_mirrored h) i = bit hw i"
      using sound i stable by (simp add: mirror_sound_def)
    show ?thesis
    proof (cases "field_at ?fs i")
      case None
      with hw_i bits old known show ?thesis
        by (auto simp: write_bits_def pair_bits_def split: if_split_asm)
    next
      case (Some f)
      with stable have "\<not> fd_volatile f" by (simp add: stable_at_def)
      with Some hw_i bits old known show ?thesis
        using write_known_sound [of "fd_write_effect f" "bit (rh_mirrored_valid h) i" "bit v i" "bit (rh_mirrored h) i" "bit hw i"]
        by (auto simp: write_bits_def pair_bits_def write_effect_bits_def policy
            split: if_split_asm write_effect.split_asm)
    qed
  qed
  then show ?thesis by (simp add: mirror_sound_def desc)
qed

lemma predict_read_sound:
  assumes ok: "handle_ok h" and policy: "rh_policy h = None" and sound: "mirror_sound h hw"
    and data: "hw_data (rd_fields (rh_desc h)) m v hw" and hw: "hw_read (rd_fields (rh_desc h)) m hw hw'"
  shows "mirror_sound (predict_read_masked v m h) hw'"
proof -
  let ?fs = "rd_fields (rh_desc h)" and ?h = "predict_read_masked v m h"
  have desc: "rh_desc ?h = rh_desc h"
    by (rule setup_of_eqD) simp
  have "bit (rh_mirrored ?h) i = bit hw' i"
    if i: "i < rd_width (rh_desc h)" and stable: "stable_at ?fs i" and known: "bit (rh_mirrored_valid ?h) i" for i
  proof -
    have i64: "i < 64" using i handle_okD(3) [OF ok] by simp
    have hw_i: "case field_at ?fs i of
        None \<Rightarrow> bit hw' i = bit hw i
      | Some f \<Rightarrow> fd_volatile f \<or> (if register_readable (fd_access f) \<and> bit m i
           then fd_read_effect f = ReadUser \<or> bit hw' i = read_bit (fd_read_effect f) (bit hw i)
           else bit hw' i = bit hw i)"
      using hw i64 by (simp add: hw_read_def)
    have data_i: "readable_at ?fs i \<Longrightarrow> bit m i \<Longrightarrow> bit v i = bit hw i"
      using data i64 stable by (simp add: hw_data_def)
    have bits: "(bit (rh_mirrored ?h) i, bit (rh_mirrored_valid ?h) i) =
        (if readable_at ?fs i \<and> bit m i then read_bits h v (rh_mirrored h) (rh_mirrored_valid h) i
         else (bit (rh_mirrored h) i, bit (rh_mirrored_valid h) i))"
      using predict_read_masked_bits(1) [OF ok i, of v m] by (simp add: pair_bits_def)
    have old: "bit (rh_mirrored_valid h) i \<Longrightarrow> bit (rh_mirrored h) i = bit hw i"
      using sound i stable by (simp add: mirror_sound_def)
    show ?thesis
    proof (cases "field_at ?fs i")
      case None
      with hw_i bits old known data_i show ?thesis
        by (auto simp: read_bits_def split: if_split_asm)
    next
      case (Some f)
      with stable have "\<not> fd_volatile f" by (simp add: stable_at_def)
      with Some hw_i bits old known data_i show ?thesis
        by (auto simp: read_bits_def read_effect_bits_def policy readable_at_def
            split: if_split_asm read_effect.split_asm)
    qed
  qed
  then show ?thesis by (simp add: mirror_sound_def desc)
qed

section \<open>The two predictions of a whole write\<close>

text \<open>No write-once field is written in part.\<close>

definition locks_whole :: "('a, 'd, 'e, 'w) register_handle \<Rightarrow> bool" where
  "locks_whole h =
     (\<forall>f \<in> set (rd_fields (rh_desc h)). \<forall>i < 64. \<forall>j < 64.
        covers f i \<and> covers f j \<and> bit (rh_written_once h) i \<longrightarrow> bit (rh_written_once h) j)"

lemma lock_test:
  assumes "locks_whole h" "f \<in> set (rd_fields (rh_desc h))" "covers f i" "i < 64"
  shows "rh_written_once h AND register_field_mask f = 0 \<longleftrightarrow> \<not> bit (rh_written_once h) i"
proof
  assume "rh_written_once h AND register_field_mask f = 0"
  then have "\<not> bit (rh_written_once h AND register_field_mask f) i" by simp
  with assms(3,4) show "\<not> bit (rh_written_once h) i" by (simp add: bit_and_iff bits_at)
next
  assume free: "\<not> bit (rh_written_once h) i"
  have "\<not> bit (rh_written_once h AND register_field_mask f) j" if "j < 64" for j
    using assms free that unfolding locks_whole_def by (metis bit_and_iff bit_register_field_mask)
  then show "rh_written_once h AND register_field_mask f = 0"
    by (intro bit_word_eqI) simp
qed

lemma predicted_write_state_bits:
  assumes "handle_ok h" "locks_whole h" "i < rd_width (rh_desc h)" "\<And>i. i < rd_width (rh_desc h) \<Longrightarrow> bit m i"
  shows "pair_bits (predicted_write_state v h) i = write_bits h v m (rh_mirrored h, rh_mirrored_valid h) i"
proof -
  let ?fs = "rd_fields (rh_desc h)" and ?s = "(rh_mirrored h, rh_mirrored_valid h)"
  note ok = handle_okD [OF assms(1)]
  have i: "i < 64" using ok(3) assms(3) by simp
  let ?step = "\<lambda>f state. if register_writable (fd_access f) \<and> rh_written_once h AND register_field_mask f = 0
      then write_effect_of (rh_desc h) (rh_policy h) v f state else state"
  have fold: "pair_bits (fold ?step ?fs ?s) i =
      (case field_at ?fs i of None \<Rightarrow> pair_bits ?s i | Some f \<Rightarrow> pair_bits (?step f ?s) i)"
    by (rule reachable_steps.fold_at [OF ok(1) i])
  show ?thesis
  proof (cases "field_at ?fs i")
    case None
    then show ?thesis
      using fold assms(3,4) i
      by (auto simp: predicted_write_state_def write_bits_def split_def pair_bits_def bit_and_iff ok(2) bits_at Let_def)
  next
    case (Some f)
    then have f: "f \<in> set ?fs" "covers f i" by (auto dest: field_at_Some)
    then have "?fs \<noteq> []" by auto
    with Some fold f lock_test [OF assms(2) f i] assms(3,4) i
      write_effect_of_bits [OF i, of "rh_desc h" "rh_policy h" v f ?s]
    show ?thesis
      by (auto simp: predicted_write_state_def write_bits_def split_def bit_and_iff ok(2) bits_at Let_def)
        (auto simp: pair_bits_def bit_and_iff bits_at)
  qed
qed

lemma commit_predicted_is_predict:
  assumes ok: "handle_ok h" and vals: "values_ok h" and whole: "locks_whole h"
    and m: "\<And>i. i < rd_width (rh_desc h) \<Longrightarrow> bit m i"
  shows "commit_predicted_write_state (predicted_write_state v h) h = predict_write_masked v m h"
proof -
  let ?fs = "rd_fields (rh_desc h)" and ?s = "(rh_mirrored h, rh_mirrored_valid h)" and ?w = "rd_width (rh_desc h)"
  note okD = handle_okD [OF ok]
  let ?p = "predicted_write_state v h"
  have bits: "pair_bits ?p i = write_bits h v m ?s i" if "i < ?w" for i
    using predicted_write_state_bits [OF ok whole that m] .
  let ?a = "commit_predicted_write_state ?p h" and ?b = "predict_write_masked v m h"
  note bits_b = predict_write_masked_bits [OF ok, of _ v m]
  have low: "bit (rh_mirrored ?b) i \<Longrightarrow> i < ?w" "bit (rh_mirrored_valid ?b) i \<Longrightarrow> i < ?w"
    "bit (rh_staged ?b) i \<Longrightarrow> i < ?w" "bit (rh_staged_valid ?b) i \<Longrightarrow> i < ?w" for i
    by (auto simp: predict_write_masked_def Let_def split_def bit_and_iff okD(2) bits_at split: if_split_asm)
  have writable: "bit (rh_writable_mask h) i = writable_at ?fs i" if "i < ?w" for i
    using okD(8) [of i] okD(3) that by simp
  have none: "writable_at [] i" for i by (simp add: writable_at_def field_at_def)
  have a: "pair_bits (rh_mirrored ?a, rh_mirrored_valid ?a) i = pair_bits (rh_mirrored ?b, rh_mirrored_valid ?b) i"
    "pair_bits (rh_staged ?a, rh_staged_valid ?a) i = pair_bits (rh_staged ?b, rh_staged_valid ?b) i" if "i < ?w" for i
    using bits [OF that] bits_b(1,2) [OF that] m [OF that] writable [OF that] that okD(3) none
    by (auto simp: commit_predicted_write_state_def Let_def pair_bits_def bit_and_iff okD(2) bits_at)
  have low_a: "bit (rh_mirrored ?a) i \<Longrightarrow> i < ?w" "bit (rh_mirrored_valid ?a) i \<Longrightarrow> i < ?w" for i
    by (auto simp: commit_predicted_write_state_def Let_def bit_and_iff okD(2) bits_at)
  have low_s: "bit (rh_staged ?a) i \<Longrightarrow> i < ?w" "bit (rh_staged_valid ?a) i \<Longrightarrow> i < ?w" for i
    using vals by (auto simp: values_ok_def commit_predicted_write_state_def Let_def bit_and_iff okD(2) bits_at split: if_split_asm)
  have mirrored: "rh_mirrored ?a = rh_mirrored ?b"
    by (rule bit_word_eqI) (metis a(1) low(1) low_a(1) pair_bits_def fst_conv)
  have mirrored_valid: "rh_mirrored_valid ?a = rh_mirrored_valid ?b"
    by (rule bit_word_eqI) (metis a(1) low(2) low_a(2) pair_bits_def snd_conv)
  have staged: "rh_staged ?a = rh_staged ?b"
    by (rule bit_word_eqI) (metis a(2) low(3) low_s(1) pair_bits_def fst_conv)
  have staged_valid: "rh_staged_valid ?a = rh_staged_valid ?b"
    by (rule bit_word_eqI) (metis a(2) low(4) low_s(2) pair_bits_def snd_conv)
  have once_bound: "write_once_at ?fs i \<Longrightarrow> i < ?w" for i
    using fields_below [of ?fs ?w i] okD(11) by (auto simp: write_once_at_def split: option.split_asm)
  have once: "rh_written_once ?a = rh_written_once ?b"
  proof (rule bit_word_eqI)
    fix i assume "i < LENGTH(64)"
    then have i: "i < 64" by simp
    show "bit (rh_written_once ?a) i = bit (rh_written_once ?b) i"
    proof (cases "i < ?w")
      case True
      then show ?thesis
        using bits_b(3) [OF True] m [OF True] i okD(10) [OF i]
        by (simp add: commit_predicted_write_state_def Let_def bit_and_iff bit_or_iff okD(2) bits_at)
    next
      case False
      then show ?thesis
        using once_bound [of i] okD(10) [OF i] i
        by (auto simp: commit_predicted_write_state_def predict_write_masked_def Let_def split_def bit_and_iff bit_or_iff okD(2) bits_at)
    qed
  qed
  have "setup_of ?a = setup_of ?b" by simp
  then have rest: "rh_backdoor ?a = rh_backdoor ?b" "rh_auto_predict ?a = rh_auto_predict ?b" "rh_reports ?a = rh_reports ?b"
    by (metis setup_of_fields(3)) simp_all
  show ?thesis
    by (rule register_handle.equality)
      (simp_all add: mirrored mirrored_valid staged staged_valid once rest setup_of_eqD [OF \<open>setup_of ?a = setup_of ?b\<close>])
qed

end
