(* ===== verification/RegisterTarget.thy ===== *)
theory RegisterTarget
  imports RegisterMirror
begin

text \<open>
  A register behind a bus. The locale \<open>register_target\<close> states what the bus and the hardware behind it
  promise of a transfer; in it every operation of the handle on the bus is shown to keep the mirror in
  step with the hardware, whatever transfers fail.
\<close>

section \<open>Transfers\<close>

definition chunk_index :: "nat \<Rightarrow> ('a, 'd, 'e, 'w) register_handle \<Rightarrow> nat" where
  "chunk_index t h = (if rd_endianness (rh_desc h) = RegLittle then t else rh_transfer_count h - t - 1)"

definition chunk_of :: "nat \<Rightarrow> ('a, 'd, 'e, 'w) register_handle \<Rightarrow> u64" where
  "chunk_of t h = push_bit (transfer_bit_offset t h) (rh_chunk_mask h)"

lemma div_eq_iff_range: "0 < b \<Longrightarrow> i div b = k \<longleftrightarrow> k * b \<le> i \<and> i < k * b + b" for i b k :: nat
  using div_times_less_eq_dividend [of i b] dividend_less_div_times [of b i] div_nat_eqI [of b k i]
  by (auto simp: algebra_simps)

lemma bit_chunk_of:
  assumes ok: "handle_ok h" and t: "t < rh_transfer_count h"
  shows "bit (chunk_of t h) i \<longleftrightarrow> i < rd_width (rh_desc h) \<and> i div rh_access_width h = chunk_index t h"
proof -
  let ?aw = "rh_access_width h" and ?n = "rh_transfer_count h" and ?k = "chunk_index t h"
  note okD = handle_okD [OF ok]
  have off: "transfer_bit_offset t h = ?k * ?aw"
    by (simp add: transfer_bit_offset_def chunk_index_def)
  have k: "?k < ?n" using t by (auto simp: chunk_index_def)
  have bound: "?k * ?aw + ?aw \<le> rd_width (rh_desc h)"
    using k okD(6) by (metis Suc_leI add.commute mult_Suc mult_le_mono1)
  have "i div ?aw = ?k \<longleftrightarrow> ?k * ?aw \<le> i \<and> i < ?k * ?aw + ?aw"
    using okD(5) by (rule div_eq_iff_range)
  then show ?thesis
    using okD(3,4) bound by (auto simp: chunk_of_def off bit_push_bit_iff bits_at)
qed

lemma chunk_index_inj:
  "t < rh_transfer_count h \<Longrightarrow> t' < rh_transfer_count h \<Longrightarrow> chunk_index t h = chunk_index t' h \<Longrightarrow> t = t'"
  by (auto simp: chunk_index_def split: if_split_asm)

lemma chunks_disjoint:
  assumes "handle_ok h" "t < rh_transfer_count h" "t' < rh_transfer_count h" "t \<noteq> t'" "bit (chunk_of t h) i"
  shows "\<not> bit (chunk_of t' h) i"
  using assms chunk_index_inj [OF assms(2,3)] by (auto simp: bit_chunk_of)

lemma setup_of_chunk:
  assumes "setup_of h = setup_of h0"
  shows "chunk_of t h = chunk_of t h0" "transfer_bit_offset t h = transfer_bit_offset t h0"
    "transfer_address t am h = transfer_address t am h0" "bus_write a d b am h w = bus_write a d b am h0 w"
    "bus_read a am h w = bus_read a am h0 w"
  using setup_of_eqD [OF assms]
  by (simp_all add: chunk_of_def transfer_bit_offset_def transfer_address_def bus_write_def bus_read_def cong: option.case_cong)

text \<open>What is written on the bus agrees with the value on the enabled bits.\<close>

lemma bus_data_bits:
  fixes h :: "('a::len word, 'd::len word, 'e::len word, 'w) register_handle"
  assumes ok: "handle_ok h" and t: "t < rh_transfer_count h" and i: "bit (chunk_of t h) i"
  shows "bit (push_bit (transfer_bit_offset t h)
      (ucast (ucast (drop_bit (transfer_bit_offset t h) v AND rh_chunk_mask h) :: 'd word)) :: u64) i = bit v i"
proof -
  let ?off = "transfer_bit_offset t h"
  note okD = handle_okD [OF ok]
  have i64: "i < 64" using i bit_chunk_of [OF ok t] okD(3) by auto
  have "?off \<le> i \<and> i - ?off < rh_access_width h"
    using i by (auto simp: chunk_of_def bit_push_bit_iff okD(4) bits_at)
  moreover have "rh_access_width h \<le> LENGTH('d)"
    using ok by (simp add: handle_ok_def Let_def)
  ultimately show ?thesis
    using i64 by (auto simp: bit_push_bit_iff bit_ucast_iff bit_and_iff bit_drop_bit_eq okD(4) bits_at)
qed

lemma hw_write_cong:
  assumes "\<And>i. bit m i \<Longrightarrow> bit v i = bit v' i"
  shows "hw_write fs v m l r r' = hw_write fs v' m l r r'"
  using assms unfolding hw_write_def by (auto split: option.split)

lemma hw_data_cong:
  assumes "\<And>i. bit m i \<Longrightarrow> bit v i = bit v' i"
  shows "hw_data fs m v r = hw_data fs m v' r"
  using assms unfolding hw_data_def by auto

lemma hw_read_compose:
  assumes "hw_read fs m a b" "hw_read fs m' b c" "\<And>i. bit m i \<Longrightarrow> \<not> bit m' i"
  shows "hw_read fs (m OR m') a c"
proof -
  have "case field_at fs i of
        None \<Rightarrow> bit c i = bit a i
      | Some f \<Rightarrow> fd_volatile f \<or> (if register_readable (fd_access f) \<and> bit (m OR m') i
           then fd_read_effect f = ReadUser \<or> bit c i = read_bit (fd_read_effect f) (bit a i) else bit c i = bit a i)"
    if "i < 64" for i
  proof (cases "field_at fs i")
    case None
    with assms(1,2) that show ?thesis unfolding hw_read_def by fastforce
  next
    case (Some f)
    then have "fd_volatile f \<or> (if register_readable (fd_access f) \<and> bit m i
           then fd_read_effect f = ReadUser \<or> bit b i = read_bit (fd_read_effect f) (bit a i) else bit b i = bit a i)"
      "fd_volatile f \<or> (if register_readable (fd_access f) \<and> bit m' i
           then fd_read_effect f = ReadUser \<or> bit c i = read_bit (fd_read_effect f) (bit b i) else bit c i = bit b i)"
      using assms(1,2) that unfolding hw_read_def by fastforce+
    with Some assms(3) [of i] show ?thesis by (auto simp: bit_or_iff split: if_split_asm)
  qed
  then show ?thesis by (simp add: hw_read_def)
qed

text \<open>Data of a later transfer was there before an earlier one that read other bits.\<close>

lemma hw_data_before:
  assumes "hw_read fs m a b" "hw_data fs m' v b" "\<And>i. bit m' i \<Longrightarrow> \<not> bit m i"
  shows "hw_data fs m' v a"
proof -
  have "bit v i = bit a i" if "i < 64" "readable_at fs i" "stable_at fs i" "bit m' i" for i
  proof -
    have "bit v i = bit b i" using assms(2) that by (simp add: hw_data_def)
    also have "\<dots> = bit a i"
      using assms(1) that assms(3) [of i] unfolding hw_read_def stable_at_def
      by (fastforce split: option.split_asm if_split_asm)
    finally show ?thesis .
  qed
  then show ?thesis by (simp add: hw_data_def)
qed

lemma hw_data_or:
  assumes "hw_data fs m v a" "hw_data fs m' v' a" "\<And>i. bit m i \<Longrightarrow> \<not> bit m' i"
  shows "hw_data fs (m OR m') ((v AND NOT m') OR (v' AND m')) a"
  using assms unfolding hw_data_def by (auto simp: bit_and_iff bit_or_iff bit_not_iff)

lemma write_once_bound:
  assumes "handle_ok h" "bit (rh_write_once_mask h) i"
  shows "i < rd_width (rh_desc h)"
  using assms handle_okD(10) [OF assms(1) bit_u64_low [OF assms(2)]] handle_okD(11) [OF assms(1)]
    fields_below [of "rd_fields (rh_desc h)" "rd_width (rh_desc h)" i]
  by (auto simp: write_once_at_def split: option.split_asm)

lemma written_once_predict:
  assumes ok: "handle_ok h"
  shows "rh_written_once (predict_write_masked v m h) = rh_written_once h OR (rh_write_once_mask h AND m)"
proof (rule bit_word_eqI)
  fix i assume "i < LENGTH(64)"
  then have i: "i < 64" by simp
  note okD = handle_okD [OF ok]
  have "\<not> bit (rh_write_once_mask h) i" if "rd_fields (rh_desc h) = []"
    using okD(10) [OF i] that by (simp add: write_once_at_def field_at_def)
  then show "bit (rh_written_once (predict_write_masked v m h)) i = bit (rh_written_once h OR (rh_write_once_mask h AND m)) i"
    using write_once_bound [OF ok, of i] i
    by (auto simp: predict_write_masked_def Let_def split_def bit_and_iff bit_or_iff okD(2) bits_at)
qed

lemma values_ok_predict:
  assumes "handle_ok h" "values_ok h"
  shows "values_ok (predict_write_masked v m h)" "values_ok (predict_read_masked v m h)"
  using assms(2) handle_okD(2) [OF assms(1)]
  by (auto simp: values_ok_def predict_write_masked_def predict_read_masked_def Let_def split_def bit_and_iff bit_or_iff bits_at
      split: if_split_asm)

lemma locks_whole_write:
  assumes ok: "handle_ok h" and whole: "locks_whole h" and m: "\<And>i. i < rd_width (rh_desc h) \<Longrightarrow> bit m i"
  shows "locks_whole (predict_write_masked v m h)"
proof -
  let ?fs = "rd_fields (rh_desc h)"
  have desc: "rh_desc (predict_write_masked v m h) = rh_desc h"
    by (rule setup_of_eqD) simp
  have once: "bit (rh_write_once_mask h AND m) j"
    if f: "f \<in> set ?fs" "covers f i" "covers f j" "i < 64" "j < 64" "bit (rh_write_once_mask h AND m) i" for f i j
  proof -
    have at: "field_at ?fs i = Some f" "field_at ?fs j = Some f"
      using f handle_okD(1) [OF ok] by (auto intro: field_at_eqI)
    moreover have "bit (rh_write_once_mask h) i" using f(6) by (simp add: bit_and_iff)
    ultimately have "bit (rh_write_once_mask h) j"
      using handle_okD(10) [OF ok f(4)] handle_okD(10) [OF ok f(5)] by (simp add: write_once_at_def)
    with m [OF write_once_bound [OF ok this]] show ?thesis by (simp add: bit_and_iff)
  qed
  have "bit (rh_written_once h OR (rh_write_once_mask h AND m)) j"
    if "f \<in> set ?fs" "i < 64" "j < 64" "covers f i" "covers f j" "bit (rh_written_once h OR (rh_write_once_mask h AND m)) i"
    for f i j
    using whole that once [OF that(1,4,5,2,3)] unfolding locks_whole_def bit_or_iff by blast
  then show ?thesis
    by (simp add: locks_whole_def desc written_once_predict [OF ok])
qed

section \<open>A register behind a bus\<close>

text \<open>
  \<open>in_step h0 h r l\<close>: the handle \<open>h\<close> is \<open>h0\<close> with other values, it predicts, every known bit of its mirror is
  that of the hardware \<open>r\<close>, and it knows the bits \<open>l\<close> that are locked there.
\<close>

definition in_step ::
  "('a, 'd, 'e, 'w) register_handle \<Rightarrow> ('a, 'd, 'e, 'w) register_handle \<Rightarrow> u64 \<Rightarrow> u64 \<Rightarrow> bool" where
  "in_step h0 h r l =
     (setup_of h = setup_of h0 \<and> rh_auto_predict h \<and> values_ok h \<and> mirror_sound h r \<and> rh_written_once h = l \<and>
      (rh_transfer_count h = 1 \<longrightarrow> locks_whole h))"

lemma hw_write_nothing:
  assumes "handle_ok h" "hw_write (rd_fields (rh_desc h)) v 0 l r r'" "mirror_sound h r"
  shows "mirror_sound h r'"
proof -
  have "bit r' i = bit r i" if "i < rd_width (rh_desc h)" "stable_at (rd_fields (rh_desc h)) i" for i
  proof -
    have "i < 64" using that handle_okD(3) [OF assms(1)] by simp
    then show ?thesis
      using assms(2) that(2) unfolding hw_write_def stable_at_def
      by (cases "field_at (rd_fields (rh_desc h)) i") auto
  qed
  with assms(3) show ?thesis by (simp add: mirror_sound_def)
qed

lemma hw_read_nothing:
  assumes "handle_ok h" "hw_read (rd_fields (rh_desc h)) 0 r r'" "mirror_sound h r"
  shows "mirror_sound h r'"
proof -
  have "bit r' i = bit r i" if "i < rd_width (rh_desc h)" "stable_at (rd_fields (rh_desc h)) i" for i
  proof -
    have "i < 64" using that handle_okD(3) [OF assms(1)] by simp
    then show ?thesis
      using assms(2) that(2) unfolding hw_read_def stable_at_def
      by (cases "field_at (rd_fields (rh_desc h)) i") auto
  qed
  with assms(3) show ?thesis by (simp add: mirror_sound_def)
qed

lemma in_step_write:
  assumes step: "in_step h0 h r l" and ok: "handle_ok h0" and policy: "rh_policy h0 = None" and t: "t < rh_transfer_count h0"
    and hw: "hw_write (rd_fields (rh_desc h0)) v (chunk_of t h0) l r r'"
    and l': "l' = l OR (rh_write_once_mask h0 AND chunk_of t h0)"
  shows "in_step h0 (predict_write_masked v (chunk_of t h0) h) r' l'"
proof -
  have same_setup: "setup_of h = setup_of h0" and sound: "mirror_sound h r" and l: "rh_written_once h = l"
    and vals: "values_ok h" and auto_h: "rh_auto_predict h"
    using step by (auto simp: in_step_def)
  note same = setup_of_eqD [OF same_setup]
  have ok_h: "handle_ok h" using ok handle_ok_setup [OF same_setup] by simp
  have "mirror_sound (predict_write_masked v (chunk_of t h0) h) r'"
    using predict_write_sound [OF ok_h _ sound, of v "chunk_of t h0" r'] hw policy by (simp add: same l)
  moreover have "locks_whole (predict_write_masked v (chunk_of t h0) h)" if one: "rh_transfer_count h = 1"
  proof (rule locks_whole_write [OF ok_h])
    show "locks_whole h" using step one by (simp add: in_step_def)
    fix i assume i: "i < rd_width (rh_desc h)"
    have "rh_access_width h = rd_width (rh_desc h)" using handle_okD(6) [OF ok_h] one by simp
    then show "bit (chunk_of t h0) i"
      using bit_chunk_of [OF ok_h, of t i] t i one by (simp add: same setup_of_chunk(1) [OF same_setup] chunk_index_def)
  qed
  ultimately show ?thesis
    using same_setup auto_h values_ok_predict(1) [OF ok_h vals] written_once_predict [OF ok_h]
    by (simp add: in_step_def l l' same setup_of_eqD [OF predict_write_masked_setup])
qed

lemma in_step_read:
  assumes step: "in_step h0 h r l" and ok: "handle_ok h0" and policy: "rh_policy h0 = None"
    and data: "hw_data (rd_fields (rh_desc h0)) m v r" and hw: "hw_read (rd_fields (rh_desc h0)) m r r'"
  shows "in_step h0 (predict_read_masked v m h) r' l"
proof -
  have same_setup: "setup_of h = setup_of h0" and sound: "mirror_sound h r" and vals: "values_ok h"
    using step by (auto simp: in_step_def)
  note same = setup_of_eqD [OF same_setup]
  have ok_h: "handle_ok h" using ok handle_ok_setup [OF same_setup] by simp
  have "mirror_sound (predict_read_masked v m h) r'"
    using predict_read_sound [OF ok_h _ sound] data hw policy by (simp add: same)
  then show ?thesis
    using step values_ok_predict(2) [OF ok_h vals] setup_of_eqD [OF predict_read_masked_setup [of v m h]]
    by (auto simp: in_step_def locks_whole_def same)
qed

lemma transfer_address_all:
  "transfer_address t am h = Ok address \<Longrightarrow> \<exists>address. transfer_address t' am h = Ok address"
  "transfer_address t am h = Fail e \<Longrightarrow> transfer_address t' am h = Fail e"
  by (cases "case am of Some m \<Rightarrow> effective_address (rh_desc h) m | None \<Rightarrow> Ok (rh_address h)"; simp add: transfer_address_def)+

text \<open>Predicting the parts of a write one after the other predicts the write.\<close>

lemma write_bits_cong:
  assumes "rh_policy h = None" "setup_of h' = setup_of h" "pair_bits s' i = pair_bits s i"
    "bit (rh_written_once h') i = bit (rh_written_once h) i" "bit m' i = bit m i"
  shows "write_bits h' v m' s' i = write_bits h v m s i"
proof -
  have same: "rh_desc h' = rh_desc h" "rh_policy h' = None"
    using setup_of_eqD [OF assms(2)] assms(1) by simp_all
  have fst_snd: "bit (fst s') i = bit (fst s) i" "bit (snd s') i = bit (snd s) i"
    using pair_bits_eqD [OF assms(3)] by simp_all
  have effect: "write_effect_bits rd None v f s' i = write_effect_bits rd None v f s i" for rd f
    by (cases "fd_write_effect f") (simp_all add: write_effect_bits_def fst_snd)
  show ?thesis
    unfolding write_bits_def same assms(1) assms(3-5) effect ..
qed

lemma write_bits_off: "\<not> bit m i \<Longrightarrow> write_bits h v m s i = pair_bits s i"
  by (auto simp: write_bits_def split: option.split)

lemma fold_predict_bits:
  assumes "handle_ok h" "rh_policy h = None" "i < rd_width (rh_desc h)"
    "\<forall>m \<in> set ms. bit m i \<longrightarrow> (\<forall>m' \<in> set ms. bit m' i \<longrightarrow> m' = m)" "distinct ms"
  shows "pair_bits (rh_mirrored (fold (predict_write_masked v) ms h), rh_mirrored_valid (fold (predict_write_masked v) ms h)) i =
    (if \<exists>m \<in> set ms. bit m i then write_bits h v (- 1) (rh_mirrored h, rh_mirrored_valid h) i
     else pair_bits (rh_mirrored h, rh_mirrored_valid h) i)"
  using assms
proof (induction ms arbitrary: h)
  case Nil
  then show ?case by simp
next
  case (Cons m ms)
  let ?h = "predict_write_masked v m h" and ?s = "(rh_mirrored h, rh_mirrored_valid h)"
  note same = setup_of_eqD [OF predict_write_masked_setup [of v m h]]
  have i: "i < 64" using Cons.prems(1,3) handle_okD(3) by fastforce
  have ok: "handle_ok ?h" using Cons.prems(1) handle_ok_setup [of ?h h] by simp
  note IH = Cons.IH [OF ok] and bits = predict_write_masked_bits [OF Cons.prems(1,3), of v m]
  show ?case
  proof (cases "bit m i")
    case True
    then have rest: "\<not> (\<exists>m' \<in> set ms. bit m' i)" using Cons.prems(4,5) by auto
    have "write_bits h v m ?s i = write_bits h v (- 1) ?s i"
      using True i Cons.prems(2) by (intro write_bits_cong) auto
    with True rest bits(1) IH Cons.prems show ?thesis by (simp add: same)
  next
    case False
    then have "write_bits ?h v (- 1) (rh_mirrored ?h, rh_mirrored_valid ?h) i = write_bits h v (- 1) ?s i"
      "pair_bits (rh_mirrored ?h, rh_mirrored_valid ?h) i = pair_bits ?s i"
      using bits Cons.prems(2) by (auto intro!: write_bits_cong simp: write_bits_off)
    with False IH Cons.prems show ?thesis by (simp add: same)
  qed
qed

lemma fold_predict_setup [simp]:
  "setup_of (fold (predict_write_masked v) ms h) = setup_of h" "rh_reports (fold (predict_write_masked v) ms h) = rh_reports h"
  by (induction ms arbitrary: h) simp_all

lemma chunk_covers:
  assumes ok: "handle_ok h" and i: "i < rd_width (rh_desc h)"
  shows "\<exists>t < rh_transfer_count h. bit (chunk_of t h) i"
proof -
  let ?k = "i div rh_access_width h"
  let ?t = "if rd_endianness (rh_desc h) = RegLittle then ?k else rh_transfer_count h - ?k - 1"
  have k: "?k < rh_transfer_count h"
    using i handle_okD(5,6) [OF ok] by (metis less_mult_imp_div_less)
  then have "?t < rh_transfer_count h" by auto
  moreover from this have "bit (chunk_of ?t h) i"
    using bit_chunk_of [OF ok, of ?t i] i k by (auto simp: chunk_index_def)
  ultimately show ?thesis by blast
qed

lemma chunk_bits_unique:
  assumes ok: "handle_ok h" and "t < rh_transfer_count h" "t' < rh_transfer_count h" "bit (chunk_of t h) i" "bit (chunk_of t' h) i"
  shows "t = t'"
  using assms chunks_disjoint by blast

lemma chunk_inj: "handle_ok h \<Longrightarrow> inj_on (\<lambda>t. chunk_of t h) {..<rh_transfer_count h}"
proof (rule inj_onI)
  fix t t' assume ok: "handle_ok h" and t: "t \<in> {..<rh_transfer_count h}" "t' \<in> {..<rh_transfer_count h}"
    and eq: "chunk_of t h = chunk_of t' h"
  let ?i = "chunk_index t h * rh_access_width h"
  have "chunk_index t h < rh_transfer_count h" using t by (auto simp: chunk_index_def)
  then have "?i < rd_width (rh_desc h)"
    using handle_okD(5,6) [OF ok] by (metis mult_less_mono1)
  then have "bit (chunk_of t h) ?i"
    using bit_chunk_of [OF ok, of t ?i] t handle_okD(5) [OF ok] by simp
  with eq t show "t = t'" using chunk_bits_unique [OF ok, of t t' ?i] by simp
qed

text \<open>All transfers of a write together.\<close>

lemma whole_write_bits:
  fixes v :: u64
  assumes ok: "handle_ok h0" and setup0: "setup_of h = setup_of h0" and policy: "rh_policy h0 = None" and i: "i < rd_width (rh_desc h0)"
  defines "k \<equiv> fold (predict_write_masked v) (map (\<lambda>t. chunk_of t h0) [0..<rh_transfer_count h0]) h"
  shows "pair_bits (rh_mirrored k, rh_mirrored_valid k) i = write_bits h v (- 1) (rh_mirrored h, rh_mirrored_valid h) i"
proof -
  note same = setup_of_eqD [OF setup0]
  have "{0..<rh_transfer_count h0} = {..<rh_transfer_count h0}" by auto
  then have "distinct (map (\<lambda>t. chunk_of t h0) [0..<rh_transfer_count h0])"
    using chunk_inj [OF ok] by (simp add: distinct_map)
  moreover have "\<forall>m \<in> set (map (\<lambda>t. chunk_of t h0) [0..<rh_transfer_count h0]). bit m i \<longrightarrow>
      (\<forall>m' \<in> set (map (\<lambda>t. chunk_of t h0) [0..<rh_transfer_count h0]). bit m' i \<longrightarrow> m' = m)"
    using chunk_bits_unique [OF ok] by fastforce
  moreover have "\<exists>m \<in> set (map (\<lambda>t. chunk_of t h0) [0..<rh_transfer_count h0]). bit m i"
    using chunk_covers [OF ok i] by auto
  ultimately show ?thesis
    using fold_predict_bits [of h i "map (\<lambda>t. chunk_of t h0) [0..<rh_transfer_count h0]" v] ok policy i
      handle_ok_setup [OF setup0]
    by (simp add: k_def same)
qed

text \<open>A comparison that the handle reported, and that the test passes.\<close>

definition agreeing :: "register_report \<Rightarrow> bool" where
  "agreeing r = (case r of MirrorExpected path actual expected \<Rightarrow> actual = expected | UpdateWarning path wanted reachable \<Rightarrow> True)"

text \<open>The handle after an update has reported what it cannot reach, and what the update does then.\<close>

definition warn_update :: "('a, 'd, 'e, 'w) register_handle \<Rightarrow> ('a, 'd, 'e, 'w) register_handle" where
  "warn_update h =
     (let reachable = predicted_write_state (staged_write_value h) h; m = rh_writable_mask h AND rh_staged_valid h
      in if (fst reachable XOR rh_staged h) AND m \<noteq> 0 \<or> snd reachable AND m \<noteq> m
         then h\<lparr>rh_reports := rh_reports h @ [UpdateWarning (rd_path (rh_desc h)) (rh_staged h AND m) (fst reachable AND m)]\<rparr>
         else h)"

lemma predicted_write_state_reports [simp]:
  "predicted_write_state v (h\<lparr>rh_reports := reports\<rparr>) = predicted_write_state v h"
  by (simp add: predicted_write_state_def cong: if_cong)

lemma warn_update_fields [simp]:
  "rh_transfer_count (warn_update h) = rh_transfer_count h" "predicted_write_state v (warn_update h) = predicted_write_state v h"
  by (simp_all add: warn_update_def Let_def)

lemma warn_update_reports: "\<exists>new. rh_reports (warn_update h) = rh_reports h @ new \<and> list_all agreeing new"
  by (simp add: warn_update_def Let_def agreeing_def)

lemma update_locked_cases:
  fixes h :: "('a::len word, 'd::len word, 'e, 'w) register_handle"
  assumes "update_locked am h w = (result, h', w')"
  shows "(h' = h \<or> h' = warn_update h) \<and> w' = w \<and> (\<forall>response. result = Ok response \<longrightarrow> \<not> update_needed h) \<or>
    write_transfers [0..<rh_transfer_count (warn_update h)] (staged_write_value h)
      (if rh_transfer_count (warn_update h) = 1
       then (\<lambda>_. commit_predicted_write_state (predicted_write_state (staged_write_value h) (warn_update h)))
       else predict_write_masked (staged_write_value h))
      am empty_write_response (warn_update h) w = (result, h', w')"
proof -
  define k where "k = warn_update h"
  have k: "predicted_write_state v k = predicted_write_state v h" for v by (simp add: k_def)
  show ?thesis
    using assms unfolding update_locked_def Let_def warn_update_def [unfolded Let_def, symmetric] k_def [symmetric] k
    by (auto simp: needs_update_def supported_def require_supported_access_def split: sum.split_asm if_split_asm)
qed

locale register_target =
  fixes am :: "('a::len word, 'd::len word, 'e::len word, 'w) address_map option"
    and h0 :: "('a word, 'd word, 'e word, 'w) register_handle"
    and hw :: "'w \<Rightarrow> u64" and locked :: "'w \<Rightarrow> u64"
  assumes handle: "handle_ok h0" and no_policy: "rh_policy h0 = None"
    and write_transfer:
      "\<lbrakk>t < rh_transfer_count h0; transfer_address t am h0 = Ok address;
        bus_write (ucast address) d (rh_all_bytes h0) am h0 w = (written, w')\<rbrakk> \<Longrightarrow>
       hw_write (rd_fields (rh_desc h0)) (push_bit (transfer_bit_offset t h0) (ucast d))
         (if memory_okay (wr_status written) then chunk_of t h0 else 0) (locked w) (hw w) (hw w') \<and>
       locked w' = (if memory_okay (wr_status written) then locked w OR (rh_write_once_mask h0 AND chunk_of t h0)
                    else locked w)"
    and read_transfer:
      "\<lbrakk>t < rh_transfer_count h0; transfer_address t am h0 = Ok address;
        bus_read (ucast address) am h0 w = (sampled, w')\<rbrakk> \<Longrightarrow>
       hw_read (rd_fields (rh_desc h0)) (if memory_okay (rr_status sampled) then chunk_of t h0 else 0) (hw w) (hw w') \<and>
       (memory_okay (rr_status sampled) \<longrightarrow>
          hw_data (rd_fields (rh_desc h0)) (chunk_of t h0)
            (push_bit (transfer_bit_offset t h0) (ucast (rr_data sampled))) (hw w)) \<and>
       locked w' = locked w"
begin

abbreviation stays :: "('a word, 'd word, 'e word, 'w) register_handle \<Rightarrow> 'w \<Rightarrow> bool" where
  "stays h w \<equiv> in_step h0 h (hw w) (locked w)"

lemma stays_ok:
  assumes "stays h w"
  shows "handle_ok h" "setup_of h = setup_of h0" "rh_auto_predict h"
  using assms handle handle_ok_setup [of h h0] by (auto simp: in_step_def)

lemma stays_report: "stays (h\<lparr>rh_reports := reports\<rparr>) w = stays h w"
  by (simp add: in_step_def setup_of_def values_ok_def mirror_sound_def locks_whole_def)

lemma write_step:
  assumes step: "stays h w" and t: "t < rh_transfer_count h0" and address: "transfer_address t am h0 = Ok address"
    and bus: "bus_write (ucast address) (ucast (drop_bit (transfer_bit_offset t h0) v AND rh_chunk_mask h0)) (rh_all_bytes h0) am h0 w =
      (written, w')"
  shows "stays (if memory_okay (wr_status written) then predict_write_masked v (chunk_of t h0) h else h) w'"
proof -
  note hw = write_transfer [OF t address bus]
  show ?thesis
  proof (cases "memory_okay (wr_status written)")
    case True
    have "hw_write (rd_fields (rh_desc h0)) v (chunk_of t h0) (locked w) (hw w) (hw w')"
      using hw True hw_write_cong [where v' = v, OF bus_data_bits [OF handle t]] by simp
    with in_step_write [OF step handle no_policy t] hw True show ?thesis by simp
  next
    case False
    have "mirror_sound h (hw w')"
      by (rule hw_write_nothing [OF stays_ok(1) [OF step], where v = "push_bit (transfer_bit_offset t h0)
          (ucast (ucast (drop_bit (transfer_bit_offset t h0) v AND rh_chunk_mask h0) :: 'd word))" and l = "locked w" and r = "hw w"])
        (use hw False step in \<open>simp_all add: in_step_def setup_of_eqD [OF stays_ok(2) [OF step]]\<close>)
    with False hw step show ?thesis by (simp add: in_step_def)
  qed
qed

lemma write_transfers_stays:
  assumes "stays h w" "\<forall>t \<in> set ts. t < rh_transfer_count h0"
    "write_transfers ts v (predict_write_masked v) am response h w = (result, h', w')"
  shows "stays h' w'"
  using assms
proof (induction ts arbitrary: response h w)
  case Nil
  then show ?case by simp
next
  case (Cons t ts)
  note same = setup_of_eqD [OF stays_ok(2) [OF Cons.prems(1)]]
    and chunk = setup_of_chunk [OF stays_ok(2) [OF Cons.prems(1)]]
  show ?case
  proof (cases "transfer_address t am h0")
    case (Inl e)
    with Cons.prems show ?thesis by (auto simp: chunk)
  next
    case (Inr address)
    obtain written w1 where bus: "bus_write (ucast address) (ucast (drop_bit (transfer_bit_offset t h0) v AND rh_chunk_mask h0))
        (rh_all_bytes h0) am h0 w = (written, w1)" by fastforce
    have t: "t < rh_transfer_count h0" using Cons.prems(2) by simp
    note step = write_step [OF Cons.prems(1) t Inr bus]
    show ?thesis
    proof (cases "memory_okay (wr_status written)")
      case True
      with Cons.prems Inr bus step stays_ok(3) [OF Cons.prems(1)] show ?thesis
        by (intro Cons.IH [of "predict_write_masked v (chunk_of t h0) h" w1]) (auto simp: chunk same Let_def chunk_of_def)
    next
      case False
      with Cons.prems Inr bus step show ?thesis by (auto simp: chunk same Let_def)
    qed
  qed
qed

lemma write_unlocked_stays:
  assumes "stays h w" "write_unlocked v am h w = (result, h', w')"
  shows "stays h' w'"
proof -
  have "\<forall>t \<in> set [0..<rh_transfer_count h]. t < rh_transfer_count h0"
    using setup_of_eqD [OF stays_ok(2) [OF assms(1)]] by simp
  from write_transfers_stays [OF assms(1) this] assms show ?thesis
    by (auto simp: write_unlocked_def Let_def split: sum.split_asm)
qed

text \<open>An update over one transfer commits what it computed before; that is what the prediction does.\<close>

lemma update_transfers:
  assumes "stays h w"
  shows "write_transfers [0..<rh_transfer_count h] v
      (if rh_transfer_count h = 1 then (\<lambda>_. commit_predicted_write_state (predicted_write_state v h)) else predict_write_masked v)
      am response h w =
    write_transfers [0..<rh_transfer_count h] v (predict_write_masked v) am response h w"
proof (cases "rh_transfer_count h = 1")
  case True
  note ok = stays_ok(1) [OF assms]
  have width: "rh_access_width h = rd_width (rh_desc h)" using handle_okD(6) [OF ok] True by simp
  have "bit (chunk_of 0 h) i" if "i < rd_width (rh_desc h)" for i
    using bit_chunk_of [OF ok, of 0 i] True that by (simp add: chunk_index_def width)
  with assms True have "commit_predicted_write_state (predicted_write_state v h) h = predict_write_masked v (chunk_of 0 h) h"
    by (intro commit_predicted_is_predict [OF ok]) (auto simp: in_step_def)
  with True show ?thesis by (auto simp: chunk_of_def Let_def split: sum.split prod.split)
qed simp

lemma stays_warned: "stays (warn_update h) w = stays h w"
  by (simp add: warn_update_def Let_def stays_report)

lemma update_locked_stays:
  assumes "stays h w" "update_locked am h w = (result, h', w')"
  shows "stays h' w'"
proof -
  have k: "stays (warn_update h) w" using assms(1) by (simp add: stays_warned)
  have "\<forall>t \<in> set [0..<rh_transfer_count (warn_update h)]. t < rh_transfer_count h0"
    using setup_of_eqD [OF stays_ok(2) [OF assms(1)]] by simp
  note run = write_transfers_stays [OF k this]
  from update_locked_cases [OF assms(2)] show ?thesis
    unfolding update_transfers [OF k] using assms(1) k run by blast
qed

text \<open>
  After some transfers of a read: the hardware has been read in the bits \<open>xr_valid\<close>, and the data are those it had at
  the beginning, \<open>r\<close>.
\<close>

definition sampled_from :: "u64 \<Rightarrow> 'w \<Rightarrow> 'd word register_read_response \<Rightarrow> bool" where
  "sampled_from r w response =
     (hw_read (rd_fields (rh_desc h0)) (xr_valid response) r (hw w) \<and>
      hw_data (rd_fields (rh_desc h0)) (xr_valid response) (xr_data response) r)"

lemma sampled_from_transfer:
  assumes so_far: "sampled_from r w response" and t: "t < rh_transfer_count h0"
    and fresh: "\<And>i. bit (chunk_of t h0) i \<Longrightarrow> \<not> bit (xr_valid response) i"
    and address: "transfer_address t am h0 = Ok address"
    and bus: "bus_read (ucast address) am h0 w = (sampled, w')" and okay: "memory_okay (rr_status sampled)"
  shows "sampled_from r w' (response\<lparr>xr_transport := sampled, xr_transfers := n,
      xr_data := (xr_data response AND NOT (chunk_of t h0)) OR
        push_bit (transfer_bit_offset t h0) (ucast (rr_data sampled) AND rh_chunk_mask h0),
      xr_valid := xr_valid response OR chunk_of t h0\<rparr>)"
proof -
  let ?fs = "rd_fields (rh_desc h0)" and ?off = "transfer_bit_offset t h0" and ?c = "chunk_of t h0"
  let ?d = "push_bit ?off (ucast (rr_data sampled)) :: u64"
  have read: "hw_read ?fs ?c (hw w) (hw w')" and data: "hw_data ?fs ?c ?d (hw w)"
    using read_transfer [OF t address bus] okay by simp_all
  have old: "hw_read ?fs (xr_valid response) r (hw w)" "hw_data ?fs (xr_valid response) (xr_data response) r"
    using so_far by (simp_all add: sampled_from_def)
  have "hw_read ?fs (xr_valid response OR ?c) r (hw w')"
    by (rule hw_read_compose [OF old(1) read]) (use fresh in blast)
  moreover have "hw_data ?fs (xr_valid response OR ?c) ((xr_data response AND NOT ?c) OR (?d AND ?c)) r"
    by (rule hw_data_or [OF old(2) hw_data_before [OF old(1) data fresh]]) (use fresh in blast)+
  moreover have "?d AND ?c = push_bit ?off (ucast (rr_data sampled) AND rh_chunk_mask h0)"
    by (simp add: chunk_of_def push_bit_and)
  ultimately show ?thesis by (simp add: sampled_from_def)
qed

lemma read_transfers_sampled:
  assumes "setup_of h = setup_of h0" "\<forall>t \<in> set ts. t < rh_transfer_count h0" "distinct ts"
    "\<And>t i. t \<in> set ts \<Longrightarrow> bit (chunk_of t h0) i \<Longrightarrow> \<not> bit (xr_valid response) i"
    "sampled_from r w response" "\<And>t. \<exists>address. transfer_address t am h0 = Ok address"
    "read_transfers ts am response h w = (result, h', w')"
  shows "h' = h \<and> locked w' = locked w \<and> (\<exists>response'. result = Ok response' \<and> sampled_from r w' response')"
  using assms
proof (induction ts arbitrary: response w)
  case Nil
  then show ?case by force
next
  case (Cons t ts)
  note same = setup_of_eqD [OF Cons.prems(1)] and chunk = setup_of_chunk [OF Cons.prems(1)]
  obtain address where address: "transfer_address t am h0 = Ok address" using Cons.prems(6) by blast
  obtain sampled w1 where bus: "bus_read (ucast address) am h0 w = (sampled, w1)" by fastforce
  have t: "t < rh_transfer_count h0" using Cons.prems(2) by simp
  note hw = read_transfer [OF t address bus]
  show ?case
  proof (cases "memory_okay (rr_status sampled)")
    case True
    let ?response = "response\<lparr>xr_transport := sampled, xr_transfers := xr_transfers response + 1,
      xr_data := (xr_data response AND NOT (chunk_of t h0)) OR
        push_bit (transfer_bit_offset t h0) (ucast (rr_data sampled) AND rh_chunk_mask h0),
      xr_valid := xr_valid response OR chunk_of t h0\<rparr>"
    have "sampled_from r w1 ?response"
      by (rule sampled_from_transfer [OF Cons.prems(5) t _ address bus True]) (use Cons.prems(4) in auto)
    moreover have "\<not> bit (xr_valid ?response) i" if "t' \<in> set ts" "bit (chunk_of t' h0) i" for t' i
      using that Cons.prems(2,3,4) chunks_disjoint [OF handle, of t' t i] t by (auto simp: bit_or_iff)
    moreover have "read_transfers ts am ?response h w1 = (result, h', w')"
      using Cons.prems(7) address bus True by (simp add: chunk same Let_def chunk_of_def [of t])
    ultimately show ?thesis
      using Cons.IH [of ?response w1] Cons.prems(1-3,6) hw by simp
  next
    case False
    have "hw_read (rd_fields (rh_desc h0)) (xr_valid response) r (hw w1)"
      using hw_read_compose [of _ _ r "hw w" 0 "hw w1"] hw False Cons.prems(5) by (simp add: sampled_from_def)
    with False hw Cons.prems(5,7) address bus show ?thesis
      by (auto simp: chunk same Let_def sampled_from_def)
  qed
qed

lemma frontdoor_read_sampled:
  assumes "setup_of h = setup_of h0" "frontdoor_read am h w = (result, h', w')"
  shows "h' = h \<and> locked w' = locked w \<and>
    (case result of Inl e \<Rightarrow> w' = w | Inr response \<Rightarrow> sampled_from (hw w) w' response)"
proof -
  note same = setup_of_eqD [OF assms(1)] and chunk = setup_of_chunk [OF assms(1)]
  have start: "sampled_from (hw w) w empty_read_response"
    by (auto simp: sampled_from_def empty_read_response_def hw_read_def hw_data_def split: option.split)
  show ?thesis
  proof (cases "\<forall>t. \<exists>address. transfer_address t am h0 = Ok address")
    case True
    show ?thesis
      using assms(2) read_transfers_sampled [OF assms(1) _ _ _ start, of "[0..<rh_transfer_count h]" result h' w'] True
      by (auto simp: frontdoor_read_def empty_read_response_def same split: if_split_asm sum.split_asm)
  next
    case False
    then obtain t e where "transfer_address t am h0 = Fail e"
      by (metis sum.exhaust)
    then have fail: "transfer_address 0 am h = Fail e" using transfer_address_all(2) chunk(3) by metis
    have "0 < rh_transfer_count h"
      using handle handle_okD(5,6) [OF handle] by (auto simp: same handle_ok_def Let_def)
    then have "[0..<rh_transfer_count h] = 0 # [1..<rh_transfer_count h]"
      by (simp add: upt_conv_Cons)
    with fail assms(2) show ?thesis
      by (auto simp: frontdoor_read_def split: if_split_asm sum.split_asm)
  qed
qed

lemma read_locked_stays:
  assumes "stays h w" "read_locked am h w = (result, h', w')"
  shows "stays h' w'"
proof -
  obtain sampled h1 w1 where read: "frontdoor_read am h w = (sampled, h1, w1)" by (metis prod_cases3)
  note hw = frontdoor_read_sampled [OF stays_ok(2) [OF assms(1)] read]
  show ?thesis
  proof (cases sampled)
    case (Inl e)
    with assms read hw show ?thesis by (auto simp: read_locked_def)
  next
    case (Inr response)
    with hw have "sampled_from (hw w) w1 response" "locked w1 = locked w" "h1 = h" by simp_all
    then have "stays (predict_read_masked (xr_data response) (xr_valid response) h) w1"
      using in_step_read [OF assms(1) handle no_policy] by (simp add: sampled_from_def)
    with assms read Inr hw stays_ok(3) [OF assms(1)] show ?thesis by (auto simp: read_locked_def)
  qed
qed

lemma mirror_locked_stays:
  assumes "stays h w" "mirror_locked check am h w = (result, h', w')"
  shows "stays h' w' \<and> (\<exists>new. rh_reports h' = rh_reports h @ new \<and> list_all agreeing new)"
proof -
  obtain sampled h1 w1 where read: "frontdoor_read am h w = (sampled, h1, w1)" by (metis prod_cases3)
  note hw = frontdoor_read_sampled [OF stays_ok(2) [OF assms(1)] read]
  show ?thesis
  proof (cases sampled)
    case (Inl e)
    with assms read hw show ?thesis by (auto simp: mirror_locked_def Let_def)
  next
    case (Inr response)
    note okD = handle_okD [OF stays_ok(1) [OF assms(1)]] and same = setup_of_eqD [OF stays_ok(2) [OF assms(1)]]
    have hw: "sampled_from (hw w) w1 response" "locked w1 = locked w" "h1 = h" using hw Inr by simp_all
    let ?cm = "rh_nonvolatile_mask h AND rh_width_mask h AND rh_mirrored_valid h AND xr_valid response"
    have "bit (xr_data response) i = bit (rh_mirrored h) i" if "bit ?cm i" for i
    proof -
      have i: "i < 64" "i < rd_width (rh_desc h)" "readable_at (rd_fields (rh_desc h)) i" "stable_at (rd_fields (rh_desc h)) i"
        "bit (rh_mirrored_valid h) i" "bit (xr_valid response) i"
        using that bit_u64_low [OF that] okD(9) [of i] by (auto simp: bit_and_iff)
      then have "bit (xr_data response) i = bit (hw w) i"
        using hw(1) by (simp add: sampled_from_def hw_data_def same)
      with i assms(1) show ?thesis by (simp add: in_step_def mirror_sound_def)
    qed
    then have agree: "xr_data response AND ?cm = rh_mirrored h AND ?cm"
      by (intro bit_word_eqI) (auto simp: bit_and_iff)
    define k where "k = (if check \<and> ?cm \<noteq> 0 then h\<lparr>rh_reports := rh_reports h @
        [MirrorExpected (rd_path (rh_desc h)) (xr_data response AND ?cm) (rh_mirrored h AND ?cm)]\<rparr> else h)"
    have k: "stays k w" "\<exists>new. rh_reports k = rh_reports h @ new \<and> list_all agreeing new" "rh_auto_predict k"
      using assms(1) agree stays_ok(3) [OF assms(1)] by (simp_all add: k_def stays_report agreeing_def)
    have "h' = predict_read_masked (xr_data response) (xr_valid response) k" "w' = w1"
      using assms(2) read Inr hw(3) k(3) unfolding mirror_locked_def Let_def by (auto simp: k_def [symmetric])
    then show ?thesis
      using in_step_read [OF k(1) handle no_policy] hw k(2) by (simp add: sampled_from_def)
  qed
qed

lemma write_transfers_complete:
  assumes "stays h w" "\<forall>t \<in> set ts. t < rh_transfer_count h0" "xw_failed response = None"
    "write_transfers ts v (predict_write_masked v) am response h w = (Ok response', h', w')" "xw_failed response' = None"
  shows "h' = fold (predict_write_masked v) (map (\<lambda>t. chunk_of t h0) ts) h"
  using assms
proof (induction ts arbitrary: response h w)
  case Nil
  then show ?case by simp
next
  case (Cons t ts)
  note same = setup_of_eqD [OF stays_ok(2) [OF Cons.prems(1)]]
    and chunk = setup_of_chunk [OF stays_ok(2) [OF Cons.prems(1)]]
  obtain address where address: "transfer_address t am h0 = Ok address"
    using Cons.prems(4) by (auto simp: chunk split: sum.split_asm)
  obtain written w1 where bus: "bus_write (ucast address) (ucast (drop_bit (transfer_bit_offset t h0) v AND rh_chunk_mask h0))
      (rh_all_bytes h0) am h0 w = (written, w1)" by fastforce
  have t: "t < rh_transfer_count h0" using Cons.prems(2) by simp
  have okay: "memory_okay (wr_status written)"
    using Cons.prems(4,5) address bus by (auto simp: chunk same Let_def split: if_split_asm)
  have "stays (predict_write_masked v (chunk_of t h0) h) w1"
    using write_step [OF Cons.prems(1) t address bus] okay by simp
  moreover have "write_transfers ts v (predict_write_masked v) am
      (response\<lparr>xw_transport := written, xw_transfers := xw_transfers response + 1\<rparr>)
      (predict_write_masked v (chunk_of t h0) h) w1 = (Ok response', h', w')"
    using Cons.prems(4) address bus okay stays_ok(3) [OF Cons.prems(1)] by (simp add: chunk same Let_def chunk_of_def)
  ultimately show ?case
    using Cons.prems(2,3,5) by (subst Cons.IH [where h = "predict_write_masked v (chunk_of t h0) h" and w = w1]) simp_all
qed

lemma update_reaches:
  assumes step: "stays h w" and whole: "locks_whole h"
    and update: "update_locked am h w = (Ok response, h', w')" and complete: "xw_failed response = None"
    and quiet: "rh_reports h' = rh_reports h"
    and i: "i < rd_width (rh_desc h0)" "writable_at (rd_fields (rh_desc h0)) i" "stable_at (rd_fields (rh_desc h0)) i"
      "bit (rh_staged_valid h) i"
  shows "bit (hw w') i = bit (rh_staged h) i"
proof -
  note ok = stays_ok [OF step]
  note same = setup_of_eqD [OF ok(2)] and okD = handle_okD [OF ok(1)]
  have i64: "i < 64" using i(1) handle_okD(3) [OF handle] by simp
  have writable: "bit (rh_writable_mask h) i" using okD(8) [OF i64] i by (simp add: same)
  let ?v = "staged_write_value h" and ?m = "rh_writable_mask h AND rh_staged_valid h"
  show ?thesis
  proof (cases "update_needed h")
    case False
    then have "\<not> bit (rh_staged_valid h AND rh_writable_mask h AND ((rh_staged h XOR rh_mirrored h) OR NOT (rh_mirrored_valid h))) i"
      by (simp add: update_needed_def)
    then have "bit (rh_mirrored h) i = bit (rh_staged h) i" "bit (rh_mirrored_valid h) i"
      using i(4) writable i64 by (auto simp: bit_and_iff bit_or_iff bit_xor_iff bit_not_iff)
    moreover have "w' = w"
      using update False okD(7) by (auto simp: update_locked_def needs_update_def supported_def require_supported_access_def)
    ultimately show ?thesis using step i by (simp add: in_step_def mirror_sound_def same)
  next
    case True
    let ?reachable = "predicted_write_state ?v h" and ?k = "warn_update h"
    have k: "stays ?k w" using step by (simp add: stays_warned)
    have run: "write_transfers [0..<rh_transfer_count h0] ?v (predict_write_masked ?v) am empty_write_response ?k w =
        (Ok response, h', w')"
      using update_locked_cases [OF update] True unfolding update_transfers [OF k] by (simp add: same)
    then have h': "h' = fold (predict_write_masked ?v) (map (\<lambda>t. chunk_of t h0) [0..<rh_transfer_count h0]) ?k"
      using write_transfers_complete [OF k _ _ run complete] by (simp add: empty_write_response_def)
    have "rh_reports ?k = rh_reports h" using quiet unfolding h' by simp
    then have kh: "?k = h" and reached: "(fst ?reachable XOR rh_staged h) AND ?m = 0" "snd ?reachable AND ?m = ?m"
      by (auto simp: warn_update_def Let_def split: if_split_asm)
    have "\<not> bit ((fst ?reachable XOR rh_staged h) AND ?m) i" "bit (snd ?reachable AND ?m) i"
      using reached writable i(4) by (simp_all add: bit_and_iff)
    then have "pair_bits ?reachable i = (bit (rh_staged h) i, True)"
      using writable i(4) by (auto simp: pair_bits_def bit_and_iff bit_xor_iff)
    moreover have "pair_bits ?reachable i = write_bits h ?v (- 1) (rh_mirrored h, rh_mirrored_valid h) i"
      by (rule predicted_write_state_bits [OF ok(1) whole]) (use i(1) okD(3) in \<open>simp_all add: same\<close>)
    ultimately have "pair_bits (rh_mirrored h', rh_mirrored_valid h') i = (bit (rh_staged h) i, True)"
      using whole_write_bits [OF handle ok(2) no_policy i(1), of ?v] unfolding h' kh by metis
    then have "bit (rh_mirrored h') i = bit (rh_staged h) i" "bit (rh_mirrored_valid h') i"
      by (simp_all add: pair_bits_def)
    moreover have after: "stays h' w'"
      by (rule write_transfers_stays [OF k _ run]) simp
    have "mirror_sound h' (hw w')"
      using after unfolding in_step_def by blast
    moreover have "rh_desc h' = rh_desc h0"
      by (rule setup_of_eqD [OF stays_ok(2) [OF after]])
    ultimately show ?thesis
      using i(1,3) unfolding mirror_sound_def by metis
  qed
qed

end

end
