(* ===== verification/RegisterRuns.thy ===== *)
theory RegisterRuns
  imports RegisterTarget
begin

text \<open>
  Histories of a register: any sequence of its operations on the bus and of stagings. What a history
  keeps is proved in the locale \<open>register_target\<close>.
\<close>

section \<open>Operations in sequence\<close>

datatype register_operation =
    DoRead | DoWrite u64 | DoUpdate | DoMirror bool | DoStage u64
  | DoFieldRead field_descriptor | DoFieldStage u64 field_descriptor | DoFieldWrite u64 field_descriptor

text \<open>An operation that throws leaves what it did before.\<close>

fun run_operation ::
  "('a::len word, 'd::len word, 'e, 'w) address_map option \<Rightarrow> register_operation \<Rightarrow>
   ('a word, 'd word, 'e, 'w) register_handle \<times> 'w \<Rightarrow> ('a word, 'd word, 'e, 'w) register_handle \<times> 'w" where
  "run_operation am DoRead (h, w) = snd (read_locked am h w)"
| "run_operation am (DoWrite v) (h, w) = snd (write_unlocked v am h w)"
| "run_operation am DoUpdate (h, w) = snd (update_locked am h w)"
| "run_operation am (DoMirror check) (h, w) = snd (mirror_locked check am h w)"
| "run_operation am (DoStage v) (h, w) = (case stage v h of Inl _ \<Rightarrow> (h, w) | Inr h \<Rightarrow> (h, w))"
| "run_operation am (DoFieldRead f) (h, w) = snd (field_read f am h w)"
| "run_operation am (DoFieldStage v f) (h, w) = (case field_stage v f h of Inl _ \<Rightarrow> (h, w) | Inr h \<Rightarrow> (h, w))"
| "run_operation am (DoFieldWrite v f) (h, w) = snd (field_write v f am h w)"

fun operation_field :: "register_operation \<Rightarrow> field_descriptor list" where
  "operation_field (DoFieldRead f) = [f]"
| "operation_field (DoFieldStage v f) = [f]"
| "operation_field (DoFieldWrite v f) = [f]"
| "operation_field _ = []"

definition run_operations ::
  "('a::len word, 'd::len word, 'e, 'w) address_map option \<Rightarrow> register_operation list \<Rightarrow>
   ('a word, 'd word, 'e, 'w) register_handle \<times> 'w \<Rightarrow> ('a word, 'd word, 'e, 'w) register_handle \<times> 'w" where
  "run_operations am = fold (run_operation am)"

section \<open>Staging keeps the mirror\<close>

lemma bit_stage_fields_bound:
  assumes "\<forall>f \<in> set fs. fd_lsb f + fd_width f \<le> width" "bit (stage_fields v fs s) i" "\<And>i. bit s i \<Longrightarrow> i < width"
  shows "i < width"
  using assms
proof (induction fs arbitrary: s)
  case Nil
  then show ?case by (simp add: stage_fields_def)
next
  case (Cons f fs)
  let ?s = "if register_writable (fd_access f) then insert_field s (drop_bit (fd_lsb f) v) f else s"
  have "\<And>i. bit ?s i \<Longrightarrow> i < width"
    using Cons.prems(1,3) by (fastforce simp: bits_at covers_def split: if_split_asm)
  with Cons.IH [of ?s] Cons.prems(1,2) show ?case by (simp add: stage_fields_def)
qed

lemma stage_in_step:
  assumes step: "in_step h0 h r l" and ok: "handle_ok h0" and staged: "stage v h = Ok h'"
  shows "in_step h0 h' r l \<and> rh_reports h' = rh_reports h"
proof -
  have same_setup: "setup_of h = setup_of h0" using step by (simp add: in_step_def)
  note ok_h = ok [folded handle_ok_setup [OF same_setup]]
  note okD = handle_okD [OF ok_h] 
  have bound: "\<forall>f \<in> set (rd_fields (rh_desc h)). fd_lsb f + fd_width f \<le> rd_width (rh_desc h)"
    using okD(11) by blast
  have below: "\<And>i. bit (rh_staged h) i \<Longrightarrow> i < rd_width (rh_desc h)"
    using step by (simp add: in_step_def values_ok_def)
  show ?thesis
  proof (cases "rd_fields (rh_desc h) = []")
    case True
    then have "h' = h\<lparr>rh_staged := v AND rh_width_mask h, rh_staged_valid := rh_width_mask h\<rparr>"
      using staged by (auto simp: stage_def supported_def require_supported_access_def split: if_split_asm)
    with step show ?thesis
      by (auto simp: in_step_def setup_of_def values_ok_def mirror_sound_def locks_whole_def bit_and_iff okD(2) bits_at)
  next
    case False
    then have h': "h' = h\<lparr>rh_staged := stage_fields v (rd_fields (rh_desc h)) (rh_staged h),
        rh_staged_valid := rh_staged_valid h OR rh_writable_mask h\<rparr>"
      using staged by (auto simp: stage_def supported_def require_supported_access_def split: if_split_asm)
    have "bit (rh_writable_mask h) i \<Longrightarrow> i < rd_width (rh_desc h)" for i
      using okD(8) [of i] bit_u64_low by blast
    with step show ?thesis
      unfolding h' using bit_stage_fields_bound [OF bound _ below]
      by (auto simp: in_step_def setup_of_def values_ok_def mirror_sound_def locks_whole_def bit_or_iff)
  qed
qed

lemma stage_field_in_step:
  assumes step: "in_step h0 h r l" and ok: "handle_ok h0" and f: "f \<in> set (rd_fields (rh_desc h0))"
    and staged: "field_stage v f h = Ok h'"
  shows "in_step h0 h' r l \<and> rh_reports h' = rh_reports h"
proof -
  have same_setup: "setup_of h = setup_of h0" using step by (simp add: in_step_def)
  have bound: "covers f i \<Longrightarrow> i < rd_width (rh_desc h)" for i
    using handle_okD(11) [OF ok f] setup_of_eqD [OF same_setup] by (simp add: covers_def)
  have "h' = h\<lparr>rh_staged := insert_field (rh_staged h) v f, rh_staged_valid := rh_staged_valid h OR register_field_mask f\<rparr>"
    using staged by (auto simp: field_stage_def stage_field_def supported_def require_supported_access_def split: if_split_asm)
  with step bound show ?thesis
    by (auto simp: in_step_def setup_of_def values_ok_def mirror_sound_def locks_whole_def bit_or_iff bits_at split: if_split_asm)
qed

section \<open>What operations do to the reports\<close>

lemma write_transfers_reports:
  assumes "\<And>m k. rh_reports (predict_chunk m k) = rh_reports k"
  shows "write_transfers ts v predict_chunk am response h w = (result, h', w') \<Longrightarrow> rh_reports h' = rh_reports h"
proof (induction ts arbitrary: response h w)
  case (Cons t ts)
  have "rh_reports (if rh_auto_predict h then predict_chunk m h else h) = rh_reports h" for m
    using assms by simp
  with Cons.prems show ?case
    by (auto simp: Let_def simp del: if_split split: sum.split_asm prod.split_asm if_split_asm dest!: Cons.IH)
qed simp

lemma read_transfers_handle: "read_transfers ts am response h w = (result, h', w') \<Longrightarrow> h' = h"
  by (induction ts arbitrary: response w) (auto simp: Let_def split: sum.split_asm prod.split_asm if_split_asm)

lemma read_locked_reports: "read_locked am h w = (result, h', w') \<Longrightarrow> rh_reports h' = rh_reports h"
  by (auto simp: read_locked_def frontdoor_read_def dest!: read_transfers_handle
      split: sum.split_asm prod.split_asm if_split_asm)

lemma write_unlocked_reports: "write_unlocked v am h w = (result, h', w') \<Longrightarrow> rh_reports h' = rh_reports h"
  by (auto simp: write_unlocked_def Let_def dest!: write_transfers_reports [rotated] split: sum.split_asm)

lemma update_locked_reports:
  assumes "update_locked am h w = (result, h', w')"
  shows "\<exists>new. rh_reports h' = rh_reports h @ new \<and> list_all agreeing new"
proof -
  let ?chunk = "if rh_transfer_count (warn_update h) = 1
    then (\<lambda>_. commit_predicted_write_state (predicted_write_state (staged_write_value h) (warn_update h)))
    else predict_write_masked (staged_write_value h)"
  have chunk: "rh_reports (?chunk m k) = rh_reports k" for m k by simp
  have "rh_reports h' = rh_reports h \<or> rh_reports h' = rh_reports (warn_update h)"
  proof (rule disjE [OF update_locked_cases [OF assms]], goal_cases)
    case 1
    then show ?case by blast
  next
    case 2
    then show ?case by (rule disjI2 [OF write_transfers_reports [of ?chunk, OF chunk]])
  qed
  with warn_update_reports [of h] show ?thesis by auto
qed

section \<open>A register in step\<close>

context register_target begin

lemma run_operation_stays:
  assumes "stays h w" "set (operation_field op) \<subseteq> set (rd_fields (rh_desc h0))" "run_operation am op (h, w) = (h', w')"
  shows "stays h' w' \<and> (\<exists>new. rh_reports h' = rh_reports h @ new \<and> list_all agreeing new)"
  using assms
proof (cases op)
  case DoRead
  then show ?thesis
    using assms read_locked_stays [OF assms(1)] read_locked_reports
    by (cases "read_locked am h w") fastforce
next
  case (DoWrite v)
  then show ?thesis
    using assms write_unlocked_stays [OF assms(1)] write_unlocked_reports
    by (cases "write_unlocked v am h w") fastforce
next
  case DoUpdate
  then show ?thesis
    using assms update_locked_stays [OF assms(1)] update_locked_reports
    by (cases "update_locked am h w") fastforce
next
  case (DoMirror check)
  then show ?thesis
    using assms mirror_locked_stays [OF assms(1)]
    by (cases "mirror_locked check am h w") fastforce
next
  case (DoStage v)
  then show ?thesis
    using assms stage_in_step [OF assms(1) handle, of v]
    by (auto split: sum.split_asm)
next
  case (DoFieldRead f)
  then show ?thesis
    using assms read_locked_stays [OF assms(1)] read_locked_reports [of am h w]
    by (cases "read_locked am h w") (auto simp: field_read_def split: sum.split_asm)
next
  case (DoFieldStage v f)
  then show ?thesis
    using assms stage_field_in_step [OF assms(1) handle, of f v]
    by (auto split: sum.split_asm)
next
  case (DoFieldWrite v f)
  show ?thesis
  proof (cases "field_stage v f h")
    case (Inl e)
    then show ?thesis using assms DoFieldWrite by (auto simp: field_write_def)
  next
    case (Inr k)
    then have k: "stays k w" "rh_reports k = rh_reports h"
      using stage_field_in_step [OF assms(1) handle _ Inr] assms(2) DoFieldWrite by simp_all
    show ?thesis
      using assms(3) DoFieldWrite Inr update_locked_stays [OF k(1)] update_locked_reports [of am k w] k(2)
      by (cases "update_locked am k w") (fastforce simp: field_write_def)
  qed
qed

lemma run_operations_stay:
  assumes "stays h w" "\<forall>op \<in> set ops. set (operation_field op) \<subseteq> set (rd_fields (rh_desc h0))"
    "run_operations am ops (h, w) = (h', w')"
  shows "stays h' w' \<and> (\<exists>new. rh_reports h' = rh_reports h @ new \<and> list_all agreeing new)"
  using assms
proof (induction ops arbitrary: h w)
  case Nil
  then show ?case by (simp add: run_operations_def)
next
  case (Cons op ops)
  obtain h1 w1 where one: "run_operation am op (h, w) = (h1, w1)" by fastforce
  note here = run_operation_stays [OF Cons.prems(1) _ one]
  have "stays h1 w1" using here Cons.prems(2) by simp
  moreover have "run_operations am ops (h1, w1) = (h', w')"
    using Cons.prems(3) one by (simp add: run_operations_def)
  ultimately have "stays h' w' \<and> (\<exists>new. rh_reports h' = rh_reports h1 @ new \<and> list_all agreeing new)"
    using Cons.IH Cons.prems(2) by simp
  with here Cons.prems(2) show ?case by (metis append.assoc list.set_intros(1) list_all_append)
qed

end

lemma initialize_access_validation_values:
  "rh_mirrored (initialize_access_validation k) = rh_mirrored k"
  "rh_mirrored_valid (initialize_access_validation k) = rh_mirrored_valid k"
  by (simp_all add: initialize_access_validation_def Let_def)

lemma initialize_metadata_values:
  "rh_mirrored (initialize_metadata k) = rh_mirrored k" "rh_mirrored_valid (initialize_metadata k) = rh_mirrored_valid k"
  by (simp_all add: initialize_metadata_def Let_def)

lemma in_step_init:
  fixes m :: "('a::len word, 'd::len word, 'e::len word, 'w) master"
  assumes "register_handle_init m rd base backdoor policy = Ok h" "rh_access_error h = NoAccessError"
    "r AND rd_reset_mask rd = rd_reset_value rd AND rd_reset_mask rd"
  shows "in_step h h r 0"
proof -
  note init = register_handle_init_ok [OF assms(1)]
  have "rh_mirrored h = rd_reset_value rd AND rd_reset_mask rd AND register_mask (rd_width rd)"
    "rh_mirrored_valid h = rd_reset_mask rd AND register_mask (rd_width rd)"
    using assms(1) by (auto simp: register_handle_init_def Let_def result_bind_Ok_iff initialize_access_validation_values
        initialize_metadata_values split: if_split_asm)
  moreover have "bit (rd_reset_value rd) i = bit r i" if "bit (rd_reset_mask rd) i" for i
  proof -
    have "bit (r AND rd_reset_mask rd) i = bit (rd_reset_value rd AND rd_reset_mask rd) i" using assms(3) by simp
    with that show ?thesis by (simp add: bit_and_iff)
  qed
  ultimately have "mirror_sound h r"
    by (auto simp: mirror_sound_def bit_and_iff)
  with init show ?thesis by (simp add: in_step_def locks_whole_def)
qed

end
