(* ===== verification/RegisterDevices.thy ===== *)
theory RegisterDevices
  imports RegisterRuns MemoryLemmas
begin

text \<open>
  Hardware that keeps the promises of \<open>register_target\<close>: a word of a sparse memory as a register without
  fields, and a register with fields that implements its description, behind a bus that may fail.
\<close>

section \<open>A described register\<close>

definition word_of :: "(nat \<Rightarrow> bool) \<Rightarrow> u64" where
  "word_of p = horner_sum of_bool 2 (map p [0..<64])"

lemma bit_word_of [simp]: "bit (word_of p) i \<longleftrightarrow> i < 64 \<and> p i"
  by (auto simp: word_of_def bit_horner_sum_bit_word_iff)

text \<open>The state of the hardware: its value, the bits that are locked, and how many transfers will fail.\<close>

type_synonym described_hardware = "u64 \<times> u64 \<times> nat"

definition described_value :: "described_hardware \<Rightarrow> u64" where "described_value s = fst s"

definition described_locks :: "described_hardware \<Rightarrow> u64" where "described_locks s = fst (snd s)"

definition described_write :: "field_descriptor list \<Rightarrow> u64 \<Rightarrow> u64 \<Rightarrow> described_hardware \<Rightarrow> described_hardware" where
  "described_write fs v enabled = (\<lambda>(r, l, n).
     (word_of (\<lambda>i. case field_at fs i of
          None \<Rightarrow> if fs = [] \<and> bit enabled i then bit v i else bit r i
        | Some f \<Rightarrow>
            if register_writable (fd_access f) \<and> bit enabled i \<and> \<not> bit l i
            then write_bit (fd_write_effect f) (bit r i) (bit v i) else bit r i),
      l OR (word_of (write_once_at fs) AND enabled), n))"

definition described_read :: "field_descriptor list \<Rightarrow> u64 \<Rightarrow> described_hardware \<Rightarrow> described_hardware" where
  "described_read fs enabled = (\<lambda>(r, l, n).
     (word_of (\<lambda>i. case field_at fs i of
          None \<Rightarrow> bit r i
        | Some f \<Rightarrow>
            if register_readable (fd_access f) \<and> bit enabled i then read_bit (fd_read_effect f) (bit r i) else bit r i), l, n))"

text \<open>Where a transfer lies in the register: its bits, from the address.\<close>

definition described_offset :: "register_descriptor \<Rightarrow> 'a::len word \<Rightarrow> nat" where
  "described_offset rd address =
     (let count = rd_width rd div rd_access_width rd;
          t = (unat address - unat (rd_address rd)) div (rd_access_width rd div 8)
      in (if rd_endianness rd = RegLittle then t else count - t - 1) * rd_access_width rd)"

definition described_master :: "register_descriptor \<Rightarrow> ('a::len word, 'd::len word, 'e, described_hardware) master" where
  "described_master rd =
     \<lparr>ms_write = (\<lambda>address data byte_enable s.
        case s of
          (r, l, Suc n) \<Rightarrow> (\<lparr>wr_status = SlaveError, wr_wait_cycles = 0\<rparr>, (r, l, n))
        | (r, l, 0) \<Rightarrow>
            (\<lparr>wr_status = Okay, wr_wait_cycles = 0\<rparr>,
             described_write (rd_fields rd) (push_bit (described_offset rd address) (ucast data))
               (push_bit (described_offset rd address) (mask (rd_access_width rd))) s)),
      ms_read = (\<lambda>address s.
        case s of
          (r, l, Suc n) \<Rightarrow> (\<lparr>rr_data = 0, rr_status = SlaveError, rr_wait_cycles = 0\<rparr>, (r, l, n))
        | (r, l, 0) \<Rightarrow>
            (\<lparr>rr_data = ucast (drop_bit (described_offset rd address) r), rr_status = Okay, rr_wait_cycles = 0\<rparr>,
             described_read (rd_fields rd) (push_bit (described_offset rd address) (mask (rd_access_width rd))) s))\<rparr>"

lemma described_write_hw:
  "hw_write fs v enabled l r (fst (described_write fs v enabled (r, l, n)))"
  by (auto simp: hw_write_def described_write_def split: option.split)

lemma described_locks_of [simp]:
  "fst (snd (described_write fs v enabled (r, l, n))) = l OR (word_of (write_once_at fs) AND enabled)"
  "fst (snd (described_read fs enabled (r, l, n))) = l"
  by (simp_all add: described_write_def described_read_def)

lemma described_read_hw: "hw_read fs enabled r (fst (described_read fs enabled (r, l, n)))"
  by (auto simp: hw_read_def described_read_def split: option.split)

lemma hw_idle [simp]: "hw_write fs v 0 l r r" "hw_read fs 0 r r"
  by (auto simp: hw_write_def hw_read_def split: option.split)

text \<open>A 32-bit register, big-endian, over 16-bit transfers, with a field of each kind.\<close>

definition some_field :: "string \<Rightarrow> nat \<Rightarrow> nat \<Rightarrow> register_access \<Rightarrow> read_effect \<Rightarrow> write_effect \<Rightarrow> bool \<Rightarrow> field_descriptor" where
  "some_field name lsb width access on_read on_write is_volatile =
     \<lparr>fd_name = name, fd_path = name, fd_lsb = lsb, fd_width = width, fd_access = access, fd_read_effect = on_read,
      fd_write_effect = on_write, fd_reset_value = 0, fd_reset_mask = 0, fd_volatile = is_volatile, fd_slices = []\<rparr>"

definition example_register :: register_descriptor where
  "example_register =
     \<lparr>rd_id = 1, rd_name = ''device'', rd_path = ''device'', rd_address = 0x40, rd_width = 32, rd_access_width = 16,
      rd_endianness = RegBig, rd_reset_value = 0x5, rd_reset_mask = 0xFFFFFF, rd_reset_value_words = [],
      rd_reset_mask_words = [],
      rd_fields = [some_field ''status'' 0 8 RegReadWrite ReadPlain WriteOneClear False,
        some_field ''ctrl'' 8 6 RegReadWrite ReadPlain WritePlain False,
        some_field ''key'' 14 4 RegReadWriteOnce ReadPlain WritePlain False,
        some_field ''event'' 20 4 RegReadOnly ReadClear WritePlain False,
        some_field ''count'' 24 8 RegReadOnly ReadPlain WritePlain True],
      rd_slices = []\<rparr>"

definition example_handle :: "(32 word, 32 word, 8 word, described_hardware) register_handle" where
  "example_handle = projr (register_handle_init (described_master example_register) example_register 0 None None)"

lemma example_handle_init:
  "register_handle_init (described_master example_register) example_register 0 None None = Ok example_handle"
  "rh_access_error example_handle = NoAccessError"
proof -
  have Ok: "\<exists>h. register_handle_init (described_master example_register) example_register 0 None None = Ok h \<and>
      rh_access_error (h :: (32 word, 32 word, 8 word, described_hardware) register_handle) = NoAccessError"
    by (simp add: register_handle_init_def example_register_def some_field_def Let_def validate_field_layout_def
        initialize_access_validation_def initialize_metadata_def register_mask_def register_field_mask_def
        register_readable_def register_writable_def fits_address_def low_bits_def)
  then show "register_handle_init (described_master example_register) example_register 0 None None = Ok example_handle"
    "rh_access_error example_handle = NoAccessError"
    by (auto simp: example_handle_def)
qed

lemmas example_handle_ok = register_handle_init_ok [OF example_handle_init(1)]

lemma example_handle_fields:
  "rh_transfer_count example_handle = 2" "rh_access_width example_handle = 16" "rh_chunk_mask example_handle = mask 16"
  "rh_address example_handle = 0x40" "rd_access_width example_register = 16"
proof -
  have ok: "handle_ok example_handle" using example_handle_ok(10) example_handle_init(2) by blast
  show "rh_access_width example_handle = 16" "rh_transfer_count example_handle = 2" "rh_chunk_mask example_handle = mask 16"
    using ok by (simp_all add: handle_ok_def Let_def example_handle_ok(1) example_register_def)
  show "rh_address example_handle = 0x40"
    by (simp add: example_handle_ok(5) example_register_def)
  show "rd_access_width example_register = 16" by (simp add: example_register_def)
qed

interpretation described: register_target None example_handle described_value described_locks
proof
  show "handle_ok example_handle" using example_handle_ok(10) example_handle_init(2) by blast
  note okD = handle_okD [OF this]
  have once: "rh_write_once_mask example_handle = word_of (write_once_at (rd_fields example_register))"
  proof (rule bit_word_eqI)
    fix i assume "i < LENGTH(64)"
    then have "i < 64" by simp
    then show "bit (rh_write_once_mask example_handle) i = bit (word_of (write_once_at (rd_fields example_register))) i"
      using okD(10) [of i] by (simp add: example_handle_ok(1))
  qed
  show "rh_policy example_handle = None" by (rule example_handle_ok(3))
  fix t address and d :: "32 word" and w w' :: described_hardware and written and sampled :: "32 word read_response"
  assume t: "t < rh_transfer_count example_handle" and address: "transfer_address t None example_handle = Ok address"
  have address: "address = 0x40 + of_nat t * 2" "t = 0 \<or> t = 1"
    using address t by (auto simp: transfer_address_def example_handle_fields)
  then have offset: "described_offset example_register (ucast address :: 32 word) = transfer_bit_offset t example_handle"
    by (auto simp: described_offset_def transfer_bit_offset_def example_handle_ok(1) example_handle_fields example_register_def Let_def)
  obtain r l n where w: "w = (r, l, n)" by (cases w)
  show "bus_write (ucast address) d (rh_all_bytes example_handle) None example_handle w = (written, w') \<Longrightarrow>
      hw_write (rd_fields (rh_desc example_handle)) (push_bit (transfer_bit_offset t example_handle) (ucast d))
        (if memory_okay (wr_status written) then chunk_of t example_handle else 0) (described_locks w) (described_value w)
        (described_value w') \<and>
      described_locks w' = (if memory_okay (wr_status written)
        then described_locks w OR rh_write_once_mask example_handle AND chunk_of t example_handle else described_locks w)"
    by (cases n) (auto simp: bus_write_def example_handle_ok(1,2) described_master_def offset w memory_okay_def once
        described_value_def described_locks_def described_write_hw chunk_of_def example_handle_fields(3,5))
  show "bus_read (ucast address) None example_handle w = (sampled, w') \<Longrightarrow>
      hw_read (rd_fields (rh_desc example_handle)) (if memory_okay (rr_status sampled) then chunk_of t example_handle else 0)
        (described_value w) (described_value w') \<and>
      (memory_okay (rr_status sampled) \<longrightarrow>
        hw_data (rd_fields (rh_desc example_handle)) (chunk_of t example_handle)
          (push_bit (transfer_bit_offset t example_handle) (ucast (rr_data sampled))) (described_value w)) \<and>
      described_locks w' = described_locks w"
  proof (cases n)
    case 0
    have "hw_data fs (chunk_of t example_handle) (push_bit (transfer_bit_offset t example_handle)
        (ucast (ucast (drop_bit (transfer_bit_offset t example_handle) r) :: 32 word))) r" for fs
      by (auto simp: hw_data_def chunk_of_def example_handle_fields bit_push_bit_iff bit_ucast_iff bit_drop_bit_eq bits_at)
    moreover assume "bus_read (ucast address) None example_handle w = (sampled, w')"
    ultimately show ?thesis
      using 0 described_read_hw [of "rd_fields example_register" "chunk_of t example_handle" r l n]
      by (auto simp: bus_read_def example_handle_ok(1,2) described_master_def offset w memory_okay_def
          described_value_def described_locks_def chunk_of_def example_handle_fields(3,5))
  next
    case (Suc k)
    moreover assume "bus_read (ucast address) None example_handle w = (sampled, w')"
    ultimately show ?thesis
      by (auto simp: bus_read_def example_handle_ok(2) described_master_def w memory_okay_def described_value_def described_locks_def)
  qed
qed

section \<open>A word of a memory\<close>

definition memory_master :: "('a::len word, 'd::len word, 'e::len word, memory) master" where
  "memory_master =
     \<lparr>ms_write = (\<lambda>address data byte_enable m.
        case write_word None (uint address) data byte_enable m of
          Inl _ \<Rightarrow> (\<lparr>wr_status = SlaveError, wr_wait_cycles = 0\<rparr>, m) | Inr r \<Rightarrow> r),
      ms_read = (\<lambda>address m.
        case read_word None (uint address) m of
          Inl _ \<Rightarrow> (\<lparr>rr_data = 0, rr_status = SlaveError, rr_wait_cycles = 0\<rparr>, m) | Inr r \<Rightarrow> (r, m))\<rparr>"

definition stored_word :: "u64 \<Rightarrow> memory \<Rightarrow> 32 word" where
  "stored_word address m =
     (case find_region address 4 m of
        None \<Rightarrow> 0
      | Some i \<Rightarrow> bytes_to_word (rg_order (m ! i)) (map (load_byte (m ! i) address) [0..<4]))"

lemma memory_read:
  "ms_read memory_master (a :: 32 word) m = (sampled, m') \<Longrightarrow>
   m' = m \<and> (memory_okay (rr_status sampled) \<longrightarrow> rr_data (sampled :: 32 word read_response) = stored_word (ucast a) m)"
  by (auto simp: memory_master_def read_word_def normalize_address_def word_bytes_def read_into_def read_without_callback_def
      stored_word_def byte_order_at_def memory_okay_def Let_def split: option.split_asm if_split_asm)

lemma find_region_length:
  assumes "find_region address n m = Some i"
  shows "i < length m"
proof -
  let ?k = "length (takeWhile (\<lambda>q. rg_base q \<le> address) m)"
  have "?k \<le> length m" by (rule length_takeWhile_le)
  moreover have "i < ?k" using assms by (auto simp: find_region_def Let_def split: if_split_asm)
  ultimately show ?thesis by simp
qed

lemma stored_word_write:
  fixes d :: "32 word"
  assumes at: "find_region address 4 m = Some i"
  defines "m' \<equiv> m[i := store_bytes address (enabled_bytes (\<lambda>_. True) (word_to_bytes (rg_order (m ! i)) (d :: 32 word))) (m ! i)]"
  shows "stored_word address m' = d"
proof -
  let ?bytes = "word_to_bytes (rg_order (m ! i)) d" and ?r = "store_bytes address (enabled_bytes (\<lambda>_. True) (word_to_bytes (rg_order (m ! i)) d)) (m ! i)"
  have i: "i < length m" by (rule find_region_length [OF at])
  have length4: "length ?bytes = 4" by (simp add: word_bytes_def)
  have "load_byte ?r address j = ?bytes ! j" if "j < 4" for j
  proof -
    have "load_byte ?r address j = load_byte ?r (address + of_nat j) 0"
      by (simp add: load_byte_def byte_offset_def algebra_simps)
    also have "\<dots> = ?bytes ! j"
      using that length4 by (subst load_enabled) (auto simp: patch_def Let_def max_u64_def unat_of_nat take_bit_eq_mod)
    finally show ?thesis .
  qed
  then have "map (load_byte ?r address) [0..<4] = ?bytes"
    using length4 by (intro nth_equalityI) simp_all
  moreover have "find_region address 4 m' = Some i" "m' ! i = ?r" "rg_order ?r = rg_order (m ! i)"
    using at i by (simp_all add: m'_def find_region_update same_place_def)
  ultimately show ?thesis by (simp add: stored_word_def bytes_of_word_round_trip)
qed

lemma memory_write:
  assumes "ms_write memory_master (a :: 32 word) (d :: 32 word) (enable :: 8 word) m = (written, m')" and all: "enable = 15"
  shows "if memory_okay (wr_status written) then stored_word (ucast a) m' = d else m' = m"
proof -
  let ?a = "ucast a :: u64"
  have enables: "map (\<lambda>index. if bit enable index then 1 else 0) [0..<4] = [1, 1, 1, 1 :: u8]"
    by (simp add: all upt_rec numeral_eq_Suc)
  show ?thesis
  proof (cases "find_region ?a 4 m")
    case None
    with assms(1) show ?thesis
      by (auto simp: memory_master_def write_word_def normalize_address_def word_bytes_def write_without_callback_def
          byte_order_at_def memory_okay_def Let_def)
  next
    case (Some i)
    have same: "filter (\<lambda>(index, _). [1, 1, 1, 1 :: u8] ! index \<noteq> 0) (enumerate 0 bytes) = enabled_bytes (\<lambda>_. True) bytes"
      if "length bytes = 4" for bytes :: "u8 list"
    proof (rule filter_cong [OF refl])
      fix x assume "x \<in> set (enumerate 0 bytes)"
      then have "fst x < 4" using that by (simp add: in_set_enumerate_eq)
      then have "fst x \<in> {0, 1, 2, 3}" by auto
      then show "(case x of (index, _) \<Rightarrow> [1, 1, 1, 1 :: u8] ! index \<noteq> 0) = (case x of (index, _) \<Rightarrow> True)"
        by (cases x) auto
    qed
    show ?thesis
      using assms(1) Some stored_word_write [OF Some, of d]
      by (auto simp: memory_master_def write_word_def normalize_address_def word_bytes_def write_without_callback_def
          byte_order_at_def memory_okay_def Let_def enables same split: if_split_asm)
  qed
qed

definition memory_register :: register_descriptor where
  "memory_register =
     \<lparr>rd_id = 2, rd_name = ''word'', rd_path = ''word'', rd_address = 0x100, rd_width = 32, rd_access_width = 32,
      rd_endianness = RegLittle, rd_reset_value = 0, rd_reset_mask = 0, rd_reset_value_words = [],
      rd_reset_mask_words = [], rd_fields = [], rd_slices = []\<rparr>"

definition memory_handle :: "(32 word, 32 word, 8 word, memory) register_handle" where
  "memory_handle = projr (register_handle_init memory_master memory_register 0 None None)"

lemma memory_handle_init:
  "register_handle_init memory_master memory_register 0 None None = Ok memory_handle"
  "rh_access_error memory_handle = NoAccessError"
proof -
  have Ok: "\<exists>h. register_handle_init memory_master memory_register 0 None None = Ok h \<and>
      rh_access_error (h :: (32 word, 32 word, 8 word, memory) register_handle) = NoAccessError"
    by (simp add: register_handle_init_def memory_register_def Let_def validate_field_layout_def
        initialize_access_validation_def initialize_metadata_def register_mask_def fits_address_def low_bits_def)
  then show "register_handle_init memory_master memory_register 0 None None = Ok memory_handle"
    "rh_access_error memory_handle = NoAccessError"
    by (auto simp: memory_handle_def)
qed

lemmas memory_handle_ok = register_handle_init_ok [OF memory_handle_init(1)]

lemma memory_handle_fields:
  "rh_transfer_count memory_handle = 1" "rh_access_width memory_handle = 32" "rh_chunk_mask memory_handle = mask 32"
  "rh_address memory_handle = 0x100" "rd_fields (rh_desc memory_handle) = []" "rh_all_bytes memory_handle = 15"
proof -
  have ok: "handle_ok memory_handle" using memory_handle_ok(10) memory_handle_init(2) by blast
  show "rh_access_width memory_handle = 32" "rh_transfer_count memory_handle = 1" "rh_chunk_mask memory_handle = mask 32"
    "rh_all_bytes memory_handle = 15"
    using ok by (simp_all add: handle_ok_def Let_def memory_handle_ok(1) memory_register_def mask_eq_exp_minus_1)
  show "rh_address memory_handle = 0x100" "rd_fields (rh_desc memory_handle) = []"
    by (simp_all add: memory_handle_ok(1,5) memory_register_def)
qed

definition memory_value :: "memory \<Rightarrow> u64" where "memory_value m = ucast (stored_word 0x100 m)"

interpretation memory_word: register_target None memory_handle memory_value "\<lambda>_. 0"
proof
  show "handle_ok memory_handle" using memory_handle_ok(10) memory_handle_init(2) by blast
  then have once: "rh_write_once_mask memory_handle = 0"
    using handle_okD(10) [of memory_handle] memory_handle_fields(5)
    by (intro bit_word_eqI) (simp add: write_once_at_def field_at_def)
  show "rh_policy memory_handle = None" by (rule memory_handle_ok(3))
  fix t address and d :: "32 word" and w w' :: memory and written and sampled :: "32 word read_response"
  assume "t < rh_transfer_count memory_handle" and at: "transfer_address t None memory_handle = Ok address"
  then have t: "t = 0" by (simp add: memory_handle_fields)
  have address: "address = 0x100" "(ucast (ucast address :: 32 word) :: u64) = 0x100"
    using at by (simp_all add: transfer_address_def memory_handle_fields t)
  have off: "transfer_bit_offset t memory_handle = 0" "chunk_of t memory_handle = mask 32"
    by (simp_all add: transfer_bit_offset_def chunk_of_def t memory_handle_fields memory_handle_ok(1) memory_register_def)
  show "bus_write (ucast address) d (rh_all_bytes memory_handle) None memory_handle w = (written, w') \<Longrightarrow>
      hw_write (rd_fields (rh_desc memory_handle)) (push_bit (transfer_bit_offset t memory_handle) (ucast d))
        (if memory_okay (wr_status written) then chunk_of t memory_handle else 0) 0 (memory_value w) (memory_value w') \<and>
      (0 :: u64) = (if memory_okay (wr_status written) then 0 OR rh_write_once_mask memory_handle AND chunk_of t memory_handle else 0)"
    using memory_write [of "ucast address" d 15 w written w', OF _ refl]
    by (auto simp: bus_write_def memory_handle_fields memory_handle_ok(2) hw_write_def field_at_def off once memory_value_def
        address(2) bits_at bit_ucast_iff dest: bit_imp_le_length split: if_split_asm)
  show "bus_read (ucast address) None memory_handle w = (sampled, w') \<Longrightarrow>
      hw_read (rd_fields (rh_desc memory_handle)) (if memory_okay (rr_status sampled) then chunk_of t memory_handle else 0)
        (memory_value w) (memory_value w') \<and>
      (memory_okay (rr_status sampled) \<longrightarrow>
        hw_data (rd_fields (rh_desc memory_handle)) (chunk_of t memory_handle)
          (push_bit (transfer_bit_offset t memory_handle) (ucast (rr_data sampled))) (memory_value w)) \<and>
      (0 :: u64) = 0"
    using memory_read [of "ucast address" w sampled w']
    by (auto simp: bus_read_def memory_handle_fields memory_handle_ok(2) hw_read_def hw_data_def field_at_def off memory_value_def
        address(2))
qed

end
