(* ===== verification/RegisterProps.thy ===== *)
theory RegisterProps
  imports RegisterDevices
begin

text \<open>The properties of registers.\<close>

section \<open>What an update writes\<close>

lemma bit_fold_or_fields:
  "bit (fold (\<lambda>f written. if \<not> P f then written else written OR g f) fs (a :: u64)) i \<longleftrightarrow>
   bit a i \<or> (\<exists>f \<in> set fs. P f \<and> bit (g f) i)"
  by (induction fs arbitrary: a) (auto simp: bit_or_iff)

lemma bit_staged_write_value:
  assumes "rh_policy h = None" "disjoint_fields (rd_fields (rh_desc h))" "rd_fields (rh_desc h) \<noteq> []" "i < 64"
  shows "bit (staged_write_value h) i \<longleftrightarrow>
    (case field_at (rd_fields (rh_desc h)) i of
       None \<Rightarrow> False
     | Some f \<Rightarrow> register_writable (fd_access f) \<and>
         encode_bit (fd_write_effect f) (bit (rh_mirrored h) i) (bit (rh_mirrored_valid h) i) (bit (rh_staged h) i))"
proof -
  have none: "(case (e, None :: field_policy option) of (WriteUser, Some pl) \<Rightarrow> a pl | _ \<Rightarrow> b) = b" for e a and b :: u64
    by (cases e) simp_all
  have "bit (staged_write_value h) i \<longleftrightarrow> (\<exists>f \<in> set (rd_fields (rh_desc h)). register_writable (fd_access f) \<and>
      bit (encode_staged_write (rh_mirrored h) (rh_mirrored_valid h) (rh_staged h) f) i)"
    unfolding staged_write_value_def assms(1) none using assms(3) by (simp add: bit_fold_or_fields)
  also have "\<dots> \<longleftrightarrow> (case field_at (rd_fields (rh_desc h)) i of
       None \<Rightarrow> False
     | Some f \<Rightarrow> register_writable (fd_access f) \<and>
         encode_bit (fd_write_effect f) (bit (rh_mirrored h) i) (bit (rh_mirrored_valid h) i) (bit (rh_staged h) i))"
  proof (cases "field_at (rd_fields (rh_desc h)) i")
    case None
    with assms(4) None [unfolded field_at_None] show ?thesis by (simp add: bits_at)
  next
    case (Some f)
    then have "f \<in> set (rd_fields (rh_desc h))" "RegisterBits.covers f i" by (auto dest: field_at_Some)
    moreover have "g = f" if "g \<in> set (rd_fields (rh_desc h))" "RegisterBits.covers g i" for g
      using field_at_eqI [OF assms(2) that] Some by simp
    ultimately show ?thesis
      unfolding Some option.case bit_encode_staged_write [OF assms(4)] by blast
  qed
  finally show ?thesis .
qed

lemma encode_bit_complete:
  assumes "write_known effect known written" "write_bit effect old written = staged"
  shows "write_known effect known (encode_bit effect old known staged) \<and>
    write_bit effect old (encode_bit effect old known staged) = staged"
  using assms by (cases effect; cases known; cases old; cases staged; cases written) simp_all

lemma predicted_write_state_at:
  assumes "handle_ok h" "rh_policy h = None" "i < rd_width (rh_desc h)"
  shows "pair_bits (predicted_write_state v h) i =
    (case field_at (rd_fields (rh_desc h)) i of
       None \<Rightarrow> if rd_fields (rh_desc h) = [] then (bit v i, True) else pair_bits (rh_mirrored h, rh_mirrored_valid h) i
     | Some f \<Rightarrow> if register_writable (fd_access f) \<and> rh_written_once h AND register_field_mask f = 0
         then (write_bit (fd_write_effect f) (bit (rh_mirrored h) i) (bit v i),
               write_known (fd_write_effect f) (bit (rh_mirrored_valid h) i) (bit v i))
         else pair_bits (rh_mirrored h, rh_mirrored_valid h) i)"
proof -
  let ?fs = "rd_fields (rh_desc h)" and ?s = "(rh_mirrored h, rh_mirrored_valid h)"
  note ok = handle_okD [OF assms(1)]
  have i: "i < 64" using ok(3) assms(3) by simp
  let ?step = "\<lambda>f state. if register_writable (fd_access f) \<and> rh_written_once h AND register_field_mask f = 0
      then write_effect_of (rh_desc h) (rh_policy h) v f state else state"
  have fold: "pair_bits (fold ?step ?fs ?s) i =
      (case field_at ?fs i of None \<Rightarrow> pair_bits ?s i | Some f \<Rightarrow> pair_bits (?step f ?s) i)"
    by (rule reachable_steps.fold_at [OF ok(1) i])
  have same: "pair_bits (predicted_write_state v h) i = pair_bits (fold ?step ?fs ?s) i" if "?fs \<noteq> []"
    using that assms(3) i
    by (simp add: predicted_write_state_def pair_bits_def split_def Let_def bit_and_iff ok(2) bits_at)
  show ?thesis
  proof (cases "?fs = []")
    case True
    then have "field_at ?fs i = None" by (simp add: field_at_def)
    with True assms(3) i show ?thesis
      by (simp add: predicted_write_state_def pair_bits_def bit_and_iff ok(2) bits_at)
  next
    case False
    then show ?thesis
    proof (cases "field_at ?fs i")
      case None
      with False same fold show ?thesis by simp
    next
      case (Some f)
      then have "RegisterBits.covers f i" by (auto dest: field_at_Some)
      moreover have "write_effect_bits rd None v f s i =
          (write_bit (fd_write_effect f) (bit (fst s) i) (bit v i), write_known (fd_write_effect f) (bit (snd s) i) (bit v i))" for rd s
        by (cases "fd_write_effect f") (simp_all add: write_effect_bits_def)
      ultimately show ?thesis
        using Some False same fold write_effect_of_bits [OF i, of "rh_desc h" None v f ?s] assms(2) by simp
    qed
  qed
qed

lemma example_handle_values:
  "rh_mirrored example_handle = 5" "rh_mirrored_valid example_handle = 0xFFFFFF" "rh_staged example_handle = 5"
  "rh_staged_valid example_handle = 0xFFFFFF" "rh_width_mask example_handle = 0xFFFFFFFF" "rh_written_once example_handle = 0"
  "rh_writable_mask example_handle = 0x3FFFF" "rh_write_once_mask example_handle = 0x3C000"
  "rh_access_error example_handle = NoAccessError" "rh_auto_predict example_handle" "rh_reports example_handle = []"
  by (simp_all add: example_handle_def register_handle_init_def example_register_def some_field_def Let_def validate_field_layout_def
        initialize_access_validation_def initialize_metadata_def register_mask_def register_field_mask_def
        register_readable_def register_writable_def fits_address_def low_bits_def)

lemmas register_eval = example_register_def some_field_def register_writable_def register_readable_def register_field_mask_def
  register_mask_def apply_write_effect_def apply_write_valid_mask_def insert_field_def extract_field_def write_effect_of_def Let_def

lemma example_transfers:
  "transfer_address t None (example_handle\<lparr>rh_staged := s\<rparr>) = Ok (0x40 + of_nat t * 2)"
  "transfer_address t None example_handle = Ok (0x40 + of_nat t * 2)"
  by (simp_all add: transfer_address_def example_handle_fields)

lemma some_triple: "\<exists>a b c. p = (a, b, c)"
  by (cases p) simp

lemma described_run:
  "snd (snd s) = 0 \<Longrightarrow> ms_write (described_master rd) a d e s =
     (\<lparr>wr_status = Okay, wr_wait_cycles = 0\<rparr>,
      described_write (rd_fields rd) (push_bit (described_offset rd a) (ucast d)) (push_bit (described_offset rd a) (mask (rd_access_width rd))) s)"
  "snd (snd s) = 0 \<Longrightarrow> ms_read (described_master rd) a s =
     (\<lparr>rr_data = ucast (drop_bit (described_offset rd a) (fst s)), rr_status = Okay, rr_wait_cycles = 0\<rparr>,
      described_read (rd_fields rd) (push_bit (described_offset rd a) (mask (rd_access_width rd))) s)"
  "snd (snd (described_write fs v m s)) = snd (snd s)" "snd (snd (described_read fs m s)) = snd (snd s)"
  by (cases s; simp add: described_master_def described_write_def described_read_def split_def)+

lemma example_handle_writable: "rh_writable example_handle"
  using example_handle_ok(10) example_handle_init(2)
  by (simp add: handle_ok_def Let_def example_handle_ok(1) example_register_def some_field_def register_writable_def)

lemma example_update_run:
  defines "h \<equiv> example_handle\<lparr>rh_staged := 0x1201\<rparr>"
  shows "\<exists>response h' w'. update_locked None h (5, 0, 0) = (Ok response, h', w') \<and> xw_failed response = None \<and> rh_reports h' = []"
proof -
  have encoded: "staged_write_value h = 0x1204"
    by (simp add: h_def staged_write_value_def example_handle_ok(1,3) example_handle_values encode_staged_write_def register_eval)
  have reachable: "predicted_write_state 0x1204 h = (0x1201, 0xFFFFFF)"
    by (simp add: h_def predicted_write_state_def example_handle_ok(1,3) example_handle_values register_eval)
  let ?k = "predict_write_masked 0x1204 (push_bit 16 (mask 16)) h"
  have same: "setup_of ?k = setup_of h" "rh_transfer_count h = 2" "rh_auto_predict h" "rh_reports h = []" "rh_master h = described_master example_register"
    "rh_desc h = example_register" "rh_access_width h = 16" "rh_access_error h = NoAccessError" "rh_address h = 0x40" "rh_chunk_mask h = mask 16"
    by (simp_all add: h_def example_handle_fields example_handle_ok(1,2) example_handle_values)
  have needed: "update_needed h" "rh_writable_mask h AND NOT (rh_staged_valid h) = 0" "rh_writable h" "rh_written_once h = 0"
    "rh_writable_mask h AND rh_staged_valid h = 0x3FFFF" "rh_staged h = 0x1201"
    using example_handle_ok(10) example_handle_init(2)
    by (simp_all add: h_def update_needed_def example_handle_values example_handle_writable)
  have offset: "transfer_bit_offset 0 h = 16" "transfer_bit_offset 1 h = 0"
    by (simp_all add: transfer_bit_offset_def same example_register_def)
  show ?thesis
    using setup_of_eqD [OF same(1)]
    by (simp add: update_locked_def encoded reachable needs_update_def supported_def require_supported_access_def same needed
        enforce_write_access_def upt_rec bus_write_def transfer_address_def Let_def offset described_run memory_okay_def empty_write_response_def some_triple)
qed

lemma example_mirror_run:
  "\<exists>response h' w'. mirror_locked True None example_handle (7, 0, 0) = (Ok response, h', w')"
proof -
  have same: "rh_transfer_count example_handle = 2" "rh_master example_handle = described_master example_register"
    "rh_readable example_handle" "rh_address example_handle = 0x40"
    using example_handle_ok(10) example_handle_init(2)
    by (simp_all add: example_handle_fields example_handle_ok(1,2))
      (simp add: handle_ok_def Let_def example_handle_ok(1) example_register_def some_field_def register_readable_def)
  show ?thesis
    by (simp add: mirror_locked_def frontdoor_read_def require_supported_access_def same example_handle_values upt_rec
        bus_read_def transfer_address_def Let_def described_run memory_okay_def empty_read_response_def some_triple)
qed

text \<open>
  what an update writes reaches the staged state whenever some write does. For a register as it was
  built, whatever it has staged, mirrored and locked: if the write of any value would leave every writable bit
  known and equal to its staged value, the write of the value that the update computes does. So an update
  warns that it cannot reach the staged state only when no write can.
\<close>

theorem update_value_is_complete:
  fixes m :: "('a::len word, 'd::len word, 'e::len word, 'w) master"
  assumes "register_handle_init m rd base backdoor None = Ok h0" "rh_access_error h0 = NoAccessError"
    and "setup_of h = setup_of h0"
    and "\<forall>i < rd_width rd. writable_at (rd_fields rd) i \<longrightarrow>
      pair_bits (predicted_write_state v h) i = (bit (rh_staged h) i, True)"
  shows "\<forall>i < rd_width rd. writable_at (rd_fields rd) i \<longrightarrow>
    pair_bits (predicted_write_state (staged_write_value h) h) i = (bit (rh_staged h) i, True)"
proof (intro allI impI)
  fix i assume i: "i < rd_width rd" and writable: "writable_at (rd_fields rd) i"
  note init = register_handle_init_ok [OF assms(1)] and same = setup_of_eqD [OF assms(3)]
  have desc: "rh_desc h = rd" and policy: "rh_policy h = None" using init(1,3) same by simp_all
  have ok: "handle_ok h" using init(10) [OF assms(2)] handle_ok_setup [OF assms(3)] by simp
  have i64: "i < 64" using i handle_okD(3) [OF ok] by (simp add: desc)
  note at = predicted_write_state_at [OF ok policy, unfolded desc, OF i]
  have some: "pair_bits (predicted_write_state v h) i = (bit (rh_staged h) i, True)"
    using assms(4) i writable by blast
  show "pair_bits (predicted_write_state (staged_write_value h) h) i = (bit (rh_staged h) i, True)"
  proof (cases "field_at (rd_fields rd) i")
    case None
    then have "rd_fields rd = []" using writable by (simp add: writable_at_def)
    with None show ?thesis by (simp add: at staged_write_value_def desc)
  next
    case (Some f)
    then have "rd_fields rd \<noteq> []" by (auto simp: field_at_def)
    then have encoded: "bit (staged_write_value h) i = (register_writable (fd_access f) \<and>
        encode_bit (fd_write_effect f) (bit (rh_mirrored h) i) (bit (rh_mirrored_valid h) i) (bit (rh_staged h) i))"
      using bit_staged_write_value [OF policy _ _ i64] handle_okD(1) [OF ok] Some by (simp add: desc)
    show ?thesis
      using some Some encoded encode_bit_complete [of "fd_write_effect f" "bit (rh_mirrored_valid h) i" "bit v i"
          "bit (rh_mirrored h) i" "bit (rh_staged h) i"]
      by (auto simp: at split: if_split_asm)
  qed
qed

lemma update_value_is_complete_witness:
  "let h = example_handle\<lparr>rh_staged := 0x1201\<rparr>
   in \<forall>i < 32. writable_at (rd_fields example_register) i \<longrightarrow>
     pair_bits (predicted_write_state (staged_write_value h) h) i = (bit (rh_staged h) i, True)"
proof -
  let ?h = "example_handle\<lparr>rh_staged := 0x1201\<rparr>"
  have "predicted_write_state 0x1204 ?h = (0x1201, 0xFFFFFF)"
    by (simp add: predicted_write_state_def example_handle_ok(1,3) example_handle_values register_eval)
  moreover have "list_all (\<lambda>i. writable_at (rd_fields example_register) i \<longrightarrow> bit (0xFFFFFF :: u64) i) [0..<32]"
    by code_simp
  ultimately have reach: "\<forall>i < 32. writable_at (rd_fields example_register) i \<longrightarrow>
      pair_bits (predicted_write_state 0x1204 ?h) i = (bit (rh_staged ?h) i, True)"
    by (simp add: list_all_iff pair_bits_def)
  have "setup_of ?h = setup_of example_handle" by (simp add: setup_of_def)
  moreover have "rd_width example_register = 32" by (simp add: example_register_def)
  ultimately show ?thesis
    using update_value_is_complete [OF example_handle_init, where h = ?h and v = "0x1204"] reach by (simp add: Let_def)
qed

section \<open>The mirror\<close>

text \<open>
  Property C3: the mirror never lies. A register is built on a bus and a device that keep the promises of
  \<open>register_target\<close>, with the device in its reset state. After any sequence of reads, writes, updates, mirror checks,
  stagings and accesses to fields, whatever transfers failed, every bit that the mirror knows, but for volatile fields, is
  that of the device, and every comparison that a mirror check reported to the test was of equal values.
\<close>

theorem mirror_never_lies:
  fixes m :: "('a::len word, 'd::len word, 'e::len word, 'w) master"
  assumes "register_handle_init m rd base backdoor None = Ok h" "rh_access_error h = NoAccessError"
    and "register_target am h hw locked" "locked w = 0" "hw w AND rd_reset_mask rd = rd_reset_value rd AND rd_reset_mask rd"
    and "\<forall>op \<in> set ops. set (operation_field op) \<subseteq> set (rd_fields rd)"
    and "run_operations am ops (h, w) = (h', w')"
  shows "(\<forall>i < rd_width rd. stable_at (rd_fields rd) i \<and> bit (rh_mirrored_valid h') i \<longrightarrow>
      bit (rh_mirrored h') i = bit (hw w') i) \<and> list_all agreeing (rh_reports h')"
proof -
  note init = register_handle_init_ok [OF assms(1)]
  have "in_step h h (hw w) (locked w)" using in_step_init [OF assms(1,2,5)] assms(4) by simp
  then have run: "in_step h h' (hw w') (locked w') \<and> (\<exists>new. rh_reports h' = rh_reports h @ new \<and> list_all agreeing new)"
    by (rule register_target.run_operations_stay [OF assms(3) _ _ assms(7)]) (use assms(6) init(1) in simp)
  then have "setup_of h' = setup_of h" "mirror_sound h' (hw w')" unfolding in_step_def by blast+
  moreover have "list_all agreeing (rh_reports h')" using run init(8) by auto
  moreover from calculation(1) have "rh_desc h' = rd" using setup_of_eqD init(1) by metis
  ultimately show ?thesis unfolding mirror_sound_def by simp
qed

lemma mirror_never_lies_witness:
  "case run_operations None [DoMirror True, DoWrite 0x1234, DoStage 0x4001, DoUpdate, DoMirror True] (example_handle, (5, 0, 1)) of
     (h, w) \<Rightarrow> (\<forall>i < 32. stable_at (rd_fields example_register) i \<and> bit (rh_mirrored_valid h) i \<longrightarrow>
        bit (rh_mirrored h) i = bit (described_value w) i) \<and> list_all agreeing (rh_reports h)"
proof -
  let ?ops = "[DoMirror True, DoWrite 0x1234, DoStage 0x4001, DoUpdate, DoMirror True]"
  obtain h w where run: "run_operations None ?ops (example_handle, (5, 0, 1)) = (h, w)" by (rule prod.exhaust)
  have "rd_width example_register = 32" by (simp add: example_register_def)
  then show ?thesis
    using mirror_never_lies [OF example_handle_init described.register_target_axioms, of "(5, 0, 1)" ?ops h w] run
    by (simp add: described_locks_def described_value_def example_register_def)
qed

text \<open>
  Property C17: an update reaches what was staged. On the same buses and devices, in any state in which the mirror is in
  step and no write-once field is locked in part: an update whose transfers all succeed and that does not warn leaves
  every writable bit of the device that had a known staged value, but for volatile fields, at that value.
\<close>

theorem update_reaches_staged:
  fixes h0 :: "('a::len word, 'd::len word, 'e::len word, 'w) register_handle"
  assumes "register_target am h0 hw locked" "in_step h0 h (hw w) (locked w)" "locks_whole h"
    and "update_locked am h w = (Ok response, h', w')" "xw_failed response = None" "rh_reports h' = rh_reports h"
    and "i < rd_width (rh_desc h0)" "writable_at (rd_fields (rh_desc h0)) i" "stable_at (rd_fields (rh_desc h0)) i"
    and "bit (rh_staged_valid h) i"
  shows "bit (hw w') i = bit (rh_staged h) i"
  using register_target.update_reaches [OF assms] .

lemma update_reaches_staged_witness:
  "\<exists>response h' w'. update_locked None (example_handle\<lparr>rh_staged := 0x1201\<rparr>) (5, 0, 0) = (Ok response, h', w') \<and>
     xw_failed response = None \<and> bit (described_value w') 9 = bit (0x1201 :: u64) 9"
proof -
  let ?h = "example_handle\<lparr>rh_staged := 0x1201\<rparr>"
  obtain response h' w' where run: "update_locked None ?h (5, 0, 0) = (Ok response, h', w')" "xw_failed response = None"
    "rh_reports h' = rh_reports ?h"
    using example_update_run by (auto simp: example_handle_values)
  have "in_step example_handle example_handle 5 0"
    by (rule in_step_init [OF example_handle_init]) (simp add: example_register_def)
  moreover have low: "i < 32" if "bit (0x1201 :: u64) i" for i
  proof -
    have "bit ((0x1201 :: u64) AND mask 32) i" using that by (simp add: mask_eq_exp_minus_1)
    then show ?thesis by (simp add: bit_and_iff bit_mask_word)
  qed
  ultimately have step: "in_step example_handle ?h (described_value (5, 0, 0)) (described_locks (5, 0, 0))"
    using low by (auto simp: in_step_def described_value_def described_locks_def setup_of_def values_ok_def mirror_sound_def locks_whole_def
        example_handle_ok(1) example_register_def)
  have "locks_whole ?h" by (simp add: locks_whole_def example_handle_values)
  moreover have "9 < rd_width (rh_desc example_handle)" "writable_at (rd_fields (rh_desc example_handle)) 9"
    "stable_at (rd_fields (rh_desc example_handle)) 9" "bit (rh_staged_valid ?h) 9"
    by (simp_all add: example_handle_ok(1) example_handle_values example_register_def some_field_def writable_at_def stable_at_def
        field_at_def RegisterBits.covers_def register_writable_def)
  ultimately have "bit (described_value w') 9 = bit (rh_staged ?h) 9"
    using update_reaches_staged [OF described.register_target_axioms step _ run] by blast
  with run show ?thesis by auto
qed

text \<open>The bits that a mirror check compares.\<close>

definition compared :: "u64 \<Rightarrow> ('a, 'd, 'e, 'w) register_handle \<Rightarrow> u64" where
  "compared valid h = rh_nonvolatile_mask h AND rh_width_mask h AND rh_mirrored_valid h AND valid"

lemma bit_compared:
  assumes "handle_ok h"
  shows "bit (compared valid h) i \<longleftrightarrow> i < rd_width (rh_desc h) \<and> readable_at (rd_fields (rh_desc h)) i \<and>
    stable_at (rd_fields (rh_desc h)) i \<and> bit (rh_mirrored_valid h) i \<and> bit valid i"
  using handle_okD(2,3,9) [OF assms] bit_u64_low [of valid i]
  by (cases "i < 64") (auto simp: compared_def bit_and_iff bits_at)

lemma equal_on_mask: "a AND m = b AND m \<longleftrightarrow> (\<forall>i. bit m i \<longrightarrow> bit a i = bit b i)" for a b m :: u64
proof
  assume "a AND m = b AND m"
  then have "bit (a AND m) i = bit (b AND m) i" for i by simp
  then show "\<forall>i. bit m i \<longrightarrow> bit a i = bit b i" by (auto simp: bit_and_iff)
qed (auto intro!: bit_word_eqI simp: bit_and_iff)

lemma mirror_locked_reports:
  assumes "mirror_locked True am h w = (Ok response, h', w')"
  shows "rh_reports h' = rh_reports h @ (if compared (xr_valid response) h \<noteq> 0 then
    [MirrorExpected (rd_path (rh_desc h)) (xr_data response AND compared (xr_valid response) h)
      (rh_mirrored h AND compared (xr_valid response) h)] else [])"
proof -
  obtain sampled h1 w1 where read: "frontdoor_read am h w = (sampled, h1, w1)" by (metis prod_cases3)
  then have h1: "h1 = h" "sampled = Ok response"
    using assms by (auto simp: mirror_locked_def frontdoor_read_def Let_def dest!: read_transfers_handle
        split: sum.split_asm if_split_asm)
  show ?thesis
    using assms read h1 by (auto simp: mirror_locked_def Let_def compared_def)
qed

text \<open>
  Property C33: a mirror check finds every difference. The check of a register as it was built reports a comparison of
  different values exactly when the data that were read differ from the mirror in a bit that was read, that the mirror
  knew, and that is readable and not volatile.
\<close>

theorem mirror_check_finds_differences:
  fixes m :: "('a::len word, 'd::len word, 'e::len word, 'w) master"
  assumes "register_handle_init m rd base backdoor policy = Ok h0" "rh_access_error h0 = NoAccessError"
    and "setup_of h = setup_of h0" "mirror_locked True am h w = (Ok response, h', w')"
  shows "\<exists>new. rh_reports h' = rh_reports h @ new \<and>
    (list_all agreeing new \<longleftrightarrow> \<not> (\<exists>i < rd_width rd. readable_at (rd_fields rd) i \<and> stable_at (rd_fields rd) i \<and>
       bit (rh_mirrored_valid h) i \<and> bit (xr_valid response) i \<and> bit (xr_data response) i \<noteq> bit (rh_mirrored h) i))"
proof -
  note init = register_handle_init_ok [OF assms(1)] and same = setup_of_eqD [OF assms(3)]
  have desc: "rh_desc h = rd" using init(1) same by simp
  have ok: "handle_ok h" using init(10) [OF assms(2)] handle_ok_setup [OF assms(3)] by simp
  let ?cm = "compared (xr_valid response) h"
  let ?new = "if ?cm \<noteq> 0 then [MirrorExpected (rd_path (rh_desc h)) (xr_data response AND ?cm) (rh_mirrored h AND ?cm)] else []"
  have "list_all agreeing ?new \<longleftrightarrow> xr_data response AND ?cm = rh_mirrored h AND ?cm"
    by (auto simp: agreeing_def)
  also have "\<dots> \<longleftrightarrow> \<not> (\<exists>i < rd_width rd. readable_at (rd_fields rd) i \<and> stable_at (rd_fields rd) i \<and>
       bit (rh_mirrored_valid h) i \<and> bit (xr_valid response) i \<and> bit (xr_data response) i \<noteq> bit (rh_mirrored h) i)"
    unfolding equal_on_mask bit_compared [OF ok] desc by blast
  finally show ?thesis using mirror_locked_reports [OF assms(4)] by blast
qed

lemma mirror_check_finds_differences_witness:
  "\<exists>response h' w' new. mirror_locked True None example_handle (7, 0, 0) = (Ok response, h', w') \<and> rh_reports h' = new \<and>
    (list_all agreeing new \<longleftrightarrow> \<not> (\<exists>i < 32. readable_at (rd_fields example_register) i \<and> stable_at (rd_fields example_register) i \<and>
       bit (0xFFFFFF :: u64) i \<and> bit (xr_valid response) i \<and> bit (xr_data response) i \<noteq> bit (5 :: u64) i))"
proof -
  obtain response h' w' where run: "mirror_locked True None example_handle (7, 0, 0) = (Ok response, h', w')"
    using example_mirror_run by blast
  have "rd_width example_register = 32" by (simp add: example_register_def)
  with mirror_check_finds_differences [OF example_handle_init refl run] run show ?thesis
    by (simp add: example_handle_values some_triple)
qed

text \<open>
  the short cut of an update is the prediction of the whole write. What an update over one transfer
  commits, the state it computed before the transfer, is what \<open>predict_write_masked\<close> makes of the written value, as long as
  no write-once field is locked in part.
\<close>

theorem commit_is_prediction:
  fixes m :: "('a::len word, 'd::len word, 'e::len word, 'w) master"
  assumes "register_handle_init m rd base backdoor policy = Ok h0" "rh_access_error h0 = NoAccessError"
    and "setup_of h = setup_of h0" "values_ok h" "locks_whole h"
  shows "commit_predicted_write_state (predicted_write_state v h) h = predict_write_masked v (rh_width_mask h) h"
proof -
  note init = register_handle_init_ok [OF assms(1)]
  have ok: "handle_ok h" using init(10) [OF assms(2)] handle_ok_setup [OF assms(3)] by simp
  show ?thesis
    by (rule commit_predicted_is_predict [OF ok assms(4,5)]) (use handle_okD(2,3) [OF ok] in \<open>simp add: bits_at\<close>)
qed

lemma commit_is_prediction_witness:
  "commit_predicted_write_state (predicted_write_state 0x1234 example_handle) example_handle =
   predict_write_masked 0x1234 (rh_width_mask example_handle) example_handle"
  by (rule commit_is_prediction [OF example_handle_init refl example_handle_ok(9)])
    (simp add: locks_whole_def example_handle_values)

definition locking_register :: register_descriptor where
  "locking_register =
     \<lparr>rd_id = 3, rd_name = ''lock'', rd_path = ''lock'', rd_address = 0, rd_width = 32, rd_access_width = 32,
      rd_endianness = RegLittle, rd_reset_value = 0, rd_reset_mask = 0xFFFFFFFF, rd_reset_value_words = [],
      rd_reset_mask_words = [],
      rd_fields = [some_field ''key'' 0 16 RegReadWriteOnce ReadPlain WritePlain False,
        some_field ''ctrl'' 16 16 RegReadWrite ReadPlain WritePlain False],
      rd_slices = []\<rparr>"

definition locking_handle :: "(32 word, 32 word, 8 word, described_hardware) register_handle" where
  "locking_handle = projr (register_handle_init (described_master locking_register) locking_register 0 None None)"

definition partly_locked :: "(32 word, 32 word, 8 word, described_hardware) register_handle" where
  "partly_locked = projr (result_bind (predict_write 0xAA 1 locking_handle) (stage 0x1BBAA))"

lemma locking_handle_eq:
  "locking_handle = \<lparr>rh_master = described_master locking_register, rh_desc = locking_register, rh_backdoor = None,
     rh_policy = None, rh_auto_predict = True, rh_staged = 0, rh_mirrored = 0, rh_staged_valid = 0xFFFFFFFF,
     rh_mirrored_valid = 0xFFFFFFFF, rh_address = 0, rh_written_once = 0, rh_width_mask = 0xFFFFFFFF,
     rh_chunk_mask = 0xFFFFFFFF, rh_nonvolatile_mask = 0xFFFFFFFF, rh_writable_mask = 0xFFFFFFFF, rh_write_once_mask = 0xFFFF,
     rh_transfer_count = 1, rh_access_width = 32, rh_all_bytes = 15, rh_readable = True, rh_writable = True,
     rh_write_once_only = False, rh_access_error = NoAccessError, rh_reports = []\<rparr>"
  by (simp add: locking_handle_def register_handle_init_def locking_register_def some_field_def Let_def validate_field_layout_def
      initialize_access_validation_def initialize_metadata_def register_mask_def register_field_mask_def
      register_readable_def register_writable_def fits_address_def low_bits_def)

lemma partly_locked_eq:
  "partly_locked = locking_handle\<lparr>rh_staged := 0x1BBAA, rh_mirrored := 0xAA, rh_written_once := 0xFF\<rparr>"
  by (simp add: partly_locked_def predict_write_def supported_def require_supported_access_def locking_handle_eq
      predict_write_masked_def predict_write_field_def byte_mask_def take_bits_def stage_def stage_fields_def
      locking_register_def some_field_def register_writable_def register_field_mask_def register_mask_def upt_rec
      write_effect_of_def apply_write_effect_def apply_write_valid_mask_def insert_field_def extract_field_def Let_def)

lemma word_of_fields:
  assumes "\<And>i. i < 64 \<Longrightarrow> p i = bit v i"
  shows "word_of p = v"
  by (rule bit_word_eqI) (use assms in simp)

lemma partly_locked_fields:
  "rh_transfer_count partly_locked = 1" "rh_master partly_locked = described_master locking_register"
  "rh_desc partly_locked = locking_register" "rh_access_width partly_locked = 32" "rh_chunk_mask partly_locked = 0xFFFFFFFF"
  "rh_address partly_locked = 0" "rh_all_bytes partly_locked = 15" "rh_writable partly_locked"
  "rh_access_error partly_locked = NoAccessError" "rh_auto_predict partly_locked" "rh_staged partly_locked = 0x1BBAA"
  "rh_mirrored partly_locked = 0xAA" "rh_staged_valid partly_locked = 0xFFFFFFFF" "rh_mirrored_valid partly_locked = 0xFFFFFFFF"
  "rh_writable_mask partly_locked = 0xFFFFFFFF" "\<not> rh_write_once_only partly_locked" "rh_width_mask partly_locked = 0xFFFFFFFF"
  "transfer_bit_offset 0 partly_locked = 0" "transfer_bit_offset 0 (partly_locked\<lparr>rh_reports := reports\<rparr>) = 0"
  by (simp_all add: partly_locked_eq locking_handle_eq transfer_bit_offset_def locking_register_def)

lemma partly_locked_values:
  "staged_write_value partly_locked = 0x1BBAA" "predicted_write_state 0x1BBAA partly_locked = (0x100AA, 0xFFFFFFFF)"
  "rh_mirrored (predict_write_masked 0x1BBAA 0xFFFFFFFF partly_locked) = 0x1BBAA"
  by (simp_all add: partly_locked_eq locking_handle_eq locking_register_def staged_write_value_def encode_staged_write_def
      predicted_write_state_def predict_write_masked_def predict_write_field_def take_bits_def register_eval)

text \<open>What the device makes of the write.\<close>

definition locked_device :: described_hardware where
  "locked_device = described_write (rd_fields locking_register) 0x1BBAA 0xFFFFFFFF (0xAA, 0xFF, 0)"

lemma locked_device_value: "described_value locked_device = 0x1BBAA"
proof -
  have "list_all (\<lambda>i. (case field_at (rd_fields locking_register) i of
      None \<Rightarrow> if rd_fields locking_register = [] \<and> bit (0xFFFFFFFF :: u64) i then bit (0x1BBAA :: u64) i else bit (0xAA :: u64) i
    | Some f \<Rightarrow> if register_writable (fd_access f) \<and> bit (0xFFFFFFFF :: u64) i \<and> \<not> bit (0xFF :: u64) i
        then write_bit (fd_write_effect f) (bit (0xAA :: u64) i) (bit (0x1BBAA :: u64) i) else bit (0xAA :: u64) i) = bit (0x1BBAA :: u64) i) [0..<64]"
    by code_simp
  then show ?thesis
    unfolding locked_device_def described_write_def described_value_def prod.case fst_conv
    by (intro word_of_fields) (simp add: list_all_iff)
qed

lemma locked_device_write:
  "ms_write (described_master locking_register) (0 :: 32 word) (0x1BBAA :: 32 word) (15 :: 8 word) (0xAA, 0xFF, 0) =
    (\<lparr>wr_status = Okay, wr_wait_cycles = 0\<rparr>, locked_device)"
  by (simp add: described_run locked_device_def described_offset_def locking_register_def mask_eq_exp_minus_1)

text \<open>
  Property C34: after a write-once field was written in part, update and write predict differently. A write of the low
  byte of a 16-bit write-once field was observed; now the value \<open>0x1BBAA\<close> is staged. The update writes it, the device
  takes all of it but the locked byte, and the update leaves \<open>0x100AA\<close> in the mirror, known and wrong: it takes
  the field for locked as a whole. The write of the same value, in the same state, predicts it bit by bit.
\<close>

theorem update_forgets_partial_locks:
  "\<exists>r r' h h' w. update_locked None partly_locked (0xAA, 0xFF, 0) = (Ok r, h, w) \<and>
     write_unlocked 0x1BBAA None partly_locked (0xAA, 0xFF, 0) = (Ok r', h', w) \<and> xw_failed r = None \<and> xw_failed r' = None \<and>
     rh_mirrored h = 0x100AA \<and> rh_mirrored_valid h = 0xFFFFFFFF \<and> rh_mirrored h' = 0x1BBAA \<and> described_value w = 0x1BBAA"
proof -
  note run = partly_locked_fields partly_locked_values locked_device_write require_supported_access_def enforce_write_access_def
    bus_write_def transfer_address_def memory_okay_def empty_write_response_def
  have "\<exists>r h. update_locked None partly_locked (0xAA, 0xFF, 0) = (Ok r, h, locked_device) \<and> xw_failed r = None \<and>
      rh_mirrored h = 0x100AA \<and> rh_mirrored_valid h = 0xFFFFFFFF"
    by (simp add: update_locked_def needs_update_def update_needed_def supported_def commit_predicted_write_state_def Let_def run)
  moreover have "\<exists>r h. write_unlocked 0x1BBAA None partly_locked (0xAA, 0xFF, 0) = (Ok r, h, locked_device) \<and> xw_failed r = None \<and>
      rh_mirrored h = 0x1BBAA"
    by (simp add: write_unlocked_def Let_def run)
  ultimately show ?thesis using locked_device_value by blast
qed

end
