(* ===== verification/Analysis.thy ===== *)
theory Analysis
  imports SyncPrimitives SparseMemory
begin

text \<open>
  Analysis ports and buffers (\<open>ports.hpp\<close>) and scoreboards (\<open>scoreboards.hpp\<close>). A subscriber is whatever
  its port calls: a function that gets the value and the state of everything else, the port included,
  because a subscriber may connect and disconnect while a value is published. What a scoreboard
  compares is appended to its list of checks, as the pair of what the test gets.
\<close>

section \<open>Analysis ports\<close>

record 's analysis_slot =
  as_id :: nat
  as_subscriber :: 's
  as_connected :: bool

record 's analysis_port =
  an_slots :: "'s analysis_slot list"
  an_next_id :: nat
  an_depth :: nat
  an_compact_pending :: bool

definition analysis_port_init :: "'s analysis_port" where
  "analysis_port_init = \<lparr>an_slots = [], an_next_id = 1, an_depth = 0, an_compact_pending = False\<rparr>"

definition compact_slots :: "'s analysis_port \<Rightarrow> 's analysis_port" where
  "compact_slots p =
     (if an_depth p \<noteq> 0 \<or> \<not> an_compact_pending p then p
      else p\<lparr>an_slots := filter as_connected (an_slots p), an_compact_pending := False\<rparr>)"

fun disconnect_first :: "nat \<Rightarrow> 's analysis_slot list \<Rightarrow> 's analysis_slot list option" where
  "disconnect_first k [] = None"
| "disconnect_first k (s # ss) =
     (if as_id s \<noteq> k then map_option ((#) s) (disconnect_first k ss)
      else Some (s\<lparr>as_connected := False\<rparr> # ss))"

definition state_disconnect :: "nat \<Rightarrow> 's analysis_port \<Rightarrow> 's analysis_port" where
  "state_disconnect k p =
     compact_slots
       (case disconnect_first k (an_slots p) of
          None \<Rightarrow> p
        | Some slots \<Rightarrow> p\<lparr>an_slots := slots, an_compact_pending := True\<rparr>)"

text \<open>A connection is the number it got, 0 once it is disconnected or moved from; the port may be gone.\<close>

definition connect_subscriber :: "'s \<Rightarrow> 's analysis_port \<Rightarrow> nat \<times> 's analysis_port" where
  "connect_subscriber s p =
     (an_next_id p,
      p\<lparr>an_next_id := an_next_id p + 1,
        an_slots := an_slots p @ [\<lparr>as_id = an_next_id p, as_subscriber = s, as_connected = True\<rparr>]\<rparr>)"

definition connection_disconnect :: "nat \<Rightarrow> 's analysis_port option \<Rightarrow> nat \<times> 's analysis_port option" where
  "connection_disconnect k p = (if k = 0 then (k, p) else (0, map_option (state_disconnect k) p))"

definition connection_connected :: "nat \<Rightarrow> 's analysis_port option \<Rightarrow> bool" where
  "connection_connected k p =
     (k \<noteq> 0 \<and> (case p of None \<Rightarrow> False | Some p \<Rightarrow> \<exists>s \<in> set (an_slots p). as_id s = k \<and> as_connected s))"

definition subscriber_count :: "'s analysis_port \<Rightarrow> nat" where
  "subscriber_count p = length (filter as_connected (an_slots p))"

text \<open>
  Publishing a value to the slots there were at the beginning. The second component, which the code does
  not keep, lists the slots that were written to.
\<close>

type_synonym ('s, 'v, 'w) deliver = "'s \<Rightarrow> 'v \<Rightarrow> 's analysis_port \<times> 'w \<Rightarrow> unit result \<times> 's analysis_port \<times> 'w"

fun write_slots ::
  "('s, 'v, 'w) deliver \<Rightarrow> nat list \<Rightarrow> 'v \<Rightarrow> 's analysis_port \<times> 'w \<Rightarrow> unit result \<times> nat list \<times> 's analysis_port \<times> 'w" where
  "write_slots deliver [] v x = (Ok (), [], x)"
| "write_slots deliver (i # is) v x =
     (let slot = an_slots (fst x) ! i
      in if \<not> as_connected slot then write_slots deliver is v x
         else
           case deliver (as_subscriber slot) v x of
             (Inl e, x) \<Rightarrow> (Fail e, [as_id slot], x)
           | (Inr _, x) \<Rightarrow> (case write_slots deliver is v x of (r, ids, x) \<Rightarrow> (r, as_id slot # ids, x)))"

definition port_write ::
  "('s, 'v, 'w) deliver \<Rightarrow> 'v \<Rightarrow> 's analysis_port \<times> 'w \<Rightarrow> unit result \<times> nat list \<times> 's analysis_port \<times> 'w" where
  "port_write deliver v x =
     (case x of (p, w) \<Rightarrow>
        case write_slots deliver [0..<length (an_slots p)] v (p\<lparr>an_depth := an_depth p + 1\<rparr>, w) of
          (r, ids, p, w) \<Rightarrow> (r, ids, compact_slots (p\<lparr>an_depth := an_depth p - 1\<rparr>), w))"

section \<open>Analysis buffers\<close>

datatype overflow_policy = DropNewest | DropOldest | ErrorOnOverflow

record 'v analysis_buffer =
  ab_queue :: "'v queue"
  ab_policy :: overflow_policy
  ab_dropped :: nat

definition analysis_buffer_init :: "nat \<Rightarrow> overflow_policy \<Rightarrow> 'v analysis_buffer" where
  "analysis_buffer_init capacity policy = \<lparr>ab_queue = queue_init capacity, ab_policy = policy, ab_dropped = 0\<rparr>"

definition buffer_write ::
  "('v queue, 'a sched_core_scheme) flush \<Rightarrow> 'v \<Rightarrow> 'v analysis_buffer \<times> 'a sched_core_scheme \<Rightarrow>
   ('v analysis_buffer \<times> 'a sched_core_scheme) result" where
  "buffer_write flush v w =
     (let (b, sc) = w;
          drop_one = (\<lambda>(q, sc). (b\<lparr>ab_queue := q, ab_dropped := ab_dropped b + 1\<rparr>, sc));
          give_up = (\<lambda>qsc. if ab_policy b = ErrorOnOverflow
            then Fail (OverflowError ''cpptb-vc: AnalysisBuffer is full under the Error overflow policy'')
            else Ok (drop_one qsc))
      in result_bind (put_nowait flush v (ab_queue b, sc)) (\<lambda>(accepted, q, sc).
           if accepted then Ok (b\<lparr>ab_queue := q\<rparr>, sc)
           else if ab_policy b = DropOldest then
             result_bind (get_nowait flush (q, sc)) (\<lambda>(discarded, q, sc).
               case discarded of
                 None \<Rightarrow> give_up (q, sc)
               | Some _ \<Rightarrow>
                   result_bind (put_nowait flush v (q, sc)) (\<lambda>(accepted, q, sc).
                     if accepted then Ok (drop_one (q, sc)) else give_up (q, sc)))
           else give_up (q, sc)))"

definition buffer_get_nowait ::
  "('v queue, 'a sched_core_scheme) flush \<Rightarrow> 'v analysis_buffer \<times> 'a sched_core_scheme \<Rightarrow>
   ('v option \<times> 'v analysis_buffer \<times> 'a sched_core_scheme) result" where
  "buffer_get_nowait flush w =
     (case w of (b, sc) \<Rightarrow>
        result_bind (get_nowait flush (ab_queue b, sc)) (\<lambda>(v, q, sc). Ok (v, b\<lparr>ab_queue := q\<rparr>, sc)))"

section \<open>Scoreboards\<close>

datatype side = Expected | Actual

text \<open>A check is the actual value and the expected one; the last two of \<open>finalize\<close> compare counts with 0.\<close>

record 'v in_order =
  io_expected :: "'v list"
  io_actual :: "'v list"
  io_compared :: nat
  io_checks :: "('v \<times> 'v) list"

definition in_order_init :: "'v in_order" where
  "in_order_init = \<lparr>io_expected = [], io_actual = [], io_compared = 0, io_checks = []\<rparr>"

fun compare_loop :: "'v list \<Rightarrow> 'v list \<Rightarrow> nat \<Rightarrow> ('v \<times> 'v) list \<Rightarrow> 'v in_order" where
  "compare_loop (e # es) (a # as) n checks = compare_loop es as (n + 1) (checks @ [(a, e)])"
| "compare_loop es as n checks = \<lparr>io_expected = es, io_actual = as, io_compared = n, io_checks = checks\<rparr>"

definition compare_available :: "'v in_order \<Rightarrow> 'v in_order" where
  "compare_available sb = compare_loop (io_expected sb) (io_actual sb) (io_compared sb) (io_checks sb)"

fun in_order_write :: "side \<Rightarrow> 'v \<Rightarrow> 'v in_order \<Rightarrow> 'v in_order" where
  "in_order_write Expected v sb = compare_available (sb\<lparr>io_expected := io_expected sb @ [v]\<rparr>)"
| "in_order_write Actual v sb = compare_available (sb\<lparr>io_actual := io_actual sb @ [v]\<rparr>)"

definition in_order_observe :: "side \<Rightarrow> disposition \<Rightarrow> 'v \<Rightarrow> 'v in_order \<Rightarrow> 'v in_order" where
  "in_order_observe side disposition v sb = (if disposition = Completed then in_order_write side v sb else sb)"

definition in_order_finalize :: "'v in_order \<Rightarrow> (nat \<times> nat) list" where
  "in_order_finalize sb = [(length (io_expected sb), 0), (length (io_actual sb), 0)]"

record ('k, 'v) keyed =
  ky_expected :: "'k \<rightharpoonup> 'v list"
  ky_actual :: "'k \<rightharpoonup> 'v list"
  ky_expected_pending :: nat
  ky_actual_pending :: nat
  ky_compared :: nat
  ky_checks :: "('v \<times> 'v) list"

definition keyed_init :: "('k, 'v) keyed" where
  "keyed_init =
     \<lparr>ky_expected = Map.empty, ky_actual = Map.empty, ky_expected_pending = 0, ky_actual_pending = 0, ky_compared = 0,
      ky_checks = []\<rparr>"

text \<open>Taking the first value of a key, and the key with its last value; adding one behind.\<close>

definition take_pending :: "'k \<Rightarrow> ('k \<rightharpoonup> 'v list) \<Rightarrow> ('v \<times> ('k \<rightharpoonup> 'v list)) option" where
  "take_pending k m =
     (case m k of
        None \<Rightarrow> None
      | Some [] \<Rightarrow> None
      | Some (v # vs) \<Rightarrow> Some (v, if vs = [] then m(k := None) else m(k \<mapsto> vs)))"

definition add_pending :: "'k \<Rightarrow> 'v \<Rightarrow> ('k \<rightharpoonup> 'v list) \<Rightarrow> ('k \<rightharpoonup> 'v list)" where
  "add_pending k v m = m(k \<mapsto> (case m k of None \<Rightarrow> [] | Some vs \<Rightarrow> vs) @ [v])"

fun keyed_write :: "('v \<Rightarrow> 'k) \<Rightarrow> side \<Rightarrow> 'v \<Rightarrow> ('k, 'v) keyed \<Rightarrow> ('k, 'v) keyed" where
  "keyed_write key_of Expected v sb =
     (case take_pending (key_of v) (ky_actual sb) of
        None \<Rightarrow> sb\<lparr>ky_expected := add_pending (key_of v) v (ky_expected sb), ky_expected_pending := ky_expected_pending sb + 1\<rparr>
      | Some (peer, actual) \<Rightarrow>
          sb\<lparr>ky_actual := actual, ky_actual_pending := ky_actual_pending sb - 1,
             ky_checks := ky_checks sb @ [(peer, v)], ky_compared := ky_compared sb + 1\<rparr>)"
| "keyed_write key_of Actual v sb =
     (case take_pending (key_of v) (ky_expected sb) of
        None \<Rightarrow> sb\<lparr>ky_actual := add_pending (key_of v) v (ky_actual sb), ky_actual_pending := ky_actual_pending sb + 1\<rparr>
      | Some (peer, expected) \<Rightarrow>
          sb\<lparr>ky_expected := expected, ky_expected_pending := ky_expected_pending sb - 1,
             ky_checks := ky_checks sb @ [(v, peer)], ky_compared := ky_compared sb + 1\<rparr>)"

definition keyed_observe :: "('v \<Rightarrow> 'k) \<Rightarrow> side \<Rightarrow> disposition \<Rightarrow> 'v \<Rightarrow> ('k, 'v) keyed \<Rightarrow> ('k, 'v) keyed" where
  "keyed_observe key_of side disposition v sb = (if disposition = Completed then keyed_write key_of side v sb else sb)"

definition keyed_finalize :: "('k, 'v) keyed \<Rightarrow> (nat \<times> nat) list" where
  "keyed_finalize sb = [(ky_expected_pending sb, 0), (ky_actual_pending sb, 0)]"

text \<open>The endpoints of a scoreboard as subscribers: they never touch the port.\<close>

definition in_order_deliver :: "(side, 'v, 'v in_order) deliver" where
  "in_order_deliver side v = (\<lambda>(p, sb). (Ok (), p, in_order_write side v sb))"

definition keyed_deliver :: "('v \<Rightarrow> 'k) \<Rightarrow> (side, 'v, ('k, 'v) keyed) deliver" where
  "keyed_deliver key_of side v = (\<lambda>(p, sb). (Ok (), p, keyed_write key_of side v sb))"

text \<open>A reference model, with its state, in front of a port.\<close>

definition reference_write ::
  "('s, 'o, 'w) deliver \<Rightarrow> ('i \<Rightarrow> 'm \<Rightarrow> 'o \<times> 'm) \<Rightarrow> disposition \<Rightarrow> 'i \<Rightarrow> 'm \<times> 's analysis_port \<times> 'w \<Rightarrow>
   unit result \<times> 'm \<times> 's analysis_port \<times> 'w" where
  "reference_write deliver model disposition v = (\<lambda>(m, x).
     if disposition \<noteq> Completed then (Ok (), m, x)
     else
       let (predicted, m) = model v m
       in case port_write deliver predicted x of (r, _, x) \<Rightarrow> (r, m, x))"

end
