(* ===== verification/AnalysisProps.thy ===== *)
theory AnalysisProps
  imports Analysis QueueProps "HOL-Library.Sublist"
begin

text \<open>The properties of analysis ports, buffers and scoreboards.\<close>

section \<open>Scoreboards in order\<close>

text \<open>The values of one side.\<close>

definition of_side :: "side \<Rightarrow> (side \<times> 'v) list \<Rightarrow> 'v list" where
  "of_side s ws = map snd (filter (\<lambda>w. fst w = s) ws)"

lemma of_side_simps [simp]:
  "of_side s [] = []" "of_side s (ws @ [(s', v)]) = of_side s ws @ (if s' = s then [v] else [])"
  by (auto simp: of_side_def)

lemma compare_loop_eq:
  "compare_loop es as n checks =
     \<lparr>io_expected = drop (length as) es, io_actual = drop (length es) as, io_compared = n + min (length es) (length as),
      io_checks = checks @ zip as es\<rparr>"
  by (induction es as n checks rule: compare_loop.induct) simp_all

definition in_order_of :: "'v list \<Rightarrow> 'v list \<Rightarrow> 'v in_order" where
  "in_order_of es as =
     \<lparr>io_expected = drop (length as) es, io_actual = drop (length es) as, io_compared = min (length es) (length as),
      io_checks = zip as es\<rparr>"

lemma zip_grow:
  "length es \<le> length as \<Longrightarrow> zip as es @ zip (drop (length es) as) [v] = zip as (es @ [v])"
  "\<not> length es \<le> length as \<Longrightarrow> zip as es = zip as (es @ [v])"
  "length es \<le> length as \<Longrightarrow> zip as es = zip (as @ [v]) es"
  "\<not> length es \<le> length as \<Longrightarrow> zip as es @ zip [v] (drop (length as) es) = zip (as @ [v]) es"
  by (induction as es rule: list_induct2') (auto simp: neq_Nil_conv)

lemma zip_longer:
  "length as \<le> length es \<Longrightarrow> zip as es = zip as (es @ [v])"
  "length es \<le> length as \<Longrightarrow> zip as es = zip (as @ [v]) es"
  by (induction as es rule: list_induct2') auto

lemma in_order_write_of:
  "in_order_write s v (in_order_of es as) =
     in_order_of (es @ (if s = Expected then [v] else [])) (as @ (if s = Actual then [v] else []))"
  by (cases s; cases "length es \<le> length as")
    (auto simp: in_order_of_def compare_available_def compare_loop_eq zip_grow)

lemma in_order_run: "fold (\<lambda>(s, v). in_order_write s v) ws in_order_init = in_order_of (of_side Expected ws) (of_side Actual ws)"
proof (induction ws rule: rev_induct)
  case Nil
  then show ?case by (simp add: in_order_init_def in_order_of_def)
next
  case (snoc w ws)
  then show ?case by (cases w; cases "fst w") (auto simp: in_order_write_of)
qed

section \<open>Scoreboards by key\<close>

definition of_key :: "('v \<Rightarrow> 'k) \<Rightarrow> 'k \<Rightarrow> 'v list \<Rightarrow> 'v list" where
  "of_key key_of k = filter (\<lambda>v. key_of v = k)"

definition pending_list :: "'v list \<Rightarrow> 'v list option" where
  "pending_list vs = (if vs = [] then None else Some vs)"

text \<open>What a scoreboard holds after \<open>es\<close> was expected and \<open>as\<close> was actual.\<close>

definition keyed_after :: "('v \<Rightarrow> 'k) \<Rightarrow> 'v list \<Rightarrow> 'v list \<Rightarrow> ('k, 'v) keyed \<Rightarrow> bool" where
  "keyed_after key_of es as sb =
     ((\<forall>k. ky_expected sb k = pending_list (drop (length (of_key key_of k as)) (of_key key_of k es))) \<and>
      (\<forall>k. ky_actual sb k = pending_list (drop (length (of_key key_of k es)) (of_key key_of k as))) \<and>
      (\<forall>k. filter (\<lambda>c. key_of (snd c) = k) (ky_checks sb) = zip (of_key key_of k as) (of_key key_of k es)) \<and>
      (\<forall>c \<in> set (ky_checks sb). key_of (fst c) = key_of (snd c)) \<and> ky_compared sb = length (ky_checks sb) \<and>
      ky_expected_pending sb + ky_compared sb = length es \<and> ky_actual_pending sb + ky_compared sb = length as)"

lemma take_pending_list:
  "m k = pending_list vs \<Longrightarrow> take_pending k m = (case vs of [] \<Rightarrow> None | v # rest \<Rightarrow> Some (v, m(k := pending_list rest)))"
  by (auto simp: take_pending_def pending_list_def split: list.split)

lemma add_pending_list: "m k = pending_list vs \<Longrightarrow> add_pending k v m = m(k := pending_list (vs @ [v]))"
  by (auto simp: add_pending_def pending_list_def)

lemma of_key_snoc [simp]: "of_key key_of k (vs @ [v]) = of_key key_of k vs @ (if key_of v = k then [v] else [])"
  by (simp add: of_key_def)

lemma zip_next:
  "drop (length es) as = p # rest \<Longrightarrow> zip as (es @ [v]) = zip as es @ [(p, v)]"
  "drop (length as) es = p # rest \<Longrightarrow> zip (as @ [v]) es = zip as es @ [(v, p)]"
  by (induction as es rule: list_induct2') auto

lemma drop_next: "drop n vs = p # rest \<Longrightarrow> drop (Suc n) vs = rest"
  by (metis drop_Suc list.sel(3) tl_drop)

lemma length_by_key:
  assumes "finite K" "f ` set xs \<subseteq> K"
  shows "length xs = (\<Sum>k \<in> K. length (filter (\<lambda>x. f x = k) xs))"
  using assms(2)
proof (induction xs)
  case (Cons x xs)
  have "(\<Sum>k \<in> K. length (filter (\<lambda>y. f y = k) (x # xs))) = (\<Sum>k \<in> K. (if f x = k then 1 else 0) + length (filter (\<lambda>y. f y = k) xs))"
    by (intro sum.cong) simp_all
  also have "\<dots> = 1 + (\<Sum>k \<in> K. length (filter (\<lambda>y. f y = k) xs))"
    using Cons.prems assms(1) by (simp add: sum.distrib)
  finally show ?case using Cons by simp
qed simp

lemma fewer_by_key:
  assumes "\<And>k. length (filter (\<lambda>c. f c = k) cs) \<le> length (filter (\<lambda>x. g x = k) xs)"
    "length (filter (\<lambda>c. f c = k) cs) < length (filter (\<lambda>x. g x = k) xs)"
  shows "length cs < length xs"
proof -
  let ?K = "g ` set xs \<union> f ` set cs"
  have "k \<in> ?K"
    using assms(2) by (metis (mono_tags, lifting) UnI1 filter_False gr_implies_not0 imageI length_0_conv)
  then have "(\<Sum>k \<in> ?K. length (filter (\<lambda>c. f c = k) cs)) < (\<Sum>k \<in> ?K. length (filter (\<lambda>x. g x = k) xs))"
    using assms by (intro sum_strict_mono_ex1) auto
  then show ?thesis
    using length_by_key [of ?K f cs] length_by_key [of ?K g xs] by simp
qed

lemma pending_count:
  assumes after: "keyed_after key_of es as sb"
  shows "drop (length (of_key key_of k es)) (of_key key_of k as) = p # rest \<Longrightarrow> 0 < ky_actual_pending sb"
    and "drop (length (of_key key_of k as)) (of_key key_of k es) = p # rest \<Longrightarrow> 0 < ky_expected_pending sb"
proof -
  have checks: "length (filter (\<lambda>c. key_of (snd c) = k) (ky_checks sb)) = min (length (of_key key_of k as)) (length (of_key key_of k es))" for k
    using after by (simp add: keyed_after_def)
  show "0 < ky_actual_pending sb" if "drop (length (of_key key_of k es)) (of_key key_of k as) = p # rest"
  proof -
    have less: "length (of_key key_of k es) < length (of_key key_of k as)"
      using that by (metis drop_all list.distinct(1) not_le)
    have "length (ky_checks sb) < length as"
      by (rule fewer_by_key [of "\<lambda>c. key_of (snd c)" _ key_of _ k]) (use less checks in \<open>simp_all add: of_key_def\<close>)
    then show ?thesis using after by (simp add: keyed_after_def)
  qed
  show "0 < ky_expected_pending sb" if "drop (length (of_key key_of k as)) (of_key key_of k es) = p # rest"
  proof -
    have less: "length (of_key key_of k as) < length (of_key key_of k es)"
      using that by (metis drop_all list.distinct(1) not_le)
    have "length (ky_checks sb) < length es"
      by (rule fewer_by_key [of "\<lambda>c. key_of (snd c)" _ key_of _ k]) (use less checks in \<open>simp_all add: of_key_def\<close>)
    then show ?thesis using after by (simp add: keyed_after_def)
  qed
qed

lemma keyed_write_expected:
  assumes after: "keyed_after key_of es as sb"
  shows "keyed_after key_of (es @ [v]) as (keyed_write key_of Expected v sb)"
proof -
  let ?k = "key_of v"
  let ?es = "of_key key_of ?k es" and ?as = "of_key key_of ?k as"
  have own: "ky_expected sb ?k = pending_list (drop (length ?as) ?es)" and peer: "ky_actual sb ?k = pending_list (drop (length ?es) ?as)"
    using after by (simp_all add: keyed_after_def)
  show ?thesis
  proof (cases "drop (length ?es) ?as")
    case Nil
    then have "length ?as \<le> length ?es" by simp
    then have "zip ?as ?es = zip ?as (?es @ [v])" by (rule zip_longer(1))
    with after Nil show ?thesis
      by (auto simp: keyed_after_def take_pending_list [where m = "ky_actual sb" and k = "key_of v", OF peer] add_pending_list [where m = "ky_expected sb" and k = "key_of v", OF own])
  next
    case (Cons p rest)
    then have "length ?es < length ?as" by (metis drop_all list.distinct(1) not_le)
    moreover have "p \<in> set ?as" using Cons by (metis in_set_dropD list.set_intros(1))
    ultimately show ?thesis
      using after Cons pending_count(1) [OF after Cons] zip_next(1) [OF Cons] drop_next [OF Cons]
      by (auto simp: keyed_after_def take_pending_list [where m = "ky_actual sb" and k = "key_of v", OF peer] of_key_def)
  qed
qed

lemma keyed_write_actual:
  assumes after: "keyed_after key_of es as sb"
  shows "keyed_after key_of es (as @ [v]) (keyed_write key_of Actual v sb)"
proof -
  let ?k = "key_of v"
  let ?es = "of_key key_of ?k es" and ?as = "of_key key_of ?k as"
  have own: "ky_actual sb ?k = pending_list (drop (length ?es) ?as)" and peer: "ky_expected sb ?k = pending_list (drop (length ?as) ?es)"
    using after by (simp_all add: keyed_after_def)
  show ?thesis
  proof (cases "drop (length ?as) ?es")
    case Nil
    then have "length ?es \<le> length ?as" by simp
    then have "zip ?as ?es = zip (?as @ [v]) ?es" by (rule zip_longer(2))
    with after Nil show ?thesis
      by (auto simp: keyed_after_def take_pending_list [where m = "ky_expected sb" and k = "key_of v", OF peer]
          add_pending_list [where m = "ky_actual sb" and k = "key_of v", OF own])
  next
    case (Cons p rest)
    then have "length ?as < length ?es" by (metis drop_all list.distinct(1) not_le)
    moreover have "p \<in> set ?es" using Cons by (metis in_set_dropD list.set_intros(1))
    ultimately show ?thesis
      using after Cons pending_count(2) [OF after Cons] zip_next(2) [OF Cons] drop_next [OF Cons]
      by (auto simp: keyed_after_def take_pending_list [where m = "ky_expected sb" and k = "key_of v", OF peer] of_key_def)
  qed
qed

lemma keyed_run: "keyed_after key_of (of_side Expected ws) (of_side Actual ws) (fold (\<lambda>(s, v). keyed_write key_of s v) ws keyed_init)"
proof (induction ws rule: rev_induct)
  case Nil
  then show ?case by (simp add: keyed_after_def keyed_init_def of_key_def pending_list_def)
next
  case (snoc w ws)
  then show ?case
    using keyed_write_expected [OF snoc] keyed_write_actual [OF snoc] by (cases w; cases "fst w") auto
qed

lemma nothing_pending_iff:
  assumes after: "keyed_after key_of es as sb"
  shows "(ky_expected_pending sb = 0 \<and> ky_actual_pending sb = 0) \<longleftrightarrow>
    (\<forall>k. length (of_key key_of k es) = length (of_key key_of k as))"
proof -
  have checks: "filter (\<lambda>c. key_of (snd c) = k) (ky_checks sb) = zip (of_key key_of k as) (of_key key_of k es)" for k
    using after by (simp add: keyed_after_def)
  show "(ky_expected_pending sb = 0 \<and> ky_actual_pending sb = 0) \<longleftrightarrow>
      (\<forall>k. length (of_key key_of k es) = length (of_key key_of k as))"
  proof
    assume none: "ky_expected_pending sb = 0 \<and> ky_actual_pending sb = 0"
    show "\<forall>k. length (of_key key_of k es) = length (of_key key_of k as)"
    proof
      fix k
      have "drop (length (of_key key_of k es)) (of_key key_of k as) = []"
      proof (cases "drop (length (of_key key_of k es)) (of_key key_of k as)")
        case (Cons p rest)
        from pending_count(1) [OF after Cons] none show ?thesis by simp
      qed
      moreover have "drop (length (of_key key_of k as)) (of_key key_of k es) = []"
      proof (cases "drop (length (of_key key_of k as)) (of_key key_of k es)")
        case (Cons p rest)
        from pending_count(2) [OF after Cons] none show ?thesis by simp
      qed
      ultimately show "length (of_key key_of k es) = length (of_key key_of k as)" by simp
    qed
  next
    assume same: "\<forall>k. length (of_key key_of k es) = length (of_key key_of k as)"
    then have each: "length (filter (\<lambda>c. key_of (snd c) = k) (ky_checks sb)) = length (filter (\<lambda>v. key_of v = k) xs)"
      if "xs = es \<or> xs = as" for k xs
      using that unfolding checks by (auto simp: of_key_def)
    have "length (ky_checks sb) = length xs" if "xs = es \<or> xs = as" for xs
    proof -
      let ?K = "(\<lambda>c. key_of (snd c)) ` set (ky_checks sb) \<union> key_of ` set xs"
      show ?thesis
        using length_by_key [of ?K "\<lambda>c. key_of (snd c)" "ky_checks sb"] length_by_key [of ?K key_of xs] each [OF that] by simp
    qed
    from this [of es] this [of as] show "ky_expected_pending sb = 0 \<and> ky_actual_pending sb = 0"
      using after by (simp add: keyed_after_def)
  qed
qed

lemma of_side_key: "of_side s (filter (\<lambda>w. key_of (snd w) = k) ws) = of_key key_of k (of_side s ws)"
  by (induction ws) (auto simp: of_side_def of_key_def)

text \<open>
  An in-order scoreboard pairs the two sides by position. Whatever the interleaving of the writes of expected and
  of actual values, the checks made are the pairs of the values at the same position of the two sides, in order; what has
  no partner stays pending, and \<open>finalize\<close> passes exactly when both sides have as many values.
\<close>

theorem in_order_scoreboard_exact:
  "let es = of_side Expected ws; as = of_side Actual ws; sb = fold (\<lambda>(s, v). in_order_write s v) ws in_order_init
   in io_checks sb = zip as es \<and> io_compared sb = min (length es) (length as) \<and>
     io_expected sb = drop (length as) es \<and> io_actual sb = drop (length es) as \<and>
     (list_all (\<lambda>(found, wanted). found = wanted) (in_order_finalize sb) \<longleftrightarrow> length es = length as)"
  unfolding in_order_run by (auto simp: in_order_of_def in_order_finalize_def Let_def)

text \<open>
  Property C16: a keyed scoreboard is an in-order scoreboard for every key. After any interleaving of writes, the checks made
  for a key are those of an in-order scoreboard that gets the writes of this key only, every check is of two values of the
  same key, and \<open>finalize\<close> passes exactly when every key was written as often on both sides.
\<close>

theorem keyed_scoreboard_refines_in_order:
  fixes key_of :: "'v \<Rightarrow> 'k"
  shows "let sb = fold (\<lambda>(s, v). keyed_write key_of s v) ws keyed_init
   in filter (\<lambda>c. key_of (snd c) = k) (ky_checks sb) =
        io_checks (fold (\<lambda>(s, v). in_order_write s v) (filter (\<lambda>w. key_of (snd w) = k) ws) in_order_init) \<and>
      list_all (\<lambda>(a, e). key_of a = key_of e) (ky_checks sb) \<and>
      (list_all (\<lambda>(found, wanted). found = wanted) (keyed_finalize sb) \<longleftrightarrow>
        (\<forall>k. length (of_key key_of k (of_side Expected ws)) = length (of_key key_of k (of_side Actual ws))))"
proof -
  let ?sb = "fold (\<lambda>(s, v). keyed_write key_of s v) ws keyed_init"
  let ?es = "of_side Expected ws" and ?as = "of_side Actual ws"
  note after = keyed_run [of key_of ws]
  have checks: "filter (\<lambda>c. key_of (snd c) = k) (ky_checks ?sb) = zip (of_key key_of k ?as) (of_key key_of k ?es)" for k
    using after by (simp add: keyed_after_def)
  have "list_all (\<lambda>(found, wanted). found = wanted) (keyed_finalize ?sb) \<longleftrightarrow>
      ky_expected_pending ?sb = 0 \<and> ky_actual_pending ?sb = 0"
    by (simp add: keyed_finalize_def)
  moreover have "list_all (\<lambda>(a, e). key_of a = key_of e) (ky_checks ?sb)"
    using after unfolding keyed_after_def list_all_iff by auto
  moreover have "filter (\<lambda>c. key_of (snd c) = k) (ky_checks ?sb) = io_checks (in_order_of (of_key key_of k ?es) (of_key key_of k ?as))"
    unfolding checks by (simp add: in_order_of_def)
  ultimately show ?thesis
    unfolding in_order_run of_side_key Let_def using nothing_pending_iff [OF after] by blast
qed

section \<open>Publication\<close>

text \<open>A slot keeps its number and its subscriber, and is never connected again.\<close>

definition slot_kept :: "'s analysis_slot \<Rightarrow> 's analysis_slot \<Rightarrow> bool" where
  "slot_kept s s' \<longleftrightarrow> as_id s' = as_id s \<and> as_subscriber s' = as_subscriber s \<and> (as_connected s' \<longrightarrow> as_connected s)"

text \<open>Numbers are given once; between publications there are only connected slots.\<close>

definition port_ok :: "'s analysis_port \<Rightarrow> bool" where
  "port_ok p \<longleftrightarrow> distinct (map as_id (an_slots p)) \<and> (\<forall>s\<in>set (an_slots p). 0 < as_id s \<and> as_id s < an_next_id p) \<and>
     0 < an_next_id p \<and> (an_compact_pending p \<longrightarrow> an_depth p \<noteq> 0) \<and> (\<not> an_compact_pending p \<longrightarrow> list_all as_connected (an_slots p))"

text \<open>What a subscriber may do to the port that is writing to it.\<close>

definition port_extends :: "'s analysis_port \<Rightarrow> 's analysis_port \<Rightarrow> bool" where
  "port_extends p p' \<longleftrightarrow> port_ok p' \<and> an_depth p' = an_depth p \<and>
     (\<exists>olds news. an_slots p' = olds @ news \<and> list_all2 slot_kept (an_slots p) olds)"

lemma slot_kept_refl [simp]: "slot_kept s s"
  by (simp add: slot_kept_def)

lemma slot_kept_trans: "slot_kept s s' \<Longrightarrow> slot_kept s' s'' \<Longrightarrow> slot_kept s s''"
  by (simp add: slot_kept_def)

lemma port_extends_refl: "port_ok p \<Longrightarrow> port_extends p p"
  unfolding port_extends_def by (intro conjI exI [of _ "an_slots p"] exI [of _ "[]"]) (auto simp: list_all2_refl)

lemma port_extends_trans:
  assumes "port_extends p p'" "port_extends p' p''"
  shows "port_extends p p''"
proof -
  obtain olds news where 1: "an_slots p' = olds @ news" "list_all2 slot_kept (an_slots p) olds"
    using assms(1) by (auto simp: port_extends_def)
  obtain olds' news' where 2: "an_slots p'' = olds' @ news'" "list_all2 slot_kept (olds @ news) olds'"
    using assms(2) 1(1) by (auto simp: port_extends_def)
  obtain xs ys where 3: "olds' = xs @ ys" "list_all2 slot_kept olds xs" using 2(2) by (auto simp: list_all2_append1)
  have "list_all2 slot_kept (an_slots p) xs"
    by (rule list_all2_trans [OF _ 1(2) 3(2)]) (rule slot_kept_trans)
  then show ?thesis using assms 2(1) 3(1) unfolding port_extends_def by auto
qed

lemma port_extends_slot:
  assumes "port_extends p p'" "i < length (an_slots p)"
  shows "i < length (an_slots p')" "slot_kept (an_slots p ! i) (an_slots p' ! i)"
  using assms by (auto simp: port_extends_def list_all2_conv_all_nth nth_append)

lemma port_init_ok [simp]: "port_ok analysis_port_init"
  by (simp add: port_ok_def analysis_port_init_def)

text \<open>Connecting and disconnecting.\<close>

lemma connect_extends:
  assumes "port_ok p"
  shows "port_extends p (snd (connect_subscriber s p))"
proof -
  have "port_ok (snd (connect_subscriber s p))"
    using assms by (auto simp: connect_subscriber_def port_ok_def less_Suc_eq)
  moreover have "\<exists>news. an_slots (snd (connect_subscriber s p)) = an_slots p @ news" "an_depth (snd (connect_subscriber s p)) = an_depth p"
    by (simp_all add: connect_subscriber_def)
  ultimately show ?thesis unfolding port_extends_def by (metis list_all2_refl slot_kept_refl)
qed

lemma disconnect_first_kept:
  "disconnect_first k ss = Some ss' \<Longrightarrow> list_all2 slot_kept ss ss' \<and> map as_id ss' = map as_id ss \<and>
     (distinct (map as_id ss) \<longrightarrow> (\<forall>s\<in>set ss'. as_id s = k \<longrightarrow> \<not> as_connected s))"
proof (induction ss arbitrary: ss')
  case (Cons s ss)
  show ?case
  proof (cases "as_id s = k")
    case True
    with Cons.prems show ?thesis by (auto simp: slot_kept_def list_all2_refl rev_image_eqI)
  next
    case False
    with Cons.prems obtain r where "disconnect_first k ss = Some r" "ss' = s # r" by auto
    with Cons.IH [of r] False show ?thesis by auto
  qed
qed simp

lemma slots_kept_ids: "list_all2 slot_kept ss ss' \<Longrightarrow> map as_id ss' = map as_id ss"
  by (induction rule: list_all2_induct) (auto simp: slot_kept_def)

lemma disconnect_extends:
  assumes "port_ok p" "an_depth p \<noteq> 0"
  shows "port_extends p (state_disconnect k p)"
proof (cases "disconnect_first k (an_slots p)")
  case None
  then show ?thesis using assms port_extends_refl [OF assms(1)] by (simp add: state_disconnect_def compact_slots_def)
next
  case (Some ss)
  note kept = disconnect_first_kept [OF Some]
  have "set (map as_id ss) = set (map as_id (an_slots p))" using kept by simp
  then have "\<forall>s\<in>set ss. 0 < as_id s \<and> as_id s < an_next_id p"
    using assms(1) unfolding port_ok_def by (auto simp: set_eq_iff image_iff) metis+
  then have "port_ok (p\<lparr>an_slots := ss, an_compact_pending := True\<rparr>)"
    using assms kept by (simp add: port_ok_def)
  then show ?thesis
    using assms kept Some unfolding port_extends_def by (auto simp: state_disconnect_def compact_slots_def)
qed

lemma subseq_distinct: "subseq xs ys \<Longrightarrow> distinct ys \<Longrightarrow> distinct xs"
  by (auto simp: subseq_conv_nths)

text \<open>Subscribers that only connect, disconnect and publish on the port that writes to them.\<close>

locale analysis_subscribers =
  fixes deliver :: "('s, 'v, 'w) deliver"
  assumes extends: "port_ok p \<Longrightarrow> an_depth p \<noteq> 0 \<Longrightarrow> deliver s v (p, w) = (r, p', w') \<Longrightarrow> port_extends p p'"
begin

lemma write_slots_extends:
  assumes "write_slots deliver is v (p, w) = (r, ids, p', w')" "port_ok p" "an_depth p \<noteq> 0"
    "\<forall>i\<in>set is. i < length (an_slots p)"
  shows "port_extends p p' \<and> subseq ids (map as_id (filter as_connected (map ((!) (an_slots p)) is))) \<and>
    (r = Ok () \<longrightarrow> (\<forall>i\<in>set is. as_connected (an_slots p' ! i) \<longrightarrow> as_id (an_slots p ! i) \<in> set ids))"
  using assms
proof (induction "is" arbitrary: p w r ids p' w')
  case Nil
  then show ?case by (simp add: port_extends_refl)
next
  case (Cons i "is")
  let ?s = "an_slots p ! i"
  show ?case
  proof (cases "as_connected ?s")
    case False
    with Cons.prems have w: "write_slots deliver is v (p, w) = (r, ids, p', w')" by (simp add: Let_def)
    have "port_extends p p'" using Cons.IH [OF w] Cons.prems by simp
    then have "\<not> as_connected (an_slots p' ! i)"
      using port_extends_slot(2) [of p p' i] False Cons.prems(4) by (auto simp: slot_kept_def)
    then show ?thesis using Cons.IH [OF w] Cons.prems False by auto
  next
    case True
    obtain r1 p1 w1 where d: "deliver (as_subscriber ?s) v (p, w) = (r1, p1, w1)" by (cases "deliver (as_subscriber ?s) v (p, w)")
    have e: "port_extends p p1" by (rule extends [OF _ _ d]) (use Cons.prems in auto)
    show ?thesis
    proof (cases r1)
      case (Inl x)
      with Cons.prems True d e show ?thesis by (auto simp: Let_def)
    next
      case (Inr u)
      obtain r2 ids2 p2 w2 where 2: "write_slots deliver is v (p1, w1) = (r2, ids2, p2, w2)"
        by (cases "write_slots deliver is v (p1, w1)")
      have here: "r = r2" "ids = as_id ?s # ids2" "p' = p2" using Cons.prems(1) True d Inr 2 by (auto simp: Let_def)
      have ok: "port_ok p1" "an_depth p1 \<noteq> 0" "\<forall>j\<in>set is. j < length (an_slots p1)"
        using e Cons.prems port_extends_slot(1) [OF e] by (auto simp: port_extends_def)
      note ih = Cons.IH [OF 2 ok]
      have less: "subseq (map as_id (filter as_connected (map ((!) (an_slots p1)) js))) (map as_id (filter as_connected (map ((!) (an_slots p)) js)))"
        if "set js \<subseteq> set is" for js
        using that by (induction js) (use port_extends_slot(2) [OF e] Cons.prems(4) in \<open>force simp: slot_kept_def\<close>)+
      have "subseq ids2 (map as_id (filter as_connected (map ((!) (an_slots p)) is)))"
        using ih less [of "is"] subseq_order.trans by blast
      moreover have "\<forall>j\<in>set is. as_id (an_slots p1 ! j) = as_id (an_slots p ! j)"
        using port_extends_slot(2) [OF e] Cons.prems(4) by (auto simp: slot_kept_def)
      ultimately show ?thesis using ih here True port_extends_trans [OF e] by auto
    qed
  qed
qed

lemma dispatch:
  assumes "port_ok p" "port_write deliver v (p, w) = (r, ids, p', w')"
  obtains p2 where "port_extends (p\<lparr>an_depth := an_depth p + 1\<rparr>) p2" "p' = compact_slots (p2\<lparr>an_depth := an_depth p\<rparr>)"
    "subseq ids (map as_id (filter as_connected (an_slots p)))"
    "r = Ok () \<Longrightarrow> \<forall>i<length (an_slots p). as_connected (an_slots p2 ! i) \<longrightarrow> as_id (an_slots p ! i) \<in> set ids"
proof -
  let ?p = "p\<lparr>an_depth := an_depth p + 1\<rparr>"
  obtain r2 ids2 p2 w2 where 2: "write_slots deliver [0..<length (an_slots p)] v (?p, w) = (r2, ids2, p2, w2)"
    by (cases "write_slots deliver [0..<length (an_slots p)] v (?p, w)")
  have ok: "port_ok ?p" "an_depth ?p \<noteq> 0" "\<forall>i\<in>set [0..<length (an_slots p)]. i < length (an_slots ?p)"
    using assms(1) by (auto simp: port_ok_def)
  note w = write_slots_extends [OF 2 ok]
  have "an_depth p2 = an_depth p + 1" using w by (simp add: port_extends_def)
  then show ?thesis
    using that [of p2] w assms(2) 2 by (auto simp: port_write_def map_nth atLeast0LessThan)
qed

lemma compact_published:
  assumes "port_ok p" "port_extends (p\<lparr>an_depth := an_depth p + 1\<rparr>) p2"
  shows "port_ok (compact_slots (p2\<lparr>an_depth := an_depth p\<rparr>))" "an_depth (compact_slots (p2\<lparr>an_depth := an_depth p\<rparr>)) = an_depth p"
  using assms by (auto simp: port_extends_def port_ok_def compact_slots_def list_all_iff distinct_map_filter)

lemma port_write_extends:
  assumes "port_ok p" "an_depth p \<noteq> 0" "port_write deliver v (p, w) = (r, ids, p', w')"
  shows "port_extends p p'"
  by (rule dispatch [OF assms(1,3)])
    (use compact_published [OF assms(1)] assms(2) in \<open>auto simp: port_extends_def compact_slots_def\<close>)

lemma published:
  assumes "port_ok p" "port_write deliver v (p, w) = (r, ids, p', w')"
  shows "port_ok p' \<and> an_depth p' = an_depth p \<and> subseq ids (map as_id (filter as_connected (an_slots p))) \<and> distinct ids \<and>
    (r = Ok () \<longrightarrow> (\<forall>s\<in>set (an_slots p). (\<exists>s'\<in>set (an_slots p'). as_id s' = as_id s \<and> as_connected s') \<longrightarrow> as_id s \<in> set ids))"
proof (rule dispatch [OF assms])
  fix p2
  assume 1: "port_extends (p\<lparr>an_depth := an_depth p + 1\<rparr>) p2" and p': "p' = compact_slots (p2\<lparr>an_depth := an_depth p\<rparr>)"
    and ids: "subseq ids (map as_id (filter as_connected (an_slots p)))"
    and all: "r = Ok () \<Longrightarrow> \<forall>i<length (an_slots p). as_connected (an_slots p2 ! i) \<longrightarrow> as_id (an_slots p ! i) \<in> set ids"
  have "distinct ids" using subseq_distinct [OF ids] assms(1) by (auto simp: port_ok_def distinct_map_filter)
  moreover have "as_id s \<in> set ids" if r: "r = Ok ()" and s: "s \<in> set (an_slots p)" and s': "s' \<in> set (an_slots p')" "as_id s' = as_id s" "as_connected s'" for s s'
  proof -
    obtain i where i: "i < length (an_slots p)" "s = an_slots p ! i" using s by (auto simp: in_set_conv_nth)
    have in2: "i < length (an_slots p2)" "as_id (an_slots p2 ! i) = as_id s"
      using port_extends_slot [OF 1, of i] i by (auto simp: slot_kept_def)
    have "set (an_slots p') \<subseteq> set (an_slots p2)" using p' by (auto simp: compact_slots_def)
    then have "s' \<in> set (an_slots p2)" using s'(1) by blast
    then obtain j where j: "j < length (an_slots p2)" "s' = an_slots p2 ! j" by (auto simp: in_set_conv_nth)
    have "distinct (map as_id (an_slots p2))" using 1 by (simp add: port_extends_def port_ok_def)
    then have "i = j" using in2 j s'(2) by (simp add: distinct_conv_nth) metis
    then show ?thesis using all [OF r] i j s'(3) by auto
  qed
  ultimately show ?thesis using compact_published [OF assms(1) 1] ids p' by blast
qed

end

text \<open>A scoreboard does not touch the port; a subscriber may run a script of connections and disconnections.\<close>

lemma scoreboard_subscribers: "analysis_subscribers in_order_deliver"
  by unfold_locales (auto simp: in_order_deliver_def port_extends_refl)

interpretation in_order_side: analysis_subscribers in_order_deliver
  by (rule scoreboard_subscribers)

interpretation keyed_side: analysis_subscribers "keyed_deliver key_of"
  by unfold_locales (auto simp: keyed_deliver_def port_extends_refl)

datatype 's port_action = Connect 's | Disconnect nat

fun port_act :: "'s port_action \<Rightarrow> 's analysis_port \<Rightarrow> 's analysis_port" where
  "port_act (Connect s) p = snd (connect_subscriber s p)"
| "port_act (Disconnect k) p = state_disconnect k p"

definition scripted :: "('s \<Rightarrow> 'v \<Rightarrow> 's port_action list) \<Rightarrow> ('s, 'v, 'w) deliver" where
  "scripted script s v = (\<lambda>(p, w). (Ok (), fold port_act (script s v) p, w))"

lemma port_act_extends: "port_ok p \<Longrightarrow> an_depth p \<noteq> 0 \<Longrightarrow> port_extends p (port_act a p)"
  by (cases a) (auto simp: connect_extends disconnect_extends)

lemma port_acts_extend: "port_ok p \<Longrightarrow> an_depth p \<noteq> 0 \<Longrightarrow> port_extends p (fold port_act as p)"
proof (induction "as" arbitrary: p)
  case (Cons a "as")
  note e = port_act_extends [OF Cons.prems, of a]
  show ?case using port_extends_trans [OF e Cons.IH] e Cons.prems by (simp add: port_extends_def)
qed (simp add: port_extends_refl)

interpretation reacting: analysis_subscribers "scripted script"
  by unfold_locales (auto simp: scripted_def port_acts_extend)

text \<open>
  Property C15: a publication reaches the subscribers that stay connected, each once and in the order of connection. The
  subscribers may connect, disconnect and publish on the port while it writes to them: the slots written to are slots
  connected at the beginning, in their order, none twice; when no subscriber throws, every slot connected at both ends
  of the publication was written to; and in any case, an exception included, the port is left well-formed and at the
  depth it had, so that outside of publications it holds connected slots only.
\<close>

theorem publication_reaches_connected:
  assumes subscribers: "\<And>p s v w r p' w'. port_ok p \<Longrightarrow> an_depth p \<noteq> 0 \<Longrightarrow> deliver s v (p, w) = (r, p', w') \<Longrightarrow> port_extends p p'"
    and port: "port_ok p" and published: "port_write deliver v (p, w) = (r, ids, p', w')"
  shows "subseq ids (map as_id (filter as_connected (an_slots p))) \<and> distinct ids \<and>
    (r = Ok () \<longrightarrow> (\<forall>s\<in>set (an_slots p). (\<exists>s'\<in>set (an_slots p'). as_id s' = as_id s \<and> as_connected s') \<longrightarrow> as_id s \<in> set ids)) \<and>
    port_ok p' \<and> an_depth p' = an_depth p \<and> (an_depth p = 0 \<longrightarrow> list_all as_connected (an_slots p'))"
proof -
  have "analysis_subscribers deliver" using subscribers by unfold_locales blast
  from analysis_subscribers.published [OF this port published] show ?thesis by (auto simp: port_ok_def)
qed

definition three_subscribers :: "nat analysis_port" where
  "three_subscribers = fold port_act [Connect 10, Connect 20, Connect 30] analysis_port_init"

definition meddling :: "nat \<Rightarrow> nat \<Rightarrow> nat port_action list" where
  "meddling s v = (if s = 10 then [Disconnect 2, Connect 40, Disconnect 1] else [])"

lemma meddled: "port_write (scripted meddling) 7 (three_subscribers, ()) =
    (Ok (), [1, 3],
     \<lparr>an_slots = [\<lparr>as_id = 3, as_subscriber = 30, as_connected = True\<rparr>, \<lparr>as_id = 4, as_subscriber = 40, as_connected = True\<rparr>],
      an_next_id = 5, an_depth = 0, an_compact_pending = False\<rparr>, ())"
  by code_simp

theorem publication_reaches_connected_witness:
  "case port_write (scripted meddling) 7 (three_subscribers, ()) of (r, ids, p', _) \<Rightarrow>
     r = Ok () \<and> ids = [1, 3] \<and> subseq ids [1, 2, 3] \<and> port_ok p' \<and> list_all as_connected (an_slots p')"
proof -
  have p: "port_ok three_subscribers" by code_simp
  have "map as_id (filter as_connected (an_slots three_subscribers)) = [1, 2, 3]" "an_depth three_subscribers = 0" by code_simp+
  moreover have subs: "port_extends p p'"
    if "port_ok p" "an_depth p \<noteq> 0" "scripted meddling s v (p, w) = (r, p', w')" for p s and v :: nat and w :: unit and r p' w'
    by (rule reacting.extends [OF that])
  moreover note publication_reaches_connected [OF subs p meddled]
  ultimately show ?thesis by (simp only: meddled prod.case) simp
qed

section \<open>Buffers\<close>

text \<open>Nothing ever waits to put into a buffer: \<open>write\<close> uses \<open>put_nowait\<close> only.\<close>

definition buffer_ok :: "'v analysis_buffer \<times> 'a sched_core_scheme \<Rightarrow> bool" where
  "buffer_ok w \<longleftrightarrow> queue_ok (ab_queue (fst w), snd w) \<and> q_puts (ab_queue (fst w)) = []"

definition buffer_full :: "'v queue \<Rightarrow> bool" where
  "buffer_full q \<longleftrightarrow> q_maxsize q \<noteq> 0 \<and> length (q_items q) = q_maxsize q"

definition promised_items :: "'v queue \<times> 'a sched_core_scheme \<Rightarrow> nat" where
  "promised_items w = reserved_count (live_waiters (\<lambda>r. external_wait_alive r (snd w)) (q_gets (fst w)))"

lemma buffer_cleanup:
  assumes "queue_ok (q, sc)" "q_puts q = []"
  obtains q1 where "queue_cleanup (q, sc) = (q1, sc)" "queue_ok (q1, sc)" "q_items q1 = q_items q" "q_maxsize q1 = q_maxsize q"
    "q_puts q1 = []" "has_unreserved_slot q1 \<longleftrightarrow> \<not> buffer_full q" "q_reserved_items q1 = promised_items (q, sc)"
proof (rule queue_cleanup_ok [OF assms(1)])
  fix q1
  assume 1: "queue_cleanup (q, sc) = (q1, sc)" "queue_ok (q1, sc)" "q_items q1 = q_items q" "q_maxsize q1 = q_maxsize q"
    "q_gets q1 = live_waiters (\<lambda>r. external_wait_alive r sc) (q_gets q)"
    "q_puts q1 = live_waiters (\<lambda>r. external_wait_alive r sc) (q_puts q)"
  have p: "q_puts q1 = []" using 1(6) assms(2) by (simp add: live_waiters_def)
  have "has_unreserved_slot q1 \<longleftrightarrow> \<not> buffer_full q" "q_reserved_items q1 = promised_items (q, sc)"
    using 1 p unfolding queue_ok_def has_unreserved_slot_def buffer_full_def promised_items_def by auto
  with that 1(1-4) p show ?thesis by blast
qed

lemma live_waiters_nil [simp]: "live_waiters a [] = []" "dead_reservations a [] = 0"
  by (simp_all add: live_waiters_def dead_reservations_def)

lemma wake_consumers_buffer:
  assumes "queue_ok w" "q_puts (fst w) = []"
  shows "\<exists>q' sc'. wake_consumers Ok w = Inr (q', sc') \<and> queue_ok (q', sc') \<and> q_items q' = q_items (fst w) \<and>
    q_maxsize q' = q_maxsize (fst w) \<and> q_puts q' = []"
proof (rule wake_consumers_step [OF assms(1), of Ok])
  fix q' sc' tried
  assume 1: "wake_consumers Ok w = (if tried then Ok (q', sc') else Ok (q', sc'))" "queue_ok (q', sc')"
    "q_items q' = q_items (fst w)" "q_maxsize q' = q_maxsize (fst w)"
  then have "wake_consumers Ok w = Inr (q', sc')" by (simp split: if_splits)
  moreover have "q_puts q' = []"
    using calculation assms(2)
    by (cases w) (auto simp: wake_consumers_def queue_cleanup_def Let_def result_bind_Ok_iff)
  ultimately show ?thesis using 1 by blast
qed

lemma wake_producers_buffer:
  assumes "queue_ok w" "q_puts (fst w) = []"
  shows "\<exists>q'. wake_producers Ok w = Inr (q', snd w) \<and> queue_ok (q', snd w) \<and> q_items q' = q_items (fst w) \<and>
    q_maxsize q' = q_maxsize (fst w) \<and> q_puts q' = []"
proof (rule buffer_cleanup [of "fst w" "snd w"])
  fix q1
  assume 1: "queue_cleanup (fst w, snd w) = (q1, snd w)" "queue_ok (q1, snd w)" "q_items q1 = q_items (fst w)"
    "q_maxsize q1 = q_maxsize (fst w)" "q_puts q1 = []"
  have "q1\<lparr>q_puts := []\<rparr> = q1" using 1(5) by (cases q1) simp
  moreover have "wake_producers Ok w = Inr (q1\<lparr>q_puts := []\<rparr>, snd w)" using 1 by (auto simp: wake_producers_def Let_def)
  ultimately show ?thesis using 1 by (metis prod.collapse)
qed (use assms in auto)

lemma buffer_put:
  assumes "queue_ok (q, sc)" "q_puts q = []"
  shows "\<exists>q' sc'. put_nowait Ok v (q, sc) = Inr (\<not> buffer_full q, q', sc') \<and> queue_ok (q', sc') \<and> q_puts q' = [] \<and>
    q_maxsize q' = q_maxsize q \<and> q_items q' = (if buffer_full q then q_items q else q_items q @ [v]) \<and>
    (buffer_full q \<longrightarrow> promised_items (q', sc') = promised_items (q, sc) \<and> buffer_full q')"
proof (rule buffer_cleanup [OF assms])
  fix q1
  assume 1: "queue_cleanup (q, sc) = (q1, sc)" "queue_ok (q1, sc)" "q_items q1 = q_items q" "q_maxsize q1 = q_maxsize q"
    "q_puts q1 = []" "has_unreserved_slot q1 \<longleftrightarrow> \<not> buffer_full q" "q_reserved_items q1 = promised_items (q, sc)"
  show ?thesis
  proof (cases "buffer_full q")
    case True
    have "promised_items (q1, sc) = promised_items (q, sc)"
      using 1(1) assms by (auto simp: promised_items_def queue_cleanup_def Let_def live_waiters_idem split: if_splits)
    then show ?thesis using 1 True by (auto simp: put_nowait_def buffer_full_def)
  next
    case False
    then have "queue_ok (q1\<lparr>q_items := q_items q1 @ [v]\<rparr>, sc)" using queue_ok_append [OF 1(2)] 1(6) by blast
    from wake_consumers_buffer [OF this] 1 False show ?thesis by (fastforce simp: put_nowait_def)
  qed
qed

lemma buffer_get:
  assumes "queue_ok (q, sc)" "q_puts q = []"
  defines "k \<equiv> promised_items (q, sc)"
  shows "k \<le> length (q_items q) \<and> (\<exists>q'. get_nowait Ok (q, sc) =
      Inr (if k < length (q_items q) then Some (q_items q ! k) else None, q', sc) \<and>
    queue_ok (q', sc) \<and> q_puts q' = [] \<and> q_maxsize q' = q_maxsize q \<and>
    q_items q' = (if k < length (q_items q) then take k (q_items q) @ drop (k + 1) (q_items q) else q_items q))"
proof (rule buffer_cleanup [OF assms(1,2)])
  fix q1
  assume 1: "queue_cleanup (q, sc) = (q1, sc)" "queue_ok (q1, sc)" "q_items q1 = q_items q" "q_maxsize q1 = q_maxsize q"
    "q_puts q1 = []" "q_reserved_items q1 = promised_items (q, sc)"
  have k: "k \<le> length (q_items q)" using 1 by (auto simp: queue_ok_def k_def)
  have u: "has_unreserved_item q1 \<longleftrightarrow> k < length (q_items q)" using 1 by (auto simp: has_unreserved_item_def k_def)
  show ?thesis
  proof (cases "k < length (q_items q)")
    case True
    have ok: "queue_ok (snd (take_unreserved q1), sc)" using take_unreserved_ok [OF 1(2)] u True by simp
    have "q_puts (snd (take_unreserved q1)) = []" using 1 by (simp add: take_unreserved_def)
    from wake_producers_buffer [of "(snd (take_unreserved q1), sc)"] ok this obtain q' where
      "wake_producers Ok (snd (take_unreserved q1), sc) = Inr (q', sc)" "queue_ok (q', sc)"
      "q_items q' = q_items (snd (take_unreserved q1))" "q_maxsize q' = q_maxsize (snd (take_unreserved q1))" "q_puts q' = []" by auto
    then show ?thesis using 1 u True k by (auto simp: get_nowait_def take_unreserved_def k_def)
  next
    case False
    then show ?thesis using 1 u k by (auto simp: get_nowait_def)
  qed
qed

text \<open>
  Property C36: a buffer keeps to its capacity by its overflow policy. A value that finds room is appended. A value that
  does not is counted as dropped and: \<open>DropNewest\<close> discards it; \<open>DropOldest\<close> discards the oldest value that is not promised
  to a waiting reader and appends the new one, or discards the new one when all are promised; \<open>Error\<close> throws and counts
  nothing. The buffer never holds more than its capacity.
\<close>

theorem buffer_overflow_policy:
  assumes "buffer_ok (b, sc)"
  defines "q \<equiv> ab_queue b" and "k \<equiv> promised_items (ab_queue b, sc)"
  shows "if buffer_full q \<and> ab_policy b = ErrorOnOverflow
    then buffer_write Ok v (b, sc) = Fail (OverflowError ''cpptb-vc: AnalysisBuffer is full under the Error overflow policy'')
    else \<exists>b' sc'. buffer_write Ok v (b, sc) = Ok (b', sc') \<and> buffer_ok (b', sc') \<and>
      ab_policy b' = ab_policy b \<and> q_maxsize (ab_queue b') = q_maxsize q \<and>
      (q_maxsize q = 0 \<or> length (q_items (ab_queue b')) \<le> q_maxsize q) \<and>
      ab_dropped b' = (if buffer_full q then ab_dropped b + 1 else ab_dropped b) \<and>
      q_items (ab_queue b') =
        (if \<not> buffer_full q then q_items q @ [v]
         else if ab_policy b = DropOldest \<and> k < length (q_items q) then take k (q_items q) @ drop (k + 1) (q_items q) @ [v]
         else q_items q)"
proof -
  have 0: "queue_ok (q, sc)" "q_puts q = []" using assms(1) by (simp_all add: buffer_ok_def q_def)
  obtain q1 sc1 where 1: "put_nowait Ok v (q, sc) = Inr (\<not> buffer_full q, q1, sc1)" "queue_ok (q1, sc1)" "q_puts q1 = []"
    "q_maxsize q1 = q_maxsize q" "q_items q1 = (if buffer_full q then q_items q else q_items q @ [v])"
    "buffer_full q \<longrightarrow> promised_items (q1, sc1) = promised_items (q, sc) \<and> buffer_full q1"
    using buffer_put [OF 0, of v] by blast
  have room: "queue_ok (q', sc') \<Longrightarrow> q_maxsize q' = 0 \<or> length (q_items q') \<le> q_maxsize q'" for q' :: "'a queue" and sc' :: "'b sched_core_scheme"
    by (auto simp: queue_ok_def)
  show ?thesis
  proof (cases "buffer_full q \<and> ab_policy b = DropOldest")
    case False
    then show ?thesis using 1 room [OF 1(2)] by (auto simp: buffer_write_def buffer_ok_def q_def)
  next
    case True
    have k: "promised_items (q1, sc1) = k" using 1(6) True by (simp add: k_def q_def)
    obtain q2 where 2: "get_nowait Ok (q1, sc1) = Inr (if k < length (q_items q1) then Some (q_items q1 ! k) else None, q2, sc1)"
      "queue_ok (q2, sc1)" "q_puts q2 = []" "q_maxsize q2 = q_maxsize q1"
      "q_items q2 = (if k < length (q_items q1) then take k (q_items q1) @ drop (k + 1) (q_items q1) else q_items q1)"
      using buffer_get [OF 1(2,3)] unfolding k by blast
    show ?thesis
    proof (cases "k < length (q_items q)")
      case False
      then show ?thesis using 1 2 True room [OF 2(2)] by (auto simp: buffer_write_def buffer_ok_def q_def)
    next
      case less: True
      have "\<not> buffer_full q2" using 1 2 True less by (auto simp: buffer_full_def)
      with buffer_put [OF 2(2,3), of v] obtain q3 sc3 where 3: "put_nowait Ok v (q2, sc1) = Inr (True, q3, sc3)"
        "queue_ok (q3, sc3)" "q_puts q3 = []" "q_maxsize q3 = q_maxsize q2" "q_items q3 = q_items q2 @ [v]" by auto
      show ?thesis using 1 2 3 True less room [OF 3(2)] by (auto simp: buffer_write_def buffer_ok_def q_def)
    qed
  qed
qed

text \<open>A reader of the buffer was woken for the first value and has not run yet: the second is the oldest that can go.\<close>

definition promised_buffer :: "nat analysis_buffer" where
  "promised_buffer = \<lparr>ab_queue = (fst promised)\<lparr>q_maxsize := 2\<rparr>, ab_policy = DropOldest, ab_dropped = 0\<rparr>"

theorem buffer_overflow_policy_witness:
  "\<exists>b' sc'. buffer_write Ok 9 (promised_buffer, snd promised) = Ok (b', sc') \<and> q_items (ab_queue b') = [7, 9] \<and> ab_dropped b' = 1"
proof -
  have ok: "buffer_ok (promised_buffer, snd promised)"
    using promised_ok by (simp add: buffer_ok_def promised_buffer_def promised_def queue_ok_def)
  have k: "promised_items (ab_queue promised_buffer, snd promised) = 1" by code_simp
  have q: "q_items (ab_queue promised_buffer) = [7, 8]" "buffer_full (ab_queue promised_buffer)" "ab_policy promised_buffer = DropOldest"
    "ab_dropped promised_buffer = 0" by (simp_all add: promised_buffer_def promised_def buffer_full_def)
  from buffer_overflow_policy [OF ok, of 9] show ?thesis unfolding k using q by auto
qed

end
