(* ===== verification/RegisterMemory.thy ===== *)
theory RegisterMemory
  imports RegisterMap
begin

text \<open>
  Memories of a register map (\<open>RegisterMemoryHandle\<close> and its \<open>Slice\<close> in \<open>register_model.hpp\<close>): an array of
  elements of whole bytes, accessed one by one or in bursts, by element, by byte offset or by absolute
  address, over the bus, an address map or the backdoor. A burst ends at the first failed transfer. An
  operation delivers its response or the exception it throws, and the state of everything outside; a span
  that is read into is the list of its values before and after.
\<close>

datatype access_path = Frontdoor | Backdoor

record 'd mem_read_response =
  mr_data :: 'd
  mr_transport :: "'d read_response"
  mr_path :: access_path
  mr_transfers :: nat
  mr_failed :: "u64 option"

record mem_write_response =
  mw_transport :: write_response
  mw_path :: access_path
  mw_transfers :: nat
  mw_failed :: "u64 option"

definition mem_read_start :: "access_path \<Rightarrow> 'd::zero mem_read_response" where
  "mem_read_start path =
     \<lparr>mr_data = 0, mr_transport = \<lparr>rr_data = 0, rr_status = Okay, rr_wait_cycles = 0\<rparr>, mr_path = path,
      mr_transfers = 0, mr_failed = None\<rparr>"

definition mem_write_start :: "access_path \<Rightarrow> mem_write_response" where
  "mem_write_start path =
     \<lparr>mw_transport = \<lparr>wr_status = Okay, wr_wait_cycles = 0\<rparr>, mw_path = path, mw_transfers = 0, mw_failed = None\<rparr>"

section \<open>Backdoors\<close>

record ('d, 'w) mem_backdoor =
  mb_peek :: "memory_descriptor \<Rightarrow> u64 \<Rightarrow> u64 \<Rightarrow> 'w \<Rightarrow> 'd \<times> 'w"
  mb_poke :: "memory_descriptor \<Rightarrow> u64 \<Rightarrow> u64 \<Rightarrow> 'd \<Rightarrow> 'w \<Rightarrow> 'w"
  mb_peek_into :: "memory_descriptor \<Rightarrow> u64 \<Rightarrow> u64 \<Rightarrow> 'd list \<Rightarrow> 'w \<Rightarrow> 'd list \<times> 'w"
  mb_poke_from :: "memory_descriptor \<Rightarrow> u64 \<Rightarrow> u64 \<Rightarrow> 'd list \<Rightarrow> 'w \<Rightarrow> 'w"

definition element_size :: "memory_descriptor \<Rightarrow> u64" where
  "element_size md = of_nat (md_width md div 8)"

text \<open>The bursts a backdoor has unless it overrides them.\<close>

fun peek_each ::
  "(memory_descriptor \<Rightarrow> u64 \<Rightarrow> u64 \<Rightarrow> 'w \<Rightarrow> 'd \<times> 'w) \<Rightarrow> memory_descriptor \<Rightarrow> u64 \<Rightarrow> u64 \<Rightarrow> 'd list \<Rightarrow> 'w \<Rightarrow> 'd list \<times> 'w" where
  "peek_each peek md i address [] w = ([], w)"
| "peek_each peek md i address (_ # vs) w =
     (case peek md i address w of
        (v, w) \<Rightarrow> (case peek_each peek md (i + 1) (address + element_size md) vs w of (vs, w) \<Rightarrow> (v # vs, w)))"

fun poke_each ::
  "(memory_descriptor \<Rightarrow> u64 \<Rightarrow> u64 \<Rightarrow> 'd \<Rightarrow> 'w \<Rightarrow> 'w) \<Rightarrow> memory_descriptor \<Rightarrow> u64 \<Rightarrow> u64 \<Rightarrow> 'd list \<Rightarrow> 'w \<Rightarrow> 'w" where
  "poke_each poke md i address [] w = w"
| "poke_each poke md i address (v # vs) w =
     poke_each poke md (i + 1) (address + element_size md) vs (poke md i address v w)"

section \<open>The handle\<close>

record ('a, 'd, 'e, 'w) mem_handle =
  mh_master :: "('a, 'd, 'e, 'w) master"
  mh_desc :: memory_descriptor
  mh_backdoor :: "('d, 'w) mem_backdoor option"
  mh_base :: u64

definition validate_element :: "'d::len itself \<Rightarrow> memory_descriptor \<Rightarrow> unit result" where
  "validate_element d md =
     (if md_width md = 0 \<or> md_width md mod 8 \<noteq> 0 \<or> md_width md > LENGTH('d)
      then Fail (LogicError ''register memory element must be byte-aligned and fit the model data width'')
      else Ok ())"

definition mem_handle_init ::
  "('a, 'd::len word, 'e, 'w) master \<Rightarrow> memory_descriptor \<Rightarrow> u64 \<Rightarrow> ('d word, 'w) mem_backdoor option \<Rightarrow>
   ('a, 'd word, 'e, 'w) mem_handle result" where
  "mem_handle_init m md base backdoor =
     (if base > - 1 - md_address md then Fail (InvalidArgument ''register memory base plus offset overflows'')
      else
        let base = base + md_address md
        in result_bind (validate_element TYPE('d) md) (\<lambda>_.
             if md_entries md > (- 1 - base) div element_size md
             then Fail (InvalidArgument ''register memory address range overflows'')
             else Ok \<lparr>mh_master = m, mh_desc = md, mh_backdoor = backdoor, mh_base = base\<rparr>))"

definition element_bytes :: "('a, 'd, 'e, 'w) mem_handle \<Rightarrow> u64" where
  "element_bytes h = element_size (mh_desc h)"

definition all_bytes :: "('a, 'd, 'e::len word, 'w) mem_handle \<Rightarrow> 'e word" where
  "all_bytes h =
     (let bytes = element_bytes h
      in ucast (if bytes \<ge> 64 then - 1 else push_bit (unat bytes) 1 - 1 :: u64))"

definition out_of_range :: "u64 \<Rightarrow> nat \<Rightarrow> ('a, 'd, 'e, 'w) mem_handle \<Rightarrow> bool" where
  "out_of_range first count h =
     (let entries = md_entries (mh_desc h)
      in first > entries \<or> count > unat (entries - first) \<or> (count \<noteq> 0 \<and> first = entries))"

definition require_range :: "u64 \<Rightarrow> nat \<Rightarrow> ('a, 'd, 'e, 'w) mem_handle \<Rightarrow> unit result" where
  "require_range first count h =
     (if out_of_range first count h then Fail (OutOfRange ''register memory range out of bounds'') else Ok ())"

definition require_readable :: "('a, 'd, 'e, 'w) mem_handle \<Rightarrow> unit result" where
  "require_readable h =
     (if \<not> register_readable (md_access (mh_desc h)) then Fail (LogicError ''register memory is not readable'') else Ok ())"

definition require_writable :: "('a, 'd, 'e, 'w) mem_handle \<Rightarrow> unit result" where
  "require_writable h =
     (if \<not> register_writable (md_access (mh_desc h)) then Fail (LogicError ''register memory is not writable'') else Ok ())"

definition require_read :: "u64 \<Rightarrow> nat \<Rightarrow> ('a, 'd, 'e, 'w) mem_handle \<Rightarrow> unit result" where
  "require_read first count h = result_bind (require_range first count h) (\<lambda>_. require_readable h)"

definition require_write :: "u64 \<Rightarrow> nat \<Rightarrow> ('a, 'd, 'e, 'w) mem_handle \<Rightarrow> unit result" where
  "require_write first count h = result_bind (require_range first count h) (\<lambda>_. require_writable h)"

definition require_backdoor :: "('a, 'd, 'e, 'w) mem_handle \<Rightarrow> ('d, 'w) mem_backdoor result" where
  "require_backdoor h =
     (case mh_backdoor h of None \<Rightarrow> Fail (LogicError ''register memory has no backdoor'') | Some b \<Rightarrow> Ok b)"

section \<open>Addresses\<close>

definition address_after_range_check :: "u64 \<Rightarrow> ('a, 'd, 'e, 'w) mem_handle \<Rightarrow> u64 result" where
  "address_after_range_check i h =
     (if i > (- 1 - mh_base h) div element_bytes h then Fail (OverflowError ''register memory indexed address overflows'')
      else Ok (mh_base h + i * element_bytes h))"

definition mem_address :: "u64 \<Rightarrow> ('a, 'd, 'e, 'w) mem_handle \<Rightarrow> u64 result" where
  "mem_address i h = result_bind (require_range i 1 h) (\<lambda>_. address_after_range_check i h)"

definition mem_map_address ::
  "u64 \<Rightarrow> ('a::len word, 'd, 'e, 'w) address_map \<Rightarrow> ('a word, 'd, 'e, 'w) mem_handle \<Rightarrow> u64 result" where
  "mem_map_address i am h = result_bind (require_range i 1 h) (\<lambda>_. effective_memory_address (mh_desc h) i am)"

definition end_address :: "('a, 'd, 'e, 'w) mem_handle \<Rightarrow> u64 result" where
  "end_address h = address_after_range_check (md_entries (mh_desc h)) h"

definition index_from_offset_for_range :: "u64 \<Rightarrow> nat \<Rightarrow> ('a, 'd, 'e, 'w) mem_handle \<Rightarrow> u64 result" where
  "index_from_offset_for_range offset count h =
     (let bytes = element_bytes h
      in if offset mod bytes \<noteq> 0 then Fail (InvalidArgument ''register memory byte offset is not element-aligned'')
         else let i = offset div bytes in result_bind (require_range i count h) (\<lambda>_. Ok i))"

definition index_from_absolute_for_range :: "u64 \<Rightarrow> nat \<Rightarrow> ('a, 'd, 'e, 'w) mem_handle \<Rightarrow> u64 result" where
  "index_from_absolute_for_range address count h =
     (let outside = Fail (OutOfRange ''register memory absolute address is out of bounds'')
      in if address < mh_base h then outside
         else
           let offset = address - mh_base h; bytes = element_bytes h
           in if offset mod bytes \<noteq> 0 then Fail (InvalidArgument ''register memory absolute address is not element-aligned'')
              else let i = offset div bytes in if out_of_range i count h then outside else Ok i)"

definition index_from_offset :: "u64 \<Rightarrow> ('a, 'd, 'e, 'w) mem_handle \<Rightarrow> u64 result" where
  "index_from_offset offset h = index_from_offset_for_range offset 1 h"

definition index_from_absolute :: "u64 \<Rightarrow> ('a, 'd, 'e, 'w) mem_handle \<Rightarrow> u64 result" where
  "index_from_absolute address h = index_from_absolute_for_range address 1 h"

definition contains_absolute :: "u64 \<Rightarrow> ('a, 'd, 'e, 'w) mem_handle \<Rightarrow> bool" where
  "contains_absolute address h =
     (if address < mh_base h then False
      else
        let offset = address - mh_base h; bytes = element_bytes h
        in offset mod bytes = 0 \<and> offset div bytes < md_entries (mh_desc h))"

definition frontdoor_address ::
  "u64 \<Rightarrow> ('a::len word, 'd, 'e, 'w) address_map option \<Rightarrow> ('a word, 'd, 'e, 'w) mem_handle \<Rightarrow> u64 result" where
  "frontdoor_address i am h =
     (case am of Some m \<Rightarrow> effective_memory_address (mh_desc h) i m | None \<Rightarrow> address_after_range_check i h)"

definition require_frontdoor_supported ::
  "('a::len word, 'd, 'e, 'w) address_map option \<Rightarrow> ('a word, 'd, 'e, 'w) mem_handle \<Rightarrow> unit result" where
  "require_frontdoor_supported am h =
     (let md = mh_desc h
      in if md_access_width md \<noteq> 0 \<and> md_access_width md \<noteq> md_width md
         then Fail (LogicError ''split register-memory accesses are not supported'')
         else if md_entries md = 0 then Ok ()
         else result_bind (frontdoor_address (md_entries md - 1) am h) (\<lambda>last.
           if \<not> fits_address TYPE('a) last
           then Fail (LogicError ''register memory exceeds the frontdoor address width'')
           else Ok ()))"

section \<open>Transfers\<close>

type_synonym ('a, 'd, 'e, 'w, 'r) memory_task = "('a, 'd, 'e, 'w) mem_handle \<Rightarrow> 'w \<Rightarrow> 'r result \<times> 'w"

definition element_write ::
  "('a, 'd, 'e, 'w) address_map option \<Rightarrow> u64 \<Rightarrow> 'a \<Rightarrow> 'd \<Rightarrow> 'e \<Rightarrow> ('a, 'd, 'e, 'w) mem_handle \<Rightarrow> 'w \<Rightarrow> write_response \<times> 'w" where
  "element_write am i address data byte_enable h w =
     (case am of
        Some m \<Rightarrow> map_memory_write (mh_desc h) i address data byte_enable m w
      | None \<Rightarrow> ms_write (mh_master h) address data byte_enable w)"

definition element_read ::
  "('a, 'd, 'e, 'w) address_map option \<Rightarrow> u64 \<Rightarrow> 'a \<Rightarrow> ('a, 'd, 'e, 'w) mem_handle \<Rightarrow> 'w \<Rightarrow> 'd read_response \<times> 'w" where
  "element_read am i address h w =
     (case am of
        Some m \<Rightarrow> map_memory_read (mh_desc h) i address m w
      | None \<Rightarrow> ms_read (mh_master h) address w)"

definition read_element ::
  "u64 \<Rightarrow> ('a::len word, 'd::zero, 'e, 'w) address_map option \<Rightarrow> ('a word, 'd, 'e, 'w, 'd mem_read_response) memory_task" where
  "read_element i am h w =
     (case result_bind (require_frontdoor_supported am h) (\<lambda>_. frontdoor_address i am h) of
        Inl e \<Rightarrow> (Fail e, w)
      | Inr address \<Rightarrow>
          let (transport, w) = element_read am i (ucast address) h w;
              response = (mem_read_start Frontdoor)\<lparr>mr_transport := transport\<rparr>
          in (Ok (if memory_okay (rr_status transport) then response\<lparr>mr_data := rr_data transport, mr_transfers := 1\<rparr>
                  else response\<lparr>mr_failed := Some i\<rparr>), w))"

definition write_element ::
  "u64 \<Rightarrow> 'd \<Rightarrow> ('a::len word, 'd, 'e::len word, 'w) address_map option \<Rightarrow> ('a word, 'd, 'e word, 'w, mem_write_response) memory_task" where
  "write_element i v am h w =
     (case result_bind (require_frontdoor_supported am h) (\<lambda>_. frontdoor_address i am h) of
        Inl e \<Rightarrow> (Fail e, w)
      | Inr address \<Rightarrow>
          let (transport, w) = element_write am i (ucast address) v (all_bytes h) h w;
              response = (mem_write_start Frontdoor)\<lparr>mw_transport := transport\<rparr>
          in (Ok (if memory_okay (wr_status transport) then response\<lparr>mw_transfers := 1\<rparr>
                  else response\<lparr>mw_failed := Some i\<rparr>), w))"

fun write_elements ::
  "u64 \<Rightarrow> 'd list \<Rightarrow> mem_write_response \<Rightarrow> ('a::len word, 'd, 'e::len word, 'w) address_map option \<Rightarrow>
   ('a word, 'd, 'e word, 'w, mem_write_response) memory_task" where
  "write_elements i [] response am h w = (Ok response, w)"
| "write_elements i (v # vs) response am h w =
     (case frontdoor_address i am h of
        Inl e \<Rightarrow> (Fail e, w)
      | Inr address \<Rightarrow>
          let (transport, w) = element_write am i (ucast address) v (all_bytes h) h w;
              response = response\<lparr>mw_transport := transport\<rparr>
          in if \<not> memory_okay (wr_status transport) then (Ok (response\<lparr>mw_failed := Some i\<rparr>), w)
             else write_elements (i + 1) vs (response\<lparr>mw_transfers := mw_transfers response + 1\<rparr>) am h w)"

definition frontdoor_write ::
  "u64 \<Rightarrow> 'd list \<Rightarrow> ('a::len word, 'd, 'e::len word, 'w) address_map option \<Rightarrow>
   ('a word, 'd, 'e word, 'w, mem_write_response) memory_task" where
  "frontdoor_write first vs am h w =
     (case require_frontdoor_supported am h of
        Inl e \<Rightarrow> (Fail e, w)
      | Inr _ \<Rightarrow> write_elements first vs (mem_write_start Frontdoor) am h w)"

text \<open>The values of the span as far as they were read, then as they were; an exception leaves it as far as it was read.\<close>

fun read_elements ::
  "u64 \<Rightarrow> 'd list \<Rightarrow> 'd mem_read_response \<Rightarrow> ('a::len word, 'd, 'e, 'w) address_map option \<Rightarrow>
   ('a word, 'd, 'e, 'w) mem_handle \<Rightarrow> 'w \<Rightarrow> 'd mem_read_response result \<times> 'd list \<times> 'w" where
  "read_elements i [] response am h w = (Ok response, [], w)"
| "read_elements i (v # vs) response am h w =
     (case frontdoor_address i am h of
        Inl e \<Rightarrow> (Fail e, v # vs, w)
      | Inr address \<Rightarrow>
          let (transport, w) = element_read am i (ucast address) h w;
              response = response\<lparr>mr_transport := transport\<rparr>
          in if \<not> memory_okay (rr_status transport) then (Ok (response\<lparr>mr_failed := Some i\<rparr>), v # vs, w)
             else
               let v = rr_data transport
               in case read_elements (i + 1) vs
                    (response\<lparr>mr_data := v, mr_transfers := mr_transfers response + 1\<rparr>) am h w of
                    (r, vs, w) \<Rightarrow> (r, v # vs, w))"

definition frontdoor_read_into ::
  "u64 \<Rightarrow> 'd::zero list \<Rightarrow> ('a::len word, 'd, 'e, 'w) address_map option \<Rightarrow>
   ('a word, 'd, 'e, 'w) mem_handle \<Rightarrow> 'w \<Rightarrow> 'd mem_read_response result \<times> 'd list \<times> 'w" where
  "frontdoor_read_into first vs am h w =
     (case require_frontdoor_supported am h of
        Inl e \<Rightarrow> (Fail e, vs, w)
      | Inr _ \<Rightarrow> read_elements first vs (mem_read_start Frontdoor) am h w)"

section \<open>Operations\<close>

definition backdoor_at :: "u64 \<Rightarrow> ('a, 'd, 'e, 'w) mem_handle \<Rightarrow> (('d, 'w) mem_backdoor \<times> u64) result" where
  "backdoor_at i h =
     result_bind (require_backdoor h) (\<lambda>b. result_bind (address_after_range_check i h) (\<lambda>address. Ok (b, address)))"

definition mem_read ::
  "u64 \<Rightarrow> access_path \<Rightarrow> ('a::len word, 'd::zero, 'e, 'w, 'd mem_read_response) memory_task" where
  "mem_read i path h w =
     (case require_read i 1 h of
        Inl e \<Rightarrow> (Fail e, w)
      | Inr _ \<Rightarrow>
          if path = Backdoor then
            case backdoor_at i h of
              Inl e \<Rightarrow> (Fail e, w)
            | Inr (b, address) \<Rightarrow>
                (case mb_peek b (mh_desc h) i address w of
                   (v, w) \<Rightarrow> (Ok ((mem_read_start path)\<lparr>mr_data := v, mr_transfers := 1\<rparr>), w))
          else read_element i None h w)"

definition mem_read_map ::
  "u64 \<Rightarrow> ('a::len word, 'd::zero, 'e, 'w) address_map \<Rightarrow> ('a word, 'd, 'e, 'w, 'd mem_read_response) memory_task" where
  "mem_read_map i am h w =
     (case require_read i 1 h of Inl e \<Rightarrow> (Fail e, w) | Inr _ \<Rightarrow> read_element i (Some am) h w)"

definition mem_write ::
  "u64 \<Rightarrow> 'd \<Rightarrow> access_path \<Rightarrow> ('a::len word, 'd, 'e::len word, 'w, mem_write_response) memory_task" where
  "mem_write i v path h w =
     (case require_write i 1 h of
        Inl e \<Rightarrow> (Fail e, w)
      | Inr _ \<Rightarrow>
          if path = Backdoor then
            case backdoor_at i h of
              Inl e \<Rightarrow> (Fail e, w)
            | Inr (b, address) \<Rightarrow>
                (Ok ((mem_write_start path)\<lparr>mw_transfers := 1\<rparr>), mb_poke b (mh_desc h) i address v w)
          else write_element i v None h w)"

definition mem_write_map ::
  "u64 \<Rightarrow> 'd \<Rightarrow> ('a::len word, 'd, 'e::len word, 'w) address_map \<Rightarrow> ('a word, 'd, 'e word, 'w, mem_write_response) memory_task" where
  "mem_write_map i v am h w =
     (case require_write i 1 h of Inl e \<Rightarrow> (Fail e, w) | Inr _ \<Rightarrow> write_element i v (Some am) h w)"

definition mem_write_burst ::
  "u64 \<Rightarrow> 'd list \<Rightarrow> access_path \<Rightarrow> ('a::len word, 'd, 'e::len word, 'w, mem_write_response) memory_task" where
  "mem_write_burst first vs path h w =
     (case require_write first (length vs) h of
        Inl e \<Rightarrow> (Fail e, w)
      | Inr _ \<Rightarrow>
          if vs = [] then (Ok (mem_write_start path), w)
          else if path = Backdoor then
            case backdoor_at first h of
              Inl e \<Rightarrow> (Fail e, w)
            | Inr (b, address) \<Rightarrow>
                (Ok ((mem_write_start path)\<lparr>mw_transfers := length vs\<rparr>), mb_poke_from b (mh_desc h) first address vs w)
          else frontdoor_write first vs None h w)"

definition mem_write_burst_map ::
  "u64 \<Rightarrow> 'd list \<Rightarrow> ('a::len word, 'd, 'e::len word, 'w) address_map \<Rightarrow>
   ('a word, 'd, 'e word, 'w, mem_write_response) memory_task" where
  "mem_write_burst_map first vs am h w =
     (case require_write first (length vs) h of
        Inl e \<Rightarrow> (Fail e, w)
      | Inr _ \<Rightarrow>
          if vs = [] then (Ok (mem_write_start Frontdoor), w) else frontdoor_write first vs (Some am) h w)"

definition mem_read_into ::
  "u64 \<Rightarrow> 'd::zero list \<Rightarrow> access_path \<Rightarrow> ('a::len word, 'd, 'e, 'w) mem_handle \<Rightarrow> 'w \<Rightarrow>
   'd mem_read_response result \<times> 'd list \<times> 'w" where
  "mem_read_into first vs path h w =
     (case require_read first (length vs) h of
        Inl e \<Rightarrow> (Fail e, vs, w)
      | Inr _ \<Rightarrow>
          if vs = [] then (Ok (mem_read_start path), vs, w)
          else if path = Backdoor then
            case backdoor_at first h of
              Inl e \<Rightarrow> (Fail e, vs, w)
            | Inr (b, address) \<Rightarrow>
                (case mb_peek_into b (mh_desc h) first address vs w of
                   (vs, w) \<Rightarrow> (Ok ((mem_read_start path)\<lparr>mr_data := last vs, mr_transfers := length vs\<rparr>), vs, w))
          else frontdoor_read_into first vs None h w)"

definition mem_read_into_map ::
  "u64 \<Rightarrow> 'd::zero list \<Rightarrow> ('a::len word, 'd, 'e, 'w) address_map \<Rightarrow> ('a word, 'd, 'e, 'w) mem_handle \<Rightarrow> 'w \<Rightarrow>
   'd mem_read_response result \<times> 'd list \<times> 'w" where
  "mem_read_into_map first vs am h w =
     (case require_read first (length vs) h of
        Inl e \<Rightarrow> (Fail e, vs, w)
      | Inr _ \<Rightarrow>
          if vs = [] then (Ok (mem_read_start Frontdoor), vs, w) else frontdoor_read_into first vs (Some am) h w)"

section \<open>Peeking and poking\<close>

definition mem_peek :: "u64 \<Rightarrow> ('a, 'd, 'e, 'w, 'd) memory_task" where
  "mem_peek i h w =
     (case result_bind (require_range i 1 h) (\<lambda>_. backdoor_at i h) of
        Inl e \<Rightarrow> (Fail e, w)
      | Inr (b, address) \<Rightarrow> (case mb_peek b (mh_desc h) i address w of (v, w) \<Rightarrow> (Ok v, w)))"

definition mem_poke :: "u64 \<Rightarrow> 'd \<Rightarrow> ('a, 'd, 'e, 'w, unit) memory_task" where
  "mem_poke i v h w =
     (case result_bind (require_range i 1 h) (\<lambda>_. backdoor_at i h) of
        Inl e \<Rightarrow> (Fail e, w)
      | Inr (b, address) \<Rightarrow> (Ok (), mb_poke b (mh_desc h) i address v w))"

definition mem_peek_into ::
  "u64 \<Rightarrow> 'd list \<Rightarrow> ('a, 'd, 'e, 'w) mem_handle \<Rightarrow> 'w \<Rightarrow> unit result \<times> 'd list \<times> 'w" where
  "mem_peek_into first vs h w =
     (case require_range first (length vs) h of
        Inl e \<Rightarrow> (Fail e, vs, w)
      | Inr _ \<Rightarrow>
          if vs = [] then (Ok (), vs, w)
          else
            case backdoor_at first h of
              Inl e \<Rightarrow> (Fail e, vs, w)
            | Inr (b, address) \<Rightarrow>
                (case mb_peek_into b (mh_desc h) first address vs w of (vs, w) \<Rightarrow> (Ok (), vs, w)))"

definition mem_poke_from :: "u64 \<Rightarrow> 'd list \<Rightarrow> ('a, 'd, 'e, 'w, unit) memory_task" where
  "mem_poke_from first vs h w =
     (case require_range first (length vs) h of
        Inl e \<Rightarrow> (Fail e, w)
      | Inr _ \<Rightarrow>
          if vs = [] then (Ok (), w)
          else
            case backdoor_at first h of
              Inl e \<Rightarrow> (Fail e, w)
            | Inr (b, address) \<Rightarrow> (Ok (), mb_poke_from b (mh_desc h) first address vs w))"

section \<open>Byte offsets and absolute addresses\<close>

text \<open>Running an operation on the element an address stands for; the span is kept when there is none.\<close>

definition at_element :: "u64 result \<Rightarrow> (u64 \<Rightarrow> 'w \<Rightarrow> 'r result \<times> 'w) \<Rightarrow> 'w \<Rightarrow> 'r result \<times> 'w" where
  "at_element i f w = (case i of Inl e \<Rightarrow> (Fail e, w) | Inr i \<Rightarrow> f i w)"

definition into_at ::
  "u64 result \<Rightarrow> 'd list \<Rightarrow> (u64 \<Rightarrow> 'w \<Rightarrow> 'r result \<times> 'd list \<times> 'w) \<Rightarrow> 'w \<Rightarrow> 'r result \<times> 'd list \<times> 'w" where
  "into_at i vs f w = (case i of Inl e \<Rightarrow> (Fail e, vs, w) | Inr i \<Rightarrow> f i w)"

definition mem_read_offset ::
  "u64 \<Rightarrow> access_path \<Rightarrow> ('a::len word, 'd::zero, 'e, 'w, 'd mem_read_response) memory_task" where
  "mem_read_offset a path h = at_element (index_from_offset_for_range a 1 h) (\<lambda>i. mem_read i path h)"

definition mem_read_into_offset ::
  "u64 \<Rightarrow> 'd::zero list \<Rightarrow> access_path \<Rightarrow> ('a::len word, 'd, 'e, 'w) mem_handle \<Rightarrow> 'w \<Rightarrow>
   'd mem_read_response result \<times> 'd list \<times> 'w" where
  "mem_read_into_offset a vs path h =
     into_at (index_from_offset_for_range a (length vs) h) vs (\<lambda>i. mem_read_into i vs path h)"

definition mem_write_offset ::
  "u64 \<Rightarrow> 'd \<Rightarrow> access_path \<Rightarrow> ('a::len word, 'd, 'e::len word, 'w, mem_write_response) memory_task" where
  "mem_write_offset a v path h = at_element (index_from_offset_for_range a 1 h) (\<lambda>i. mem_write i v path h)"

definition mem_write_burst_offset ::
  "u64 \<Rightarrow> 'd list \<Rightarrow> access_path \<Rightarrow> ('a::len word, 'd, 'e::len word, 'w, mem_write_response) memory_task" where
  "mem_write_burst_offset a vs path h =
     at_element (index_from_offset_for_range a (length vs) h) (\<lambda>i. mem_write_burst i vs path h)"

definition mem_peek_offset :: "u64 \<Rightarrow> ('a, 'd, 'e, 'w, 'd) memory_task" where
  "mem_peek_offset a h = at_element (index_from_offset_for_range a 1 h) (\<lambda>i. mem_peek i h)"

definition mem_peek_offset_into ::
  "u64 \<Rightarrow> 'd list \<Rightarrow> ('a, 'd, 'e, 'w) mem_handle \<Rightarrow> 'w \<Rightarrow> unit result \<times> 'd list \<times> 'w" where
  "mem_peek_offset_into a vs h = into_at (index_from_offset_for_range a (length vs) h) vs (\<lambda>i. mem_peek_into i vs h)"

definition mem_poke_offset :: "u64 \<Rightarrow> 'd \<Rightarrow> ('a, 'd, 'e, 'w, unit) memory_task" where
  "mem_poke_offset a v h = at_element (index_from_offset_for_range a 1 h) (\<lambda>i. mem_poke i v h)"

definition mem_poke_from_offset :: "u64 \<Rightarrow> 'd list \<Rightarrow> ('a, 'd, 'e, 'w, unit) memory_task" where
  "mem_poke_from_offset a vs h = at_element (index_from_offset_for_range a (length vs) h) (\<lambda>i. mem_poke_from i vs h)"

definition mem_read_absolute ::
  "u64 \<Rightarrow> access_path \<Rightarrow> ('a::len word, 'd::zero, 'e, 'w, 'd mem_read_response) memory_task" where
  "mem_read_absolute a path h = at_element (index_from_absolute_for_range a 1 h) (\<lambda>i. mem_read i path h)"

definition mem_read_into_absolute ::
  "u64 \<Rightarrow> 'd::zero list \<Rightarrow> access_path \<Rightarrow> ('a::len word, 'd, 'e, 'w) mem_handle \<Rightarrow> 'w \<Rightarrow>
   'd mem_read_response result \<times> 'd list \<times> 'w" where
  "mem_read_into_absolute a vs path h =
     into_at (index_from_absolute_for_range a (length vs) h) vs (\<lambda>i. mem_read_into i vs path h)"

definition mem_write_absolute ::
  "u64 \<Rightarrow> 'd \<Rightarrow> access_path \<Rightarrow> ('a::len word, 'd, 'e::len word, 'w, mem_write_response) memory_task" where
  "mem_write_absolute a v path h = at_element (index_from_absolute_for_range a 1 h) (\<lambda>i. mem_write i v path h)"

definition mem_write_burst_absolute ::
  "u64 \<Rightarrow> 'd list \<Rightarrow> access_path \<Rightarrow> ('a::len word, 'd, 'e::len word, 'w, mem_write_response) memory_task" where
  "mem_write_burst_absolute a vs path h =
     at_element (index_from_absolute_for_range a (length vs) h) (\<lambda>i. mem_write_burst i vs path h)"

definition mem_peek_absolute :: "u64 \<Rightarrow> ('a, 'd, 'e, 'w, 'd) memory_task" where
  "mem_peek_absolute a h = at_element (index_from_absolute_for_range a 1 h) (\<lambda>i. mem_peek i h)"

definition mem_peek_absolute_into ::
  "u64 \<Rightarrow> 'd list \<Rightarrow> ('a, 'd, 'e, 'w) mem_handle \<Rightarrow> 'w \<Rightarrow> unit result \<times> 'd list \<times> 'w" where
  "mem_peek_absolute_into a vs h = into_at (index_from_absolute_for_range a (length vs) h) vs (\<lambda>i. mem_peek_into i vs h)"

definition mem_poke_absolute :: "u64 \<Rightarrow> 'd \<Rightarrow> ('a, 'd, 'e, 'w, unit) memory_task" where
  "mem_poke_absolute a v h = at_element (index_from_absolute_for_range a 1 h) (\<lambda>i. mem_poke i v h)"

definition mem_poke_from_absolute :: "u64 \<Rightarrow> 'd list \<Rightarrow> ('a, 'd, 'e, 'w, unit) memory_task" where
  "mem_poke_from_absolute a vs h = at_element (index_from_absolute_for_range a (length vs) h) (\<lambda>i. mem_poke_from i vs h)"

section \<open>Slices\<close>

text \<open>A slice is the number of its first element and how many elements it has; its parent is an argument.\<close>

record mem_slice =
  sl_first :: u64
  sl_size :: nat

definition make_slice :: "u64 \<Rightarrow> nat \<Rightarrow> ('a, 'd, 'e, 'w) mem_handle \<Rightarrow> mem_slice result" where
  "make_slice first n h = result_bind (require_range first n h) (\<lambda>_. Ok \<lparr>sl_first = first, sl_size = n\<rparr>)"

definition slice_index :: "mem_slice \<Rightarrow> u64 \<Rightarrow> u64 result" where
  "slice_index sl offset =
     (if unat offset \<ge> sl_size sl then Fail (OutOfRange ''register memory slice offset out of bounds'')
      else Ok (sl_first sl + offset))"

definition slice_sized :: "mem_slice \<Rightarrow> 'd list \<Rightarrow> u64 result" where
  "slice_sized sl vs =
     (if length vs \<noteq> sl_size sl then Fail (InvalidArgument ''register memory slice span size does not match the slice'')
      else Ok (sl_first sl))"

definition slice_address :: "mem_slice \<Rightarrow> ('a, 'd, 'e, 'w) mem_handle \<Rightarrow> u64 result" where
  "slice_address sl h = address_after_range_check (sl_first sl) h"

definition slice_read ::
  "mem_slice \<Rightarrow> u64 \<Rightarrow> access_path \<Rightarrow> ('a::len word, 'd::zero, 'e, 'w, 'd mem_read_response) memory_task" where
  "slice_read sl offset path h = at_element (slice_index sl offset) (\<lambda>i. mem_read i path h)"

definition slice_read_map ::
  "mem_slice \<Rightarrow> u64 \<Rightarrow> ('a::len word, 'd::zero, 'e, 'w) address_map \<Rightarrow>
   ('a word, 'd, 'e, 'w, 'd mem_read_response) memory_task" where
  "slice_read_map sl offset am h = at_element (slice_index sl offset) (\<lambda>i. mem_read_map i am h)"

definition slice_write ::
  "mem_slice \<Rightarrow> u64 \<Rightarrow> 'd \<Rightarrow> access_path \<Rightarrow> ('a::len word, 'd, 'e::len word, 'w, mem_write_response) memory_task" where
  "slice_write sl offset v path h = at_element (slice_index sl offset) (\<lambda>i. mem_write i v path h)"

definition slice_write_map ::
  "mem_slice \<Rightarrow> u64 \<Rightarrow> 'd \<Rightarrow> ('a::len word, 'd, 'e::len word, 'w) address_map \<Rightarrow>
   ('a word, 'd, 'e word, 'w, mem_write_response) memory_task" where
  "slice_write_map sl offset v am h = at_element (slice_index sl offset) (\<lambda>i. mem_write_map i v am h)"

definition slice_read_into ::
  "mem_slice \<Rightarrow> 'd::zero list \<Rightarrow> access_path \<Rightarrow> ('a::len word, 'd, 'e, 'w) mem_handle \<Rightarrow> 'w \<Rightarrow>
   'd mem_read_response result \<times> 'd list \<times> 'w" where
  "slice_read_into sl vs path h = into_at (slice_sized sl vs) vs (\<lambda>i. mem_read_into i vs path h)"

definition slice_read_into_map ::
  "mem_slice \<Rightarrow> 'd::zero list \<Rightarrow> ('a::len word, 'd, 'e, 'w) address_map \<Rightarrow> ('a word, 'd, 'e, 'w) mem_handle \<Rightarrow> 'w \<Rightarrow>
   'd mem_read_response result \<times> 'd list \<times> 'w" where
  "slice_read_into_map sl vs am h = into_at (slice_sized sl vs) vs (\<lambda>i. mem_read_into_map i vs am h)"

definition slice_write_burst ::
  "mem_slice \<Rightarrow> 'd list \<Rightarrow> access_path \<Rightarrow> ('a::len word, 'd, 'e::len word, 'w, mem_write_response) memory_task" where
  "slice_write_burst sl vs path h = at_element (slice_sized sl vs) (\<lambda>i. mem_write_burst i vs path h)"

definition slice_write_burst_map ::
  "mem_slice \<Rightarrow> 'd list \<Rightarrow> ('a::len word, 'd, 'e::len word, 'w) address_map \<Rightarrow>
   ('a word, 'd, 'e word, 'w, mem_write_response) memory_task" where
  "slice_write_burst_map sl vs am h = at_element (slice_sized sl vs) (\<lambda>i. mem_write_burst_map i vs am h)"

definition slice_peek :: "mem_slice \<Rightarrow> u64 \<Rightarrow> ('a, 'd, 'e, 'w, 'd) memory_task" where
  "slice_peek sl offset h = at_element (slice_index sl offset) (\<lambda>i. mem_peek i h)"

definition slice_poke :: "mem_slice \<Rightarrow> u64 \<Rightarrow> 'd \<Rightarrow> ('a, 'd, 'e, 'w, unit) memory_task" where
  "slice_poke sl offset v h = at_element (slice_index sl offset) (\<lambda>i. mem_poke i v h)"

definition slice_peek_into ::
  "mem_slice \<Rightarrow> 'd list \<Rightarrow> ('a, 'd, 'e, 'w) mem_handle \<Rightarrow> 'w \<Rightarrow> unit result \<times> 'd list \<times> 'w" where
  "slice_peek_into sl vs h = into_at (slice_sized sl vs) vs (\<lambda>i. mem_peek_into i vs h)"

definition slice_poke_from :: "mem_slice \<Rightarrow> 'd list \<Rightarrow> ('a, 'd, 'e, 'w, unit) memory_task" where
  "slice_poke_from sl vs h = at_element (slice_sized sl vs) (\<lambda>i. mem_poke_from i vs h)"

end
