(* ===== verification/RegisterMemoryProps.thy ===== *)
theory RegisterMemoryProps
  imports RegisterMemory RegisterDevices MemoryProps
begin

text \<open>The properties of the memories of a register map.\<close>

section \<open>Addresses\<close>

definition element_count :: "('a, 'd, 'e, 'w) mem_handle \<Rightarrow> nat" where
  "element_count h = unat (md_entries (mh_desc h))"

definition element_step :: "('a, 'd, 'e, 'w) mem_handle \<Rightarrow> nat" where
  "element_step h = md_width (mh_desc h) div 8"

text \<open>What the constructor checks: whole bytes, and no address beyond the last one.\<close>

definition mem_handle_ok :: "('a, 'd, 'e, 'w) mem_handle \<Rightarrow> bool" where
  "mem_handle_ok h \<longleftrightarrow> 0 < md_width (mh_desc h) \<and> md_width (mh_desc h) mod 8 = 0 \<and> md_width (mh_desc h) < 65536 \<and>
     unat (mh_base h) + element_count h * element_step h \<le> max_u64"

lemma unat_element_size: "md_width md < 65536 \<Longrightarrow> unat (element_size md) = md_width md div 8"
  by (simp add: element_size_def unat_of_nat take_bit_eq_mod)

lemma unat_rest: "unat (- 1 - b :: u64) = max_u64 - unat b"
  by (rule unat_room)

lemma mem_handle_init_ok:
  fixes h :: "('a, 'd::len word, 'e, 'w) mem_handle"
  assumes "mem_handle_init m md base backdoor = Ok h" "md_width md < 65536"
  shows "mem_handle_ok h" "mh_desc h = md" "mh_base h = base + md_address md"
    "unat (mh_base h) = unat base + unat (md_address md)" "mh_master h = m" "mh_backdoor h = backdoor"
proof -
  have ok: "\<not> base > - 1 - md_address md" "validate_element TYPE('d) md = Ok ()"
    "\<not> md_entries md > (- 1 - (base + md_address md)) div element_size md"
    and h: "h = \<lparr>mh_master = m, mh_desc = md, mh_backdoor = backdoor, mh_base = base + md_address md\<rparr>"
    using assms(1) by (auto simp: mem_handle_init_def Let_def result_bind_Ok_iff split: if_splits)
  have "unat base \<le> max_u64 - unat (md_address md)" using ok(1) by (simp add: not_less word_le_nat_alt unat_rest)
  then have base: "unat (base + md_address md) = unat base + unat (md_address md)"
    using unat_u64_bound [of "md_address md"] by (simp add: unat_word_ariths max_u64_def)
  have width: "0 < md_width md" "md_width md mod 8 = 0" using ok(2) by (auto simp: validate_element_def split: if_splits)
  have "unat (md_entries md) \<le> (max_u64 - unat (base + md_address md)) div (md_width md div 8)"
    using ok(3) by (simp add: not_less word_le_nat_alt unat_div unat_rest unat_element_size [OF assms(2)])
  then have "unat (md_entries md) * (md_width md div 8) \<le> max_u64 - unat (base + md_address md)"
    using width by (metis div_le_mono div_times_less_eq_dividend le_trans mult_le_mono1)
  then show "mem_handle_ok h"
    using width assms(2) unat_u64_bound [of "base + md_address md"] by (simp add: mem_handle_ok_def h element_count_def element_step_def)
  show "mh_desc h = md" "mh_base h = base + md_address md" "unat (mh_base h) = unat base + unat (md_address md)"
    "mh_master h = m" "mh_backdoor h = backdoor" using base by (simp_all add: h)
qed

lemma element_address:
  assumes "mem_handle_ok h" "unat i \<le> element_count h"
  shows "address_after_range_check i h = Ok (mh_base h + i * element_bytes h)"
    "unat (mh_base h + i * element_bytes h) = unat (mh_base h) + unat i * element_step h"
proof -
  have bytes: "unat (element_bytes h) = element_step h" "0 < element_step h"
    using assms(1) by (auto simp: mem_handle_ok_def element_bytes_def unat_element_size element_step_def)
  have "unat i * element_step h \<le> element_count h * element_step h" using assms(2) by simp
  then have room: "unat (mh_base h) + unat i * element_step h \<le> max_u64" using assms(1) unfolding mem_handle_ok_def by linarith
  then have "unat i \<le> (max_u64 - unat (mh_base h)) div element_step h"
    using bytes(2) by (simp add: less_eq_div_iff_mult_less_eq)
  then have "\<not> i > (- 1 - mh_base h) div element_bytes h"
    by (simp add: not_less word_le_nat_alt unat_div unat_rest bytes)
  then show "address_after_range_check i h = Ok (mh_base h + i * element_bytes h)"
    by (simp add: address_after_range_check_def)
  show "unat (mh_base h + i * element_bytes h) = unat (mh_base h) + unat i * element_step h"
    using room by (simp add: unat_word_ariths bytes max_u64_def)
qed

lemma out_of_range_iff:
  "out_of_range i n h \<longleftrightarrow> \<not> (unat i + n \<le> element_count h \<and> (n \<noteq> 0 \<longrightarrow> unat i < element_count h))"
proof (cases "i > md_entries (mh_desc h)")
  case False
  then have "unat (md_entries (mh_desc h) - i) = element_count h - unat i" "unat i \<le> element_count h"
    by (simp_all add: element_count_def unat_sub not_less word_le_nat_alt)
  moreover have "i = md_entries (mh_desc h) \<longleftrightarrow> unat i = element_count h" by (simp add: element_count_def word_unat_eq_iff)
  ultimately show ?thesis using False by (auto simp: out_of_range_def Let_def)
qed (auto simp: out_of_range_def Let_def element_count_def word_less_nat_alt)

lemma mem_address_iff:
  assumes "mem_handle_ok h"
  shows "mem_address i h = Ok x \<longleftrightarrow> unat i < element_count h \<and> unat x = unat (mh_base h) + unat i * element_step h"
proof (cases "unat i < element_count h")
  case True
  then have "\<not> out_of_range i 1 h" by (simp add: out_of_range_iff)
  with True element_address [OF assms, of i] show ?thesis
    by (simp add: mem_address_def require_range_def) (metis word_unat_eq_iff)
qed (auto simp: mem_address_def require_range_def out_of_range_iff)

lemma multiple_iff: "0 < b \<Longrightarrow> (y :: nat) mod b = 0 \<and> y div b < n \<longleftrightarrow> (\<exists>k<n. y = k * b)"
  by (auto simp: mod_eq_0_iff_dvd dvd_def)

lemma memory_contains_iff:
  assumes "mem_handle_ok h"
  shows "contains_absolute x h \<longleftrightarrow> (\<exists>k<element_count h. unat x = unat (mh_base h) + k * element_step h)"
proof (cases "x < mh_base h")
  case True
  then have "unat x < unat (mh_base h)" by (simp add: word_less_nat_alt)
  with True show ?thesis by (auto simp: contains_absolute_def)
next
  case False
  then have le: "unat (mh_base h) \<le> unat x" by (simp add: not_less word_le_nat_alt)
  have bytes: "unat (element_bytes h) = element_step h" "0 < element_step h"
    using assms by (auto simp: mem_handle_ok_def element_bytes_def unat_element_size element_step_def)
  have off: "unat (x - mh_base h) = unat x - unat (mh_base h)" using False by (simp add: unat_sub not_less)
  have "contains_absolute x h \<longleftrightarrow> (unat x - unat (mh_base h)) mod element_step h = 0 \<and>
      (unat x - unat (mh_base h)) div element_step h < element_count h"
    using False by (simp add: contains_absolute_def Let_def word_unat_eq_iff word_less_nat_alt unat_div unat_mod off bytes element_count_def)
  also have "\<dots> \<longleftrightarrow> (\<exists>k<element_count h. unat x - unat (mh_base h) = k * element_step h)"
    by (rule multiple_iff [OF bytes(2)])
  also have "\<dots> \<longleftrightarrow> (\<exists>k<element_count h. unat x = unat (mh_base h) + k * element_step h)" using le by auto
  finally show ?thesis .
qed

lemma index_from_absolute_iff:
  assumes "mem_handle_ok h"
  shows "index_from_absolute x h = Ok i \<longleftrightarrow> mem_address i h = Ok x"
proof (cases "contains_absolute x h")
  case False
  then have "\<not> (\<exists>i. mem_address i h = Ok x)" using mem_address_iff [OF assms] memory_contains_iff [OF assms] by blast
  moreover have "index_from_absolute x h \<noteq> Ok i"
    using False unfolding index_from_absolute_def index_from_absolute_for_range_def contains_absolute_def Let_def
    by (auto simp: out_of_range_iff element_count_def word_less_nat_alt simp del: mod_eq_0_iff_dvd split: if_splits)
  ultimately show ?thesis by blast
next
  case True
  then obtain k where k: "k < element_count h" "unat x = unat (mh_base h) + k * element_step h" using memory_contains_iff [OF assms] by blast
  have bytes: "unat (element_bytes h) = element_step h" "0 < element_step h"
    using assms by (auto simp: mem_handle_ok_def element_bytes_def unat_element_size element_step_def)
  have le: "\<not> x < mh_base h" using True by (auto simp: contains_absolute_def)
  then have "unat ((x - mh_base h) div element_bytes h) = k" "(x - mh_base h) mod element_bytes h = 0"
    using k(2) bytes by (simp_all add: unat_div unat_sub not_less word_unat_eq_iff unat_mod)
  with k le have "index_from_absolute x h = Ok ((x - mh_base h) div element_bytes h)"
    by (simp add: index_from_absolute_def index_from_absolute_for_range_def Let_def out_of_range_iff)
  moreover have "mem_address i h = Ok x \<longleftrightarrow> unat i = k"
    using k bytes(2) by (auto simp: mem_address_iff [OF assms])
  ultimately show ?thesis using \<open>unat ((x - mh_base h) div element_bytes h) = k\<close> by (auto simp: word_unat_eq_iff)
qed

lemma index_from_offset_iff:
  assumes "mem_handle_ok h"
  shows "index_from_offset x h = Ok i \<longleftrightarrow> unat i < element_count h \<and> unat x = unat i * element_step h"
proof -
  have bytes: "unat (element_bytes h) = element_step h" "0 < element_step h"
    using assms by (auto simp: mem_handle_ok_def element_bytes_def unat_element_size element_step_def)
  have "index_from_offset x h = Ok i \<longleftrightarrow> unat x mod element_step h = 0 \<and> unat x div element_step h < element_count h \<and> i = x div element_bytes h"
    by (auto simp: index_from_offset_def index_from_offset_for_range_def require_range_def Let_def out_of_range_iff
        word_unat_eq_iff unat_mod unat_div bytes result_bind_Ok_iff split: if_splits)
  also have "\<dots> \<longleftrightarrow> unat i < element_count h \<and> unat x = unat i * element_step h"
    using bytes by (auto simp: word_unat_eq_iff unat_div)
  finally show ?thesis .
qed

text \<open>
  Property C35: the elements of a register memory have the addresses one expects and no others. An accepted memory does
  not wrap around the address space: element \<open>i\<close> lies at base plus offset plus \<open>i\<close> elements. Addresses and
  byte offsets translate back to exactly the elements they come from, an unaligned or foreign one is refused, and
  \<open>contains_absolute\<close> accepts exactly the addresses of elements.
\<close>

theorem memory_addresses_round_trip:
  fixes h :: "('a, 'd::len word, 'e, 'w) mem_handle"
  assumes "mem_handle_init m md base backdoor = Ok h" and width: "md_width md < 65536"
  shows "(i < md_entries md \<longrightarrow> (\<exists>a. mem_address i h = Ok a \<and>
      unat a = unat base + unat (md_address md) + unat i * (md_width md div 8))) \<and>
    (index_from_absolute x h = Ok i \<longleftrightarrow> mem_address i h = Ok x) \<and>
    (contains_absolute x h \<longleftrightarrow> (\<exists>i. mem_address i h = Ok x)) \<and>
    (index_from_offset x h = Ok i \<longleftrightarrow> i < md_entries md \<and> unat x = unat i * (md_width md div 8))"
proof -
  note h = mem_handle_init_ok [OF assms]
  have count: "unat i < element_count h \<longleftrightarrow> i < md_entries md" for i
    by (simp add: element_count_def h word_less_nat_alt)
  have step: "element_step h = md_width md div 8" by (simp add: element_step_def h)
  have "\<exists>a. mem_address i h = Ok a" if "i < md_entries md"
    using that count [of i] element_address(1) [OF h(1), of i] by (auto simp: mem_address_def require_range_def out_of_range_iff)
  then have 1: "i < md_entries md \<longrightarrow> (\<exists>a. mem_address i h = Ok a \<and> unat a = unat base + unat (md_address md) + unat i * (md_width md div 8))"
    using mem_address_iff [OF h(1)] h(4) step by auto
  have "contains_absolute x h \<longleftrightarrow> (\<exists>i. mem_address i h = Ok x)"
  proof
    assume "contains_absolute x h"
    then obtain k where k: "k < element_count h" "unat x = unat (mh_base h) + k * element_step h" using memory_contains_iff [OF h(1)] by blast
    have "unat (of_nat k :: u64) = k" using k(1) unat_u64_bound [of "md_entries (mh_desc h)"]
      by (simp add: element_count_def max_u64_def unat_of_nat take_bit_eq_mod)
    then show "\<exists>i. mem_address i h = Ok x" using k mem_address_iff [OF h(1), of "of_nat k" x] by auto
  qed (use mem_address_iff [OF h(1)] memory_contains_iff [OF h(1)] in blast)
  then show ?thesis
    using 1 index_from_absolute_iff [OF h(1)] index_from_offset_iff [OF h(1)] count step by simp
qed

section \<open>Bursts\<close>

text \<open>All elements have an address once the last one has.\<close>

lemma effective_memory_address_downwards:
  fixes am :: "('a::len word, 'd, 'e, 'w) address_map"
  assumes "effective_memory_address md j am = Ok a" "unat i \<le> unat j" "md_width md < 65536"
  shows "\<exists>a. effective_memory_address md i am = Ok a"
proof -
  let ?o = "route_offset (md_id md) (md_address md) (am_memory_routes am)" and ?b = "of_nat (md_width md div 8) :: u64"
  have b: "unat ?b = md_width md div 8" using unat_element_size [OF assms(3)] by (simp add: element_size_def)
  have j: "md_width md \<noteq> 0" "md_width md mod 8 = 0" "j < md_entries md" "j \<le> (- 1 - ?o) div ?b"
    "?o + j * ?b \<le> - 1 - am_base am" "fits_address TYPE('a) (am_base am + ?o + j * ?b)"
    using assms(1) by (auto simp: effective_memory_address_def Let_def split: if_splits)
  have "unat j \<le> (max_u64 - unat ?o) div unat ?b" using j(4) by (simp add: word_le_nat_alt unat_div unat_room b)
  then have jb: "unat j * unat ?b \<le> max_u64 - unat ?o"
    by (meson div_times_less_eq_dividend le_trans mult_le_mono1)
  then have small: "unat j * unat ?b \<le> max_u64" by simp
  have "unat i * unat ?b \<le> unat j * unat ?b" using assms(2) by simp
  then have ib: "unat i * unat ?b \<le> max_u64 - unat ?o" using jb by linarith
  have sums: "unat (?o + k * ?b) = unat ?o + unat k * unat ?b" if "unat k * unat ?b \<le> max_u64 - unat ?o" for k
    using that unat_u64_bound [of ?o] by (simp add: unat_word_ariths max_u64_def)
  have j5: "unat ?o + unat j * unat ?b \<le> max_u64 - unat (am_base am)"
    using j(5) sums [OF jb] by (simp add: word_le_nat_alt unat_room)
  have i5: "unat ?o + unat i * unat ?b \<le> max_u64 - unat (am_base am)"
    using j5 assms(2) mult_le_mono1 [OF assms(2), of "unat ?b"] by linarith
  have whole: "unat (am_base am + ?o + k * ?b) = unat (am_base am) + (unat ?o + unat k * unat ?b)"
    if "unat ?o + unat k * unat ?b \<le> max_u64 - unat (am_base am)" for k
    using that unat_u64_bound [of "am_base am"] unat_u64_add [of 0 0] by (simp add: unat_word_ariths max_u64_def)
  have "unat (am_base am + ?o + i * ?b) \<le> unat (am_base am + ?o + j * ?b)"
    using whole [OF j5] whole [OF i5] mult_le_mono1 [OF assms(2), of "unat ?b"] by linarith
  then have fits: "fits_address TYPE('a) (am_base am + ?o + i * ?b)" using j(6) by (simp add: fits_address_def)
  have "i < md_entries md" "i \<le> (- 1 - ?o) div ?b"
    using j(3,4) assms(2) by (simp_all add: word_less_nat_alt word_le_nat_alt)
  moreover have "?o + i * ?b \<le> - 1 - am_base am" using i5 sums [OF ib] by (simp add: word_le_nat_alt unat_room)
  ultimately show ?thesis using j(1,2) fits by (simp add: effective_memory_address_def Let_def not_le not_less)
qed

lemma supported_addresses:
  assumes "mem_handle_ok h" "require_frontdoor_supported am h = Ok ()" "i < md_entries (mh_desc h)"
  shows "\<exists>a. frontdoor_address i am h = Ok a"
proof (cases am)
  case None
  then show ?thesis using element_address(1) [OF assms(1), of i] assms(3)
    by (auto simp: frontdoor_address_def element_count_def word_less_nat_alt)
next
  case (Some m)
  have nonzero: "md_entries (mh_desc h) \<noteq> 0" using assms(3) by auto
  obtain a where a: "frontdoor_address (md_entries (mh_desc h) - 1) am h = Ok a"
    using assms(2) nonzero by (auto simp: require_frontdoor_supported_def Let_def result_bind_Ok_iff split: if_splits)
  have "unat i \<le> unat (md_entries (mh_desc h) - 1)"
    using assms(3) nonzero by (simp add: word_less_nat_alt unat_minus_one)
  then show ?thesis
    using effective_memory_address_downwards [of "mh_desc h" _ m a i] a Some assms(1) by (auto simp: frontdoor_address_def mem_handle_ok_def)
qed

definition put_elements :: "u64 \<Rightarrow> 'd list \<Rightarrow> (u64 \<Rightarrow> 'd) \<Rightarrow> u64 \<Rightarrow> 'd" where
  "put_elements first vs f = (\<lambda>j. if unat first \<le> unat j \<and> unat j < unat first + length vs then vs ! (unat j - unat first) else f j)"

lemma put_elements_Nil [simp]: "put_elements i [] f = f"
  by (auto simp: put_elements_def fun_eq_iff)

lemma put_elements_Cons:
  assumes "unat i + length vs < max_u64"
  shows "put_elements (i + 1) vs (f(i := v)) = put_elements i (v # vs) f"
proof
  fix j
  have next_i: "unat (i + 1) = unat i + 1" using unat_u64_add [of i 1] assms by simp
  show "put_elements (i + 1) vs (f(i := v)) j = put_elements i (v # vs) f j"
  proof (cases "j = i")
    case False
    then have ne: "unat j \<noteq> unat i" by (simp add: word_unat_eq_iff)
    show ?thesis
    proof (cases "unat i < unat j")
      case True
      then obtain k where "unat j = unat i + Suc k" using less_imp_Suc_add by auto
      then show ?thesis using False by (simp add: put_elements_def next_i)
    qed (use False ne in \<open>auto simp: put_elements_def next_i\<close>)
  qed (simp add: put_elements_def next_i)
qed

text \<open>What a bus promises about the elements behind it: a completed transfer reads or writes its element, a failed one nothing.\<close>

locale element_store =
  fixes am :: "('a::len word, 'd::len word, 'e::len word, 'w) address_map option"
    and h :: "('a word, 'd word, 'e word, 'w) mem_handle"
    and good :: "'w \<Rightarrow> bool" and element :: "'w \<Rightarrow> u64 \<Rightarrow> 'd word"
  assumes handle: "mem_handle_ok h" and supported: "require_frontdoor_supported am h = Ok ()"
    and written: "good w \<Longrightarrow> i < md_entries (mh_desc h) \<Longrightarrow> frontdoor_address i am h = Ok address \<Longrightarrow>
      element_write am i (ucast address) v (all_bytes h) h w = (wt, w') \<Longrightarrow>
      good w' \<and> (\<forall>j<md_entries (mh_desc h). element w' j = (if memory_okay (wr_status wt) \<and> j = i then v else element w j))"
    and sampled: "good w \<Longrightarrow> i < md_entries (mh_desc h) \<Longrightarrow> frontdoor_address i am h = Ok address \<Longrightarrow>
      element_read am i (ucast address) h w = (rt, w') \<Longrightarrow>
      good w' \<and> (\<forall>j<md_entries (mh_desc h). element w' j = element w j) \<and> (memory_okay (rr_status rt) \<longrightarrow> rr_data rt = element w i)"
begin

abbreviation same_elements :: "(u64 \<Rightarrow> 'd word) \<Rightarrow> (u64 \<Rightarrow> 'd word) \<Rightarrow> bool" where
  "same_elements f g \<equiv> \<forall>j<md_entries (mh_desc h). f j = g j"

lemma write_elements_prefix:
  assumes "unat i + length vs \<le> element_count h" "good w"
  shows "\<exists>n written w'. write_elements i vs response am h w = (Ok written, w') \<and> n \<le> length vs \<and> good w' \<and>
    mw_transfers written = mw_transfers response + n \<and> mw_path written = mw_path response \<and>
    mw_failed written = (if n = length vs then mw_failed response else Some (i + of_nat n)) \<and>
    same_elements (element w') (put_elements i (take n vs) (element w))"
  using assms
proof (induction vs arbitrary: i response w)
  case Nil
  then show ?case by auto
next
  case (Cons v vs)
  have i: "i < md_entries (mh_desc h)" using Cons.prems by (simp add: element_count_def word_less_nat_alt)
  obtain a where a: "frontdoor_address i am h = Ok a" using supported_addresses [OF handle supported i] by blast
  obtain t w1 where w1: "element_write am i (ucast a) v (all_bytes h) h w = (t, w1)"
    by (cases "element_write am i (ucast a) v (all_bytes h) h w")
  note step = written [OF Cons.prems(2) i a w1]
  have bound: "unat i + length vs < max_u64"
    using Cons.prems(1) unat_u64_bound [of "md_entries (mh_desc h)"] by (simp add: element_count_def)
  show ?case
  proof (cases "memory_okay (wr_status t)")
    case False
    then show ?thesis using step a w1 by (intro exI [of _ 0]) auto
  next
    case True
    let ?response = "response\<lparr>mw_transport := t, mw_transfers := mw_transfers response + 1\<rparr>"
    have i1: "unat (i + 1) = unat i + 1" using unat_u64_add [of i 1] bound by simp
    from Cons.IH [of "i + 1" w1 ?response] Cons.prems(1) step i1 obtain n fin w' where
      ih: "write_elements (i + 1) vs ?response am h w1 = (Ok fin, w')" "n \<le> length vs" "good w'"
      "mw_transfers fin = mw_transfers response + 1 + n" "mw_path fin = mw_path response"
      "mw_failed fin = (if n = length vs then mw_failed response else Some (i + 1 + of_nat n))"
      "same_elements (element w') (put_elements (i + 1) (take n vs) (element w1))" by auto
    have "put_elements (i + 1) (take n vs) ((element w)(i := v)) = put_elements i (take (Suc n) (v # vs)) (element w)"
      using put_elements_Cons [of i "take n vs" "element w" v] bound by simp
    moreover have "same_elements (put_elements (i + 1) (take n vs) (element w1)) (put_elements (i + 1) (take n vs) ((element w)(i := v)))"
      using step True by (auto simp: put_elements_def)
    ultimately show ?thesis using ih a w1 True by (intro exI [of _ "Suc n"]) (auto simp: algebra_simps)
  qed
qed

lemma read_elements_prefix:
  assumes "unat i + length us \<le> element_count h" "good w"
  shows "\<exists>n fin ws w'. read_elements i us response am h w = (Ok fin, ws, w') \<and> n \<le> length us \<and> good w' \<and>
    mr_transfers fin = mr_transfers response + n \<and> mr_failed fin = (if n = length us then mr_failed response else Some (i + of_nat n)) \<and>
    ws = map (\<lambda>k. element w (i + of_nat k)) [0..<n] @ drop n us \<and> same_elements (element w') (element w)"
  using assms
proof (induction us arbitrary: i response w)
  case Nil
  then show ?case by auto
next
  case (Cons u us)
  have i: "i < md_entries (mh_desc h)" using Cons.prems by (simp add: element_count_def word_less_nat_alt)
  obtain a where a: "frontdoor_address i am h = Ok a" using supported_addresses [OF handle supported i] by blast
  obtain t w1 where w1: "element_read am i (ucast a) h w = (t, w1)" by (cases "element_read am i (ucast a) h w")
  note step = sampled [OF Cons.prems(2) i a w1]
  have bound: "unat i + length us < max_u64"
    using Cons.prems(1) unat_u64_bound [of "md_entries (mh_desc h)"] by (simp add: element_count_def)
  show ?case
  proof (cases "memory_okay (rr_status t)")
    case False
    then show ?thesis using step a w1 by (intro exI [of _ 0]) auto
  next
    case True
    let ?response = "response\<lparr>mr_transport := t, mr_data := rr_data t, mr_transfers := mr_transfers response + 1\<rparr>"
    have i1: "unat (i + 1) = unat i + 1" using unat_u64_add [of i 1] bound by simp
    from Cons.IH [of "i + 1" w1 ?response] Cons.prems(1) step i1 obtain n fin ws w' where
      ih: "read_elements (i + 1) us ?response am h w1 = (Ok fin, ws, w')" "n \<le> length us" "good w'"
      "mr_transfers fin = mr_transfers response + 1 + n"
      "mr_failed fin = (if n = length us then mr_failed response else Some (i + 1 + of_nat n))"
      "ws = map (\<lambda>k. element w1 (i + 1 + of_nat k)) [0..<n] @ drop n us" "same_elements (element w') (element w1)" by auto
    have "element w1 (i + 1 + of_nat k) = element w (i + of_nat (Suc k))" if "k < n" for k
    proof -
      have "unat (i + of_nat (Suc k)) = unat i + Suc k" using that bound ih(2) by (intro unat_u64_add) simp
      then have "i + of_nat (Suc k) < md_entries (mh_desc h)"
        using that ih(2) Cons.prems(1) by (simp add: word_less_nat_alt element_count_def)
      then show ?thesis using step by (simp add: algebra_simps)
    qed
    then have "map (\<lambda>k. element w (i + of_nat k)) [0..<Suc n] = element w i # map (\<lambda>k. element w1 (i + 1 + of_nat k)) [0..<n]"
      by (simp add: map_upt_Suc del: upt_Suc)
    then show ?thesis using ih a w1 True step by (intro exI [of _ "Suc n"]) (auto simp: algebra_simps simp del: upt_Suc)
  qed
qed

end

section \<open>A memory behind the bus\<close>

definition stored_element :: "('a, 'd::len word, 'e, memory) mem_handle \<Rightarrow> memory \<Rightarrow> u64 \<Rightarrow> 'd word" where
  "stored_element h m j =
     (let a = mh_base h + j * element_bytes h in word_at (byte_order_at a (word_bytes TYPE('d word)) m) a (contents m))"

lemma bit_all_bytes:
  assumes "unat (element_bytes h) \<le> 64" "k < unat (element_bytes h)" "k < LENGTH('e)"
  shows "bit (all_bytes h :: 'e::len word) k"
proof -
  have "k < 64" using assms by simp
  moreover have "(push_bit (unat (element_bytes h)) 1 - 1 :: u64) = mask (unat (element_bytes h))" by (simp add: mask_eq_exp_minus_1 push_bit_eq_mult)
  ultimately show ?thesis using assms
    by (auto simp: all_bytes_def Let_def bit_ucast_iff bit_mask_iff simp flip: mask_eq_exp_minus_1)
qed

lemma stored_elsewhere:
  assumes "mem_handle_ok h" "unat i < element_count h" "unat j < element_count h" "i \<noteq> j"
    "element_step h = n" "l < n" "length data = n"
  shows "patch (mh_base h + i * element_bytes h) data enabled (mh_base h + j * element_bytes h + of_nat l) = None"
proof (rule ccontr)
  let ?a = "mh_base h + i * element_bytes h" and ?b = "mh_base h + j * element_bytes h"
  assume "patch ?a data enabled (?b + of_nat l) \<noteq> None"
  then have k: "unat (?b + of_nat l - ?a) < n" using assms(7) by (auto simp: patch_def Let_def split: if_splits)
  define k where "k = unat (?b + of_nat l - ?a)"
  have fits: "unat (mh_base h) + unat x * n + y \<le> max_u64" if "unat x < element_count h" "y < n" for x y
  proof -
    have "(unat x + 1) * n \<le> element_count h * n" using that(1) by (intro mult_le_mono1) simp
    then show ?thesis using assms(1,5) that(2) unfolding mem_handle_ok_def by simp
  qed
  have ab: "unat ?a = unat (mh_base h) + unat i * n" "unat ?b = unat (mh_base h) + unat j * n"
    using element_address(2) [OF assms(1)] assms(2,3,5) by simp_all
  have "unat (?b + of_nat l) = unat (mh_base h) + unat j * n + l"
    using unat_u64_add [of ?b l] fits [OF assms(3,6)] ab by simp
  moreover have "?b + of_nat l = ?a + of_nat k" by (simp add: k_def)
  moreover have "unat (?a + of_nat k) = unat (mh_base h) + unat i * n + k"
    using unat_u64_add [of ?a k] fits [OF assms(2), of k] k ab by (simp add: k_def)
  ultimately have "unat j * n + l = unat i * n + k" by simp
  then have "(unat j * n + l) div n = (unat i * n + k) div n" by simp
  then have "unat j = unat i" using k assms(6) by (simp add: k_def)
  with assms(4) show False by (simp add: word_unat_eq_iff)
qed

lemma word_at_cong:
  "(\<And>l. l < word_bytes TYPE('d word) \<Longrightarrow> f (a + of_nat l) = g (a + of_nat l)) \<Longrightarrow> (word_at order a f :: 'd::len word) = word_at order a g"
  unfolding word_at_def by (rule arg_cong [where f = "bytes_to_word order"]) simp

text \<open>Memories whose elements are the words of the bus.\<close>

definition whole_elements :: "('a, 'd::len word, 'e::len word, 'w) mem_handle \<Rightarrow> bool" where
  "whole_elements h \<longleftrightarrow> md_width (mh_desc h) = LENGTH('d) \<and> LENGTH('d) div 8 \<le> 64 \<and> LENGTH('d) div 8 \<le> LENGTH('e)"

lemma written_word_at:
  fixes v :: "'d::len word"
  assumes "8 dvd LENGTH('d)" "LENGTH('d) < 2 ^ 64" "\<And>k. k < word_bytes TYPE('d word) \<Longrightarrow> enabled k"
  shows "word_at order a (f ++ patch a (word_to_bytes order v) enabled) = v"
proof (rule bit_word_eqI)
  fix k assume k: "k < LENGTH('d)"
  have "shift_index order (word_bytes TYPE('d word)) (k div 8) < word_bytes TYPE('d word)"
    using k assms(1) by (intro shift_index_less) (auto simp: word_bytes_def)
  then show "bit (word_at order a (f ++ patch a (word_to_bytes order v) enabled) :: 'd word) k = bit v k"
    using patched_word [OF assms(1) refl k assms(2), of order a f v enabled] assms(3) by simp
qed

lemma sparse_element_store:
  fixes h :: "('a::len word, 'd::len word, 'e::len word, memory) mem_handle"
  assumes ok: "mem_handle_ok h" and bus: "mh_master h = memory_master" and whole: "whole_elements h"
    and supported: "require_frontdoor_supported None h = Ok ()"
  shows "element_store None h (\<lambda>m. memory_ok m) (stored_element h)"
proof -
  have width: "8 dvd LENGTH('d)" "LENGTH('d) < 2 ^ 64" and lanes: "word_bytes TYPE('d word) = element_step h"
    using whole ok by (auto simp: whole_elements_def mem_handle_ok_def element_step_def word_bytes_def)
  have bytes: "unat (element_bytes h) = word_bytes TYPE('d word)" "word_bytes TYPE('d word) \<le> 64" "word_bytes TYPE('d word) \<le> LENGTH('e)"
    using whole ok by (auto simp: element_bytes_def unat_element_size mem_handle_ok_def whole_elements_def word_bytes_def)
  have address: "of_int (uint (ucast address :: 'a word)) = address" "address = mh_base h + i * element_bytes h" "unat i < element_count h"
    if "i < md_entries (mh_desc h)" "frontdoor_address i None h = Ok address" for i address
  proof -
    show i: "unat i < element_count h" using that(1) by (simp add: element_count_def word_less_nat_alt)
    then show a: "address = mh_base h + i * element_bytes h"
      using that(2) element_address(1) [OF ok, of i] by (simp add: frontdoor_address_def)
    have nz: "md_entries (mh_desc h) \<noteq> 0" using that(1) by auto
    let ?l = "md_entries (mh_desc h) - 1"
    have l: "unat ?l \<le> element_count h" "unat i \<le> unat ?l"
      using nz that(1) by (simp_all add: element_count_def unat_minus_one word_less_nat_alt)
    have "fits_address TYPE('a) (mh_base h + ?l * element_bytes h)"
      using supported nz element_address(1) [OF ok l(1)]
      by (auto simp: require_frontdoor_supported_def Let_def frontdoor_address_def split: if_splits)
    moreover have "unat i * element_step h \<le> unat ?l * element_step h" using l(2) by (rule mult_le_mono1)
    ultimately have "unat address \<le> 2 ^ LENGTH('a) - 1"
      unfolding a fits_address_def using element_address(2) [OF ok l(1)] element_address(2) [OF ok, of i] i by linarith
    then have "unat address < 2 ^ LENGTH('a)" by (simp add: Suc_le_eq [symmetric] le_diff_conv2 flip: Suc_eq_plus1) 
    then have "unat (ucast address :: 'a word) = unat address"
      by (simp add: unsigned_ucast_eq take_bit_nat_eq_self)
    then have "uint (ucast address :: 'a word) = uint address" by (simp only: uint_nat)
    then show "of_int (uint (ucast address :: 'a word)) = address" by simp
  qed
  show ?thesis
  proof
    fix w i address and v :: "'d word" and wt w'
    assume w: "memory_ok w" and i: "i < md_entries (mh_desc h)" and a: "frontdoor_address i None h = Ok address"
      and t: "element_write None i (ucast address) v (all_bytes h) h w = (wt, w')"
    note at = address [OF i a]
    have 1: "write_word None (uint (ucast address :: 'a word)) v (all_bytes h) w = Ok (wt, w')"
      using t by (auto simp: element_write_def bus memory_master_def write_word_def normalize_address_def Let_def split: prod.splits)
    note new = write_word_refines [OF w width(1) 1, unfolded at(1)]
    have "stored_element h w' j = (if memory_okay (wr_status wt) \<and> j = i then v else stored_element h w j)" if j: "j < md_entries (mh_desc h)" for j
    proof (cases "memory_okay (wr_status wt)")
      case False
      then show ?thesis using new by (simp add: memory_okay_def)
    next
      case True
      let ?n = "word_bytes TYPE('d word)"
      have c: "contents w' = contents w ++ patch address (word_to_bytes (byte_order_at address ?n w) v) (bit (all_bytes h :: 'e word))"
        using new(2,6) True by (simp add: memory_okay_def)
      have order: "byte_order_at x ?n w' = byte_order_at x ?n w" for x by (rule byte_order_same_layout [OF new(5) w])
      show ?thesis
      proof (cases "j = i")
        case True
        have "k < ?n \<Longrightarrow> bit (all_bytes h :: 'e word) k" for k using bit_all_bytes [of h k] bytes by simp
        then show ?thesis
          using written_word_at [OF width, of "bit (all_bytes h :: 'e word)"] True \<open>memory_okay (wr_status wt)\<close> at(2)
          by (simp add: stored_element_def Let_def order c)
      next
        case False
        have "unat j < element_count h" using j by (simp add: element_count_def word_less_nat_alt)
        note away = stored_elsewhere [OF ok at(3) this not_sym [OF False] lanes [symmetric]]
        show ?thesis
          using False unfolding stored_element_def Let_def order c at(2)
          by (auto intro!: word_at_cong simp: map_add_def away)
      qed
    qed
    then show "memory_ok w' \<and> (\<forall>j<md_entries (mh_desc h). stored_element h w' j =
        (if memory_okay (wr_status wt) \<and> j = i then v else stored_element h w j))" using new(4) by blast
  next
    fix w i address and rt w'
    assume w: "memory_ok w" and i: "i < md_entries (mh_desc h)" and a: "frontdoor_address i None h = Ok address"
      and t: "element_read None i (ucast address) h w = (rt, w')"
    note at = address [OF i a]
    show "memory_ok w' \<and> (\<forall>j<md_entries (mh_desc h). stored_element h w' j = stored_element h w j) \<and>
        (memory_okay (rr_status rt) \<longrightarrow> rr_data rt = stored_element h w i)"
      using read_word_refines [OF w width(1), of "uint (ucast address :: 'a word)"] t w unfolding at(1)
      by (auto simp: element_read_def bus memory_master_def stored_element_def memory_okay_def at(2) Let_def)
  qed (rule ok supported)+
qed


definition block :: memory_descriptor where
  "block = \<lparr>md_id = 3, md_name = ''block'', md_path = ''block'', md_address = 16, md_entries = 2, md_width = 32,
     md_access_width = 32, md_access = RegReadWrite, md_hdl_path = []\<rparr>"

definition block_handle :: "(32 word, 32 word, 8 word, memory) mem_handle" where
  "block_handle = \<lparr>mh_master = memory_master, mh_desc = block, mh_backdoor = None, mh_base = 16\<rparr>"

lemma block_handle_init: "mem_handle_init memory_master block 0 None = Ok block_handle"
  by (simp add: mem_handle_init_def block_handle_def block_def validate_element_def element_size_def)





lemma block_supported: "require_frontdoor_supported None block_handle = Ok ()"
  by (simp add: require_frontdoor_supported_def block_handle_def block_def frontdoor_address_def address_after_range_check_def
      element_bytes_def element_size_def fits_address_def Let_def)

interpretation block_store: element_store None block_handle memory_ok "stored_element block_handle"
  by (rule sparse_element_store [OF mem_handle_init_ok(1) [OF block_handle_init] _ _ block_supported])
    (simp_all add: block_def block_handle_def whole_elements_def)



theorem memory_addresses_round_trip_witness:
  "mem_address 1 block_handle = Ok 20 \<and> index_from_absolute 20 block_handle = Ok 1 \<and> \<not> contains_absolute 24 block_handle"
proof -
  have width: "md_width block < 65536" by (simp add: block_def)
  note at = memory_addresses_round_trip [OF block_handle_init width]
  have a: "mem_address 1 block_handle = Ok 20"
    using at [of 1 20] by (auto simp: block_def word_unat_eq_iff)
  moreover have "\<not> contains_absolute 24 block_handle"
  proof
    assume "contains_absolute 24 block_handle"
    then obtain i where "mem_address i block_handle = Ok 24" using at [of _ 24] by blast
    moreover from this have "i < 2" using at [of i 24] by (auto simp: mem_address_def require_range_def out_of_range_iff element_count_def block_handle_def block_def word_less_nat_alt split: if_splits)
    ultimately show False using at [of i 24] by (auto simp: block_def word_less_nat_alt)
  qed
  ultimately show ?thesis using at [of 1 20] by blast
qed

end
