(* ===== verification/RegisterPredictor.thy ===== *)
theory RegisterPredictor
  imports RegisterHandle
begin

text \<open>
  The predictor of a register model (\<open>RegisterPredictor\<close> in \<open>register_model.hpp\<close>): it observes the transfers on a
  bus and applies each to the mirror of the register it goes to. Registers are found by address in
  entries sorted by address; a register has an entry for its own address and one for every alias. The
  handles are kept outside: an entry has the position of its handle.
\<close>

section \<open>Entries\<close>

record predictor_entry =
  pe_address :: u64
  pe_end :: u64
  pe_bytes :: nat
  pe_handle :: nat

record register_predictor =
  rp_entries :: "predictor_entry list"
  rp_reads :: u64
  rp_writes :: u64
  rp_failed :: u64
  rp_unmapped :: u64
  rp_invalid_byte_enables :: u64
  rp_warnings :: "(string \<times> u64) list"

definition transfer_bytes :: "register_descriptor \<Rightarrow> nat" where
  "transfer_bytes rd = (if rd_access_width rd = 0 then rd_width rd else rd_access_width rd) div 8"

fun check_entries :: "predictor_entry list \<Rightarrow> unit result" where
  "check_entries (e # f # es) =
     (if pe_end e > pe_address f
      then Fail (InvalidArgument ''register predictor has duplicate address or overlapping range'')
      else check_entries (f # es))"
| "check_entries es = Ok ()"

definition sort_and_validate :: "predictor_entry list \<Rightarrow> predictor_entry list result" where
  "sort_and_validate es =
     (let es = sort_key pe_address es in result_bind (check_entries es) (\<lambda>_. Ok es))"

text \<open>The entries of the registers at the given positions; \<open>None\<close> is a null pointer.\<close>

fun make_entries :: "('a, 'd, 'e, 'w) register_handle list \<Rightarrow> nat option list \<Rightarrow> predictor_entry list result" where
  "make_entries hs [] = Ok []"
| "make_entries hs (None # ks) = Fail (InvalidArgument ''register predictor received a null handle'')"
| "make_entries hs (Some k # ks) =
     result_bind (end_address (hs ! k)) (\<lambda>last.
     result_bind (make_entries hs ks) (\<lambda>es.
       Ok (\<lparr>pe_address = rh_address (hs ! k), pe_end = last, pe_bytes = transfer_bytes (rh_desc (hs ! k)), pe_handle = k\<rparr> # es)))"

definition register_predictor_init ::
  "('a, 'd, 'e, 'w) register_handle list \<Rightarrow> nat option list \<Rightarrow> register_predictor result" where
  "register_predictor_init hs ks =
     result_bind (make_entries hs ks) (\<lambda>es.
     result_bind (sort_and_validate es) (\<lambda>es.
       Ok \<lparr>rp_entries = es, rp_reads = 0, rp_writes = 0, rp_failed = 0, rp_unmapped = 0, rp_invalid_byte_enables = 0,
           rp_warnings = []\<rparr>))"

definition add_alias ::
  "nat \<Rightarrow> ('a::len word, 'd, 'e, 'w) address_map \<Rightarrow> ('a word, 'd, 'e, 'w) register_handle list \<Rightarrow>
   register_predictor \<Rightarrow> register_predictor result" where
  "add_alias k am hs rp =
     (let rd = rh_desc (hs ! k)
      in result_bind (effective_address rd am) (\<lambda>address.
         let bytes = of_nat (rd_width rd div 8)
         in if bytes > - 1 - address then Fail (OverflowError ''register predictor alias range overflows'')
            else
              result_bind
                (sort_and_validate (rp_entries rp @
                   [\<lparr>pe_address = address, pe_end = address + bytes, pe_bytes = transfer_bytes rd, pe_handle = k\<rparr>]))
                (\<lambda>es. Ok (rp\<lparr>rp_entries := es\<rparr>))))"

text \<open>The first entry at or behind an address, and the entry with the transfer at it.\<close>

definition lower_bound :: "u64 \<Rightarrow> predictor_entry list \<Rightarrow> nat" where
  "lower_bound address es = length (takeWhile (\<lambda>e. pe_address e < address) es)"

definition find_entry :: "u64 \<Rightarrow> predictor_entry list \<Rightarrow> predictor_entry option" where
  "find_entry address es =
     (let found = lower_bound address es
      in if found < length es \<and> pe_address (es ! found) = address then Some (es ! found)
         else if found = 0 then None
         else
           let previous = es ! (found - 1)
           in if address < pe_end previous \<and> pe_bytes previous \<noteq> 0 \<and>
                (address - pe_address previous) mod of_nat (pe_bytes previous) = 0
              then Some previous else None)"

section \<open>Observing\<close>

definition normalized_address :: "int \<Rightarrow> u64 option" where
  "normalized_address address = (if address < 0 then None else Some (of_int address))"

record ('d, 'e) observed_transfer =
  ot_operation :: memory_operation
  ot_address :: int
  ot_data :: 'd
  ot_byte_enable :: 'e
  ot_status :: memory_status

text \<open>Applying a transfer to the register of an entry.\<close>

definition apply_transfer ::
  "('d::len word, 'e::len word) observed_transfer \<Rightarrow> u64 \<Rightarrow> predictor_entry \<Rightarrow>
   register_predictor \<times> ('a, 'd word, 'e word, 'w) register_handle list \<Rightarrow>
   unit result \<times> register_predictor \<times> ('a, 'd word, 'e word, 'w) register_handle list" where
  "apply_transfer tr address entry = (\<lambda>(rp, hs).
     let k = pe_handle entry; h = hs ! k; at = rh_address h + (address - pe_address entry)
     in if ot_operation tr = OpRead then
          case predict_transfer_read at (ot_data tr) h of
            Inl e \<Rightarrow> (Fail e, rp, hs)
          | Inr h \<Rightarrow> (Ok (), rp\<lparr>rp_reads := rp_reads rp + 1\<rparr>, hs[k := h])
        else
          case valid_byte_enable_mask h of
            Inl e \<Rightarrow> (Fail e, rp, hs)
          | Inr allowed \<Rightarrow>
              let byte_enable = ucast (ot_byte_enable tr) :: u64;
                  extra = byte_enable AND NOT allowed;
                  rp = (if extra \<noteq> 0
                    then rp\<lparr>rp_invalid_byte_enables := rp_invalid_byte_enables rp + 1,
                            rp_warnings := rp_warnings rp @ [(rd_path (rh_desc h), extra)]\<rparr>
                    else rp)
              in case predict_transfer_write at (ot_data tr) (ucast (byte_enable AND allowed)) h of
                   Inl e \<Rightarrow> (Fail e, rp, hs)
                 | Inr h \<Rightarrow> (Ok (), rp\<lparr>rp_writes := rp_writes rp + 1\<rparr>, hs[k := h]))"

definition predictor_write ::
  "('d::len word, 'e::len word) observed_transfer \<Rightarrow>
   register_predictor \<times> ('a, 'd word, 'e word, 'w) register_handle list \<Rightarrow>
   unit result \<times> register_predictor \<times> ('a, 'd word, 'e word, 'w) register_handle list" where
  "predictor_write tr = (\<lambda>(rp, hs).
     if \<not> memory_okay (ot_status tr) then (Ok (), rp\<lparr>rp_failed := rp_failed rp + 1\<rparr>, hs)
     else
       let unmapped = (Ok (), rp\<lparr>rp_unmapped := rp_unmapped rp + 1\<rparr>, hs)
       in case normalized_address (ot_address tr) of
            None \<Rightarrow> unmapped
          | Some address \<Rightarrow>
              (case find_entry address (rp_entries rp) of
                 None \<Rightarrow> unmapped
               | Some entry \<Rightarrow> apply_transfer tr address entry (rp, hs)))"

definition predictor_observe ::
  "disposition \<Rightarrow> ('d::len word, 'e::len word) observed_transfer \<Rightarrow>
   register_predictor \<times> ('a, 'd word, 'e word, 'w) register_handle list \<Rightarrow>
   unit result \<times> register_predictor \<times> ('a, 'd word, 'e word, 'w) register_handle list" where
  "predictor_observe disposition tr x = (if disposition = Completed then predictor_write tr x else case x of (rp, hs) \<Rightarrow> (Ok (), rp, hs))"

end
