(* ===== verification/RegisterPredictorProps.thy ===== *)
theory RegisterPredictorProps
  imports RegisterPredictor RegisterRuns RegisterDevices
begin

text \<open>The properties of the predictor of a register model.\<close>

section \<open>Finding the entry of an address\<close>

text \<open>The entries are in order, none is empty and no two overlap.\<close>

definition entries_ok :: "predictor_entry list \<Rightarrow> bool" where
  "entries_ok es \<longleftrightarrow> sorted_wrt (\<lambda>e f. pe_end e \<le> pe_address f) es \<and> (\<forall>e\<in>set es. pe_address e < pe_end e)"

definition at_entry :: "u64 \<Rightarrow> predictor_entry \<Rightarrow> bool" where
  "at_entry address e \<longleftrightarrow> pe_address e \<le> address \<and> address < pe_end e \<and>
     (address = pe_address e \<or> pe_bytes e \<noteq> 0 \<and> (address - pe_address e) mod of_nat (pe_bytes e) = 0)"

lemma check_entries_sorted:
  "check_entries es = Ok () \<Longrightarrow> \<forall>e\<in>set es. pe_address e < pe_end e \<Longrightarrow> entries_ok es"
proof (induction es rule: check_entries.induct)
  case (1 e f es)
  then have ih: "entries_ok (f # es)" and le: "pe_end e \<le> pe_address f" by (auto split: if_splits)
  have "pe_end e \<le> pe_address g" if "g \<in> set (f # es)" for g
  proof (cases "g = f")
    case False
    then have "pe_end f \<le> pe_address g" using ih that by (auto simp: entries_ok_def)
    moreover have "pe_address f < pe_end f" using 1(3) by simp
    ultimately show ?thesis using le by simp
  qed (use le in simp)
  with ih 1(3) show ?case by (auto simp: entries_ok_def)
qed (auto simp: entries_ok_def)

lemma sorted_entries:
  assumes "sort_and_validate es = Ok es'" "\<forall>e\<in>set es. pe_address e < pe_end e"
  shows "entries_ok es'" "set es' = set es"
  using assms check_entries_sorted [of es'] by (auto simp: sort_and_validate_def Let_def result_bind_Ok_iff)

lemma entries_before:
  assumes "entries_ok es" "i < j" "j < length es"
  shows "pe_address (es ! i) < pe_end (es ! i)" "pe_end (es ! i) \<le> pe_address (es ! j)"
  using assms by (auto simp: entries_ok_def sorted_wrt_iff_nth_less)

lemma find_entry_hit:
  assumes ok: "entries_ok es" and e: "e \<in> set es" and at: "at_entry address e"
  shows "find_entry address es = Some e"
proof -
  obtain i where i: "i < length es" "es ! i = e" using e by (auto simp: in_set_conv_nth)
  have before: "pe_address (es ! j) < address" if "j < i" for j
    using entries_before [OF ok that i(1)] i(2) at by (auto simp: at_entry_def)
  have after: "address < pe_address (es ! j)" if "i < j" "j < length es" for j
    using entries_before(2) [OF ok that] i(2) at by (auto simp: at_entry_def)
  let ?n = "if address = pe_address e then i else i + 1"
  have "takeWhile (\<lambda>e. pe_address e < address) es = take ?n es"
  proof (rule takeWhile_eq_take_P_nth)
    fix j assume "j < ?n" "j < length es"
    then show "pe_address (es ! j) < address"
      using before [of j] at i(2) by (cases "j = i") (auto simp: at_entry_def less_Suc_eq split: if_splits)
  next
    assume n: "?n < length es"
    show "\<not> pe_address (es ! ?n) < address"
      using after [of "i + 1"] n i(2) by (auto split: if_splits)
  qed
  then have n: "lower_bound address es = ?n" using i(1) by (simp add: lower_bound_def)
  show ?thesis
  proof (cases "address = pe_address e")
    case True
    then show ?thesis using n i by (simp add: find_entry_def)
  next
    case False
    have "\<not> (i + 1 < length es \<and> pe_address (es ! (i + 1)) = address)" using after [of "i + 1"] by auto
    moreover have "address < pe_end e \<and> pe_bytes e \<noteq> 0 \<and> (address - pe_address e) mod of_nat (pe_bytes e) = 0"
      using at False by (simp add: at_entry_def)
    ultimately show ?thesis using n False i(2) unfolding find_entry_def Let_def by simp blast
  qed
qed

lemma find_entry_at:
  assumes "entries_ok es" "find_entry address es = Some e"
  shows "e \<in> set es" "at_entry address e"
proof -
  let ?n = "lower_bound address es"
  have le: "?n \<le> length es" by (simp add: lower_bound_def length_takeWhile_le)
  have "e \<in> set es \<and> at_entry address e"
  proof (cases "?n < length es \<and> pe_address (es ! ?n) = address")
    case True
    then have e: "e = es ! ?n" using assms(2) by (simp add: find_entry_def Let_def)
    then have "e \<in> set es" using True by simp
    moreover have "pe_address e = address" using True e by simp
    ultimately show ?thesis using assms(1) by (auto simp: at_entry_def entries_ok_def)
  next
    case False
    then have n: "?n \<noteq> 0" "e = es ! (?n - 1)" "address < pe_end e" "pe_bytes e \<noteq> 0"
      "(address - pe_address e) mod of_nat (pe_bytes e) = 0"
      using assms(2) unfolding find_entry_def Let_def by (auto split: if_splits)
    have "?n - 1 < length (takeWhile (\<lambda>e. pe_address e < address) es)" using n(1) by (simp add: lower_bound_def)
    then have "pe_address (es ! (?n - 1)) < address"
      by (metis nth_mem set_takeWhileD takeWhile_nth)
    moreover have "?n - 1 < length es" using n(1) le by simp
    ultimately show ?thesis using n by (auto simp: at_entry_def)
  qed
  then show "e \<in> set es" "at_entry address e" by simp_all
qed

lemma find_entry_iff:
  assumes "entries_ok es"
  shows "find_entry address es = Some e \<longleftrightarrow> e \<in> set es \<and> at_entry address e"
  using find_entry_hit [OF assms] find_entry_at [OF assms] by blast

section \<open>Building a predictor\<close>

text \<open>What the constructor of a handle ensures of its addresses.\<close>

definition handle_range_ok :: "('a, 'd, 'e, 'w) register_handle \<Rightarrow> bool" where
  "handle_range_ok h \<longleftrightarrow> 8 \<le> rd_width (rh_desc h) \<and> unat (rh_address h) + rd_width (rh_desc h) div 8 \<le> max_u64"

lemma unat_handle_end:
  assumes "handle_range_ok h"
  shows "unat (handle_end h) = unat (rh_address h) + rd_width (rh_desc h) div 8" "rh_address h < handle_end h"
proof -
  show e: "unat (handle_end h) = unat (rh_address h) + rd_width (rh_desc h) div 8"
    unfolding handle_end_def using assms by (intro unat_u64_add) (simp add: handle_range_ok_def)
  have "0 < rd_width (rh_desc h) div 8" using assms by (simp add: handle_range_ok_def div_greater_zero_iff)
  then show "rh_address h < handle_end h" using e by (simp add: word_less_nat_alt)
qed

lemma register_handle_range:
  fixes h :: "('a::len word, 'd::len word, 'e::len word, 'w) register_handle"
  assumes "register_handle_init m rd base backdoor policy = Ok h" "rh_access_error h = NoAccessError"
  shows "handle_range_ok h"
proof -
  note init = register_handle_init_ok [OF assms(1)]
  have ok: "handle_ok h" by (rule init(10) [OF assms(2)])
  then have width: "0 < rd_width rd" "rd_width rd mod 8 = 0" "rd_width rd \<le> 64" by (simp_all add: handle_ok_def Let_def init(1))
  then have "\<not> of_nat (rd_width rd div 8) > - 1 - (base + rd_address rd)"
    using assms(1) by (auto simp: register_handle_init_def Let_def result_bind_Ok_iff split: if_splits)
  moreover have "unat (of_nat (rd_width rd div 8) :: u64) = rd_width rd div 8"
    using width(3) unat_u64_add [of 0 "rd_width rd div 8"] by (simp add: max_u64_def)
  ultimately have "rd_width rd div 8 \<le> max_u64 - unat (rh_address h)"
    by (simp add: not_less word_le_nat_alt unat_room init(5))
  then show ?thesis using width unat_u64_bound [of "rh_address h"] by (auto simp: handle_range_ok_def init(1))
qed

lemma make_entries_ok:
  assumes "make_entries hs ks = Ok es"
  shows "set es = {\<lparr>pe_address = rh_address (hs ! k), pe_end = handle_end (hs ! k), pe_bytes = transfer_bytes (rh_desc (hs ! k)),
      pe_handle = k\<rparr> | k. Some k \<in> set ks}"
  using assms
  by (induction hs ks arbitrary: es rule: make_entries.induct)
    (auto simp: result_bind_Ok_iff RegisterHandle.end_address_def supported_def)

lemma predictor_init_ok:
  assumes "register_predictor_init hs ks = Ok rp" "\<forall>k. Some k \<in> set ks \<longrightarrow> handle_range_ok (hs ! k)"
  shows "entries_ok (rp_entries rp)"
    "set (rp_entries rp) = {\<lparr>pe_address = rh_address (hs ! k), pe_end = handle_end (hs ! k),
      pe_bytes = transfer_bytes (rh_desc (hs ! k)), pe_handle = k\<rparr> | k. Some k \<in> set ks}"
proof -
  obtain es es' where es: "make_entries hs ks = Ok es" "sort_and_validate es = Ok es'" "rp_entries rp = es'"
    using assms(1) by (auto simp: register_predictor_init_def result_bind_Ok_iff)
  have "rh_address (hs ! k) < handle_end (hs ! k)" if "Some k \<in> set ks" for k
    by (rule unat_handle_end(2)) (use assms(2) that in blast)
  then have "\<forall>e\<in>set es. pe_address e < pe_end e"
    unfolding make_entries_ok [OF es(1)] by auto
  from sorted_entries [OF es(2) this] show "entries_ok (rp_entries rp)"
    "set (rp_entries rp) = {\<lparr>pe_address = rh_address (hs ! k), pe_end = handle_end (hs ! k),
      pe_bytes = transfer_bytes (rh_desc (hs ! k)), pe_handle = k\<rparr> | k. Some k \<in> set ks}"
    using make_entries_ok [OF es(1)] es(3) by simp_all
qed

lemma add_alias_ok:
  assumes "add_alias k am hs rp = Ok rp'" "entries_ok (rp_entries rp)" "handle_range_ok (hs ! k)" "rd_width (rh_desc (hs ! k)) < 65536"
  obtains address where "effective_address (rh_desc (hs ! k)) am = Ok address" "entries_ok (rp_entries rp')"
    "set (rp_entries rp') = insert \<lparr>pe_address = address, pe_end = address + of_nat (rd_width (rh_desc (hs ! k)) div 8),
      pe_bytes = transfer_bytes (rh_desc (hs ! k)), pe_handle = k\<rparr> (set (rp_entries rp))"
    "unat address + rd_width (rh_desc (hs ! k)) div 8 \<le> max_u64"
proof -
  let ?b = "of_nat (rd_width (rh_desc (hs ! k)) div 8) :: u64"
  obtain address es where a: "effective_address (rh_desc (hs ! k)) am = Ok address" "\<not> ?b > - 1 - address"
    "sort_and_validate (rp_entries rp @ [\<lparr>pe_address = address, pe_end = address + ?b,
      pe_bytes = transfer_bytes (rh_desc (hs ! k)), pe_handle = k\<rparr>]) = Ok es" "rp' = rp\<lparr>rp_entries := es\<rparr>"
    using assms(1) by (auto simp: add_alias_def Let_def result_bind_Ok_iff split: if_splits)
  have b: "unat ?b = rd_width (rh_desc (hs ! k)) div 8" using assms(4) unat_u64_add [of 0 "rd_width (rh_desc (hs ! k)) div 8"] by (simp add: max_u64_def)
  have room: "unat address + rd_width (rh_desc (hs ! k)) div 8 \<le> max_u64"
    using a(2) unat_u64_bound [of address] by (simp add: not_less word_le_nat_alt unat_room b)
  have "0 < rd_width (rh_desc (hs ! k)) div 8" using assms(3) by (simp add: handle_range_ok_def div_greater_zero_iff)
  then have "address < address + ?b" using unat_u64_add [OF room] by (simp add: word_less_nat_alt)
  then have "entries_ok es" "set es = insert \<lparr>pe_address = address, pe_end = address + ?b,
      pe_bytes = transfer_bytes (rh_desc (hs ! k)), pe_handle = k\<rparr> (set (rp_entries rp))"
    using sorted_entries [OF a(3)] assms(2) by (auto simp: entries_ok_def)
  with that a room show ?thesis by simp
qed

section \<open>Traffic of other masters\<close>

text \<open>A transfer of another master on the bus of a register, all bytes enabled, and what a monitor shows of it.\<close>

datatype 'd bus_traffic = OtherWrite nat 'd | OtherRead nat

fun observe_traffic ::
  "('a::len word, 'd::len word, 'e::len word, 'w) address_map option \<Rightarrow> ('a word, 'd word, 'e word, 'w) register_handle \<Rightarrow>
   'd word bus_traffic \<Rightarrow> register_predictor \<times> ('a word, 'd word, 'e word, 'w) register_handle list \<times> 'w \<Rightarrow>
   register_predictor \<times> ('a word, 'd word, 'e word, 'w) register_handle list \<times> 'w" where
  "observe_traffic am h0 (OtherWrite t d) (rp, hs, w) =
     (case transfer_address t am h0 of
        Inl _ \<Rightarrow> (rp, hs, w)
      | Inr address \<Rightarrow>
          (case bus_write (ucast address) d (rh_all_bytes h0) am h0 w of (written, w) \<Rightarrow>
             case predictor_observe Completed
               \<lparr>ot_operation = OpWrite, ot_address = uint address, ot_data = d, ot_byte_enable = rh_all_bytes h0,
                ot_status = wr_status written\<rparr> (rp, hs) of (_, rp, hs) \<Rightarrow> (rp, hs, w)))"
| "observe_traffic am h0 (OtherRead t) (rp, hs, w) =
     (case transfer_address t am h0 of
        Inl _ \<Rightarrow> (rp, hs, w)
      | Inr address \<Rightarrow>
          (case bus_read (ucast address) am h0 w of (sampled, w) \<Rightarrow>
             case predictor_observe Completed
               \<lparr>ot_operation = OpRead, ot_address = uint address, ot_data = rr_data sampled, ot_byte_enable = rh_all_bytes h0,
                ot_status = rr_status sampled\<rparr> (rp, hs) of (_, rp, hs) \<Rightarrow> (rp, hs, w)))"

fun traffic_transfer :: "'d bus_traffic \<Rightarrow> nat" where
  "traffic_transfer (OtherWrite t d) = t"
| "traffic_transfer (OtherRead t) = t"

text \<open>The predictor has an entry of the register at the address it has on this bus.\<close>

definition has_entry ::
  "('a::len word, 'd, 'e, 'w) address_map option \<Rightarrow> ('a word, 'd, 'e, 'w) register_handle \<Rightarrow> nat \<Rightarrow> predictor_entry list \<Rightarrow> bool" where
  "has_entry am h k es \<longleftrightarrow> entries_ok es \<and> (\<exists>e\<in>set es. pe_handle e = k \<and> transfer_address 0 am h = Ok (pe_address e) \<and>
     unat (pe_address e) + rd_width (rh_desc h) div 8 \<le> max_u64 \<and>
     pe_end e = pe_address e + of_nat (rd_width (rh_desc h) div 8) \<and> pe_bytes e = transfer_bytes (rh_desc h))"

lemma handle_bytes:
  fixes h :: "('a::len word, 'd::len word, 'e::len word, 'w) register_handle"
  assumes ok: "handle_ok h"
  shows "transfer_bytes (rh_desc h) = rh_access_width h div 8" "rd_width (rh_desc h) div 8 = rh_transfer_count h * (rh_access_width h div 8)"
    "0 < rh_access_width h div 8" "rh_access_width h div 8 \<le> 8"
proof -
  note aw = ok [unfolded handle_ok_def Let_def]
  show "transfer_bytes (rh_desc h) = rh_access_width h div 8" using aw by (simp add: transfer_bytes_def)
  have "rh_access_width h mod 8 = 0" "0 < rh_access_width h" using aw by blast+
  moreover have "rh_access_width h \<le> 64" using aw by linarith
  ultimately have "rh_access_width h mod 8 = 0" "0 < rh_access_width h" "rh_access_width h \<le> 64" .
  then show "0 < rh_access_width h div 8" "rh_access_width h div 8 \<le> 8" by auto
  have "rh_access_width h = 8 * (rh_access_width h div 8)" using \<open>rh_access_width h mod 8 = 0\<close> by auto
  then show "rd_width (rh_desc h) div 8 = rh_transfer_count h * (rh_access_width h div 8)"
    using handle_okD(6) [OF ok] by (metis div_mult_self1_is_m mult.left_commute zero_less_numeral)
qed

lemma transfer_small:
  assumes "handle_ok h" "t < rh_transfer_count h"
  shows "t < 64"
proof -
  have "rh_transfer_count h \<le> rh_transfer_count h * rh_access_width h" using handle_okD(5) [OF assms(1)] by simp
  then show ?thesis using assms(2) handle_okD(3,6) [OF assms(1)] by linarith
qed

lemma transfer_at:
  fixes base :: u64 and h :: "('a::len word, 'd::len word, 'e::len word, 'w) register_handle"
  assumes ok: "handle_ok h" and range: "unat base + rd_width (rh_desc h) div 8 \<le> max_u64" and t: "t < rh_transfer_count h"
  defines "b \<equiv> rh_access_width h div 8"
  shows "unat (of_nat t * of_nat b :: u64) = t * b" "unat (base + of_nat t * of_nat b) = unat base + t * b"
    "t * b + b \<le> rd_width (rh_desc h) div 8" "(of_nat t * of_nat b :: u64) mod of_nat b = 0" "(of_nat t * of_nat b :: u64) div of_nat b = of_nat t"
proof -
  note bytes = handle_bytes [OF ok, folded b_def]
  have "(t + 1) * b \<le> rh_transfer_count h * b" using t by (intro mult_le_mono1) simp
  then show less: "t * b + b \<le> rd_width (rh_desc h) div 8" using bytes(2) by simp
  have tb: "t * b \<le> max_u64 - unat base" using less range by simp
  then have "unat (of_nat (t * b) :: u64) = t * b" using unat_u64_add [of 0 "t * b"] by simp
  then show u: "unat (of_nat t * of_nat b :: u64) = t * b" by simp
  show "unat (base + of_nat t * of_nat b) = unat base + t * b"
    using unat_u64_add [of base "t * b"] tb less range by simp
  have b: "unat (of_nat b :: u64) = b" using unat_u64_add [of 0 b] bytes(4) by (simp add: max_u64_def)
  have t64: "unat (of_nat t :: u64) = t" using transfer_small [OF ok t] unat_u64_add [of 0 t] by (simp add: max_u64_def)
  show "(of_nat t * of_nat b :: u64) mod of_nat b = 0" "(of_nat t * of_nat b :: u64) div of_nat b = of_nat t"
    using u b bytes(3) t64 by (simp_all add: word_unat_eq_iff unat_mod unat_div)
qed

lemma predict_transfers:
  fixes h :: "('a::len word, 'd::len word, 'e::len word, 'w) register_handle"
  assumes ok: "handle_ok h" and range: "handle_range_ok h" and t: "t < rh_transfer_count h" and lanes: "rh_access_width h div 8 \<le> LENGTH('e)"
  defines "at \<equiv> rh_address h + of_nat t * of_nat (rh_access_width h div 8)"
  shows "predict_transfer_read at d h = Ok (predict_read_masked (push_bit (transfer_bit_offset t h) (ucast d)) (chunk_of t h) h)"
    "predict_transfer_write at d (ucast (ucast (rh_all_bytes h) AND low_bits (rh_access_width h div 8))) h =
      Ok (predict_write_masked (push_bit (transfer_bit_offset t h) (ucast d)) (chunk_of t h) h)"
    "(ucast (rh_all_bytes h) :: u64) AND NOT (low_bits (rh_access_width h div 8)) = 0"
proof -
  let ?b = "rh_access_width h div 8"
  note bytes = handle_bytes [OF ok]
  note tr = transfer_at [OF ok range [unfolded handle_range_ok_def, THEN conjunct2] t]
  have err: "rh_access_error h = NoAccessError" by (rule handle_okD(7) [OF ok])
  have "\<not> at < rh_address h" "\<not> handle_end h \<le> at"
    using tr(2,3) unat_handle_end(1) [OF range] bytes(3) by (simp_all add: at_def word_le_nat_alt word_less_nat_alt)
  moreover have sub: "at - rh_address h = of_nat t * of_nat ?b" by (simp add: at_def)
  ultimately have "is_transfer_address at h = Ok True"
    using tr(4) err by (simp add: is_transfer_address_def supported_def require_supported_access_def)
  moreover have "unat (ucast (of_nat t :: u64) :: u32) = t"
    using transfer_small [OF ok t] by (simp add: unsigned_ucast_eq unat_of_nat take_bit_eq_mod)
  ultimately have transfer: "require_transfer_address at h = Ok t"
    using tr(5) by (simp add: require_transfer_address_def sub)
  then show "predict_transfer_read at d h = Ok (predict_read_masked (push_bit (transfer_bit_offset t h) (ucast d)) (chunk_of t h) h)"
    by (simp add: predict_transfer_read_def chunk_of_def Let_def)
  have all: "rh_all_bytes h = ucast (mask ?b :: u64)" using ok by (simp add: handle_ok_def Let_def)
  have up: "(ucast (rh_all_bytes h) :: u64) = mask ?b"
    using lanes unfolding all by (auto intro!: bit_word_eqI simp: bit_ucast_iff bits_at)
  then show "(ucast (rh_all_bytes h) :: u64) AND NOT (low_bits ?b) = 0" by (simp add: low_bits_eq)
  have "byte_mask ?b (ucast (ucast (mask ?b :: u64) :: 'e word)) = mask (rh_access_width h)"
  proof (rule bit_word_eqI)
    fix i assume "i < LENGTH(64)"
    moreover have "rh_access_width h = 8 * ?b" using ok by (auto simp: handle_ok_def Let_def)
    ultimately show "bit (byte_mask ?b (ucast (ucast (mask ?b :: u64) :: 'e word))) i = bit (mask (rh_access_width h) :: u64) i"
      using lanes bytes(4) by (auto simp: bits_at bit_ucast_iff less_mult_imp_div_less mult.commute)
  qed
  then show "predict_transfer_write at d (ucast (ucast (rh_all_bytes h) AND low_bits ?b)) h =
      Ok (predict_write_masked (push_bit (transfer_bit_offset t h) (ucast d)) (chunk_of t h) h)"
    using transfer up by (simp add: predict_transfer_write_def chunk_of_def low_bits_eq handle_okD(4) [OF ok] Let_def)
qed

text \<open>Which transfers a predictor has seen.\<close>

definition transfers_seen :: "register_predictor \<Rightarrow> u64" where
  "transfers_seen rp = rp_reads rp + rp_writes rp + rp_failed rp"

lemma observed_entry:
  fixes h :: "('a::len word, 'd::len word, 'e::len word, 'w) register_handle"
  assumes ok: "handle_ok h" and entry: "has_entry am h k es" and t: "t < rh_transfer_count h" and address: "transfer_address t am h = Ok address"
  obtains e where "normalized_address (uint address) = Some address" "find_entry address es = Some e" "pe_handle e = k"
    "rh_address h + (address - pe_address e) = rh_address h + of_nat t * of_nat (rh_access_width h div 8)"
proof -
  obtain e where e: "e \<in> set es" "pe_handle e = k" "transfer_address 0 am h = Ok (pe_address e)"
    "unat (pe_address e) + rd_width (rh_desc h) div 8 \<le> max_u64" "pe_end e = pe_address e + of_nat (rd_width (rh_desc h) div 8)"
    "pe_bytes e = transfer_bytes (rh_desc h)" and es: "entries_ok es" using entry by (auto simp: has_entry_def)
  let ?b = "rh_access_width h div 8"
  have a: "address = pe_address e + of_nat t * of_nat ?b"
    using address e(3) by (auto simp: transfer_address_def result_bind_Ok_iff split: option.splits)
  note tr = transfer_at [OF ok e(4) t] and bytes = handle_bytes [OF ok]
  have "unat (pe_end e) = unat (pe_address e) + rd_width (rh_desc h) div 8" unfolding e(5) by (rule unat_u64_add [OF e(4)])
  then have "pe_address e \<le> address" "address < pe_end e"
    using tr(2,3) bytes(3) unfolding a by (simp_all add: word_le_nat_alt word_less_nat_alt)
  moreover have "(address - pe_address e) mod of_nat (pe_bytes e) = 0" using tr(4) by (simp add: a e(6) bytes(1))
  ultimately have "at_entry address e" using bytes(1,3) e(6) by (simp add: at_entry_def)
  then have "find_entry address es = Some e" by (rule find_entry_hit [OF es e(1)])
  then show ?thesis using that [of e] e(2) a by (simp add: normalized_address_def)
qed

context register_target
begin

lemma observe_write:
  assumes step: "stays (hs ! k) w" and k: "k < length hs" and range: "handle_range_ok h0" and lanes: "rh_access_width h0 div 8 \<le> LENGTH('e)"
    and entry: "has_entry am h0 k (rp_entries rp)" and t: "t < rh_transfer_count h0"
    and run: "observe_traffic am h0 (OtherWrite t d) (rp, hs, w) = (rp', hs', w')" and address: "transfer_address t am h0 = Ok address"
  shows "stays (hs' ! k) w' \<and> hs' = hs[k := hs' ! k] \<and> rp_entries rp' = rp_entries rp \<and> rp_unmapped rp' = rp_unmapped rp \<and>
    transfers_seen rp' = transfers_seen rp + 1"
proof -
  let ?h = "hs ! k"
  note same = setup_of_eqD [OF stays_ok(2) [OF step]] and chunk = setup_of_chunk [OF stays_ok(2) [OF step]]
  obtain e where e: "normalized_address (uint address) = Some address" "find_entry address (rp_entries rp) = Some e" "pe_handle e = k"
    "rh_address h0 + (address - pe_address e) = rh_address h0 + of_nat t * of_nat (rh_access_width h0 div 8)"
    by (rule observed_entry [OF handle entry t address])
  obtain written v where bus: "bus_write (ucast address) d (rh_all_bytes h0) am h0 w = (written, v)" by (cases "bus_write (ucast address) d (rh_all_bytes h0) am h0 w")
  note hw = write_transfer [OF t address bus]
  show ?thesis
  proof (cases "memory_okay (wr_status written)")
    case False
    have "mirror_sound ?h (hw v)"
      by (rule hw_write_nothing [OF stays_ok(1) [OF step], where v = "push_bit (transfer_bit_offset t h0) (ucast d)" and l = "locked w" and r = "hw w"])
        (use hw False step in \<open>simp_all add: in_step_def same\<close>)
    then show ?thesis
      using run False hw step by (auto simp: address bus predictor_observe_def predictor_write_def in_step_def transfers_seen_def)
  next
    case True
    have ok: "handle_ok ?h" "handle_range_ok ?h" using stays_ok(1) [OF step] range by (simp_all add: handle_range_ok_def same)
    have t': "t < rh_transfer_count ?h" "rh_access_width ?h div 8 \<le> LENGTH('e)" using t lanes by (simp_all add: same)
    note p = predict_transfers [OF ok t', unfolded same chunk]
    have "in_step h0 (predict_write_masked (push_bit (transfer_bit_offset t h0) (ucast d)) (chunk_of t h0) ?h) (hw v) (locked v)"
      using in_step_write [OF step handle no_policy t] hw True by simp
    moreover have "valid_byte_enable_mask ?h = Ok (low_bits (rh_access_width h0 div 8))"
      using handle_okD(7) [OF ok(1)] by (simp add: valid_byte_enable_mask_def supported_def require_supported_access_def same)
    ultimately show ?thesis
      using run True k by (auto simp: address bus predictor_observe_def predictor_write_def e apply_transfer_def Let_def p same transfers_seen_def)
  qed
qed

lemma observe_read:
  assumes step: "stays (hs ! k) w" and k: "k < length hs" and range: "handle_range_ok h0" and lanes: "rh_access_width h0 div 8 \<le> LENGTH('e)"
    and entry: "has_entry am h0 k (rp_entries rp)" and t: "t < rh_transfer_count h0"
    and run: "observe_traffic am h0 (OtherRead t) (rp, hs, w) = (rp', hs', w')" and address: "transfer_address t am h0 = Ok address"
  shows "stays (hs' ! k) w' \<and> hs' = hs[k := hs' ! k] \<and> rp_entries rp' = rp_entries rp \<and> rp_unmapped rp' = rp_unmapped rp \<and>
    transfers_seen rp' = transfers_seen rp + 1"
proof -
  let ?h = "hs ! k"
  note same = setup_of_eqD [OF stays_ok(2) [OF step]] and chunk = setup_of_chunk [OF stays_ok(2) [OF step]]
  obtain e where e: "normalized_address (uint address) = Some address" "find_entry address (rp_entries rp) = Some e" "pe_handle e = k"
    "rh_address h0 + (address - pe_address e) = rh_address h0 + of_nat t * of_nat (rh_access_width h0 div 8)"
    by (rule observed_entry [OF handle entry t address])
  obtain sampled v where bus: "bus_read (ucast address) am h0 w = (sampled, v)" by (cases "bus_read (ucast address) am h0 w")
  note hw = read_transfer [OF t address bus]
  show ?thesis
  proof (cases "memory_okay (rr_status sampled)")
    case False
    have "mirror_sound ?h (hw v)"
      by (rule hw_read_nothing [OF stays_ok(1) [OF step], where r = "hw w"])
        (use hw False step in \<open>simp_all add: in_step_def same\<close>)
    then show ?thesis
      using run False hw step by (auto simp: address bus predictor_observe_def predictor_write_def in_step_def transfers_seen_def)
  next
    case True
    have ok: "handle_ok ?h" "handle_range_ok ?h" using stays_ok(1) [OF step] range by (simp_all add: handle_range_ok_def same)
    have t': "t < rh_transfer_count ?h" "rh_access_width ?h div 8 \<le> LENGTH('e)" using t lanes by (simp_all add: same)
    note p = predict_transfers [OF ok t', unfolded same chunk]
    have "in_step h0 (predict_read_masked (push_bit (transfer_bit_offset t h0) (ucast (rr_data sampled))) (chunk_of t h0) ?h) (hw v) (locked w)"
      using in_step_read [OF step handle no_policy] hw True by simp
    then show ?thesis
      using run True k hw by (auto simp: address bus predictor_observe_def predictor_write_def e apply_transfer_def Let_def p same transfers_seen_def)
  qed
qed

lemma observe_run:
  assumes "stays (hs ! k) w" "k < length hs" "handle_range_ok h0" "rh_access_width h0 div 8 \<le> LENGTH('e)"
    and "has_entry am h0 k (rp_entries rp)" "\<forall>x\<in>set traffic. traffic_transfer x < rh_transfer_count h0"
    and "fold (observe_traffic am h0) traffic (rp, hs, w) = (rp', hs', w')"
  shows "stays (hs' ! k) w' \<and> hs' = hs[k := hs' ! k] \<and> rp_entries rp' = rp_entries rp \<and> rp_unmapped rp' = rp_unmapped rp \<and>
    transfers_seen rp' = transfers_seen rp + of_nat (length traffic)"
  using assms
proof (induction traffic arbitrary: rp hs w)
  case (Cons x traffic)
  obtain rp1 hs1 w1 where x: "observe_traffic am h0 x (rp, hs, w) = (rp1, hs1, w1)" by (cases "observe_traffic am h0 x (rp, hs, w)")
  obtain address where "transfer_address (traffic_transfer x) am h0 = Ok address"
    using Cons.prems(5) transfer_address_all(1) by (fastforce simp: has_entry_def)
  then have 1: "stays (hs1 ! k) w1 \<and> hs1 = hs[k := hs1 ! k] \<and> rp_entries rp1 = rp_entries rp \<and> rp_unmapped rp1 = rp_unmapped rp \<and>
      transfers_seen rp1 = transfers_seen rp + 1"
    using observe_write [OF Cons.prems(1-5)] observe_read [OF Cons.prems(1-5)] Cons.prems(6) x by (cases x) auto
  then have len: "k < length hs1" using Cons.prems(2) by (metis length_list_update)
  have "stays (hs' ! k) w' \<and> hs' = hs1[k := hs' ! k] \<and> rp_entries rp' = rp_entries rp1 \<and> rp_unmapped rp' = rp_unmapped rp1 \<and>
      transfers_seen rp' = transfers_seen rp1 + of_nat (length traffic)"
    by (rule Cons.IH) (use 1 len Cons.prems x in auto)
  moreover have "hs1[k := hs' ! k] = hs[k := hs' ! k]" using 1 by (metis list_update_overwrite)
  ultimately show ?case using 1 by simp
qed simp

end

text \<open>
  Property C7: a predictor keeps the mirror of a register true to the device that other masters use. A register is built on a bus
  and a device that keep the promises of \<open>register_target\<close> and is in step with the device; a predictor
  was built for registers of disjoint addresses, this one among them. After any transfers of other masters to the register, on
  the whole transfer width, failed ones included, that a monitor shows to the predictor, every bit that the mirror
  knows, but for volatile fields, is that of the device; no other register was touched, and every transfer was
  counted and none as unmapped.
\<close>

theorem predictor_keeps_mirror:
  fixes m :: "('a::len word, 'd::len word, 'e::len word, 'w) master"
  assumes "register_handle_init m rd base backdoor None = Ok h0" "rh_access_error h0 = NoAccessError" "rh_access_width h0 div 8 \<le> LENGTH('e)"
    and target: "register_target None h0 hw locked" and step: "in_step h0 (hs ! k) (hw w) (locked w)"
    and predictor: "register_predictor_init hs ks = Ok rp" "\<forall>k. Some k \<in> set ks \<longrightarrow> handle_range_ok (hs ! k)" "Some k \<in> set ks" "k < length hs"
    and traffic: "\<forall>x\<in>set traffic. traffic_transfer x < rh_transfer_count h0"
    and run: "fold (observe_traffic None h0) traffic (rp, hs, w) = (rp', hs', w')"
  shows "(\<forall>i < rd_width rd. stable_at (rd_fields rd) i \<and> bit (rh_mirrored_valid (hs' ! k)) i \<longrightarrow>
      bit (rh_mirrored (hs' ! k)) i = bit (hw w') i) \<and>
    (\<forall>j. j \<noteq> k \<longrightarrow> hs' ! j = hs ! j) \<and> rp_unmapped rp' = 0 \<and>
    rp_reads rp' + rp_writes rp' + rp_failed rp' = of_nat (length traffic)"
proof -
  note init = register_handle_init_ok [OF assms(1)] and range = register_handle_range [OF assms(1,2)]
  note same = setup_of_eqD [OF step [unfolded in_step_def, THEN conjunct1]]
  have "transfer_address 0 None h0 = Ok (rh_address h0)" by (simp add: transfer_address_def)
  then have "has_entry None h0 k (rp_entries rp)"
    using predictor_init_ok [OF predictor(1,2)] predictor(3) range unfolding has_entry_def handle_range_ok_def
    by (auto simp: same handle_end_def)
  note after = register_target.observe_run [OF target step predictor(4) range assms(3) this traffic run]
  have "rp_reads rp = 0" "rp_writes rp = 0" "rp_failed rp = 0" "rp_unmapped rp = 0"
    using predictor(1) by (auto simp: register_predictor_init_def result_bind_Ok_iff)
  moreover have "hs' ! j = hs ! j" if "j \<noteq> k" for j using after that by (metis nth_list_update_neq)
  moreover have "setup_of (hs' ! k) = setup_of h0" "mirror_sound (hs' ! k) (hw w')" using after unfolding in_step_def by blast+
  then have "mirror_sound (hs' ! k) (hw w')" "rh_desc (hs' ! k) = rd" using setup_of_eqD init(1) by metis+
  ultimately show ?thesis using after by (auto simp: mirror_sound_def transfers_seen_def)
qed

theorem predictor_keeps_mirror_witness:
  "case fold (observe_traffic None example_handle) [OtherWrite 0 0x1234, OtherRead 1]
      (projr (register_predictor_init [example_handle] [Some 0]), [example_handle], (5, 0, 0)) of
     (rp, hs, w) \<Rightarrow> (\<forall>i < 32. stable_at (rd_fields example_register) i \<and> bit (rh_mirrored_valid (hs ! 0)) i \<longrightarrow>
       bit (rh_mirrored (hs ! 0)) i = bit (described_value w) i) \<and> rp_reads rp + rp_writes rp + rp_failed rp = 2"
proof -
  let ?rp = "projr (register_predictor_init [example_handle] [Some 0])" and ?traffic = "[OtherWrite 0 0x1234, OtherRead 1]"
  have range: "handle_range_ok example_handle" by (rule register_handle_range [OF example_handle_init])
  have init: "register_predictor_init [example_handle] [Some 0] = Ok ?rp"
    by (simp add: register_predictor_init_def sort_and_validate_def RegisterHandle.end_address_def supported_def
        require_supported_access_def example_handle_init(2))
  have step: "in_step example_handle ([example_handle] ! 0) (described_value (5, 0, 0)) (described_locks (5, 0, 0))"
    using in_step_init [OF example_handle_init, of 5] by (simp add: described_value_def described_locks_def example_register_def)
  obtain rp hs w where run: "fold (observe_traffic None example_handle) ?traffic (?rp, [example_handle], (5, 0, 0)) = (rp, hs, w)"
    by (rule prod_cases3)
  have "rd_width example_register = 32" by (simp add: example_register_def)
  then show ?thesis
    using predictor_keeps_mirror [OF example_handle_init _ described.register_target_axioms step init _ _ _ _ run] run range
    by (simp add: example_handle_fields)
qed

end
