(* ===== verification/Spec2Isabelle.thy ===== *)
theory Spec2Isabelle
  imports PackedBits SchedProps ProcessProps SyncProps MemoryProps RandomProps FixedProps LogicBits CoverageProps RegisterProps AnalysisProps RegisterMemoryProps RegisterPredictorProps
begin

text \<open>
  A verification library for \<open>cpptb\<close>, a C++ framework that runs hardware testbenches as coroutines
  against a simulator.

  What the program is. A test is a set of coroutines; they wait for clock edges, times and phases of
  the simulator, for each other, and for events, queues, semaphores and locks. The scheduler of
  \<open>include/cpptb/coro_runtime.hpp\<close> keeps the waiting coroutines and resumes them; an adapter between
  it and the simulator reads which edges anybody waits for and reports what happened. Around it are
  value types (packed bits, four-state vectors, fixed point), repeatable random streams, and the
  verification components of \<open>include/cpptb_vc\<close> (memories and their predictors, registers, analysis
  ports and scoreboards).

  Which theory models what.
    \<^item> \<open>Cpptb_Prelude\<close>: machine integers, failures (an abort with its message, or the exception that is
      thrown), the sum-typed result of a fallible operation, and facts about words, lists and sums.
    \<^item> \<open>PackedBits\<close> (\<open>packed_bits.hpp\<close>): \<open>Bits<W>\<close> as a width and its 32-bit words; access, slices, and
      parsing. \<open>LogicBits\<close> (\<open>logic_bits.hpp\<close>): the two planes of four-state vectors.
      \<open>FixedPoint\<close>, \<open>FixedLemmas\<close>, \<open>FixedProps\<close> (\<open>fixed.hpp\<close>): fixed-point values and the integers
      they stand for.
    \<^item> \<open>SchedTypes\<close>, \<open>EdgeInterest\<close>, \<open>TimerQueue\<close>, \<open>SchedCore\<close> (\<open>Scheduler\<close> in \<open>coro_runtime.hpp\<close>): the
      vocabulary of waits, which edges the adapter must report, the queue of timers, and the registrations
      of waiting coroutines: a wait has a generation, and a registration counts only while its coroutine
      still waits with that generation. \<open>SchedInvariants\<close>, \<open>SchedWaking\<close>, \<open>SchedSlots\<close> hold the
      invariant \<open>core_ok\<close> and what waking does; \<open>SchedProps\<close> the properties.
    \<^item> \<open>Processes\<close> (tasks, joins, controls, cancellation, cleanups) and \<open>Drain\<close> (the loop that resumes
      ready coroutines and its callers). What a coroutine does when it is resumed is a parameter, the
      function \<open>resume\<close>; the locale \<open>coroutine_body\<close> in \<open>DrainLemmas\<close> says what the scheduler relies on to
      stay well formed, its extension \<open>finite_work\<close> what a drain relies on to return, and scripted
      coroutines interpret both. \<open>ProcessLemmas\<close>, \<open>CancelLemmas\<close>, \<open>DrainLemmas\<close> and \<open>ProcessProps\<close>
      hold the proofs.
    \<^item> \<open>SyncPrimitives\<close> (\<open>Event\<close>, \<open>Queue\<close>, \<open>Semaphore\<close>, \<open>Lock\<close>): their waiters, promises and hand-overs over
      the scheduler, whose services are the locales \<open>wake_observer\<close> and \<open>wake_service\<close> in
      \<open>SyncLemmas\<close>, interpreted on the scheduler of \<open>SchedCore\<close>; \<open>QueueProps\<close> and \<open>SyncProps\<close> hold the properties.
    \<^item> \<open>SparseMemory\<close> (\<open>memory_model.hpp\<close>, \<open>memory_mapped.hpp\<close>): regions, accesses with and without a
      callback, words, the backdoor and the predictor. \<open>MemoryLemmas\<close> shows that a memory is one partial
      function of the address; \<open>MemoryPredictor\<close> proves the predictor inside the locale
      \<open>reference_memory\<close> and interprets it on the sparse memory; \<open>MemoryProps\<close> holds the properties.
    \<^item> \<open>Coverage\<close> (\<open>coverage.hpp\<close>): bins, coverpoints, crosses with their filters, covergroups, snapshots and
      merging. \<open>CoverageLemmas\<close> brings the loops of a sample to closed form and has the invariant
      \<open>group_ok\<close> of the reachable covergroups, \<open>CoverageRuns\<close> shows that counts add up over runs, and
      \<open>CoverageProps\<close> holds the properties.
    \<^item> The register model (\<open>register_model.hpp\<close>). \<open>RegisterFields\<close> has the descriptors of fields and
      registers and what reading and writing does to a field, \<open>RegisterMap\<close> the address map and its routes,
      \<open>RegisterHandle\<close> a handle with its staged and mirrored state, \<open>RegisterBus\<close> its operations over a bus or
      a backdoor. \<open>RegisterBits\<close> and \<open>RegisterMirror\<close> bring the word operations down to bits. What an
      operation does to the device is said in the locale \<open>register_target\<close> of \<open>RegisterTarget\<close>: the device
      is a register whose value the bus reads and writes as its descriptor says. Inside it are the lemmas
      on one operation, and in \<open>RegisterRuns\<close> those on histories of operations. \<open>RegisterDevices\<close>
      interprets it on a device computed from the descriptor and on a word of the sparse memory;
      \<open>RegisterProps\<close> holds the properties. \<open>RegisterMemory\<close> has the memories of a register map, element by
      element and in bursts; what a bus promises about the elements is the locale \<open>element_store\<close> of
      \<open>RegisterMemoryProps\<close>, interpreted on a sparse memory. \<open>RegisterPredictor\<close> is the observer that applies the
      transfers of other masters to the mirrors; \<open>RegisterPredictorProps\<close> shows what it finds and, inside
      \<open>register_target\<close>, that it keeps the mirror in step.
    \<^item> \<open>Analysis\<close> (\<open>ports.hpp\<close>, \<open>scoreboards.hpp\<close>): ports with their connections, buffers, scoreboards. A
      subscriber is a function of the value that may change the port that calls it;
      the locale \<open>analysis_subscribers\<close> in \<open>AnalysisProps\<close> says what a port relies on, and the sides of the
      scoreboards and subscribers that connect and disconnect interpret it.
    \<^item> \<open>RandomStream\<close>, \<open>RandomLemmas\<close>, \<open>RandomProps\<close> (\<open>random.hpp\<close>): seeds, the generator, draws, choices
      and shuffles.

  How the model corresponds to the code. A class is a record and each of its methods a function that
  returns the updated record; pointers into a container are positions in a list; an abort or a
  thrown exception is a \<open>Fail\<close> with its message; sizes and indices that only count are natural
  numbers, values whose width matters are words. Template parameters are arguments. Destroying the
  frame of a coroutine is an entry in the log of calls; what the destructors of its awaiters then do
  (\<open>abandon_get\<close> and the like) are operations of their own. An operation of a register is one step: nothing
  else runs while its transfer waits.

  Loops that may run forever are partial functions or have fuel, and \<open>None\<close> is a run that did not
  return: drawing below a bound (\<open>randint_exact\<close> says when it does not), removing the factors of two of a
  denominator (it always ends, \<open>from_ratio_terminates_exactly\<close>), cancelling a coroutine and draining the ready
  queue. For a cancellation as much fuel as there are coroutines is enough, unless a coroutine to be ended
  waits for itself over others, and then no fuel is
  (\<open>cancel_ends_exactly_the_tree\<close>). What coroutines do has no bound, so a drain returns when their work is
  finite, that is when every resumption diminishes a measure (\<open>drain_leaves_nobody_ready\<close>).

  What the properties show. The bookkeeping of the scheduler is kept by every operation, a wake-up
  resumes exactly the valid waiters, once and in order, a wait has one winner, cancelling ends exactly
  the coroutines that are waited for, a drain of finite work returns with nobody ready; queues deliver in order and
  within their size, locks exclude, semaphores conserve permits; a memory
  refines a partial function and a predictor counts exactly the deviations; draws stay in range and
  are unbiased; a sample counts exactly the bins and combinations it hits, and merged runs are one
  run; quantization, products and ratios are exact; parsing and slicing round-trip. After any history of
  operations, on a device that nothing else changes, the known bits of a register's mirror are those
  of the device, an update brings the device to the staged state, and a check reports exactly the differences.
  A predictor keeps the mirror so when other masters use the device. A register memory does not wrap
  around, and its bursts move exactly a prefix. A
  publication reaches the subscribers that stay connected, a scoreboard pairs the two sides key by key, and a
  buffer keeps to its overflow policy. Five
  properties show behaviour that the code does not mean to have: an edge interest that is published
  once only (\<open>sticky_interest_published_once\<close>), a wake-up lost by a queue (\<open>queue_can_lose_wakeup\<close>), a
  saturation to the wrong side (\<open>quantize_saturates_to_wrong_side\<close>), the illegal hits of a cross that
  a merge forgets (\<open>merge_drops_cross_illegal\<close>), and the mirror of a write-once field that an update forgets
  when only some of its bits are locked (\<open>update_forgets_partial_locks\<close>).

  Not modelled. Source locations, names for diagnostics, statistics and the pools of frames and
  controls; threads other than the one that runs the scheduler, which the code does not share it with;
  the formatting of diagnostics, logging and reports; the files, except what is read from or written
  to a memory image; the bindings to simulators (\<open>dpi_runtime.hpp\<close>, \<open>dpi_static_binding.hpp\<close>,
  \<open>hierarchy.hpp\<close>, \<open>clock_discovery.hpp\<close>, \<open>access_discovery.hpp\<close>, \<open>probe.hpp\<close>, \<open>inout.hpp\<close>), which call
  the simulator for everything they do; the constraint solver behind \<open>randomized.hpp\<close>; the percentage and the
  file of a coverage snapshot; registers wider than 64 bits, their coverage and sequences; the bus agents.
\<close>

end
